(* ===== verification/Prelude.thy ===== *)
theory Prelude
  imports Main "HOL-Library.Word"
begin

text \<open>
  Shared vocabulary of the development: the fixed-width integer types of the C code,
  the ways a call can end without returning (a failed \<^verbatim>\<open>assert\<close>, the
  \<^verbatim>\<open>handle_error\<close> macro, an invalid memory access), the sequencing of fallible calls,
  the rule collections that the component theories fill, and generic lemmas on words,
  lists and function updates.
\<close>

unbundle bit_operations_syntax

type_synonym u8 = "8 word"
type_synonym u16 = "16 word"
type_synonym u32 = "32 word"
type_synonym u64 = "64 word"

section \<open>Rule collections\<close>

named_theorems layout_simps "sizes, offsets and capacities of the on-page structures"
named_theorems res_simps "sequencing of fallible calls"
named_theorems rounding "the rounding macros in terms of div and mod"

section \<open>Calls that may not return\<close>

text \<open>
  \<open>Handle_error\<close> is the macro of \<^verbatim>\<open>utils/macros.h\<close> (print, then \<open>assert(0)\<close>);
  \<open>Assertion\<close> is a failed \<open>assert\<close>; \<open>Segv\<close> is an access to an address that is
  not mapped and that no handler resolves; \<open>Undefined\<close> is an access the C language gives
  no meaning to (an index out of bounds, a structure read from bytes that hold another one); \<open>Diverges\<close>
  is a call with a loop that never ends.
\<close>

datatype fail =
    Handle_error string
  | Assertion string
  | Segv nat
  | Undefined string
  | Diverges

type_synonym 'a res = "fail + 'a"

definition bindR :: "'a res \<Rightarrow> ('a \<Rightarrow> 'b res) \<Rightarrow> 'b res" where
  "bindR r f = (case r of Inl e \<Rightarrow> Inl e | Inr x \<Rightarrow> f x)"

definition assertR :: "bool \<Rightarrow> string \<Rightarrow> unit res" where
  "assertR b msg = (if b then Inr () else Inl (Assertion msg))"

lemma bindR_simps [simp, res_simps]:
  "bindR (Inl e) f = Inl e"
  "bindR (Inr x) f = f x"
  by (simp_all add: bindR_def)

lemma bindR_Inr_iff [res_simps]:
  "bindR r f = Inr y \<longleftrightarrow> (\<exists>x. r = Inr x \<and> f x = Inr y)"
  by (cases r) auto

lemma bindR_InrE:
  assumes "bindR r f = Inr y"
  obtains x where "r = Inr x" and "f x = Inr y"
  using assms by (cases r) auto

lemma assertR_simps [simp, res_simps]:
  "assertR True msg = Inr ()"
  "assertR False msg = Inl (Assertion msg)"
  by (simp_all add: assertR_def)

lemma assertR_Inr_iff [simp]: "assertR b msg = Inr u \<longleftrightarrow> b"
  by (simp add: assertR_def)

section \<open>Words\<close>

lemma and_not_mask_unat:
  fixes x :: "'a::len word"
  shows "unat (x AND NOT (mask n)) = unat x div 2 ^ n * 2 ^ n"
proof -
  have "x AND NOT (mask n) = push_bit n (drop_bit n x)"
    by (rule bit_word_eqI) (auto simp: bit_simps)
  moreover have "unat (push_bit n (drop_bit n x)) = unat x div 2 ^ n * 2 ^ n"
  proof -
    have "unat x div 2 ^ n * 2 ^ n \<le> unat x" by simp
    then have "unat x div 2 ^ n * 2 ^ n < 2 ^ LENGTH('a)"
      using unsigned_less [of x] by (rule le_less_trans)
    then show ?thesis
      unfolding unsigned_push_bit_eq unat_drop_bit_eq
      by (simp add: push_bit_eq_mult drop_bit_eq_div take_bit_nat_eq_self)
  qed
  ultimately show ?thesis by simp
qed

lemma unat_shift_right_less:
  fixes x :: "'a::len word"
  assumes "x \<noteq> 0"
  shows "unat (drop_bit (Suc 0) x) < unat x"
proof -
  from assms have "0 < unat x" by (simp add: unat_gt_0)
  then show ?thesis unfolding unat_drop_bit_eq by (simp add: drop_bit_eq_div)
qed

lemma div_mult_self_le: "(n::nat) div k * k \<le> n"
  by simp

lemma div_mult_dvd_max:
  fixes m :: nat
  assumes "k dvd m" and "m \<le> n" and "0 < k"
  shows "m \<le> n div k * k"
proof -
  from assms(1) obtain q where q: "m = k * q" by blast
  with assms(2,3) have "q \<le> n div k" by (simp add: less_eq_div_iff_mult_less_eq mult.commute)
  with q show ?thesis by (simp add: mult.commute)
qed

section \<open>Lists and updates\<close>

lemma list_update_map_upt:
  "i < n \<Longrightarrow> (map f [0..<n])[i := v] = map (f(i := v)) [0..<n]"
  by (rule nth_equalityI) (auto simp: nth_list_update)

lemma distinct_last_butlast: "distinct xs \<Longrightarrow> xs \<noteq> [] \<Longrightarrow> last xs \<notin> set (butlast xs)"
  by (induction xs) (auto dest: in_set_butlastD split: if_splits)

end
