(* ===== verification/Macros.thy ===== *)
theory Macros
  imports Prelude
begin

text \<open>
  The constants and function-like macros of \<^verbatim>\<open>settings.h\<close> and \<^verbatim>\<open>utils/macros.h\<close>:
  rounding to 8 bytes, to a cache line and to a page, flag tests, minimum and maximum, and
  the consistency test used while a container is restored. The rounding macros are applied
  to both 32-bit sizes and 64-bit addresses, so they are stated for every word length.
\<close>

unbundle bit_operations_syntax

section \<open>Constants\<close>

definition CONTAINER_CNT :: nat where "CONTAINER_CNT = 1"
definition PAGE_SIZE :: nat where "PAGE_SIZE = 4096"
definition CACHE_LINE_SIZE :: nat where "CACHE_LINE_SIZE = 64"
definition FM_FILE_SIZE :: nat where "FM_FILE_SIZE = PAGE_SIZE * 2"
definition CONTAINER_LIMA_ADDRESS :: nat where "CONTAINER_LIMA_ADDRESS = 0"

declare PAGE_SIZE_def [layout_simps] FM_FILE_SIZE_def [layout_simps]
declare CACHE_LINE_SIZE_def [layout_simps]

datatype cpoint_type = CPOINT_COMPLETE | CPOINT_INCOMPLETE | CPOINT_RESTORE | CPOINT_REGULAR

section \<open>Rounding\<close>

definition ROUND8 :: "'a::len word \<Rightarrow> 'a word" where
  "ROUND8 x = (x + 7) AND NOT 7"

definition ROUND_DWN8 :: "'a::len word \<Rightarrow> 'a word" where
  "ROUND_DWN8 x = x AND NOT 7"

definition PAGE_MASK :: "'a::len word" where
  "PAGE_MASK = 4096 - 1"

definition ROUNDPG :: "'a::len word \<Rightarrow> 'a word" where
  "ROUNDPG x = (x + PAGE_MASK) AND NOT PAGE_MASK"

definition ROUND_DWNPG :: "'a::len word \<Rightarrow> 'a word" where
  "ROUND_DWNPG x = x AND NOT PAGE_MASK"

definition CACHE_LINE_SIZE_MASK :: "'a::len word" where
  "CACHE_LINE_SIZE_MASK = 64 - 1"

definition ROUND_UPCL :: "'a::len word \<Rightarrow> 'a word" where
  "ROUND_UPCL x = (x + CACHE_LINE_SIZE_MASK) AND NOT CACHE_LINE_SIZE_MASK"

definition ROUND_DWNCL :: "'a::len word \<Rightarrow> 'a word" where
  "ROUND_DWNCL x = x AND NOT CACHE_LINE_SIZE_MASK"

lemma masks:
  "(7 :: 'a::len word) = mask 3"
  "(PAGE_MASK :: 'a::len word) = mask 12"
  "(CACHE_LINE_SIZE_MASK :: 'a::len word) = mask 6"
  by (simp_all add: PAGE_MASK_def CACHE_LINE_SIZE_MASK_def mask_eq_exp_minus_1)

lemma round_down_unat [rounding]:
  "unat (ROUND_DWN8 x) = unat x div 8 * 8"
  "unat (ROUND_DWNPG x) = unat x div 4096 * 4096"
  "unat (ROUND_DWNCL x) = unat x div 64 * 64"
  by (simp_all add: ROUND_DWN8_def ROUND_DWNPG_def ROUND_DWNCL_def masks and_not_mask_unat)

lemma round_up_as_down:
  "ROUND8 x = ROUND_DWN8 (x + 7)"
  "ROUNDPG x = ROUND_DWNPG (x + PAGE_MASK)"
  "ROUND_UPCL x = ROUND_DWNCL (x + CACHE_LINE_SIZE_MASK)"
  by (simp_all add: ROUND8_def ROUND_DWN8_def ROUNDPG_def ROUND_DWNPG_def ROUND_UPCL_def ROUND_DWNCL_def)

lemma round_up_unat_u64 [rounding]:
  fixes x :: u64
  shows "unat (ROUND8 x) = (unat x + 7) mod 2 ^ 64 div 8 * 8"
    and "unat (ROUNDPG x) = (unat x + 4095) mod 2 ^ 64 div 4096 * 4096"
    and "unat (ROUND_UPCL x) = (unat x + 63) mod 2 ^ 64 div 64 * 64"
  by (simp_all add: round_up_as_down round_down_unat unat_word_ariths PAGE_MASK_def CACHE_LINE_SIZE_MASK_def)

lemma round_up_unat_u32 [rounding]:
  fixes x :: u32
  shows "unat (ROUND8 x) = (unat x + 7) mod 2 ^ 32 div 8 * 8"
    and "unat (ROUNDPG x) = (unat x + 4095) mod 2 ^ 32 div 4096 * 4096"
  by (simp_all add: round_up_as_down round_down_unat unat_word_ariths PAGE_MASK_def)

section \<open>Minimum, maximum, flags\<close>

definition MIN_macro :: "'a::ord \<Rightarrow> 'a \<Rightarrow> 'a" where
  "MIN_macro x y = (if x < y then x else y)"

definition MAX_macro :: "'a::ord \<Rightarrow> 'a \<Rightarrow> 'a" where
  "MAX_macro x y = (if x > y then x else y)"

definition SWAP :: "'a \<times> 'a \<Rightarrow> 'a \<times> 'a" where
  "SWAP p = (snd p, fst p)"

definition test_flag :: "u8 \<Rightarrow> u8 \<Rightarrow> bool" where
  "test_flag bitarray flag \<longleftrightarrow> bitarray AND flag \<noteq> 0"

definition set_flag :: "u8 \<Rightarrow> u8 \<Rightarrow> u8" where
  "set_flag bitarray flag = bitarray OR flag"

definition clear_flag :: "u8 \<Rightarrow> u8 \<Rightarrow> u8" where
  "clear_flag bitarray flag = bitarray AND NOT flag"

text \<open>
  The consistency test of the restore, on the offsets of the current and the snapshot version of a
  node; 0 stands for none.
\<close>

definition NOT_CS_CONSISTENT :: "nat \<Rightarrow> nat \<Rightarrow> bool" where
  "NOT_CS_CONSISTENT c s \<longleftrightarrow> MIN_macro c 1 XOR MIN_macro s 1 \<noteq> 0"

lemma MAX_macro_max: "MAX_macro x y = max x (y :: 'a::linorder)"
  by (auto simp: MAX_macro_def max_def)

lemma flag_laws:
  assumes "f \<noteq> 0"
  shows "test_flag (set_flag b f) f" "\<not> test_flag (clear_flag b f) f"
    "clear_flag (set_flag b f) f = clear_flag b f"
proof -
  have "(b OR f) AND f = f" by (rule bit_word_eqI) (auto simp: bit_simps)
  then show "test_flag (set_flag b f) f" using assms by (simp add: test_flag_def set_flag_def)
  have "(b AND NOT f) AND f = 0" by (rule bit_word_eqI) (auto simp: bit_simps)
  then show "\<not> test_flag (clear_flag b f) f" by (simp add: test_flag_def clear_flag_def)
  show "clear_flag (set_flag b f) f = clear_flag b f"
    unfolding clear_flag_def set_flag_def by (rule bit_word_eqI) (auto simp: bit_simps)
qed

lemma NOT_CS_CONSISTENT_iff: "NOT_CS_CONSISTENT c s \<longleftrightarrow> (c = 0) \<noteq> (s = 0)"
  by (cases c; cases s) (auto simp: NOT_CS_CONSISTENT_def MIN_macro_def)

section \<open>Properties\<close>

text \<open>
  The rounding macros round.  On 64-bit addresses and sizes that do not wrap around, ROUNDPG
  gives the least multiple of the page size that is not smaller, ROUND_DWNPG the greatest that is
  not larger, and ROUND8 the least multiple of eight that is not smaller.
\<close>

lemma rounding_macros:
  fixes x :: u64
  assumes "unat x < 2 ^ 64 - 4096"
  shows "unat (ROUNDPG x) = (unat x + (PAGE_SIZE - 1)) div PAGE_SIZE * PAGE_SIZE \<and>
    unat x \<le> unat (ROUNDPG x) \<and> unat (ROUNDPG x) < unat x + PAGE_SIZE \<and>
    unat (ROUND_DWNPG x) \<le> unat x \<and> unat x < unat (ROUND_DWNPG x) + PAGE_SIZE \<and>
    unat x \<le> unat (ROUND8 x) \<and> unat (ROUND8 x) < unat x + 8 \<and>
    PAGE_SIZE dvd unat (ROUNDPG x) \<and> PAGE_SIZE dvd unat (ROUND_DWNPG x) \<and> 8 dvd unat (ROUND8 x)"
proof -
  have m: "(unat x + 4095) mod 2 ^ 64 = unat x + 4095" "(unat x + 7) mod 2 ^ 64 = unat x + 7"
    using assms by (simp_all add: mod_less)
  have "n \<le> (n + 4095) div 4096 * 4096" "(n + 4095) div 4096 * 4096 < n + 4096"
    "n div 4096 * 4096 \<le> n" "n < n div 4096 * 4096 + 4096"
    "n \<le> (n + 7) div 8 * 8" "(n + 7) div 8 * 8 < n + 8" for n :: nat by linarith+
  then show ?thesis
    unfolding round_up_unat_u64 round_down_unat m PAGE_SIZE_def by simp
qed

end
