(* ===== verification/Stats.thy ===== *)
theory Stats
  imports Prelude
begin

text \<open>
  The statistics of \<^verbatim>\<open>src/src/stats.h\<close> and \<^verbatim>\<open>src/src/stats.c\<close>: two groups of 64-bit counters with
  the same fields, one per transaction and one for the life of the process, the macros that
  increment and reset them, and the two reports.  A counter field is named by a constructor of
  \<^verbatim>\<open>counter\<close>, which the macro \<^verbatim>\<open>__INC_BOTH\<close> takes as its argument.
\<close>

datatype counter =
    Cont_grow | Cow_data_pg | Cow_meta_pg | Faults | Alloc_cont_pg | Free_cont_pg | Pallocations
  | Cpu_cache_flushes | Memprotects | Se_init | Sb_init | So_init | Si_init | Sd_init

record global_stats =
  per_transaction :: "counter \<Rightarrow> u64"
  general :: "counter \<Rightarrow> u64"
  transactions :: u64

definition GLOBAL_STATS :: global_stats where
  "GLOBAL_STATS = \<lparr>per_transaction = (\<lambda>_. 0), general = (\<lambda>_. 0), transactions = 0\<rparr>"

definition INC_BOTH :: "counter \<Rightarrow> global_stats \<Rightarrow> global_stats" where
  "INC_BOTH name g =
     g\<lparr>per_transaction := (per_transaction g)(name := per_transaction g name + 1),
       general := (general g)(name := general g name + 1)\<rparr>"

definition STATS_INC_FAULTS :: "global_stats \<Rightarrow> global_stats" where
  "STATS_INC_FAULTS g =
     INC_BOTH Faults
       (if per_transaction g Faults = 0 then g\<lparr>transactions := transactions g + 1\<rparr> else g)"

definition STATS_RESET_TRANSACTION_COUNTERS :: "global_stats \<Rightarrow> global_stats" where
  "STATS_RESET_TRANSACTION_COUNTERS g =
     g\<lparr>per_transaction := (per_transaction g)
        (Cont_grow := 0, Cow_data_pg := 0, Cow_meta_pg := 0, Faults := 0, Alloc_cont_pg := 0,
         Free_cont_pg := 0, Pallocations := 0, Cpu_cache_flushes := 0, Memprotects := 0)\<rparr>"

text \<open>The conversion \<^verbatim>\<open>%lu\<close> of sprintf.\<close>

fun decimal :: "nat \<Rightarrow> string" where
  "decimal n = (if n < 10 then [char_of (48 + n)] else decimal (n div 10) @ [char_of (48 + n mod 10)])"

declare decimal.simps [simp del]

definition counter_lines :: "(string \<times> counter) list" where
  "counter_lines =
     [(''   cont_grow: '', Cont_grow), (''   cow_data_pg: '', Cow_data_pg),
      (''   cow_meta_pg: '', Cow_meta_pg), (''   faults: '', Faults),
      (''   alloc_cont_pg: '', Alloc_cont_pg), (''   free_cont_pg: '', Free_cont_pg),
      (''   pallocations: '', Pallocations), (''   cpu_cache_flushes: '', Cpu_cache_flushes),
      (''   memprotects: '', Memprotects), (''   se_init: '', Se_init), (''   sb_init: '', Sb_init),
      (''   so_init: '', So_init), (''   si_init: '', Si_init), (''   sd_init: '', Sd_init)]"

definition newline :: string where
  "newline = [char_of (10::nat)]"

definition report_line :: "(counter \<Rightarrow> u64) \<Rightarrow> string \<times> counter \<Rightarrow> string" where
  "report_line c l = fst l @ decimal (unat (c (snd l))) @ newline"

definition stats_pt_report :: "global_stats \<Rightarrow> string" where
  "stats_pt_report g =
     ''Transaction '' @ decimal (unat (transactions g)) @ '' {'' @ newline @
     concat (map (report_line (per_transaction g)) counter_lines) @ ''}''"

definition stats_general_report :: "global_stats \<Rightarrow> string" where
  "stats_general_report g =
     ''General {'' @ newline @ ''   transactions: '' @ decimal (unat (transactions g)) @ newline @
     concat (map (report_line (general g)) counter_lines) @ ''}''"

text \<open>The reports are written to static buffers of this size, with a terminating null byte.\<close>

definition REPORT_BUFFER :: nat where
  "REPORT_BUFFER = 512"

section \<open>Lemmas\<close>

lemma INC_BOTH_simps [simp]:
  "per_transaction (INC_BOTH c g) d = (if d = c then per_transaction g d + 1 else per_transaction g d)"
  "general (INC_BOTH c g) d = (if d = c then general g d + 1 else general g d)"
  "transactions (INC_BOTH c g) = transactions g"
  by (simp_all add: INC_BOTH_def)

lemma decimal_length: "n < 10 ^ Suc k \<Longrightarrow> length (decimal n) \<le> Suc k"
proof (induction k arbitrary: n)
  case (Suc k)
  then have "n div 10 < 10 ^ Suc k" by (simp add: less_mult_imp_div_less)
  then have "length (decimal (n div 10)) \<le> Suc k" by (rule Suc.IH)
  then show ?case by (simp add: decimal.simps [of n])
qed (simp add: decimal.simps)

lemma report_lines_length:
  assumes "\<And>c. unat (f c) < 10 ^ 17"
  shows "length (concat (map (report_line f) counter_lines)) \<le>
    sum_list (map (\<lambda>l. length (fst l) + 18) counter_lines)"
proof -
  have "length (decimal (unat (f c))) \<le> 17" for c
    using decimal_length [of "unat (f c)" 16] assms [of c] by simp
  then have "length (report_line f l) \<le> length (fst l) + 18" for l
    by (simp add: report_line_def newline_def)
  then show ?thesis unfolding length_concat map_map comp_def by (rule sum_list_mono)
qed

section \<open>Properties\<close>

text \<open>
  The two reports fit the static buffers of 512 bytes they are printed to with their
  terminating null byte, as long as every counter is below ten to the seventeenth.
\<close>

lemma stats_reports_fit:
  assumes "\<And>c. unat (per_transaction g c) < 10 ^ 17" and "\<And>c. unat (general g c) < 10 ^ 17"
    and "unat (transactions g) < 10 ^ 17"
  shows "length (stats_pt_report g) < REPORT_BUFFER \<and> length (stats_general_report g) < REPORT_BUFFER"
proof -
  have t: "length (decimal (unat (transactions g))) \<le> 17"
    using decimal_length [of "unat (transactions g)" 16] assms(3) by simp
  have s: "sum_list (map (\<lambda>l. length (fst l) + 18) counter_lines) = 459"
    by (simp add: counter_lines_def)
  have "length (concat (map (report_line (per_transaction g)) counter_lines)) \<le> 459"
    "length (concat (map (report_line (general g)) counter_lines)) \<le> 459"
    using report_lines_length [OF assms(1)] report_lines_length [OF assms(2)] s by simp_all
  then show ?thesis using t
    by (simp add: stats_pt_report_def stats_general_report_def REPORT_BUFFER_def newline_def)
qed

text \<open>
  A transaction is counted at its first fault only, and a reset starts the next transaction:
  between two resets the number of transactions grows by one when there is a fault and not at all
  when there is none.  The reset leaves the counters of newly initialised slab nodes alone, so
  these run on over transactions although they are reported per transaction.
\<close>

lemma transactions_counted_once:
  assumes "n < 2 ^ 64"
  shows "let g' = (STATS_INC_FAULTS ^^ n) (STATS_RESET_TRANSACTION_COUNTERS g) in
     transactions g' = (if n = 0 then transactions g else transactions g + 1) \<and>
     per_transaction g' Faults = of_nat n \<and>
     per_transaction g' Se_init = per_transaction g Se_init \<and>
     general g' Faults = general g Faults + of_nat n"
  using assms
proof (induction n)
  case 0
  then show ?case by (simp add: STATS_RESET_TRANSACTION_COUNTERS_def)
next
  case (Suc n)
  have "(of_nat n :: u64) = 0 \<longleftrightarrow> n = 0" 
  proof
    assume "(of_nat n :: u64) = 0"
    then have "unat (of_nat n :: u64) = 0" by simp
    then show "n = 0" using Suc.prems by (simp add: unat_of_nat)
  qed simp
  with Suc show ?case by (auto simp: STATS_INC_FAULTS_def Let_def)
qed

end
