(* ===== verification/Os.thy ===== *)
theory Os
  imports Macros Stats
begin

text \<open>
  What the page allocators use of the operating system, and the parts of \<^verbatim>\<open>src/src/page_alloc.c\<close>
  and \<^verbatim>\<open>src/src/fixmapper.c\<close> that sit directly on it.  The state is the container file (its length
  and the contents of its pages), the virtual pages that map pages of the file with their
  protection, the virtual pages that the rest of the process has mapped, the room on the device,
  the place the kernel chooses for a mapping, the lines of \<^verbatim>\<open>/proc/self/maps\<close>, and the statistics
  of the process, which the allocators count in.  The system calls behave as documented:
  posix_fallocate extends the file to offset plus length, mmap replaces mappings, mprotect fails on
  unmapped pages, remap_file_pages changes the file page behind an address and keeps the
  protection.
\<close>

record 'p os =
  os_len :: nat
  os_pages :: "nat \<Rightarrow> 'p"
  os_vm :: "nat \<Rightarrow> nat option"
  os_prot :: "nat \<Rightarrow> nat"
  os_other :: "nat \<Rightarrow> bool"
  os_space :: nat
  os_place :: "nat \<Rightarrow> nat \<Rightarrow> nat"
  os_maps :: "(u64 \<times> u64) list"
  os_stats :: global_stats

text \<open>The environment variables the library reads, as their numeric values.\<close>

record env =
  PMLIB_INIT_SIZE :: "int option"
  PMLIB_USE_NLMAPPER :: "int option"
  PMLIB_FIX_PTRS :: "int option"
  PMLIB_CLOSURE :: "int option"

definition PA_PROT_READ :: nat where "PA_PROT_READ = 1"
definition PA_PROT_WRITE :: nat where "PA_PROT_WRITE = 2"
definition PA_PROT_RNW :: nat where "PA_PROT_RNW = 3"

definition DEFAULT_MAPPING_PROT :: nat where "DEFAULT_MAPPING_PROT = PA_PROT_READ"

definition writable :: "nat \<Rightarrow> bool" where
  "writable flags \<longleftrightarrow> flags div 2 mod 2 = 1"

definition stat :: "(global_stats \<Rightarrow> global_stats) \<Rightarrow> 'p os \<Rightarrow> 'p os" where
  "stat f s = s\<lparr>os_stats := f (os_stats s)\<rparr>"

section \<open>System calls\<close>

definition vpn :: "nat \<Rightarrow> nat" where
  "vpn a = a div PAGE_SIZE"

definition vpn_end :: "nat \<Rightarrow> nat \<Rightarrow> nat" where
  "vpn_end a n = (a + n + (PAGE_SIZE - 1)) div PAGE_SIZE"

definition in_range :: "nat \<Rightarrow> nat \<Rightarrow> nat \<Rightarrow> bool" where
  "in_range a n v \<longleftrightarrow> vpn a \<le> v \<and> v < vpn_end a n"

definition EINVAL :: nat where "EINVAL = 22"
definition ENOSPC :: nat where "ENOSPC = 28"

definition posix_fallocate :: "nat \<Rightarrow> nat \<Rightarrow> 'p os \<Rightarrow> nat \<times> 'p os" where
  "posix_fallocate off n s =
     (if n = 0 then (EINVAL, s)
      else if off + n > os_space s then (ENOSPC, s)
      else (0, s\<lparr>os_len := max (os_len s) (off + n)\<rparr>))"

definition sys_mmap :: "nat \<Rightarrow> nat \<Rightarrow> nat \<Rightarrow> nat \<Rightarrow> 'p os \<Rightarrow> nat \<times> 'p os" where
  "sys_mmap hint n prot off s =
     (let a = os_place s hint n in
      (a, s\<lparr>os_vm := (\<lambda>v. if in_range a n v then Some (vpn off + (v - vpn a)) else os_vm s v),
            os_prot := (\<lambda>v. if in_range a n v then prot else os_prot s v)\<rparr>))"

definition sys_munmap :: "nat \<Rightarrow> nat \<Rightarrow> 'p os \<Rightarrow> 'p os" where
  "sys_munmap a n s =
     s\<lparr>os_vm := (\<lambda>v. if in_range a n v then None else os_vm s v),
       os_other := (\<lambda>v. if in_range a n v then False else os_other s v)\<rparr>"

definition sys_mprotect :: "nat \<Rightarrow> nat \<Rightarrow> nat \<Rightarrow> 'p os \<Rightarrow> nat \<times> 'p os" where
  "sys_mprotect a n prot s =
     (if list_all (\<lambda>v. os_vm s v \<noteq> None) [vpn a..<vpn_end a n]
      then (0, s\<lparr>os_prot := (\<lambda>v. if in_range a n v then prot else os_prot s v)\<rparr>)
      else (1, s))"

definition remap_file_pages :: "nat \<Rightarrow> nat \<Rightarrow> 'p os \<Rightarrow> nat \<times> 'p os" where
  "remap_file_pages a pgoff s =
     (if os_vm s (vpn a) \<noteq> None then (0, s\<lparr>os_vm := (os_vm s)(vpn a := Some pgoff)\<rparr>) else (1, s))"

section \<open>Protection\<close>

definition page_allocator_mprotect_generic :: "nat \<Rightarrow> nat \<Rightarrow> nat \<Rightarrow> 'p os \<Rightarrow> 'p os res" where
  "page_allocator_mprotect_generic maddr n flags s =
     (case sys_mprotect maddr n flags (stat (INC_BOTH Memprotects) s) of
        (rc, s') \<Rightarrow> if rc \<noteq> 0 then Inl (Handle_error ''failed to memprotect page'') else Inr s')"

text \<open>
  The switch on the result of posix_fallocate in both mappers: every code it names ends in
  \<^verbatim>\<open>handle_error\<close>.
\<close>

definition check_fallocate :: "nat \<Rightarrow> unit res" where
  "check_fallocate rc =
     (if rc = 0 then Inr ()
      else if rc = 9 then Inl (Handle_error ''EBADF'')
      else if rc = 27 then Inl (Handle_error ''EFBIG'')
      else if rc = EINVAL then Inl (Handle_error ''EINVAL'')
      else if rc = 19 then Inl (Handle_error ''ENODEV'')
      else if rc = ENOSPC then Inl (Handle_error ''ENOSPC'')
      else if rc = 29 then Inl (Handle_error ''ESPIPE'')
      else Inr ())"

text \<open>The size a new container file gets.\<close>

definition initial_size :: "env \<Rightarrow> nat" where
  "initial_size e =
     (case PMLIB_INIT_SIZE e of
        None \<Rightarrow> FM_FILE_SIZE
      | Some v \<Rightarrow> max (unat (ROUNDPG (word_of_int v :: u64))) PAGE_SIZE)"

section \<open>A place for the mapping\<close>

definition GIGABYTE :: u64 where "GIGABYTE = 2 ^ 30"
definition GIGABYTE_MASK :: u64 where "GIGABYTE_MASK = GIGABYTE - 1"
definition ROUND2GB :: "u64 \<Rightarrow> u64" where
  "ROUND2GB x = (x + GIGABYTE_MASK) AND NOT GIGABYTE_MASK"
definition TERABYTE :: u64 where "TERABYTE = 2 ^ 40"

text \<open>The loop of map_hint over the ranges of \<^verbatim>\<open>/proc/self/maps\<close>.\<close>

fun map_hint_loop :: "u64 \<Rightarrow> (u64 \<times> u64) list \<Rightarrow> u64 \<Rightarrow> u64" where
  "map_hint_loop len [] raddr = raddr"
| "map_hint_loop len ((lo, hi) # lines) raddr =
     (if lo > raddr \<and> lo - raddr \<ge> len then raddr
      else let raddr' = (if hi > raddr then ROUND2GB hi else raddr) in
           if raddr' = 0 then 0 else map_hint_loop len lines raddr')"

definition map_hint :: "u64 \<Rightarrow> (u64 \<times> u64) list \<Rightarrow> u64" where
  "map_hint len lines =
     (let raddr = map_hint_loop len lines TERABYTE in
      if raddr \<noteq> 0 \<and> - 1 - raddr < len then 0 else raddr)"

section \<open>Lemmas\<close>

lemma stat_simps [simp]:
  "os_len (stat f s) = os_len s" "os_pages (stat f s) = os_pages s" "os_vm (stat f s) = os_vm s"
  "os_prot (stat f s) = os_prot s" "os_other (stat f s) = os_other s" "os_space (stat f s) = os_space s"
  "os_place (stat f s) = os_place s" "os_maps (stat f s) = os_maps s" "os_stats (stat f s) = f (os_stats s)"
  by (simp_all add: stat_def)

lemma writable_flags [simp]:
  "\<not> writable PA_PROT_READ" "writable PA_PROT_WRITE" "writable PA_PROT_RNW"
  by (simp_all add: writable_def PA_PROT_READ_def PA_PROT_WRITE_def PA_PROT_RNW_def)

lemma vpn_aligned [simp]: "PAGE_SIZE dvd a \<Longrightarrow> vpn (a + i * PAGE_SIZE) = vpn a + i"
  by (auto simp: vpn_def PAGE_SIZE_def)

lemma in_range_pages:
  assumes "PAGE_SIZE dvd a"
  shows "in_range a (n * PAGE_SIZE) v \<longleftrightarrow> vpn a \<le> v \<and> v < vpn a + n"
proof -
  from assms obtain k where k: "a = PAGE_SIZE * k" by blast
  have "PAGE_SIZE * k + n * PAGE_SIZE + (PAGE_SIZE - 1) = (PAGE_SIZE - 1) + (k + n) * PAGE_SIZE"
    by (simp add: algebra_simps)
  then have "vpn_end a (n * PAGE_SIZE) = k + n"
    unfolding vpn_end_def k by (simp only: div_mult_self1) (simp add: PAGE_SIZE_def)
  moreover have "vpn a = k" by (simp add: vpn_def k PAGE_SIZE_def)
  ultimately show ?thesis by (simp add: in_range_def)
qed

lemma in_range_page: "PAGE_SIZE dvd a \<Longrightarrow> in_range a PAGE_SIZE v \<longleftrightarrow> v = vpn a"
  using in_range_pages [of a 1 v] by auto

lemma upt_page: "PAGE_SIZE dvd a \<Longrightarrow> [vpn a..<vpn_end a PAGE_SIZE] = [vpn a]"
  by (auto simp: vpn_def vpn_end_def PAGE_SIZE_def)

lemma mprotect_page:
  assumes "PAGE_SIZE dvd a" and "os_vm s (vpn a) \<noteq> None"
  shows "page_allocator_mprotect_generic a PAGE_SIZE flags s =
    Inr ((stat (INC_BOTH Memprotects) s)\<lparr>os_prot := (os_prot s)(vpn a := flags)\<rparr>)"
  using assms
  by (auto simp: page_allocator_mprotect_generic_def sys_mprotect_def upt_page in_range_page stat_def fun_upd_def cong: if_cong)

lemma check_fallocate_zero [simp]: "check_fallocate rc = Inr () \<longleftrightarrow> rc \<notin> {9, 27, 22, 19, 28, 29}"
  by (auto simp: check_fallocate_def EINVAL_def ENOSPC_def)

lemma initial_size_pages: "PAGE_SIZE \<le> initial_size e" "PAGE_SIZE dvd initial_size e"
proof -
  show "PAGE_SIZE \<le> initial_size e"
    by (auto simp: initial_size_def FM_FILE_SIZE_def split: option.split)
  have "PAGE_SIZE dvd unat (ROUNDPG x)" for x :: u64
    by (simp add: round_up_unat_u64 PAGE_SIZE_def)
  then show "PAGE_SIZE dvd initial_size e"
    by (auto simp: initial_size_def FM_FILE_SIZE_def max_def split: option.split)
qed

section \<open>The interface of a page allocator\<close>

text \<open>
  What the slab relies on: an allocation that returns gives a page-aligned address that is not in
  use, and marks it as in use; an address in use can be given back.
\<close>

locale page_source =
  fixes inv :: "'m \<Rightarrow> bool"
    and in_use :: "'m \<Rightarrow> nat set"
    and alloc :: "'m \<Rightarrow> nat \<Rightarrow> ((nat \<times> nat) \<times> 'm) res"
    and release :: "'m \<Rightarrow> nat \<Rightarrow> 'm res"
  assumes alloc: "inv m \<Longrightarrow> alloc m flags = Inr ((a, l), m') \<Longrightarrow>
      inv m' \<and> a \<notin> in_use m \<and> in_use m' = insert a (in_use m) \<and> PAGE_SIZE dvd a"
    and release: "inv m \<Longrightarrow> a \<in> in_use m \<Longrightarrow>
      \<exists>m'. release m a = Inr m' \<and> inv m' \<and> in_use m' = in_use m - {a}"
begin

fun alloc_many :: "'m \<Rightarrow> nat list \<Rightarrow> (nat list \<times> 'm) res" where
  "alloc_many m [] = Inr ([], m)"
| "alloc_many m (f # fs) = bindR (alloc m f) (\<lambda>((a, _), m). bindR (alloc_many m fs) (\<lambda>(as, m). Inr (a # as, m)))"

lemma alloc_many_fresh:
  assumes "inv m" "alloc_many m fs = Inr (as, m')"
  shows "inv m' \<and> distinct as \<and> set as \<inter> in_use m = {} \<and> in_use m' = in_use m \<union> set as \<and>
    (\<forall>a\<in>set as. PAGE_SIZE dvd a)"
  using assms
proof (induction fs arbitrary: m as)
  case (Cons f fs)
  then obtain a l m1 as' where s: "alloc m f = Inr ((a, l), m1)" "alloc_many m1 fs = Inr (as', m')" "as = a # as'"
    by (auto simp: bindR_Inr_iff)
  from alloc [OF Cons.prems(1) s(1)] Cons.IH [OF _ s(2)] s(3) show ?case by auto
qed simp

lemma pages_apart:
  assumes "PAGE_SIZE dvd a" "PAGE_SIZE dvd b" "a \<noteq> b"
  shows "a + PAGE_SIZE \<le> b \<or> b + PAGE_SIZE \<le> a"
proof -
  from assms obtain i j where ij: "a = PAGE_SIZE * i" "b = PAGE_SIZE * j" "i \<noteq> j" by (auto simp: dvd_def)
  then have "i + 1 \<le> j \<or> j + 1 \<le> i" by linarith
  then have "PAGE_SIZE * (i + 1) \<le> PAGE_SIZE * j \<or> PAGE_SIZE * (j + 1) \<le> PAGE_SIZE * i"
    using mult_le_mono2 by blast
  then show ?thesis using ij by (simp add: algebra_simps)
qed

text \<open>Two pages handed out one after the other do not overlap, and the first can be taken back.\<close>

lemma alloc_twice:
  assumes "inv m" "alloc m f = Inr ((a, l), m1)" "alloc m1 g = Inr ((b, k), m2)"
  shows "(a + PAGE_SIZE \<le> b \<or> b + PAGE_SIZE \<le> a) \<and>
    (\<exists>m3. release m2 a = Inr m3 \<and> in_use m3 = insert b (in_use m))"
proof -
  from alloc [OF assms(1,2)] alloc assms(3) have
    m: "inv m2" "a \<notin> in_use m" "b \<notin> insert a (in_use m)" "in_use m2 = insert b (insert a (in_use m))"
      "PAGE_SIZE dvd a" "PAGE_SIZE dvd b" by metis+
  from release [OF m(1), of a] m obtain m3 where "release m2 a = Inr m3" "in_use m3 = in_use m2 - {a}" by auto
  moreover have "in_use m2 - {a} = insert b (in_use m)" using m by auto
  ultimately show ?thesis using pages_apart [OF m(5,6)] m(3) by auto
qed

end

text \<open>The contents seen at an address, and the law that handing out and taking back pages keeps it.\<close>

definition page_at :: "'p os \<Rightarrow> nat \<Rightarrow> 'p option" where
  "page_at s a = map_option (os_pages s) (os_vm s (vpn a))"

locale page_memory = page_source inv in_use alloc release
  for inv :: "'m \<Rightarrow> bool" and in_use :: "'m \<Rightarrow> nat set"
    and alloc :: "'m \<Rightarrow> nat \<Rightarrow> ((nat \<times> nat) \<times> 'm) res" and release :: "'m \<Rightarrow> nat \<Rightarrow> 'm res" +
  fixes view :: "'m \<Rightarrow> nat \<Rightarrow> 'p option"
  assumes alloc_mapped: "inv m \<Longrightarrow> alloc m flags = Inr ((a, l), m') \<Longrightarrow> view m' a \<noteq> None"
    and alloc_view: "inv m \<Longrightarrow> alloc m flags = Inr ((a, l), m') \<Longrightarrow> b \<in> in_use m \<Longrightarrow> view m' b = view m b"
    and release_view: "release m a = Inr m' \<Longrightarrow> view m' b = view m b"
begin

lemma alloc_many_view:
  assumes "inv m" "alloc_many m fs = Inr (as, m')" "b \<in> in_use m"
  shows "view m' b = view m b"
  using assms
proof (induction fs arbitrary: m as)
  case (Cons f fs)
  then obtain a l m1 as' where s: "alloc m f = Inr ((a, l), m1)" "alloc_many m1 fs = Inr (as', m')"
    by (auto simp: bindR_Inr_iff)
  have "inv m1" "b \<in> in_use m1" using alloc [OF Cons.prems(1) s(1)] Cons.prems(3) by auto
  then show ?case using Cons.IH [OF _ s(2)] alloc_view [OF Cons.prems(1) s(1) Cons.prems(3)] by simp
qed simp

end

text \<open>
  The memory behind the addresses: pages in use are mapped to different pages of the file, and as
  long as a free page is left, handing it out changes neither the mapping nor the protection of the
  others, and no protection at all when the page is to be read only.
\<close>

locale page_store = page_memory inv in_use alloc release view
  for inv :: "'m \<Rightarrow> bool" and in_use :: "'m \<Rightarrow> nat set"
    and alloc :: "'m \<Rightarrow> nat \<Rightarrow> ((nat \<times> nat) \<times> 'm) res" and release :: "'m \<Rightarrow> nat \<Rightarrow> 'm res"
    and view :: "'m \<Rightarrow> nat \<Rightarrow> 'p option" +
  fixes frame :: "'m \<Rightarrow> nat \<Rightarrow> nat option" and prot :: "'m \<Rightarrow> nat \<Rightarrow> nat" and spare :: "'m \<Rightarrow> nat"
  assumes in_use_mapped: "inv m \<Longrightarrow> a \<in> in_use m \<Longrightarrow> PAGE_SIZE dvd a \<and> 0 < a \<and> frame m a \<noteq> None"
    and frame_inj: "inv m \<Longrightarrow> a \<in> in_use m \<Longrightarrow> b \<in> in_use m \<Longrightarrow> frame m a = frame m b \<Longrightarrow> a = b"
    and alloc_spare: "inv m \<Longrightarrow> 0 < spare m \<Longrightarrow>
      \<exists>a l m'. alloc m flags = Inr ((a, l), m') \<and> spare m' = spare m - 1 \<and> (writable flags \<longrightarrow> prot m' a = flags) \<and>
        (\<forall>b\<in>in_use m. frame m' b = frame m b \<and> prot m' b = prot m b)"
    and alloc_frame: "inv m \<Longrightarrow> 0 < spare m \<Longrightarrow> alloc m flags = Inr ((a, l), m') \<Longrightarrow>
      frame m' = frame m \<and> (\<forall>b. frame m b \<noteq> frame m a \<longrightarrow> prot m' b = prot m b) \<and> (\<not> writable flags \<longrightarrow> prot m' = prot m)"
    and release_spare: "inv m \<Longrightarrow> a \<in> in_use m \<Longrightarrow> release m a = Inr m' \<Longrightarrow>
      spare m' = Suc (spare m) \<and> frame m' = frame m \<and> prot m' = prot m"
begin

text \<open>A page that is handed out and given back leaves the allocator with the pages it had.\<close>

lemma alloc_release:
  assumes "inv m" "0 < spare m"
  shows "\<exists>a l m1 m2. alloc m flags = Inr ((a, l), m1) \<and> release m1 a = Inr m2 \<and> inv m2 \<and>
    in_use m2 = in_use m \<and> spare m2 = spare m \<and> (\<forall>b\<in>in_use m. view m2 b = view m b \<and> frame m2 b = frame m b)"
proof -
  from alloc_spare [OF assms, of flags] obtain a l m1 where m1: "alloc m flags = Inr ((a, l), m1)"
    "spare m1 = spare m - 1" "\<forall>b\<in>in_use m. frame m1 b = frame m b" by blast
  have i1: "inv m1" "a \<notin> in_use m" "in_use m1 = insert a (in_use m)" using alloc [OF assms(1) m1(1)] by auto
  from release [OF i1(1), of a] i1(3) obtain m2 where
    m2: "release m1 a = Inr m2" "inv m2" "in_use m2 = in_use m1 - {a}" by auto
  have "spare m2 = spare m" "frame m2 = frame m1" using release_spare [OF i1(1) _ m2(1)] i1(3) m1(2) assms(2) by auto
  moreover have "view m2 b = view m b" if "b \<in> in_use m" for b
    using release_view [OF m2(1)] alloc_view [OF assms(1) m1(1) that] by simp
  moreover have "in_use m2 = in_use m" using m2(3) i1(2,3) by auto
  ultimately show ?thesis using m1(1,3) m2(1,2) by auto
qed

end

section \<open>The hint is the first free, aligned address\<close>

text \<open>
  The lines of the maps file, as the kernel prints them: non-empty ranges in ascending order that
  do not overlap.  Nothing bounds them: on x86-64 the last line is the \<^verbatim>\<open>[vsyscall]\<close> page, in
  the last gigabyte of the 64-bit address space.
\<close>

definition maps_ok :: "(u64 \<times> u64) list \<Rightarrow> bool" where
  "maps_ok lines \<longleftrightarrow>
     (\<forall>(lo, hi)\<in>set lines. lo < hi) \<and> sorted_wrt (\<lambda>a b. snd a \<le> fst b) lines"

text \<open>
  What the comment above map_hint asks of the address: not below one terabyte, aligned to one
  gigabyte, and a range of the wanted length from it that does not wrap around and is not used.
\<close>

definition hint_fits :: "u64 \<Rightarrow> (u64 \<times> u64) list \<Rightarrow> u64 \<Rightarrow> bool" where
  "hint_fits len lines a \<longleftrightarrow>
     2 ^ 40 \<le> unat a \<and> unat a mod 2 ^ 30 = 0 \<and> unat a + unat len < 2 ^ 64 \<and>
     (\<forall>(lo, hi)\<in>set lines. unat hi \<le> unat a \<or> unat a + unat len \<le> unat lo)"

lemma round_up_ge: "0 < k \<Longrightarrow> n \<le> (n + (k - 1)) div k * k" for n k :: nat
proof -
  assume "0 < k"
  then have "(n + (k - 1)) mod k \<le> k - 1" by (simp add: less_Suc_eq_le [symmetric])
  moreover have "(n + (k - 1)) div k * k + (n + (k - 1)) mod k = n + (k - 1)" by simp
  ultimately show ?thesis by linarith
qed

lemma ROUND2GB_unat:
  assumes "unat hi \<le> 2 ^ 64 - 2 ^ 30"
  shows "unat (ROUND2GB hi) = (unat hi + (2 ^ 30 - 1)) div 2 ^ 30 * 2 ^ 30"
proof -
  have m: "GIGABYTE_MASK = mask 30" by (simp add: GIGABYTE_MASK_def GIGABYTE_def mask_eq_exp_minus_1)
  have "unat (hi + mask 30) = unat hi + (2 ^ 30 - 1)"
    using assms by (simp add: unat_word_ariths mask_eq_exp_minus_1)
  then show ?thesis by (simp add: ROUND2GB_def m and_not_mask_unat)
qed

lemma ROUND2GB_wraps:
  assumes "2 ^ 64 - 2 ^ 30 < unat hi"
  shows "ROUND2GB hi = 0"
proof -
  have m: "GIGABYTE_MASK = mask 30" by (simp add: GIGABYTE_MASK_def GIGABYTE_def mask_eq_exp_minus_1)
  have lt: "unat hi < 2 ^ 64" using unsigned_less [of hi] by simp
  have "(unat hi + (2 ^ 30 - 1)) mod 2 ^ 64 = unat hi + (2 ^ 30 - 1) - 2 ^ 64"
    using assms lt by (subst mod_if) simp
  moreover have "unat hi + (2 ^ 30 - 1) - 2 ^ 64 < 2 ^ 30" using lt by simp
  ultimately have "unat (hi + mask 30) < 2 ^ 30" by (simp add: unat_word_ariths mask_eq_exp_minus_1)
  then have "unat (ROUND2GB hi) = unat (0 :: u64)" by (simp add: ROUND2GB_def m and_not_mask_unat)
  then show ?thesis by (simp only: word_unat_eq_iff)
qed

lemma u64_bound: "unat (x :: u64) < 2 ^ 64"
  using unsigned_less [of x] by simp

text \<open>Rounding up gives the first multiple of a gigabyte, or wraps to 0.\<close>

lemma ROUND2GB_least:
  "ROUND2GB hi \<noteq> 0 \<Longrightarrow> unat hi \<le> unat (ROUND2GB hi) \<and> unat (ROUND2GB hi) mod 2 ^ 30 = 0"
  "unat hi \<le> unat a \<Longrightarrow> unat a mod 2 ^ 30 = 0 \<Longrightarrow> 0 < unat hi \<Longrightarrow> ROUND2GB hi \<noteq> 0 \<and> unat (ROUND2GB hi) \<le> unat a"
  for a :: u64
proof -
  assume "ROUND2GB hi \<noteq> 0"
  then have "unat hi \<le> 2 ^ 64 - 2 ^ 30" using ROUND2GB_wraps [of hi] by linarith
  from ROUND2GB_unat [OF this] show "unat hi \<le> unat (ROUND2GB hi) \<and> unat (ROUND2GB hi) mod 2 ^ 30 = 0"
    using round_up_ge [of "2 ^ 30" "unat hi"] by simp
next
  assume a: "unat hi \<le> unat a" "unat a mod 2 ^ 30 = 0" "0 < unat hi"
  then obtain k where k: "unat a = k * 2 ^ 30" by (metis dvd_div_mult_self mod_0_imp_dvd)
  have lt: "k * 2 ^ 30 < 2 ^ 64" using u64_bound [of a] unfolding k .
  have h: "unat hi \<le> 2 ^ 64 - 2 ^ 30" using a(1) lt unfolding k by simp
  have "(unat hi + (2 ^ 30 - 1)) div 2 ^ 30 < Suc k"
    by (rule less_mult_imp_div_less) (use a(1) in \<open>simp add: k\<close>)
  moreover have "0 < (unat hi + (2 ^ 30 - 1)) div 2 ^ 30" using a(3) by (simp add: div_greater_zero_iff)
  ultimately show "ROUND2GB hi \<noteq> 0 \<and> unat (ROUND2GB hi) \<le> unat a"
    using ROUND2GB_unat [OF h] k by (auto simp: unat_eq_0)
qed

text \<open>One line of the file: the scan stops in the gap below it, or moves above it.\<close>

lemma map_hint_gap:
  fixes lo raddr len :: u64
  shows "lo > raddr \<and> lo - raddr \<ge> len \<longleftrightarrow> unat raddr < unat lo \<and> unat raddr + unat len \<le> unat lo"
  using unat_sub [of raddr lo] by (auto simp: word_le_nat_alt word_less_nat_alt)

lemma map_hint_loop_sound:
  assumes "maps_ok lines" and "unat raddr mod 2 ^ 30 = 0" and "map_hint_loop len lines raddr \<noteq> 0"
  shows "unat (map_hint_loop len lines raddr) mod 2 ^ 30 = 0 \<and> raddr \<le> map_hint_loop len lines raddr \<and>
    (\<forall>(lo, hi)\<in>set lines. unat hi \<le> unat (map_hint_loop len lines raddr) \<or>
       unat (map_hint_loop len lines raddr) + unat len \<le> unat lo)"
  using assms
proof (induction len lines raddr rule: map_hint_loop.induct)
  case (2 len lo hi lines raddr)
  have hi: "lo < hi" and tl: "maps_ok lines" and up: "\<forall>(l, h)\<in>set lines. hi \<le> l"
    using 2(2) by (auto simp: maps_ok_def)
  show ?case
  proof (cases "lo > raddr \<and> lo - raddr \<ge> len")
    case True
    then have fit: "unat raddr + unat len \<le> unat lo" unfolding map_hint_gap by simp
    have "unat raddr + unat len \<le> unat l" if "(l, h) \<in> set lines" for l h
    proof -
      have "hi \<le> l" using up that by auto
      then have "unat lo \<le> unat l" using hi by (simp add: word_le_nat_alt word_less_nat_alt)
      with fit show ?thesis by simp
    qed
    with True fit 2 show ?thesis by auto
  next
    case False
    define raddr' where "raddr' = (if hi > raddr then ROUND2GB hi else raddr)"
    have step: "map_hint_loop len ((lo, hi) # lines) raddr = (if raddr' = 0 then 0 else map_hint_loop len lines raddr')"
      by (simp only: map_hint_loop.simps if_not_P [OF False] Let_def raddr'_def [symmetric])
    then have nz: "raddr' \<noteq> 0" and eq: "map_hint_loop len ((lo, hi) # lines) raddr = map_hint_loop len lines raddr'"
      using 2(4) by argo+
    have r': "unat raddr' mod 2 ^ 30 = 0" "raddr \<le> raddr'" "hi \<le> raddr'"
      using ROUND2GB_least(1) [of hi] nz 2(3)
      by (auto simp: raddr'_def word_le_nat_alt word_less_nat_alt split: if_splits)
    show ?thesis
      using 2(1) [OF False raddr'_def nz tl r'(1)] 2(4) r'(2,3) unfolding eq by (auto simp: word_le_nat_alt)
  qed
qed auto

lemma map_hint_loop_least:
  assumes "maps_ok lines" and "hint_fits len lines a" "0 < len" "raddr \<le> a" "raddr \<noteq> 0"
  shows "map_hint_loop len lines raddr \<noteq> 0 \<and> map_hint_loop len lines raddr \<le> a"
  using assms
proof (induction len lines raddr rule: map_hint_loop.induct)
  case (2 len lo hi lines raddr)
  have hi: "lo < hi" and tl: "maps_ok lines" "hint_fits len lines a"
    using 2(2,3) by (auto simp: maps_ok_def hint_fits_def)
  show ?case
  proof (cases "lo > raddr \<and> lo - raddr \<ge> len")
    case True
    then show ?thesis using 2 by simp
  next
    case False
    have below: "unat hi \<le> unat a" and al: "unat a mod 2 ^ 30 = 0"
      using 2(3,4,5) False unfolding map_hint_gap
      by (auto simp: hint_fits_def word_le_nat_alt word_less_nat_alt)
    define raddr' where "raddr' = (if hi > raddr then ROUND2GB hi else raddr)"
    have r': "raddr' \<noteq> 0" "raddr' \<le> a"
      using ROUND2GB_least(2) [OF below al] 2(5,6) hi
      by (auto simp: raddr'_def word_le_nat_alt word_less_nat_alt)
    have "map_hint_loop len ((lo, hi) # lines) raddr = map_hint_loop len lines raddr'"
      using r'(1) by (simp only: map_hint_loop.simps if_not_P [OF False] Let_def raddr'_def [symmetric] if_False)
    then show ?thesis using 2(1) [OF False raddr'_def r'(1) tl 2(4) r'(2,1)] by simp
  qed
qed auto

text \<open>
  C39: The address hint for mapping the container is the first free one.  For any maps file (ranges
  in ascending order, the \<^verbatim>\<open>[vsyscall]\<close> line at the end of the address space included) and any length
  but 0, map_hint returns the lowest address that is at or above one terabyte, a multiple of one
  gigabyte, and from which the range of the wanted length neither wraps around nor overlaps a range
  of the file; it returns 0 exactly when there is no such address.
\<close>

theorem map_hint_free:
  assumes "maps_ok lines" and "0 < len"
  shows "if map_hint len lines = 0 then (\<forall>a. \<not> hint_fits len lines a)
    else hint_fits len lines (map_hint len lines) \<and>
         (\<forall>a. hint_fits len lines a \<longrightarrow> map_hint len lines \<le> a)"
proof -
  define q where "q = map_hint_loop len lines TERABYTE"
  have room: "- 1 - q < len \<longleftrightarrow> \<not> unat q + unat len < 2 ^ 64"
    using unat_sub [of q "- 1"] u64_bound [of q] u64_bound [of len]
    by (auto simp: word_less_nat_alt unsigned_minus_1_eq_mask mask_eq_exp_minus_1)
  have r: "map_hint len lines = (if q \<noteq> 0 \<and> - 1 - q < len then 0 else q)"
    by (simp add: map_hint_def q_def [symmetric] Let_def)
  have least: "q \<noteq> 0 \<and> q \<le> a" if "hint_fits len lines a" for a
    using map_hint_loop_least [OF assms(1) that assms(2), of TERABYTE] that
    by (simp add: q_def TERABYTE_def hint_fits_def word_le_nat_alt)
  have none: "\<not> hint_fits len lines a" if "q = 0 \<or> - 1 - q < len" for a
  proof
    assume f: "hint_fits len lines a"
    then have "unat a + unat len < 2 ^ 64" by (simp add: hint_fits_def)
    moreover have "unat q \<le> unat a" "q \<noteq> 0" using least [OF f] by (simp_all add: word_le_nat_alt)
    ultimately have "unat q + unat len < 2 ^ 64" by linarith
    then show False using that \<open>q \<noteq> 0\<close> room by simp
  qed
  have sound: "hint_fits len lines q" if "q \<noteq> 0" "\<not> - 1 - q < len"
  proof -
    have "unat TERABYTE = 2 ^ 40" by (simp add: TERABYTE_def)
    then show ?thesis
      using map_hint_loop_sound [OF assms(1), of TERABYTE len, folded q_def] that room
      by (simp add: hint_fits_def word_le_nat_alt)
  qed
  show ?thesis
  proof (cases "q = 0 \<or> - 1 - q < len")
    case True
    then have "map_hint len lines = 0" by (auto simp: r)
    then show ?thesis using none [OF True] by simp
  next
    case False
    then have "map_hint len lines = q" by (simp add: r)
    then show ?thesis using False sound least by simp
  qed
qed

text \<open>
  A maps file with the \<^verbatim>\<open>[vsyscall]\<close> line: a hint above a library mapped at one terabyte, and the
  length for which rounding up the end of that line wraps to 0, where the scan gives up.
\<close>

definition vsyscall_maps :: "(u64 \<times> u64) list" where
  "vsyscall_maps = [(0x400000, 0x600000), (0x10000000000, 0x10000001000), (0x7ffd9fbfe000, 0x7ffd9fc1f000),
     (0xffffffffff600000, 0xffffffffff601000)]"

theorem map_hint_free_witness:
  "map_hint 8192 vsyscall_maps = 0x10040000000 \<and> hint_fits 8192 vsyscall_maps 0x10040000000 \<and>
   map_hint 0xfffff00000000000 vsyscall_maps = 0 \<and> ROUND2GB 0xffffffffff601000 = 0 \<and>
   (\<forall>a. \<not> hint_fits 0xfffff00000000000 vsyscall_maps a)"
proof -
  have ok: "maps_ok vsyscall_maps" by (simp add: maps_ok_def vsyscall_maps_def)
  have w: "ROUND2GB 0xffffffffff601000 = 0" by (simp add: ROUND2GB_def GIGABYTE_MASK_def GIGABYTE_def)
  have r: "map_hint 8192 vsyscall_maps = 0x10040000000" "map_hint 0xfffff00000000000 vsyscall_maps = 0"
    by (simp_all add: map_hint_def vsyscall_maps_def TERABYTE_def ROUND2GB_def GIGABYTE_MASK_def GIGABYTE_def)
  show ?thesis
    using map_hint_free [OF ok, of 8192] map_hint_free [OF ok, of "0xfffff00000000000"] w unfolding r by simp
qed

end
