(* ===== verification/Queue.thy ===== *)
theory Queue
  imports Prelude
begin

text \<open>
  The linked lists of \<^verbatim>\<open>src/src/utils/queue.h\<close>: the singly-linked list (SLIST), the singly-linked
  tail queue (STAILQ), the list (LIST) and the tail queue (TAILQ).  The macros work on the fields
  of heads and elements through pointers, some of them pointers to pointer fields, so the model
  keeps a store: \<^verbatim>\<open>cell\<close> maps the address of a pointer field (the first field of a head, the next
  field of an element) to the element it points to, \<^verbatim>\<open>lastp\<close> is the second field of a head and
  \<^verbatim>\<open>prevp\<close> the second field of an element, which both hold addresses of such cells.  Element 0 is
  NULL; an access through NULL is a segmentation fault.  The lemmas show that every macro acts on
  the list a head represents as the list operation its name promises, and leaves the lists of the
  other heads alone.
\<close>

datatype loc = LFirst nat | LNext nat

record qstore =
  cell :: "loc \<Rightarrow> nat"
  lastp :: "nat \<Rightarrow> loc"
  prevp :: "nat \<Rightarrow> loc"

definition set_cell :: "loc \<Rightarrow> nat \<Rightarrow> qstore \<Rightarrow> qstore" where
  "set_cell l v q = q\<lparr>cell := (cell q)(l := v)\<rparr>"

definition set_lastp :: "nat \<Rightarrow> loc \<Rightarrow> qstore \<Rightarrow> qstore" where
  "set_lastp h l q = q\<lparr>lastp := (lastp q)(h := l)\<rparr>"

definition set_prevp :: "nat \<Rightarrow> loc \<Rightarrow> qstore \<Rightarrow> qstore" where
  "set_prevp e l q = q\<lparr>prevp := (prevp q)(e := l)\<rparr>"

text \<open>A dereference of the element \<^verbatim>\<open>e\<close>.\<close>

definition deref :: "nat \<Rightarrow> 'a \<Rightarrow> 'a res" where
  "deref e x = (if e = 0 then Inl (Segv 0) else Inr x)"

section \<open>Singly-linked lists\<close>

definition SLIST_EMPTY :: "qstore \<Rightarrow> nat \<Rightarrow> bool" where
  "SLIST_EMPTY q h \<longleftrightarrow> cell q (LFirst h) = 0"

definition SLIST_FIRST :: "qstore \<Rightarrow> nat \<Rightarrow> nat" where
  "SLIST_FIRST q h = cell q (LFirst h)"

definition SLIST_NEXT :: "qstore \<Rightarrow> nat \<Rightarrow> nat res" where
  "SLIST_NEXT q e = deref e (cell q (LNext e))"

definition SLIST_INIT :: "qstore \<Rightarrow> nat \<Rightarrow> qstore" where
  "SLIST_INIT q h = set_cell (LFirst h) 0 q"

text \<open>
  The loop of the FOREACH macros, for a body that leaves the links alone; it does not return on a
  circular list.  A failure of the body ends the program.
\<close>

partial_function (option) foreach_from ::
  "qstore \<Rightarrow> (nat \<Rightarrow> 's \<Rightarrow> 's res) \<Rightarrow> nat \<Rightarrow> 's \<Rightarrow> 's res option" where
  "foreach_from q f var s =
     (if var = 0 then Some (Inr s)
      else case f var s of
             Inl e \<Rightarrow> Some (Inl e)
           | Inr s' \<Rightarrow> foreach_from q f (cell q (LNext var)) s')"

definition SLIST_FOREACH :: "qstore \<Rightarrow> nat \<Rightarrow> (nat \<Rightarrow> 's \<Rightarrow> 's res) \<Rightarrow> 's \<Rightarrow> 's res option" where
  "SLIST_FOREACH q h f s = foreach_from q f (SLIST_FIRST q h) s"

text \<open>The MUTABLE loops: the next element is read before the body, which may change the store.\<close>

partial_function (option) foreach_mutable_from ::
  "(nat \<Rightarrow> qstore \<times> 's \<Rightarrow> (qstore \<times> 's) res) \<Rightarrow> nat \<Rightarrow> qstore \<times> 's \<Rightarrow> (qstore \<times> 's) res option" where
  "foreach_mutable_from f var s =
     (if var = 0 then Some (Inr s)
      else let tvar = cell (fst s) (LNext var) in
           case f var s of
             Inl e \<Rightarrow> Some (Inl e)
           | Inr s' \<Rightarrow> foreach_mutable_from f tvar s')"

definition SLIST_FOREACH_MUTABLE ::
  "nat \<Rightarrow> (nat \<Rightarrow> qstore \<times> 's \<Rightarrow> (qstore \<times> 's) res) \<Rightarrow> qstore \<times> 's \<Rightarrow> (qstore \<times> 's) res option" where
  "SLIST_FOREACH_MUTABLE h f s = foreach_mutable_from f (SLIST_FIRST (fst s) h) s"

text \<open>The loop that keeps the address of the pointer it came through, so that the body can unlink.\<close>

partial_function (option) foreach_prevptr_from ::
  "(nat \<Rightarrow> loc \<Rightarrow> qstore \<times> 's \<Rightarrow> (qstore \<times> 's) res) \<Rightarrow> loc \<Rightarrow> qstore \<times> 's \<Rightarrow> (qstore \<times> 's) res option" where
  "foreach_prevptr_from f varp s =
     (let var = cell (fst s) varp in
      if var = 0 then Some (Inr s)
      else case f var varp s of
             Inl e \<Rightarrow> Some (Inl e)
           | Inr s' \<Rightarrow> foreach_prevptr_from f (LNext var) s')"

definition SLIST_FOREACH_PREVPTR ::
  "nat \<Rightarrow> (nat \<Rightarrow> loc \<Rightarrow> qstore \<times> 's \<Rightarrow> (qstore \<times> 's) res) \<Rightarrow> qstore \<times> 's \<Rightarrow> (qstore \<times> 's) res option" where
  "SLIST_FOREACH_PREVPTR h f s = foreach_prevptr_from f (LFirst h) s"

definition SLIST_HEAD_INITIALIZER :: "qstore \<Rightarrow> nat \<Rightarrow> qstore" where
  "SLIST_HEAD_INITIALIZER q h = set_cell (LFirst h) 0 q"

definition SLIST_INSERT_AFTER :: "qstore \<Rightarrow> nat \<Rightarrow> nat \<Rightarrow> qstore res" where
  "SLIST_INSERT_AFTER q slistelm elm =
     bindR (SLIST_NEXT q slistelm) (\<lambda>nxt.
     deref elm (set_cell (LNext slistelm) elm (set_cell (LNext elm) nxt q)))"

definition SLIST_INSERT_HEAD :: "qstore \<Rightarrow> nat \<Rightarrow> nat \<Rightarrow> qstore res" where
  "SLIST_INSERT_HEAD q h elm =
     deref elm (set_cell (LFirst h) elm (set_cell (LNext elm) (SLIST_FIRST q h) q))"

definition SLIST_REMOVE_AFTER :: "qstore \<Rightarrow> nat \<Rightarrow> qstore res" where
  "SLIST_REMOVE_AFTER q elm =
     bindR (SLIST_NEXT q elm) (\<lambda>nxt.
     bindR (SLIST_NEXT q nxt) (\<lambda>nxt'.
     Inr (set_cell (LNext elm) nxt' q)))"

definition SLIST_REMOVE_HEAD :: "qstore \<Rightarrow> nat \<Rightarrow> qstore res" where
  "SLIST_REMOVE_HEAD q h =
     bindR (SLIST_NEXT q (SLIST_FIRST q h)) (\<lambda>nxt. Inr (set_cell (LFirst h) nxt q))"

text \<open>The search for the predecessor of \<^verbatim>\<open>elm\<close> in the REMOVE macros.\<close>

partial_function (option) find_pred :: "qstore \<Rightarrow> nat \<Rightarrow> nat \<Rightarrow> nat res option" where
  "find_pred q elm curelm =
     (if curelm = 0 then Some (Inl (Segv 0))
      else if cell q (LNext curelm) = elm then Some (Inr curelm)
      else find_pred q elm (cell q (LNext curelm)))"

definition SLIST_REMOVE :: "qstore \<Rightarrow> nat \<Rightarrow> nat \<Rightarrow> qstore res" where
  "SLIST_REMOVE q h elm =
     (if SLIST_FIRST q h = elm then SLIST_REMOVE_HEAD q h
      else case find_pred q elm (SLIST_FIRST q h) of
             None \<Rightarrow> Inl Diverges
           | Some r \<Rightarrow> bindR r (SLIST_REMOVE_AFTER q))"

definition SLIST_SWAP :: "qstore \<Rightarrow> nat \<Rightarrow> nat \<Rightarrow> qstore" where
  "SLIST_SWAP q h1 h2 =
     (let swap_first = SLIST_FIRST q h1;
          q = set_cell (LFirst h1) (SLIST_FIRST q h2) q
      in set_cell (LFirst h2) swap_first q)"

section \<open>Singly-linked tail queues\<close>

definition STAILQ_EMPTY :: "qstore \<Rightarrow> nat \<Rightarrow> bool" where
  "STAILQ_EMPTY q h \<longleftrightarrow> cell q (LFirst h) = 0"

definition STAILQ_FIRST :: "qstore \<Rightarrow> nat \<Rightarrow> nat" where
  "STAILQ_FIRST q h = cell q (LFirst h)"

definition STAILQ_NEXT :: "qstore \<Rightarrow> nat \<Rightarrow> nat res" where
  "STAILQ_NEXT q e = deref e (cell q (LNext e))"

definition STAILQ_INIT :: "qstore \<Rightarrow> nat \<Rightarrow> qstore" where
  "STAILQ_INIT q h = set_lastp h (LFirst h) (set_cell (LFirst h) 0 q)"

definition STAILQ_HEAD_INITIALIZER :: "qstore \<Rightarrow> nat \<Rightarrow> qstore" where
  "STAILQ_HEAD_INITIALIZER q h = set_lastp h (LFirst h) (set_cell (LFirst h) 0 q)"

definition STAILQ_CONCAT :: "qstore \<Rightarrow> nat \<Rightarrow> nat \<Rightarrow> qstore" where
  "STAILQ_CONCAT q h1 h2 =
     (if \<not> STAILQ_EMPTY q h2
      then let q = set_cell (lastp q h1) (STAILQ_FIRST q h2) q;
               q = set_lastp h1 (lastp q h2) q
           in STAILQ_INIT q h2
      else q)"

definition STAILQ_FOREACH :: "qstore \<Rightarrow> nat \<Rightarrow> (nat \<Rightarrow> 's \<Rightarrow> 's res) \<Rightarrow> 's \<Rightarrow> 's res option" where
  "STAILQ_FOREACH q h f s = foreach_from q f (STAILQ_FIRST q h) s"

definition STAILQ_FOREACH_MUTABLE ::
  "nat \<Rightarrow> (nat \<Rightarrow> qstore \<times> 's \<Rightarrow> (qstore \<times> 's) res) \<Rightarrow> qstore \<times> 's \<Rightarrow> (qstore \<times> 's) res option" where
  "STAILQ_FOREACH_MUTABLE h f s = foreach_mutable_from f (STAILQ_FIRST (fst s) h) s"

definition STAILQ_INSERT_AFTER :: "qstore \<Rightarrow> nat \<Rightarrow> nat \<Rightarrow> nat \<Rightarrow> qstore res" where
  "STAILQ_INSERT_AFTER q h tqelm elm =
     bindR (STAILQ_NEXT q tqelm) (\<lambda>nxt.
     let q1 = set_cell (LNext elm) nxt q;
         q2 = (if nxt = 0 then set_lastp h (LNext elm) q1 else q1)
     in deref elm (set_cell (LNext tqelm) elm q2))"

definition STAILQ_INSERT_HEAD :: "qstore \<Rightarrow> nat \<Rightarrow> nat \<Rightarrow> qstore res" where
  "STAILQ_INSERT_HEAD q h elm =
     (let fst = STAILQ_FIRST q h;
          q1 = set_cell (LNext elm) fst q;
          q2 = (if fst = 0 then set_lastp h (LNext elm) q1 else q1)
      in deref elm (set_cell (LFirst h) elm q2))"

definition STAILQ_INSERT_TAIL :: "qstore \<Rightarrow> nat \<Rightarrow> nat \<Rightarrow> qstore res" where
  "STAILQ_INSERT_TAIL q h elm =
     (let q1 = set_cell (LNext elm) 0 q;
          q2 = set_cell (lastp q1 h) elm q1
      in deref elm (set_lastp h (LNext elm) q2))"

text \<open>
  STAILQ_LAST takes the element that encloses the field \<^verbatim>\<open>stqh_last\<close> points to; on a store in which
  a non-empty head had its own first field there, the result would be a pointer into the head.
\<close>

definition STAILQ_LAST :: "qstore \<Rightarrow> nat \<Rightarrow> nat res" where
  "STAILQ_LAST q h =
     (if STAILQ_EMPTY q h then Inr 0
      else case lastp q h of LNext e \<Rightarrow> Inr e | LFirst _ \<Rightarrow> Inl (Undefined ''STAILQ_LAST''))"

definition STAILQ_REMOVE_HEAD :: "qstore \<Rightarrow> nat \<Rightarrow> qstore res" where
  "STAILQ_REMOVE_HEAD q h =
     bindR (STAILQ_NEXT q (STAILQ_FIRST q h)) (\<lambda>nxt.
     let q1 = set_cell (LFirst h) nxt q
     in Inr (if nxt = 0 then set_lastp h (LFirst h) q1 else q1))"

definition STAILQ_REMOVE_AFTER :: "qstore \<Rightarrow> nat \<Rightarrow> nat \<Rightarrow> qstore res" where
  "STAILQ_REMOVE_AFTER q h elm =
     bindR (STAILQ_NEXT q elm) (\<lambda>nxt.
     bindR (STAILQ_NEXT q nxt) (\<lambda>nxt'.
     let q1 = set_cell (LNext elm) nxt' q
     in Inr (if nxt' = 0 then set_lastp h (LNext elm) q1 else q1)))"

definition STAILQ_REMOVE :: "qstore \<Rightarrow> nat \<Rightarrow> nat \<Rightarrow> qstore res" where
  "STAILQ_REMOVE q h elm =
     (if STAILQ_FIRST q h = elm then STAILQ_REMOVE_HEAD q h
      else case find_pred q elm (STAILQ_FIRST q h) of
             None \<Rightarrow> Inl Diverges
           | Some r \<Rightarrow> bindR r (STAILQ_REMOVE_AFTER q h))"

definition STAILQ_SWAP :: "qstore \<Rightarrow> nat \<Rightarrow> nat \<Rightarrow> qstore" where
  "STAILQ_SWAP q h1 h2 =
     (let swap_first = STAILQ_FIRST q h1;
          swap_last = lastp q h1;
          q = set_cell (LFirst h1) (STAILQ_FIRST q h2) q;
          q = set_lastp h1 (lastp q h2) q;
          q = set_cell (LFirst h2) swap_first q;
          q = set_lastp h2 swap_last q;
          q = (if STAILQ_EMPTY q h1 then set_lastp h1 (LFirst h1) q else q)
      in if STAILQ_EMPTY q h2 then set_lastp h2 (LFirst h2) q else q)"

section \<open>Lists\<close>

definition LIST_EMPTY :: "qstore \<Rightarrow> nat \<Rightarrow> bool" where
  "LIST_EMPTY q h \<longleftrightarrow> cell q (LFirst h) = 0"

definition LIST_FIRST :: "qstore \<Rightarrow> nat \<Rightarrow> nat" where
  "LIST_FIRST q h = cell q (LFirst h)"

definition LIST_NEXT :: "qstore \<Rightarrow> nat \<Rightarrow> nat res" where
  "LIST_NEXT q e = deref e (cell q (LNext e))"

definition LIST_INIT :: "qstore \<Rightarrow> nat \<Rightarrow> qstore" where
  "LIST_INIT q h = set_cell (LFirst h) 0 q"

definition LIST_FOREACH :: "qstore \<Rightarrow> nat \<Rightarrow> (nat \<Rightarrow> 's \<Rightarrow> 's res) \<Rightarrow> 's \<Rightarrow> 's res option" where
  "LIST_FOREACH q h f s = foreach_from q f (LIST_FIRST q h) s"

definition LIST_HEAD_INITIALIZER :: "qstore \<Rightarrow> nat \<Rightarrow> qstore" where
  "LIST_HEAD_INITIALIZER q h = set_cell (LFirst h) 0 q"

definition LIST_FOREACH_MUTABLE ::
  "nat \<Rightarrow> (nat \<Rightarrow> qstore \<times> 's \<Rightarrow> (qstore \<times> 's) res) \<Rightarrow> qstore \<times> 's \<Rightarrow> (qstore \<times> 's) res option" where
  "LIST_FOREACH_MUTABLE h f s = foreach_mutable_from f (LIST_FIRST (fst s) h) s"

definition LIST_INSERT_AFTER :: "qstore \<Rightarrow> nat \<Rightarrow> nat \<Rightarrow> qstore res" where
  "LIST_INSERT_AFTER q listelm elm =
     bindR (LIST_NEXT q listelm) (\<lambda>nxt.
     let q1 = set_cell (LNext elm) nxt q;
         q2 = (if nxt \<noteq> 0 then set_prevp nxt (LNext elm) q1 else q1);
         q3 = set_cell (LNext listelm) elm q2
     in deref elm (set_prevp elm (LNext listelm) q3))"

definition LIST_INSERT_BEFORE :: "qstore \<Rightarrow> nat \<Rightarrow> nat \<Rightarrow> qstore res" where
  "LIST_INSERT_BEFORE q listelm elm =
     bindR (deref listelm (prevp q listelm)) (\<lambda>p.
     let q1 = set_prevp elm p q;
         q2 = set_cell (LNext elm) listelm q1;
         q3 = set_cell (prevp q2 listelm) elm q2
     in deref elm (set_prevp listelm (LNext elm) q3))"

definition LIST_INSERT_HEAD :: "qstore \<Rightarrow> nat \<Rightarrow> nat \<Rightarrow> qstore res" where
  "LIST_INSERT_HEAD q h elm =
     (let fst = LIST_FIRST q h;
          q1 = set_cell (LNext elm) fst q;
          q2 = (if fst \<noteq> 0 then set_prevp fst (LNext elm) q1 else q1);
          q3 = set_cell (LFirst h) elm q2
      in deref elm (set_prevp elm (LFirst h) q3))"

definition LIST_REMOVE :: "qstore \<Rightarrow> nat \<Rightarrow> qstore res" where
  "LIST_REMOVE q elm =
     bindR (LIST_NEXT q elm) (\<lambda>nxt.
     let q1 = (if nxt \<noteq> 0 then set_prevp nxt (prevp q elm) q else q)
     in Inr (set_cell (prevp q1 elm) (cell q1 (LNext elm)) q1))"

definition LIST_SWAP :: "qstore \<Rightarrow> nat \<Rightarrow> nat \<Rightarrow> qstore" where
  "LIST_SWAP q h1 h2 =
     (let swap_tmp = LIST_FIRST q h1;
          q = set_cell (LFirst h1) (LIST_FIRST q h2) q;
          q = set_cell (LFirst h2) swap_tmp q;
          f1 = LIST_FIRST q h1;
          q = (if f1 \<noteq> 0 then set_prevp f1 (LFirst h1) q else q);
          f2 = LIST_FIRST q h2
      in if f2 \<noteq> 0 then set_prevp f2 (LFirst h2) q else q)"

section \<open>Tail queues\<close>

definition TAILQ_EMPTY :: "qstore \<Rightarrow> nat \<Rightarrow> bool" where
  "TAILQ_EMPTY q h \<longleftrightarrow> cell q (LFirst h) = 0"

definition TAILQ_FIRST :: "qstore \<Rightarrow> nat \<Rightarrow> nat" where
  "TAILQ_FIRST q h = cell q (LFirst h)"

definition TAILQ_NEXT :: "qstore \<Rightarrow> nat \<Rightarrow> nat res" where
  "TAILQ_NEXT q e = deref e (cell q (LNext e))"

definition TAILQ_INIT :: "qstore \<Rightarrow> nat \<Rightarrow> qstore" where
  "TAILQ_INIT q h = set_lastp h (LFirst h) (set_cell (LFirst h) 0 q)"

definition TAILQ_FOREACH :: "qstore \<Rightarrow> nat \<Rightarrow> (nat \<Rightarrow> 's \<Rightarrow> 's res) \<Rightarrow> 's \<Rightarrow> 's res option" where
  "TAILQ_FOREACH q h f s = foreach_from q f (TAILQ_FIRST q h) s"

text \<open>
  TAILQ_LAST and TAILQ_PREV cast the address of a pointer field to a head and take its second
  field.  A head and the links of an element have the same layout, so that field is the last
  pointer of a head or the previous pointer of an element.
\<close>

definition second_field :: "qstore \<Rightarrow> loc \<Rightarrow> loc" where
  "second_field q l = (case l of LFirst h \<Rightarrow> lastp q h | LNext e \<Rightarrow> prevp q e)"

definition TAILQ_LAST :: "qstore \<Rightarrow> nat \<Rightarrow> nat" where
  "TAILQ_LAST q h = cell q (second_field q (lastp q h))"

definition TAILQ_PREV :: "qstore \<Rightarrow> nat \<Rightarrow> nat res" where
  "TAILQ_PREV q e = deref e (cell q (second_field q (prevp q e)))"

partial_function (option) foreach_reverse_from ::
  "qstore \<Rightarrow> (nat \<Rightarrow> 's \<Rightarrow> 's res) \<Rightarrow> nat \<Rightarrow> 's \<Rightarrow> 's res option" where
  "foreach_reverse_from q f var s =
     (if var = 0 then Some (Inr s)
      else case f var s of
             Inl e \<Rightarrow> Some (Inl e)
           | Inr s' \<Rightarrow> foreach_reverse_from q f (cell q (second_field q (prevp q var))) s')"

definition TAILQ_FOREACH_REVERSE :: "qstore \<Rightarrow> nat \<Rightarrow> (nat \<Rightarrow> 's \<Rightarrow> 's res) \<Rightarrow> 's \<Rightarrow> 's res option" where
  "TAILQ_FOREACH_REVERSE q h f s = foreach_reverse_from q f (TAILQ_LAST q h) s"

definition TAILQ_HEAD_INITIALIZER :: "qstore \<Rightarrow> nat \<Rightarrow> qstore" where
  "TAILQ_HEAD_INITIALIZER q h = set_lastp h (LFirst h) (set_cell (LFirst h) 0 q)"

definition TAILQ_FOREACH_MUTABLE ::
  "nat \<Rightarrow> (nat \<Rightarrow> qstore \<times> 's \<Rightarrow> (qstore \<times> 's) res) \<Rightarrow> qstore \<times> 's \<Rightarrow> (qstore \<times> 's) res option" where
  "TAILQ_FOREACH_MUTABLE h f s = foreach_mutable_from f (TAILQ_FIRST (fst s) h) s"

partial_function (option) foreach_reverse_mutable_from ::
  "(nat \<Rightarrow> qstore \<times> 's \<Rightarrow> (qstore \<times> 's) res) \<Rightarrow> nat \<Rightarrow> qstore \<times> 's \<Rightarrow> (qstore \<times> 's) res option" where
  "foreach_reverse_mutable_from f var s =
     (if var = 0 then Some (Inr s)
      else let tvar = cell (fst s) (second_field (fst s) (prevp (fst s) var)) in
           case f var s of
             Inl e \<Rightarrow> Some (Inl e)
           | Inr s' \<Rightarrow> foreach_reverse_mutable_from f tvar s')"

definition TAILQ_FOREACH_REVERSE_MUTABLE ::
  "nat \<Rightarrow> (nat \<Rightarrow> qstore \<times> 's \<Rightarrow> (qstore \<times> 's) res) \<Rightarrow> qstore \<times> 's \<Rightarrow> (qstore \<times> 's) res option" where
  "TAILQ_FOREACH_REVERSE_MUTABLE h f s = foreach_reverse_mutable_from f (TAILQ_LAST (fst s) h) s"

definition TAILQ_CONCAT :: "qstore \<Rightarrow> nat \<Rightarrow> nat \<Rightarrow> qstore" where
  "TAILQ_CONCAT q h1 h2 =
     (if \<not> TAILQ_EMPTY q h2
      then let q = set_cell (lastp q h1) (TAILQ_FIRST q h2) q;
               q = set_prevp (TAILQ_FIRST q h2) (lastp q h1) q;
               q = set_lastp h1 (lastp q h2) q
           in TAILQ_INIT q h2
      else q)"

definition TAILQ_INSERT_AFTER :: "qstore \<Rightarrow> nat \<Rightarrow> nat \<Rightarrow> nat \<Rightarrow> qstore res" where
  "TAILQ_INSERT_AFTER q h listelm elm =
     bindR (TAILQ_NEXT q listelm) (\<lambda>nxt.
     let q1 = set_cell (LNext elm) nxt q;
         q2 = (if nxt \<noteq> 0 then set_prevp nxt (LNext elm) q1 else set_lastp h (LNext elm) q1);
         q3 = set_cell (LNext listelm) elm q2
     in deref elm (set_prevp elm (LNext listelm) q3))"

definition TAILQ_INSERT_BEFORE :: "qstore \<Rightarrow> nat \<Rightarrow> nat \<Rightarrow> qstore res" where
  "TAILQ_INSERT_BEFORE q listelm elm =
     bindR (deref listelm (prevp q listelm)) (\<lambda>p.
     let q1 = set_prevp elm p q;
         q2 = set_cell (LNext elm) listelm q1;
         q3 = set_cell (prevp q2 listelm) elm q2
     in deref elm (set_prevp listelm (LNext elm) q3))"

definition TAILQ_INSERT_HEAD :: "qstore \<Rightarrow> nat \<Rightarrow> nat \<Rightarrow> qstore res" where
  "TAILQ_INSERT_HEAD q h elm =
     (let fst = TAILQ_FIRST q h;
          q1 = set_cell (LNext elm) fst q;
          q2 = (if fst \<noteq> 0 then set_prevp fst (LNext elm) q1 else set_lastp h (LNext elm) q1);
          q3 = set_cell (LFirst h) elm q2
      in deref elm (set_prevp elm (LFirst h) q3))"

definition TAILQ_INSERT_TAIL :: "qstore \<Rightarrow> nat \<Rightarrow> nat \<Rightarrow> qstore res" where
  "TAILQ_INSERT_TAIL q h elm =
     (let q1 = set_cell (LNext elm) 0 q;
          q2 = set_prevp elm (lastp q1 h) q1;
          q3 = set_cell (lastp q2 h) elm q2
      in deref elm (set_lastp h (LNext elm) q3))"

definition TAILQ_REMOVE :: "qstore \<Rightarrow> nat \<Rightarrow> nat \<Rightarrow> qstore res" where
  "TAILQ_REMOVE q h elm =
     bindR (TAILQ_NEXT q elm) (\<lambda>nxt.
     let q1 = (if nxt \<noteq> 0 then set_prevp nxt (prevp q elm) q else set_lastp h (prevp q elm) q)
     in Inr (set_cell (prevp q1 elm) (cell q1 (LNext elm)) q1))"

definition TAILQ_SWAP :: "qstore \<Rightarrow> nat \<Rightarrow> nat \<Rightarrow> qstore" where
  "TAILQ_SWAP q h1 h2 =
     (let swap_first = TAILQ_FIRST q h1;
          swap_last = lastp q h1;
          q = set_cell (LFirst h1) (TAILQ_FIRST q h2) q;
          q = set_lastp h1 (lastp q h2) q;
          q = set_cell (LFirst h2) swap_first q;
          q = set_lastp h2 swap_last q;
          f1 = TAILQ_FIRST q h1;
          q = (if f1 \<noteq> 0 then set_prevp f1 (LFirst h1) q else set_lastp h1 (LFirst h1) q);
          f2 = TAILQ_FIRST q h2
      in if f2 \<noteq> 0 then set_prevp f2 (LFirst h2) q else set_lastp h2 (LFirst h2) q)"

section \<open>The list a head represents\<close>

text \<open>
  \<^verbatim>\<open>seg q l xs\<close>: from the cell \<^verbatim>\<open>l\<close> the elements \<^verbatim>\<open>xs\<close> follow each other; \<^verbatim>\<open>endl l xs\<close> is the cell
  after them.  \<^verbatim>\<open>backw q l xs\<close>: the previous pointers of \<^verbatim>\<open>xs\<close> lead back to \<^verbatim>\<open>l\<close>.
\<close>

fun seg :: "qstore \<Rightarrow> loc \<Rightarrow> nat list \<Rightarrow> bool" where
  "seg q l [] \<longleftrightarrow> True"
| "seg q l (x # xs) \<longleftrightarrow> x \<noteq> 0 \<and> cell q l = x \<and> seg q (LNext x) xs"

fun endl :: "loc \<Rightarrow> nat list \<Rightarrow> loc" where
  "endl l [] = l"
| "endl l (x # xs) = endl (LNext x) xs"

fun backw :: "qstore \<Rightarrow> loc \<Rightarrow> nat list \<Rightarrow> bool" where
  "backw q l [] \<longleftrightarrow> True"
| "backw q l (x # xs) \<longleftrightarrow> prevp q x = l \<and> backw q (LNext x) xs"

definition slist :: "qstore \<Rightarrow> nat \<Rightarrow> nat list \<Rightarrow> bool" where
  "slist q h xs \<longleftrightarrow> distinct xs \<and> seg q (LFirst h) xs \<and> cell q (endl (LFirst h) xs) = 0"

definition stailq :: "qstore \<Rightarrow> nat \<Rightarrow> nat list \<Rightarrow> bool" where
  "stailq q h xs \<longleftrightarrow> slist q h xs \<and> lastp q h = endl (LFirst h) xs"

definition dlist :: "qstore \<Rightarrow> nat \<Rightarrow> nat list \<Rightarrow> bool" where
  "dlist q h xs \<longleftrightarrow> slist q h xs \<and> backw q (LFirst h) xs"

definition tailq :: "qstore \<Rightarrow> nat \<Rightarrow> nat list \<Rightarrow> bool" where
  "tailq q h xs \<longleftrightarrow> stailq q h xs \<and> backw q (LFirst h) xs"


section \<open>The store and its accessors\<close>

lemma store_simps [simp]:
  "cell (set_cell l v q) = (cell q)(l := v)" "lastp (set_cell l v q) = lastp q" "prevp (set_cell l v q) = prevp q"
  "cell (set_lastp h l q) = cell q" "lastp (set_lastp h l q) = (lastp q)(h := l)" "prevp (set_lastp h l q) = prevp q"
  "cell (set_prevp e l q) = cell q" "lastp (set_prevp e l q) = lastp q" "prevp (set_prevp e l q) = (prevp q)(e := l)"
  by (simp_all add: set_cell_def set_lastp_def set_prevp_def)

lemma deref_simps [simp]: "deref 0 x = Inl (Segv 0)" "e \<noteq> 0 \<Longrightarrow> deref e x = Inr x"
  by (simp_all add: deref_def)

lemma deref_Inr_iff: "deref e x = Inr y \<longleftrightarrow> e \<noteq> 0 \<and> y = x"
  by (auto simp: deref_def)

section \<open>Segments\<close>

fun cells :: "loc \<Rightarrow> nat list \<Rightarrow> loc set" where
  "cells l [] = {}"
| "cells l (x # xs) = insert l (cells (LNext x) xs)"

lemma endl_in: "endl l xs \<in> insert l (LNext ` set xs)"
  by (induction l xs rule: endl.induct) auto

lemma cells_in: "cells l xs \<subseteq> insert l (LNext ` set xs)"
  by (induction l xs rule: cells.induct) auto

lemma seg_append [simp]: "seg q l (xs @ ys) \<longleftrightarrow> seg q l xs \<and> seg q (endl l xs) ys"
  by (induction xs arbitrary: l) auto

lemma endl_append [simp]: "endl l (xs @ ys) = endl (endl l xs) ys"
  by (induction xs arbitrary: l) auto

lemma backw_append [simp]: "backw q l (xs @ ys) \<longleftrightarrow> backw q l xs \<and> backw q (endl l xs) ys"
  by (induction xs arbitrary: l) auto

lemma endl_last: "endl l xs = (if xs = [] then l else LNext (last xs))"
  by (induction l xs rule: endl.induct) auto

lemma seg_cong: "seg q l xs \<Longrightarrow> (\<And>c. c \<in> cells l xs \<Longrightarrow> cell q' c = cell q c) \<Longrightarrow> seg q' l xs"
  by (induction l xs rule: cells.induct) auto

lemma backw_cong: "backw q l xs \<Longrightarrow> (\<And>x. x \<in> set xs \<Longrightarrow> prevp q' x = prevp q x) \<Longrightarrow> backw q' l xs"
  by (induction l xs rule: endl.induct) auto

lemma endl_notin_cells:
  assumes "distinct xs" and "l \<notin> LNext ` set xs"
  shows "endl l xs \<notin> cells l xs"
  using assms
proof (induction l xs rule: cells.induct)
  case (2 l x xs)
  then have "endl (LNext x) xs \<notin> cells (LNext x) xs" by auto
  moreover have "endl (LNext x) xs \<in> insert (LNext x) (LNext ` set xs)" by (rule endl_in)
  ultimately show ?case using 2(3) by auto
qed simp

lemma seg_nonzero: "seg q l xs \<Longrightarrow> 0 \<notin> set xs"
  by (induction l xs rule: cells.induct) auto

lemma slist_nonzero: "slist q h xs \<Longrightarrow> x \<in> set xs \<Longrightarrow> x \<noteq> 0"
  using seg_nonzero [of q "LFirst h" xs] by (cases "x = 0") (auto simp: slist_def)

lemma slist_distinct: "slist q h xs \<Longrightarrow> distinct xs"
  by (simp add: slist_def)

lemma slist_cell: "slist q h (xs @ ys) \<Longrightarrow> cell q (endl (LFirst h) xs) = (case ys of [] \<Rightarrow> 0 | y # _ \<Rightarrow> y)"
  by (cases ys) (auto simp: slist_def)

lemma slist_first: "slist q h xs \<Longrightarrow> cell q (LFirst h) = (case xs of [] \<Rightarrow> 0 | x # _ \<Rightarrow> x)"
  using slist_cell [of q h "[]" xs] by simp

lemma slist_next: "slist q h (xs @ c # ys) \<Longrightarrow> cell q (LNext c) = (case ys of [] \<Rightarrow> 0 | y # _ \<Rightarrow> y)"
  using slist_cell [of q h "xs @ [c]" ys] by simp

lemma slist_insert:
  assumes s: "slist q h (xs @ ys)" and e: "e \<noteq> 0" "e \<notin> set (xs @ ys)"
    and p: "p = endl (LFirst h) xs"
    and q': "cell q' = (cell q)(LNext e := cell q p, p := e)"
  shows "slist q' h (xs @ e # ys)"
proof -
  have d: "distinct (xs @ ys)" and seg: "seg q (LFirst h) xs" "seg q p ys" and z: "cell q (endl p ys) = 0"
    using s by (auto simp: slist_def p)
  have pin: "p \<in> insert (LFirst h) (LNext ` set xs)" unfolding p by (rule endl_in)
  have "p \<notin> cells (LFirst h) xs" unfolding p using d by (intro endl_notin_cells) auto
  moreover have "LNext e \<notin> cells (LFirst h) xs" using e cells_in [of "LFirst h" xs] by auto
  ultimately have seg1: "seg q' (LFirst h) xs" by (intro seg_cong [OF seg(1)]) (auto simp: q')
  have pe: "p \<noteq> LNext e" using pin e by auto
  have "seg q' (LNext e) ys \<and> cell q' (endl (LNext e) ys) = 0"
  proof (cases ys)
    case Nil
    then show ?thesis using pe z by (simp add: q')
  next
    case (Cons b bs)
    have sub: "insert (endl (LNext b) bs) (cells (LNext b) bs) \<subseteq> LNext ` set ys"
      using endl_in [of "LNext b" bs] cells_in [of "LNext b" bs] Cons by auto
    have "p \<notin> LNext ` set ys" "LNext e \<notin> LNext ` set ys" using pin d e by auto
    then have same: "cell q' c = cell q c" if "c \<in> insert (endl (LNext b) bs) (cells (LNext b) bs)" for c
      using sub that by (auto simp: q')
    from seg(2) z have b: "seg q (LNext b) bs" "cell q (endl (LNext b) bs) = 0" "b \<noteq> 0" "cell q p = b"
      by (auto simp: Cons)
    have "seg q' (LNext b) bs" by (rule seg_cong [OF b(1)]) (rule same, simp)
    moreover have "cell q' (endl (LNext b) bs) = 0" using same b(2) by simp
    ultimately show ?thesis using b(3,4) pe by (simp add: Cons q')
  qed
  then show ?thesis using seg1 d e by (auto simp: slist_def p [symmetric] q')
qed

lemma slist_delete:
  assumes s: "slist q h (xs @ e # ys)"
    and p: "p = endl (LFirst h) xs"
    and q': "cell q' = (cell q)(p := cell q (LNext e))"
  shows "slist q' h (xs @ ys)"
proof -
  have d: "distinct (xs @ e # ys)" and seg: "seg q (LFirst h) xs" "seg q (LNext e) ys"
    and z: "cell q (endl (LNext e) ys) = 0"
    using s by (auto simp: slist_def)
  have pin: "p \<in> insert (LFirst h) (LNext ` set xs)" unfolding p by (rule endl_in)
  have "p \<notin> cells (LFirst h) xs" unfolding p using d by (intro endl_notin_cells) auto
  then have seg1: "seg q' (LFirst h) xs" by (intro seg_cong [OF seg(1)]) (auto simp: q')
  have "seg q' p ys \<and> cell q' (endl p ys) = 0"
  proof (cases ys)
    case Nil
    then show ?thesis using z by (simp add: q')
  next
    case (Cons b bs)
    have sub: "insert (endl (LNext b) bs) (cells (LNext b) bs) \<subseteq> LNext ` set ys"
      using endl_in [of "LNext b" bs] cells_in [of "LNext b" bs] Cons by auto
    have "p \<notin> LNext ` set ys" using pin d by auto
    then have same: "cell q' c = cell q c" if "c \<in> insert (endl (LNext b) bs) (cells (LNext b) bs)" for c
      using sub that by (auto simp: q')
    from seg(2) z have b: "seg q (LNext b) bs" "cell q (endl (LNext b) bs) = 0" "b \<noteq> 0" "cell q (LNext e) = b"
      by (auto simp: Cons)
    have "seg q' (LNext b) bs" by (rule seg_cong [OF b(1)]) (rule same, simp)
    moreover have "cell q' (endl (LNext b) bs) = 0" using same b(2) by simp
    ultimately show ?thesis using b(3,4) by (simp add: Cons q')
  qed
  then show ?thesis using seg1 d by (auto simp: slist_def p [symmetric])
qed

lemma backw_insert:
  assumes "backw q l (xs @ ys)" and "distinct (xs @ ys)" "e \<notin> set (xs @ ys)" and "p = endl l xs"
    and "prevp q' = (case ys of [] \<Rightarrow> (prevp q)(e := p) | y # _ \<Rightarrow> (prevp q)(y := LNext e, e := p))"
  shows "backw q' l (xs @ e # ys)"
  using assms
  by (cases ys) (auto intro: backw_cong [of q])

lemma backw_delete:
  assumes "backw q l (xs @ e # ys)" and "distinct (xs @ e # ys)"
    and "prevp q' = (case ys of [] \<Rightarrow> prevp q | y # _ \<Rightarrow> (prevp q)(y := prevp q e))"
  shows "backw q' l (xs @ ys)"
  using assms
  by (cases ys) (auto intro: backw_cong [of q])

lemma backw_at: "backw q l (xs @ e # ys) \<Longrightarrow> prevp q e = endl l xs"
  by simp

section \<open>Framing\<close>

text \<open>An operation on the head \<^verbatim>\<open>h\<close> and the elements \<^verbatim>\<open>E\<close> touches no other head and no other element.\<close>

definition local_to :: "nat \<Rightarrow> nat set \<Rightarrow> qstore \<Rightarrow> qstore \<Rightarrow> bool" where
  "local_to h E q q' \<longleftrightarrow>
     (\<forall>l. l \<notin> insert (LFirst h) (LNext ` E) \<longrightarrow> cell q' l = cell q l) \<and>
     (\<forall>h'. h' \<noteq> h \<longrightarrow> lastp q' h' = lastp q h') \<and>
     (\<forall>e. e \<notin> E \<longrightarrow> prevp q' e = prevp q e)"

lemma local_slist:
  assumes "local_to h E q q'" "slist q h' ys" "h' \<noteq> h" "set ys \<inter> E = {}"
  shows "slist q' h' ys"
proof -
  have "cell q' c = cell q c" if "c \<in> insert (LFirst h') (LNext ` set ys)" for c
    using assms that unfolding local_to_def by blast
  then have "cell q' c = cell q c" if "c \<in> insert (endl (LFirst h') ys) (cells (LFirst h') ys)" for c
    using endl_in [of "LFirst h'" ys] cells_in [of "LFirst h'" ys] that by blast
  then show ?thesis using assms(2) by (auto simp: slist_def intro: seg_cong)
qed

lemma local_frame:
  assumes "local_to h E q q'" "h' \<noteq> h" "set ys \<inter> E = {}"
  shows "slist q h' ys \<Longrightarrow> slist q' h' ys" "stailq q h' ys \<Longrightarrow> stailq q' h' ys"
    "dlist q h' ys \<Longrightarrow> dlist q' h' ys" "tailq q h' ys \<Longrightarrow> tailq q' h' ys"
proof -
  have l: "lastp q' h' = lastp q h'" and b: "prevp q' x = prevp q x" if "x \<in> set ys" for x
    using assms that by (auto simp: local_to_def)
  have l: "lastp q' h' = lastp q h'" using assms by (auto simp: local_to_def)
  have bw: "backw q (LFirst h') ys \<Longrightarrow> backw q' (LFirst h') ys" by (erule backw_cong) (rule b)
  show "slist q h' ys \<Longrightarrow> slist q' h' ys" "stailq q h' ys \<Longrightarrow> stailq q' h' ys"
    "dlist q h' ys \<Longrightarrow> dlist q' h' ys" "tailq q h' ys \<Longrightarrow> tailq q' h' ys"
    using local_slist [OF assms(1) _ assms(2,3)] l bw by (auto simp: stailq_def dlist_def tailq_def)
qed

lemma endl_insert: "endl l (xs @ e # ys) = (if ys = [] then LNext e else endl l (xs @ ys))"
  by (auto simp: endl_last)

lemma endl_delete: "endl l (xs @ ys) = (if ys = [] then endl l xs else endl l (xs @ e # ys))"
  by (auto simp: endl_last)

lemma find_pred_seg:
  assumes "seg q l (xs @ c # e # ys)" and "distinct (xs @ c # e # ys)"
  shows "find_pred q e (cell q l) = Some (Inr c)"
  using assms
proof (induction xs arbitrary: l)
  case Nil
  then show ?case by (subst find_pred.simps) auto
next
  case (Cons x xs)
  then have "cell q (LNext x) \<noteq> e" by (cases xs) auto
  with Cons show ?case by (subst find_pred.simps) auto
qed

lemma find_pred_absent:
  assumes "seg q l xs" and "cell q (endl l xs) = 0" and "e \<notin> set xs" and "e \<noteq> 0"
  shows "find_pred q e (cell q l) = Some (Inl (Segv 0))"
  using assms
proof (induction xs arbitrary: l)
  case Nil
  then show ?case by (subst find_pred.simps) auto
next
  case (Cons x xs)
  then have "cell q (LNext x) \<noteq> e" by (cases xs) auto
  with Cons show ?case by (subst find_pred.simps) auto
qed

lemma foreach_seg:
  assumes "seg q l xs" and "cell q (endl l xs) = 0"
  shows "foreach_from q f (cell q l) s = Some (fold (\<lambda>x r. bindR r (f x)) xs (Inr s))"
  using assms
proof (induction xs arbitrary: l s)
  case Nil
  then show ?case by (subst foreach_from.simps) auto
next
  case (Cons x xs)
  have inl: "fold (\<lambda>x r. bindR r (f x)) xs (Inl e) = Inl e" for e by (induction xs) simp_all
  from Cons show ?case by (subst foreach_from.simps) (auto simp: inl split: sum.splits)
qed

text \<open>From an element that is its own successor the loop never returns, whatever its body computes.\<close>

lemma foreach_self_loop:
  assumes "cell q (LNext e) = e" "e \<noteq> 0" and "\<forall>x t. \<exists>t'. f x t = Inr t'"
  shows "foreach_from q f e s = None"
proof (rule ccontr)
  assume "foreach_from q f e s \<noteq> None"
  then obtain r where r: "foreach_from q f e s = Some r" by blast
  have "\<not> (cell q (LNext e) = e \<and> e \<noteq> 0 \<and> (\<forall>x t. \<exists>t'. f x t = Inr t'))"
  proof (rule foreach_from.raw_induct [OF _ r])
    fix loop :: "qstore \<Rightarrow> (nat \<Rightarrow> 'a \<Rightarrow> 'a res) \<Rightarrow> nat \<Rightarrow> 'a \<Rightarrow> 'a res option" and q f v s r
    assume IH: "\<And>q f v s r. loop q f v s = Some r \<Longrightarrow>
        \<not> (cell q (LNext v) = v \<and> v \<noteq> 0 \<and> (\<forall>x t. \<exists>t'. f x t = Inr t'))"
      and run: "(if v = 0 then Some (Inr s)
        else case f v s of Inl e \<Rightarrow> Some (Inl e) | Inr s' \<Rightarrow> loop q f (cell q (LNext v)) s') = Some r"
    show "\<not> (cell q (LNext v) = v \<and> v \<noteq> 0 \<and> (\<forall>x t. \<exists>t'. f x t = Inr t'))"
    proof
      assume c: "cell q (LNext v) = v \<and> v \<noteq> 0 \<and> (\<forall>x t. \<exists>t'. f x t = Inr t')"
      then obtain t' where "f v s = Inr t'" by blast
      with run c have "loop q f v t' = Some r" by simp
      from IH [OF this] c show False by blast
    qed
  qed
  with assms show False by blast
qed

lemma foreach_seg_loop:
  assumes "seg q l (xs @ [e])" "cell q (LNext e) = e" and "\<forall>x t. \<exists>t'. f x t = Inr t'"
  shows "foreach_from q f (cell q l) s = None"
  using assms
proof (induction xs arbitrary: l s)
  case Nil
  then show ?case using foreach_self_loop [of q e f] by simp
next
  case (Cons x xs)
  from Cons.prems(3) obtain t' where t': "f x s = Inr t'" by blast
  from Cons.IH [of "LNext x" t'] Cons.prems t' show ?case by (subst foreach_from.simps) simp
qed

lemma in_split_pred: "e \<in> set (x # xs) \<Longrightarrow> e \<noteq> x \<Longrightarrow> \<exists>us c vs. x # xs = us @ c # e # vs"
  by (metis append_butlast_last_id append_Cons append_Nil append_assoc list.inject set_ConsD split_list)

lemma seg_unique:
  "seg q l xs \<Longrightarrow> cell q (endl l xs) = 0 \<Longrightarrow> seg q l ys \<Longrightarrow> cell q (endl l ys) = 0 \<Longrightarrow> xs = ys"
proof (induction xs arbitrary: l ys)
  case Nil
  then show ?case by (cases ys) auto
next
  case (Cons x xs)
  then show ?case by (cases ys) auto
qed

lemma slist_unique: "slist q h xs \<Longrightarrow> slist q h ys \<Longrightarrow> xs = ys"
  using seg_unique unfolding slist_def by blast

section \<open>Singly-linked lists refine lists\<close>

lemma SLIST_INSERT_HEAD_spec:
  assumes "slist q h xs" "e \<noteq> 0" "e \<notin> set xs"
  shows "\<exists>q'. SLIST_INSERT_HEAD q h e = Inr q' \<and> slist q' h (e # xs) \<and> local_to h (insert e (set xs)) q q'"
  using slist_insert [of q h "[]" xs e "LFirst h"] assms
  by (auto simp: SLIST_INSERT_HEAD_def SLIST_FIRST_def local_to_def)

lemma SLIST_INSERT_AFTER_spec:
  assumes "slist q h (xs @ c # ys)" "e \<noteq> 0" "e \<notin> set (xs @ c # ys)"
  shows "\<exists>q'. SLIST_INSERT_AFTER q c e = Inr q' \<and> slist q' h (xs @ c # e # ys) \<and>
     local_to h (insert e (set (xs @ c # ys))) q q'"
  using slist_insert [of q h "xs @ [c]" ys e "LNext c"] assms slist_nonzero [OF assms(1), of c]
  by (auto simp: SLIST_INSERT_AFTER_def SLIST_NEXT_def local_to_def)

lemma SLIST_REMOVE_HEAD_spec:
  assumes "slist q h (x # xs)"
  shows "\<exists>q'. SLIST_REMOVE_HEAD q h = Inr q' \<and> slist q' h xs \<and> local_to h (set (x # xs)) q q'"
  using slist_delete [of q h "[]" x xs "LFirst h"] assms slist_nonzero [OF assms(1), of x] slist_first [OF assms]
  by (auto simp: SLIST_REMOVE_HEAD_def SLIST_FIRST_def SLIST_NEXT_def local_to_def)

lemma SLIST_REMOVE_AFTER_spec:
  assumes "slist q h (xs @ c # e # ys)"
  shows "\<exists>q'. SLIST_REMOVE_AFTER q c = Inr q' \<and> slist q' h (xs @ c # ys) \<and>
     local_to h (set (xs @ c # e # ys)) q q'"
  using slist_delete [of q h "xs @ [c]" e ys "LNext c"] assms slist_nonzero [OF assms(1), of c]
    slist_nonzero [OF assms(1), of e] slist_next [OF assms(1)]
  by (auto simp: SLIST_REMOVE_AFTER_def SLIST_NEXT_def local_to_def)

lemma SLIST_REMOVE_spec:
  assumes s: "slist q h xs" and e: "e \<in> set xs"
  shows "\<exists>q'. SLIST_REMOVE q h e = Inr q' \<and> slist q' h (remove1 e xs) \<and> local_to h (set xs) q q'"
proof -
  from e obtain x xs' where xs: "xs = x # xs'" by (cases xs) auto
  have first: "SLIST_FIRST q h = x" using slist_first [OF s] by (simp add: xs SLIST_FIRST_def)
  show ?thesis
  proof (cases "e = x")
    case True
    then show ?thesis using SLIST_REMOVE_HEAD_spec [OF s [unfolded xs]] first by (auto simp: SLIST_REMOVE_def xs)
  next
    case False
    then obtain us c vs where sp: "xs = us @ c # e # vs" using in_split_pred e xs by metis
    have "find_pred q e (SLIST_FIRST q h) = Some (Inr c)"
      using find_pred_seg [of q "LFirst h" us c e vs] s by (auto simp: slist_def sp SLIST_FIRST_def)
    moreover have "remove1 e xs = us @ c # vs" using slist_distinct [OF s] by (auto simp: sp remove1_append)
    ultimately show ?thesis
      using SLIST_REMOVE_AFTER_spec [OF s [unfolded sp]] False first by (auto simp: SLIST_REMOVE_def sp)
  qed
qed

lemma SLIST_REMOVE_absent:
  assumes "slist q h xs" "e \<notin> set xs" "e \<noteq> 0"
  shows "SLIST_REMOVE q h e = Inl (Segv 0)"
proof -
  have "SLIST_FIRST q h \<noteq> e" using assms slist_first [OF assms(1)] by (auto simp: SLIST_FIRST_def split: list.splits)
  then show ?thesis
    using find_pred_absent [of q "LFirst h" xs e] assms by (auto simp: SLIST_REMOVE_def SLIST_FIRST_def slist_def)
qed

lemma slist_restart:
  assumes "slist q h xs" and "cell q' (LFirst h') = cell q (LFirst h)"
    and "\<And>e. e \<in> set xs \<Longrightarrow> cell q' (LNext e) = cell q (LNext e)"
  shows "slist q' h' xs"
proof (cases xs)
  case Nil
  then show ?thesis using assms by (simp add: slist_def)
next
  case (Cons x ys)
  have "cell q' c = cell q c" if "c \<in> insert (endl (LNext x) ys) (cells (LNext x) ys)" for c
    using assms(3) that endl_in [of "LNext x" ys] cells_in [of "LNext x" ys] Cons by auto
  then show ?thesis using assms Cons by (auto simp: slist_def intro: seg_cong)
qed

lemma slist_concat:
  assumes s: "slist q h1 xs" "slist q h2 ys" "ys \<noteq> []" "set xs \<inter> set ys = {}"
    and q': "cell q' = (cell q)(endl (LFirst h1) xs := cell q (LFirst h2), LFirst h2 := 0)" and "h1 \<noteq> h2"
  shows "slist q' h1 (xs @ ys)"
proof -
  let ?p = "endl (LFirst h1) xs"
  have pin: "?p \<in> insert (LFirst h1) (LNext ` set xs)" by (rule endl_in)
  have "?p \<notin> cells (LFirst h1) xs" using s(1) by (intro endl_notin_cells) (auto simp: slist_def)
  moreover have "LFirst h2 \<notin> cells (LFirst h1) xs" using \<open>h1 \<noteq> h2\<close> cells_in [of "LFirst h1" xs] by auto
  ultimately have 1: "seg q' (LFirst h1) xs"
    using s(1) by (auto simp: slist_def q' intro: seg_cong [of q])
  obtain b bs where ys: "ys = b # bs" using s(3) by (cases ys) auto
  have same: "cell q' c = cell q c" if "c \<in> insert (endl (LNext b) bs) (cells (LNext b) bs)" for c
    using that endl_in [of "LNext b" bs] cells_in [of "LNext b" bs] pin s(4) by (auto simp: ys q')
  have b: "seg q (LNext b) bs" "cell q (endl (LNext b) bs) = 0" "b \<noteq> 0" "cell q (LFirst h2) = b"
    using s(2) by (auto simp: slist_def ys)
  have "seg q' (LNext b) bs" by (rule seg_cong [OF b(1)]) (rule same, simp)
  moreover have "cell q' (endl (LNext b) bs) = 0" using same b(2) by simp
  moreover have "cell q' ?p = b" using b(4) pin \<open>h1 \<noteq> h2\<close> by (auto simp: q')
  ultimately show ?thesis using 1 s b(3) by (auto simp: slist_def ys)
qed

section \<open>Singly-linked tail queues refine lists\<close>

lemma stailq_slist: "stailq q h xs \<Longrightarrow> slist q h xs"
  by (simp add: stailq_def)

lemma STAILQ_INIT_spec: "stailq (STAILQ_INIT q h) h [] \<and> local_to h {} q (STAILQ_INIT q h)"
  by (simp add: STAILQ_INIT_def stailq_def slist_def local_to_def)

lemma STAILQ_FIRST_spec: "stailq q h xs \<Longrightarrow> STAILQ_FIRST q h = (case xs of [] \<Rightarrow> 0 | x # _ \<Rightarrow> x)"
  by (simp add: STAILQ_FIRST_def slist_first stailq_slist)

lemma STAILQ_EMPTY_spec: "stailq q h xs \<Longrightarrow> STAILQ_EMPTY q h \<longleftrightarrow> xs = []"
  using slist_first [OF stailq_slist, of q h xs] slist_nonzero [OF stailq_slist, of q h xs]
  by (cases xs) (auto simp: STAILQ_EMPTY_def)

lemma STAILQ_INSERT_HEAD_spec:
  assumes "stailq q h xs" "e \<noteq> 0" "e \<notin> set xs"
  shows "\<exists>q'. STAILQ_INSERT_HEAD q h e = Inr q' \<and> stailq q' h (e # xs) \<and> local_to h (insert e (set xs)) q q'"
proof -
  define q' where "q' = set_cell (LFirst h) e (let q1 = set_cell (LNext e) (STAILQ_FIRST q h) q
    in if STAILQ_FIRST q h = 0 then set_lastp h (LNext e) q1 else q1)"
  have "slist q' h (e # xs)"
    using slist_insert [of q h "[]" xs e "LFirst h" q'] assms
    by (auto simp: q'_def STAILQ_FIRST_def Let_def stailq_slist)
  moreover have "lastp q' h = endl (LFirst h) (e # xs)"
    using assms endl_insert [of "LFirst h" "[]" e xs] STAILQ_EMPTY_spec [OF assms(1)]
    by (auto simp: q'_def Let_def stailq_def STAILQ_EMPTY_def STAILQ_FIRST_def)
  moreover have "STAILQ_INSERT_HEAD q h e = Inr q'" using assms by (simp add: STAILQ_INSERT_HEAD_def q'_def Let_def)
  moreover have "local_to h (insert e (set xs)) q q'" by (auto simp: local_to_def q'_def Let_def)
  ultimately show ?thesis by (auto simp: stailq_def)
qed

lemma STAILQ_INSERT_TAIL_spec:
  assumes "stailq q h xs" "e \<noteq> 0" "e \<notin> set xs"
  shows "\<exists>q'. STAILQ_INSERT_TAIL q h e = Inr q' \<and> stailq q' h (xs @ [e]) \<and> local_to h (insert e (set xs)) q q'"
proof -
  define q' where "q' = set_lastp h (LNext e) (set_cell (lastp q h) e (set_cell (LNext e) 0 q))"
  have last: "lastp q h = endl (LFirst h) xs" "cell q (lastp q h) = 0"
    using assms by (auto simp: stailq_def slist_def)
  have "slist q' h (xs @ [e])"
    using slist_insert [of q h xs "[]" e "lastp q h" q'] assms last
    by (auto simp: q'_def stailq_slist)
  then have "stailq q' h (xs @ [e])" by (simp add: stailq_def q'_def)
  moreover have "STAILQ_INSERT_TAIL q h e = Inr q'" using assms by (simp add: STAILQ_INSERT_TAIL_def q'_def Let_def)
  moreover have "local_to h (insert e (set xs)) q q'"
    using endl_in [of "LFirst h" xs] last by (auto simp: local_to_def q'_def)
  ultimately show ?thesis by auto
qed

lemma STAILQ_INSERT_AFTER_spec:
  assumes "stailq q h (xs @ c # ys)" "e \<noteq> 0" "e \<notin> set (xs @ c # ys)"
  shows "\<exists>q'. STAILQ_INSERT_AFTER q h c e = Inr q' \<and> stailq q' h (xs @ c # e # ys) \<and>
     local_to h (insert e (set (xs @ c # ys))) q q'"
proof -
  have s: "slist q h (xs @ c # ys)" using assms(1) by (rule stailq_slist)
  define nxt where "nxt = cell q (LNext c)"
  have nxt: "nxt = 0 \<longleftrightarrow> ys = []"
    using slist_next [OF s] slist_nonzero [OF s] by (auto simp: nxt_def split: list.splits)
  define q' where "q' = set_cell (LNext c) e (let q1 = set_cell (LNext e) nxt q
    in if nxt = 0 then set_lastp h (LNext e) q1 else q1)"
  have "slist q' h (xs @ c # e # ys)"
    using slist_insert [of q h "xs @ [c]" ys e "LNext c" q'] assms s by (auto simp: q'_def nxt_def Let_def)
  moreover have "lastp q' h = endl (LFirst h) (xs @ c # e # ys)"
    using assms(1) nxt endl_insert [of "LFirst h" "xs @ [c]" e ys] by (auto simp: q'_def Let_def stailq_def)
  moreover have "STAILQ_INSERT_AFTER q h c e = Inr q'"
    using assms slist_nonzero [OF s, of c] by (simp add: STAILQ_INSERT_AFTER_def STAILQ_NEXT_def q'_def nxt_def Let_def)
  moreover have "local_to h (insert e (set (xs @ c # ys))) q q'" by (auto simp: local_to_def q'_def Let_def)
  ultimately show ?thesis by (auto simp: stailq_def)
qed

lemma STAILQ_REMOVE_HEAD_spec:
  assumes "stailq q h (x # xs)"
  shows "\<exists>q'. STAILQ_REMOVE_HEAD q h = Inr q' \<and> stailq q' h xs \<and> local_to h (set (x # xs)) q q'"
proof -
  have s: "slist q h (x # xs)" using assms by (rule stailq_slist)
  have x: "x \<noteq> 0" "cell q (LFirst h) = x" using slist_nonzero [OF s] slist_first [OF s] by auto
  have nxt: "cell q (LNext x) = 0 \<longleftrightarrow> xs = []"
    using slist_next [of q h "[]" x xs] s slist_nonzero [OF s] by (auto split: list.splits)
  define q' where "q' = (let q1 = set_cell (LFirst h) (cell q (LNext x)) q
    in if cell q (LNext x) = 0 then set_lastp h (LFirst h) q1 else q1)"
  have "slist q' h xs"
    using slist_delete [of q h "[]" x xs "LFirst h" q'] s by (auto simp: q'_def Let_def)
  moreover have "lastp q' h = endl (LFirst h) xs"
    using assms nxt endl_delete [of "LFirst h" "[]" xs x] by (auto simp: q'_def Let_def stailq_def)
  moreover have "STAILQ_REMOVE_HEAD q h = Inr q'"
    using x by (simp add: STAILQ_REMOVE_HEAD_def STAILQ_NEXT_def STAILQ_FIRST_def q'_def Let_def)
  moreover have "local_to h (set (x # xs)) q q'" by (auto simp: local_to_def q'_def Let_def)
  ultimately show ?thesis by (auto simp: stailq_def)
qed

lemma STAILQ_REMOVE_AFTER_spec:
  assumes "stailq q h (xs @ c # e # ys)"
  shows "\<exists>q'. STAILQ_REMOVE_AFTER q h c = Inr q' \<and> stailq q' h (xs @ c # ys) \<and>
     local_to h (set (xs @ c # e # ys)) q q'"
proof -
  have s: "slist q h (xs @ c # e # ys)" using assms by (rule stailq_slist)
  have c: "c \<noteq> 0" "e \<noteq> 0" "cell q (LNext c) = e" using slist_nonzero [OF s] slist_next [OF s] by auto
  have nxt: "cell q (LNext e) = 0 \<longleftrightarrow> ys = []"
    using slist_next [of q h "xs @ [c]" e ys] s slist_nonzero [OF s] by (auto split: list.splits)
  define q' where "q' = (let q1 = set_cell (LNext c) (cell q (LNext e)) q
    in if cell q (LNext e) = 0 then set_lastp h (LNext c) q1 else q1)"
  have "slist q' h (xs @ c # ys)"
    using slist_delete [of q h "xs @ [c]" e ys "LNext c" q'] s by (auto simp: q'_def Let_def)
  moreover have "lastp q' h = endl (LFirst h) (xs @ c # ys)"
    using assms nxt endl_delete [of "LFirst h" "xs @ [c]" ys e] by (auto simp: q'_def Let_def stailq_def)
  moreover have "STAILQ_REMOVE_AFTER q h c = Inr q'"
    using c by (simp add: STAILQ_REMOVE_AFTER_def STAILQ_NEXT_def q'_def Let_def)
  moreover have "local_to h (set (xs @ c # e # ys)) q q'" by (auto simp: local_to_def q'_def Let_def)
  ultimately show ?thesis by (auto simp: stailq_def)
qed

lemma STAILQ_REMOVE_spec:
  assumes s: "stailq q h xs" and e: "e \<in> set xs"
  shows "\<exists>q'. STAILQ_REMOVE q h e = Inr q' \<and> stailq q' h (remove1 e xs) \<and> local_to h (set xs) q q'"
proof -
  from e obtain x xs' where xs: "xs = x # xs'" by (cases xs) auto
  have first: "STAILQ_FIRST q h = x" using STAILQ_FIRST_spec [OF s] by (simp add: xs)
  show ?thesis
  proof (cases "e = x")
    case True
    then show ?thesis using STAILQ_REMOVE_HEAD_spec [OF s [unfolded xs]] first by (auto simp: STAILQ_REMOVE_def xs)
  next
    case False
    then obtain us c vs where sp: "xs = us @ c # e # vs" using in_split_pred e xs by metis
    have "find_pred q e (STAILQ_FIRST q h) = Some (Inr c)"
      using find_pred_seg [of q "LFirst h" us c e vs] stailq_slist [OF s]
      by (auto simp: slist_def sp STAILQ_FIRST_def)
    moreover have "remove1 e xs = us @ c # vs"
      using slist_distinct [OF stailq_slist [OF s]] by (auto simp: sp remove1_append)
    ultimately show ?thesis
      using STAILQ_REMOVE_AFTER_spec [OF s [unfolded sp]] False first by (auto simp: STAILQ_REMOVE_def sp)
  qed
qed

lemma STAILQ_LAST_spec: "stailq q h xs \<Longrightarrow> STAILQ_LAST q h = Inr (if xs = [] then 0 else last xs)"
  using STAILQ_EMPTY_spec [of q h xs] by (auto simp: STAILQ_LAST_def stailq_def endl_last)

lemma STAILQ_CONCAT_spec:
  assumes s: "stailq q h1 xs" "stailq q h2 ys" and "h1 \<noteq> h2" "set xs \<inter> set ys = {}"
  shows "stailq (STAILQ_CONCAT q h1 h2) h1 (xs @ ys) \<and> stailq (STAILQ_CONCAT q h1 h2) h2 []"
proof (cases "ys = []")
  case True
  then show ?thesis using s STAILQ_EMPTY_spec [OF s(2)] by (auto simp: STAILQ_CONCAT_def)
next
  case False
  let ?q = "STAILQ_CONCAT q h1 h2"
  have ne: "\<not> STAILQ_EMPTY q h2" using False s STAILQ_EMPTY_spec by auto
  have last: "lastp q h1 = endl (LFirst h1) xs" using s(1) by (simp add: stailq_def)
  have "cell ?q = (cell q)(endl (LFirst h1) xs := cell q (LFirst h2), LFirst h2 := 0)"
    using ne by (simp add: STAILQ_CONCAT_def STAILQ_INIT_def STAILQ_FIRST_def last Let_def)
  then have "slist ?q h1 (xs @ ys)" "cell ?q (LFirst h2) = 0"
    using slist_concat [of q h1 xs h2 ys ?q] s False assms(3,4) by (simp_all add: stailq_slist)
  moreover from this(2) have "slist ?q h2 []" by (simp add: slist_def)
  moreover have "lastp ?q h1 = endl (LFirst h1) (xs @ ys)" "lastp ?q h2 = LFirst h2"
    using ne s(2) assms(3) False
    by (auto simp: STAILQ_CONCAT_def STAILQ_INIT_def Let_def stailq_def endl_last)
  ultimately show ?thesis by (simp add: stailq_def)
qed

lemma STAILQ_SWAP_spec:
  assumes s: "stailq q h1 xs" "stailq q h2 ys" and "h1 \<noteq> h2"
  shows "stailq (STAILQ_SWAP q h1 h2) h1 ys \<and> stailq (STAILQ_SWAP q h1 h2) h2 xs"
proof -
  let ?q = "STAILQ_SWAP q h1 h2"
  have e: "cell q (LFirst h1) = 0 \<longleftrightarrow> xs = []" "cell q (LFirst h2) = 0 \<longleftrightarrow> ys = []"
    using STAILQ_EMPTY_spec [OF s(1)] STAILQ_EMPTY_spec [OF s(2)] by (simp_all add: STAILQ_EMPTY_def)
  have cells: "cell ?q = (cell q)(LFirst h1 := cell q (LFirst h2), LFirst h2 := cell q (LFirst h1))"
    by (auto simp: STAILQ_SWAP_def STAILQ_FIRST_def Let_def)
  have "lastp ?q h1 = endl (LFirst h1) ys" "lastp ?q h2 = endl (LFirst h2) xs"
    using s e assms(3)
    by (auto simp: STAILQ_SWAP_def STAILQ_FIRST_def STAILQ_EMPTY_def Let_def stailq_def endl_last)
  moreover have "slist ?q h1 ys" "slist ?q h2 xs"
    using slist_restart [of q h2 ys ?q h1] slist_restart [of q h1 xs ?q h2] s assms(3) cells
    by (auto simp: stailq_slist)
  ultimately show ?thesis by (simp add: stailq_def)
qed

lemma SLIST_SWAP_spec:
  assumes s: "slist q h1 xs" "slist q h2 ys" and "h1 \<noteq> h2"
  shows "slist (SLIST_SWAP q h1 h2) h1 ys \<and> slist (SLIST_SWAP q h1 h2) h2 xs"
  using slist_restart [of q h2 ys "SLIST_SWAP q h1 h2" h1] slist_restart [of q h1 xs "SLIST_SWAP q h1 h2" h2] assms
  by (auto simp: SLIST_SWAP_def SLIST_FIRST_def Let_def)

section \<open>Lists refine lists\<close>

lemma dlist_slist: "dlist q h xs \<Longrightarrow> slist q h xs"
  by (simp add: dlist_def)

lemma LIST_INIT_spec: "dlist (LIST_INIT q h) h [] \<and> local_to h {} q (LIST_INIT q h)"
  by (simp add: LIST_INIT_def dlist_def slist_def local_to_def)

lemma LIST_FIRST_spec: "dlist q h xs \<Longrightarrow> LIST_FIRST q h = (case xs of [] \<Rightarrow> 0 | x # _ \<Rightarrow> x)"
  by (simp add: LIST_FIRST_def slist_first dlist_slist)

lemma LIST_INSERT_HEAD_spec:
  assumes "dlist q h xs" "e \<noteq> 0" "e \<notin> set xs"
  shows "\<exists>q'. LIST_INSERT_HEAD q h e = Inr q' \<and> dlist q' h (e # xs) \<and> local_to h (insert e (set xs)) q q'"
proof -
  let ?f = "LIST_FIRST q h"
  define q' where "q' = set_prevp e (LFirst h) (set_cell (LFirst h) e (let q1 = set_cell (LNext e) ?f q
    in if ?f \<noteq> 0 then set_prevp ?f (LNext e) q1 else q1))"
  have f: "?f = (case xs of [] \<Rightarrow> 0 | x # _ \<Rightarrow> x)" using LIST_FIRST_spec [OF assms(1)] .
  have nz: "0 \<notin> set xs" using slist_nonzero [OF dlist_slist [OF assms(1)]] by blast
  have "slist q' h (e # xs)"
    using slist_insert [of q h "[]" xs e "LFirst h" q'] assms
    by (auto simp: q'_def LIST_FIRST_def Let_def dlist_slist)
  moreover have "backw q' (LFirst h) (e # xs)"
    using backw_insert [of q "LFirst h" "[]" xs e "LFirst h" q'] assms f nz
    by (auto simp: q'_def Let_def dlist_def slist_def split: list.splits)
  moreover have "LIST_INSERT_HEAD q h e = Inr q'" using assms by (simp add: LIST_INSERT_HEAD_def q'_def Let_def)
  moreover have "local_to h (insert e (set xs)) q q'"
    using f by (auto simp: local_to_def q'_def Let_def split: list.splits)
  ultimately show ?thesis by (auto simp: dlist_def)
qed

lemma LIST_INSERT_AFTER_spec:
  assumes "dlist q h (xs @ c # ys)" "e \<noteq> 0" "e \<notin> set (xs @ c # ys)"
  shows "\<exists>q'. LIST_INSERT_AFTER q c e = Inr q' \<and> dlist q' h (xs @ c # e # ys) \<and>
     local_to h (insert e (set (xs @ c # ys))) q q'"
proof -
  have s: "slist q h (xs @ c # ys)" using assms(1) by (rule dlist_slist)
  have nz: "0 \<notin> set (xs @ c # ys)" using slist_nonzero [OF s] by blast
  let ?f = "cell q (LNext c)"
  define q' where "q' = set_prevp e (LNext c) (set_cell (LNext c) e (let q1 = set_cell (LNext e) ?f q
    in if ?f \<noteq> 0 then set_prevp ?f (LNext e) q1 else q1))"
  have f: "?f = (case ys of [] \<Rightarrow> 0 | x # _ \<Rightarrow> x)" using slist_next [OF s] .
  have "slist q' h (xs @ c # e # ys)"
    using slist_insert [of q h "xs @ [c]" ys e "LNext c" q'] assms s by (auto simp: q'_def Let_def)
  moreover have "backw q' (LFirst h) (xs @ c # e # ys)"
  proof -
    have pr: "prevp q' = (case ys of [] \<Rightarrow> (prevp q)(e := LNext c) | y # _ \<Rightarrow> (prevp q)(y := LNext e, e := LNext c))"
      using f nz by (cases ys) (simp_all add: q'_def)
    have b: "backw q (LFirst h) ((xs @ [c]) @ ys)" using assms(1) by (simp add: dlist_def)
    have d: "distinct ((xs @ [c]) @ ys)" "e \<notin> set ((xs @ [c]) @ ys)" using slist_distinct [OF s] assms(3) by simp_all
    have "LNext c = endl (LFirst h) (xs @ [c])" by simp
    from backw_insert [OF b d this pr] show ?thesis by simp
  qed
  moreover have "LIST_INSERT_AFTER q c e = Inr q'"
    using assms nz by (simp add: LIST_INSERT_AFTER_def LIST_NEXT_def q'_def Let_def)
  moreover have "local_to h (insert e (set (xs @ c # ys))) q q'"
    using f by (auto simp: local_to_def q'_def Let_def split: list.splits)
  ultimately show ?thesis by (auto simp: dlist_def)
qed

lemma LIST_INSERT_BEFORE_spec:
  assumes "dlist q h (xs @ c # ys)" "e \<noteq> 0" "e \<notin> set (xs @ c # ys)"
  shows "\<exists>q'. LIST_INSERT_BEFORE q c e = Inr q' \<and> dlist q' h (xs @ e # c # ys) \<and>
     local_to h (insert e (set (xs @ c # ys))) q q'"
proof -
  have s: "slist q h (xs @ c # ys)" using assms(1) by (rule dlist_slist)
  have c: "c \<noteq> 0" "c \<noteq> e" using slist_nonzero [OF s] assms by auto
  have p: "prevp q c = endl (LFirst h) xs" using assms(1) by (simp add: dlist_def)
  have "endl (LFirst h) xs \<noteq> LNext e" using endl_in [of "LFirst h" xs] assms(3) by auto
  have pc: "cell q (endl (LFirst h) xs) = c" using slist_cell [OF s] by simp
  define q' where "q' = set_prevp c (LNext e) (set_cell (prevp q c) e (set_cell (LNext e) c (set_prevp e (prevp q c) q)))"
  have "slist q' h (xs @ e # c # ys)"
    using slist_insert [of q h xs "c # ys" e "endl (LFirst h) xs" q'] assms s p pc by (auto simp: q'_def)
  moreover have "backw q' (LFirst h) (xs @ e # c # ys)"
    using backw_insert [of q "LFirst h" xs "c # ys" e "endl (LFirst h) xs" q'] assms p c
    by (auto simp: q'_def dlist_def slist_def fun_upd_twist)
  moreover have "LIST_INSERT_BEFORE q c e = Inr q'"
    using assms c by (simp add: LIST_INSERT_BEFORE_def q'_def Let_def)
  moreover have "local_to h (insert e (set (xs @ c # ys))) q q'"
    using p endl_in [of "LFirst h" xs] by (auto simp: local_to_def q'_def)
  ultimately show ?thesis by (auto simp: dlist_def)
qed

lemma LIST_REMOVE_spec:
  assumes "dlist q h (xs @ e # ys)"
  shows "\<exists>q'. LIST_REMOVE q e = Inr q' \<and> dlist q' h (xs @ ys) \<and> local_to h (set (xs @ e # ys)) q q'"
proof -
  have s: "slist q h (xs @ e # ys)" using assms(1) by (rule dlist_slist)
  have nz: "0 \<notin> set (xs @ e # ys)" using slist_nonzero [OF s] by blast
  have d: "distinct (xs @ e # ys)" using s by (rule slist_distinct)
  let ?f = "cell q (LNext e)"
  have f: "?f = (case ys of [] \<Rightarrow> 0 | x # _ \<Rightarrow> x)" using slist_next [OF s] .
  have fe: "?f \<noteq> e" using f d nz by (auto split: list.splits)
  have p: "prevp q e = endl (LFirst h) xs" using assms(1) by (simp add: dlist_def)
  define q' where "q' = set_cell (prevp q e) ?f (if ?f \<noteq> 0 then set_prevp ?f (prevp q e) q else q)"
  have "slist q' h (xs @ ys)"
    using slist_delete [of q h xs e ys "endl (LFirst h) xs" q'] s p by (auto simp: q'_def)
  moreover have "backw q' (LFirst h) (xs @ ys)"
    using backw_delete [of q "LFirst h" xs e ys q'] assms f nz d
    by (auto simp: q'_def dlist_def split: list.splits)
  moreover have "LIST_REMOVE q e = Inr q'"
    using nz fe by (auto simp: LIST_REMOVE_def LIST_NEXT_def q'_def Let_def)
  moreover have "local_to h (set (xs @ e # ys)) q q'"
    using f p endl_in [of "LFirst h" xs] by (auto simp: local_to_def q'_def split: list.splits)
  ultimately show ?thesis by (auto simp: dlist_def)
qed

text \<open>A LIST with a pointer to its last element can be appended to, as both page mappers do.\<close>

lemma LIST_append_spec:
  assumes "dlist q h xs" "e \<noteq> 0" "e \<notin> set xs" "l = (if xs = [] then 0 else last xs)"
  shows "\<exists>q'. (if xs = [] then LIST_INSERT_HEAD q h e else LIST_INSERT_AFTER q l e) = Inr q' \<and> dlist q' h (xs @ [e])"
proof (cases xs rule: rev_cases)
  case Nil
  then show ?thesis using LIST_INSERT_HEAD_spec [OF assms(1-3)] by auto
next
  case (snoc ys y)
  then show ?thesis using LIST_INSERT_AFTER_spec [of q h ys y "[]" e] assms by auto
qed

section \<open>Tail queues refine lists\<close>

lemma tailq_slist: "tailq q h xs \<Longrightarrow> slist q h xs"
  by (simp add: tailq_def stailq_def)

lemma TAILQ_INIT_spec: "tailq (TAILQ_INIT q h) h [] \<and> local_to h {} q (TAILQ_INIT q h)"
  by (simp add: TAILQ_INIT_def tailq_def stailq_def slist_def local_to_def)

lemma TAILQ_FIRST_spec: "tailq q h xs \<Longrightarrow> TAILQ_FIRST q h = (case xs of [] \<Rightarrow> 0 | x # _ \<Rightarrow> x)"
  by (simp add: TAILQ_FIRST_def slist_first tailq_slist)

lemma TAILQ_INSERT_TAIL_spec:
  assumes "tailq q h xs" "e \<noteq> 0" "e \<notin> set xs"
  shows "\<exists>q'. TAILQ_INSERT_TAIL q h e = Inr q' \<and> tailq q' h (xs @ [e]) \<and> local_to h (insert e (set xs)) q q'"
proof -
  define q' where "q' = set_lastp h (LNext e) (set_cell (lastp q h) e (set_prevp e (lastp q h) (set_cell (LNext e) 0 q)))"
  have last: "lastp q h = endl (LFirst h) xs" "cell q (lastp q h) = 0"
    using assms by (auto simp: tailq_def stailq_def slist_def)
  have "slist q' h (xs @ [e])"
    using slist_insert [of q h xs "[]" e "lastp q h" q'] assms last by (auto simp: q'_def tailq_slist)
  moreover have "backw q' (LFirst h) (xs @ [e])"
    using backw_insert [of q "LFirst h" xs "[]" e "lastp q h" q'] assms last
    by (auto simp: q'_def tailq_def stailq_def slist_def)
  moreover have "lastp q' h = endl (LFirst h) (xs @ [e])" by (simp add: q'_def)
  ultimately have "tailq q' h (xs @ [e])" by (simp add: tailq_def stailq_def)
  moreover have "TAILQ_INSERT_TAIL q h e = Inr q'" using assms by (simp add: TAILQ_INSERT_TAIL_def q'_def Let_def)
  moreover have "local_to h (insert e (set xs)) q q'"
    using endl_in [of "LFirst h" xs] last by (auto simp: local_to_def q'_def)
  ultimately show ?thesis by auto
qed

lemma TAILQ_INSERT_HEAD_spec:
  assumes "tailq q h xs" "e \<noteq> 0" "e \<notin> set xs"
  shows "\<exists>q'. TAILQ_INSERT_HEAD q h e = Inr q' \<and> tailq q' h (e # xs) \<and> local_to h (insert e (set xs)) q q'"
proof -
  let ?f = "TAILQ_FIRST q h"
  define q' where "q' = set_prevp e (LFirst h) (set_cell (LFirst h) e (let q1 = set_cell (LNext e) ?f q
    in if ?f \<noteq> 0 then set_prevp ?f (LNext e) q1 else set_lastp h (LNext e) q1))"
  have f: "?f = (case xs of [] \<Rightarrow> 0 | x # _ \<Rightarrow> x)" using TAILQ_FIRST_spec [OF assms(1)] .
  have nz: "0 \<notin> set xs" using slist_nonzero [OF tailq_slist [OF assms(1)]] by blast
  have f0: "?f = 0 \<longleftrightarrow> xs = []" using f nz by (auto split: list.splits)
  have "slist q' h (e # xs)"
    using slist_insert [of q h "[]" xs e "LFirst h" q'] assms
    by (auto simp: q'_def TAILQ_FIRST_def Let_def tailq_slist)
  moreover have "backw q' (LFirst h) (e # xs)"
    using backw_insert [of q "LFirst h" "[]" xs e "LFirst h" q'] assms f nz
    by (auto simp: q'_def Let_def tailq_def stailq_def slist_def split: list.splits)
  moreover have "lastp q' h = endl (LFirst h) (e # xs)"
    using assms f0 endl_insert [of "LFirst h" "[]" e xs] by (auto simp: q'_def Let_def tailq_def stailq_def)
  moreover have "TAILQ_INSERT_HEAD q h e = Inr q'" using assms by (simp add: TAILQ_INSERT_HEAD_def q'_def Let_def)
  moreover have "local_to h (insert e (set xs)) q q'"
    using f by (auto simp: local_to_def q'_def Let_def split: list.splits)
  ultimately show ?thesis by (auto simp: tailq_def stailq_def)
qed

lemma TAILQ_REMOVE_spec:
  assumes "tailq q h (xs @ e # ys)"
  shows "\<exists>q'. TAILQ_REMOVE q h e = Inr q' \<and> tailq q' h (xs @ ys) \<and> local_to h (set (xs @ e # ys)) q q'"
proof -
  have s: "slist q h (xs @ e # ys)" using assms(1) by (rule tailq_slist)
  have nz: "0 \<notin> set (xs @ e # ys)" using slist_nonzero [OF s] by blast
  have d: "distinct (xs @ e # ys)" using s by (rule slist_distinct)
  let ?f = "cell q (LNext e)"
  have f: "?f = (case ys of [] \<Rightarrow> 0 | x # _ \<Rightarrow> x)" using slist_next [OF s] .
  have fe: "?f \<noteq> e" using f d nz by (auto split: list.splits)
  have f0: "?f = 0 \<longleftrightarrow> ys = []" using f nz by (auto split: list.splits)
  have p: "prevp q e = endl (LFirst h) xs" using assms(1) by (simp add: tailq_def)
  define q' where "q' = set_cell (prevp q e) ?f
    (if ?f \<noteq> 0 then set_prevp ?f (prevp q e) q else set_lastp h (prevp q e) q)"
  have "slist q' h (xs @ ys)"
    using slist_delete [of q h xs e ys "endl (LFirst h) xs" q'] s p by (auto simp: q'_def)
  moreover have "backw q' (LFirst h) (xs @ ys)"
    using backw_delete [of q "LFirst h" xs e ys q'] assms f nz d
    by (auto simp: q'_def tailq_def split: list.splits)
  moreover have "lastp q' h = endl (LFirst h) (xs @ ys)"
    using assms f0 p endl_delete [of "LFirst h" xs ys e] by (auto simp: q'_def tailq_def stailq_def)
  moreover have "TAILQ_REMOVE q h e = Inr q'"
    using nz fe by (auto simp: TAILQ_REMOVE_def TAILQ_NEXT_def q'_def Let_def)
  moreover have "local_to h (set (xs @ e # ys)) q q'"
    using f p endl_in [of "LFirst h" xs] by (auto simp: local_to_def q'_def split: list.splits)
  ultimately show ?thesis by (auto simp: tailq_def stailq_def)
qed

lemma TAILQ_INSERT_AFTER_spec:
  assumes "tailq q h (xs @ c # ys)" "e \<noteq> 0" "e \<notin> set (xs @ c # ys)"
  shows "\<exists>q'. TAILQ_INSERT_AFTER q h c e = Inr q' \<and> tailq q' h (xs @ c # e # ys) \<and>
     local_to h (insert e (set (xs @ c # ys))) q q'"
proof -
  have s: "slist q h (xs @ c # ys)" using assms(1) by (rule tailq_slist)
  have nz: "0 \<notin> set (xs @ c # ys)" using slist_nonzero [OF s] by blast
  let ?f = "cell q (LNext c)"
  define q' where "q' = set_prevp e (LNext c) (set_cell (LNext c) e (let q1 = set_cell (LNext e) ?f q
    in if ?f \<noteq> 0 then set_prevp ?f (LNext e) q1 else set_lastp h (LNext e) q1))"
  have f: "?f = (case ys of [] \<Rightarrow> 0 | x # _ \<Rightarrow> x)" using slist_next [OF s] .
  have f0: "?f = 0 \<longleftrightarrow> ys = []" using f nz by (auto split: list.splits)
  have "slist q' h (xs @ c # e # ys)"
    using slist_insert [of q h "xs @ [c]" ys e "LNext c" q'] assms s by (auto simp: q'_def Let_def)
  moreover have "backw q' (LFirst h) (xs @ c # e # ys)"
  proof -
    have pr: "prevp q' = (case ys of [] \<Rightarrow> (prevp q)(e := LNext c) | y # _ \<Rightarrow> (prevp q)(y := LNext e, e := LNext c))"
      using f nz by (cases ys) (simp_all add: q'_def)
    have b: "backw q (LFirst h) ((xs @ [c]) @ ys)" using assms(1) by (simp add: tailq_def)
    have d: "distinct ((xs @ [c]) @ ys)" "e \<notin> set ((xs @ [c]) @ ys)" using slist_distinct [OF s] assms(3) by simp_all
    have "LNext c = endl (LFirst h) (xs @ [c])" by simp
    from backw_insert [OF b d this pr] show ?thesis by simp
  qed
  moreover have "lastp q' h = endl (LFirst h) (xs @ c # e # ys)"
    using assms(1) f0 endl_insert [of "LFirst h" "xs @ [c]" e ys] by (auto simp: q'_def Let_def tailq_def stailq_def)
  moreover have "TAILQ_INSERT_AFTER q h c e = Inr q'"
    using assms nz by (simp add: TAILQ_INSERT_AFTER_def TAILQ_NEXT_def q'_def Let_def)
  moreover have "local_to h (insert e (set (xs @ c # ys))) q q'"
    using f by (auto simp: local_to_def q'_def Let_def split: list.splits)
  ultimately show ?thesis by (auto simp: tailq_def stailq_def)
qed

lemma TAILQ_INSERT_BEFORE_spec:
  assumes "tailq q h (xs @ c # ys)" "e \<noteq> 0" "e \<notin> set (xs @ c # ys)"
  shows "\<exists>q'. TAILQ_INSERT_BEFORE q c e = Inr q' \<and> tailq q' h (xs @ e # c # ys) \<and>
     local_to h (insert e (set (xs @ c # ys))) q q'"
proof -
  have s: "slist q h (xs @ c # ys)" using assms(1) by (rule tailq_slist)
  have c: "c \<noteq> 0" "c \<noteq> e" using slist_nonzero [OF s] assms by auto
  have p: "prevp q c = endl (LFirst h) xs" using assms(1) by (simp add: tailq_def)
  have pc: "cell q (endl (LFirst h) xs) = c" using slist_cell [OF s] by simp
  define q' where "q' = set_prevp c (LNext e) (set_cell (prevp q c) e (set_cell (LNext e) c (set_prevp e (prevp q c) q)))"
  have "slist q' h (xs @ e # c # ys)"
    using slist_insert [of q h xs "c # ys" e "endl (LFirst h) xs" q'] assms s p pc by (auto simp: q'_def)
  moreover have "backw q' (LFirst h) (xs @ e # c # ys)"
    using backw_insert [of q "LFirst h" xs "c # ys" e "endl (LFirst h) xs" q'] assms s p c slist_distinct [OF s]
    by (auto simp: q'_def tailq_def fun_upd_twist)
  moreover have "lastp q' h = endl (LFirst h) (xs @ e # c # ys)"
    using assms(1) by (simp add: q'_def tailq_def stailq_def)
  moreover have "TAILQ_INSERT_BEFORE q c e = Inr q'"
    using assms c by (simp add: TAILQ_INSERT_BEFORE_def q'_def Let_def)
  moreover have "local_to h (insert e (set (xs @ c # ys))) q q'"
    using p endl_in [of "LFirst h" xs] by (auto simp: local_to_def q'_def)
  ultimately show ?thesis by (auto simp: tailq_def stailq_def)
qed

lemma TAILQ_CONCAT_spec:
  assumes s: "tailq q h1 xs" "tailq q h2 ys" and "h1 \<noteq> h2" "set xs \<inter> set ys = {}"
  shows "tailq (TAILQ_CONCAT q h1 h2) h1 (xs @ ys) \<and> tailq (TAILQ_CONCAT q h1 h2) h2 []"
proof (cases ys)
  case Nil
  then show ?thesis using s TAILQ_FIRST_spec [OF s(2)]
    by (auto simp: TAILQ_CONCAT_def TAILQ_EMPTY_def TAILQ_FIRST_def)
next
  case (Cons b bs)
  let ?q = "TAILQ_CONCAT q h1 h2"
  have b: "cell q (LFirst h2) = b" "b \<noteq> 0" "b \<notin> set xs" "b \<notin> set bs"
    using slist_first [OF tailq_slist [OF s(2)]] slist_nonzero [OF tailq_slist [OF s(2)]]
      slist_distinct [OF tailq_slist [OF s(2)]] assms(4) Cons by auto
  then have ne: "\<not> TAILQ_EMPTY q h2" by (simp add: TAILQ_EMPTY_def)
  have last: "lastp q h1 = endl (LFirst h1) xs" "lastp q h2 = endl (LFirst h2) ys"
    using s by (simp_all add: tailq_def stailq_def)
  have "cell ?q = (cell q)(endl (LFirst h1) xs := cell q (LFirst h2), LFirst h2 := 0)"
    using ne by (simp add: TAILQ_CONCAT_def TAILQ_INIT_def TAILQ_FIRST_def last Let_def)
  then have "slist ?q h1 (xs @ ys)" "cell ?q (LFirst h2) = 0"
    using slist_concat [of q h1 xs h2 ys ?q] s Cons assms(3,4) by (simp_all add: tailq_slist)
  moreover have pr: "prevp ?q = (prevp q)(b := endl (LFirst h1) xs)"
  proof -
    have "endl (LFirst h1) xs \<noteq> LFirst h2" using endl_in [of "LFirst h1" xs] assms(3) by auto
    then show ?thesis using ne b(1) by (simp add: TAILQ_CONCAT_def TAILQ_INIT_def TAILQ_FIRST_def last Let_def)
  qed
  moreover have "backw ?q (LFirst h1) xs" "backw ?q (LNext b) bs"
    using s b pr Cons by (auto simp: tailq_def intro: backw_cong [of q])
  moreover have "lastp ?q h1 = endl (LFirst h1) (xs @ ys)" "lastp ?q h2 = LFirst h2"
    using ne assms(3) by (simp_all add: TAILQ_CONCAT_def TAILQ_INIT_def Let_def last endl_last Cons)
  ultimately show ?thesis by (simp add: tailq_def stailq_def slist_def Cons)
qed

lemma TAILQ_REMOVE_HEAD_spec:
  assumes "tailq q h (x # xs)"
  shows "\<exists>q'. TAILQ_REMOVE q h x = Inr q' \<and> tailq q' h xs \<and> local_to h (set (x # xs)) q q'"
  using TAILQ_REMOVE_spec [of q h "[]" x xs] assms by simp

lemma TAILQ_LAST_spec:
  assumes "tailq q h xs"
  shows "TAILQ_LAST q h = (if xs = [] then 0 else last xs)"
proof (cases xs rule: rev_cases)
  case Nil
  then show ?thesis using assms
    by (simp add: TAILQ_LAST_def second_field_def tailq_def stailq_def slist_def)
next
  case (snoc ys y)
  have "cell q (endl (LFirst h) ys) = y" using slist_cell [of q h ys "[y]"] tailq_slist [OF assms] snoc by simp
  then show ?thesis using assms snoc
    by (simp add: TAILQ_LAST_def second_field_def tailq_def stailq_def)
qed

lemma TAILQ_PREV_spec:
  assumes "tailq q h (xs @ e # ys)"
  shows "TAILQ_PREV q e = Inr (if xs = [] then 0 else last xs)"
proof -
  have s: "slist q h (xs @ e # ys)" using assms by (rule tailq_slist)
  have e: "e \<noteq> 0" using slist_nonzero [OF s] by simp
  have p: "prevp q e = endl (LFirst h) xs" using assms by (simp add: tailq_def)
  show ?thesis
  proof (cases xs rule: rev_cases)
    case Nil
    have "lastp q h = endl (LFirst h) (e # ys)" using assms Nil by (simp add: tailq_def stailq_def)
    moreover have "cell q (endl (LFirst h) (e # ys)) = 0" using s Nil by (simp add: slist_def)
    ultimately show ?thesis using p e Nil by (simp add: TAILQ_PREV_def second_field_def)
  next
    case (snoc us u)
    have "cell q (endl (LFirst h) us) = u" using slist_cell [of q h us "u # e # ys"] s snoc by simp
    moreover have "prevp q u = endl (LFirst h) us" using assms snoc by (simp add: tailq_def)
    ultimately show ?thesis using p e snoc by (simp add: TAILQ_PREV_def second_field_def)
  qed
qed

section \<open>The interface of a queue\<close>

text \<open>
  What a client of a tail queue relies on: the head represents a list; the first element, the
  insertion at both ends and the removal of the first element act on it, and leave the queues of
  other heads with other elements alone.
\<close>

locale queue_heads =
  fixes holds :: "'m \<Rightarrow> nat \<Rightarrow> nat list \<Rightarrow> bool"
    and first :: "'m \<Rightarrow> nat \<Rightarrow> nat"
    and insert_tail :: "'m \<Rightarrow> nat \<Rightarrow> nat \<Rightarrow> 'm res"
    and insert_head :: "'m \<Rightarrow> nat \<Rightarrow> nat \<Rightarrow> 'm res"
    and remove_head :: "'m \<Rightarrow> nat \<Rightarrow> 'm res"
  assumes first: "holds m h xs \<Longrightarrow> first m h = (case xs of [] \<Rightarrow> 0 | x # _ \<Rightarrow> x)"
    and elems: "holds m h xs \<Longrightarrow> distinct xs \<and> 0 \<notin> set xs"
    and insert_tail: "holds m h xs \<Longrightarrow> e \<noteq> 0 \<Longrightarrow> e \<notin> set xs \<Longrightarrow>
      \<exists>m'. insert_tail m h e = Inr m' \<and> holds m' h (xs @ [e]) \<and>
        (\<forall>h' ys. h' \<noteq> h \<longrightarrow> set ys \<inter> insert e (set xs) = {} \<longrightarrow> holds m h' ys \<longrightarrow> holds m' h' ys)"
    and insert_head: "holds m h xs \<Longrightarrow> e \<noteq> 0 \<Longrightarrow> e \<notin> set xs \<Longrightarrow>
      \<exists>m'. insert_head m h e = Inr m' \<and> holds m' h (e # xs) \<and>
        (\<forall>h' ys. h' \<noteq> h \<longrightarrow> set ys \<inter> insert e (set xs) = {} \<longrightarrow> holds m h' ys \<longrightarrow> holds m' h' ys)"
    and remove_head: "holds m h (x # xs) \<Longrightarrow>
      \<exists>m'. remove_head m h = Inr m' \<and> holds m' h xs \<and>
        (\<forall>h' ys. h' \<noteq> h \<longrightarrow> set ys \<inter> set (x # xs) = {} \<longrightarrow> holds m h' ys \<longrightarrow> holds m' h' ys)"
begin

text \<open>Moving the first element of one queue to an end of another.\<close>

lemma move_first:
  assumes "holds m h (x # xs)" "holds m g ys" "h \<noteq> g" "set ys \<inter> set (x # xs) = {}"
  shows "\<exists>m' m''. first m h = x \<and> remove_head m h = Inr m' \<and> insert_head m' g x = Inr m'' \<and>
     holds m'' h xs \<and> holds m'' g (x # ys)"
proof -
  from remove_head [OF assms(1)] assms(2-4) obtain m' where
    m': "remove_head m h = Inr m'" "holds m' h xs" "holds m' g ys" by metis
  have x: "x \<noteq> 0" "x \<notin> set xs" "x \<notin> set ys" using elems [OF assms(1)] assms(4) by auto
  from insert_head [OF m'(3) x(1,3)] obtain m'' where
    m'': "insert_head m' g x = Inr m''" "holds m'' g (x # ys)"
      "\<And>h' zs. h' \<noteq> g \<Longrightarrow> set zs \<inter> insert x (set ys) = {} \<Longrightarrow> holds m' h' zs \<Longrightarrow> holds m'' h' zs"
    by blast
  have "holds m'' h xs" using m''(3) [OF assms(3) _ m'(2)] x assms(4) by auto
  then show ?thesis using m' m''(1,2) first [OF assms(1)] by auto
qed

text \<open>Elements come out in the order in which they were appended.\<close>

fun append_all :: "'m \<Rightarrow> nat \<Rightarrow> nat list \<Rightarrow> 'm res" where
  "append_all m h [] = Inr m"
| "append_all m h (e # es) = bindR (insert_tail m h e) (\<lambda>m. append_all m h es)"

fun drain :: "'m \<Rightarrow> nat \<Rightarrow> nat \<Rightarrow> (nat list \<times> 'm) res" where
  "drain m h 0 = Inr ([], m)"
| "drain m h (Suc n) = (let x = first m h in
     bindR (remove_head m h) (\<lambda>m. bindR (drain m h n) (\<lambda>(xs, m). Inr (x # xs, m))))"

lemma append_all_holds:
  assumes "holds m h xs" "distinct (xs @ es)" "0 \<notin> set es"
  shows "\<exists>m'. append_all m h es = Inr m' \<and> holds m' h (xs @ es)"
  using assms
proof (induction es arbitrary: m xs)
  case (Cons e es)
  then obtain m' where m': "insert_tail m h e = Inr m'" "holds m' h (xs @ [e])"
    using insert_tail [OF Cons.prems(1), of e] by auto
  from Cons.IH [OF m'(2)] Cons.prems show ?case by (auto simp: m')
qed simp

lemma drain_holds: "holds m h (xs @ ys) \<Longrightarrow> \<exists>m'. drain m h (length xs) = Inr (xs, m') \<and> holds m' h ys"
proof (induction xs arbitrary: m)
  case (Cons x xs)
  from remove_head [of m h x "xs @ ys"] Cons.prems obtain m' where
    "remove_head m h = Inr m'" "holds m' h (xs @ ys)" by auto
  with Cons.IH [of m'] first [OF Cons.prems] show ?case by (auto simp: Let_def)
qed simp

lemma first_in_first_out:
  assumes "holds m h []" "distinct es" "0 \<notin> set es"
  shows "\<exists>m' m''. append_all m h es = Inr m' \<and> drain m' h (length es) = Inr (es, m'') \<and> holds m'' h []"
  using append_all_holds [OF assms(1), of es] drain_holds [of _ h es "[]"] assms(2,3) by fastforce

end

lemma local_stailq:
  "local_to h E q q' \<Longrightarrow> \<forall>h' ys. h' \<noteq> h \<longrightarrow> set ys \<inter> E = {} \<longrightarrow> stailq q h' ys \<longrightarrow> stailq q' h' ys"
  using local_frame(2) by blast

lemma local_tailq:
  "local_to h E q q' \<Longrightarrow> \<forall>h' ys. h' \<noteq> h \<longrightarrow> set ys \<inter> E = {} \<longrightarrow> tailq q h' ys \<longrightarrow> tailq q' h' ys"
  using local_frame(4) by blast

lemma slist_elems: "slist q h xs \<Longrightarrow> distinct xs \<and> 0 \<notin> set xs"
  using slist_nonzero [of q h xs 0] slist_distinct by auto

interpretation sq: queue_heads stailq STAILQ_FIRST STAILQ_INSERT_TAIL STAILQ_INSERT_HEAD STAILQ_REMOVE_HEAD
proof unfold_locales
  fix m h xs e
  assume h: "stailq m h xs" "e \<noteq> 0" "e \<notin> set xs"
  show "\<exists>m'. STAILQ_INSERT_TAIL m h e = Inr m' \<and> stailq m' h (xs @ [e]) \<and>
     (\<forall>h' ys. h' \<noteq> h \<longrightarrow> set ys \<inter> insert e (set xs) = {} \<longrightarrow> stailq m h' ys \<longrightarrow> stailq m' h' ys)"
    using STAILQ_INSERT_TAIL_spec [OF h] local_stailq by metis
  show "\<exists>m'. STAILQ_INSERT_HEAD m h e = Inr m' \<and> stailq m' h (e # xs) \<and>
     (\<forall>h' ys. h' \<noteq> h \<longrightarrow> set ys \<inter> insert e (set xs) = {} \<longrightarrow> stailq m h' ys \<longrightarrow> stailq m' h' ys)"
    using STAILQ_INSERT_HEAD_spec [OF h] local_stailq by metis
next
  fix m h x xs
  assume h: "stailq m h (x # xs)"
  show "\<exists>m'. STAILQ_REMOVE_HEAD m h = Inr m' \<and> stailq m' h xs \<and>
     (\<forall>h' ys. h' \<noteq> h \<longrightarrow> set ys \<inter> set (x # xs) = {} \<longrightarrow> stailq m h' ys \<longrightarrow> stailq m' h' ys)"
    using STAILQ_REMOVE_HEAD_spec [OF h] local_stailq by metis
qed (auto simp: STAILQ_FIRST_spec dest: stailq_slist slist_elems)

definition TAILQ_REMOVE_FIRST :: "qstore \<Rightarrow> nat \<Rightarrow> qstore res" where
  "TAILQ_REMOVE_FIRST q h = TAILQ_REMOVE q h (TAILQ_FIRST q h)"

interpretation tq: queue_heads tailq TAILQ_FIRST TAILQ_INSERT_TAIL TAILQ_INSERT_HEAD TAILQ_REMOVE_FIRST
proof unfold_locales
  fix m h xs e
  assume h: "tailq m h xs" "e \<noteq> 0" "e \<notin> set xs"
  show "\<exists>m'. TAILQ_INSERT_TAIL m h e = Inr m' \<and> tailq m' h (xs @ [e]) \<and>
     (\<forall>h' ys. h' \<noteq> h \<longrightarrow> set ys \<inter> insert e (set xs) = {} \<longrightarrow> tailq m h' ys \<longrightarrow> tailq m' h' ys)"
    using TAILQ_INSERT_TAIL_spec [OF h] local_tailq by metis
  show "\<exists>m'. TAILQ_INSERT_HEAD m h e = Inr m' \<and> tailq m' h (e # xs) \<and>
     (\<forall>h' ys. h' \<noteq> h \<longrightarrow> set ys \<inter> insert e (set xs) = {} \<longrightarrow> tailq m h' ys \<longrightarrow> tailq m' h' ys)"
    using TAILQ_INSERT_HEAD_spec [OF h] local_tailq by metis
next
  fix m h x xs
  assume h: "tailq m h (x # xs)"
  then have "TAILQ_FIRST m h = x" by (simp add: TAILQ_FIRST_spec)
  then show "\<exists>m'. TAILQ_REMOVE_FIRST m h = Inr m' \<and> tailq m' h xs \<and>
     (\<forall>h' ys. h' \<noteq> h \<longrightarrow> set ys \<inter> set (x # xs) = {} \<longrightarrow> tailq m h' ys \<longrightarrow> tailq m' h' ys)"
    using TAILQ_REMOVE_HEAD_spec [OF h] local_tailq unfolding TAILQ_REMOVE_FIRST_def by metis
qed (auto simp: TAILQ_FIRST_spec dest: tailq_slist slist_elems)

section \<open>Loops that unlink elements\<close>

text \<open>The body that removes the elements that satisfy \<^verbatim>\<open>P\<close> from a tail queue, and records its visits.\<close>

definition drop_if :: "nat \<Rightarrow> (nat \<Rightarrow> bool) \<Rightarrow> nat \<Rightarrow> qstore \<times> nat list \<Rightarrow> (qstore \<times> nat list) res" where
  "drop_if h P x s = bindR (if P x then TAILQ_REMOVE (fst s) h x else Inr (fst s)) (\<lambda>q. Inr (q, snd s @ [x]))"

lemma drop_if_step:
  assumes "tailq q h (us @ x # zs)"
  shows "\<exists>q'. drop_if h P x (q, vs) = Inr (q', vs @ [x]) \<and> tailq q' h (us @ (if P x then [] else [x]) @ zs)"
  using TAILQ_REMOVE_spec [OF assms] assms by (auto simp: drop_if_def)

lemma foreach_mutable_filter:
  assumes "tailq q h (us @ zs)"
  shows "\<exists>q'. foreach_mutable_from (drop_if h P) (case zs of [] \<Rightarrow> 0 | z # _ \<Rightarrow> z) (q, vs) = Some (Inr (q', vs @ zs)) \<and>
    tailq q' h (us @ filter (\<lambda>x. \<not> P x) zs)"
  using assms
proof (induction zs arbitrary: q us vs)
  case Nil
  then show ?case by (subst foreach_mutable_from.simps) simp
next
  case (Cons z zs)
  have s: "slist q h (us @ z # zs)" using tailq_slist [OF Cons.prems] .
  have z: "z \<noteq> 0" using slist_nonzero [OF s, of z] by simp
  obtain q1 where q1: "drop_if h P z (q, vs) = Inr (q1, vs @ [z])" "tailq q1 h (us @ (if P z then [] else [z]) @ zs)"
    using drop_if_step [OF Cons.prems] by blast
  from Cons.IH [of q1 "us @ (if P z then [] else [z])" "vs @ [z]"] q1(2) obtain q' where
    "foreach_mutable_from (drop_if h P) (case zs of [] \<Rightarrow> 0 | z # _ \<Rightarrow> z) (q1, vs @ [z]) = Some (Inr (q', vs @ z # zs))"
    "tailq q' h (us @ (if P z then [] else [z]) @ filter (\<lambda>x. \<not> P x) zs)" by auto
  then show ?case
    using q1(1) z slist_next [OF s] by (subst foreach_mutable_from.simps) (auto simp: Let_def split: if_splits)
qed

lemma foreach_reverse_filter:
  assumes "tailq q h (zs @ us)"
  shows "\<exists>q'. foreach_reverse_mutable_from (drop_if h P) (if zs = [] then 0 else last zs) (q, vs) = Some (Inr (q', vs @ rev zs)) \<and>
    tailq q' h (filter (\<lambda>x. \<not> P x) zs @ us)"
  using assms
proof (induction zs arbitrary: q us vs rule: rev_induct)
  case Nil
  then show ?case by (subst foreach_reverse_mutable_from.simps) simp
next
  case (snoc z zs)
  have t: "tailq q h (zs @ z # us)" using snoc.prems by simp
  have z: "z \<noteq> 0" using slist_nonzero [OF tailq_slist [OF t], of z] by simp
  have prev: "cell q (second_field q (prevp q z)) = (if zs = [] then 0 else last zs)"
    using TAILQ_PREV_spec [OF t] z by (simp add: TAILQ_PREV_def)
  obtain q1 where q1: "drop_if h P z (q, vs) = Inr (q1, vs @ [z])" "tailq q1 h (zs @ (if P z then [] else [z]) @ us)"
    using drop_if_step [OF t] by blast
  from snoc.IH [OF q1(2), of "vs @ [z]"] obtain q' where
    "foreach_reverse_mutable_from (drop_if h P) (if zs = [] then 0 else last zs) (q1, vs @ [z]) = Some (Inr (q', vs @ z # rev zs))"
    "tailq q' h (filter (\<lambda>x. \<not> P x) zs @ (if P z then [] else [z]) @ us)" by auto
  then show ?case
    using q1(1) z prev by (subst foreach_reverse_mutable_from.simps) (auto simp: Let_def split: if_splits)
qed

section \<open>Properties\<close>

definition empty_store :: qstore where
  "empty_store = \<lparr>cell = (\<lambda>_. 0), lastp = LFirst, prevp = (\<lambda>_. LFirst 0)\<rparr>"

text \<open>
  C32: The STAILQ macros refine list operations.  On a head that represents a list, inserting a
  fresh element at either end or after an element, and removing the first or any other element,
  return without a fault; afterwards the head represents the list with that element added at that
  place or removed, and every other head with other elements represents the list it did.
  STAILQ_CONCAT appends the whole list of another head and leaves that one empty; STAILQ_FIRST and
  STAILQ_LAST return the ends of the list, or NULL for the empty one.
\<close>

theorem stailq_refines_lists:
  assumes "stailq q h xs" and "e \<noteq> 0" and "e \<notin> set xs"
    and "h' \<noteq> h" and "stailq q h' ys" and "set ys \<inter> insert e (set xs) = {}"
  shows "\<exists>qt qh. STAILQ_INSERT_TAIL q h e = Inr qt \<and> stailq qt h (xs @ [e]) \<and> stailq qt h' ys \<and>
      STAILQ_INSERT_HEAD q h e = Inr qh \<and> stailq qh h (e # xs) \<and> stailq qh h' ys \<and>
      (xs \<noteq> [] \<longrightarrow> (\<exists>qr. STAILQ_REMOVE_HEAD q h = Inr qr \<and> stailq qr h (tl xs) \<and> stailq qr h' ys)) \<and>
      (\<forall>us c vs. xs = us @ c # vs \<longrightarrow>
         (\<exists>qa qr. STAILQ_INSERT_AFTER q h c e = Inr qa \<and> stailq qa h (us @ c # e # vs) \<and> stailq qa h' ys \<and>
            STAILQ_REMOVE q h c = Inr qr \<and> stailq qr h (us @ vs) \<and> stailq qr h' ys)) \<and>
      stailq (STAILQ_CONCAT q h h') h (xs @ ys) \<and> stailq (STAILQ_CONCAT q h h') h' [] \<and>
      STAILQ_FIRST q h = (if xs = [] then 0 else hd xs) \<and>
      STAILQ_LAST q h = Inr (if xs = [] then 0 else last xs)"
proof -
  from sq.insert_tail [OF assms(1-3)] assms(4-6) obtain qt where
    t: "STAILQ_INSERT_TAIL q h e = Inr qt" "stailq qt h (xs @ [e])" "stailq qt h' ys" by metis
  from sq.insert_head [OF assms(1-3)] assms(4-6) obtain qh where
    i: "STAILQ_INSERT_HEAD q h e = Inr qh" "stailq qh h (e # xs)" "stailq qh h' ys" by metis
  have "\<exists>qr. STAILQ_REMOVE_HEAD q h = Inr qr \<and> stailq qr h (tl xs) \<and> stailq qr h' ys" if "xs \<noteq> []"
  proof -
    from that obtain x r where x: "xs = x # r" by (cases xs) auto
    with assms(6) have "set ys \<inter> set (x # r) = {}" by auto
    with sq.remove_head [of q h x r] assms x show ?thesis by (metis list.sel(3))
  qed
  moreover have "\<exists>qa qr. STAILQ_INSERT_AFTER q h c e = Inr qa \<and> stailq qa h (us @ c # e # vs) \<and> stailq qa h' ys \<and>
      STAILQ_REMOVE q h c = Inr qr \<and> stailq qr h (us @ vs) \<and> stailq qr h' ys" if x: "xs = us @ c # vs" for us c vs
  proof -
    have d: "set ys \<inter> set xs = {}" and r: "remove1 c xs = us @ vs"
      using assms(6) slist_distinct [OF stailq_slist [OF assms(1)]] by (auto simp: x remove1_append)
    from STAILQ_INSERT_AFTER_spec [OF assms(1,2,3) [unfolded x]] obtain qa where
      a: "STAILQ_INSERT_AFTER q h c e = Inr qa" "stailq qa h (us @ c # e # vs)" "local_to h (insert e (set xs)) q qa"
      unfolding x by blast
    from STAILQ_REMOVE_spec [OF assms(1), of c] obtain qr where
      b: "STAILQ_REMOVE q h c = Inr qr" "stailq qr h (us @ vs)" "local_to h (set xs) q qr"
      unfolding r by (auto simp: x)
    show ?thesis
      using a b local_frame(2) [OF a(3) assms(4) assms(6,5)] local_frame(2) [OF b(3) assms(4) d assms(5)] by blast
  qed
  ultimately show ?thesis
    using t i sq.first [OF assms(1)] STAILQ_LAST_spec [OF assms(1)]
      STAILQ_CONCAT_spec [OF assms(1,5) assms(4) [symmetric]] assms(6)
    by (auto split: list.splits)
qed

theorem stailq_refines_lists_witness:
  "\<exists>q qa qr. stailq q 1 [7, 8] \<and> STAILQ_INSERT_AFTER q 1 7 9 = Inr qa \<and> stailq qa 1 [7, 9, 8] \<and>
     STAILQ_REMOVE q 1 7 = Inr qr \<and> stailq qr 1 [8]"
proof -
  have "stailq empty_store 1 []" "stailq empty_store 2 []"
    by (simp_all add: empty_store_def stailq_def slist_def)
  from sq.insert_tail [OF this(1), of 7] this(2) obtain a where a: "stailq a 1 [7]" "stailq a 2 []" by force
  from sq.insert_tail [OF a(1), of 8] a(2) obtain q where q: "stailq q 1 [7, 8]" "stailq q 2 []" by force
  have n: "(9 :: nat) \<noteq> 0" "9 \<notin> set [7, 8 :: nat]" "(2 :: nat) \<noteq> 1" "set [] \<inter> insert 9 (set [7, 8 :: nat]) = {}"
    by simp_all
  have "\<exists>qa qr. STAILQ_INSERT_AFTER q 1 c 9 = Inr qa \<and> stailq qa 1 (us @ c # 9 # vs) \<and>
      STAILQ_REMOVE q 1 c = Inr qr \<and> stailq qr 1 (us @ vs)" if "[7, 8] = us @ c # vs" for us c vs
    using stailq_refines_lists [OF q(1) n(1,2,3) q(2) n(4)] that by blast
  from this [of "[]" 7 "[8]"] q(1) show ?thesis by auto
qed

text \<open>
  C33: Appending an element that is already the last one of its queue closes the queue into a
  cycle.  Both insertions return; from the head the old elements and then that element are still
  reached, its next field points to itself, the queue represents no list any more, and
  STAILQ_FOREACH never returns on it, whatever its body computes.
\<close>

theorem stailq_insert_tail_twice_loops:
  assumes "stailq q h xs" and "e \<noteq> 0" and "e \<notin> set xs"
  shows "\<exists>q1 q2. STAILQ_INSERT_TAIL q h e = Inr q1 \<and> STAILQ_INSERT_TAIL q1 h e = Inr q2 \<and>
    seg q2 (LFirst h) (xs @ [e]) \<and> cell q2 (LNext e) = e \<and> (\<forall>ys. \<not> stailq q2 h ys) \<and>
    (\<forall>(f :: nat \<Rightarrow> 's \<Rightarrow> 's res) s. (\<forall>x t. \<exists>t'. f x t = Inr t') \<longrightarrow> STAILQ_FOREACH q2 h f s = None)"
proof -
  from STAILQ_INSERT_TAIL_spec [OF assms] obtain q1 where
    q1: "STAILQ_INSERT_TAIL q h e = Inr q1" "stailq q1 h (xs @ [e])" by blast
  have l: "lastp q1 h = LNext e" using q1(2) by (simp add: stailq_def)
  define q2 where "q2 = set_lastp h (LNext e) (set_cell (LNext e) e (set_cell (LNext e) 0 q1))"
  have i: "STAILQ_INSERT_TAIL q1 h e = Inr q2"
    using assms(2) l by (simp add: STAILQ_INSERT_TAIL_def q2_def Let_def)
  have self: "cell q2 (LNext e) = e" by (simp add: q2_def)
  have reach: "seg q2 (LFirst h) (xs @ [e])"
  proof (rule seg_cong)
    show "seg q1 (LFirst h) (xs @ [e])" using q1(2) by (simp add: stailq_def slist_def)
    then have "LNext e \<notin> cells (LFirst h) (xs @ [e])"
      using endl_notin_cells [of "xs @ [e]" "LFirst h"] q1(2) by (auto simp: stailq_def slist_def)
    then show "cell q2 c = cell q1 c" if "c \<in> cells (LFirst h) (xs @ [e])" for c
      using that by (auto simp: q2_def)
  qed
  have loop: "STAILQ_FOREACH q2 h f s = None" if "\<forall>x t. \<exists>t'. f x t = Inr t'" for f :: "nat \<Rightarrow> 's \<Rightarrow> 's res" and s
    using foreach_seg_loop [OF reach self that] by (simp add: STAILQ_FOREACH_def STAILQ_FIRST_def)
  have "\<not> stailq q2 h ys" for ys
  proof
    assume "stailq q2 h ys"
    then have z: "seg q2 (LFirst h) ys" "cell q2 (endl (LFirst h) ys) = 0" by (simp_all add: stailq_def slist_def)
    from foreach_seg [OF z, of "\<lambda>_ t. Inr t" "()"] foreach_seg_loop [OF reach self, of "\<lambda>_ t. Inr t" "()"]
    show False by simp
  qed
  then show ?thesis using q1(1) i reach self loop by blast
qed

theorem stailq_insert_tail_twice_loops_witness:
  "\<exists>q1 q2. STAILQ_INSERT_TAIL empty_store 1 7 = Inr q1 \<and> STAILQ_INSERT_TAIL q1 1 7 = Inr q2 \<and>
    cell q2 (LNext 7) = 7 \<and> STAILQ_FOREACH q2 1 (\<lambda>_ n. Inr (n + 1)) (0 :: nat) = None"
  using stailq_insert_tail_twice_loops [of empty_store 1 "[]" 7, where 's = nat]
  by (auto simp: empty_store_def stailq_def slist_def)

text \<open>
  C34: The LIST macros refine list operations: insertion at the head, before and after an element
  and removal of an element, which find their place through the previous pointers, act as on a
  list and keep the forward and backward links consistent.
\<close>

theorem list_refines_lists:
  assumes "dlist q h (xs @ c # ys)" and "e \<noteq> 0" and "e \<notin> set (xs @ c # ys)"
  shows "\<exists>q1 q2 q3 q4.
     LIST_INSERT_HEAD q h e = Inr q1 \<and> dlist q1 h (e # xs @ c # ys) \<and>
     LIST_INSERT_BEFORE q c e = Inr q2 \<and> dlist q2 h (xs @ e # c # ys) \<and>
     LIST_INSERT_AFTER q c e = Inr q3 \<and> dlist q3 h (xs @ c # e # ys) \<and>
     LIST_REMOVE q c = Inr q4 \<and> dlist q4 h (xs @ ys)"
  using LIST_INSERT_HEAD_spec [OF assms] LIST_INSERT_BEFORE_spec [OF assms]
    LIST_INSERT_AFTER_spec [OF assms] LIST_REMOVE_spec [OF assms(1)] by blast

theorem list_refines_lists_witness:
  "\<exists>q0 q4. LIST_INSERT_HEAD empty_store 1 7 = Inr q0 \<and> LIST_REMOVE q0 7 = Inr q4 \<and> dlist q4 1 []"
proof -
  have "dlist empty_store 1 []" by (simp add: empty_store_def dlist_def slist_def)
  with LIST_INSERT_HEAD_spec [of empty_store 1 "[]" 7] obtain q0 where
    "LIST_INSERT_HEAD empty_store 1 7 = Inr q0" "dlist q0 1 [7]" by auto
  with list_refines_lists [of q0 1 "[]" 7 "[]" 9] show ?thesis by auto
qed

text \<open>
  C35: The TAILQ macros refine list operations in both directions.  On a head that represents a list
  with consistent previous pointers, inserting a fresh element at the head, at the tail, before or
  after an element, and removing an element, return without a fault and leave the head with the
  list so changed, the previous pointers consistent and other heads as they were; an empty queue
  takes its first element at either end.  TAILQ_CONCAT appends the list of another head, TAILQ_FIRST
  and TAILQ_LAST return the ends, and TAILQ_PREV, which like TAILQ_LAST reads the second field of a
  structure it reaches by a cast, the predecessor.
\<close>

theorem tailq_refines_lists:
  assumes "tailq q h xs" and "e \<noteq> 0" and "e \<notin> set xs"
    and "h' \<noteq> h" and "tailq q h' ys" and "set ys \<inter> insert e (set xs) = {}"
  shows "\<exists>q1 q2. TAILQ_INSERT_HEAD q h e = Inr q1 \<and> tailq q1 h (e # xs) \<and> tailq q1 h' ys \<and>
     TAILQ_INSERT_TAIL q h e = Inr q2 \<and> tailq q2 h (xs @ [e]) \<and> tailq q2 h' ys \<and>
     (\<forall>us c vs. xs = us @ c # vs \<longrightarrow>
        (\<exists>q3 q4 q5. TAILQ_INSERT_AFTER q h c e = Inr q3 \<and> tailq q3 h (us @ c # e # vs) \<and> tailq q3 h' ys \<and>
           TAILQ_INSERT_BEFORE q c e = Inr q4 \<and> tailq q4 h (us @ e # c # vs) \<and> tailq q4 h' ys \<and>
           TAILQ_REMOVE q h c = Inr q5 \<and> tailq q5 h (us @ vs) \<and> tailq q5 h' ys \<and>
           TAILQ_PREV q c = Inr (if us = [] then 0 else last us))) \<and>
     tailq (TAILQ_CONCAT q h h') h (xs @ ys) \<and> tailq (TAILQ_CONCAT q h h') h' [] \<and>
     TAILQ_FIRST q h = (if xs = [] then 0 else hd xs) \<and> TAILQ_LAST q h = (if xs = [] then 0 else last xs)"
proof -
  from TAILQ_INSERT_HEAD_spec [OF assms(1-3)] obtain q1 where
    h1: "TAILQ_INSERT_HEAD q h e = Inr q1" "tailq q1 h (e # xs)" "local_to h (insert e (set xs)) q q1" by blast
  from TAILQ_INSERT_TAIL_spec [OF assms(1-3)] obtain q2 where
    h2: "TAILQ_INSERT_TAIL q h e = Inr q2" "tailq q2 h (xs @ [e])" "local_to h (insert e (set xs)) q q2" by blast
  note keep = local_frame(4) [OF _ assms(4) assms(6) assms(5)]
  have "\<exists>q3 q4 q5. TAILQ_INSERT_AFTER q h c e = Inr q3 \<and> tailq q3 h (us @ c # e # vs) \<and> tailq q3 h' ys \<and>
      TAILQ_INSERT_BEFORE q c e = Inr q4 \<and> tailq q4 h (us @ e # c # vs) \<and> tailq q4 h' ys \<and>
      TAILQ_REMOVE q h c = Inr q5 \<and> tailq q5 h (us @ vs) \<and> tailq q5 h' ys \<and>
      TAILQ_PREV q c = Inr (if us = [] then 0 else last us)" if x: "xs = us @ c # vs" for us c vs
  proof -
    note a = assms(1-3) [unfolded x]
    from TAILQ_INSERT_AFTER_spec [OF a] obtain q3 where
      h3: "TAILQ_INSERT_AFTER q h c e = Inr q3" "tailq q3 h (us @ c # e # vs)" "local_to h (insert e (set xs)) q q3"
      unfolding x by blast
    from TAILQ_INSERT_BEFORE_spec [OF a] obtain q4 where
      h4: "TAILQ_INSERT_BEFORE q c e = Inr q4" "tailq q4 h (us @ e # c # vs)" "local_to h (insert e (set xs)) q q4"
      unfolding x by blast
    from TAILQ_REMOVE_spec [OF a(1)] obtain q5 where
      h5: "TAILQ_REMOVE q h c = Inr q5" "tailq q5 h (us @ vs)" "local_to h (set xs) q q5" unfolding x by blast
    have "set ys \<inter> set xs = {}" using assms(6) by blast
    with h3 h4 h5 keep [OF h3(3)] keep [OF h4(3)] local_frame(4) [OF h5(3) assms(4) _ assms(5)] TAILQ_PREV_spec [OF a(1)]
    show ?thesis by blast
  qed
  then show ?thesis
    using h1(1,2) h2(1,2) keep [OF h1(3)] keep [OF h2(3)] tq.first [OF assms(1)] TAILQ_LAST_spec [OF assms(1)]
      TAILQ_CONCAT_spec [OF assms(1,5) assms(4) [symmetric]] assms(6)
    by (auto split: list.splits)
qed

theorem tailq_refines_lists_witness:
  "\<exists>q q4. tailq q 1 [7, 8] \<and> TAILQ_LAST q 1 = 8 \<and> TAILQ_PREV q 8 = Inr 7 \<and>
     TAILQ_INSERT_BEFORE q 8 9 = Inr q4 \<and> tailq q4 1 [7, 9, 8]"
proof -
  have "tailq empty_store 1 []" "tailq empty_store 2 []" by (simp_all add: empty_store_def tailq_def stailq_def slist_def)
  from tq.insert_tail [OF this(1), of 7] this(2) obtain a where a: "tailq a 1 [7]" "tailq a 2 []" by force
  from tq.insert_tail [OF a(1), of 8] a(2) obtain q where q: "tailq q 1 [7, 8]" "tailq q 2 []" by force
  have n: "(9 :: nat) \<noteq> 0" "9 \<notin> set [7, 8 :: nat]" "(2 :: nat) \<noteq> 1" "set [] \<inter> insert 9 (set [7, 8 :: nat]) = {}"
    by simp_all
  have "\<exists>q4. TAILQ_INSERT_BEFORE q c 9 = Inr q4 \<and> tailq q4 1 (us @ 9 # c # vs) \<and>
      TAILQ_PREV q c = Inr (if us = [] then 0 else last us)"
    if "[7, 8] = us @ c # vs" for us c vs
    using tailq_refines_lists [OF q(1) n(1,2,3) q(2) n(4)] that by blast
  from this [of "[7]" 8 "[]"] have "\<exists>q4. TAILQ_INSERT_BEFORE q 8 9 = Inr q4 \<and> tailq q4 1 [7, 9, 8] \<and>
      TAILQ_PREV q 8 = Inr 7" by simp
  moreover have "TAILQ_LAST q 1 = 8" using tailq_refines_lists [OF q(1) n(1,2,3) q(2) n(4)] by auto
  ultimately show ?thesis using q(1) by blast
qed

text \<open>
  C36: The MUTABLE loops of the tail queue allow their body to unlink the element it is called with.
  With a body that removes the elements of \<^verbatim>\<open>P\<close>, the loops return; each element is visited once, in the
  order of the queue or in reverse, and the queue is left with the other elements in their order.
\<close>

theorem mutable_loops_filter:
  assumes "tailq q h xs"
  shows "\<exists>q1 q2. TAILQ_FOREACH_MUTABLE h (drop_if h P) (q, []) = Some (Inr (q1, xs)) \<and> tailq q1 h (filter (\<lambda>x. \<not> P x) xs) \<and>
    TAILQ_FOREACH_REVERSE_MUTABLE h (drop_if h P) (q, []) = Some (Inr (q2, rev xs)) \<and> tailq q2 h (filter (\<lambda>x. \<not> P x) xs)"
  using foreach_mutable_filter [of q h "[]" xs P "[]"] foreach_reverse_filter [of q h xs "[]" P "[]"] assms
    TAILQ_FIRST_spec [OF assms] TAILQ_LAST_spec [OF assms]
  by (auto simp: TAILQ_FOREACH_MUTABLE_def TAILQ_FOREACH_REVERSE_MUTABLE_def)

theorem mutable_loops_filter_witness:
  "\<exists>q q1. tailq q 1 [7, 8, 9] \<and> TAILQ_FOREACH_MUTABLE 1 (drop_if 1 even) (q, []) = Some (Inr (q1, [7, 8, 9])) \<and> tailq q1 1 [7, 9]"
proof -
  have "tailq empty_store 1 []" by (simp add: empty_store_def tailq_def stailq_def slist_def)
  from TAILQ_INSERT_TAIL_spec [OF this, of 7] obtain a where "tailq a 1 [7]" by auto
  from TAILQ_INSERT_TAIL_spec [OF this, of 8] obtain b where "tailq b 1 [7, 8]" by auto
  from TAILQ_INSERT_TAIL_spec [OF this, of 9] obtain q where q: "tailq q 1 [7, 8, 9]" by auto
  from mutable_loops_filter [OF q, of even] show ?thesis using q by auto
qed

end
