(* ===== verification/Fixmapper.thy ===== *)
theory Fixmapper
  imports Os Queue
begin

text \<open>
  The fixed mapper of \<^verbatim>\<open>src/src/fixmapper.c\<close>: the container file is mapped linearly at one address,
  its free pages are kept in a LIST of page descriptors, and the file is doubled when the list is
  empty.  The descriptor of page \<^verbatim>\<open>i\<close> is the element \<^verbatim>\<open>i + 1\<close> of the link store (0 is NULL); the
  index array holds the descriptors, with cells that realloc has not written as \<^verbatim>\<open>None\<close>.  The
  lemmas show that the mapper implements a queue of free page numbers.
\<close>

record fixed_page =
  pgno :: nat
  prot_flags :: nat

record fixed_mapper =
  file_size :: nat
  start_addr :: nat
  fl_size :: nat
  fl_last :: nat
  links :: qstore
  index :: "fixed_page option list"

definition bytes2pgs :: "nat \<Rightarrow> nat" where
  "bytes2pgs bytes = bytes div PAGE_SIZE"

definition fixed_page_alloc :: "nat \<Rightarrow> fixed_page" where
  "fixed_page_alloc n = \<lparr>pgno = n, prot_flags = DEFAULT_MAPPING_PROT\<rparr>"

text \<open>The address of the list head in the mapper, and of the links in a page descriptor.\<close>

definition FREE_HEAD :: nat where "FREE_HEAD = 0"

definition page_elem :: "nat \<Rightarrow> nat" where
  "page_elem i = Suc i"

definition index_at :: "fixed_mapper \<Rightarrow> nat \<Rightarrow> fixed_page res" where
  "index_at fm i =
     (if i < length (index fm)
      then (case index fm ! i of None \<Rightarrow> Inl (Undefined ''uninitialised index cell'') | Some p \<Rightarrow> Inr p)
      else Inl (Undefined ''index array exceeded''))"

fun protect_pages :: "fixed_mapper \<Rightarrow> nat list \<Rightarrow> 'p os \<Rightarrow> 'p os res" where
  "protect_pages fm [] s = Inr s"
| "protect_pages fm (i # is) s =
     bindR (index_at fm i) (\<lambda>p.
     bindR (page_allocator_mprotect_generic (start_addr fm + PAGE_SIZE * pgno p) PAGE_SIZE (prot_flags p) s) (\<lambda>s.
     protect_pages fm is s))"

definition update_mapping_prot :: "fixed_mapper \<Rightarrow> 'p os \<Rightarrow> 'p os res" where
  "update_mapping_prot fm s = protect_pages fm [0..<bytes2pgs (file_size fm)] s"

text \<open>The tail of the loop that adds the new pages behind the last free page.\<close>

fun append_pages :: "nat list \<Rightarrow> fixed_mapper \<Rightarrow> fixed_mapper res" where
  "append_pages [] fm = Inr fm"
| "append_pages (i # is) fm =
     (if i < length (index fm)
      then bindR (LIST_INSERT_AFTER (links fm) (fl_last fm) (page_elem i)) (\<lambda>q.
           append_pages is (fm\<lparr>index := (index fm)[i := Some (fixed_page_alloc i)], links := q,
             fl_size := fl_size fm + 1, fl_last := page_elem i\<rparr>))
      else Inl (Undefined ''index array exceeded''))"

definition fixed_mapper_grow_file :: "fixed_mapper \<Rightarrow> nat \<Rightarrow> 'p os \<Rightarrow> (fixed_mapper \<times> 'p os) res" where
  "fixed_mapper_grow_file fm new_size s =
     bindR (assertR (fl_size fm = 0) ''growing file while with free pages'') (\<lambda>_.
     case posix_fallocate (file_size fm) new_size (stat (INC_BOTH Cont_grow) s) of (rc, s1) \<Rightarrow>
     bindR (check_fallocate rc) (\<lambda>_.
     let cur = bytes2pgs (file_size fm);
         new = bytes2pgs new_size;
         idx = take new (index fm) @ replicate (new - length (index fm)) None
     in if cur < new
        then bindR (LIST_INSERT_HEAD (links fm) FREE_HEAD (page_elem cur)) (\<lambda>q.
             bindR (append_pages [Suc cur..<new]
               (fm\<lparr>index := idx[cur := Some (fixed_page_alloc cur)], links := q,
                   fl_last := page_elem cur, fl_size := fl_size fm + 1\<rparr>)) (\<lambda>fm'.
             Inr (fm'\<lparr>file_size := new_size\<rparr>, s1)))
        else Inl (Undefined ''index array exceeded'')))"

text \<open>The hint for the first mapping comes from \<^verbatim>\<open>/proc/self/maps\<close>.\<close>

definition map_file :: "fixed_mapper \<Rightarrow> bool \<Rightarrow> 'p os \<Rightarrow> (fixed_mapper \<times> 'p os) res" where
  "map_file fm update_mappings s =
     (let hint = (if start_addr fm = 0 then unat (map_hint (of_nat (file_size fm)) (os_maps s)) else start_addr fm);
          s1 = (if start_addr fm = 0 then s else sys_munmap hint (file_size fm) s)
      in bindR (assertR (hint \<noteq> 0) ''Could not find a big-enough region'') (\<lambda>_.
         case sys_mmap hint (file_size fm) DEFAULT_MAPPING_PROT 0 s1 of (addr, s2) \<Rightarrow>
         bindR (assertR (addr = hint) ''Could not mapped at the hinted address'') (\<lambda>_.
         let fm' = fm\<lparr>start_addr := addr\<rparr> in
         if update_mappings then bindR (update_mapping_prot fm' s2) (\<lambda>s3. Inr (fm', s3))
         else Inr (fm', s2))))"

definition empty_links :: qstore where
  "empty_links = \<lparr>cell = (\<lambda>_. 0), lastp = LFirst, prevp = (\<lambda>_. LFirst 0)\<rparr>"

definition fixed_mapper_init :: "env \<Rightarrow> 'p os \<Rightarrow> (fixed_mapper \<times> 'p os) res" where
  "fixed_mapper_init e s =
     (let fm = \<lparr>file_size = os_len s, start_addr = 0, fl_size = 0, fl_last = 0,
                links = LIST_INIT empty_links FREE_HEAD, index = []\<rparr>
      in bindR (if file_size fm = 0 then fixed_mapper_grow_file fm (initial_size e) s else Inr (fm, s))
           (\<lambda>(fm, s). map_file fm False s))"

fun free_pages_of :: "fixed_mapper \<Rightarrow> nat list \<Rightarrow> unit res" where
  "free_pages_of fm [] = Inr ()"
| "free_pages_of fm (i # is) = bindR (index_at fm i) (\<lambda>_. free_pages_of fm is)"

definition fixed_mapper_close :: "fixed_mapper \<Rightarrow> 'p os \<Rightarrow> (int \<times> 'p os) res" where
  "fixed_mapper_close fm s =
     bindR (free_pages_of fm [0..<bytes2pgs (file_size fm)]) (\<lambda>_.
     Inr (0, sys_munmap (start_addr fm) (file_size fm) s))"

text \<open>The result is the address and the file offset of the page.\<close>

definition fixed_mapper_alloc_page ::
  "fixed_mapper \<Rightarrow> nat \<Rightarrow> 'p os \<Rightarrow> ((nat \<times> nat) \<times> fixed_mapper \<times> 'p os) res" where
  "fixed_mapper_alloc_page h flags s =
     bindR (if fl_size h = 0
            then bindR (fixed_mapper_grow_file h (file_size h * 2) s) (\<lambda>(h, s). map_file h True s)
            else Inr (h, s)) (\<lambda>(h, s).
     let e = LIST_FIRST (links h) FREE_HEAD in
     bindR (LIST_REMOVE (links h) e) (\<lambda>q.
     let h1 = h\<lparr>links := q, fl_size := fl_size h - 1,
                fl_last := (if fl_size h - 1 = 0 then 0 else fl_last h)\<rparr>
     in bindR (index_at h1 (e - 1)) (\<lambda>p.
     let addr = start_addr h1 + pgno p * PAGE_SIZE;
         h2 = h1\<lparr>index := (index h1)[e - 1 := Some (p\<lparr>prot_flags := flags\<rparr>)]\<rparr>
     in bindR (if writable flags then page_allocator_mprotect_generic addr PAGE_SIZE flags s else Inr s) (\<lambda>s.
        Inr ((addr, pgno p * PAGE_SIZE), h2, s)))))"

definition fixed_mapper_alloc_pages :: "fixed_mapper \<Rightarrow> nat \<Rightarrow> nat \<Rightarrow> 'p os \<Rightarrow> nat res" where
  "fixed_mapper_alloc_pages h n flags s = Inl (Handle_error ''not implemnted yet'')"

definition fixed_mapper_freepages :: "fixed_mapper \<Rightarrow> nat \<Rightarrow> 'p os \<Rightarrow> (fixed_mapper \<times> 'p os) res" where
  "fixed_mapper_freepages h maddr s =
     bindR (assertR (maddr div PAGE_SIZE * PAGE_SIZE = maddr) ''Address is not page aligned'') (\<lambda>_.
     if maddr < start_addr h then Inl (Undefined ''index array exceeded'') else
     let n = (maddr - start_addr h) div PAGE_SIZE in
     bindR (index_at h n) (\<lambda>_.
     bindR (if fl_last h \<noteq> 0 then LIST_INSERT_AFTER (links h) (fl_last h) (page_elem n)
            else LIST_INSERT_HEAD (links h) FREE_HEAD (page_elem n)) (\<lambda>q.
     Inr (h\<lparr>links := q, fl_last := page_elem n, fl_size := fl_size h + 1\<rparr>, s))))"

definition fixed_mapper_getaddress :: "fixed_mapper \<Rightarrow> nat \<Rightarrow> nat" where
  "fixed_mapper_getaddress h laddr = start_addr h + laddr"

definition fixed_mapper_noswap :: "fixed_mapper \<Rightarrow> 'p os \<Rightarrow> (fixed_mapper \<times> 'p os) res" where
  "fixed_mapper_noswap h s = Inl (Handle_error ''Fixed Mapper does not implement page mapping swap'')"

section \<open>The invariant\<close>

text \<open>
  \<^verbatim>\<open>fm_rep fm xs\<close>: the list of free pages is \<^verbatim>\<open>xs\<close>, first to be handed out first.
  \<^verbatim>\<open>fm_mapped fm s\<close>: the whole file is mapped linearly at the start address.
\<close>

definition pages_of :: "fixed_mapper \<Rightarrow> nat" where
  "pages_of fm = bytes2pgs (file_size fm)"

definition index_ok :: "fixed_mapper \<Rightarrow> nat \<Rightarrow> bool" where
  "index_ok fm n \<longleftrightarrow> length (index fm) = n \<and> (\<forall>i<n. \<exists>p. index fm ! i = Some p \<and> pgno p = i)"

definition fm_rep :: "fixed_mapper \<Rightarrow> nat list \<Rightarrow> bool" where
  "fm_rep fm xs \<longleftrightarrow>
     file_size fm = pages_of fm * PAGE_SIZE \<and> index_ok fm (pages_of fm) \<and>
     dlist (links fm) FREE_HEAD (map page_elem xs) \<and> fl_size fm = length xs \<and>
     fl_last fm = (if xs = [] then 0 else page_elem (last xs)) \<and> (\<forall>x\<in>set xs. x < pages_of fm)"

definition fm_mapped :: "fixed_mapper \<Rightarrow> 'p os \<Rightarrow> bool" where
  "fm_mapped fm s \<longleftrightarrow> 0 < start_addr fm \<and> PAGE_SIZE dvd start_addr fm \<and> file_size fm \<le> os_len s \<and>
     (\<forall>i<pages_of fm. os_vm s (vpn (start_addr fm) + i) = Some i)"

definition page_addr :: "fixed_mapper \<Rightarrow> nat \<Rightarrow> nat" where
  "page_addr fm i = start_addr fm + i * PAGE_SIZE"

definition flag_of :: "fixed_mapper \<Rightarrow> nat \<Rightarrow> nat" where
  "flag_of fm i = prot_flags (the (index fm ! i))"

lemma index_at_ok: "index_ok fm n \<Longrightarrow> i < n \<Longrightarrow> \<exists>p. index_at fm i = Inr p \<and> pgno p = i \<and> prot_flags p = flag_of fm i"
  by (fastforce simp: index_ok_def index_at_def flag_of_def)

lemma page_elem_inj [simp]: "page_elem i = page_elem j \<longleftrightarrow> i = j" "page_elem i \<noteq> 0" "page_elem i - 1 = i"
  by (simp_all add: page_elem_def)

lemma page_elem_in: "page_elem i \<in> set (map page_elem xs) \<longleftrightarrow> i \<in> set xs"
  by auto

lemma fm_rep_distinct: "fm_rep fm xs \<Longrightarrow> distinct xs"
  using slist_distinct [of "links fm" FREE_HEAD "map page_elem xs"] by (auto simp: fm_rep_def dlist_def distinct_map)

lemma protect_pages_ok:
  assumes "index_ok fm n" "\<forall>i\<in>set is. i < n" "PAGE_SIZE dvd start_addr fm"
    and "\<forall>i<n. os_vm s (vpn (start_addr fm) + i) \<noteq> None"
  shows "\<exists>s'. protect_pages fm is s = Inr s' \<and> os_vm s' = os_vm s \<and> os_len s' = os_len s \<and>
    os_pages s' = os_pages s \<and> os_space s' = os_space s \<and> os_place s' = os_place s \<and>
    (\<forall>v. os_prot s' v = (if v \<in> (\<lambda>i. vpn (start_addr fm) + i) ` set is
       then flag_of fm (v - vpn (start_addr fm)) else os_prot s v))"
  using assms
proof (induction "is" arbitrary: s)
  case (Cons i "is")
  from index_at_ok [OF Cons.prems(1)] Cons.prems(2) obtain p where
    p: "index_at fm i = Inr p" "pgno p = i" "prot_flags p = flag_of fm i" by auto
  let ?a = "start_addr fm + PAGE_SIZE * i"
  have a: "PAGE_SIZE dvd ?a" "vpn ?a = vpn (start_addr fm) + i"
    using Cons.prems(3) vpn_aligned [OF Cons.prems(3), of i] by (simp_all add: mult.commute)
  then have "os_vm s (vpn ?a) \<noteq> None" using Cons.prems(2,4) by simp
  note mp = mprotect_page [OF a(1) this, of "flag_of fm i"]
  let ?s = "(stat (INC_BOTH Memprotects) s)\<lparr>os_prot := (os_prot s)(vpn ?a := flag_of fm i)\<rparr>"
  from Cons.IH [of ?s] Cons.prems obtain s' where
    s': "protect_pages fm is ?s = Inr s'" "os_vm s' = os_vm ?s" "os_len s' = os_len ?s"
      "os_pages s' = os_pages ?s" "os_space s' = os_space ?s" "os_place s' = os_place ?s"
      "\<And>v. os_prot s' v = (if v \<in> (\<lambda>i. vpn (start_addr fm) + i) ` set is
       then flag_of fm (v - vpn (start_addr fm)) else os_prot ?s v)" by auto
  then show ?case using p mp a(2) by auto
qed simp

lemma append_pages_ok:
  assumes "dlist (links fm) FREE_HEAD (map page_elem (xs @ [x]))" "fl_last fm = page_elem x"
    and "set is \<inter> set (xs @ [x]) = {}" "distinct is" "\<forall>i\<in>set is. i < length (index fm)"
  shows "\<exists>q. append_pages is fm = Inr (fm\<lparr>links := q,
      index := fold (\<lambda>i idx. idx[i := Some (fixed_page_alloc i)]) is (index fm),
      fl_size := fl_size fm + length is, fl_last := page_elem (last (x # is))\<rparr>) \<and>
    dlist q FREE_HEAD (map page_elem (xs @ x # is))"
  using assms
proof (induction "is" arbitrary: fm xs x)
  case Nil
  then show ?case by (intro exI [of _ "links fm"]) simp
next
  case (Cons i "is")
  have "page_elem i \<notin> set (map page_elem xs @ page_elem x # [])" using Cons.prems(3) by auto
  from LIST_INSERT_AFTER_spec [of "links fm" FREE_HEAD "map page_elem xs" "page_elem x" "[]", OF _ _ this]
  obtain q where q: "LIST_INSERT_AFTER (links fm) (page_elem x) (page_elem i) = Inr q"
    "dlist q FREE_HEAD (map page_elem (xs @ [x, i]))" using Cons.prems(1) by auto
  let ?fm = "fm\<lparr>index := (index fm)[i := Some (fixed_page_alloc i)], links := q,
             fl_size := fl_size fm + 1, fl_last := page_elem i\<rparr>"
  from Cons.IH [of ?fm "xs @ [x]" i] Cons.prems q(2) obtain q' where
    "append_pages is ?fm = Inr (?fm\<lparr>links := q',
      index := fold (\<lambda>i idx. idx[i := Some (fixed_page_alloc i)]) is (index ?fm),
      fl_size := fl_size ?fm + length is, fl_last := page_elem (last (i # is))\<rparr>)"
    "dlist q' FREE_HEAD (map page_elem (xs @ x # i # is))" by auto
  then show ?case using q(1) Cons.prems(2,5) by auto
qed

lemma fold_update_length: "length (fold (\<lambda>i idx. idx[i := f i]) is xs) = length xs"
  by (induction "is" arbitrary: xs) simp_all

lemma fold_update_nth:
  "k < length xs \<Longrightarrow> fold (\<lambda>i idx. idx[i := f i]) is xs ! k = (if k \<in> set is then f k else xs ! k)"
  by (induction "is" arbitrary: xs) (auto simp: nth_list_update)

text \<open>Growing an exhausted file by whole pages.\<close>

lemma grow_file_ok:
  assumes rep: "fm_rep fm []" and m: "pages_of fm < m" and room: "file_size fm + m * PAGE_SIZE \<le> os_space s"
  shows "\<exists>fm' s'. fixed_mapper_grow_file fm (m * PAGE_SIZE) s = Inr (fm', s') \<and> fm_rep fm' [pages_of fm..<m] \<and>
    pages_of fm' = m \<and> start_addr fm' = start_addr fm \<and>
    (\<forall>i<pages_of fm. flag_of fm' i = flag_of fm i) \<and>
    s' = (stat (INC_BOTH Cont_grow) s)\<lparr>os_len := max (os_len s) (file_size fm + m * PAGE_SIZE)\<rparr>"
proof -
  let ?n = "pages_of fm"
  have n: "bytes2pgs (file_size fm) = ?n" "length (index fm) = ?n" using rep by (auto simp: fm_rep_def index_ok_def pages_of_def)
  have bm: "bytes2pgs (m * PAGE_SIZE) = m" by (simp add: bytes2pgs_def PAGE_SIZE_def)
  let ?s = "(stat (INC_BOTH Cont_grow) s)\<lparr>os_len := max (os_len s) (file_size fm + m * PAGE_SIZE)\<rparr>"
  have fa: "posix_fallocate (file_size fm) (m * PAGE_SIZE) (stat (INC_BOTH Cont_grow) s) = (0, ?s)"
    using room m by (auto simp: posix_fallocate_def PAGE_SIZE_def)
  define idx where "idx = take m (index fm) @ replicate (m - length (index fm)) None"
  have idx: "length idx = m" "\<And>i. i < ?n \<Longrightarrow> idx ! i = index fm ! i"
    using n(2) m by (auto simp: idx_def nth_append)
  from LIST_INSERT_HEAD_spec [of "links fm" FREE_HEAD "[]" "page_elem ?n"] rep obtain q where
    q: "LIST_INSERT_HEAD (links fm) FREE_HEAD (page_elem ?n) = Inr q" "dlist q FREE_HEAD [page_elem ?n]"
    by (auto simp: fm_rep_def)
  define fm1 where "fm1 = fm\<lparr>index := idx[?n := Some (fixed_page_alloc ?n)], links := q,
     fl_last := page_elem ?n, fl_size := fl_size fm + 1\<rparr>"
  from append_pages_ok [of fm1 "[]" ?n "[Suc ?n..<m]"] q(2) idx(1) obtain q' where
    a: "append_pages [Suc ?n..<m] fm1 = Inr (fm1\<lparr>links := q',
      index := fold (\<lambda>i idx. idx[i := Some (fixed_page_alloc i)]) [Suc ?n..<m] (index fm1),
      fl_size := fl_size fm1 + (m - Suc ?n), fl_last := page_elem (last (?n # [Suc ?n..<m]))\<rparr>)"
    "dlist q' FREE_HEAD (map page_elem (?n # [Suc ?n..<m]))" by (auto simp: fm1_def)
  define fm' where "fm' = fm1\<lparr>links := q',
      index := fold (\<lambda>i idx. idx[i := Some (fixed_page_alloc i)]) [Suc ?n..<m] (index fm1),
      fl_size := fl_size fm1 + (m - Suc ?n), fl_last := page_elem (last (?n # [Suc ?n..<m])),
      file_size := m * PAGE_SIZE\<rparr>"
  have up: "?n # [Suc ?n..<m] = [?n..<m]" using m by (simp add: upt_rec [of ?n])
  have res: "fixed_mapper_grow_file fm (m * PAGE_SIZE) s = Inr (fm', ?s)"
  proof -
    have fl: "assertR (fl_size fm = 0) msg = Inr ()" for msg using rep by (simp add: fm_rep_def)
    have cf: "check_fallocate 0 = Inr ()" by (simp add: check_fallocate_def)
    show ?thesis
      unfolding fixed_mapper_grow_file_def fl bindR_simps fa prod.case cf Let_def n(1) bm idx_def [symmetric]
        q(1) if_P [OF m] fm1_def [symmetric] a(1) fm'_def ..
  qed
  have nth: "index fm' ! i = (if i < ?n then index fm ! i else Some (fixed_page_alloc i))" if "i < m" for i
    using that idx m by (cases "i = ?n") (auto simp: fm'_def fm1_def fold_update_nth nth_list_update fold_update_length)
  have pg: "pages_of fm' = m" by (simp add: pages_of_def fm'_def bm)
  have "index_ok fm' m"
    using nth rep idx(1) by (auto simp: index_ok_def fm'_def fm1_def fold_update_length fm_rep_def fixed_page_alloc_def)
  moreover have "fl_size fm' = length [?n..<m]" using rep m by (simp add: fm'_def fm1_def fm_rep_def)
  moreover have "file_size fm' = m * PAGE_SIZE" "dlist (links fm') FREE_HEAD (map page_elem [?n..<m])"
    "fl_last fm' = page_elem (last [?n..<m])"
    using a(2) unfolding up by (simp_all add: fm'_def up)
  ultimately have "fm_rep fm' [?n..<m]" using m pg by (auto simp: fm_rep_def)
  moreover have "start_addr fm' = start_addr fm" by (simp add: fm'_def fm1_def)
  moreover have "\<forall>i<?n. flag_of fm' i = flag_of fm i" using nth m by (simp add: flag_of_def)
  ultimately show ?thesis using res pg by blast
qed

lemma map_file_ok:
  assumes rep: "fm_rep fm xs" and a: "0 < start_addr fm" "PAGE_SIZE dvd start_addr fm"
    and place: "os_place s (start_addr fm) (file_size fm) = start_addr fm" and len: "file_size fm \<le> os_len s"
  shows "\<exists>s'. map_file fm True s = Inr (fm, s') \<and> fm_mapped fm s' \<and>
    os_len s' = os_len s \<and> os_space s' = os_space s \<and> os_place s' = os_place s \<and> os_pages s' = os_pages s \<and>
    (\<forall>i<pages_of fm. os_prot s' (vpn (start_addr fm) + i) = flag_of fm i)"
proof -
  define s1 where "s1 = snd (sys_mmap (start_addr fm) (file_size fm) DEFAULT_MAPPING_PROT 0
     (sys_munmap (start_addr fm) (file_size fm) s))"
  have sz: "file_size fm = pages_of fm * PAGE_SIZE" and io: "index_ok fm (pages_of fm)" using rep by (auto simp: fm_rep_def)
  have mm: "sys_mmap (start_addr fm) (file_size fm) DEFAULT_MAPPING_PROT 0 (sys_munmap (start_addr fm) (file_size fm) s) =
      (start_addr fm, s1)"
    using place by (simp add: sys_mmap_def s1_def sys_munmap_def Let_def)
  have vm: "os_vm s1 (vpn (start_addr fm) + i) = Some i" if "i < pages_of fm" for i
    using that in_range_pages [OF a(2), of "pages_of fm"] place
    by (simp add: s1_def sys_mmap_def sys_munmap_def Let_def sz vpn_def)
  have same: "os_len s1 = os_len s" "os_space s1 = os_space s" "os_place s1 = os_place s" "os_pages s1 = os_pages s"
    by (simp_all add: s1_def sys_mmap_def sys_munmap_def Let_def)
  have "\<forall>i\<in>set [0..<pages_of fm]. i < pages_of fm" by simp
  from protect_pages_ok [OF io this a(2), of s1] vm obtain s' where
    s': "protect_pages fm [0..<pages_of fm] s1 = Inr s'" "os_vm s' = os_vm s1" "os_len s' = os_len s1"
      "os_pages s' = os_pages s1" "os_space s' = os_space s1" "os_place s' = os_place s1"
      "\<And>v. os_prot s' v = (if v \<in> (\<lambda>i. vpn (start_addr fm) + i) ` set [0..<pages_of fm]
         then flag_of fm (v - vpn (start_addr fm)) else os_prot s1 v)" by auto
  have "map_file fm True s = Inr (fm, s')"
    using a(1) mm s'(1) by (simp add: map_file_def update_mapping_prot_def pages_of_def Let_def)
  moreover have "fm_mapped fm s'" using a s'(2,3) same vm len by (simp add: fm_mapped_def)
  ultimately show ?thesis using s' same by auto
qed

section \<open>Handing out and taking back pages\<close>

text \<open>There is a free page, or the file and its mapping can be doubled.\<close>

definition fm_room :: "fixed_mapper \<Rightarrow> 'p os \<Rightarrow> bool" where
  "fm_room h s \<longleftrightarrow> (fl_size h = 0 \<longrightarrow> 3 * file_size h \<le> os_space s \<and>
     os_place s (start_addr h) (2 * file_size h) = start_addr h)"

text \<open>The state after the first part of the allocation, which has a free page.\<close>

lemma refill_ok:
  assumes rep: "fm_rep h xs" and mp: "fm_mapped h s" and np: "0 < pages_of h" and room: "fm_room h s"
  shows "\<exists>h1 s1 ys. (if fl_size h = 0
            then bindR (fixed_mapper_grow_file h (file_size h * 2) s) (\<lambda>(h, s). map_file h True s)
            else Inr (h, s)) = Inr (h1, s1) \<and> fm_rep h1 ys \<and> fm_mapped h1 s1 \<and>
    start_addr h1 = start_addr h \<and> os_space s1 = os_space s \<and> os_place s1 = os_place s \<and> os_pages s1 = os_pages s \<and>
    ys = (if xs = [] then [pages_of h..<2 * pages_of h] else xs) \<and>
    pages_of h1 = (if xs = [] then 2 * pages_of h else pages_of h) \<and> os_len s \<le> os_len s1 \<and>
    (xs \<noteq> [] \<longrightarrow> h1 = h \<and> s1 = s)"
proof (cases "xs = []")
  case False
  then show ?thesis using rep mp by (auto simp: fm_rep_def)
next
  case True
  then have rep0: "fm_rep h []" and z: "fl_size h = 0" using rep by (auto simp: fm_rep_def)
  have sz: "file_size h = pages_of h * PAGE_SIZE" using rep by (simp add: fm_rep_def)
  have m: "pages_of h < 2 * pages_of h" using np by simp
  have rm: "3 * file_size h \<le> os_space s" "os_place s (start_addr h) (2 * file_size h) = start_addr h"
    using room z by (auto simp: fm_room_def)
  have "file_size h + 2 * pages_of h * PAGE_SIZE \<le> os_space s" using rm(1) sz by (simp add: mult.commute mult.left_commute)
  from grow_file_ok [OF rep0 m this] obtain h1 s1 where
    g: "fixed_mapper_grow_file h (2 * pages_of h * PAGE_SIZE) s = Inr (h1, s1)" "fm_rep h1 [pages_of h..<2 * pages_of h]"
      "pages_of h1 = 2 * pages_of h" "start_addr h1 = start_addr h"
      "s1 = (stat (INC_BOTH Cont_grow) s)\<lparr>os_len := max (os_len s) (file_size h + 2 * pages_of h * PAGE_SIZE)\<rparr>" by blast
  have sz1: "file_size h1 = 2 * file_size h" using g(2,3) sz by (simp add: fm_rep_def)
  have "os_place s1 (start_addr h1) (file_size h1) = start_addr h1" "file_size h1 \<le> os_len s1"
    using rm(2) sz sz1 g(4,5) by (simp_all add: mult.commute [of _ PAGE_SIZE])
  from map_file_ok [OF g(2) _ _ this] mp g(4) obtain s2 where
    "map_file h1 True s1 = Inr (h1, s2)" "fm_mapped h1 s2" "os_len s2 = os_len s1" "os_space s2 = os_space s1"
    "os_place s2 = os_place s1" "os_pages s2 = os_pages s1" by (auto simp: fm_mapped_def)
  then show ?thesis using g z True sz by (simp add: mult.commute mult.left_commute)
qed

lemma alloc_page_ok:
  assumes rep: "fm_rep h xs" and mp: "fm_mapped h s" and np: "0 < pages_of h" and room: "fm_room h s"
  shows "\<exists>n ys h' s'. fixed_mapper_alloc_page h flags s = Inr ((page_addr h n, n * PAGE_SIZE), h', s') \<and>
    fm_rep h' ys \<and> fm_mapped h' s' \<and> start_addr h' = start_addr h \<and> pages_of h \<le> pages_of h' \<and> n < pages_of h' \<and>
    n # ys = (if xs = [] then [pages_of h..<2 * pages_of h] else xs) \<and>
    pages_of h' = (if xs = [] then 2 * pages_of h else pages_of h) \<and>
    flag_of h' n = flags \<and> (writable flags \<longrightarrow> os_prot s' (vpn (page_addr h n)) = flags) \<and>
    (\<not> writable flags \<and> xs \<noteq> [] \<longrightarrow> s' = s) \<and> os_pages s' = os_pages s \<and>
    (xs \<noteq> [] \<longrightarrow> os_vm s' = os_vm s \<and> (\<forall>v. v \<noteq> vpn (page_addr h n) \<longrightarrow> os_prot s' v = os_prot s v))"
proof -
  from refill_ok [OF assms] obtain h1 s1 zs where r: "(if fl_size h = 0
            then bindR (fixed_mapper_grow_file h (file_size h * 2) s) (\<lambda>(h, s). map_file h True s)
            else Inr (h, s)) = Inr (h1, s1)" "fm_rep h1 zs" "fm_mapped h1 s1" "start_addr h1 = start_addr h"
      "os_pages s1 = os_pages s" "zs = (if xs = [] then [pages_of h..<2 * pages_of h] else xs)"
      "pages_of h1 = (if xs = [] then 2 * pages_of h else pages_of h)" "xs \<noteq> [] \<longrightarrow> h1 = h \<and> s1 = s" by blast
  have "zs \<noteq> []" using r(6) np by auto
  then obtain n ys where zs: "zs = n # ys" by (cases zs) auto
  have dl: "dlist (links h1) FREE_HEAD ([] @ page_elem n # map page_elem ys)" using r(2) zs by (simp add: fm_rep_def)
  from LIST_REMOVE_spec [OF dl] obtain q where
    q: "LIST_REMOVE (links h1) (page_elem n) = Inr q" "dlist q FREE_HEAD (map page_elem ys)" by auto
  have first: "LIST_FIRST (links h1) FREE_HEAD = page_elem n" using LIST_FIRST_spec [OF dl] by simp
  have n: "n < pages_of h1" and io: "index_ok h1 (pages_of h1)" using r(2) zs by (auto simp: fm_rep_def)
  define h2 where "h2 = h1\<lparr>links := q, fl_size := fl_size h1 - 1, fl_last := (if fl_size h1 - 1 = 0 then 0 else fl_last h1)\<rparr>"
  have "index_ok h2 (pages_of h1)" using io by (simp add: h2_def index_ok_def)
  from index_at_ok [OF this n] obtain p where p: "index_at h2 n = Inr p" "pgno p = n" by blast
  define h3 where "h3 = h2\<lparr>index := (index h2)[n := Some (p\<lparr>prot_flags := flags\<rparr>)]\<rparr>"
  have addr: "start_addr h2 + n * PAGE_SIZE = page_addr h n" using r(4) by (simp add: h2_def page_addr_def)
  have al: "PAGE_SIZE dvd page_addr h n" "vpn (page_addr h n) = vpn (start_addr h) + n"
    using mp by (auto simp: page_addr_def fm_mapped_def)
  have mapped: "os_vm s1 (vpn (page_addr h n)) \<noteq> None" using r(3,4) n al(2) by (simp add: fm_mapped_def)
  define s2 where "s2 = (if writable flags
     then (stat (INC_BOTH Memprotects) s1)\<lparr>os_prot := (os_prot s1)(vpn (page_addr h n) := flags)\<rparr> else s1)"
  have prot: "(if writable flags then page_allocator_mprotect_generic (page_addr h n) PAGE_SIZE flags s1 else Inr s1) = Inr s2"
    using mprotect_page [OF al(1) mapped, of flags] by (simp add: s2_def)
  have res: "fixed_mapper_alloc_page h flags s = Inr ((page_addr h n, n * PAGE_SIZE), h3, s2)"
    unfolding fixed_mapper_alloc_page_def r(1)
    by (simp only: bindR_simps prod.case Let_def first q(1) h2_def [symmetric] page_elem_inj(3) p addr prot
        h3_def [symmetric])
  have pg: "pages_of h3 = pages_of h1" by (simp add: h3_def h2_def pages_of_def)
  have "\<exists>p'. index h3 ! i = Some p' \<and> pgno p' = i" if "i < pages_of h1" for i
    using io p(2) that by (cases "i = n") (auto simp: h3_def h2_def index_ok_def)
  then have "index_ok h3 (pages_of h1)" using io by (simp add: h3_def h2_def index_ok_def)
  then have rep3: "fm_rep h3 ys"
    using r(2) q(2) zs pg by (auto simp: fm_rep_def h3_def h2_def)
  have "fm_mapped h3 s2" using r(3) pg by (auto simp: fm_mapped_def s2_def h3_def h2_def)
  moreover have "flag_of h3 n = flags" using n io by (simp add: flag_of_def h3_def h2_def index_ok_def)
  moreover have "writable flags \<longrightarrow> os_prot s2 (vpn (page_addr h n)) = flags" by (simp add: s2_def)
  moreover have "\<not> writable flags \<and> xs \<noteq> [] \<longrightarrow> s2 = s" "os_pages s2 = os_pages s" using r(5,8) by (simp_all add: s2_def)
  moreover have "xs \<noteq> [] \<longrightarrow> os_vm s2 = os_vm s \<and> (\<forall>v. v \<noteq> vpn (page_addr h n) \<longrightarrow> os_prot s2 v = os_prot s v)"
    using r(8) by (simp add: s2_def)
  moreover have "start_addr h3 = start_addr h" using r(4) by (simp add: h3_def h2_def)
  moreover have "pages_of h \<le> pages_of h3" using r(7) pg by simp
  moreover have "n < pages_of h3" using n pg by simp
  moreover have "n # ys = (if xs = [] then [pages_of h..<2 * pages_of h] else xs)" using r(6) zs by simp
  moreover have "pages_of h3 = (if xs = [] then 2 * pages_of h else pages_of h)" using r(7) pg by simp
  ultimately show ?thesis using res rep3 by blast
qed

lemma freepages_ok:
  assumes rep: "fm_rep h xs" and n: "n < pages_of h" "n \<notin> set xs" and al: "PAGE_SIZE dvd start_addr h"
  shows "\<exists>h'. fixed_mapper_freepages h (page_addr h n) s = Inr (h', s) \<and> fm_rep h' (xs @ [n]) \<and>
    start_addr h' = start_addr h \<and> pages_of h' = pages_of h"
proof -
  have d: "dlist (links h) FREE_HEAD (map page_elem xs)" and io: "index_ok h (pages_of h)"
    and last: "fl_last h = (if xs = [] then 0 else page_elem (last xs))" using rep by (auto simp: fm_rep_def)
  have "PAGE_SIZE dvd page_addr h n" using al by (simp add: page_addr_def)
  then have a: "page_addr h n div PAGE_SIZE * PAGE_SIZE = page_addr h n" by simp
  have no: "(page_addr h n - start_addr h) div PAGE_SIZE = n" "\<not> page_addr h n < start_addr h"
    by (simp_all add: page_addr_def PAGE_SIZE_def)
  from index_at_ok [OF io n(1)] obtain p where p: "index_at h n = Inr p" by blast
  have fresh: "page_elem n \<notin> set (map page_elem xs)" using n(2) by auto
  have "\<exists>q. (if fl_last h \<noteq> 0 then LIST_INSERT_AFTER (links h) (fl_last h) (page_elem n)
            else LIST_INSERT_HEAD (links h) FREE_HEAD (page_elem n)) = Inr q \<and>
      dlist q FREE_HEAD (map page_elem (xs @ [n]))"
    using LIST_append_spec [OF d _ fresh, of "fl_last h"] last by (auto simp: last_map split: if_splits)
  then obtain q where q: "(if fl_last h \<noteq> 0 then LIST_INSERT_AFTER (links h) (fl_last h) (page_elem n)
            else LIST_INSERT_HEAD (links h) FREE_HEAD (page_elem n)) = Inr q"
    "dlist q FREE_HEAD (map page_elem (xs @ [n]))" by blast
  let ?h = "h\<lparr>links := q, fl_last := page_elem n, fl_size := fl_size h + 1\<rparr>"
  have "fixed_mapper_freepages h (page_addr h n) s = Inr (?h, s)"
    unfolding fixed_mapper_freepages_def a no(1) if_not_P [OF no(2)] Let_def p bindR_simps q(1) by simp
  moreover have "pages_of ?h = pages_of h" by (simp add: pages_of_def)
  moreover have "fm_rep ?h (xs @ [n])" using rep q(2) n(1) by (auto simp: fm_rep_def pages_of_def index_ok_def)
  ultimately show ?thesis by auto
qed

lemma alloc_needs_room:
  assumes rep: "fm_rep h xs" and np: "0 < pages_of h" "0 < start_addr h" and ok: "fixed_mapper_alloc_page h flags s = Inr r"
  shows "fm_room h s"
proof (rule ccontr)
  assume nr: "\<not> fm_room h s"
  then have z: "fl_size h = 0" by (auto simp: fm_room_def)
  then have rep0: "fm_rep h []" using rep by (auto simp: fm_rep_def)
  have sz: "file_size h = pages_of h * PAGE_SIZE" using rep by (simp add: fm_rep_def)
  from ok z obtain h1 s1 h2 s2 where g: "fixed_mapper_grow_file h (file_size h * 2) s = Inr (h1, s1)"
    "map_file h1 True s1 = Inr (h2, s2)"
    by (auto simp: fixed_mapper_alloc_page_def bindR_Inr_iff)
  have sp: "3 * file_size h \<le> os_space s"
  proof (rule ccontr)
    assume "\<not> 3 * file_size h \<le> os_space s"
    then have "posix_fallocate (file_size h) (file_size h * 2) (stat (INC_BOTH Cont_grow) s) =
        (ENOSPC, stat (INC_BOTH Cont_grow) s)"
      using np(1) sz by (simp add: posix_fallocate_def PAGE_SIZE_def)
    then show False using g(1) z by (simp add: fixed_mapper_grow_file_def check_fallocate_def ENOSPC_def EINVAL_def)
  qed
  have m: "pages_of h < 2 * pages_of h" "file_size h + 2 * pages_of h * PAGE_SIZE \<le> os_space s"
    using np(1) sp sz by (simp_all add: mult.commute [of _ PAGE_SIZE])
  from grow_file_ok [OF rep0 m] g(1) sz have h1: "start_addr h1 = start_addr h" "fm_rep h1 [pages_of h..<2 * pages_of h]"
    "pages_of h1 = 2 * pages_of h" "os_place s1 = os_place s"
    by (auto simp: mult.commute mult.left_commute)
  have sz1: "file_size h1 = 2 * file_size h" using h1(2,3) sz by (simp add: fm_rep_def)
  have "os_place s1 (start_addr h1) (file_size h1) = start_addr h1"
    using g(2) np(2) h1(1)
    by (auto simp: map_file_def Let_def sys_mmap_def sys_munmap_def bindR_Inr_iff)
  with nr z sp sz1 h1(1,4) show False by (simp add: fm_room_def)
qed

section \<open>The fixed mapper is a page allocator\<close>

definition fm_inv :: "fixed_mapper \<times> 'p os \<Rightarrow> bool" where
  "fm_inv m \<longleftrightarrow> (\<exists>xs. fm_rep (fst m) xs) \<and> fm_mapped (fst m) (snd m) \<and> 0 < pages_of (fst m)"

definition free_list :: "fixed_mapper \<Rightarrow> nat set" where
  "free_list h = {i. \<exists>xs. fm_rep h xs \<and> i \<in> set xs}"

definition fm_in_use :: "fixed_mapper \<times> 'p os \<Rightarrow> nat set" where
  "fm_in_use m = page_addr (fst m) ` ({..<pages_of (fst m)} - free_list (fst m))"

lemma free_list_rep: "fm_rep h xs \<Longrightarrow> free_list h = set xs"
proof -
  assume r: "fm_rep h xs"
  have u: "ys = xs" if "fm_rep h ys" for ys
  proof -
    have "slist (links h) FREE_HEAD (map page_elem ys)" "slist (links h) FREE_HEAD (map page_elem xs)"
      using r that by (simp_all add: fm_rep_def dlist_def)
    then have "map page_elem ys = map page_elem xs" by (rule slist_unique)
    moreover have "inj page_elem" by (simp add: inj_def page_elem_def)
    ultimately show ?thesis by (simp only: inj_map_eq_map)
  qed
  show ?thesis unfolding free_list_def using r u by blast
qed

lemma page_addr_inj [simp]: "page_addr h i = page_addr h j \<longleftrightarrow> i = j"
  by (simp add: page_addr_def PAGE_SIZE_def)

lemma page_addr_start: "start_addr h' = start_addr h \<Longrightarrow> page_addr h' = page_addr h"
  by (simp add: page_addr_def fun_eq_iff)

definition fm_alloc :: "fixed_mapper \<times> 'p os \<Rightarrow> nat \<Rightarrow> ((nat \<times> nat) \<times> fixed_mapper \<times> 'p os) res" where
  "fm_alloc m flags = fixed_mapper_alloc_page (fst m) flags (snd m)"

definition fm_release :: "fixed_mapper \<times> 'p os \<Rightarrow> nat \<Rightarrow> (fixed_mapper \<times> 'p os) res" where
  "fm_release m a = fixed_mapper_freepages (fst m) a (snd m)"

lemma refill_used:
  assumes "distinct (n # ys)" "n # ys = (if xs = [] then [p..<2 * p] else xs)" "(p'::nat) = (if xs = [] then 2 * p else p)" "n < p'"
  shows "{..<p'} - set ys = insert n ({..<p} - set xs) \<and> n \<notin> {..<p} - set xs"
proof (cases "xs = []")
  case True
  then have e: "n # ys = [p..<2 * p]" "p' = 2 * p" using assms by auto
  have "set (n # ys) = set [p..<2 * p]" unfolding e(1) ..
  then have "insert n (set ys) = {p..<2 * p}" by simp
  moreover have "n = p"
  proof -
    have "n = hd [p..<2 * p]" using e(1) by (metis list.sel(1))
    moreover have "p < 2 * p" using assms(4) e(2) by simp
    ultimately show ?thesis by simp
  qed
  moreover have "n \<notin> set ys" using assms(1) by simp
  ultimately have sy: "set ys = {p..<2 * p} - {p}" "n = p" by blast+
  have "{..<2 * p} - ({p..<2 * p} - {p}) = insert p {..<p}" using assms(4) e(2) sy(2) by auto
  then show ?thesis unfolding sy True e(2) by simp
next
  case False
  then have x: "n # ys = xs" "p' = p" using assms(2,3) by simp_all
  have "n \<notin> set ys" using assms(1) by simp
  then show ?thesis using assms(4) unfolding x(1) [symmetric] x(2) by auto
qed

interpretation fm: page_source fm_inv fm_in_use fm_alloc fm_release
proof unfold_locales
  fix m :: "fixed_mapper \<times> 'p os" and flags a l m'
  assume inv: "fm_inv m" and ok: "fm_alloc m flags = Inr ((a, l), m')"
  obtain h s where m: "m = (h, s)" by force
  from inv m obtain xs where rep: "fm_rep h xs" and mp: "fm_mapped h s" and np: "0 < pages_of h"
    by (auto simp: fm_inv_def)
  have pos: "0 < start_addr h" using mp by (simp add: fm_mapped_def)
  have ok': "fixed_mapper_alloc_page h flags s = Inr ((a, l), m')" using ok m by (simp add: fm_alloc_def)
  have "fm_room h s" by (rule alloc_needs_room [OF rep np pos ok'])
  from alloc_page_ok [OF rep mp np this, of flags] obtain n ys h' s' where
    a: "fixed_mapper_alloc_page h flags s = Inr ((page_addr h n, n * PAGE_SIZE), h', s')" "fm_rep h' ys" "fm_mapped h' s'"
      "start_addr h' = start_addr h" "pages_of h \<le> pages_of h'" "n < pages_of h'"
      "n # ys = (if xs = [] then [pages_of h..<2 * pages_of h] else xs)"
      "pages_of h' = (if xs = [] then 2 * pages_of h else pages_of h)" by blast
  have eq: "a = page_addr h n" "m' = (h', s')" using ok m a(1) by (auto simp: fm_alloc_def)
  have pa: "page_addr h' = page_addr h" using a(4) by (rule page_addr_start)
  have "fm_inv m'" using a(2,3,5) np eq(2) by (auto simp: fm_inv_def)
  moreover have old: "free_list h = set xs" "free_list h' = set ys" using rep a(2) free_list_rep by auto
  have "distinct (n # ys)" using a(7) fm_rep_distinct [OF rep] by (auto split: if_splits)
  note refill_used [OF this a(7,8,6)]
  then have used: "{..<pages_of h'} - set ys = insert n ({..<pages_of h} - set xs)" "n \<notin> {..<pages_of h} - set xs"
    by auto
  have "fm_in_use m' = insert a (fm_in_use m)" "a \<notin> fm_in_use m"
    using used eq m pa old by (auto simp: fm_in_use_def)
  moreover have "PAGE_SIZE dvd a" using mp eq(1) by (simp add: fm_mapped_def page_addr_def)
  ultimately show "fm_inv m' \<and> a \<notin> fm_in_use m \<and> fm_in_use m' = insert a (fm_in_use m) \<and> PAGE_SIZE dvd a" by blast
next
  fix m :: "fixed_mapper \<times> 'p os" and a
  assume inv: "fm_inv m" and a: "a \<in> fm_in_use m"
  obtain h s where m: "m = (h, s)" by force
  from inv m obtain xs where rep: "fm_rep h xs" and mp: "fm_mapped h s" and np: "0 < pages_of h"
    by (auto simp: fm_inv_def)
  from a m obtain n where n: "a = page_addr h n" "n < pages_of h" "n \<notin> set xs"
    using free_list_rep [OF rep] by (auto simp: fm_in_use_def)
  from freepages_ok [OF rep n(2,3), of s] mp obtain h' where
    h': "fixed_mapper_freepages h a s = Inr (h', s)" "fm_rep h' (xs @ [n])" "start_addr h' = start_addr h" "pages_of h' = pages_of h"
    using n(1) by (auto simp: fm_mapped_def)
  have "fm_in_use (h', s) = fm_in_use m - {a}"
    using m n page_addr_start [OF h'(3)] h'(4) free_list_rep [OF h'(2)] free_list_rep [OF rep]
    by (auto simp: fm_in_use_def)
  moreover have "file_size h' = file_size h" using h'(2,4) rep by (simp add: fm_rep_def)
  then have "fm_inv (h', s)" using h' mp np by (auto simp: fm_inv_def fm_mapped_def)
  ultimately show "\<exists>m'. fm_release m a = Inr m' \<and> fm_inv m' \<and> fm_in_use m' = fm_in_use m - {a}"
    using h'(1) m by (auto simp: fm_release_def)
qed

text \<open>The contents of the pages in use stay while pages are handed out and taken back.\<close>

lemma fm_view:
  assumes "fm_mapped h s" "n < pages_of h"
  shows "page_at s (page_addr h n) = Some (os_pages s n)"
proof -
  have "vpn (page_addr h n) = vpn (start_addr h) + n" using assms(1) by (simp add: page_addr_def fm_mapped_def)
  then show ?thesis using assms by (simp add: page_at_def fm_mapped_def)
qed

interpretation fmv: page_memory fm_inv fm_in_use fm_alloc fm_release "\<lambda>m. page_at (snd m)"
proof unfold_locales
  fix m :: "fixed_mapper \<times> 'p os" and flags a l m' b
  assume inv: "fm_inv m" and ok: "fm_alloc m flags = Inr ((a, l), m')"
  obtain h s where m: "m = (h, s)" by force
  from inv m obtain xs where rep: "fm_rep h xs" and mp: "fm_mapped h s" and np: "0 < pages_of h"
    by (auto simp: fm_inv_def)
  have pos: "0 < start_addr h" using mp by (simp add: fm_mapped_def)
  have ok': "fixed_mapper_alloc_page h flags s = Inr ((a, l), m')" using ok m by (simp add: fm_alloc_def)
  from alloc_page_ok [OF rep mp np alloc_needs_room [OF rep np pos ok'], of flags] obtain n h' s' where
    a: "fixed_mapper_alloc_page h flags s = Inr ((page_addr h n, n * PAGE_SIZE), h', s')" "fm_mapped h' s'"
      "start_addr h' = start_addr h" "pages_of h \<le> pages_of h'" "n < pages_of h'" "os_pages s' = os_pages s" by blast
  have m': "m' = (h', s')" "a = page_addr h' n" using ok' a(1) page_addr_start [OF a(3)] by auto
  show "page_at (snd m') a \<noteq> None" using fm_view [OF a(2,5)] m' by simp
  assume "b \<in> fm_in_use m"
  then obtain k where k: "b = page_addr h k" "k < pages_of h" using m by (auto simp: fm_in_use_def)
  then have "b = page_addr h' k" "k < pages_of h'" using page_addr_start [OF a(3)] a(4) by auto
  then show "page_at (snd m') b = page_at (snd m) b"
    using fm_view [OF mp k(2)] fm_view [OF a(2), of k] k(1) m m' a(6) by simp
next
  fix m :: "fixed_mapper \<times> 'p os" and a m' b
  assume "fm_release m a = Inr m'"
  then show "page_at (snd m') b = page_at (snd m) b"
    by (auto simp: fm_release_def fixed_mapper_freepages_def bindR_Inr_iff Let_def split: if_splits)
qed

definition fm_frame :: "fixed_mapper \<times> 'p os \<Rightarrow> nat \<Rightarrow> nat option" where "fm_frame m a = os_vm (snd m) (vpn a)"
definition fm_prot :: "fixed_mapper \<times> 'p os \<Rightarrow> nat \<Rightarrow> nat" where "fm_prot m a = os_prot (snd m) (vpn a)"
definition fm_spare :: "fixed_mapper \<times> 'p os \<Rightarrow> nat" where "fm_spare m = fl_size (fst m)"

lemma fm_in_use_frame:
  assumes "fm_mapped h s" "n < pages_of h"
  shows "PAGE_SIZE dvd page_addr h n \<and> 0 < page_addr h n \<and> os_vm s (vpn (page_addr h n)) = Some n"
  using assms by (auto simp: page_addr_def fm_mapped_def)

interpretation fms: page_store fm_inv fm_in_use fm_alloc fm_release "\<lambda>m. page_at (snd m)" fm_frame fm_prot fm_spare
proof unfold_locales
  fix m :: "fixed_mapper \<times> 'p os" and a
  assume inv: "fm_inv m" and a: "a \<in> fm_in_use m"
  then obtain n where "a = page_addr (fst m) n" "n < pages_of (fst m)" by (auto simp: fm_in_use_def)
  with inv show "PAGE_SIZE dvd a \<and> 0 < a \<and> fm_frame m a \<noteq> None"
    using fm_in_use_frame [of "fst m" "snd m" n] by (simp add: fm_inv_def fm_frame_def)
next
  fix m :: "fixed_mapper \<times> 'p os" and a b
  assume inv: "fm_inv m" and ab: "a \<in> fm_in_use m" "b \<in> fm_in_use m" "fm_frame m a = fm_frame m b"
  from ab(1,2) obtain i j where ij: "a = page_addr (fst m) i" "i < pages_of (fst m)" "b = page_addr (fst m) j" "j < pages_of (fst m)"
    by (auto simp: fm_in_use_def)
  with inv ab(3) show "a = b"
    using fm_in_use_frame [of "fst m" "snd m" i] fm_in_use_frame [of "fst m" "snd m" j] by (simp add: fm_inv_def fm_frame_def)
next
  fix m :: "fixed_mapper \<times> 'p os" and flags
  assume inv: "fm_inv m" and sp: "0 < fm_spare m"
  obtain h s where m: "m = (h, s)" by force
  from inv m obtain xs where rep: "fm_rep h xs" and mp: "fm_mapped h s" and np: "0 < pages_of h"
    by (auto simp: fm_inv_def)
  have xs: "xs \<noteq> []" "fl_size h = length xs" using sp rep m by (auto simp: fm_spare_def fm_rep_def)
  have "fm_room h s" using sp m by (simp add: fm_room_def fm_spare_def)
  from alloc_page_ok [OF rep mp np this, of flags] xs(1) obtain n ys h' s' where
    a: "fixed_mapper_alloc_page h flags s = Inr ((page_addr h n, n * PAGE_SIZE), h', s')" "fm_rep h' ys" "n # ys = xs"
      "writable flags \<longrightarrow> os_prot s' (vpn (page_addr h n)) = flags" "os_vm s' = os_vm s"
      "\<forall>v. v \<noteq> vpn (page_addr h n) \<longrightarrow> os_prot s' v = os_prot s v" by auto
  have "fm_spare (h', s') = fm_spare m - 1" using a(2,3) xs m by (auto simp: fm_spare_def fm_rep_def)
  moreover have "vpn b \<noteq> vpn (page_addr h n)" if b: "b \<in> fm_in_use m" for b
  proof -
    from b m obtain k where k: "b = page_addr h k" "k < pages_of h" "k \<notin> set xs"
      using free_list_rep [OF rep] by (auto simp: fm_in_use_def)
    have "vpn (page_addr h i) = vpn (start_addr h) + i" for i using mp by (simp add: page_addr_def fm_mapped_def)
    moreover have "k \<noteq> n" using k(3) a(3) by auto
    ultimately show ?thesis using k(1) by simp
  qed
  ultimately show "\<exists>a l m'. fm_alloc m flags = Inr ((a, l), m') \<and> fm_spare m' = fm_spare m - 1 \<and>
      (writable flags \<longrightarrow> fm_prot m' a = flags) \<and>
      (\<forall>b\<in>fm_in_use m. fm_frame m' b = fm_frame m b \<and> fm_prot m' b = fm_prot m b)"
    using a(1,4-6) m by (simp add: fm_alloc_def fm_frame_def fm_prot_def)
next
  fix m m' :: "fixed_mapper \<times> 'p os" and flags a l
  assume inv: "fm_inv m" and sp: "0 < fm_spare m" and ok: "fm_alloc m flags = Inr ((a, l), m')"
  obtain h s where m: "m = (h, s)" by force
  from inv m obtain xs where rep: "fm_rep h xs" and mp: "fm_mapped h s" and np: "0 < pages_of h"
    by (auto simp: fm_inv_def)
  have xs: "xs \<noteq> []" using sp rep m by (auto simp: fm_spare_def fm_rep_def)
  have "fm_room h s" using sp m by (simp add: fm_room_def fm_spare_def)
  from alloc_page_ok [OF rep mp np this, of flags] xs ok m obtain s' where
    s': "snd m' = s'" "os_vm s' = os_vm s" "\<forall>v. v \<noteq> vpn a \<longrightarrow> os_prot s' v = os_prot s v" by (auto simp: fm_alloc_def)
  have "\<not> writable flags \<Longrightarrow> os_prot s' = os_prot s"
    using ok m sp s'(1) by (auto simp: fm_alloc_def fixed_mapper_alloc_page_def fm_spare_def bindR_Inr_iff Let_def)
  then show "fm_frame m' = fm_frame m \<and> (\<forall>b. fm_frame m b \<noteq> fm_frame m a \<longrightarrow> fm_prot m' b = fm_prot m b) \<and>
      (\<not> writable flags \<longrightarrow> fm_prot m' = fm_prot m)"
    using s' m by (simp add: fm_frame_def fm_prot_def fun_eq_iff) metis
next
  fix m :: "fixed_mapper \<times> 'p os" and a m'
  assume "fm_release m a = Inr m'"
  then show "fm_spare m' = Suc (fm_spare m) \<and> fm_frame m' = fm_frame m \<and> fm_prot m' = fm_prot m"
    by (auto simp: fm_release_def fixed_mapper_freepages_def bindR_Inr_iff Let_def fm_spare_def fm_frame_def fm_prot_def
        fun_eq_iff split: if_splits)
qed

section \<open>Opening the container file\<close>

lemma init_new_ok:
  assumes empty: "os_len s = 0" and room: "initial_size e \<le> os_space s"
    and hint: "unat (map_hint (of_nat (initial_size e)) (os_maps s)) = a" "0 < a" "PAGE_SIZE dvd a"
    and place: "os_place s a (initial_size e) = a"
  shows "\<exists>fm s'. fixed_mapper_init e s = Inr (fm, s') \<and> fm_rep fm [0..<initial_size e div PAGE_SIZE] \<and>
    fm_mapped fm s' \<and> start_addr fm = a \<and> pages_of fm = initial_size e div PAGE_SIZE \<and> 0 < pages_of fm"
proof -
  let ?m = "initial_size e div PAGE_SIZE"
  have m: "initial_size e = ?m * PAGE_SIZE" "0 < ?m"
    using initial_size_pages [of e] by (auto simp: PAGE_SIZE_def div_greater_zero_iff)
  let ?fm = "\<lparr>file_size = 0, start_addr = 0, fl_size = 0, fl_last = 0,
                links = LIST_INIT empty_links FREE_HEAD, index = []\<rparr>"
  have rep0: "fm_rep ?fm []" "pages_of ?fm = 0"
    using LIST_INIT_spec [of empty_links FREE_HEAD]
    by (simp_all add: fm_rep_def pages_of_def bytes2pgs_def index_ok_def)
  from grow_file_ok [OF rep0(1), of ?m s] rep0(2) m room obtain h s1 where
    g: "fixed_mapper_grow_file ?fm (initial_size e) s = Inr (h, s1)" "fm_rep h [0..<?m]" "pages_of h = ?m"
      "start_addr h = 0" "s1 = (stat (INC_BOTH Cont_grow) s)\<lparr>os_len := max (os_len s) (0 + initial_size e)\<rparr>"
    by (auto simp flip: m(1))
  have sz: "file_size h = initial_size e" using g(2,3) m(1) by (simp add: fm_rep_def)
  let ?h = "h\<lparr>start_addr := a\<rparr>"
  define s2 where "s2 = snd (sys_mmap a (initial_size e) DEFAULT_MAPPING_PROT 0 s1)"
  have mm: "sys_mmap a (initial_size e) DEFAULT_MAPPING_PROT 0 s1 = (a, s2)"
    using place g(5) by (simp add: s2_def sys_mmap_def Let_def)
  have "map_file h False s1 = Inr (?h, s2)"
    using g(4,5) sz hint mm by (simp add: map_file_def Let_def)
  then have "fixed_mapper_init e s = Inr (?h, s2)"
    using empty g(1) by (simp add: fixed_mapper_init_def Let_def)
  moreover have "fm_rep ?h [0..<?m]" using g(2) by (simp add: fm_rep_def pages_of_def index_ok_def)
  moreover have "pages_of ?h = ?m" using g(3) by (simp add: pages_of_def)
  moreover have "os_vm s2 (vpn a + i) = Some i" if "i < ?m" for i
    using that in_range_pages [OF hint(3), of ?m] m(1) place g(5)
    by (simp add: s2_def sys_mmap_def Let_def vpn_def)
  then have "fm_mapped ?h s2"
    using hint g(5) sz \<open>pages_of ?h = ?m\<close> by (simp add: fm_mapped_def s2_def sys_mmap_def Let_def)
  ultimately show ?thesis using m(2) by auto
qed

section \<open>Properties\<close>

text \<open>
  C22: The fixed mapper is a FIFO queue of pages.  On a mapper whose free list holds the page
  numbers \<open>xs\<close> and whose file is mapped, the allocation with room for a growth returns, hands out
  the address and the file offset of the first free page (the first of the pages added when the
  list is empty, which doubles the file), records and applies the flags when they ask for write
  access, and does not touch the contents of any page; giving a page back puts its number at the
  end of the queue.
\<close>

theorem fixed_mapper_queue:
  assumes "fm_rep h xs" "fm_mapped h s" "0 < pages_of h" "fm_room h s"
  shows "(\<exists>n ys h' s'. fixed_mapper_alloc_page h flags s = Inr ((page_addr h n, n * PAGE_SIZE), h', s') \<and>
      fm_rep h' ys \<and> fm_mapped h' s' \<and> n # ys = (if xs = [] then [pages_of h..<2 * pages_of h] else xs) \<and>
      pages_of h' = (if xs = [] then 2 * pages_of h else pages_of h) \<and>
      flag_of h' n = flags \<and> (writable flags \<longrightarrow> os_prot s' (vpn (page_addr h n)) = flags) \<and>
      os_pages s' = os_pages s) \<and>
    (\<forall>n<pages_of h. n \<notin> set xs \<longrightarrow>
      (\<exists>h'. fixed_mapper_freepages h (page_addr h n) s = Inr (h', s) \<and> fm_rep h' (xs @ [n])))"
proof -
  have "PAGE_SIZE dvd start_addr h" using assms(2) by (simp add: fm_mapped_def)
  then have "\<forall>n<pages_of h. n \<notin> set xs \<longrightarrow>
      (\<exists>h'. fixed_mapper_freepages h (page_addr h n) s = Inr (h', s) \<and> fm_rep h' (xs @ [n]))"
    using freepages_ok [OF assms(1)] by blast
  with alloc_page_ok [OF assms, of flags] show ?thesis by blast
qed

text \<open>A mapper of two pages at one terabyte, the second of them free.\<close>

definition small_mapper :: fixed_mapper where
  "small_mapper = \<lparr>file_size = 8192, start_addr = 2 ^ 40, fl_size = 1, fl_last = 2,
     links = \<lparr>cell = (\<lambda>l. if l = LFirst 0 then 2 else 0), lastp = LFirst, prevp = (\<lambda>_. LFirst 0)\<rparr>,
     index = [Some (fixed_page_alloc 0), Some (fixed_page_alloc 1)]\<rparr>"

definition small_os :: "unit os" where
  "small_os = \<lparr>os_len = 8192, os_pages = (\<lambda>_. ()), os_vm = (\<lambda>v. if v = 2 ^ 28 then Some 0 else if v = 2 ^ 28 + 1 then Some 1 else None),
     os_prot = (\<lambda>_. 1), os_other = (\<lambda>_. False), os_space = 2 ^ 30, os_place = (\<lambda>a n. a), os_maps = [], os_stats = GLOBAL_STATS\<rparr>"

lemma all_less_two: "(\<forall>i<2. P i) \<longleftrightarrow> P 0 \<and> P (1::nat)"
  by (auto simp: less_2_cases_iff)

lemma small_mapper_ok:
  "fm_rep small_mapper [1]" "fm_mapped small_mapper small_os" "0 < pages_of small_mapper" "fm_room small_mapper small_os"
  "page_addr small_mapper 0 = 2 ^ 40" "pages_of small_mapper = 2"
proof -
  show p: "pages_of small_mapper = 2" by (simp add: small_mapper_def pages_of_def bytes2pgs_def PAGE_SIZE_def)
  show "page_addr small_mapper 0 = 2 ^ 40" by (simp add: page_addr_def small_mapper_def)
  show "0 < pages_of small_mapper" using p by simp
  show "fm_rep small_mapper [1]"
    using p by (simp add: fm_rep_def index_ok_def dlist_def slist_def small_mapper_def fixed_page_alloc_def
        PAGE_SIZE_def page_elem_def FREE_HEAD_def all_less_two)
  show "fm_mapped small_mapper small_os"
    unfolding fm_mapped_def p by (simp add: all_less_two small_mapper_def small_os_def vpn_def PAGE_SIZE_def)
  show "fm_room small_mapper small_os" by (simp add: fm_room_def small_mapper_def)
qed

theorem fixed_mapper_queue_witness:
  "(\<exists>h' s'. fixed_mapper_alloc_page small_mapper PA_PROT_RNW small_os = Inr ((page_addr small_mapper 1, PAGE_SIZE), h', s') \<and>
     fm_rep h' []) \<and>
   (\<exists>h'. fixed_mapper_freepages small_mapper (2 ^ 40) small_os = Inr (h', small_os) \<and> fm_rep h' [1, 0])"
proof
  from fixed_mapper_queue [OF small_mapper_ok(1-4), of PA_PROT_RNW, THEN conjunct1]
  show "\<exists>h' s'. fixed_mapper_alloc_page small_mapper PA_PROT_RNW small_os = Inr ((page_addr small_mapper 1, PAGE_SIZE), h', s') \<and>
     fm_rep h' []" by auto
  from fixed_mapper_queue [OF small_mapper_ok(1-4), THEN conjunct2, rule_format, of 0]
  show "\<exists>h'. fixed_mapper_freepages small_mapper (2 ^ 40) small_os = Inr (h', small_os) \<and> fm_rep h' [1, 0]"
    using small_mapper_ok(5,6) by simp
qed

text \<open>
  The fixed mapper never hands out a page twice.  In every state the invariant describes, two
  successive allocations that return give page-aligned addresses whose pages do not overlap, no
  page that was in use is handed out, and the first can be given back, after which exactly the
  second is added to the pages in use.
\<close>

lemma fixed_mapper_pages_apart:
  assumes "fm_inv m" "fixed_mapper_alloc_page (fst m) f (snd m) = Inr ((a, l), m1)"
    "fixed_mapper_alloc_page (fst m1) g (snd m1) = Inr ((b, k), m2)"
  shows "(a + PAGE_SIZE \<le> b \<or> b + PAGE_SIZE \<le> a) \<and> a \<notin> fm_in_use m \<and>
    (\<exists>m3. fixed_mapper_freepages (fst m2) a (snd m2) = Inr m3 \<and> fm_in_use m3 = insert b (fm_in_use m))"
  using fm.alloc_twice [of m f a l m1 g b k m2] fm.alloc [of m f a l m1] assms
  by (simp add: fm_alloc_def fm_release_def)

section \<open>Opening an existing file\<close>

lemma append_pages_keeps:
  "append_pages is fm = Inr fm' \<Longrightarrow> \<forall>i\<in>set is. j < i \<Longrightarrow>
    index fm' ! j = index fm ! j \<and> length (index fm') = length (index fm) \<and> start_addr fm' = start_addr fm"
  by (induction "is" fm arbitrary: fm' rule: append_pages.induct) (auto simp: bindR_Inr_iff split: if_splits)

lemma grow_keeps_cell:
  assumes "fixed_mapper_grow_file h new s = Inr (h', s')" "index h = []" "PAGE_SIZE \<le> file_size h"
  shows "index h' ! 0 = None \<and> file_size h' = new \<and> PAGE_SIZE \<le> new"
proof -
  let ?cur = "bytes2pgs (file_size h)" and ?new = "bytes2pgs new"
  let ?idx = "replicate ?new (None :: fixed_page option)"
  have cur: "0 < ?cur" using assms(3) by (simp add: bytes2pgs_def PAGE_SIZE_def div_greater_zero_iff)
  from assms(1,2) obtain q fm' where
    lt: "?cur < ?new" and
    ap: "append_pages [Suc ?cur..<?new] (h\<lparr>index := ?idx[?cur := Some (fixed_page_alloc ?cur)], links := q,
           fl_last := page_elem ?cur, fl_size := fl_size h + 1\<rparr>) = Inr fm'" and h': "h' = fm'\<lparr>file_size := new\<rparr>"
    by (auto simp: fixed_mapper_grow_file_def Let_def bindR_Inr_iff split: prod.splits if_splits)
  have "\<forall>i\<in>set [Suc ?cur..<?new]. 0 < i" by auto
  from append_pages_keeps [OF ap this] have "index fm' ! 0 = ?idx[?cur := Some (fixed_page_alloc ?cur)] ! 0" by simp
  then have "index h' ! 0 = None" using h' cur lt by simp
  moreover have "PAGE_SIZE \<le> new"
    using lt by (cases "PAGE_SIZE \<le> new") (auto simp: bytes2pgs_def)
  ultimately show ?thesis using h' by simp
qed

lemma update_unwritten:
  assumes "index fm ! 0 = None" "PAGE_SIZE \<le> file_size fm"
  shows "\<exists>e. update_mapping_prot fm s = Inl e"
proof -
  have "0 < bytes2pgs (file_size fm)" using assms(2) by (simp add: bytes2pgs_def PAGE_SIZE_def div_greater_zero_iff)
  then have "[0..<bytes2pgs (file_size fm)] = 0 # [1..<bytes2pgs (file_size fm)]" by (simp add: upt_conv_Cons)
  then show ?thesis using assms(1) by (auto simp: update_mapping_prot_def index_at_def)
qed

lemma map_file_unwritten:
  assumes "index fm ! 0 = None" "PAGE_SIZE \<le> file_size fm"
  shows "\<exists>e. map_file fm True s = Inl e"
proof (cases "map_file fm True s")
  case (Inr r)
  have "update_mapping_prot (fm\<lparr>start_addr := b\<rparr>) s2 \<noteq> Inr x" for b s2 and x :: "'a os"
    using update_unwritten [of "fm\<lparr>start_addr := b\<rparr>" s2] assms by (metis fixed_mapper.select_convs(1,6) fixed_mapper.surjective fixed_mapper.update_convs(2) sum.distinct(1))
  with Inr show ?thesis
    by (auto simp: map_file_def Let_def bindR_Inr_iff split: prod.splits)
qed blast

lemma alloc_without_index:
  assumes "fl_size fm = 0" "index fm = []" "PAGE_SIZE \<le> file_size fm"
  shows "\<exists>err. fixed_mapper_alloc_page fm flags s = Inl err"
proof (cases "fixed_mapper_grow_file fm (file_size fm * 2) s")
  case (Inl err)
  then show ?thesis using assms(1) by (simp add: fixed_mapper_alloc_page_def)
next
  case (Inr r)
  then obtain h s1 where g: "fixed_mapper_grow_file fm (file_size fm * 2) s = Inr (h, s1)" by (cases r) auto
  from grow_keeps_cell [OF g assms(2,3)] have "index h ! 0 = None" "PAGE_SIZE \<le> file_size h" by auto
  from map_file_unwritten [OF this] obtain err where "map_file h True s1 = Inl err" by blast
  then show ?thesis using assms(1) g by (simp add: fixed_mapper_alloc_page_def)
qed

lemma init_existing:
  assumes len: "PAGE_SIZE \<le> os_len s" and ok: "fixed_mapper_init e s = Inr (fm, s')"
  shows "fl_size fm = 0 \<and> index fm = [] \<and>
      (\<exists>err. fixed_mapper_alloc_page fm flags s' = Inl err) \<and>
      (\<forall>b. \<exists>err. fixed_mapper_freepages fm b s' = Inl err) \<and>
      (\<exists>err. fixed_mapper_close fm s' = Inl err)"
proof -
  have f: "fl_size fm = 0" "index fm = []" "file_size fm = os_len s"
    using ok len by (auto simp: fixed_mapper_init_def map_file_def Let_def PAGE_SIZE_def bindR_Inr_iff split: prod.splits)
  have pg: "PAGE_SIZE \<le> file_size fm" using f(3) len by simp
  have "\<exists>err. fixed_mapper_alloc_page fm flags s' = Inl err" by (rule alloc_without_index [OF f(1,2) pg])
  moreover have "\<exists>err. fixed_mapper_freepages fm b s' = Inl err" for b
    using f(2) by (auto simp: fixed_mapper_freepages_def index_at_def assertR_def)
  moreover have "0 < bytes2pgs (file_size fm)" using pg by (simp add: bytes2pgs_def PAGE_SIZE_def div_greater_zero_iff)
  then have "\<exists>err. fixed_mapper_close fm s' = Inl err"
    using f(2) by (auto simp: fixed_mapper_close_def upt_conv_Cons index_at_def)
  ultimately show ?thesis using f(1,2) by blast
qed

text \<open>
  C23: Opening the container.  On an empty file, with room for the initial size and a free place for
  the mapping, the mapper starts with every page of the file free, in ascending order, and the
  whole file mapped.  On a file that already has pages it maps the file but builds neither the
  page index nor the free list: then no allocation succeeds (the growth re-protects the pages
  through index cells that were never written), no page can be given back, and the shutdown reads
  the missing index.
\<close>

theorem fixed_mapper_init_new_and_existing:
  shows "(os_len s = 0 \<longrightarrow> initial_size e \<le> os_space s \<longrightarrow>
      unat (map_hint (of_nat (initial_size e)) (os_maps s)) = a \<longrightarrow> 0 < a \<longrightarrow> PAGE_SIZE dvd a \<longrightarrow>
      os_place s a (initial_size e) = a \<longrightarrow>
      (\<exists>fm s'. fixed_mapper_init e s = Inr (fm, s') \<and> fm_rep fm [0..<initial_size e div PAGE_SIZE] \<and>
        fm_mapped fm s' \<and> start_addr fm = a \<and> 0 < pages_of fm)) \<and>
    (PAGE_SIZE \<le> os_len s \<longrightarrow> fixed_mapper_init e s = Inr (fm, s') \<longrightarrow>
      fl_size fm = 0 \<and> index fm = [] \<and>
      (\<exists>err. fixed_mapper_alloc_page fm flags s' = Inl err) \<and>
      (\<forall>b. \<exists>err. fixed_mapper_freepages fm b s' = Inl err) \<and>
      (\<exists>err. fixed_mapper_close fm s' = Inl err))"
proof (intro conjI impI)
  show "\<exists>fm s'. fixed_mapper_init e s = Inr (fm, s') \<and> fm_rep fm [0..<initial_size e div PAGE_SIZE] \<and>
        fm_mapped fm s' \<and> start_addr fm = a \<and> 0 < pages_of fm"
    if "os_len s = 0" "initial_size e \<le> os_space s" "unat (map_hint (of_nat (initial_size e)) (os_maps s)) = a"
      "0 < a" "PAGE_SIZE dvd a" "os_place s a (initial_size e) = a"
    using init_new_ok [OF that] by blast
qed (use init_existing in blast)+

text \<open>A process with nothing mapped and a container file of the given length, and one page to start with.\<close>

definition empty_os :: "nat \<Rightarrow> unit os" where
  "empty_os n = \<lparr>os_len = n, os_pages = (\<lambda>_. ()), os_vm = (\<lambda>_. None), os_prot = (\<lambda>_. 0),
     os_other = (\<lambda>_. False), os_space = 2 ^ 40, os_place = (\<lambda>a n. a), os_maps = [], os_stats = GLOBAL_STATS\<rparr>"

definition one_page_env :: env where
  "one_page_env = \<lparr>PMLIB_INIT_SIZE = Some 1, PMLIB_USE_NLMAPPER = None, PMLIB_FIX_PTRS = None, PMLIB_CLOSURE = None\<rparr>"

lemma one_page_env_ok:
  "initial_size one_page_env = 4096" "map_hint n [] = (if - 1 - 2 ^ 40 < n then 0 else 2 ^ 40)" "unat (2 ^ 40 :: u64) = 2 ^ 40"
  by (simp_all add: one_page_env_def initial_size_def map_hint_def TERABYTE_def ROUNDPG_def PAGE_MASK_def PAGE_SIZE_def)

theorem fixed_mapper_init_new_and_existing_witness:
  "(\<exists>fm s'. fixed_mapper_init one_page_env (empty_os 0) = Inr (fm, s') \<and> fm_rep fm [0]) \<and>
   (\<exists>fm s' err. fixed_mapper_init one_page_env (empty_os 8192) = Inr (fm, s') \<and> fixed_mapper_alloc_page fm 1 s' = Inl err)"
proof
  show "\<exists>fm s'. fixed_mapper_init one_page_env (empty_os 0) = Inr (fm, s') \<and> fm_rep fm [0]"
    using fixed_mapper_init_new_and_existing [of "empty_os 0" one_page_env "2 ^ 40", THEN conjunct1]
    by (simp add: one_page_env_ok empty_os_def PAGE_SIZE_def) blast
  obtain fm s' where ok: "fixed_mapper_init one_page_env (empty_os 8192) = Inr (fm, s')"
    by (simp add: fixed_mapper_init_def map_file_def empty_os_def one_page_env_ok sys_mmap_def Let_def)
  from fixed_mapper_init_new_and_existing [of "empty_os 8192" one_page_env 0 fm s' 1, THEN conjunct2]
  show "\<exists>fm s' err. fixed_mapper_init one_page_env (empty_os 8192) = Inr (fm, s') \<and> fixed_mapper_alloc_page fm 1 s' = Inl err"
    using ok by (simp add: empty_os_def PAGE_SIZE_def)
qed

end
