(* ===== verification/Keyorder.thy ===== *)
theory Keyorder
  imports Prelude
begin

text \<open>
  What the trees of \<^verbatim>\<open>src/src/utils/tree.h\<close> rely on: a comparison function that orders elements by
  a key.  The locale \<^verbatim>\<open>key_order\<close> is its contract; \<^verbatim>\<open>ordered_index\<close> is the contract a tree gives
  its clients, which both the red-black tree and the splay tree provide.
\<close>

definition ascending :: "('a \<Rightarrow> 'k::linorder) \<Rightarrow> 'a list \<Rightarrow> bool" where
  "ascending key xs \<longleftrightarrow> sorted_wrt (<) (map key xs)"

lemma ascending_Nil [simp]: "ascending key []"
  by (simp add: ascending_def)

lemma ascending_Cons [simp]:
  "ascending key (x # xs) \<longleftrightarrow> (\<forall>y\<in>set xs. key x < key y) \<and> ascending key xs"
  by (simp add: ascending_def)

lemma ascending_append [simp]:
  "ascending key (xs @ ys) \<longleftrightarrow>
     ascending key xs \<and> ascending key ys \<and> (\<forall>x\<in>set xs. \<forall>y\<in>set ys. key x < key y)"
  by (induction xs) auto

lemma ascending_distinct: "ascending key xs \<Longrightarrow> distinct (map key xs)"
  by (simp add: ascending_def strict_sorted_iff)

text \<open>The list with \<^verbatim>\<open>x\<close> at its place, and the list without the elements of that key.\<close>

definition put_in :: "('a \<Rightarrow> 'k::linorder) \<Rightarrow> 'a \<Rightarrow> 'a list \<Rightarrow> 'a list" where
  "put_in key x xs = filter (\<lambda>y. key y < key x) xs @ x # filter (\<lambda>y. key x < key y) xs"

definition take_out :: "('a \<Rightarrow> 'k::linorder) \<Rightarrow> 'a \<Rightarrow> 'a list \<Rightarrow> 'a list" where
  "take_out key x xs = filter (\<lambda>y. key y \<noteq> key x) xs"

definition key_in :: "('a \<Rightarrow> 'k::linorder) \<Rightarrow> 'a \<Rightarrow> 'a list \<Rightarrow> 'a option" where
  "key_in key x xs = find (\<lambda>y. key y = key x) xs"

lemma filter_all: "(\<And>x. x \<in> set xs \<Longrightarrow> P x) \<Longrightarrow> filter P xs = xs"
  by (rule filter_True) blast

lemma filter_none: "(\<And>x. x \<in> set xs \<Longrightarrow> \<not> P x) \<Longrightarrow> filter P xs = []"
  by (rule filter_False) blast

lemma put_in_split:
  assumes "\<And>y. y \<in> set as \<Longrightarrow> key y < key x" "\<And>y. y \<in> set bs \<Longrightarrow> key x < key y"
  shows "put_in key x (as @ bs) = as @ x # bs"
proof -
  have "filter (\<lambda>y. key y < key x) as = as" "filter (\<lambda>y. key x < key y) bs = bs"
    using assms by (auto intro: filter_all)
  moreover have "filter (\<lambda>y. key y < key x) bs = []" "filter (\<lambda>y. key x < key y) as = []"
    using assms by (auto intro!: filter_none dest: order.asym)
  ultimately show ?thesis by (simp add: put_in_def)
qed

lemma take_out_split:
  assumes "ascending key (as @ x # bs)"
  shows "take_out key x (as @ x # bs) = as @ bs"
proof -
  have "filter (\<lambda>y. key y \<noteq> key x) as = as" "filter (\<lambda>y. key y \<noteq> key x) bs = bs"
    using assms by (auto intro!: filter_all)
  then show ?thesis by (simp add: take_out_def)
qed

lemma take_out_absent: "(\<And>y. y \<in> set xs \<Longrightarrow> key y \<noteq> key x) \<Longrightarrow> take_out key x xs = xs"
  unfolding take_out_def by (rule filter_all)

lemma ascending_put_in: "ascending key xs \<Longrightarrow> ascending key (put_in key x xs)"
  by (auto simp: put_in_def ascending_def sorted_wrt_append sorted_wrt_map intro: sorted_wrt_filter order.strict_trans)

lemma ascending_take_out: "ascending key xs \<Longrightarrow> ascending key (take_out key x xs)"
  by (auto simp: take_out_def ascending_def sorted_wrt_map intro: sorted_wrt_filter)

lemma key_in_split:
  assumes "\<And>y. y \<in> set as \<Longrightarrow> key y < key x" and "key a = key x"
  shows "key_in key x (as @ a # bs) = Some a"
  using assms by (induction as) (fastforce simp: key_in_def)+

lemma key_in_None: "key_in key x xs = None \<longleftrightarrow> (\<forall>y\<in>set xs. key y \<noteq> key x)"
  by (auto simp: key_in_def find_None_iff)

lemma key_in_Some: "key_in key x xs = Some a \<Longrightarrow> a \<in> set xs \<and> key a = key x"
  unfolding key_in_def by (auto simp: find_Some_iff)

lemma set_put_in: "(\<forall>y\<in>set xs. key y \<noteq> key x) \<Longrightarrow> set (put_in key x xs) = insert x (set xs)"
  by (fastforce simp: put_in_def)

lemma set_take_out: "set (take_out key x xs) = {y \<in> set xs. key y \<noteq> key x}"
  by (auto simp: take_out_def)

section \<open>The contract of a comparison function\<close>

locale key_order =
  fixes cmp :: "'a \<Rightarrow> 'a \<Rightarrow> int"
    and key :: "'a \<Rightarrow> 'k::linorder"
  assumes cmp_less: "cmp a b < 0 \<longleftrightarrow> key a < key b"
    and cmp_zero: "cmp a b = 0 \<longleftrightarrow> key a = key b"
begin

lemma cmp_greater: "cmp a b > 0 \<longleftrightarrow> key b < key a"
  using cmp_less [of a b] cmp_zero [of a b] by (metis linorder_less_linear order.asym)

lemma cmp_cases [case_names less equal greater]:
  obtains "cmp a b < 0" "key a < key b" | "cmp a b = 0" "key a = key b" | "cmp a b > 0" "key b < key a"
  using cmp_less [of a b] cmp_zero [of a b] cmp_greater [of a b] by linarith

end

section \<open>The contract of an ordered index\<close>

locale ordered_index =
  fixes key :: "'a \<Rightarrow> 'k::linorder"
    and inv :: "'t \<Rightarrow> bool"
    and elems :: "'t \<Rightarrow> 'a list"
    and empty :: 't
    and ins :: "'t \<Rightarrow> 'a \<Rightarrow> ('t \<times> 'a option) res"
    and del :: "'t \<Rightarrow> 'a \<Rightarrow> 't res"
    and look :: "'t \<Rightarrow> 'a \<Rightarrow> 'a option"
  assumes empty: "inv empty \<and> elems empty = []"
    and sorted: "inv t \<Longrightarrow> ascending key (elems t)"
    and ins: "inv t \<Longrightarrow> \<exists>t'. ins t x = Inr (t', key_in key x (elems t)) \<and> inv t' \<and>
       elems t' = (if key_in key x (elems t) = None then put_in key x (elems t) else elems t)"
    and del: "inv t \<Longrightarrow> key_in key x (elems t) \<noteq> None \<Longrightarrow>
       \<exists>t'. del t x = Inr t' \<and> inv t' \<and> elems t' = take_out key x (elems t)"
    and look: "inv t \<Longrightarrow> look t x = key_in key x (elems t)"
begin

lemma look_after_ins:
  assumes "inv t" "key_in key x (elems t) = None"
  shows "\<exists>t'. ins t x = Inr (t', None) \<and> look t' x = Some x \<and>
    (\<forall>y. key y \<noteq> key x \<longrightarrow> look t' y = look t y)"
proof -
  from ins [OF assms(1), of x] assms(2) obtain t' where
    t': "ins t x = Inr (t', None)" "inv t'" "elems t' = put_in key x (elems t)" by auto
  have "look t' x = Some x"
    unfolding look [OF t'(2)] t'(3) put_in_def by (rule key_in_split) auto
  moreover have "look t' y = look t y" if "key y \<noteq> key x" for y
  proof -
    have "set (elems t') = insert x (set (elems t))" using t'(3) assms(2) by (simp add: set_put_in key_in_None)
    moreover have d: "distinct (map key (elems t'))" "distinct (map key (elems t))"
      using sorted [OF t'(2)] sorted [OF assms(1)] by (auto dest: ascending_distinct)
    show ?thesis
    proof (cases "look t y")
      case None
      then have "\<forall>z\<in>set (elems t'). key z \<noteq> key y"
        using \<open>set (elems t') = _\<close> that look [OF assms(1)] by (auto simp: key_in_None)
      with None show ?thesis by (simp add: look [OF t'(2)] key_in_None)
    next
      case (Some a)
      then have a: "a \<in> set (elems t')" "key a = key y"
        using \<open>set (elems t') = _\<close> look [OF assms(1)] key_in_Some by (metis insertCI)+
      then have "look t' y \<noteq> None" by (auto simp: look [OF t'(2)] key_in_None)
      then obtain b where b: "look t' y = Some b" by blast
      then have "b \<in> set (elems t')" "key b = key y" using key_in_Some look [OF t'(2)] by metis+
      with a d have "a = b" by (metis distinct_map inj_on_eq_iff)
      with b Some show ?thesis by simp
    qed
  qed
  ultimately show ?thesis using t'(1) by blast
qed

lemma look_after_del:
  assumes "inv t" "key_in key x (elems t) \<noteq> None"
  shows "\<exists>t'. del t x = Inr t' \<and> inv t' \<and> look t' x = None"
proof -
  from del [OF assms] obtain t' where "del t x = Inr t'" "inv t'" "elems t' = take_out key x (elems t)" by blast
  then show ?thesis by (auto simp: look key_in_None set_take_out)
qed

text \<open>Building an index from a list of elements with distinct keys.\<close>

fun build :: "'t \<Rightarrow> 'a list \<Rightarrow> 't res" where
  "build t [] = Inr t"
| "build t (x # xs) = bindR (ins t x) (\<lambda>(t, _). build t xs)"

lemma build_set:
  assumes "inv t" "distinct (map key xs)" "\<forall>x\<in>set xs. key_in key x (elems t) = None"
  shows "\<exists>t'. build t xs = Inr t' \<and> inv t' \<and> set (elems t') = set (elems t) \<union> set xs \<and>
    ascending key (elems t')"
  using assms
proof (induction xs arbitrary: t)
  case (Cons x xs)
  from ins [OF Cons.prems(1), of x] Cons.prems(3) obtain t' where
    t': "ins t x = Inr (t', None)" "inv t'" "elems t' = put_in key x (elems t)" by auto
  have s: "set (elems t') = insert x (set (elems t))"
    using t'(3) Cons.prems(3) by (simp add: set_put_in key_in_None)
  have "\<forall>y\<in>set xs. key_in key y (elems t') = None"
    using Cons.prems(2,3) s by (fastforce simp: key_in_None)
  with Cons.IH [OF t'(2)] Cons.prems(2) show ?case by (auto simp: t'(1) s)
qed (auto simp: sorted)

end

end
