(* ===== verification/Rbtree.thy ===== *)
theory Rbtree
  imports Keyorder
begin

text \<open>
  The red-black tree of \<^verbatim>\<open>src/src/utils/tree.h\<close> (the RB macros).  The C code works on nodes with
  left, right and parent pointers.  The model is the tree together with the place of a node in it:
  a node pointer is a subtree with the path of its ancestors, so RB_PARENT is the first frame of
  the path and a write through a parent pointer is an update of that frame.  The rotations, the
  rebalancing loops and the searches follow the code branch by branch; a NULL pointer that the code
  would dereference is a segmentation fault.  RB_AUGMENT is not defined by any user of the header
  and does nothing.
\<close>

datatype color = RB_BLACK | RB_RED

datatype 'a rbt = RNil | RNode (ncolor: color) (nleft: "'a rbt") (nelem: 'a) (nright: "'a rbt")

text \<open>A frame is the parent of the node in focus: its color, element and other subtree.\<close>

datatype 'a frame = InLeft color 'a "'a rbt" | InRight color "'a rbt" 'a

type_synonym 'a rb_node = "'a rbt \<times> 'a frame list"

fun plug :: "'a rbt \<Rightarrow> 'a frame \<Rightarrow> 'a rbt" where
  "plug t (InLeft c x s) = RNode c t x s"
| "plug t (InRight c s x) = RNode c s x t"

fun up :: "'a rbt \<Rightarrow> 'a frame list \<Rightarrow> 'a rbt" where
  "up t [] = t"
| "up t (f # path) = up (plug t f) path"

fun frame_color :: "'a frame \<Rightarrow> color" where
  "frame_color (InLeft c x s) = c"
| "frame_color (InRight c s x) = c"

fun is_red :: "'a rbt \<Rightarrow> bool" where
  "is_red RNil = False"
| "is_red (RNode c l x r) \<longleftrightarrow> c = RB_RED"

fun paint :: "color \<Rightarrow> 'a rbt \<Rightarrow> 'a rbt" where
  "paint c RNil = RNil"
| "paint c (RNode _ l x r) = RNode c l x r"

section \<open>Rotations\<close>

fun RB_ROTATE_LEFT :: "'a rbt \<Rightarrow> 'a rbt res" where
  "RB_ROTATE_LEFT (RNode c l x (RNode c' l' y r')) = Inr (RNode c' (RNode c l x l') y r')"
| "RB_ROTATE_LEFT _ = Inl (Segv 0)"

fun RB_ROTATE_RIGHT :: "'a rbt \<Rightarrow> 'a rbt res" where
  "RB_ROTATE_RIGHT (RNode c (RNode c' l' y r') x r) = Inr (RNode c' l' y (RNode c r' x r))"
| "RB_ROTATE_RIGHT _ = Inl (Segv 0)"

section \<open>Insertion\<close>

text \<open>
  The loop of RB_INSERT_COLOR.  The node in focus is \<^verbatim>\<open>elm\<close>; after the rotation at the grandparent
  its parent is black, so the loop ends and the root is painted black.
\<close>

fun RB_INSERT_COLOR :: "'a rbt \<Rightarrow> 'a frame list \<Rightarrow> 'a rbt res" where
  "RB_INSERT_COLOR elm [] = Inr (paint RB_BLACK elm)"
| "RB_INSERT_COLOR elm (p # path) =
     (if frame_color p = RB_BLACK then Inr (paint RB_BLACK (up elm (p # path)))
      else case path of
        [] \<Rightarrow> Inl (Segv 0)
      | InLeft gc gx tmp # path' \<Rightarrow>
          if is_red tmp
          then RB_INSERT_COLOR (RNode RB_RED (paint RB_BLACK (plug elm p)) gx (paint RB_BLACK tmp)) path'
          else bindR (case p of InRight _ _ _ \<Rightarrow> RB_ROTATE_LEFT (plug elm p) | _ \<Rightarrow> Inr (plug elm p)) (\<lambda>parent.
               bindR (RB_ROTATE_RIGHT (RNode RB_RED (paint RB_BLACK parent) gx tmp)) (\<lambda>t.
               Inr (paint RB_BLACK (up t path'))))
      | InRight gc tmp gx # path' \<Rightarrow>
          if is_red tmp
          then RB_INSERT_COLOR (RNode RB_RED (paint RB_BLACK tmp) gx (paint RB_BLACK (plug elm p))) path'
          else bindR (case p of InLeft _ _ _ \<Rightarrow> RB_ROTATE_RIGHT (plug elm p) | _ \<Rightarrow> Inr (plug elm p)) (\<lambda>parent.
               bindR (RB_ROTATE_LEFT (RNode RB_RED tmp gx (paint RB_BLACK parent))) (\<lambda>t.
               Inr (paint RB_BLACK (up t path')))))"

text \<open>The descent of RB_INSERT: the node of that key, or the place for the new one.\<close>

fun rb_descend :: "('a \<Rightarrow> 'a \<Rightarrow> int) \<Rightarrow> 'a \<Rightarrow> 'a rbt \<Rightarrow> 'a frame list \<Rightarrow> 'a rb_node" where
  "rb_descend cmp elm RNil path = (RNil, path)"
| "rb_descend cmp elm (RNode c l x r) path =
     (let comp = cmp elm x in
      if comp < 0 then rb_descend cmp elm l (InLeft c x r # path)
      else if comp > 0 then rb_descend cmp elm r (InRight c l x # path)
      else (RNode c l x r, path))"

definition RB_INSERT :: "('a \<Rightarrow> 'a \<Rightarrow> int) \<Rightarrow> 'a rbt \<Rightarrow> 'a \<Rightarrow> ('a rbt \<times> 'a option) res" where
  "RB_INSERT cmp root elm =
     (case rb_descend cmp elm root [] of
        (RNode c l x r, _) \<Rightarrow> Inr (root, Some x)
      | (RNil, path) \<Rightarrow>
          bindR (RB_INSERT_COLOR (RNode RB_RED RNil elm RNil) path) (\<lambda>t. Inr (t, None)))"

section \<open>Removal\<close>

text \<open>
  The loop of RB_REMOVE_COLOR: the subtree \<^verbatim>\<open>elm\<close> in focus lacks one black node.  Its sibling
  \<^verbatim>\<open>tmp\<close> is the other subtree of the first frame.
\<close>

definition black_child :: "'a rbt \<Rightarrow> bool" where
  "black_child t \<longleftrightarrow> \<not> is_red t"

fun sibling_left :: "color \<Rightarrow> 'a \<Rightarrow> 'a rbt \<Rightarrow> 'a frame list \<Rightarrow> color \<times> 'a rbt \<times> 'a frame list" where
  "sibling_left pc px (RNode RB_RED a tx b) path = (RB_RED, a, InLeft RB_BLACK tx b # path)"
| "sibling_left pc px tmp path = (pc, tmp, path)"

fun sibling_right :: "color \<Rightarrow> 'a \<Rightarrow> 'a rbt \<Rightarrow> 'a frame list \<Rightarrow> color \<times> 'a rbt \<times> 'a frame list" where
  "sibling_right pc px (RNode RB_RED a tx b) path = (RB_RED, b, InRight RB_BLACK a tx # path)"
| "sibling_right pc px tmp path = (pc, tmp, path)"

definition near_left :: "'a rbt \<Rightarrow> 'a rbt res" where
  "near_left tmp =
     (if black_child (nright tmp)
      then RB_ROTATE_RIGHT (RNode RB_RED (paint RB_BLACK (nleft tmp)) (nelem tmp) (nright tmp))
      else Inr tmp)"

definition near_right :: "'a rbt \<Rightarrow> 'a rbt res" where
  "near_right tmp =
     (if black_child (nleft tmp)
      then RB_ROTATE_LEFT (RNode RB_RED (nleft tmp) (nelem tmp) (paint RB_BLACK (nright tmp)))
      else Inr tmp)"

function RB_REMOVE_COLOR :: "'a rbt \<Rightarrow> 'a frame list \<Rightarrow> 'a rbt res" where
  "RB_REMOVE_COLOR elm [] = Inr (paint RB_BLACK elm)"
| "RB_REMOVE_COLOR elm (InLeft pc px tmp # path) =
     (if is_red elm then Inr (up (paint RB_BLACK elm) (InLeft pc px tmp # path))
      else if tmp = RNil then Inl (Segv 0)
      else case sibling_left pc px tmp path of (pc, tmp, path) \<Rightarrow>
        if tmp = RNil then Inl (Segv 0)
        else if black_child (nleft tmp) \<and> black_child (nright tmp)
        then RB_REMOVE_COLOR (RNode pc elm px (paint RB_RED tmp)) path
        else bindR (near_left tmp) (\<lambda>tmp.
             bindR (RB_ROTATE_LEFT (RNode RB_BLACK elm px
                 (RNode pc (nleft tmp) (nelem tmp) (paint RB_BLACK (nright tmp))))) (\<lambda>t.
             Inr (paint RB_BLACK (up t path)))))"
| "RB_REMOVE_COLOR elm (InRight pc tmp px # path) =
     (if is_red elm then Inr (up (paint RB_BLACK elm) (InRight pc tmp px # path))
      else if tmp = RNil then Inl (Segv 0)
      else case sibling_right pc px tmp path of (pc, tmp, path) \<Rightarrow>
        if tmp = RNil then Inl (Segv 0)
        else if black_child (nleft tmp) \<and> black_child (nright tmp)
        then RB_REMOVE_COLOR (RNode pc (paint RB_RED tmp) px elm) path
        else bindR (near_right tmp) (\<lambda>tmp.
             bindR (RB_ROTATE_RIGHT (RNode RB_BLACK
                 (RNode pc (paint RB_BLACK (nleft tmp)) (nelem tmp) (nright tmp)) px elm)) (\<lambda>t.
             Inr (paint RB_BLACK (up t path)))))"
  by pat_completeness auto

text \<open>
  Each round goes one step up; after the rotation that replaces a red sibling the parent in focus
  next is red, and the loop ends.
\<close>

lemma sibling_left_cases:
  "sibling_left pc px tmp path = (pc', tmp', path') \<Longrightarrow>
     path' = path \<and> pc' = pc \<and> tmp' = tmp \<and> \<not> is_red tmp \<or> length path' = Suc (length path) \<and> pc' = RB_RED"
  by (cases "(pc, px, tmp, path)" rule: sibling_left.cases) auto

lemma sibling_right_cases:
  "sibling_right pc px tmp path = (pc', tmp', path') \<Longrightarrow>
     path' = path \<and> pc' = pc \<and> tmp' = tmp \<and> \<not> is_red tmp \<or> length path' = Suc (length path) \<and> pc' = RB_RED"
  by (cases "(pc, px, tmp, path)" rule: sibling_right.cases) auto

termination RB_REMOVE_COLOR
  by (relation "measure (\<lambda>(elm, path). 2 * length path + (if is_red elm then 0 else 1))")
    (auto dest!: sibling_left_cases [OF sym] sibling_right_cases [OF sym])

text \<open>
  RB_REMOVE of the node in focus.  A node with two children is replaced by its successor, the
  leftmost node of its right subtree, which takes over its color and links.
\<close>

fun leftmost :: "'a rbt \<Rightarrow> 'a frame list \<Rightarrow> 'a rb_node" where
  "leftmost (RNode c (RNode c' l' x' r') x r) path = leftmost (RNode c' l' x' r') (InLeft c x r # path)"
| "leftmost t path = (t, path)"

definition rb_splice :: "color \<Rightarrow> 'a rbt \<Rightarrow> 'a frame list \<Rightarrow> 'a rbt res" where
  "rb_splice color child path =
     (if color = RB_BLACK then RB_REMOVE_COLOR child path else Inr (up child path))"

fun RB_REMOVE :: "'a rb_node \<Rightarrow> 'a rbt res" where
  "RB_REMOVE (RNil, path) = Inl (Segv 0)"
| "RB_REMOVE (RNode c l x r, path) =
     (if l = RNil then rb_splice c r path
      else if r = RNil then rb_splice c l path
      else case leftmost r [] of
        (RNode sc sl sx sr, inner) \<Rightarrow> rb_splice sc sr (inner @ InRight c l sx # path)
      | (RNil, _) \<Rightarrow> Inl (Segv 0))"

section \<open>Searches\<close>

definition node_elem :: "'a rb_node \<Rightarrow> 'a" where
  "node_elem n = nelem (fst n)"

definition RB_FIND :: "('a \<Rightarrow> 'a \<Rightarrow> int) \<Rightarrow> 'a rbt \<Rightarrow> 'a \<Rightarrow> 'a rb_node option" where
  "RB_FIND cmp root elm =
     (let n = rb_descend cmp elm root [] in if fst n = RNil then None else Some n)"

fun rb_nfind :: "('a \<Rightarrow> 'a \<Rightarrow> int) \<Rightarrow> 'a \<Rightarrow> 'a rbt \<Rightarrow> 'a frame list \<Rightarrow> 'a rb_node option \<Rightarrow> 'a rb_node option" where
  "rb_nfind cmp elm RNil path res = res"
| "rb_nfind cmp elm (RNode c l x r) path res =
     (let comp = cmp elm x in
      if comp < 0 then rb_nfind cmp elm l (InLeft c x r # path) (Some (RNode c l x r, path))
      else if comp > 0 then rb_nfind cmp elm r (InRight c l x # path) res
      else Some (RNode c l x r, path))"

definition RB_NFIND :: "('a \<Rightarrow> 'a \<Rightarrow> int) \<Rightarrow> 'a rbt \<Rightarrow> 'a \<Rightarrow> 'a rb_node option" where
  "RB_NFIND cmp root elm = rb_nfind cmp elm root [] None"

text \<open>The climbs of RB_NEXT and RB_PREV: up while the node is a right (left) child, then once more.\<close>

fun climb_next :: "'a rbt \<Rightarrow> 'a frame list \<Rightarrow> 'a rb_node option" where
  "climb_next t [] = None"
| "climb_next t (InRight c s x # path) = climb_next (RNode c s x t) path"
| "climb_next t (InLeft c x s # path) = Some (RNode c t x s, path)"

fun climb_prev :: "'a rbt \<Rightarrow> 'a frame list \<Rightarrow> 'a rb_node option" where
  "climb_prev t [] = None"
| "climb_prev t (InLeft c x s # path) = climb_prev (RNode c t x s) path"
| "climb_prev t (InRight c s x # path) = Some (RNode c s x t, path)"

fun rightmost :: "'a rbt \<Rightarrow> 'a frame list \<Rightarrow> 'a rb_node" where
  "rightmost (RNode c l x (RNode c' l' x' r')) path = rightmost (RNode c' l' x' r') (InRight c l x # path)"
| "rightmost t path = (t, path)"

fun RB_NEXT :: "'a rb_node \<Rightarrow> 'a rb_node option" where
  "RB_NEXT (RNil, path) = None"
| "RB_NEXT (RNode c l x r, path) =
     (if r \<noteq> RNil then Some (leftmost r (InRight c l x # path))
      else climb_next (RNode c l x r) path)"

fun RB_PREV :: "'a rb_node \<Rightarrow> 'a rb_node option" where
  "RB_PREV (RNil, path) = None"
| "RB_PREV (RNode c l x r, path) =
     (if l \<noteq> RNil then Some (rightmost l (InLeft c x r # path))
      else climb_prev (RNode c l x r) path)"

definition RB_MINMAX :: "'a rbt \<Rightarrow> int \<Rightarrow> 'a rb_node option" where
  "RB_MINMAX root val =
     (if root = RNil then None
      else if val < 0 then Some (leftmost root []) else Some (rightmost root []))"

partial_function (option) rb_foreach_from :: "('a \<Rightarrow> 's \<Rightarrow> 's) \<Rightarrow> 'a rb_node option \<Rightarrow> 's \<Rightarrow> 's option" where
  "rb_foreach_from f n s =
     (case n of None \<Rightarrow> Some s
      | Some n \<Rightarrow> rb_foreach_from f (RB_NEXT n) (f (node_elem n) s))"

definition RB_FOREACH :: "('a \<Rightarrow> 's \<Rightarrow> 's) \<Rightarrow> 'a rbt \<Rightarrow> 's \<Rightarrow> 's option" where
  "RB_FOREACH f root s = rb_foreach_from f (RB_MINMAX root (-1)) s"

partial_function (option) rb_foreach_reverse_from :: "('a \<Rightarrow> 's \<Rightarrow> 's) \<Rightarrow> 'a rb_node option \<Rightarrow> 's \<Rightarrow> 's option" where
  "rb_foreach_reverse_from f n s =
     (case n of None \<Rightarrow> Some s
      | Some n \<Rightarrow> rb_foreach_reverse_from f (RB_PREV n) (f (node_elem n) s))"

definition RB_FOREACH_REVERSE :: "('a \<Rightarrow> 's \<Rightarrow> 's) \<Rightarrow> 'a rbt \<Rightarrow> 's \<Rightarrow> 's option" where
  "RB_FOREACH_REVERSE f root s = rb_foreach_reverse_from f (RB_MINMAX root 1) s"

text \<open>
  The SAFE loops read the next node before their body, which may unlink and free the current one.
  The body changes the tree, and with it the paths to the nodes, so the loop variable is the element
  of the node, which the code's pointer stands for, and the node is looked up in the current tree; a
  node that is no longer in it has been freed.
\<close>

fun rb_node_at :: "'a \<Rightarrow> 'a rbt \<Rightarrow> 'a frame list \<Rightarrow> 'a rb_node option" where
  "rb_node_at e RNil path = None"
| "rb_node_at e (RNode c l x r) path =
     (if x = e then Some (RNode c l x r, path)
      else case rb_node_at e l (InLeft c x r # path) of
             Some n \<Rightarrow> Some n
           | None \<Rightarrow> rb_node_at e r (InRight c l x # path))"

partial_function (option) rb_foreach_safe_from ::
  "('a rb_node \<Rightarrow> 'a rb_node option) \<Rightarrow> ('a \<Rightarrow> 'a rbt \<times> 's \<Rightarrow> ('a rbt \<times> 's) res) \<Rightarrow> 'a option \<Rightarrow> 'a rbt \<times> 's \<Rightarrow>
    ('a rbt \<times> 's) res option" where
  "rb_foreach_safe_from succ f x s =
     (case x of None \<Rightarrow> Some (Inr s)
      | Some x \<Rightarrow>
          (case rb_node_at x (fst s) [] of
             None \<Rightarrow> Some (Inl (Undefined ''use of a freed node''))
           | Some n \<Rightarrow>
               (case f x s of
                  Inl e \<Rightarrow> Some (Inl e)
                | Inr s' \<Rightarrow> rb_foreach_safe_from succ f (map_option node_elem (succ n)) s')))"

definition RB_FOREACH_SAFE :: "('a \<Rightarrow> 'a rbt \<times> 's \<Rightarrow> ('a rbt \<times> 's) res) \<Rightarrow> 'a rbt \<times> 's \<Rightarrow> ('a rbt \<times> 's) res option" where
  "RB_FOREACH_SAFE f s = rb_foreach_safe_from RB_NEXT f (map_option node_elem (RB_MINMAX (fst s) (-1))) s"

definition RB_FOREACH_REVERSE_SAFE ::
  "('a \<Rightarrow> 'a rbt \<times> 's \<Rightarrow> ('a rbt \<times> 's) res) \<Rightarrow> 'a rbt \<times> 's \<Rightarrow> ('a rbt \<times> 's) res option" where
  "RB_FOREACH_REVERSE_SAFE f s = rb_foreach_safe_from RB_PREV f (map_option node_elem (RB_MINMAX (fst s) 1)) s"

section \<open>The elements in order\<close>

fun inorder :: "'a rbt \<Rightarrow> 'a list" where
  "inorder RNil = []"
| "inorder (RNode c l x r) = inorder l @ x # inorder r"

fun before :: "'a frame list \<Rightarrow> 'a list" where
  "before [] = []"
| "before (InLeft c x s # p) = before p"
| "before (InRight c s x # p) = before p @ inorder s @ [x]"

fun after :: "'a frame list \<Rightarrow> 'a list" where
  "after [] = []"
| "after (InLeft c x s # p) = x # inorder s @ after p"
| "after (InRight c s x # p) = after p"

lemma inorder_up [simp]: "inorder (up t p) = before p @ inorder t @ after p"
proof (induction p arbitrary: t)
  case (Cons f p)
  then show ?case by (cases f) simp_all
qed simp

lemma inorder_paint [simp]: "inorder (paint c t) = inorder t"
  by (cases t) auto

lemma inorder_empty [simp]: "inorder t = [] \<longleftrightarrow> t = RNil"
  by (cases t) auto

section \<open>The red-black invariant\<close>

text \<open>
  \<^verbatim>\<open>rbn n t\<close>: every path of \<^verbatim>\<open>t\<close> has \<^verbatim>\<open>n\<close> black nodes and no red node has a red child.
  \<^verbatim>\<open>pok n red p\<close>: the path \<^verbatim>\<open>p\<close> completes such a subtree, whose root may be red when \<^verbatim>\<open>red\<close>, to
  a tree with a black root.
\<close>

fun rbn :: "nat \<Rightarrow> 'a rbt \<Rightarrow> bool" where
  "rbn n RNil \<longleftrightarrow> n = 0"
| "rbn n (RNode RB_BLACK l x r) \<longleftrightarrow> 0 < n \<and> rbn (n - 1) l \<and> rbn (n - 1) r"
| "rbn n (RNode RB_RED l x r) \<longleftrightarrow> rbn n l \<and> rbn n r \<and> \<not> is_red l \<and> \<not> is_red r"

definition rb_inv :: "'a rbt \<Rightarrow> bool" where
  "rb_inv t \<longleftrightarrow> (\<exists>n. rbn n t) \<and> \<not> is_red t"

fun pok :: "nat \<Rightarrow> bool \<Rightarrow> 'a frame list \<Rightarrow> bool" where
  "pok n red [] \<longleftrightarrow> \<not> red"
| "pok n red (InLeft RB_RED x s # p) \<longleftrightarrow> \<not> red \<and> rbn n s \<and> \<not> is_red s \<and> pok n True p"
| "pok n red (InLeft RB_BLACK x s # p) \<longleftrightarrow> rbn n s \<and> pok (Suc n) False p"
| "pok n red (InRight RB_RED s x # p) \<longleftrightarrow> \<not> red \<and> rbn n s \<and> \<not> is_red s \<and> pok n True p"
| "pok n red (InRight RB_BLACK s x # p) \<longleftrightarrow> rbn n s \<and> pok (Suc n) False p"

lemma pok_weaken: "pok n True p \<Longrightarrow> pok n False p"
  by (cases "(n, True, p)" rule: pok.cases) auto

lemma paint_simps [simp]: "is_red (paint RB_BLACK t) = False" "paint c t = RNil \<longleftrightarrow> t = RNil"
  "t \<noteq> RNil \<Longrightarrow> is_red (paint RB_RED t)"
  by (cases t; auto)+

lemma rbn_paint_black_red: "rbn n t \<Longrightarrow> is_red t \<Longrightarrow> rbn (Suc n) (paint RB_BLACK t)"
  by (cases "(n, t)" rule: rbn.cases) auto

lemma paint_black_id: "\<not> is_red t \<Longrightarrow> paint RB_BLACK t = t"
  by (cases t; cases "ncolor t") auto

lemma rbn_paint_black: "rbn n t \<Longrightarrow> \<exists>m. rbn m (paint RB_BLACK t)"
  using rbn_paint_black_red paint_black_id by metis

lemma up_inv: "rbn n t \<Longrightarrow> pok n (is_red t) p \<Longrightarrow> rb_inv (up t p)"
proof (induction p arbitrary: n t)
  case Nil
  then show ?case by (auto simp: rb_inv_def)
next
  case (Cons f p)
  show ?case
  proof (cases f)
    case (InLeft c x s)
    then show ?thesis using Cons.prems Cons.IH [of n "RNode c t x s"] Cons.IH [of "Suc n" "RNode c t x s"]
      by (cases c) auto
  next
    case (InRight c s x)
    then show ?thesis using Cons.prems Cons.IH [of n "RNode c s x t"] Cons.IH [of "Suc n" "RNode c s x t"]
      by (cases c) auto
  qed
qed

lemma inv_up: "rb_inv (up t p) \<Longrightarrow> \<exists>n. rbn n t \<and> pok n (is_red t) p"
proof (induction p arbitrary: t)
  case Nil
  then show ?case by (auto simp: rb_inv_def)
next
  case (Cons f p)
  then obtain n where n: "rbn n (plug t f)" "pok n (is_red (plug t f)) p" by fastforce
  show ?case
  proof (cases f)
    case (InLeft c x s)
    then show ?thesis using n by (cases c; cases n) auto
  next
    case (InRight c s x)
    then show ?thesis using n by (cases c; cases n) auto
  qed
qed

lemma inv_paint: "rb_inv t \<Longrightarrow> rb_inv (paint RB_BLACK t)"
  by (simp add: rb_inv_def paint_black_id)

lemma paint_black_inv: "rbn n t \<Longrightarrow> rb_inv (paint RB_BLACK t)"
  using rbn_paint_black by (auto simp: rb_inv_def)

lemma is_red_iff: "is_red t \<longleftrightarrow> (\<exists>l x r. t = RNode RB_RED l x r)"
  by (cases t) auto

lemma black_iff: "\<not> is_red t \<longleftrightarrow> t = RNil \<or> (\<exists>l x r. t = RNode RB_BLACK l x r)"
  by (cases t) (auto, metis color.exhaust)

lemma insert_color_ok:
  "rbn n elm \<Longrightarrow> is_red elm \<Longrightarrow> pok n False path \<Longrightarrow>
     \<exists>t. RB_INSERT_COLOR elm path = Inr t \<and> rb_inv t \<and> inorder t = before path @ inorder elm @ after path"
proof (induction elm path arbitrary: n rule: RB_INSERT_COLOR.induct)
  case (1 elm)
  then show ?case by (simp add: paint_black_inv)
next
  case (2 elm p path)
  show ?case
  proof (cases "frame_color p")
    case RB_BLACK
    then have "pok n (is_red elm) (p # path)" using 2(4,5) by (cases p) auto
    then have "rb_inv (up elm (p # path))" using 2(3) up_inv by blast
    then show ?thesis using RB_BLACK by (simp only: RB_INSERT_COLOR.simps if_True) (auto intro: inv_paint simp del: up.simps)
  next
    case RB_RED
    then have p: "pok n True path" using 2(5) by (cases p) auto
    then obtain g path' where path: "path = g # path'" by (cases path) auto
    show ?thesis
    proof (cases g)
      case (InLeft gc gx tmp)
      then have gc: "gc = RB_BLACK" "rbn n tmp" "pok (Suc n) False path'" using p path by (cases gc; auto)+
      show ?thesis
      proof (cases "is_red tmp")
        case True
        let ?e = "RNode RB_RED (paint RB_BLACK (plug elm p)) gx (paint RB_BLACK tmp)"
        have "rbn (Suc n) ?e" using 2(3,5) RB_RED gc(2) True rbn_paint_black_red [of n tmp]
          by (cases p) auto
        then have "\<exists>t. RB_INSERT_COLOR ?e path' = Inr t \<and> rb_inv t \<and> inorder t = before path' @ inorder ?e @ after path'"
          using 2(1) [OF _ path InLeft True, of "Suc n"] RB_RED gc by simp
        then show ?thesis using RB_RED path InLeft True by (cases p) auto
      next
        case False
        show ?thesis
        proof (cases p)
          case p: (InLeft pc px ps)
          let ?t = "RNode RB_BLACK elm px (RNode RB_RED ps gx tmp)"
          have "rbn (Suc n) ?t" using 2(3,5) RB_RED gc False p by simp
          then have "rb_inv (paint RB_BLACK (up ?t path'))" using up_inv [of "Suc n" ?t path'] gc(3) inv_paint by simp
          then show ?thesis using RB_RED path InLeft False p by simp
        next
          case p: (InRight pc ps px)
          from 2(4) obtain a x b where elm: "elm = RNode RB_RED a x b" by (auto simp: is_red_iff)
          let ?t = "RNode RB_BLACK (RNode RB_RED ps px a) x (RNode RB_RED b gx tmp)"
          have "rbn (Suc n) ?t" using 2(3,5) RB_RED gc False p elm by simp
          then have "rb_inv (paint RB_BLACK (up ?t path'))" using up_inv [of "Suc n" ?t path'] gc(3) inv_paint by simp
          then show ?thesis using RB_RED path InLeft False p elm by simp
        qed
      qed
    next
      case (InRight gc tmp gx)
      then have gc: "gc = RB_BLACK" "rbn n tmp" "pok (Suc n) False path'" using p path by (cases gc; auto)+
      show ?thesis
      proof (cases "is_red tmp")
        case True
        let ?e = "RNode RB_RED (paint RB_BLACK tmp) gx (paint RB_BLACK (plug elm p))"
        have "rbn (Suc n) ?e" using 2(3,5) RB_RED gc(2) True rbn_paint_black_red [of n tmp]
          by (cases p) auto
        then have "\<exists>t. RB_INSERT_COLOR ?e path' = Inr t \<and> rb_inv t \<and> inorder t = before path' @ inorder ?e @ after path'"
          using 2(2) [OF _ path InRight True, of "Suc n"] RB_RED gc by simp
        then show ?thesis using RB_RED path InRight True by (cases p) auto
      next
        case False
        show ?thesis
        proof (cases p)
          case p: (InRight pc ps px)
          let ?t = "RNode RB_BLACK (RNode RB_RED tmp gx ps) px elm"
          have "rbn (Suc n) ?t" using 2(3,5) RB_RED gc False p by simp
          then have "rb_inv (paint RB_BLACK (up ?t path'))" using up_inv [of "Suc n" ?t path'] gc(3) inv_paint by simp
          then show ?thesis using RB_RED path InRight False p by simp
        next
          case p: (InLeft pc px ps)
          from 2(4) obtain a x b where elm: "elm = RNode RB_RED a x b" by (auto simp: is_red_iff)
          let ?t = "RNode RB_BLACK (RNode RB_RED tmp gx a) x (RNode RB_RED b px ps)"
          have "rbn (Suc n) ?t" using 2(3,5) RB_RED gc False p elm by simp
          then have "rb_inv (paint RB_BLACK (up ?t path'))" using up_inv [of "Suc n" ?t path'] gc(3) inv_paint by simp
          then show ?thesis using RB_RED path InRight False p elm by simp
        qed
      qed
    qed
  qed
qed

text \<open>The last step of RB_REMOVE_COLOR on either side, for a black sibling with a red child.\<close>

lemma fix_left:
  assumes "rbn n elm" "\<not> is_red elm" "rbn (Suc n) tmp" "\<not> is_red tmp"
    and "\<not> (black_child (nleft tmp) \<and> black_child (nright tmp))"
  shows "\<exists>tmp' t. near_left tmp = Inr tmp' \<and>
    RB_ROTATE_LEFT (RNode RB_BLACK elm px (RNode pc (nleft tmp') (nelem tmp') (paint RB_BLACK (nright tmp')))) = Inr t \<and>
    rbn (if pc = RB_RED then Suc n else Suc (Suc n)) t \<and> (is_red t \<longleftrightarrow> pc = RB_RED) \<and>
    inorder t = inorder elm @ px # inorder tmp"
proof -
  from assms(3,4) obtain a x b where tmp: "tmp = RNode RB_BLACK a x b" "rbn n a" "rbn n b"
    by (auto simp: black_iff)
  show ?thesis
  proof (cases "is_red b")
    case True
    with tmp assms show ?thesis by (cases pc) (auto simp: near_left_def black_child_def rbn_paint_black_red)
  next
    case False
    with assms(5) tmp obtain c y d where a: "a = RNode RB_RED c y d" by (auto simp: black_child_def is_red_iff)
    with tmp assms False show ?thesis by (cases pc) (auto simp: near_left_def black_child_def)
  qed
qed

lemma fix_right:
  assumes "rbn n elm" "\<not> is_red elm" "rbn (Suc n) tmp" "\<not> is_red tmp"
    and "\<not> (black_child (nleft tmp) \<and> black_child (nright tmp))"
  shows "\<exists>tmp' t. near_right tmp = Inr tmp' \<and>
    RB_ROTATE_RIGHT (RNode RB_BLACK (RNode pc (paint RB_BLACK (nleft tmp')) (nelem tmp') (nright tmp')) px elm) = Inr t \<and>
    rbn (if pc = RB_RED then Suc n else Suc (Suc n)) t \<and> (is_red t \<longleftrightarrow> pc = RB_RED) \<and>
    inorder t = inorder tmp @ px # inorder elm"
proof -
  from assms(3,4) obtain a x b where tmp: "tmp = RNode RB_BLACK a x b" "rbn n a" "rbn n b"
    by (auto simp: black_iff)
  show ?thesis
  proof (cases "is_red a")
    case True
    with tmp assms show ?thesis by (cases pc) (auto simp: near_right_def black_child_def rbn_paint_black_red)
  next
    case False
    with assms(5) tmp obtain c y d where b: "b = RNode RB_RED c y d" by (auto simp: black_child_def is_red_iff)
    with tmp assms False show ?thesis by (cases pc) (auto simp: near_right_def black_child_def)
  qed
qed

text \<open>The step that replaces a red sibling.\<close>

lemma sibling_left_ok:
  assumes "pok (Suc n) False (InLeft pc px tmp # path)" and "sibling_left pc px tmp path = (pc', tmp', path')"
  shows "pok (Suc n) False (InLeft pc' px tmp' # path')" "rbn (Suc n) tmp'" "\<not> is_red tmp'"
    "before path' = before path" "inorder tmp' @ after path' = inorder tmp @ after path"
  using assms by (cases "(pc, px, tmp, path)" rule: sibling_left.cases; cases pc; auto)+

lemma sibling_right_ok:
  assumes "pok (Suc n) False (InRight pc tmp px # path)" and "sibling_right pc px tmp path = (pc', tmp', path')"
  shows "pok (Suc n) False (InRight pc' tmp' px # path')" "rbn (Suc n) tmp'" "\<not> is_red tmp'"
    "before path' @ inorder tmp' = before path @ inorder tmp" "after path' = after path"
  using assms by (cases "(pc, px, tmp, path)" rule: sibling_right.cases; cases pc; auto)+

definition lacks :: "nat \<Rightarrow> 'a rbt \<Rightarrow> bool" where
  "lacks n elm \<longleftrightarrow> (if is_red elm then rbn (Suc n) (paint RB_BLACK elm) else rbn n elm)"

lemma pok_tail:
  "pok (Suc n) False (InLeft pc px tmp # path) \<Longrightarrow> pok (if pc = RB_RED then Suc n else Suc (Suc n)) (pc = RB_RED) path"
  "pok (Suc n) False (InRight pc tmp px # path) \<Longrightarrow> pok (if pc = RB_RED then Suc n else Suc (Suc n)) (pc = RB_RED) path"
  by (cases pc; simp)+

lemma lacks_up:
  assumes "rbn n elm" "\<not> is_red elm" "rbn (Suc n) tmp" "\<not> is_red tmp"
    and "black_child (nleft tmp)" "black_child (nright tmp)"
  shows "lacks (if pc = RB_RED then n else Suc n) (RNode pc elm px (paint RB_RED tmp))"
    and "lacks (if pc = RB_RED then n else Suc n) (RNode pc (paint RB_RED tmp) px elm)"
proof -
  from assms(3,4) obtain a x b where "tmp = RNode RB_BLACK a x b" "rbn n a" "rbn n b"
    by (auto simp: black_iff)
  with assms show "lacks (if pc = RB_RED then n else Suc n) (RNode pc elm px (paint RB_RED tmp))"
    and "lacks (if pc = RB_RED then n else Suc n) (RNode pc (paint RB_RED tmp) px elm)"
    by (cases pc; simp add: lacks_def black_child_def)+
qed

lemma remove_color_ok:
  "lacks n elm \<Longrightarrow> pok (Suc n) False path \<Longrightarrow>
     \<exists>t. RB_REMOVE_COLOR elm path = Inr t \<and> rb_inv t \<and> inorder t = before path @ inorder elm @ after path"
proof (induction elm path arbitrary: n rule: RB_REMOVE_COLOR.induct)
  case (1 elm)
  have "rb_inv (paint RB_BLACK elm)"
    using 1 by (cases "is_red elm") (auto simp: lacks_def rb_inv_def paint_black_id)
  then show ?case by simp
next
  case (2 elm pc px tmp path)
  show ?case
  proof (cases "is_red elm")
    case True
    then have "rb_inv (up (paint RB_BLACK elm) (InLeft pc px tmp # path))"
      using 2(2,3) up_inv [of "Suc n" "paint RB_BLACK elm"] by (simp add: lacks_def del: up.simps)
    then show ?thesis using True by simp
  next
    case black: False
    obtain pc' tmp' path' where s: "sibling_left pc px tmp path = (pc', tmp', path')" by (metis prod_cases3)
    note ok = sibling_left_ok [OF 2(3) s]
    have nil: "tmp \<noteq> RNil" "tmp' \<noteq> RNil" using 2(3) ok(2) by (cases pc; auto)+
    have elm: "rbn n elm" using 2(2) black by (simp add: lacks_def)
    note tail = pok_tail(1) [OF ok(1)]
    show ?thesis
    proof (cases "black_child (nleft tmp') \<and> black_child (nright tmp')")
      case True
      let ?e = "RNode pc' elm px (paint RB_RED tmp')"
      have l: "lacks (if pc' = RB_RED then n else Suc n) ?e"
        using lacks_up(1) [OF elm black ok(2,3)] True by blast
      have "pok (Suc (if pc' = RB_RED then n else Suc n)) False path'"
        using tail by (cases pc') (auto dest: pok_weaken)
      from 2(1) [OF black nil(1) s [symmetric] refl nil(2) True l this]
      show ?thesis using black nil s True ok(4,5) by simp
    next
      case False
      from fix_left [OF elm black ok(2,3) False, of px pc'] obtain tmp'' t where
        t: "near_left tmp' = Inr tmp''"
          "RB_ROTATE_LEFT (RNode RB_BLACK elm px (RNode pc' (nleft tmp'') (nelem tmp'') (paint RB_BLACK (nright tmp'')))) = Inr t"
          "rbn (if pc' = RB_RED then Suc n else Suc (Suc n)) t" "is_red t \<longleftrightarrow> pc' = RB_RED"
          "inorder t = inorder elm @ px # inorder tmp'" by blast
      have "rb_inv (up t path')" using up_inv [OF t(3)] tail t(4) by simp
      then have "rb_inv (paint RB_BLACK (up t path'))" by (rule inv_paint)
      then show ?thesis using black nil s False t ok(4,5) by (auto simp del: RB_ROTATE_LEFT.simps)
    qed
  qed
next
  case (3 elm pc tmp px path)
  show ?case
  proof (cases "is_red elm")
    case True
    then have "rb_inv (up (paint RB_BLACK elm) (InRight pc tmp px # path))"
      using 3(2,3) up_inv [of "Suc n" "paint RB_BLACK elm"] by (simp add: lacks_def del: up.simps)
    then show ?thesis using True by simp
  next
    case black: False
    obtain pc' tmp' path' where s: "sibling_right pc px tmp path = (pc', tmp', path')" by (metis prod_cases3)
    note ok = sibling_right_ok [OF 3(3) s]
    have nil: "tmp \<noteq> RNil" "tmp' \<noteq> RNil" using 3(3) ok(2) by (cases pc; auto)+
    have elm: "rbn n elm" using 3(2) black by (simp add: lacks_def)
    note tail = pok_tail(2) [OF ok(1)]
    show ?thesis
    proof (cases "black_child (nleft tmp') \<and> black_child (nright tmp')")
      case True
      let ?e = "RNode pc' (paint RB_RED tmp') px elm"
      have l: "lacks (if pc' = RB_RED then n else Suc n) ?e"
        using lacks_up(2) [OF elm black ok(2,3)] True by blast
      have "pok (Suc (if pc' = RB_RED then n else Suc n)) False path'"
        using tail by (cases pc') (auto dest: pok_weaken)
      from 3(1) [OF black nil(1) s [symmetric] refl nil(2) True l this]
      have "\<exists>t. RB_REMOVE_COLOR ?e path' = Inr t \<and> rb_inv t \<and>
        inorder t = (before path' @ inorder tmp') @ px # inorder elm @ after path'" by simp
      then show ?thesis unfolding ok(4,5) using black nil s True by simp
    next
      case False
      from fix_right [OF elm black ok(2,3) False, of pc' px] obtain tmp'' t where
        t: "near_right tmp' = Inr tmp''"
          "RB_ROTATE_RIGHT (RNode RB_BLACK (RNode pc' (paint RB_BLACK (nleft tmp'')) (nelem tmp'') (nright tmp'')) px elm) = Inr t"
          "rbn (if pc' = RB_RED then Suc n else Suc (Suc n)) t" "is_red t \<longleftrightarrow> pc' = RB_RED"
          "inorder t = inorder tmp' @ px # inorder elm" by blast
      have "rb_inv (up t path')" using up_inv [OF t(3)] tail t(4) by simp
      then have "rb_inv (paint RB_BLACK (up t path'))" by (rule inv_paint)
      moreover have "inorder (paint RB_BLACK (up t path')) = (before path' @ inorder tmp') @ px # inorder elm @ after path'"
        using t(5) by simp
      ultimately show ?thesis unfolding ok(4,5) using black nil s False t by (auto simp del: RB_ROTATE_RIGHT.simps)
    qed
  qed
qed

section \<open>Removal of a node\<close>

lemma up_append: "up t (p @ q) = up (up t p) q"
  by (induction p arbitrary: t) auto

lemma before_append [simp]: "before (p @ q) = before q @ before p"
proof (induction p)
  case (Cons f p)
  then show ?case by (cases f) auto
qed simp

lemma after_append [simp]: "after (p @ q) = after p @ after q"
proof (induction p)
  case (Cons f p)
  then show ?case by (cases f) auto
qed simp

lemma leftmost_ok:
  "t \<noteq> RNil \<Longrightarrow> \<exists>c x r p. leftmost t path = (RNode c RNil x r, p) \<and> up (RNode c RNil x r) p = up t path \<and> before p = before path"
  by (induction t path rule: leftmost.induct) auto

lemma leftmost_append: "leftmost t (p @ q) = (case leftmost t p of (n, p') \<Rightarrow> (n, p' @ q))"
proof (induction t p rule: leftmost.induct)
  case (1 c c' l' x' r' x r path)
  then show ?case by simp
qed auto

lemma rightmost_ok:
  "t \<noteq> RNil \<Longrightarrow> \<exists>c l x p. rightmost t path = (RNode c l x RNil, p) \<and> up (RNode c l x RNil) p = up t path \<and> after p = after path"
  by (induction t path rule: rightmost.induct) auto

lemma splice_ok:
  assumes "rb_inv (up (RNode c l x r) path)" and "l = RNil \<and> child = r \<or> r = RNil \<and> child = l"
  shows "\<exists>t. rb_splice c child path = Inr t \<and> rb_inv t \<and> inorder t = before path @ inorder l @ inorder r @ after path"
proof -
  from inv_up [OF assms(1)] obtain n where n: "rbn n (RNode c l x r)" "pok n (c = RB_RED) path" by auto
  have i: "inorder child = inorder l @ inorder r" using assms(2) by auto
  show ?thesis
  proof (cases c)
    case RB_BLACK
    then obtain m where m: "n = Suc m" "rbn m child" using n(1) assms(2) by (cases n) auto
    have "lacks m child" using m(2) rbn_paint_black_red by (auto simp: lacks_def)
    from remove_color_ok [OF this] n(2) m(1) RB_BLACK i show ?thesis by (simp add: rb_splice_def)
  next
    case RB_RED
    then have "rbn n child" "\<not> is_red child" using n(1) assms(2) by auto
    with n(2) RB_RED have "rb_inv (up child path)" by (intro up_inv) (auto intro: pok_weaken)
    with RB_RED i show ?thesis by (simp add: rb_splice_def)
  qed
qed

lemma rbn_replace_elem: "rbn n (RNode c l x r) = rbn n (RNode c l y r)"
  by (cases c) auto

lemma RB_REMOVE_ok:
  assumes "rb_inv (up (RNode c l x r) path)"
  shows "\<exists>t. RB_REMOVE (RNode c l x r, path) = Inr t \<and> rb_inv t \<and>
    inorder t = before path @ inorder l @ inorder r @ after path"
proof (cases "l = RNil \<or> r = RNil")
  case True
  then show ?thesis using splice_ok [OF assms, of r] splice_ok [OF assms, of l] by auto
next
  case False
  then obtain sc sx sr inner where
    lm: "leftmost r [] = (RNode sc RNil sx sr, inner)" "up (RNode sc RNil sx sr) inner = r" "before inner = []"
    using leftmost_ok [of r "[]"] by auto
  have ir: "inorder r = sx # inorder sr @ after inner"
    using inorder_up [of "RNode sc RNil sx sr" inner] by (simp add: lm(2,3))
  have "rb_inv (up (RNode c l sx r) path)"
  proof -
    from inv_up [OF assms] obtain n where "rbn n (RNode c l x r)" "pok n (c = RB_RED) path" by auto
    then show ?thesis using up_inv [of n "RNode c l sx r" path] rbn_replace_elem [of n c l x r sx] by simp
  qed
  then have "rb_inv (up (RNode sc RNil sx sr) (inner @ InRight c l sx # path))"
    by (simp add: up_append lm(2))
  from splice_ok [OF this, of sr] have
    "\<exists>t. rb_splice sc sr (inner @ InRight c l sx # path) = Inr t \<and> rb_inv t \<and>
       inorder t = before path @ inorder l @ inorder r @ after path"
    using lm(3) ir by simp
  then show ?thesis using False lm(1) by simp
qed

section \<open>Successor and predecessor\<close>

lemma climb_next_ok:
  "(after path = [] \<longrightarrow> climb_next t path = None) \<and>
   (\<forall>x xs. after path = x # xs \<longrightarrow> (\<exists>c l r p. climb_next t path = Some (RNode c l x r, p) \<and>
      up (RNode c l x r) p = up t path \<and> before p @ inorder l = before path @ inorder t))"
  by (induction t path rule: climb_next.induct) auto

lemma climb_prev_ok:
  "(before path = [] \<longrightarrow> climb_prev t path = None) \<and>
   (\<forall>x xs. before path = xs @ [x] \<longrightarrow> (\<exists>c l r p. climb_prev t path = Some (RNode c l x r, p) \<and>
      up (RNode c l x r) p = up t path \<and> inorder r @ after p = inorder t @ after path))"
  by (induction t path rule: climb_prev.induct) auto

text \<open>What precedes and follows a node, in the tree it is in.\<close>

fun nbefore :: "'a rb_node \<Rightarrow> 'a list" where
  "nbefore (t, p) = before p @ (case t of RNil \<Rightarrow> [] | RNode c l x r \<Rightarrow> inorder l)"

fun nafter :: "'a rb_node \<Rightarrow> 'a list" where
  "nafter (t, p) = (case t of RNil \<Rightarrow> [] | RNode c l x r \<Rightarrow> inorder r) @ after p"

definition node_in :: "'a rb_node \<Rightarrow> 'a rbt \<Rightarrow> bool" where
  "node_in n t \<longleftrightarrow> fst n \<noteq> RNil \<and> up (fst n) (snd n) = t"

lemma node_in_split: "node_in n t \<Longrightarrow> inorder t = nbefore n @ node_elem n # nafter n"
  by (cases n; cases "fst n") (auto simp: node_in_def node_elem_def)

lemma RB_NEXT_ok:
  assumes "node_in n t"
  shows "(nafter n = [] \<longrightarrow> RB_NEXT n = None) \<and>
    (\<forall>y ys. nafter n = y # ys \<longrightarrow> (\<exists>n'. RB_NEXT n = Some n' \<and> node_in n' t \<and> node_elem n' = y \<and>
       nbefore n' = nbefore n @ [node_elem n] \<and> nafter n' = ys))"
proof -
  obtain c l x r p where n: "n = (RNode c l x r, p)" "up (RNode c l x r) p = t"
    using assms by (cases n; cases "fst n") (auto simp: node_in_def)
  have "\<exists>n'. RB_NEXT n = Some n' \<and> node_in n' t \<and> node_elem n' = y \<and>
      nbefore n' = nbefore n @ [node_elem n]" if y: "nafter n = y # ys" for y ys
  proof (cases "r = RNil")
    case True
    with y n have "after p = y # ys" by simp
    with climb_next_ok [of p "RNode c l x r"] True n show ?thesis
      by (fastforce simp: node_in_def node_elem_def)
  next
    case False
    from leftmost_ok [OF False, of "InRight c l x # p"] obtain c' x' r' p' where
      lm: "leftmost r (InRight c l x # p) = (RNode c' RNil x' r', p')"
        "up (RNode c' RNil x' r') p' = up r (InRight c l x # p)" "before p' = before (InRight c l x # p)" by blast
    have "x' # inorder r' @ after p' = y # ys" using arg_cong [OF lm(2), of inorder] lm(3) n(1) y by simp
    with lm n False show ?thesis by (auto simp: node_in_def node_elem_def)
  qed
  moreover have "nafter n' = ys" if "nafter n = y # ys" "node_in n' t" "node_elem n' = y"
    "nbefore n' = nbefore n @ [node_elem n]" for n' y ys
    using node_in_split [OF assms] node_in_split [OF that(2)] that by simp
  moreover have "RB_NEXT n = None" if "nafter n = []"
    using that n climb_next_ok [of p "RNode c l x r"] by auto
  ultimately show ?thesis by blast
qed

lemma RB_PREV_ok:
  assumes "node_in n t"
  shows "(nbefore n = [] \<longrightarrow> RB_PREV n = None) \<and>
    (\<forall>y ys. nbefore n = ys @ [y] \<longrightarrow> (\<exists>n'. RB_PREV n = Some n' \<and> node_in n' t \<and> node_elem n' = y \<and>
       nbefore n' = ys \<and> nafter n' = node_elem n # nafter n))"
proof -
  obtain c l x r p where n: "n = (RNode c l x r, p)" "up (RNode c l x r) p = t"
    using assms by (cases n; cases "fst n") (auto simp: node_in_def)
  have "\<exists>n'. RB_PREV n = Some n' \<and> node_in n' t \<and> node_elem n' = y \<and>
      nafter n' = node_elem n # nafter n" if y: "nbefore n = ys @ [y]" for y ys
  proof (cases "l = RNil")
    case True
    with y n have "before p = ys @ [y]" by simp
    with climb_prev_ok [of p "RNode c l x r"] True n show ?thesis
      by (fastforce simp: node_in_def node_elem_def)
  next
    case False
    from rightmost_ok [OF False, of "InLeft c x r # p"] obtain c' l' x' p' where
      lm: "rightmost l (InLeft c x r # p) = (RNode c' l' x' RNil, p')"
        "up (RNode c' l' x' RNil) p' = up l (InLeft c x r # p)" "after p' = after (InLeft c x r # p)" by blast
    have "before p' @ inorder l' @ [x'] = ys @ [y]" using arg_cong [OF lm(2), of inorder] lm(3) n(1) y by simp
    then have "x' = y" by (metis append.assoc last_snoc)
    with lm n False show ?thesis by (auto simp: node_in_def node_elem_def)
  qed
  moreover have "nbefore n' = ys" if "nbefore n = ys @ [y]" "node_in n' t" "node_elem n' = y"
    "nafter n' = node_elem n # nafter n" for n' y ys
    using node_in_split [OF assms] node_in_split [OF that(2)] that by simp
  moreover have "RB_PREV n = None" if "nbefore n = []"
    using that n climb_prev_ok [of p "RNode c l x r"] by auto
  ultimately show ?thesis by blast
qed

lemma RB_MINMAX_ok:
  assumes "t \<noteq> RNil"
  shows "\<exists>n. RB_MINMAX t (-1) = Some n \<and> node_in n t \<and> nbefore n = []"
    and "\<exists>n. RB_MINMAX t 1 = Some n \<and> node_in n t \<and> nafter n = []"
  using leftmost_ok [OF assms, of "[]"] rightmost_ok [OF assms, of "[]"] assms
  by (auto simp: RB_MINMAX_def node_in_def)

lemma rb_foreach_from_ok:
  "node_in n t \<Longrightarrow> rb_foreach_from f (Some n) s = Some (fold f (node_elem n # nafter n) s)"
proof (induction "nafter n" arbitrary: n s)
  case Nil
  then have "RB_NEXT n = None" using RB_NEXT_ok by metis
  then show ?case using Nil by (subst rb_foreach_from.simps) (simp add: rb_foreach_from.simps [of f None])
next
  case (Cons y ys)
  then obtain n' where "RB_NEXT n = Some n'" "node_in n' t" "node_elem n' = y" "nafter n' = ys"
    using RB_NEXT_ok [OF Cons.prems] by metis
  then show ?case using Cons(1) [of n'] Cons(2) by (subst rb_foreach_from.simps) simp
qed

lemma rb_foreach_reverse_from_ok:
  "node_in n t \<Longrightarrow> rb_foreach_reverse_from f (Some n) s = Some (fold f (node_elem n # rev (nbefore n)) s)"
proof (induction "rev (nbefore n)" arbitrary: n s)
  case Nil
  then have "RB_PREV n = None" using RB_PREV_ok by (metis Nil_is_rev_conv)
  then show ?case using Nil by (subst rb_foreach_reverse_from.simps) (simp add: rb_foreach_reverse_from.simps [of f None])
next
  case (Cons y ys)
  then have "nbefore n = rev ys @ [y]" by (metis rev_rev_ident rev.simps(2))
  then obtain n' where "RB_PREV n = Some n'" "node_in n' t" "node_elem n' = y" "nbefore n' = rev ys"
    using RB_PREV_ok [OF Cons.prems] by metis
  then show ?case using Cons(1) [of n'] Cons(2) by (subst rb_foreach_reverse_from.simps) simp
qed

lemma RB_FOREACH_ok: "RB_FOREACH f t s = Some (fold f (inorder t) s)"
proof (cases "t = RNil")
  case True
  then show ?thesis by (simp add: RB_FOREACH_def RB_MINMAX_def rb_foreach_from.simps)
next
  case False
  then obtain n where "RB_MINMAX t (-1) = Some n" "node_in n t" "nbefore n = []" using RB_MINMAX_ok(1) by blast
  then show ?thesis using rb_foreach_from_ok [of n t f s] node_in_split [of n t] by (simp add: RB_FOREACH_def)
qed

lemma RB_FOREACH_REVERSE_ok: "RB_FOREACH_REVERSE f t s = Some (fold f (rev (inorder t)) s)"
proof (cases "t = RNil")
  case True
  then show ?thesis by (simp add: RB_FOREACH_REVERSE_def RB_MINMAX_def rb_foreach_reverse_from.simps)
next
  case False
  then obtain n where "RB_MINMAX t 1 = Some n" "node_in n t" "nafter n = []" using RB_MINMAX_ok(2) by blast
  then show ?thesis using rb_foreach_reverse_from_ok [of n t f s] node_in_split [of n t]
    by (simp add: RB_FOREACH_REVERSE_def)
qed

text \<open>
  The SAFE loops with a body that removes the nodes of \<^verbatim>\<open>P\<close>: every element is visited once, and the
  tree that is left is balanced and holds the other elements.
\<close>

definition rb_drop_if :: "('a \<Rightarrow> bool) \<Rightarrow> 'a \<Rightarrow> 'a rbt \<times> 'a list \<Rightarrow> ('a rbt \<times> 'a list) res" where
  "rb_drop_if P x s =
     bindR (if P x then (case rb_node_at x (fst s) [] of None \<Rightarrow> Inl (Segv 0) | Some n \<Rightarrow> RB_REMOVE n) else Inr (fst s))
       (\<lambda>t. Inr (t, snd s @ [x]))"

lemma rb_node_at_up:
  "(rb_node_at e t path = None \<longleftrightarrow> e \<notin> set (inorder t)) \<and>
   (\<forall>n. rb_node_at e t path = Some n \<longrightarrow> fst n \<noteq> RNil \<and> node_elem n = e \<and> up (fst n) (snd n) = up t path)"
proof (induction t arbitrary: path)
  case (RNode c l x r)
  show ?case
    using RNode.IH(1) [of "InLeft c x r # path"] RNode.IH(2) [of "InRight c l x # path"]
    by (auto simp: node_elem_def split: option.splits)
qed simp

lemma rb_node_at_ok:
  assumes "inorder t = us @ x # zs" "distinct (inorder t)"
  shows "\<exists>n. rb_node_at x t [] = Some n \<and> node_in n t \<and> node_elem n = x \<and> nbefore n = us \<and> nafter n = zs"
proof -
  obtain n where n: "rb_node_at x t [] = Some n" "node_in n t" "node_elem n = x"
    using rb_node_at_up [of x t "[]"] assms(1) by (fastforce simp: node_in_def)
  then have "us @ x # zs = nbefore n @ x # nafter n" using node_in_split [OF n(2)] assms(1) by simp
  moreover have "x \<notin> set us" "x \<notin> set zs" using assms by auto
  ultimately have "nbefore n = us \<and> nafter n = zs" by (simp add: append_Cons_eq_iff)
  then show ?thesis using n by blast
qed

lemma rb_drop_step:
  assumes "inorder t = us @ x # zs" "distinct (inorder t)" "rb_inv t"
  shows "\<exists>t'. rb_drop_if P x (t, vs) = Inr (t', vs @ [x]) \<and> rb_inv t' \<and>
    inorder t' = us @ (if P x then [] else [x]) @ zs \<and> distinct (inorder t')"
proof -
  obtain n where n: "rb_node_at x t [] = Some n" "node_in n t" "nbefore n = us" "nafter n = zs"
    using rb_node_at_ok [OF assms(1,2)] by blast
  then obtain c l y r p where p: "n = (RNode c l y r, p)" "up (RNode c l y r) p = t"
    by (cases n; cases "fst n") (auto simp: node_in_def)
  then show ?thesis using RB_REMOVE_ok [of c l y r p] assms n by (auto simp: rb_drop_if_def)
qed

lemma foreach_safe_filter:
  assumes "inorder t = us @ zs" "distinct (inorder t)" "rb_inv t"
  shows "\<exists>t'. rb_foreach_safe_from RB_NEXT (rb_drop_if P) (case zs of [] \<Rightarrow> None | z # _ \<Rightarrow> Some z) (t, vs) = Some (Inr (t', vs @ zs)) \<and>
    rb_inv t' \<and> inorder t' = us @ filter (\<lambda>x. \<not> P x) zs"
  using assms
proof (induction zs arbitrary: t us vs)
  case Nil
  then show ?case by (subst rb_foreach_safe_from.simps) simp
next
  case (Cons z zs)
  obtain n where n: "rb_node_at z t [] = Some n" "node_in n t" "nafter n = zs"
    using rb_node_at_ok [OF Cons.prems(1,2)] by blast
  have nx: "map_option node_elem (RB_NEXT n) = (case zs of [] \<Rightarrow> None | z # _ \<Rightarrow> Some z)"
    using RB_NEXT_ok [OF n(2)] n(3) by (cases zs) auto
  obtain t1 where t1: "rb_drop_if P z (t, vs) = Inr (t1, vs @ [z])" "rb_inv t1"
    "inorder t1 = (us @ (if P z then [] else [z])) @ zs" "distinct (inorder t1)"
    using rb_drop_step [OF Cons.prems] by fastforce
  show ?case
    using Cons.IH [OF t1(3,4,2), of "vs @ [z]"] n(1) t1(1) nx
    by (subst rb_foreach_safe_from.simps) auto
qed

lemma foreach_reverse_safe_filter:
  assumes "inorder t = zs @ us" "distinct (inorder t)" "rb_inv t"
  shows "\<exists>t'. rb_foreach_safe_from RB_PREV (rb_drop_if P) (if zs = [] then None else Some (last zs)) (t, vs) = Some (Inr (t', vs @ rev zs)) \<and>
    rb_inv t' \<and> inorder t' = filter (\<lambda>x. \<not> P x) zs @ us"
  using assms
proof (induction zs arbitrary: t us vs rule: rev_induct)
  case Nil
  then show ?case by (subst rb_foreach_safe_from.simps) simp
next
  case (snoc z zs)
  have i: "inorder t = zs @ z # us" using snoc.prems(1) by simp
  obtain n where n: "rb_node_at z t [] = Some n" "node_in n t" "nbefore n = zs"
    using rb_node_at_ok [OF i snoc.prems(2)] by blast
  have nx: "map_option node_elem (RB_PREV n) = (if zs = [] then None else Some (last zs))"
    using RB_PREV_ok [OF n(2)] n(3) by (cases zs rule: rev_cases) auto
  obtain t1 where t1: "rb_drop_if P z (t, vs) = Inr (t1, vs @ [z])" "rb_inv t1"
    "inorder t1 = zs @ (if P z then [] else [z]) @ us" "distinct (inorder t1)"
    using rb_drop_step [OF i snoc.prems(2,3)] by blast
  show ?case
    using snoc.IH [OF t1(3,4,2), of "vs @ [z]"] n(1) t1(1) nx
    by (subst rb_foreach_safe_from.simps) auto
qed

lemma RB_MINMAX_ends:
  "map_option node_elem (RB_MINMAX t (-1)) = (if inorder t = [] then None else Some (hd (inorder t)))"
  "map_option node_elem (RB_MINMAX t 1) = (if inorder t = [] then None else Some (last (inorder t)))"
proof -
  have ne: "inorder t \<noteq> []" if "t \<noteq> RNil" using that by (cases t) auto
  show "map_option node_elem (RB_MINMAX t (-1)) = (if inorder t = [] then None else Some (hd (inorder t)))"
  proof (cases "t = RNil")
    case False
    from RB_MINMAX_ok(1) [OF this] obtain n where n: "RB_MINMAX t (-1) = Some n" "node_in n t" "nbefore n = []" by blast
    then show ?thesis using node_in_split [OF n(2)] by simp
  qed (simp add: RB_MINMAX_def)
  show "map_option node_elem (RB_MINMAX t 1) = (if inorder t = [] then None else Some (last (inorder t)))"
  proof (cases "t = RNil")
    case False
    from RB_MINMAX_ok(2) [OF this] obtain n where n: "RB_MINMAX t 1 = Some n" "node_in n t" "nafter n = []" by blast
    then show ?thesis using node_in_split [OF n(2)] by simp
  qed (simp add: RB_MINMAX_def)
qed

lemma RB_FOREACH_SAFE_ok:
  assumes "rb_inv t" "distinct (inorder t)"
  shows "\<exists>t'. RB_FOREACH_SAFE (rb_drop_if P) (t, []) = Some (Inr (t', inorder t)) \<and> rb_inv t' \<and>
      inorder t' = filter (\<lambda>x. \<not> P x) (inorder t)"
    and "\<exists>t'. RB_FOREACH_REVERSE_SAFE (rb_drop_if P) (t, []) = Some (Inr (t', rev (inorder t))) \<and> rb_inv t' \<and>
      inorder t' = filter (\<lambda>x. \<not> P x) (inorder t)"
  using foreach_safe_filter [of t "[]" "inorder t" P "[]"] foreach_reverse_safe_filter [of t "inorder t" "[]" P "[]"] assms
  by (auto simp: RB_FOREACH_SAFE_def RB_FOREACH_REVERSE_SAFE_def RB_MINMAX_ends split: list.splits)

section \<open>Height\<close>

fun rb_height :: "'a rbt \<Rightarrow> nat" where
  "rb_height RNil = 0"
| "rb_height (RNode c l x r) = Suc (max (rb_height l) (rb_height r))"

lemma rbn_size: "rbn n t \<Longrightarrow> 2 ^ n \<le> length (inorder t) + 1"
proof (induction n t rule: rbn.induct)
  case (2 n l x r)
  then obtain m where "n = Suc m" by (cases n) auto
  with 2 show ?case by simp
qed simp_all

lemma rbn_height: "rbn n t \<Longrightarrow> rb_height t \<le> 2 * n + (if is_red t then 1 else 0)"
proof (induction n t rule: rbn.induct)
  case (2 n l x r)
  then obtain m where n: "n = Suc m" by (cases n) auto
  with 2 have "rb_height l \<le> 2 * m + (if is_red l then 1 else 0)" "rb_height r \<le> 2 * m + (if is_red r then 1 else 0)"
    by simp_all
  then have "rb_height l \<le> Suc (2 * m)" "rb_height r \<le> Suc (2 * m)" by (auto split: if_splits)
  with n show ?case by simp
qed simp_all

lemma rb_inv_height:
  assumes "rb_inv t"
  shows "2 ^ rb_height t \<le> (length (inorder t) + 1) ^ 2"
proof -
  from assms obtain n where n: "rbn n t" "\<not> is_red t" by (auto simp: rb_inv_def)
  then have "rb_height t \<le> 2 * n" using rbn_height by fastforce
  then have "(2::nat) ^ rb_height t \<le> 2 ^ (2 * n)" by (rule power_increasing) simp
  also have "\<dots> = (2 ^ n) ^ 2" by (simp add: power_mult [symmetric] mult.commute)
  also have "\<dots> \<le> (length (inorder t) + 1) ^ 2" using rbn_size [OF n(1)] by (rule power_mono) simp
  finally show ?thesis .
qed

lemma rb_descend_height: "length (snd (rb_descend cmp k t path)) \<le> length path + rb_height t"
proof (induction t arbitrary: path)
  case (RNode c l x r)
  have "length (snd (rb_descend cmp k l (InLeft c x r # path))) \<le> Suc (length path) + rb_height l"
    using RNode.IH(1) [of "InLeft c x r # path"] by simp
  moreover have "length (snd (rb_descend cmp k r (InRight c l x # path))) \<le> Suc (length path) + rb_height r"
    using RNode.IH(2) [of "InRight c l x # path"] by simp
  ultimately show ?case by (simp add: Let_def max_def)
qed simp

section \<open>Searching and inserting by key\<close>

lemma rb_descend_up: "rb_descend cmp k t path = (t', p') \<Longrightarrow> up t' p' = up t path"
  by (induction t arbitrary: path) (auto simp: Let_def split: if_splits)

text \<open>An insertion, a removal and a lookup by key, as the clients use the tree.\<close>

definition rb_del :: "('a \<Rightarrow> 'a \<Rightarrow> int) \<Rightarrow> 'a rbt \<Rightarrow> 'a \<Rightarrow> 'a rbt res" where
  "rb_del cmp t x = (case RB_FIND cmp t x of None \<Rightarrow> Inl (Segv 0) | Some n \<Rightarrow> RB_REMOVE n)"

definition rb_look :: "('a \<Rightarrow> 'a \<Rightarrow> int) \<Rightarrow> 'a rbt \<Rightarrow> 'a \<Rightarrow> 'a option" where
  "rb_look cmp t x = map_option node_elem (RB_FIND cmp t x)"

definition rb_tree :: "('a \<Rightarrow> 'k::linorder) \<Rightarrow> 'a rbt \<Rightarrow> bool" where
  "rb_tree key t \<longleftrightarrow> rb_inv t \<and> ascending key (inorder t)"

context key_order
begin

lemma descend_key:
  assumes "rb_descend cmp k t path = (t', p')"
    and "\<forall>y\<in>set (before path). key y < key k" "\<forall>y\<in>set (after path). key k < key y"
    and "ascending key (inorder t)"
  shows "(\<forall>y\<in>set (before p'). key y < key k) \<and> (\<forall>y\<in>set (after p'). key k < key y) \<and>
    (t' = RNil \<or> (\<exists>c l x r. t' = RNode c l x r \<and> key x = key k \<and> ascending key (inorder t')))"
  using assms
proof (induction t arbitrary: path)
  case (RNode c l x r)
  show ?case
  proof (cases k x rule: cmp_cases)
    case less
    then have "\<forall>y\<in>set (after (InLeft c x r # path)). key k < key y"
      using RNode.prems(3,4) by fastforce
    with less RNode.IH(1) [of "InLeft c x r # path"] RNode.prems show ?thesis by (simp add: Let_def)
  next
    case equal
    with RNode.prems show ?thesis by (auto simp: Let_def)
  next
    case greater
    then have "\<forall>y\<in>set (before (InRight c l x # path)). key y < key k"
      using RNode.prems(2,4) by fastforce
    with greater RNode.IH(2) [of "InRight c l x # path"] RNode.prems show ?thesis by (simp add: Let_def)
  qed
qed auto

lemma find_key:
  assumes "ascending key (inorder t)"
  shows "(case RB_FIND cmp t k of
      None \<Rightarrow> key_in key k (inorder t) = None
    | Some n \<Rightarrow> node_in n t \<and> key_in key k (inorder t) = Some (node_elem n) \<and> key (node_elem n) = key k)"
proof -
  obtain t' p' where d: "rb_descend cmp k t [] = (t', p')" by (metis surj_pair)
  have u: "up t' p' = t" using rb_descend_up [OF d] by simp
  then have io: "inorder t = before p' @ inorder t' @ after p'" using inorder_up by metis
  have k: "\<forall>y\<in>set (before p'). key y < key k" "\<forall>y\<in>set (after p'). key k < key y"
    "t' = RNil \<or> (\<exists>c l x r. t' = RNode c l x r \<and> key x = key k \<and> ascending key (inorder t'))"
    using descend_key [OF d] assms by auto
  show ?thesis
  proof (cases "t' = RNil")
    case True
    then have "\<forall>y\<in>set (inorder t). key y \<noteq> key k" using io k(1,2) by auto
    then show ?thesis using True d by (simp add: RB_FIND_def key_in_None)
  next
    case False
    then obtain c l x r where t': "t' = RNode c l x r" "key x = key k" "ascending key (inorder t')" using k(3) by blast
    then have "key_in key k ((before p' @ inorder l) @ x # (inorder r @ after p')) = Some x"
      by (intro key_in_split) (use k(1) in auto)
    then show ?thesis using d t' u io by (simp add: RB_FIND_def node_in_def node_elem_def)
  qed
qed

lemma insert_key:
  assumes "rb_tree key t"
  shows "\<exists>t'. RB_INSERT cmp t x = Inr (t', key_in key x (inorder t)) \<and> rb_tree key t' \<and>
    inorder t' = (if key_in key x (inorder t) = None then put_in key x (inorder t) else inorder t)"
proof -
  have asc: "ascending key (inorder t)" and inv: "rb_inv t" using assms by (auto simp: rb_tree_def)
  obtain t1 p where d: "rb_descend cmp x t [] = (t1, p)" by (metis surj_pair)
  have u: "up t1 p = t" using rb_descend_up [OF d] by simp
  have f: "RB_FIND cmp t x = (if t1 = RNil then None else Some (t1, p))" using d by (simp add: RB_FIND_def)
  show ?thesis
  proof (cases t1)
    case RNil
    have none: "key_in key x (inorder t) = None" using find_key [OF asc, of x] f RNil by simp
    have io: "inorder t = before p @ after p" using u RNil inorder_up [of RNil p] by simp
    from inv_up [of RNil p] u inv RNil have "pok 0 False p" by auto
    from insert_color_ok [of 0 "RNode RB_RED RNil x RNil" p, OF _ _ this] obtain t' where
      t': "RB_INSERT_COLOR (RNode RB_RED RNil x RNil) p = Inr t'" "rb_inv t'" "inorder t' = before p @ x # after p"
      by auto
    have "\<forall>y\<in>set (before p). key y < key x" "\<forall>y\<in>set (after p). key x < key y"
      using descend_key [OF d] asc by auto
    then have "inorder t' = put_in key x (inorder t)" using t'(3) io put_in_split [of "before p" key x "after p"] by simp
    moreover from this have "ascending key (inorder t')" using ascending_put_in [OF asc] by simp
    ultimately show ?thesis using d RNil t' none by (simp add: RB_INSERT_def rb_tree_def)
  next
    case (RNode c l y r)
    then have "key_in key x (inorder t) = Some y" using find_key [OF asc, of x] f by (simp add: node_elem_def)
    then show ?thesis using d RNode assms by (simp add: RB_INSERT_def)
  qed
qed

lemma remove_key:
  assumes "rb_tree key t" "key_in key x (inorder t) \<noteq> None"
  shows "\<exists>t'. rb_del cmp t x = Inr t' \<and> rb_tree key t' \<and> inorder t' = take_out key x (inorder t)"
proof -
  have asc: "ascending key (inorder t)" and inv: "rb_inv t" using assms by (auto simp: rb_tree_def)
  from find_key [OF asc, of x] assms(2) obtain n where
    n: "RB_FIND cmp t x = Some n" "node_in n t" "key (node_elem n) = key x" by (cases "RB_FIND cmp t x") auto
  obtain c l y r p where n': "n = (RNode c l y r, p)" "up (RNode c l y r) p = t"
    using n(2) by (cases n; cases "fst n") (auto simp: node_in_def)
  from RB_REMOVE_ok [of c l y r p] inv n'(2) obtain t' where
    t': "RB_REMOVE n = Inr t'" "rb_inv t'" "inorder t' = before p @ inorder l @ inorder r @ after p"
    unfolding n'(1) by blast
  have io: "inorder t = (before p @ inorder l) @ y # (inorder r @ after p)"
    using inorder_up [of "RNode c l y r" p] n'(2) by simp
  have "take_out key y (inorder t) = (before p @ inorder l) @ (inorder r @ after p)"
    unfolding io by (rule take_out_split) (use asc io in simp)
  moreover have "key y = key x" using n(3) n'(1) by (simp add: node_elem_def)
  ultimately have "inorder t' = take_out key x (inorder t)" using t'(3) by (simp add: take_out_def)
  moreover from this have "ascending key (inorder t')" using ascending_take_out [OF asc] by simp
  ultimately show ?thesis using n(1) t' by (simp add: rb_del_def rb_tree_def)
qed

lemma look_key: "rb_tree key t \<Longrightarrow> rb_look cmp t x = key_in key x (inorder t)"
  using find_key [of t x] by (auto simp: rb_look_def rb_tree_def split: option.splits)

lemma nfind_key:
  assumes "ascending key (inorder t)" "\<forall>y\<in>set (before path). key y < key k"
    "\<forall>y\<in>set (after path). key k < key y"
    and "case res of None \<Rightarrow> after path = [] | Some n \<Rightarrow> \<exists>ys. after path = node_elem n # ys"
  shows "map_option node_elem (rb_nfind cmp k t path res) =
    find (\<lambda>y. key k \<le> key y) (inorder t @ after path)"
  using assms
proof (induction t arbitrary: path res)
  case RNil
  then show ?case by (cases res) auto
next
  case (RNode c l x r)
  show ?case
  proof (cases k x rule: cmp_cases)
    case less
    have "\<forall>y\<in>set (after (InLeft c x r # path)). key k < key y" using RNode.prems less by fastforce
    with less RNode.IH(1) [of "InLeft c x r # path" "Some (RNode c l x r, path)"] RNode.prems
    show ?thesis by (simp add: Let_def node_elem_def)
  next
    case equal
    have none: "find (\<lambda>y. key k \<le> key y) (inorder l) = None"
      using RNode.prems(1) equal by (auto simp: find_None_iff)
    have "find P (xs @ ys) = (case find P xs of None \<Rightarrow> find P ys | Some z \<Rightarrow> Some z)" for P :: "'a \<Rightarrow> bool" and xs ys
      by (induction xs) auto
    then show ?thesis using equal none by (simp add: Let_def node_elem_def)
  next
    case greater
    have none: "find (\<lambda>y. key k \<le> key y) (inorder l) = None"
      using RNode.prems(1) greater by (auto simp: find_None_iff)
    have fa: "find P (xs @ ys) = (case find P xs of None \<Rightarrow> find P ys | Some z \<Rightarrow> Some z)" for P :: "'a \<Rightarrow> bool" and xs ys
      by (induction xs) auto
    have "\<forall>y\<in>set (before (InRight c l x # path)). key y < key k" using RNode.prems greater by fastforce
    moreover have "\<not> key k \<le> key x" using greater(2) by simp
    moreover have "case res of None \<Rightarrow> after (InRight c l x # path) = []
        | Some n \<Rightarrow> \<exists>ys. after (InRight c l x # path) = node_elem n # ys"
      using RNode.prems(4) by (cases res) auto
    ultimately show ?thesis
      using greater(1) RNode.IH(2) [of "InRight c l x # path" res] RNode.prems(1,3) none by (simp add: Let_def fa)
  qed
qed

end

sublocale key_order \<subseteq> rb: ordered_index key "rb_tree key" inorder RNil "RB_INSERT cmp" "rb_del cmp" "rb_look cmp"
proof unfold_locales
  show "rb_tree key RNil \<and> inorder RNil = []" by (auto simp: rb_tree_def rb_inv_def)
  show "ascending key (inorder t)" if "rb_tree key t" for t using that by (simp add: rb_tree_def)
qed (use insert_key remove_key look_key in blast)+

section \<open>Properties\<close>

text \<open>
  C24: The red-black tree is an ordered map.  For a comparison function that orders elements by a
  key, RB_INSERT on a tree in order with the red-black invariant never dereferences NULL: when the
  key is new it puts the element at its place in the order and returns NULL, otherwise it returns
  the element of that key and changes nothing; the result is in order, no red node has a red child
  and every path has the same number of black nodes.
\<close>

theorem RB_INSERT_ordered:
  assumes "key_order cmp key" and "rb_inv t" and "ascending key (inorder t)"
  shows "\<exists>t'. RB_INSERT cmp t x = Inr (t', key_in key x (inorder t)) \<and> rb_inv t' \<and>
    ascending key (inorder t') \<and>
    inorder t' = (if key_in key x (inorder t) = None then put_in key x (inorder t) else inorder t)"
  using key_order.insert_key [OF assms(1), of t x] assms(2,3) by (auto simp: rb_tree_def)

text \<open>
  C25: RB_REMOVE unlinks exactly the node it is given: the remaining elements keep their order, the
  rebalancing restores the red-black invariant, and no NULL sibling is ever dereferenced.
\<close>

theorem RB_REMOVE_keeps_balance:
  assumes "rb_inv t" and "node_in n t"
  shows "\<exists>t'. RB_REMOVE n = Inr t' \<and> rb_inv t' \<and> inorder t' = nbefore n @ nafter n"
proof -
  obtain c l x r p where n: "n = (RNode c l x r, p)" "up (RNode c l x r) p = t"
    using assms(2) by (cases n; cases "fst n") (auto simp: node_in_def)
  then show ?thesis using RB_REMOVE_ok [of c l x r p] assms(1) by simp
qed

lemma RB_MINMAX_key:
  assumes "ascending key (inorder t)"
  shows "RB_MINMAX t (- 1) = Some n \<Longrightarrow> node_in n t \<and> node_elem n = hd (inorder t) \<and>
      (\<forall>y\<in>set (inorder t). key (node_elem n) \<le> key y)"
    and "RB_MINMAX t 1 = Some n \<Longrightarrow> node_in n t \<and> node_elem n = last (inorder t) \<and>
      (\<forall>y\<in>set (inorder t). key y \<le> key (node_elem n))"
proof -
  assume n: "RB_MINMAX t (- 1) = Some n"
  then have "t \<noteq> RNil" by (auto simp: RB_MINMAX_def)
  with n RB_MINMAX_ok(1) have m: "node_in n t" "nbefore n = []" by fastforce+
  with node_in_split [OF m(1)] assms show "node_in n t \<and> node_elem n = hd (inorder t) \<and>
      (\<forall>y\<in>set (inorder t). key (node_elem n) \<le> key y)" by auto
next
  assume n: "RB_MINMAX t 1 = Some n"
  then have "t \<noteq> RNil" by (auto simp: RB_MINMAX_def)
  with n RB_MINMAX_ok(2) have m: "node_in n t" "nafter n = []" by fastforce+
  with node_in_split [OF m(1)] assms show "node_in n t \<and> node_elem n = last (inorder t) \<and>
      (\<forall>y\<in>set (inorder t). key y \<le> key (node_elem n))" by auto
qed

text \<open>
  C26: The searches follow the order: RB_FIND returns the node of the key or NULL, RB_NFIND the first
  node whose key is not smaller, RB_MIN and RB_MAX the first and the last node of the order, whose
  keys are the smallest and the largest, or NULL for an empty tree; a search visits at most twice as
  many levels as the logarithm of the size, as the comment of the header says.
\<close>

theorem RB_searches:
  assumes "key_order cmp key" and "rb_inv t" and "ascending key (inorder t)"
  shows "map_option node_elem (RB_FIND cmp t k) = key_in key k (inorder t) \<and>
    map_option node_elem (RB_NFIND cmp t k) = find (\<lambda>y. key k \<le> key y) (inorder t) \<and>
    (t = RNil \<longleftrightarrow> RB_MINMAX t (- 1) = None) \<and> (t = RNil \<longleftrightarrow> RB_MINMAX t 1 = None) \<and>
    (\<forall>n. RB_MINMAX t (- 1) = Some n \<longrightarrow> node_in n t \<and> node_elem n = hd (inorder t) \<and>
       (\<forall>y\<in>set (inorder t). key (node_elem n) \<le> key y)) \<and>
    (\<forall>n. RB_MINMAX t 1 = Some n \<longrightarrow> node_in n t \<and> node_elem n = last (inorder t) \<and>
       (\<forall>y\<in>set (inorder t). key y \<le> key (node_elem n))) \<and>
    2 ^ length (snd (rb_descend cmp k t [])) \<le> (length (inorder t) + 1) ^ 2"
proof -
  have "rb_look cmp t k = key_in key k (inorder t)"
    using key_order.look_key [OF assms(1), of t k] assms by (simp add: rb_tree_def)
  moreover have "map_option node_elem (RB_NFIND cmp t k) = find (\<lambda>y. key k \<le> key y) (inorder t)"
    using key_order.nfind_key [OF assms(1,3), of "[]" k None] by (simp add: RB_NFIND_def)
  moreover have "length (snd (rb_descend cmp k t [])) \<le> rb_height t"
    using rb_descend_height [of cmp k t "[]"] by simp
  then have "(2::nat) ^ length (snd (rb_descend cmp k t [])) \<le> 2 ^ rb_height t" by (rule power_increasing) simp
  then have "2 ^ length (snd (rb_descend cmp k t [])) \<le> (length (inorder t) + 1) ^ 2"
    using rb_inv_height [OF assms(2)] by (rule order.trans)
  moreover have "t = RNil \<longleftrightarrow> RB_MINMAX t (- 1) = None" "t = RNil \<longleftrightarrow> RB_MINMAX t 1 = None"
    by (simp_all add: RB_MINMAX_def)
  moreover have "\<forall>n. RB_MINMAX t (- 1) = Some n \<longrightarrow> node_in n t \<and> node_elem n = hd (inorder t) \<and>
       (\<forall>y\<in>set (inorder t). key (node_elem n) \<le> key y)"
    using RB_MINMAX_key(1) [OF assms(3)] by blast
  moreover have "\<forall>n. RB_MINMAX t 1 = Some n \<longrightarrow> node_in n t \<and> node_elem n = last (inorder t) \<and>
       (\<forall>y\<in>set (inorder t). key y \<le> key (node_elem n))"
    using RB_MINMAX_key(2) [OF assms(3)] by blast
  ultimately show ?thesis unfolding rb_look_def by (intro conjI)
qed

text \<open>
  C27: The traversals return, and visit every element once: RB_FOREACH in ascending order and
  RB_FOREACH_REVERSE in descending order.
\<close>

theorem RB_FOREACH_in_order:
  "RB_FOREACH f t s = Some (fold f (inorder t) s) \<and>
   RB_FOREACH_REVERSE f t s = Some (fold f (rev (inorder t)) s)"
  by (simp add: RB_FOREACH_ok RB_FOREACH_REVERSE_ok)

definition int_compare :: "int \<Rightarrow> int \<Rightarrow> int" where
  "int_compare a b = (if a < b then - 1 else if b < a then 1 else 0)"

interpretation int_order: key_order int_compare "\<lambda>x. x"
  by unfold_locales (auto simp: int_compare_def)

theorem RB_INSERT_ordered_witness:
  "\<exists>t'. RB_INSERT int_compare (RNode RB_BLACK RNil 4 RNil) 7 = Inr (t', None) \<and> inorder t' = [4, 7]"
  using RB_INSERT_ordered [OF int_order.key_order_axioms, of "RNode RB_BLACK RNil 4 RNil" 7]
  by (auto simp: rb_inv_def key_in_def put_in_def)

theorem RB_REMOVE_keeps_balance_witness:
  "\<exists>t'. RB_REMOVE (RNode RB_BLACK (RNode RB_RED RNil (1::int) RNil) 4 RNil, []) = Inr t' \<and> inorder t' = [1]"
  using RB_REMOVE_keeps_balance [of "RNode RB_BLACK (RNode RB_RED RNil (1::int) RNil) 4 RNil"
      "(RNode RB_BLACK (RNode RB_RED RNil (1::int) RNil) 4 RNil, [])"]
  by (auto simp: rb_inv_def node_in_def)

theorem RB_searches_witness:
  "map_option node_elem (RB_NFIND int_compare (RNode RB_BLACK RNil 4 (RNode RB_RED RNil 6 RNil)) 2) = Some 4 \<and>
   (\<exists>n. RB_MINMAX (RNode RB_BLACK RNil 4 (RNode RB_RED RNil 6 RNil)) 1 = Some n \<and> node_elem n = (6 :: int))"
proof -
  let ?t = "RNode RB_BLACK RNil 4 (RNode RB_RED RNil (6 :: int) RNil)"
  have "rb_inv ?t" "ascending (\<lambda>x. x) (inorder ?t)" by (auto simp: rb_inv_def)
  from RB_searches [OF int_order.key_order_axioms this, of 2] show ?thesis by auto
qed

end
