(* ===== verification/Nlmapper.thy ===== *)
theory Nlmapper
  imports Os Queue Rbtree
begin

text \<open>
  The non-linear mapper of \<^verbatim>\<open>src/src/nlmapper.c\<close>: every page of the container file has a
  descriptor; the free ones are in a LIST, the ones in use in a red-black tree ordered by address,
  and remap_file_pages exchanges the file pages behind two addresses.  Descriptors are numbered in
  the order of their allocation, from 1 (0 is NULL; a search key on the stack also stands at 0).
  A descriptor is in the list or in the tree, never in both, which is why the C code can keep the
  two sets of links in a union.
\<close>

record nlm_page =
  np_pgoff :: nat
  np_addr :: nat
  np_is_free :: bool
  np_is_use :: bool
  np_is_nonlinear :: bool

record nlm =
  n_file_size :: nat
  n_prev_file_size :: nat
  n_start_addr :: nat
  n_is_nonlinear :: bool
  n_is_fully_mapped :: bool
  n_pgcnt :: nat
  n_size :: nat
  n_last :: nat
  n_links :: qstore
  n_root :: "nat rbt"
  n_page :: "nat \<Rightarrow> nlm_page"

definition N_FREE_HEAD :: nat where "N_FREE_HEAD = 0"

definition set_page :: "nat \<Rightarrow> nlm_page \<Rightarrow> nlm \<Rightarrow> nlm" where
  "set_page p v h = h\<lparr>n_page := (n_page h)(p := v)\<rparr>"

definition MARK_PAGE_AS_FREE :: "nlm_page \<Rightarrow> nlm_page" where
  "MARK_PAGE_AS_FREE p = p\<lparr>np_is_free := True, np_is_use := False\<rparr>"

definition MARK_PAGE_AS_INUSE :: "nlm_page \<Rightarrow> nlm_page res" where
  "MARK_PAGE_AS_INUSE p =
     bindR (assertR (np_is_free p) ''Invalid page status'') (\<lambda>_.
     Inr (p\<lparr>np_is_free := False, np_is_use := True\<rparr>))"

definition nlm_page_comare_addr :: "(nat \<Rightarrow> nlm_page) \<Rightarrow> nat \<Rightarrow> nat \<Rightarrow> int" where
  "nlm_page_comare_addr P a b =
     (if np_addr (P a) < np_addr (P b) then - 1 else if np_addr (P a) > np_addr (P b) then 1 else 0)"

text \<open>RB_REMOVE gets the descriptor; its place in the tree is where its links are.\<close>

fun rb_place :: "'a \<Rightarrow> 'a rbt \<Rightarrow> 'a frame list \<Rightarrow> 'a rb_node option" where
  "rb_place p RNil path = None"
| "rb_place p (RNode c l x r) path =
     (if x = p then Some (RNode c l x r, path)
      else case rb_place p l (InLeft c x r # path) of
        Some n \<Rightarrow> Some n
      | None \<Rightarrow> rb_place p r (InRight c l x # path))"

definition rb_unlink :: "'a \<Rightarrow> 'a rbt \<Rightarrow> 'a rbt res" where
  "rb_unlink p t =
     (case rb_place p t [] of None \<Rightarrow> Inl (Undefined ''RB_REMOVE of an element that is not in the tree'')
      | Some n \<Rightarrow> RB_REMOVE n)"

definition nlm_free_page :: "nlm \<Rightarrow> nat \<Rightarrow> bool \<Rightarrow> nlm res" where
  "nlm_free_page h p update_in_used =
     bindR (if update_in_used
            then bindR (assertR (np_is_use (n_page h p)) ''Invalid page status'') (\<lambda>_.
                 bindR (rb_unlink p (n_root h)) (\<lambda>t. Inr (h\<lparr>n_root := t\<rparr>)))
            else Inr h) (\<lambda>h.
     bindR (if n_size h = 0
            then bindR (LIST_INSERT_HEAD (n_links h) N_FREE_HEAD p) (\<lambda>q.
                 bindR (assertR (n_last h = 0) ''Invalid last pointer'') (\<lambda>_. Inr q))
            else LIST_INSERT_AFTER (n_links h) (n_last h) p) (\<lambda>q.
     Inr (set_page p (MARK_PAGE_AS_FREE (n_page h p)) (h\<lparr>n_links := q, n_last := p, n_size := n_size h + 1\<rparr>))))"

definition nlm_use_page :: "nlm \<Rightarrow> nat \<Rightarrow> nlm res" where
  "nlm_use_page h p =
     bindR (assertR (p \<noteq> 0) ''no page'') (\<lambda>_.
     bindR (assertR (np_is_free (n_page h p)) ''invalid page status'') (\<lambda>_.
     bindR (LIST_REMOVE (n_links h) p) (\<lambda>q.
     let h = h\<lparr>n_links := q, n_size := n_size h - 1\<rparr>;
         h = (if n_size h = 0 then h\<lparr>n_last := 0\<rparr> else h)
     in bindR (RB_INSERT (nlm_page_comare_addr (n_page h)) (n_root h) p) (\<lambda>(t, _).
        bindR (MARK_PAGE_AS_INUSE (n_page h p)) (\<lambda>v. Inr (set_page p v (h\<lparr>n_root := t\<rparr>)))))))"

definition is_nonlinear :: "nlm \<Rightarrow> nlm_page \<Rightarrow> bool" where
  "is_nonlinear h pg \<longleftrightarrow> int (np_addr pg) - int (n_start_addr h) \<noteq> int (np_pgoff pg)"

definition nlm_page_alloc :: "nlm \<Rightarrow> nat \<Rightarrow> nat \<Rightarrow> nat \<times> nlm" where
  "nlm_page_alloc h addr pgoff =
     (let p = Suc (n_pgcnt h) in
      (p, set_page p \<lparr>np_pgoff = pgoff, np_addr = addr, np_is_free = False, np_is_use = False, np_is_nonlinear = False\<rparr>
            (h\<lparr>n_pgcnt := n_pgcnt h + 1\<rparr>)))"

fun add_pages :: "nat list \<Rightarrow> nlm \<Rightarrow> nlm res" where
  "add_pages [] h = Inr h"
| "add_pages (i # is) h =
     (case nlm_page_alloc h (n_start_addr h + n_prev_file_size h + i * PAGE_SIZE) (n_prev_file_size h + i * PAGE_SIZE) of
        (p, h) \<Rightarrow> bindR (nlm_free_page h p False) (add_pages is))"

definition add_pages_to_free_list :: "nlm \<Rightarrow> nlm res" where
  "add_pages_to_free_list h = add_pages [0..<(n_file_size h - n_prev_file_size h) div PAGE_SIZE] h"

definition remap_entire_file :: "nlm \<Rightarrow> bool \<Rightarrow> 'p os \<Rightarrow> (nlm \<times> 'p os) res" where
  "remap_entire_file h update_free_list s =
     bindR (assertR (\<not> n_is_fully_mapped h) ''Trying to map an fully mapped file'') (\<lambda>_.
     let hint = (if n_start_addr h = 0 then unat (map_hint (of_nat (n_file_size h)) (os_maps s)) else n_start_addr h);
         s = (if n_start_addr h = 0 then s else sys_munmap hint (n_file_size h) s)
     in bindR (assertR (hint \<noteq> 0) ''Could not find a big-enough region'') (\<lambda>_.
        case sys_mmap hint (n_file_size h) DEFAULT_MAPPING_PROT 0 s of (addr, s) \<Rightarrow>
        bindR (assertR (addr = hint) ''Could not mapped at the hinted address'') (\<lambda>_.
        let h = (if n_start_addr h = 0 then h\<lparr>n_start_addr := addr\<rparr> else h) in
        bindR (if update_free_list then add_pages_to_free_list h else Inr h) (\<lambda>h.
        Inr (h\<lparr>n_is_fully_mapped := True\<rparr>, s)))))"

definition map_appending :: "nlm \<Rightarrow> bool \<Rightarrow> 'p os \<Rightarrow> (nlm \<times> 'p os) res" where
  "map_appending h update_free_list s =
     bindR (assertR (\<not> n_is_fully_mapped h) ''Trying to map an fully mapped file'') (\<lambda>_.
     let hint = (if n_start_addr h = 0 then unat (map_hint (of_nat (n_file_size h)) (os_maps s))
                 else n_start_addr h + n_prev_file_size h)
     in case sys_mmap hint (n_file_size h - n_prev_file_size h) DEFAULT_MAPPING_PROT (n_prev_file_size h) s of (addr, s) \<Rightarrow>
        bindR (assertR (addr = hint) ''Could not mmap at the hinted address'') (\<lambda>_.
        let h = (if n_start_addr h = 0 then h\<lparr>n_start_addr := addr\<rparr> else h) in
        bindR (if update_free_list then add_pages_to_free_list h else Inr h) (\<lambda>h.
        Inr (h\<lparr>n_is_fully_mapped := True\<rparr>, s))))"

definition nlm_grow_file :: "nlm \<Rightarrow> nat \<Rightarrow> 'p os \<Rightarrow> (nlm \<times> 'p os) res" where
  "nlm_grow_file h new_size s =
     bindR (assertR (n_size h = 0) ''growing file while with free pages'') (\<lambda>_.
     case posix_fallocate (n_file_size h) new_size (stat (INC_BOTH Cont_grow) s) of (rc, s) \<Rightarrow>
     bindR (check_fallocate rc) (\<lambda>_.
     Inr (h\<lparr>n_prev_file_size := n_file_size h, n_file_size := new_size, n_is_fully_mapped := False\<rparr>, s)))"

definition nlm_alloc_pages :: "nlm \<Rightarrow> nat \<Rightarrow> nat \<Rightarrow> 'p os \<Rightarrow> nat res" where
  "nlm_alloc_pages h n flags s = Inl (Handle_error ''not implemented yet'')"

definition nlm_alloc_page :: "nlm \<Rightarrow> nat \<Rightarrow> 'p os \<Rightarrow> ((nat \<times> nat) \<times> nlm \<times> 'p os) res" where
  "nlm_alloc_page h flags s =
     bindR (if n_size h = 0
            then bindR (nlm_grow_file h (n_file_size h * 2) s) (\<lambda>(h, s). map_appending h True s)
            else Inr (h, s)) (\<lambda>(h, s).
     let p = LIST_FIRST (n_links h) N_FREE_HEAD in
     bindR (nlm_use_page h p) (\<lambda>h.
     let pg = n_page h p in
     bindR (if writable flags then page_allocator_mprotect_generic (np_addr pg) PAGE_SIZE flags s else Inr s) (\<lambda>s.
     Inr ((np_addr pg, np_pgoff pg), h, s))))"

text \<open>RB_FIND with a key on the stack.\<close>

definition nlm_find :: "nlm \<Rightarrow> nat \<Rightarrow> nat option" where
  "nlm_find h a =
     map_option node_elem
       (RB_FIND (nlm_page_comare_addr ((n_page h)(0 := (n_page h 0)\<lparr>np_addr := a\<rparr>))) (n_root h) 0)"

definition nlm_free_pages :: "nlm \<Rightarrow> nat \<Rightarrow> nlm res" where
  "nlm_free_pages h addr =
     (case nlm_find h (addr div PAGE_SIZE * PAGE_SIZE) of
        Some p \<Rightarrow> nlm_free_page h p True
      | None \<Rightarrow> if addr < n_start_addr h \<or> addr \<ge> n_start_addr h + n_file_size h
                then Inl (Handle_error ''trying to free a page outside the map regions'')
                else Inl (Handle_error ''page not found!''))"

definition nlm_get_address :: "nlm \<Rightarrow> nat \<Rightarrow> nat" where
  "nlm_get_address h laddr = n_start_addr h + laddr"

text \<open>The two loops of the shutdown; the first is bounded by the number of pages in the tree.\<close>

fun close_tree :: "nat \<Rightarrow> nlm \<Rightarrow> nlm res" where
  "close_tree fuel h =
     (if n_root h = RNil then Inr h
      else case fuel of 0 \<Rightarrow> Inl Diverges
      | Suc fuel \<Rightarrow>
          let p = nelem (n_root h) in
          bindR (assertR (np_is_use (n_page h p)) ''invalid page status'') (\<lambda>_.
          bindR (RB_REMOVE (n_root h, [])) (\<lambda>t.
          close_tree fuel (h\<lparr>n_root := t, n_pgcnt := n_pgcnt h - 1\<rparr>))))"

fun close_free :: "nat \<Rightarrow> nlm \<Rightarrow> nlm res" where
  "close_free 0 h = Inr h"
| "close_free (Suc n) h =
     (let p = LIST_FIRST (n_links h) N_FREE_HEAD in
      bindR (assertR (p \<noteq> 0 \<and> np_is_free (n_page h p)) ''invalid page status'') (\<lambda>_.
      bindR (LIST_REMOVE (n_links h) p) (\<lambda>q.
      close_free n (h\<lparr>n_links := q, n_size := n, n_pgcnt := n_pgcnt h - 1\<rparr>))))"

definition nlm_close :: "nlm \<Rightarrow> 'p os \<Rightarrow> (int \<times> 'p os) res" where
  "nlm_close h s =
     bindR (assertR (n_pgcnt h = n_file_size h div PAGE_SIZE) ''Not all pages were allocated'') (\<lambda>_.
     bindR (close_tree (length (inorder (n_root h))) h) (\<lambda>h.
     bindR (close_free (n_size h) h) (\<lambda>h.
     bindR (assertR (n_pgcnt h = 0) ''Failed to free all pages'') (\<lambda>_. Inr (0, s)))))"

definition n_empty_links :: qstore where
  "n_empty_links = \<lparr>cell = (\<lambda>_. 0), lastp = LFirst, prevp = (\<lambda>_. LFirst 0)\<rparr>"

definition zero_page :: nlm_page where
  "zero_page = \<lparr>np_pgoff = 0, np_addr = 0, np_is_free = False, np_is_use = False, np_is_nonlinear = False\<rparr>"

definition nlm_init :: "env \<Rightarrow> 'p os \<Rightarrow> (nlm \<times> 'p os) res" where
  "nlm_init e s =
     (let h = \<lparr>n_file_size = os_len s, n_prev_file_size = 0, n_start_addr = 0, n_is_nonlinear = False,
               n_is_fully_mapped = False, n_pgcnt = 0, n_size = 0, n_last = 0,
               n_links = LIST_INIT n_empty_links N_FREE_HEAD, n_root = RNil, n_page = (\<lambda>_. zero_page)\<rparr>
      in bindR (if n_file_size h = 0 then nlm_grow_file h (initial_size e) s else Inr (h, s))
           (\<lambda>(h, s). map_appending h True s))"

definition update_swapped_pages :: "nlm \<Rightarrow> nat \<Rightarrow> nat \<Rightarrow> nlm" where
  "update_swapped_pages h xaddr yaddr =
     (case nlm_find h xaddr of None \<Rightarrow> h | Some x \<Rightarrow>
      case nlm_find h yaddr of None \<Rightarrow> h | Some y \<Rightarrow>
        let (xoff, yoff) = SWAP (np_pgoff (n_page h x), np_pgoff (n_page h y));
            h = set_page x ((n_page h x)\<lparr>np_pgoff := xoff\<rparr>) h;
            h = set_page y ((n_page h y)\<lparr>np_pgoff := yoff\<rparr>) h;
            h = set_page x ((n_page h x)\<lparr>np_is_nonlinear := is_nonlinear h (n_page h x)\<rparr>) h
        in set_page y ((n_page h y)\<lparr>np_is_nonlinear := is_nonlinear h (n_page h y)\<rparr>) h)"

definition nlm_swap_pages :: "nlm \<Rightarrow> nat \<Rightarrow> nat \<Rightarrow> nat \<Rightarrow> nat \<Rightarrow> 'p os \<Rightarrow> (nlm \<times> 'p os) res" where
  "nlm_swap_pages h xaddr ypgoff yaddr xpgoff s =
     (case remap_file_pages xaddr (ypgoff div PAGE_SIZE) s of (rc, s) \<Rightarrow>
      if rc \<noteq> 0 then Inl (Handle_error ''filed to remap pg_one'')
      else case remap_file_pages yaddr (xpgoff div PAGE_SIZE) s of (rc, s) \<Rightarrow>
        if rc \<noteq> 0 then Inl (Handle_error ''filed to remap pg_one'')
        else
          let h = (if int xaddr - int (n_start_addr h) \<noteq> int xpgoff then h\<lparr>n_is_nonlinear := True\<rparr> else h)
          in Inr (update_swapped_pages h xaddr yaddr, s))"

section \<open>The free list and the tree\<close>

interpretation nlm_order: key_order "nlm_page_comare_addr P" "\<lambda>p. np_addr (P p)" for P
  by unfold_locales (auto simp: nlm_page_comare_addr_def)

definition page_nos :: "nlm \<Rightarrow> nat set" where
  "page_nos h = {1..n_pgcnt h}"

definition in_tree :: "nlm \<Rightarrow> nat set" where
  "in_tree h = set (inorder (n_root h))"

definition nlm_rep :: "nlm \<Rightarrow> nat list \<Rightarrow> bool" where
  "nlm_rep h xs \<longleftrightarrow>
     dlist (n_links h) N_FREE_HEAD xs \<and> n_size h = length xs \<and> n_last h = (if xs = [] then 0 else last xs) \<and>
     rb_tree (\<lambda>p. np_addr (n_page h p)) (n_root h) \<and>
     set xs \<union> in_tree h = page_nos h \<and> set xs \<inter> in_tree h = {} \<and>
     (\<forall>p\<in>page_nos h. np_addr (n_page h p) = n_start_addr h + (p - 1) * PAGE_SIZE) \<and>
     (\<forall>p\<in>set xs. np_is_free (n_page h p)) \<and> (\<forall>p\<in>in_tree h. np_is_use (n_page h p))"

text \<open>What the operations on the list and the tree leave alone.\<close>

definition same_pages :: "nlm \<Rightarrow> nlm \<Rightarrow> bool" where
  "same_pages h h' \<longleftrightarrow> n_pgcnt h' = n_pgcnt h \<and> n_file_size h' = n_file_size h \<and> n_start_addr h' = n_start_addr h \<and>
     (\<lambda>p. np_addr (n_page h' p)) = (\<lambda>p. np_addr (n_page h p)) \<and>
     (\<lambda>p. np_pgoff (n_page h' p)) = (\<lambda>p. np_pgoff (n_page h p))"

lemma rb_place_sound:
  "rb_place p t path = Some n \<Longrightarrow> fst n \<noteq> RNil \<and> up (fst n) (snd n) = up t path \<and> node_elem n = p"
proof (induction t arbitrary: path)
  case (RNode c l x r)
  show ?case
  proof (cases "x = p")
    case False
    then show ?thesis using RNode.prems RNode.IH by (auto split: option.splits)
  qed (use RNode.prems in \<open>auto simp: node_elem_def\<close>)
qed simp

lemma rb_place_ok:
  "p \<in> set (inorder t) \<Longrightarrow>
    \<exists>n. rb_place p t path = Some n \<and> fst n \<noteq> RNil \<and> up (fst n) (snd n) = up t path \<and> node_elem n = p"
proof (induction t arbitrary: path)
  case (RNode c l x r)
  show ?case
  proof (cases "x = p")
    case True
    then show ?thesis by (simp add: node_elem_def)
  next
    case False
    show ?thesis
    proof (cases "rb_place p l (InLeft c x r # path)")
      case None
      then have "p \<in> set (inorder r)" using RNode.IH(1) [of "InLeft c x r # path"] RNode.prems False by auto
      from RNode.IH(2) [OF this, of "InRight c l x # path"] show ?thesis using False None by auto
    next
      case (Some n)
      moreover have "fst n \<noteq> RNil \<and> up (fst n) (snd n) = up (RNode c l x r) path \<and> node_elem n = p"
        using rb_place_sound [OF Some] by simp
      ultimately show ?thesis using False by auto
    qed
  qed
qed simp

lemma rb_unlink_ok:
  assumes "rb_tree key t" "p \<in> set (inorder t)"
  shows "\<exists>t'. rb_unlink p t = Inr t' \<and> rb_tree key t' \<and> set (inorder t') = set (inorder t) - {p}"
proof -
  from rb_place_ok [OF assms(2), of "[]"] obtain n where
    n: "rb_place p t [] = Some n" "node_in n t" "node_elem n = p" by (auto simp: node_in_def)
  from n(2) obtain c l x r path where n': "n = (RNode c l x r, path)" "up (RNode c l x r) path = t"
    by (cases n; cases "fst n") (auto simp: node_in_def)
  have inv: "rb_inv t" and asc: "ascending key (inorder t)" using assms(1) by (auto simp: rb_tree_def)
  from RB_REMOVE_ok [of c l x r path] inv n' obtain t' where
    t': "RB_REMOVE n = Inr t'" "rb_inv t'" "inorder t' = nbefore n @ nafter n" by auto
  have io: "inorder t = nbefore n @ p # nafter n" using node_in_split [OF n(2)] n(3) by simp
  then have "ascending key (inorder t')" using asc t'(3) by auto
  moreover have "distinct (inorder t)" using ascending_distinct [OF asc] distinct_map by blast
  then have "set (inorder t') = set (inorder t) - {p}" using io t'(3) by auto
  ultimately show ?thesis using t'(1,2) n(1) by (simp add: rb_unlink_def rb_tree_def)
qed

lemma nlm_use_page_ok:
  assumes rep: "nlm_rep h (p # xs)"
  shows "\<exists>h'. nlm_use_page h p = Inr h' \<and> nlm_rep h' xs \<and> same_pages h h' \<and> in_tree h' = insert p (in_tree h)"
proof -
  let ?k = "\<lambda>p. np_addr (n_page h p)"
  have d: "dlist (n_links h) N_FREE_HEAD ([] @ p # xs)" and tree: "rb_tree ?k (n_root h)" and free: "np_is_free (n_page h p)"
    and last: "n_last h = last (p # xs)" and nos: "insert p (set xs) \<union> in_tree h = page_nos h"
    and dis: "insert p (set xs) \<inter> in_tree h = {}"
    and addr: "\<forall>p\<in>page_nos h. ?k p = n_start_addr h + (p - 1) * PAGE_SIZE"
    using rep by (simp_all add: nlm_rep_def)
  have "p \<in> page_nos h" using nos by blast
  then have nz: "p \<noteq> 0" by (simp add: page_nos_def)
  from LIST_REMOVE_spec [OF d] obtain q where q: "LIST_REMOVE (n_links h) p = Inr q" "dlist q N_FREE_HEAD xs" by auto
  define h1 where "h1 = h\<lparr>n_links := q, n_size := n_size h - 1\<rparr>"
  define h2 where "h2 = (if n_size h1 = 0 then h1\<lparr>n_last := 0\<rparr> else h1)"
  have pages: "n_page h2 = n_page h" "n_root h2 = n_root h" by (simp_all add: h1_def h2_def)
  have "?k y \<noteq> ?k p" if "y \<in> in_tree h" for y
  proof -
    have "y \<in> page_nos h" "p \<in> page_nos h" "y \<noteq> p" using that nos dis by auto
    then show ?thesis using addr by (auto simp: page_nos_def PAGE_SIZE_def)
  qed
  then have new: "\<forall>y\<in>set (inorder (n_root h)). ?k y \<noteq> ?k p" by (simp add: in_tree_def)
  then have none: "key_in ?k p (inorder (n_root h)) = None" by (simp add: key_in_None)
  from nlm_order.insert_key [OF tree, of p] none obtain t where
    t: "RB_INSERT (nlm_page_comare_addr (n_page h)) (n_root h) p = Inr (t, None)" "rb_tree ?k t"
      "inorder t = put_in ?k p (inorder (n_root h))" by auto
  define v where "v = (n_page h p)\<lparr>np_is_free := False, np_is_use := True\<rparr>"
  let ?h = "set_page p v (h2\<lparr>n_root := t\<rparr>)"
  have "MARK_PAGE_AS_INUSE (n_page h p) = Inr v" using free by (simp add: MARK_PAGE_AS_INUSE_def v_def)
  then have ok: "nlm_use_page h p = Inr ?h"
    unfolding nlm_use_page_def
    using nz free q(1) by (auto simp: h1_def h2_def t(1) Let_def)
  have same: "same_pages h ?h" by (auto simp: same_pages_def set_page_def h1_def h2_def v_def fun_eq_iff)
  then have key: "(\<lambda>p. np_addr (n_page ?h p)) = ?k" "page_nos ?h = page_nos h" "n_start_addr ?h = n_start_addr h"
      "n_file_size ?h = n_file_size h" "n_pgcnt ?h = n_pgcnt h"
    by (simp_all add: same_pages_def page_nos_def)
  have tr: "in_tree ?h = insert p (in_tree h)" using t(3) set_put_in [OF new] by (simp add: in_tree_def set_page_def)
  have pxs: "p \<notin> set xs" using slist_distinct [OF dlist_slist [OF d]] by simp
  have "nlm_rep ?h xs"
    unfolding nlm_rep_def key tr
  proof (intro conjI)
    show "dlist (n_links ?h) N_FREE_HEAD xs" using q(2) by (simp add: set_page_def h1_def h2_def)
    show "n_size ?h = length xs" using rep by (simp add: nlm_rep_def set_page_def h1_def h2_def)
    show "n_last ?h = (if xs = [] then 0 else last xs)"
      using rep last by (simp add: nlm_rep_def set_page_def h1_def h2_def)
    show "rb_tree ?k (n_root ?h)" using t(2) by (simp add: set_page_def)
    show "set xs \<union> insert p (in_tree h) = page_nos h" using nos by auto
    show "set xs \<inter> insert p (in_tree h) = {}" using dis pxs by auto
    show "\<forall>p\<in>page_nos h. np_addr (n_page ?h p) = n_start_addr h + (p - 1) * PAGE_SIZE"
      using addr fun_cong [OF key(1)] by simp
    show "\<forall>p\<in>set xs. np_is_free (n_page ?h p)" using rep pxs pages by (auto simp: nlm_rep_def set_page_def)
    show "\<forall>q\<in>insert p (in_tree h). np_is_use (n_page ?h q)"
      using rep pages by (auto simp: nlm_rep_def set_page_def v_def)
  qed
  with ok same tr show ?thesis by blast
qed

text \<open>A page outside the list and the tree is put at the end of the list.\<close>

lemma nlm_append_ok:
  assumes d: "dlist (n_links h) N_FREE_HEAD xs" and sz: "n_size h = length xs" and last: "n_last h = (if xs = [] then 0 else last xs)"
    and p: "p \<noteq> 0" "p \<notin> set xs"
  shows "\<exists>q. nlm_free_page h p False =
      Inr (set_page p (MARK_PAGE_AS_FREE (n_page h p)) (h\<lparr>n_links := q, n_last := p, n_size := length (xs @ [p])\<rparr>)) \<and>
    dlist q N_FREE_HEAD (xs @ [p])"
proof -
  from LIST_append_spec [OF d p last] obtain q where
    "(if xs = [] then LIST_INSERT_HEAD (n_links h) N_FREE_HEAD p else LIST_INSERT_AFTER (n_links h) (n_last h) p) = Inr q"
    "dlist q N_FREE_HEAD (xs @ [p])" by blast
  then show ?thesis using sz last by (cases "xs = []") (auto simp: nlm_free_page_def)
qed

lemma nlm_free_page_ok:
  assumes rep: "nlm_rep h xs" and p: "p \<in> in_tree h"
  shows "\<exists>h'. nlm_free_page h p True = Inr h' \<and> nlm_rep h' (xs @ [p]) \<and> same_pages h h' \<and> in_tree h' = in_tree h - {p}"
proof -
  let ?k = "\<lambda>p. np_addr (n_page h p)"
  have d: "dlist (n_links h) N_FREE_HEAD xs" and tree: "rb_tree ?k (n_root h)" and use: "np_is_use (n_page h p)"
    and nos: "set xs \<union> in_tree h = page_nos h" and dis: "set xs \<inter> in_tree h = {}"
    and addr: "\<forall>p\<in>page_nos h. ?k p = n_start_addr h + (p - 1) * PAGE_SIZE"
    using rep p by (simp_all add: nlm_rep_def)
  have "p \<in> page_nos h" using nos p by blast
  then have nz: "p \<noteq> 0" "p \<notin> set xs" using p dis by (auto simp: page_nos_def)
  from rb_unlink_ok [OF tree, of p] p obtain t where
    t: "rb_unlink p (n_root h) = Inr t" "rb_tree ?k t" "set (inorder t) = in_tree h - {p}" by (auto simp: in_tree_def)
  let ?h1 = "h\<lparr>n_root := t\<rparr>"
  have s1: "dlist (n_links ?h1) N_FREE_HEAD xs" "n_size ?h1 = length xs" "n_last ?h1 = (if xs = [] then 0 else last xs)"
    using rep by (simp_all add: nlm_rep_def)
  from nlm_append_ok [OF s1 nz] obtain q where
    q: "nlm_free_page ?h1 p False = Inr (set_page p (MARK_PAGE_AS_FREE (n_page h p))
         (?h1\<lparr>n_links := q, n_last := p, n_size := length (xs @ [p])\<rparr>))" "dlist q N_FREE_HEAD (xs @ [p])" by auto
  let ?h = "set_page p (MARK_PAGE_AS_FREE (n_page h p)) (?h1\<lparr>n_links := q, n_last := p, n_size := length (xs @ [p])\<rparr>)"
  have ok: "nlm_free_page h p True = Inr ?h"
    using q(1) use t(1) by (simp add: nlm_free_page_def)
  have same: "same_pages h ?h" by (auto simp: same_pages_def set_page_def MARK_PAGE_AS_FREE_def fun_eq_iff)
  then have key: "(\<lambda>p. np_addr (n_page ?h p)) = ?k" "page_nos ?h = page_nos h" "n_start_addr ?h = n_start_addr h"
      "n_file_size ?h = n_file_size h" "n_pgcnt ?h = n_pgcnt h"
    by (simp_all add: same_pages_def page_nos_def)
  have tr: "in_tree ?h = in_tree h - {p}" using t(3) by (simp add: in_tree_def set_page_def)
  have "nlm_rep ?h (xs @ [p])"
    unfolding nlm_rep_def key tr
  proof (intro conjI)
    show "dlist (n_links ?h) N_FREE_HEAD (xs @ [p])" using q(2) by (simp add: set_page_def)
    show "n_size ?h = length (xs @ [p])" "n_last ?h = (if xs @ [p] = [] then 0 else last (xs @ [p]))"
      by (simp_all add: set_page_def)
    show "rb_tree ?k (n_root ?h)" using t(2) by (simp add: set_page_def)
    show "set (xs @ [p]) \<union> (in_tree h - {p}) = page_nos h" "set (xs @ [p]) \<inter> (in_tree h - {p}) = {}"
      using nos dis p by auto
    show "\<forall>p\<in>page_nos h. np_addr (n_page ?h p) = n_start_addr h + (p - 1) * PAGE_SIZE"
      using addr fun_cong [OF key(1)] by simp
    show "\<forall>p\<in>set (xs @ [p]). np_is_free (n_page ?h p)"
      using rep by (auto simp: nlm_rep_def set_page_def MARK_PAGE_AS_FREE_def)
    show "\<forall>q\<in>in_tree h - {p}. np_is_use (n_page ?h q)"
      using rep by (auto simp: nlm_rep_def set_page_def)
  qed
  with ok same tr show ?thesis by blast
qed

text \<open>A lookup by address finds the page in use that has it.\<close>

lemma nlm_find_key_in:
  assumes "nlm_rep h xs"
  shows "nlm_find h a = find (\<lambda>p. np_addr (n_page h p) = a) (inorder (n_root h))"
proof -
  define P where "P = (n_page h)(0 := (n_page h 0)\<lparr>np_addr := a\<rparr>)"
  have nz: "p \<noteq> 0" if "p \<in> set (inorder (n_root h))" for p
  proof -
    have "p \<in> page_nos h" using assms that by (auto simp: nlm_rep_def in_tree_def)
    then show ?thesis by (simp add: page_nos_def)
  qed
  have "np_addr (P p) = np_addr (n_page h p)" if "p \<in> set (inorder (n_root h))" for p
    using nz [OF that] by (simp add: P_def)
  then have same: "map (\<lambda>p. np_addr (P p)) (inorder (n_root h)) = map (\<lambda>p. np_addr (n_page h p)) (inorder (n_root h))"
    by simp
  have "rb_tree (\<lambda>p. np_addr (n_page h p)) (n_root h)" using assms by (simp add: nlm_rep_def)
  then have "rb_tree (\<lambda>p. np_addr (P p)) (n_root h)" by (simp only: rb_tree_def ascending_def same)
  from nlm_order.look_key [OF this, of 0]
  have "nlm_find h a = find (\<lambda>y. np_addr (P y) = a) (inorder (n_root h))"
    by (simp add: nlm_find_def rb_look_def P_def [symmetric] key_in_def) (simp add: P_def)
  also have "\<dots> = find (\<lambda>p. np_addr (n_page h p) = a) (inorder (n_root h))"
  proof (rule find_cong [OF refl])
    fix y
    assume "y \<in> set (inorder (n_root h))"
    then have "y \<noteq> 0" by (rule nz)
    then show "(np_addr (P y) = a) = (np_addr (n_page h y) = a)" by (simp add: P_def)
  qed
  finally show ?thesis .
qed

lemma nlm_addr_inj:
  assumes "nlm_rep h xs" "p \<in> page_nos h" "q \<in> page_nos h" "np_addr (n_page h p) = np_addr (n_page h q)"
  shows "p = q"
proof -
  have "np_addr (n_page h p) = n_start_addr h + (p - 1) * PAGE_SIZE" "np_addr (n_page h q) = n_start_addr h + (q - 1) * PAGE_SIZE"
    using assms(1-3) by (simp_all add: nlm_rep_def)
  then have "p - 1 = q - 1" using assms(4) by (simp add: PAGE_SIZE_def)
  moreover have "1 \<le> p" "1 \<le> q" using assms(2,3) by (simp_all add: page_nos_def)
  ultimately show ?thesis by arith
qed

lemma nlm_find_ok:
  assumes "nlm_rep h xs" "p \<in> in_tree h"
  shows "nlm_find h (np_addr (n_page h p)) = Some p"
proof -
  have "\<exists>q. nlm_find h (np_addr (n_page h p)) = Some q"
    using assms(2) unfolding nlm_find_key_in [OF assms(1)] by (auto simp: in_tree_def find_None_iff simp flip: not_None_eq)
  then obtain q where q: "nlm_find h (np_addr (n_page h p)) = Some q" by blast
  then have "q \<in> in_tree h" "np_addr (n_page h q) = np_addr (n_page h p)"
    unfolding nlm_find_key_in [OF assms(1)] by (auto simp: find_Some_iff in_tree_def)
  moreover have "in_tree h \<subseteq> page_nos h" using assms(1) by (auto simp: nlm_rep_def)
  ultimately have "q = p" using nlm_addr_inj [OF assms(1), of q p] assms(2) by auto
  with q show ?thesis by simp
qed

section \<open>Growth\<close>

definition nlm_wf :: "nlm \<Rightarrow> bool" where
  "nlm_wf h \<longleftrightarrow> n_file_size h = n_pgcnt h * PAGE_SIZE \<and> 0 < n_start_addr h \<and> PAGE_SIZE dvd n_start_addr h \<and>
     bij_betw (\<lambda>p. np_pgoff (n_page h p)) (page_nos h) ((\<lambda>k. k * PAGE_SIZE) ` {..<n_pgcnt h})"

definition nlm_mapped :: "nlm \<Rightarrow> 'p os \<Rightarrow> bool" where
  "nlm_mapped h s \<longleftrightarrow> n_file_size h \<le> os_len s \<and>
     (\<forall>p\<in>page_nos h. os_vm s (vpn (np_addr (n_page h p))) = Some (np_pgoff (n_page h p) div PAGE_SIZE))"

lemma page_nos_Suc: "{1..Suc n} = insert (Suc n) {1..n}"
  by auto

text \<open>One turn of the loop that creates the descriptors of the new pages.\<close>

lemma add_page_ok:
  assumes rep: "nlm_rep h xs" and off: "n_prev_file_size h + i * PAGE_SIZE = n_pgcnt h * PAGE_SIZE"
  shows "\<exists>h'. add_pages [i] h = Inr h' \<and> nlm_rep h' (xs @ [Suc (n_pgcnt h)]) \<and> n_pgcnt h' = Suc (n_pgcnt h) \<and>
    n_prev_file_size h' = n_prev_file_size h \<and> n_file_size h' = n_file_size h \<and> n_start_addr h' = n_start_addr h \<and>
    in_tree h' = in_tree h \<and> np_pgoff (n_page h' (Suc (n_pgcnt h))) = n_pgcnt h * PAGE_SIZE \<and>
    (\<forall>p\<in>page_nos h. n_page h' p = n_page h p)"
proof -
  let ?p = "Suc (n_pgcnt h)"
  define h1 where "h1 = snd (nlm_page_alloc h (n_start_addr h + n_prev_file_size h + i * PAGE_SIZE) (n_prev_file_size h + i * PAGE_SIZE))"
  have al: "nlm_page_alloc h (n_start_addr h + n_prev_file_size h + i * PAGE_SIZE) (n_prev_file_size h + i * PAGE_SIZE) = (?p, h1)"
    by (simp add: h1_def nlm_page_alloc_def Let_def)
  have nos: "set xs \<union> in_tree h = page_nos h" using rep by (simp add: nlm_rep_def)
  moreover have "?p \<notin> page_nos h" by (simp add: page_nos_def)
  ultimately have nin: "?p \<notin> set xs" "?p \<notin> in_tree h" by blast+
  have h1: "n_links h1 = n_links h" "n_size h1 = n_size h" "n_last h1 = n_last h" "n_root h1 = n_root h"
    "n_page h1 = (n_page h)(?p := \<lparr>np_pgoff = n_prev_file_size h + i * PAGE_SIZE,
       np_addr = n_start_addr h + n_prev_file_size h + i * PAGE_SIZE, np_is_free = False, np_is_use = False, np_is_nonlinear = False\<rparr>)"
    by (simp_all add: h1_def nlm_page_alloc_def Let_def set_page_def)
  have h1': "n_pgcnt h1 = ?p" "n_start_addr h1 = n_start_addr h" "n_file_size h1 = n_file_size h"
      "n_prev_file_size h1 = n_prev_file_size h"
    by (simp_all add: h1_def nlm_page_alloc_def Let_def set_page_def)
  have s1: "dlist (n_links h1) N_FREE_HEAD xs" "n_size h1 = length xs" "n_last h1 = (if xs = [] then 0 else last xs)"
    using rep by (simp_all add: nlm_rep_def h1)
  from nlm_append_ok [OF s1 _ nin(1)] obtain q where
    q: "nlm_free_page h1 ?p False = Inr (set_page ?p (MARK_PAGE_AS_FREE (n_page h1 ?p))
         (h1\<lparr>n_links := q, n_last := ?p, n_size := length (xs @ [?p])\<rparr>))" "dlist q N_FREE_HEAD (xs @ [?p])" by auto
  let ?h = "set_page ?p (MARK_PAGE_AS_FREE (n_page h1 ?p)) (h1\<lparr>n_links := q, n_last := ?p, n_size := length (xs @ [?p])\<rparr>)"
  have ok: "add_pages [i] h = Inr ?h" using al q(1) by simp
  have old: "n_page ?h p = n_page h p" if "p \<in> page_nos h" for p
    using that by (auto simp: set_page_def h1 page_nos_def)
  have new: "np_addr (n_page ?h ?p) = n_start_addr h + n_pgcnt h * PAGE_SIZE" "np_pgoff (n_page ?h ?p) = n_pgcnt h * PAGE_SIZE"
      "np_is_free (n_page ?h ?p)"
    using off by (simp_all add: set_page_def h1 MARK_PAGE_AS_FREE_def)
  have tr: "in_tree ?h = in_tree h" by (simp add: in_tree_def set_page_def h1)
  have pn: "page_nos ?h = insert ?p (page_nos h)" using h1'(1) by (auto simp: page_nos_def set_page_def)
  have sub: "in_tree h \<subseteq> page_nos h" "set xs \<subseteq> page_nos h" using nos by auto
  have same: "map (\<lambda>p. np_addr (n_page ?h p)) (inorder (n_root h)) = map (\<lambda>p. np_addr (n_page h p)) (inorder (n_root h))"
    using old sub(1) by (auto simp: in_tree_def)
  have "rb_tree (\<lambda>p. np_addr (n_page h p)) (n_root h)" using rep by (simp add: nlm_rep_def)
  then have "rb_tree (\<lambda>p. np_addr (n_page ?h p)) (n_root h)" by (simp only: rb_tree_def ascending_def same)
  then have tree: "rb_tree (\<lambda>p. np_addr (n_page ?h p)) (n_root ?h)" by (simp add: set_page_def h1)
  have "nlm_rep ?h (xs @ [?p])"
    unfolding nlm_rep_def tr pn
  proof (intro conjI)
    show "dlist (n_links ?h) N_FREE_HEAD (xs @ [?p])" using q(2) by (simp add: set_page_def)
    show "n_size ?h = length (xs @ [?p])" "n_last ?h = (if xs @ [?p] = [] then 0 else last (xs @ [?p]))"
      by (simp_all add: set_page_def)
    show "rb_tree (\<lambda>p. np_addr (n_page ?h p)) (n_root ?h)" by (rule tree)
    show "set (xs @ [?p]) \<union> in_tree h = insert ?p (page_nos h)" using nos by auto
    show "set (xs @ [?p]) \<inter> in_tree h = {}" using rep nin by (auto simp: nlm_rep_def)
    have "n_start_addr ?h = n_start_addr h" using h1' by (simp add: set_page_def)
    then show "\<forall>p\<in>insert ?p (page_nos h). np_addr (n_page ?h p) = n_start_addr ?h + (p - 1) * PAGE_SIZE"
      using rep old new(1) by (simp add: nlm_rep_def)
    show "\<forall>p\<in>set (xs @ [?p]). np_is_free (n_page ?h p)"
      using rep old new(3) sub(2) by (auto simp: nlm_rep_def subset_iff)
    show "\<forall>q\<in>in_tree h. np_is_use (n_page ?h q)"
      using rep old sub(1) by (auto simp: nlm_rep_def subset_iff)
  qed
  moreover have "n_pgcnt ?h = ?p" "n_prev_file_size ?h = n_prev_file_size h" "n_file_size ?h = n_file_size h"
      "n_start_addr ?h = n_start_addr h"
    using h1' by (simp_all add: set_page_def)
  ultimately show ?thesis using ok tr new(2) old by blast
qed

lemma add_pages_Cons: "add_pages (i # is) h = bindR (add_pages [i] h) (add_pages is)"
  by (auto simp: bindR_def split: prod.splits sum.splits)

lemma add_pages_ok:
  assumes "nlm_rep h xs" and "n_prev_file_size h + k * PAGE_SIZE = n_pgcnt h * PAGE_SIZE"
  shows "\<exists>h'. add_pages [k..<k + m] h = Inr h' \<and> nlm_rep h' (xs @ [Suc (n_pgcnt h)..<Suc (n_pgcnt h + m)]) \<and>
    n_pgcnt h' = n_pgcnt h + m \<and> n_prev_file_size h' = n_prev_file_size h \<and> n_file_size h' = n_file_size h \<and>
    n_start_addr h' = n_start_addr h \<and> in_tree h' = in_tree h \<and> (\<forall>p\<in>page_nos h. n_page h' p = n_page h p) \<and>
    (\<forall>p\<in>{Suc (n_pgcnt h)..n_pgcnt h + m}. np_pgoff (n_page h' p) = (p - 1) * PAGE_SIZE)"
  using assms
proof (induction m arbitrary: h xs k)
  case 0
  then show ?case by auto
next
  case (Suc m)
  let ?n = "n_pgcnt h"
  from add_page_ok [OF Suc.prems] obtain h1 where
    h1: "add_pages [k] h = Inr h1" "nlm_rep h1 (xs @ [Suc ?n])" "n_pgcnt h1 = Suc ?n"
      "n_prev_file_size h1 = n_prev_file_size h" "n_file_size h1 = n_file_size h" "n_start_addr h1 = n_start_addr h"
      "in_tree h1 = in_tree h" "np_pgoff (n_page h1 (Suc ?n)) = ?n * PAGE_SIZE" "\<forall>p\<in>page_nos h. n_page h1 p = n_page h p"
    by blast
  have "n_prev_file_size h1 + Suc k * PAGE_SIZE = n_pgcnt h1 * PAGE_SIZE" using Suc.prems(2) h1(3,4) by simp
  from Suc.IH [OF h1(2) this] obtain h' where
    h': "add_pages [Suc k..<Suc k + m] h1 = Inr h'" "nlm_rep h' ((xs @ [Suc ?n]) @ [Suc (Suc ?n)..<Suc (Suc ?n + m)])"
      "n_pgcnt h' = Suc ?n + m" "n_prev_file_size h' = n_prev_file_size h" "n_file_size h' = n_file_size h"
      "n_start_addr h' = n_start_addr h" "in_tree h' = in_tree h" "\<forall>p\<in>page_nos h1. n_page h' p = n_page h1 p"
      "\<forall>p\<in>{Suc (Suc ?n)..Suc ?n + m}. np_pgoff (n_page h' p) = (p - 1) * PAGE_SIZE"
    unfolding h1(3-7) by blast
  have u: "[k..<k + Suc m] = k # [Suc k..<Suc k + m]" by (simp add: upt_conv_Cons)
  have ok: "add_pages [k..<k + Suc m] h = Inr h'"
    unfolding u using add_pages_Cons [of k "[Suc k..<Suc k + m]" h] h1(1) h'(1) by (simp only: bindR_simps)
  have l: "(xs @ [Suc ?n]) @ [Suc (Suc ?n)..<Suc (Suc ?n + m)] = xs @ [Suc ?n..<Suc (?n + Suc m)]"
    by (simp add: upt_conv_Cons)
  have pn: "page_nos h \<subseteq> page_nos h1" "Suc ?n \<in> page_nos h1" using h1(3) by (auto simp: page_nos_def)
  have "n_page h' p = n_page h p" if "p \<in> page_nos h" for p
    using that pn(1) h1(9) h'(8) by (simp add: subset_iff)
  moreover have "np_pgoff (n_page h' p) = (p - 1) * PAGE_SIZE" if "p \<in> {Suc ?n..?n + Suc m}" for p
  proof (cases "p = Suc ?n")
    case True
    then show ?thesis using h'(8) pn(2) h1(8) by simp
  next
    case False
    then show ?thesis using that h'(9) by simp
  qed
  moreover have "nlm_rep h' (xs @ [Suc ?n..<Suc (?n + Suc m)])" using h'(2) by (simp only: l)
  moreover have "n_pgcnt h' = ?n + Suc m" using h'(3) by simp
  ultimately show ?case using ok h'(4-7) by blast
qed

lemma bij_pgoff:
  assumes "bij_betw f {1..n} ((\<lambda>k. k * PAGE_SIZE) ` {..<n})" and "\<forall>p\<in>{Suc n..n + m}. f p = (p - 1) * PAGE_SIZE"
  shows "bij_betw f {1..n + m} ((\<lambda>k. k * PAGE_SIZE) ` {..<n + m})"
proof -
  have i: "inj_on f {Suc n..n + m}" using assms(2) by (auto simp: inj_on_def PAGE_SIZE_def)
  have "f ` {Suc n..n + m} = (\<lambda>p. (p - 1) * PAGE_SIZE) ` {Suc n..n + m}" using assms(2) by auto
  also have "\<dots> = (\<lambda>k. k * PAGE_SIZE) ` ((\<lambda>p. p - 1) ` {Suc n..n + m})" by (simp add: image_image)
  also have "(\<lambda>p. p - 1) ` {Suc n..n + m} = {n..<n + m}"
  proof -
    have "k \<in> (\<lambda>p. p - 1) ` {Suc n..n + m}" if "k \<in> {n..<n + m}" for k
      using that by (intro image_eqI [of _ _ "Suc k"]) auto
    then show ?thesis by auto
  qed
  finally have "bij_betw f {Suc n..n + m} ((\<lambda>k. k * PAGE_SIZE) ` {n..<n + m})" using i by (simp add: bij_betw_def)
  moreover have "(\<lambda>k. k * PAGE_SIZE) ` {..<n} \<inter> (\<lambda>k. k * PAGE_SIZE) ` {n..<n + m} = {}" by (auto simp: PAGE_SIZE_def)
  ultimately have "bij_betw f ({1..n} \<union> {Suc n..n + m}) ((\<lambda>k. k * PAGE_SIZE) ` {..<n} \<union> (\<lambda>k. k * PAGE_SIZE) ` {n..<n + m})"
    by (rule bij_betw_combine [OF assms(1)])
  moreover have "{1..n} \<union> {Suc n..n + m} = {1..n + m}" by auto
  moreover have "{..<n} \<union> {n..<n + m} = {..<n + m}" by auto
  then have "(\<lambda>k. k * PAGE_SIZE) ` {..<n} \<union> (\<lambda>k. k * PAGE_SIZE) ` {n..<n + m} = (\<lambda>k. k * PAGE_SIZE) ` {..<n + m}"
    by (simp only: image_Un [symmetric])
  ultimately show ?thesis by (simp only:)
qed

text \<open>
  Mapping the part of the file that was added.  The state before is described as after
  \<^verbatim>\<open>nlm_grow_file\<close>; \<^verbatim>\<open>base\<close> is the address of the file, found in the maps when there is none yet.
\<close>

lemma map_appending_ok:
  assumes rep: "nlm_rep h []" and sizes: "n_prev_file_size h = n_pgcnt h * PAGE_SIZE" "n_file_size h = (n_pgcnt h + m) * PAGE_SIZE"
    and nm: "\<not> n_is_fully_mapped h"
    and base: "base = (if n_start_addr h = 0 then unat (map_hint (of_nat (n_file_size h)) (os_maps s)) else n_start_addr h)"
      "0 < base" "PAGE_SIZE dvd base" "n_start_addr h = 0 \<Longrightarrow> n_pgcnt h = 0"
    and place: "os_place s (base + n_prev_file_size h) (m * PAGE_SIZE) = base + n_prev_file_size h"
    and bij: "bij_betw (\<lambda>p. np_pgoff (n_page h p)) (page_nos h) ((\<lambda>k. k * PAGE_SIZE) ` {..<n_pgcnt h})"
    and vm: "\<forall>p\<in>page_nos h. os_vm s (vpn (np_addr (n_page h p))) = Some (np_pgoff (n_page h p) div PAGE_SIZE)"
    and len: "n_file_size h \<le> os_len s"
  shows "\<exists>h' s'. map_appending h True s = Inr (h', s') \<and> nlm_rep h' [Suc (n_pgcnt h)..<Suc (n_pgcnt h + m)] \<and>
    nlm_wf h' \<and> nlm_mapped h' s' \<and> n_start_addr h' = base \<and> n_pgcnt h' = n_pgcnt h + m \<and> in_tree h' = in_tree h \<and>
    os_pages s' = os_pages s \<and> os_space s' = os_space s \<and> os_place s' = os_place s \<and>
    (\<forall>p\<in>{Suc (n_pgcnt h)..n_pgcnt h + m}. np_pgoff (n_page h' p) = (p - 1) * PAGE_SIZE) \<and>
    (\<forall>p\<in>page_nos h. n_page h' p = n_page h p)"
proof -
  let ?n = "n_pgcnt h" and ?hint = "base + n_prev_file_size h"
  define s1 where "s1 = snd (sys_mmap ?hint (m * PAGE_SIZE) DEFAULT_MAPPING_PROT (n_prev_file_size h) s)"
  have mm: "sys_mmap ?hint (m * PAGE_SIZE) DEFAULT_MAPPING_PROT (n_prev_file_size h) s = (?hint, s1)"
    using place by (simp add: s1_def sys_mmap_def Let_def)
  define h1 where "h1 = h\<lparr>n_start_addr := base\<rparr>"
  have h1eq: "(if n_start_addr h = 0 then h\<lparr>n_start_addr := ?hint\<rparr> else h) = h1"
    using base(1,4) sizes(1) by (auto simp: h1_def)
  have hint: "(if n_start_addr h = 0 then unat (map_hint (of_nat (n_file_size h)) (os_maps s))
                 else n_start_addr h + n_prev_file_size h) = ?hint"
    using base(1,4) sizes(1) by auto
  have fs: "n_file_size h - n_prev_file_size h = m * PAGE_SIZE" using sizes by (simp add: algebra_simps)
  have rep1: "nlm_rep h1 []" using rep base(1,4) by (auto simp: nlm_rep_def h1_def page_nos_def in_tree_def)
  have "n_prev_file_size h1 + 0 * PAGE_SIZE = n_pgcnt h1 * PAGE_SIZE" using sizes(1) by (simp add: h1_def)
  from add_pages_ok [OF rep1 this, of m] obtain h2 where
    h2: "add_pages [0..<m] h1 = Inr h2" "nlm_rep h2 [Suc ?n..<Suc (?n + m)]" "n_pgcnt h2 = ?n + m"
      "n_file_size h2 = n_file_size h" "n_start_addr h2 = base" "in_tree h2 = in_tree h"
      "\<forall>p\<in>page_nos h. n_page h2 p = n_page h p" "\<forall>p\<in>{Suc ?n..?n + m}. np_pgoff (n_page h2 p) = (p - 1) * PAGE_SIZE"
    by (auto simp: h1_def in_tree_def page_nos_def)
  have "add_pages_to_free_list h1 = Inr h2"
    using h2(1) fs by (simp add: add_pages_to_free_list_def h1_def PAGE_SIZE_def)
  then have ok: "map_appending h True s = Inr (h2\<lparr>n_is_fully_mapped := True\<rparr>, s1)"
    using nm by (simp add: map_appending_def hint fs mm h1eq)
  let ?h = "h2\<lparr>n_is_fully_mapped := True\<rparr>"
  have rep2: "nlm_rep ?h [Suc ?n..<Suc (?n + m)]" using h2(2) by (simp add: nlm_rep_def in_tree_def page_nos_def)
  have "bij_betw (\<lambda>p. np_pgoff (n_page h2 p)) {1..?n} ((\<lambda>k. k * PAGE_SIZE) ` {..<?n})"
  proof -
    have "np_pgoff (n_page h p) = np_pgoff (n_page h2 p)" if "p \<in> {1..?n}" for p using that h2(7) by (simp add: page_nos_def)
    then have "bij_betw (\<lambda>p. np_pgoff (n_page h p)) {1..?n} A = bij_betw (\<lambda>p. np_pgoff (n_page h2 p)) {1..?n} A" for A
      by (rule bij_betw_cong)
    with bij show ?thesis by (simp only: page_nos_def)
  qed
  from bij_pgoff [OF this h2(8)] have wf: "nlm_wf ?h"
    using base(2,3) sizes(2) h2(3-5) by (simp add: nlm_wf_def page_nos_def)
  have al: "PAGE_SIZE dvd ?hint" "vpn ?hint = vpn base + ?n" "vpn (n_prev_file_size h) = ?n"
    using base(3) sizes(1) by (auto simp: vpn_def PAGE_SIZE_def)
  have vm1: "os_vm s1 v = (if vpn base + ?n \<le> v \<and> v < vpn base + ?n + m then Some (v - vpn base) else os_vm s v)" for v
    using place by (auto simp: s1_def sys_mmap_def Let_def in_range_pages [OF al(1)] al(2,3))
  have "os_vm s1 (vpn (np_addr (n_page h2 p))) = Some (np_pgoff (n_page h2 p) div PAGE_SIZE)" if "p \<in> {1..?n + m}" for p
  proof -
    have "np_addr (n_page h2 p) = base + (p - 1) * PAGE_SIZE"
      using h2(2,3,5) that by (simp add: nlm_rep_def page_nos_def)
    then have v: "vpn (np_addr (n_page h2 p)) = vpn base + (p - 1)" using base(3) by simp
    show ?thesis
    proof (cases "p \<le> ?n")
      case True
      then have "p \<in> page_nos h" using that by (simp add: page_nos_def)
      then have "os_vm s (vpn base + (p - 1)) = Some (np_pgoff (n_page h2 p) div PAGE_SIZE)"
        using vm h2(7) v by (metis)
      moreover have "vpn base + (p - 1) < vpn base + ?n" using True that by auto
      ultimately show ?thesis by (simp add: v vm1)
    next
      case False
      then have "np_pgoff (n_page h2 p) = (p - 1) * PAGE_SIZE" using h2(8) that by simp
      moreover have "?n \<le> p - 1" "p - 1 < ?n + m" using False that by auto
      ultimately show ?thesis by (simp add: v vm1 PAGE_SIZE_def)
    qed
  qed
  then have "nlm_mapped ?h s1"
    using len h2(3,4) place by (simp add: nlm_mapped_def page_nos_def s1_def sys_mmap_def Let_def)
  moreover have "os_pages s1 = os_pages s" "os_space s1 = os_space s" "os_place s1 = os_place s"
    by (simp_all add: s1_def sys_mmap_def Let_def)
  ultimately show ?thesis using ok rep2 wf h2(3,5,6,7,8) by (auto simp: in_tree_def)
qed

section \<open>Allocation and release\<close>

lemma same_pages_wf:
  assumes "same_pages h h'"
  shows "page_nos h' = page_nos h" "nlm_wf h' \<longleftrightarrow> nlm_wf h" "nlm_mapped h' s \<longleftrightarrow> nlm_mapped h s"
    "np_addr (n_page h' p) = np_addr (n_page h p)" "np_pgoff (n_page h' p) = np_pgoff (n_page h p)"
    "n_start_addr h' = n_start_addr h" "n_pgcnt h' = n_pgcnt h" "n_file_size h' = n_file_size h"
proof -
  have a: "np_addr (n_page h' p) = np_addr (n_page h p)" for p using assms by (auto simp: same_pages_def dest: fun_cong)
  have o: "np_pgoff (n_page h' p) = np_pgoff (n_page h p)" for p using assms by (auto simp: same_pages_def dest: fun_cong)
  have f: "n_start_addr h' = n_start_addr h" "n_pgcnt h' = n_pgcnt h" "n_file_size h' = n_file_size h"
    using assms by (simp_all add: same_pages_def)
  show "page_nos h' = page_nos h" using f by (simp add: page_nos_def)
  then show "nlm_wf h' \<longleftrightarrow> nlm_wf h" "nlm_mapped h' s \<longleftrightarrow> nlm_mapped h s"
    by (simp_all add: nlm_wf_def nlm_mapped_def a o f)
qed (use assms in \<open>auto simp: same_pages_def dest: fun_cong\<close>)

definition nlm_room :: "nlm \<Rightarrow> 'p os \<Rightarrow> bool" where
  "nlm_room h s \<longleftrightarrow> (n_size h = 0 \<longrightarrow> 3 * n_file_size h \<le> os_space s \<and>
     os_place s (n_start_addr h + n_file_size h) (n_file_size h) = n_start_addr h + n_file_size h)"

lemma nlm_refill_ok:
  assumes rep: "nlm_rep h []" and wf: "nlm_wf h" and mp: "nlm_mapped h s" and np: "0 < n_pgcnt h" and room: "nlm_room h s"
  shows "\<exists>h1 s1. bindR (nlm_grow_file h (n_file_size h * 2) s) (\<lambda>(h, s). map_appending h True s) = Inr (h1, s1) \<and>
    nlm_rep h1 [Suc (n_pgcnt h)..<Suc (2 * n_pgcnt h)] \<and> nlm_wf h1 \<and> nlm_mapped h1 s1 \<and>
    n_start_addr h1 = n_start_addr h \<and> n_pgcnt h1 = 2 * n_pgcnt h \<and> in_tree h1 = in_tree h \<and> os_pages s1 = os_pages s \<and>
    (\<forall>p\<in>page_nos h. n_page h1 p = n_page h p)"
proof -
  let ?n = "n_pgcnt h"
  have sz: "n_file_size h = ?n * PAGE_SIZE" and st: "0 < n_start_addr h" "PAGE_SIZE dvd n_start_addr h"
    and z: "n_size h = 0" using wf rep by (simp_all add: nlm_wf_def nlm_rep_def)
  have rm: "3 * n_file_size h \<le> os_space s"
    "os_place s (n_start_addr h + n_file_size h) (n_file_size h) = n_start_addr h + n_file_size h"
    using room z by (simp_all add: nlm_room_def)
  define s0 where "s0 = (stat (INC_BOTH Cont_grow) s)\<lparr>os_len := max (os_len s) (n_file_size h + n_file_size h * 2)\<rparr>"
  define h0 where "h0 = h\<lparr>n_prev_file_size := n_file_size h, n_file_size := n_file_size h * 2, n_is_fully_mapped := False\<rparr>"
  have "n_file_size h * 2 \<noteq> 0" using np sz by (simp add: PAGE_SIZE_def)
  then have g: "nlm_grow_file h (n_file_size h * 2) s = Inr (h0, s0)"
    using z rm(1) by (simp add: nlm_grow_file_def posix_fallocate_def h0_def s0_def check_fallocate_def)
  have rep0: "nlm_rep h0 []" using rep by (simp add: nlm_rep_def h0_def in_tree_def page_nos_def)
  have "\<exists>h' s'. map_appending h0 True s0 = Inr (h', s') \<and> nlm_rep h' [Suc (n_pgcnt h0)..<Suc (n_pgcnt h0 + ?n)] \<and>
    nlm_wf h' \<and> nlm_mapped h' s' \<and> n_start_addr h' = n_start_addr h \<and> n_pgcnt h' = n_pgcnt h0 + ?n \<and> in_tree h' = in_tree h0 \<and>
    os_pages s' = os_pages s0 \<and> os_space s' = os_space s0 \<and> os_place s' = os_place s0 \<and>
    (\<forall>p\<in>{Suc (n_pgcnt h0)..n_pgcnt h0 + ?n}. np_pgoff (n_page h' p) = (p - 1) * PAGE_SIZE) \<and>
    (\<forall>p\<in>page_nos h0. n_page h' p = n_page h0 p)"
  proof (rule map_appending_ok [OF rep0])
    show "n_prev_file_size h0 = n_pgcnt h0 * PAGE_SIZE" "n_file_size h0 = (n_pgcnt h0 + ?n) * PAGE_SIZE"
      using sz by (simp_all add: h0_def algebra_simps)
    show "\<not> n_is_fully_mapped h0" by (simp add: h0_def)
    show "n_start_addr h = (if n_start_addr h0 = 0 then unat (map_hint (of_nat (n_file_size h0)) (os_maps s0)) else n_start_addr h0)"
      "0 < n_start_addr h" "PAGE_SIZE dvd n_start_addr h" "n_start_addr h0 = 0 \<Longrightarrow> n_pgcnt h0 = 0"
      using st by (simp_all add: h0_def)
    show "os_place s0 (n_start_addr h + n_prev_file_size h0) (?n * PAGE_SIZE) = n_start_addr h + n_prev_file_size h0"
      using rm(2) sz by (simp add: h0_def s0_def)
    show "bij_betw (\<lambda>p. np_pgoff (n_page h0 p)) (page_nos h0) ((\<lambda>k. k * PAGE_SIZE) ` {..<n_pgcnt h0})"
      using wf by (simp add: nlm_wf_def h0_def page_nos_def)
    show "\<forall>p\<in>page_nos h0. os_vm s0 (vpn (np_addr (n_page h0 p))) = Some (np_pgoff (n_page h0 p) div PAGE_SIZE)"
      using mp by (simp add: nlm_mapped_def h0_def s0_def page_nos_def)
    show "n_file_size h0 \<le> os_len s0" by (simp add: h0_def s0_def)
  qed
  then obtain h1 s1 where "map_appending h0 True s0 = Inr (h1, s1)" "nlm_rep h1 [Suc ?n..<Suc (?n + ?n)]"
    "nlm_wf h1" "nlm_mapped h1 s1" "n_start_addr h1 = n_start_addr h" "n_pgcnt h1 = ?n + ?n" "in_tree h1 = in_tree h"
    "os_pages s1 = os_pages s" "\<forall>p\<in>page_nos h. n_page h1 p = n_page h p" by (auto simp: h0_def s0_def in_tree_def page_nos_def)
  then show ?thesis using g by (auto simp: mult_2)
qed

lemma nlm_alloc_ok:
  assumes rep: "nlm_rep h xs" and wf: "nlm_wf h" and mp: "nlm_mapped h s" and np: "0 < n_pgcnt h" and room: "nlm_room h s"
  shows "\<exists>p ys h' s'. nlm_alloc_page h flags s = Inr ((n_start_addr h + (p - 1) * PAGE_SIZE, np_pgoff (n_page h' p)), h', s') \<and>
    nlm_rep h' ys \<and> nlm_wf h' \<and> nlm_mapped h' s' \<and> n_start_addr h' = n_start_addr h \<and>
    p # ys = (if xs = [] then [Suc (n_pgcnt h)..<Suc (2 * n_pgcnt h)] else xs) \<and>
    n_pgcnt h' = (if xs = [] then 2 * n_pgcnt h else n_pgcnt h) \<and> in_tree h' = insert p (in_tree h) \<and> p \<in> page_nos h' \<and>
    (writable flags \<longrightarrow> os_prot s' (vpn (n_start_addr h + (p - 1) * PAGE_SIZE)) = flags) \<and> os_pages s' = os_pages s \<and>
    (xs \<noteq> [] \<longrightarrow> same_pages h h') \<and> (\<forall>q\<in>page_nos h. np_pgoff (n_page h' q) = np_pgoff (n_page h q)) \<and>
    (xs \<noteq> [] \<longrightarrow> os_vm s' = os_vm s \<and>
      (\<forall>v. v \<noteq> vpn (n_start_addr h + (p - 1) * PAGE_SIZE) \<longrightarrow> os_prot s' v = os_prot s v))"
proof -
  have "\<exists>h1 s1. (if n_size h = 0
            then bindR (nlm_grow_file h (n_file_size h * 2) s) (\<lambda>(h, s). map_appending h True s)
            else Inr (h, s)) = Inr (h1, s1) \<and>
    nlm_rep h1 (if xs = [] then [Suc (n_pgcnt h)..<Suc (2 * n_pgcnt h)] else xs) \<and> nlm_wf h1 \<and> nlm_mapped h1 s1 \<and>
    n_start_addr h1 = n_start_addr h \<and> n_pgcnt h1 = (if xs = [] then 2 * n_pgcnt h else n_pgcnt h) \<and>
    in_tree h1 = in_tree h \<and> os_pages s1 = os_pages s \<and> (xs \<noteq> [] \<longrightarrow> h1 = h \<and> s1 = s) \<and>
    (\<forall>p\<in>page_nos h. n_page h1 p = n_page h p)"
  proof (cases "xs = []")
    case True
    then show ?thesis using nlm_refill_ok [of h s] rep wf mp np room by (simp add: nlm_rep_def [of h])
  next
    case False
    then show ?thesis using rep wf mp by (auto simp: nlm_rep_def)
  qed
  then obtain h1 s1 where r: "(if n_size h = 0
            then bindR (nlm_grow_file h (n_file_size h * 2) s) (\<lambda>(h, s). map_appending h True s)
            else Inr (h, s)) = Inr (h1, s1)"
    "nlm_rep h1 (if xs = [] then [Suc (n_pgcnt h)..<Suc (2 * n_pgcnt h)] else xs)" "nlm_wf h1" "nlm_mapped h1 s1"
    "n_start_addr h1 = n_start_addr h" "n_pgcnt h1 = (if xs = [] then 2 * n_pgcnt h else n_pgcnt h)"
    "in_tree h1 = in_tree h" "os_pages s1 = os_pages s" "xs \<noteq> [] \<longrightarrow> h1 = h \<and> s1 = s" "\<forall>p\<in>page_nos h. n_page h1 p = n_page h p" by blast
  have "(if xs = [] then [Suc (n_pgcnt h)..<Suc (2 * n_pgcnt h)] else xs) \<noteq> []" using np by auto
  then obtain p ys where xs: "(if xs = [] then [Suc (n_pgcnt h)..<Suc (2 * n_pgcnt h)] else xs) = p # ys"
    by (meson neq_Nil_conv)
  have rep1: "nlm_rep h1 (p # ys)" using r(2) by (simp only: xs)
  from nlm_use_page_ok [OF rep1] obtain h2 where
    h2: "nlm_use_page h1 p = Inr h2" "nlm_rep h2 ys" "same_pages h1 h2" "in_tree h2 = insert p (in_tree h1)" by blast
  note same = same_pages_wf [OF h2(3)]
  have "dlist (n_links h1) N_FREE_HEAD (p # ys)" using rep1 by (simp add: nlm_rep_def)
  from LIST_FIRST_spec [OF this] have first: "LIST_FIRST (n_links h1) N_FREE_HEAD = p" by simp
  have pn: "p \<in> page_nos h1" using rep1 by (auto simp: nlm_rep_def)
  have addr: "np_addr (n_page h2 p) = n_start_addr h + (p - 1) * PAGE_SIZE"
    using rep1 pn r(5) same(4) by (simp add: nlm_rep_def)
  have wf2: "nlm_wf h2" using r(3) same(2) by simp
  have al: "PAGE_SIZE dvd np_addr (n_page h2 p)" using wf2 addr r(5) same(6) by (simp add: nlm_wf_def)
  have vm: "os_vm s1 (vpn (np_addr (n_page h2 p))) \<noteq> None" using r(4) pn same(4) by (simp add: nlm_mapped_def)
  define s2 where "s2 = (if writable flags
     then (stat (INC_BOTH Memprotects) s1)\<lparr>os_prot := (os_prot s1)(vpn (np_addr (n_page h2 p)) := flags)\<rparr> else s1)"
  have prot: "(if writable flags then page_allocator_mprotect_generic (np_addr (n_page h2 p)) PAGE_SIZE flags s1 else Inr s1) = Inr s2"
    using mprotect_page [OF al vm, of flags] by (simp add: s2_def)
  have res: "nlm_alloc_page h flags s = Inr ((np_addr (n_page h2 p), np_pgoff (n_page h2 p)), h2, s2)"
    unfolding nlm_alloc_page_def r(1) by (simp only: bindR_simps prod.case Let_def first h2(1) prot)
  have "nlm_mapped h2 s2" using r(4) same(3) by (auto simp: nlm_mapped_def s2_def)
  moreover have "writable flags \<longrightarrow> os_prot s2 (vpn (np_addr (n_page h2 p))) = flags" by (simp add: s2_def)
  moreover have "os_pages s2 = os_pages s" using r(8) by (simp add: s2_def)
  moreover have "xs \<noteq> [] \<longrightarrow> same_pages h h2" using r(9) h2(3) by auto
  moreover have "xs \<noteq> [] \<longrightarrow> os_vm s2 = os_vm s \<and> (\<forall>v. v \<noteq> vpn (np_addr (n_page h2 p)) \<longrightarrow> os_prot s2 v = os_prot s v)"
    using r(9) by (simp add: s2_def)
  moreover have "\<forall>q\<in>page_nos h. np_pgoff (n_page h2 q) = np_pgoff (n_page h q)" using r(10) same(5) by simp
  ultimately show ?thesis using res h2(2,4) wf2 r(5-7) same(1,6,7) pn xs unfolding addr by auto
qed

lemma nlm_free_ok:
  assumes rep: "nlm_rep h xs" and wf: "nlm_wf h" and p: "p \<in> in_tree h"
  shows "\<exists>h'. nlm_free_pages h (n_start_addr h + (p - 1) * PAGE_SIZE) = Inr h' \<and> nlm_rep h' (xs @ [p]) \<and>
    same_pages h h' \<and> in_tree h' = in_tree h - {p}"
proof -
  have pn: "p \<in> page_nos h" using rep p by (auto simp: nlm_rep_def)
  then have a: "np_addr (n_page h p) = n_start_addr h + (p - 1) * PAGE_SIZE" using rep by (simp add: nlm_rep_def)
  have "PAGE_SIZE dvd n_start_addr h + (p - 1) * PAGE_SIZE" using wf by (simp add: nlm_wf_def)
  then have d: "(n_start_addr h + (p - 1) * PAGE_SIZE) div PAGE_SIZE * PAGE_SIZE = n_start_addr h + (p - 1) * PAGE_SIZE"
    by (rule dvd_div_mult_self)
  have "nlm_find h (n_start_addr h + (p - 1) * PAGE_SIZE) = Some p" using nlm_find_ok [OF rep p] a by simp
  then show ?thesis using nlm_free_page_ok [OF rep p] unfolding nlm_free_pages_def d by simp
qed

lemma nlm_alloc_needs_room:
  assumes wf: "nlm_wf h" and rep: "nlm_rep h xs" and np: "0 < n_pgcnt h" and ok: "nlm_alloc_page h flags s = Inr r"
  shows "nlm_room h s"
proof (rule ccontr)
  assume nr: "\<not> nlm_room h s"
  then have z: "n_size h = 0" by (auto simp: nlm_room_def)
  have sz: "n_file_size h = n_pgcnt h * PAGE_SIZE" "0 < n_start_addr h" using wf by (simp_all add: nlm_wf_def)
  from ok z obtain h1 s1 h2 s2 where g: "nlm_grow_file h (n_file_size h * 2) s = Inr (h1, s1)"
    "map_appending h1 True s1 = Inr (h2, s2)"
    by (auto simp: nlm_alloc_page_def bindR_Inr_iff)
  have "n_file_size h * 2 \<noteq> 0" using np sz by (simp add: PAGE_SIZE_def)
  then have sp: "3 * n_file_size h \<le> os_space s"
    and h1: "n_start_addr h1 = n_start_addr h" "n_prev_file_size h1 = n_file_size h" "n_file_size h1 = n_file_size h * 2"
      "os_place s1 = os_place s"
    using g(1) z by (auto simp: nlm_grow_file_def posix_fallocate_def check_fallocate_def ENOSPC_def EINVAL_def split: if_splits)
  have "os_place s1 (n_start_addr h + n_file_size h) (n_file_size h) = n_start_addr h + n_file_size h"
    using g(2) h1(1-3) sz(2) by (auto simp: map_appending_def sys_mmap_def Let_def bindR_Inr_iff)
  with nr z sp h1(4) show False by (simp add: nlm_room_def)
qed

section \<open>The non-linear mapper is a page allocator\<close>

definition nlm_inv :: "nlm \<times> 'p os \<Rightarrow> bool" where
  "nlm_inv m \<longleftrightarrow> (\<exists>xs. nlm_rep (fst m) xs) \<and> nlm_wf (fst m) \<and> nlm_mapped (fst m) (snd m) \<and> 0 < n_pgcnt (fst m)"

definition nlm_in_use :: "nlm \<times> 'p os \<Rightarrow> nat set" where
  "nlm_in_use m = (\<lambda>p. n_start_addr (fst m) + (p - 1) * PAGE_SIZE) ` in_tree (fst m)"

definition nlm_alloc :: "nlm \<times> 'p os \<Rightarrow> nat \<Rightarrow> ((nat \<times> nat) \<times> nlm \<times> 'p os) res" where
  "nlm_alloc m flags = nlm_alloc_page (fst m) flags (snd m)"

definition nlm_release :: "nlm \<times> 'p os \<Rightarrow> nat \<Rightarrow> (nlm \<times> 'p os) res" where
  "nlm_release m a = bindR (nlm_free_pages (fst m) a) (\<lambda>h. Inr (h, snd m))"

lemma nlm_addr_inj_on: "inj_on (\<lambda>p. n_start_addr h + (p - 1) * PAGE_SIZE) (page_nos h)"
  by (rule inj_onI) (auto simp: page_nos_def PAGE_SIZE_def)

interpretation nl: page_source nlm_inv nlm_in_use nlm_alloc nlm_release
proof unfold_locales
  fix m :: "nlm \<times> 'p os" and flags a l m'
  assume inv: "nlm_inv m" and ok: "nlm_alloc m flags = Inr ((a, l), m')"
  obtain h s where m: "m = (h, s)" by force
  from inv m obtain xs where rep: "nlm_rep h xs" and wf: "nlm_wf h" and mp: "nlm_mapped h s" and np: "0 < n_pgcnt h"
    by (auto simp: nlm_inv_def)
  have ok': "nlm_alloc_page h flags s = Inr ((a, l), m')" using ok m by (simp add: nlm_alloc_def)
  have "nlm_room h s" by (rule nlm_alloc_needs_room [OF wf rep np ok'])
  from nlm_alloc_ok [OF rep wf mp np this, of flags] obtain p ys h' s' where
    al: "nlm_alloc_page h flags s = Inr ((n_start_addr h + (p - 1) * PAGE_SIZE, np_pgoff (n_page h' p)), h', s')"
      "nlm_rep h' ys" "nlm_wf h'" "nlm_mapped h' s'" "n_start_addr h' = n_start_addr h"
      "p # ys = (if xs = [] then [Suc (n_pgcnt h)..<Suc (2 * n_pgcnt h)] else xs)"
      "n_pgcnt h' = (if xs = [] then 2 * n_pgcnt h else n_pgcnt h)" "in_tree h' = insert p (in_tree h)" "p \<in> page_nos h'"
    by blast
  have eq: "a = n_start_addr h + (p - 1) * PAGE_SIZE" "m' = (h', s')" using ok' al(1) by auto
  have "p \<notin> in_tree h"
  proof (cases "xs = []")
    case True
    then have "p \<in> set [Suc (n_pgcnt h)..<Suc (2 * n_pgcnt h)]" using al(6) by (metis list.set_intros(1))
    moreover have "in_tree h \<subseteq> page_nos h" using rep by (auto simp: nlm_rep_def)
    ultimately show ?thesis by (auto simp: page_nos_def)
  next
    case False
    then have "p \<in> set xs" using al(6) by (metis list.set_intros(1))
    then show ?thesis using rep by (auto simp: nlm_rep_def)
  qed
  moreover have "in_tree h' \<subseteq> page_nos h'" using al(2) by (auto simp: nlm_rep_def)
  ultimately have "a \<notin> nlm_in_use m"
    using inj_on_image_mem_iff [OF nlm_addr_inj_on al(9), of "in_tree h"] al(5,8) eq(1) m
    by (auto simp: nlm_in_use_def)
  moreover have "nlm_in_use m' = insert a (nlm_in_use m)" using al(5,8) eq m by (simp add: nlm_in_use_def)
  moreover have "nlm_inv m'" using al(2-4,7) np eq(2) by (auto simp: nlm_inv_def)
  moreover have "PAGE_SIZE dvd a" using wf eq(1) by (simp add: nlm_wf_def)
  ultimately show "nlm_inv m' \<and> a \<notin> nlm_in_use m \<and> nlm_in_use m' = insert a (nlm_in_use m) \<and> PAGE_SIZE dvd a" by blast
next
  fix m :: "nlm \<times> 'p os" and a
  assume inv: "nlm_inv m" and a: "a \<in> nlm_in_use m"
  obtain h s where m: "m = (h, s)" by force
  from inv m obtain xs where rep: "nlm_rep h xs" and wf: "nlm_wf h" and mp: "nlm_mapped h s" and np: "0 < n_pgcnt h"
    by (auto simp: nlm_inv_def)
  from a m obtain p where p: "a = n_start_addr h + (p - 1) * PAGE_SIZE" "p \<in> in_tree h" by (auto simp: nlm_in_use_def)
  from nlm_free_ok [OF rep wf p(2)] obtain h' where
    h': "nlm_free_pages h a = Inr h'" "nlm_rep h' (xs @ [p])" "same_pages h h'" "in_tree h' = in_tree h - {p}"
    using p(1) by auto
  note same = same_pages_wf [OF h'(3)]
  have "in_tree h \<subseteq> page_nos h" using rep by (auto simp: nlm_rep_def)
  then have "nlm_in_use (h', s) = nlm_in_use m - {a}"
    using inj_on_image_set_diff [OF nlm_addr_inj_on [of h], of "in_tree h" "{p}"] p m h'(4) same(6)
    by (auto simp: nlm_in_use_def)
  moreover have "nlm_inv (h', s)" using h'(2) wf mp np same(2,3,7) by (auto simp: nlm_inv_def)
  ultimately show "\<exists>m'. nlm_release m a = Inr m' \<and> nlm_inv m' \<and> nlm_in_use m' = nlm_in_use m - {a}"
    using h'(1) m by (auto simp: nlm_release_def)
qed

text \<open>The contents of the pages in use stay while pages are handed out and taken back.\<close>

lemma nlm_alloc_pgoff:
  assumes "nlm_inv m" "nlm_alloc m flags = Inr ((a, l), m')"
  shows "os_pages (snd m') = os_pages (snd m) \<and> n_start_addr (fst m') = n_start_addr (fst m) \<and> nlm_mapped (fst m') (snd m') \<and>
    (\<exists>ys. nlm_rep (fst m') ys) \<and> page_nos (fst m) \<subseteq> page_nos (fst m') \<and> a \<in> nlm_in_use m' \<and>
    (\<forall>q\<in>page_nos (fst m). np_pgoff (n_page (fst m') q) = np_pgoff (n_page (fst m) q))"
proof -
  obtain h s where m: "m = (h, s)" by force
  from assms(1) m obtain xs where rep: "nlm_rep h xs" and wf: "nlm_wf h" and mp: "nlm_mapped h s" and np: "0 < n_pgcnt h"
    by (auto simp: nlm_inv_def)
  have ok': "nlm_alloc_page h flags s = Inr ((a, l), m')" using assms(2) m by (simp add: nlm_alloc_def)
  from nlm_alloc_ok [OF rep wf mp np nlm_alloc_needs_room [OF wf rep np ok'], of flags] obtain p ys h' s' where
    al: "nlm_alloc_page h flags s = Inr ((n_start_addr h + (p - 1) * PAGE_SIZE, np_pgoff (n_page h' p)), h', s')"
      "nlm_rep h' ys" "nlm_mapped h' s'" "n_start_addr h' = n_start_addr h" "os_pages s' = os_pages s"
      "n_pgcnt h' = (if xs = [] then 2 * n_pgcnt h else n_pgcnt h)" "in_tree h' = insert p (in_tree h)"
      "\<forall>q\<in>page_nos h. np_pgoff (n_page h' q) = np_pgoff (n_page h q)" by blast
  have "page_nos h \<subseteq> page_nos h'" using al(6) by (auto simp: page_nos_def split: if_splits)
  then show ?thesis using al ok' m by (auto simp: nlm_in_use_def)
qed

lemma nlm_view:
  assumes "nlm_rep h xs" "nlm_mapped h s" "p \<in> page_nos h"
  shows "page_at s (n_start_addr h + (p - 1) * PAGE_SIZE) = Some (os_pages s (np_pgoff (n_page h p) div PAGE_SIZE))"
proof -
  have "n_start_addr h + (p - 1) * PAGE_SIZE = np_addr (n_page h p)" using assms by (simp add: nlm_rep_def)
  then show ?thesis using assms(2,3) by (simp add: page_at_def nlm_mapped_def)
qed

interpretation nlv: page_memory nlm_inv nlm_in_use nlm_alloc nlm_release "\<lambda>m. page_at (snd m)"
proof unfold_locales
  fix m :: "nlm \<times> 'p os" and flags a l m' b
  assume inv: "nlm_inv m" and ok: "nlm_alloc m flags = Inr ((a, l), m')"
  note al = nlm_alloc_pgoff [OF inv ok]
  then obtain ys where rep': "nlm_rep (fst m') ys" by blast
  from inv obtain xs where rep: "nlm_rep (fst m) xs" "nlm_mapped (fst m) (snd m)" by (auto simp: nlm_inv_def)
  obtain q where "a = n_start_addr (fst m') + (q - 1) * PAGE_SIZE" "q \<in> in_tree (fst m')"
    using al unfolding nlm_in_use_def by blast
  moreover have "in_tree (fst m') \<subseteq> page_nos (fst m')" using rep' by (auto simp: nlm_rep_def)
  ultimately show "page_at (snd m') a \<noteq> None" using nlm_view [OF rep', of "snd m'" q] al by auto
  assume "b \<in> nlm_in_use m"
  then obtain p where p: "b = n_start_addr (fst m) + (p - 1) * PAGE_SIZE" "p \<in> in_tree (fst m)" by (auto simp: nlm_in_use_def)
  then have "p \<in> page_nos (fst m)" using rep(1) by (auto simp: nlm_rep_def)
  then show "page_at (snd m') b = page_at (snd m) b"
    using nlm_view [OF rep, of p] nlm_view [OF rep', of "snd m'" p] al p(1) by auto
next
  fix m :: "nlm \<times> 'p os" and a m' b
  assume "nlm_release m a = Inr m'"
  then show "page_at (snd m') b = page_at (snd m) b" by (auto simp: nlm_release_def bindR_Inr_iff)
qed

definition nlm_frame :: "nlm \<times> 'p os \<Rightarrow> nat \<Rightarrow> nat option" where "nlm_frame m a = os_vm (snd m) (vpn a)"
definition nlm_prot :: "nlm \<times> 'p os \<Rightarrow> nat \<Rightarrow> nat" where "nlm_prot m a = os_prot (snd m) (vpn a)"
definition nlm_spare :: "nlm \<times> 'p os \<Rightarrow> nat" where "nlm_spare m = n_size (fst m)"

lemma nlm_in_use_frame:
  assumes "nlm_rep h xs" "nlm_wf h" "nlm_mapped h s" "p \<in> in_tree h"
  shows "p \<in> page_nos h \<and> PAGE_SIZE dvd n_start_addr h + (p - 1) * PAGE_SIZE \<and> 0 < n_start_addr h + (p - 1) * PAGE_SIZE \<and>
    os_vm s (vpn (n_start_addr h + (p - 1) * PAGE_SIZE)) = Some (np_pgoff (n_page h p) div PAGE_SIZE)"
proof -
  have p: "p \<in> page_nos h" using assms(1,4) by (auto simp: nlm_rep_def)
  then have "n_start_addr h + (p - 1) * PAGE_SIZE = np_addr (n_page h p)" using assms(1) by (simp add: nlm_rep_def)
  then have "os_vm s (vpn (n_start_addr h + (p - 1) * PAGE_SIZE)) = Some (np_pgoff (n_page h p) div PAGE_SIZE)"
    using assms(3) p by (simp add: nlm_mapped_def)
  moreover have "PAGE_SIZE dvd n_start_addr h + (p - 1) * PAGE_SIZE" "0 < n_start_addr h + (p - 1) * PAGE_SIZE"
    using assms(2) by (simp_all add: nlm_wf_def)
  ultimately show ?thesis using p by blast
qed

lemma nlm_pgoff_inj:
  assumes "nlm_wf h" "p \<in> page_nos h" "q \<in> page_nos h" "np_pgoff (n_page h p) div PAGE_SIZE = np_pgoff (n_page h q) div PAGE_SIZE"
  shows "p = q"
proof -
  have b: "bij_betw (\<lambda>p. np_pgoff (n_page h p)) (page_nos h) ((\<lambda>k. k * PAGE_SIZE) ` {..<n_pgcnt h})"
    using assms(1) by (simp add: nlm_wf_def)
  have "PAGE_SIZE dvd np_pgoff (n_page h x)" if "x \<in> page_nos h" for x
    using bij_betwE [OF b] that by auto
  then have "np_pgoff (n_page h p) = np_pgoff (n_page h q)" using assms(2-4) by (metis dvd_div_mult_self)
  then show ?thesis using b assms(2,3) by (auto simp: bij_betw_def inj_on_def)
qed

lemma nlm_vpn_inj:
  assumes "nlm_wf h" "p \<in> page_nos h" "q \<in> page_nos h" "p \<noteq> q"
  shows "vpn (n_start_addr h + (p - 1) * PAGE_SIZE) \<noteq> vpn (n_start_addr h + (q - 1) * PAGE_SIZE)"
  using assms vpn_aligned [of "n_start_addr h" "p - 1"] vpn_aligned [of "n_start_addr h" "q - 1"]
  by (auto simp: nlm_wf_def page_nos_def)

interpretation nls: page_store nlm_inv nlm_in_use nlm_alloc nlm_release "\<lambda>m. page_at (snd m)" nlm_frame nlm_prot nlm_spare
proof unfold_locales
  fix m :: "nlm \<times> 'p os" and a
  assume inv: "nlm_inv m" and a: "a \<in> nlm_in_use m"
  then obtain p where "a = n_start_addr (fst m) + (p - 1) * PAGE_SIZE" "p \<in> in_tree (fst m)" by (auto simp: nlm_in_use_def)
  with inv show "PAGE_SIZE dvd a \<and> 0 < a \<and> nlm_frame m a \<noteq> None"
    using nlm_in_use_frame [of "fst m" _ "snd m" p] by (auto simp: nlm_inv_def nlm_frame_def)
next
  fix m :: "nlm \<times> 'p os" and a b
  assume inv: "nlm_inv m" and ab: "a \<in> nlm_in_use m" "b \<in> nlm_in_use m" "nlm_frame m a = nlm_frame m b"
  from ab(1,2) obtain p q where pq: "a = n_start_addr (fst m) + (p - 1) * PAGE_SIZE" "p \<in> in_tree (fst m)"
    "b = n_start_addr (fst m) + (q - 1) * PAGE_SIZE" "q \<in> in_tree (fst m)" by (auto simp: nlm_in_use_def)
  from inv obtain xs where i: "nlm_rep (fst m) xs" "nlm_wf (fst m)" "nlm_mapped (fst m) (snd m)" by (auto simp: nlm_inv_def)
  have "Some (np_pgoff (n_page (fst m) p) div PAGE_SIZE) = Some (np_pgoff (n_page (fst m) q) div PAGE_SIZE)"
    using ab(3) nlm_in_use_frame [OF i pq(2)] nlm_in_use_frame [OF i pq(4)] unfolding nlm_frame_def pq(1,3) by metis
  then have "p = q"
    using nlm_pgoff_inj [OF i(2), of p q] nlm_in_use_frame [OF i pq(2)] nlm_in_use_frame [OF i pq(4)] by simp
  then show "a = b" using pq by simp
next
  fix m :: "nlm \<times> 'p os" and flags
  assume inv: "nlm_inv m" and sp: "0 < nlm_spare m"
  obtain h s where m: "m = (h, s)" by force
  from inv m obtain xs where rep: "nlm_rep h xs" and wf: "nlm_wf h" and mp: "nlm_mapped h s" and np: "0 < n_pgcnt h"
    by (auto simp: nlm_inv_def)
  have xs: "xs \<noteq> []" "n_size h = length xs" using sp rep m by (auto simp: nlm_spare_def nlm_rep_def)
  have "nlm_room h s" using sp m by (simp add: nlm_room_def nlm_spare_def)
  from nlm_alloc_ok [OF rep wf mp np this, of flags] xs(1) obtain p ys h' s' where
    a: "nlm_alloc_page h flags s = Inr ((n_start_addr h + (p - 1) * PAGE_SIZE, np_pgoff (n_page h' p)), h', s')"
      "nlm_rep h' ys" "p # ys = xs"
      "writable flags \<longrightarrow> os_prot s' (vpn (n_start_addr h + (p - 1) * PAGE_SIZE)) = flags" "os_vm s' = os_vm s"
      "\<forall>v. v \<noteq> vpn (n_start_addr h + (p - 1) * PAGE_SIZE) \<longrightarrow> os_prot s' v = os_prot s v" by auto
  have "nlm_spare (h', s') = nlm_spare m - 1" using a(2,3) xs m by (auto simp: nlm_spare_def nlm_rep_def)
  moreover have "vpn b \<noteq> vpn (n_start_addr h + (p - 1) * PAGE_SIZE)" if b: "b \<in> nlm_in_use m" for b
  proof -
    from b m obtain q where q: "b = n_start_addr h + (q - 1) * PAGE_SIZE" "q \<in> in_tree h" by (auto simp: nlm_in_use_def)
    have "p \<in> page_nos h" "q \<in> page_nos h" "p \<noteq> q" using rep q(2) a(3) by (auto simp: nlm_rep_def)
    from nlm_vpn_inj [OF wf this] show ?thesis using q(1) by simp
  qed
  ultimately show "\<exists>a l m'. nlm_alloc m flags = Inr ((a, l), m') \<and> nlm_spare m' = nlm_spare m - 1 \<and>
      (writable flags \<longrightarrow> nlm_prot m' a = flags) \<and>
      (\<forall>b\<in>nlm_in_use m. nlm_frame m' b = nlm_frame m b \<and> nlm_prot m' b = nlm_prot m b)"
    using a(1,4-6) m by (simp add: nlm_alloc_def nlm_frame_def nlm_prot_def)
next
  fix m m' :: "nlm \<times> 'p os" and flags a l
  assume inv: "nlm_inv m" and sp: "0 < nlm_spare m" and ok: "nlm_alloc m flags = Inr ((a, l), m')"
  obtain h s where m: "m = (h, s)" by force
  from inv m obtain xs where rep: "nlm_rep h xs" and wf: "nlm_wf h" and mp: "nlm_mapped h s" and np: "0 < n_pgcnt h"
    by (auto simp: nlm_inv_def)
  have xs: "xs \<noteq> []" using sp rep m by (auto simp: nlm_spare_def nlm_rep_def)
  have "nlm_room h s" using sp m by (simp add: nlm_room_def nlm_spare_def)
  from nlm_alloc_ok [OF rep wf mp np this, of flags] xs ok m obtain s' where
    s': "snd m' = s'" "os_vm s' = os_vm s" "\<forall>v. v \<noteq> vpn a \<longrightarrow> os_prot s' v = os_prot s v" by (auto simp: nlm_alloc_def)
  have "\<not> writable flags \<Longrightarrow> os_prot s' = os_prot s"
    using ok m sp s'(1) by (auto simp: nlm_alloc_def nlm_alloc_page_def nlm_spare_def bindR_Inr_iff Let_def)
  then show "nlm_frame m' = nlm_frame m \<and> (\<forall>b. nlm_frame m b \<noteq> nlm_frame m a \<longrightarrow> nlm_prot m' b = nlm_prot m b) \<and>
      (\<not> writable flags \<longrightarrow> nlm_prot m' = nlm_prot m)"
    using s' m by (simp add: nlm_frame_def nlm_prot_def fun_eq_iff) metis
next
  fix m :: "nlm \<times> 'p os" and a m'
  assume inv: "nlm_inv m" and a: "a \<in> nlm_in_use m" and ok: "nlm_release m a = Inr m'"
  obtain h s where m: "m = (h, s)" by force
  from inv m obtain xs where rep: "nlm_rep h xs" and wf: "nlm_wf h" by (auto simp: nlm_inv_def)
  from a m obtain p where p: "a = n_start_addr h + (p - 1) * PAGE_SIZE" "p \<in> in_tree h" by (auto simp: nlm_in_use_def)
  from nlm_free_ok [OF rep wf p(2)] p(1) obtain h' where h': "nlm_free_pages h a = Inr h'" "nlm_rep h' (xs @ [p])" by auto
  then have "m' = (h', s)" using ok m by (simp add: nlm_release_def)
  then show "nlm_spare m' = Suc (nlm_spare m) \<and> nlm_frame m' = nlm_frame m \<and> nlm_prot m' = nlm_prot m"
    using h'(2) rep m by (simp add: nlm_spare_def nlm_frame_def nlm_prot_def nlm_rep_def fun_eq_iff)
qed

section \<open>Exchange of two pages\<close>

definition exchange :: "'a \<Rightarrow> 'a \<Rightarrow> 'a \<Rightarrow> 'a" where
  "exchange x y p = (if p = x then y else if p = y then x else p)"

lemma exchange_bij: "x \<in> A \<Longrightarrow> y \<in> A \<Longrightarrow> bij_betw (exchange x y) A A"
  by (rule bij_betw_byWitness [where f' = "exchange x y"]) (auto simp: exchange_def)

lemma update_swapped_ok:
  assumes rep: "nlm_rep h xs" and x: "x \<in> in_tree h" and y: "y \<in> in_tree h"
    and h': "h' = update_swapped_pages h (np_addr (n_page h x)) (np_addr (n_page h y))"
  shows "nlm_rep h' xs \<and> n_pgcnt h' = n_pgcnt h \<and> n_file_size h' = n_file_size h \<and> n_start_addr h' = n_start_addr h \<and>
    in_tree h' = in_tree h \<and> (\<forall>p. np_addr (n_page h' p) = np_addr (n_page h p)) \<and>
    (\<forall>p. np_pgoff (n_page h' p) = np_pgoff (n_page h (exchange x y p)))"
proof -
  have f: "nlm_find h (np_addr (n_page h x)) = Some x" "nlm_find h (np_addr (n_page h y)) = Some y"
    using nlm_find_ok [OF rep] x y by auto
  have a: "np_addr (n_page h' p) = np_addr (n_page h p)" for p
    unfolding h' by (simp add: update_swapped_pages_def f Let_def SWAP_def set_page_def)
  have o: "np_pgoff (n_page h' p) = np_pgoff (n_page h (exchange x y p))" for p
    unfolding h' by (simp add: update_swapped_pages_def f Let_def SWAP_def set_page_def exchange_def)
  have fl: "np_is_free (n_page h' p) = np_is_free (n_page h p)" "np_is_use (n_page h' p) = np_is_use (n_page h p)" for p
    unfolding h' by (simp_all add: update_swapped_pages_def f Let_def SWAP_def set_page_def)
  have g: "n_pgcnt h' = n_pgcnt h" "n_file_size h' = n_file_size h" "n_start_addr h' = n_start_addr h" "n_root h' = n_root h"
    "n_links h' = n_links h" "n_size h' = n_size h" "n_last h' = n_last h"
    unfolding h' by (simp_all add: update_swapped_pages_def f Let_def SWAP_def set_page_def)
  then have "in_tree h' = in_tree h" "page_nos h' = page_nos h" by (simp_all add: in_tree_def page_nos_def)
  then have "nlm_rep h' xs" using rep by (simp add: nlm_rep_def g a fl)
  then show ?thesis using g a o \<open>in_tree h' = in_tree h\<close> by simp
qed

lemma nlm_swap_ok:
  assumes rep: "nlm_rep h xs" and wf: "nlm_wf h" and mp: "nlm_mapped h s"
    and x: "x \<in> in_tree h" and y: "y \<in> in_tree h" and xy: "x \<noteq> y"
  shows "\<exists>h' s'. nlm_swap_pages h (np_addr (n_page h x)) (np_pgoff (n_page h y)) (np_addr (n_page h y)) (np_pgoff (n_page h x)) s =
      Inr (h', s') \<and> nlm_rep h' xs \<and> nlm_wf h' \<and> nlm_mapped h' s' \<and> in_tree h' = in_tree h \<and> n_pgcnt h' = n_pgcnt h \<and>
      n_start_addr h' = n_start_addr h \<and> os_pages s' = os_pages s \<and>
      (\<forall>p\<in>page_nos h. os_vm s' (vpn (np_addr (n_page h p))) = os_vm s (vpn (np_addr (n_page h (exchange x y p)))))"
proof -
  have pn: "x \<in> page_nos h" "y \<in> page_nos h" using rep x y by (auto simp: nlm_rep_def)
  let ?v = "\<lambda>p. vpn (np_addr (n_page h p))" and ?o = "\<lambda>p. np_pgoff (n_page h p)"
  have vm: "os_vm s (?v p) = Some (?o p div PAGE_SIZE)" if "p \<in> page_nos h" for p using mp that by (simp add: nlm_mapped_def)
  have v: "?v p = vpn (n_start_addr h) + (p - 1)" if "p \<in> page_nos h" for p
    using rep wf that by (simp add: nlm_rep_def nlm_wf_def)
  have vinj: "?v p = ?v q \<longleftrightarrow> p = q" if "p \<in> page_nos h" "q \<in> page_nos h" for p q
    using v [OF that(1)] v [OF that(2)] that by (auto simp: page_nos_def)
  define s1 where "s1 = s\<lparr>os_vm := (os_vm s)(?v x := Some (?o y div PAGE_SIZE))\<rparr>"
  define s2 where "s2 = s1\<lparr>os_vm := (os_vm s1)(?v y := Some (?o x div PAGE_SIZE))\<rparr>"
  have r1: "remap_file_pages (np_addr (n_page h x)) (?o y div PAGE_SIZE) s = (0, s1)"
    using vm [OF pn(1)] by (simp add: remap_file_pages_def s1_def)
  have r2: "remap_file_pages (np_addr (n_page h y)) (?o x div PAGE_SIZE) s1 = (0, s2)"
    using vm [OF pn(2)] vinj [OF pn] xy by (simp add: remap_file_pages_def s1_def s2_def)
  define h1 where "h1 = (if int (np_addr (n_page h x)) - int (n_start_addr h) \<noteq> int (?o x) then h\<lparr>n_is_nonlinear := True\<rparr> else h)"
  have same: "nlm_rep h1 xs" "in_tree h1 = in_tree h" "n_page h1 = n_page h" "n_pgcnt h1 = n_pgcnt h"
    "n_file_size h1 = n_file_size h" "n_start_addr h1 = n_start_addr h"
    using rep by (simp_all add: h1_def nlm_rep_def in_tree_def page_nos_def)
  define h2 where "h2 = update_swapped_pages h1 (np_addr (n_page h1 x)) (np_addr (n_page h1 y))"
  from update_swapped_ok [OF same(1) _ _ h2_def] x y same(2) have
    h2: "nlm_rep h2 xs" "n_pgcnt h2 = n_pgcnt h" "n_file_size h2 = n_file_size h" "n_start_addr h2 = n_start_addr h"
      "in_tree h2 = in_tree h" "\<forall>p. np_addr (n_page h2 p) = np_addr (n_page h p)"
      "\<forall>p. np_pgoff (n_page h2 p) = ?o (exchange x y p)"
    by (simp_all add: same)
  have ok: "nlm_swap_pages h (np_addr (n_page h x)) (?o y) (np_addr (n_page h y)) (?o x) s = Inr (h2, s2)"
    by (simp add: nlm_swap_pages_def r1 r2 h1_def [symmetric] h2_def same(3))
  have pn2: "page_nos h2 = page_nos h" using h2(2) by (simp add: page_nos_def)
  have bij: "bij_betw ?o (page_nos h) ((\<lambda>k. k * PAGE_SIZE) ` {..<n_pgcnt h})" using wf by (simp add: nlm_wf_def)
  have "bij_betw (?o \<circ> exchange x y) (page_nos h) ((\<lambda>k. k * PAGE_SIZE) ` {..<n_pgcnt h})"
    by (rule bij_betw_trans [OF exchange_bij [OF pn] bij])
  moreover have "?o \<circ> exchange x y = (\<lambda>p. np_pgoff (n_page h2 p))" using h2(7) by (simp add: fun_eq_iff)
  ultimately have wf2: "nlm_wf h2" using wf h2(2-4) pn2 by (simp add: nlm_wf_def)
  have swapped: "os_vm s2 (?v p) = os_vm s (?v (exchange x y p))" if "p \<in> page_nos h" for p
    using vm [OF pn(1)] vm [OF pn(2)] vinj [OF that pn(1)] vinj [OF that pn(2)] xy
    by (auto simp: s2_def s1_def exchange_def)
  have ex: "exchange x y p \<in> page_nos h" if "p \<in> page_nos h" for p using that pn by (simp add: exchange_def)
  have "nlm_mapped h2 s2"
    using mp h2(3,6,7) swapped ex vm by (simp add: nlm_mapped_def pn2 s2_def s1_def)
  moreover have "os_pages s2 = os_pages s" by (simp add: s2_def s1_def)
  ultimately show ?thesis using ok h2(1,2,4,5) wf2 swapped by blast
qed

section \<open>Opening and closing\<close>

lemma nlm_init_ok:
  assumes len: "PAGE_SIZE dvd os_len s" and room: "os_len s = 0 \<Longrightarrow> initial_size e \<le> os_space s"
    and n: "n = (if os_len s = 0 then initial_size e else os_len s)"
    and hint: "unat (map_hint (of_nat n) (os_maps s)) = a" "0 < a" "PAGE_SIZE dvd a"
    and place: "os_place s a n = a"
  shows "\<exists>h s'. nlm_init e s = Inr (h, s') \<and> nlm_rep h [1..<Suc (n div PAGE_SIZE)] \<and> nlm_wf h \<and> nlm_mapped h s' \<and>
    n_start_addr h = a \<and> n_pgcnt h = n div PAGE_SIZE \<and> 0 < n_pgcnt h \<and>
    (\<forall>p\<in>page_nos h. np_pgoff (n_page h p) = (p - 1) * PAGE_SIZE) \<and> os_pages s' = os_pages s"
proof -
  have dvd: "PAGE_SIZE dvd n" and pos: "0 < n"
    using len initial_size_pages [of e] by (auto simp: n PAGE_SIZE_def)
  then have m: "n = n div PAGE_SIZE * PAGE_SIZE" "0 < n div PAGE_SIZE"
    by (simp_all add: PAGE_SIZE_def div_greater_zero_iff dvd_imp_le)
  let ?m = "n div PAGE_SIZE"
  let ?h = "\<lparr>n_file_size = os_len s, n_prev_file_size = 0, n_start_addr = 0, n_is_nonlinear = False,
               n_is_fully_mapped = False, n_pgcnt = 0, n_size = 0, n_last = 0,
               n_links = LIST_INIT n_empty_links N_FREE_HEAD, n_root = RNil, n_page = (\<lambda>_. zero_page)\<rparr>"
  define h0 where "h0 = ?h\<lparr>n_file_size := n\<rparr>"
  define s0 where "s0 = (if os_len s = 0 then (stat (INC_BOTH Cont_grow) s)\<lparr>os_len := n\<rparr> else s)"
  have grow: "(if n_file_size ?h = 0 then nlm_grow_file ?h (initial_size e) s else Inr (?h, s)) = Inr (h0, s0)"
  proof (cases "os_len s = 0")
    case True
    then have "posix_fallocate 0 (initial_size e) (stat (INC_BOTH Cont_grow) s) = (0, s0)"
      using room pos n by (simp add: posix_fallocate_def s0_def)
    then show ?thesis using True n by (simp add: nlm_grow_file_def h0_def check_fallocate_def)
  next
    case False
    then show ?thesis using n by (simp add: h0_def s0_def)
  qed
  have rep0: "nlm_rep h0 []"
    using LIST_INIT_spec [of n_empty_links N_FREE_HEAD]
    by (simp add: nlm_rep_def h0_def in_tree_def page_nos_def rb_tree_def rb_inv_def)
  have "\<exists>h' s'. map_appending h0 True s0 = Inr (h', s') \<and> nlm_rep h' [Suc (n_pgcnt h0)..<Suc (n_pgcnt h0 + ?m)] \<and>
    nlm_wf h' \<and> nlm_mapped h' s' \<and> n_start_addr h' = a \<and> n_pgcnt h' = n_pgcnt h0 + ?m \<and> in_tree h' = in_tree h0 \<and>
    os_pages s' = os_pages s0 \<and> os_space s' = os_space s0 \<and> os_place s' = os_place s0 \<and>
    (\<forall>p\<in>{Suc (n_pgcnt h0)..n_pgcnt h0 + ?m}. np_pgoff (n_page h' p) = (p - 1) * PAGE_SIZE) \<and>
    (\<forall>p\<in>page_nos h0. n_page h' p = n_page h0 p)"
  proof (rule map_appending_ok [OF rep0])
    show "n_prev_file_size h0 = n_pgcnt h0 * PAGE_SIZE" "n_file_size h0 = (n_pgcnt h0 + ?m) * PAGE_SIZE"
      using m(1) by (simp_all add: h0_def)
    show "a = (if n_start_addr h0 = 0 then unat (map_hint (of_nat (n_file_size h0)) (os_maps s0)) else n_start_addr h0)"
      using hint(1) by (simp add: h0_def s0_def)
    show "os_place s0 (a + n_prev_file_size h0) (?m * PAGE_SIZE) = a + n_prev_file_size h0"
      using place m(1) by (simp add: h0_def s0_def)
    show "n_file_size h0 \<le> os_len s0" by (simp add: h0_def s0_def n)
  qed (use hint in \<open>simp_all add: h0_def page_nos_def bij_betw_def\<close>)
  then obtain h' s' where "map_appending h0 True s0 = Inr (h', s')" "nlm_rep h' [1..<Suc ?m]" "nlm_wf h'"
    "nlm_mapped h' s'" "n_start_addr h' = a" "n_pgcnt h' = ?m" "os_pages s' = os_pages s"
    "\<forall>p\<in>{1..?m}. np_pgoff (n_page h' p) = (p - 1) * PAGE_SIZE"
    by (auto simp: h0_def s0_def)
  then show ?thesis using grow m(2) by (simp add: nlm_init_def Let_def page_nos_def)
qed

lemma close_tree_ok:
  assumes "rb_inv (n_root h)" "\<forall>p\<in>in_tree h. np_is_use (n_page h p)"
  shows "close_tree (length (inorder (n_root h))) h =
    Inr (h\<lparr>n_root := RNil, n_pgcnt := n_pgcnt h - length (inorder (n_root h))\<rparr>)"
  using assms
proof (induction "length (inorder (n_root h))" arbitrary: h)
  case 0
  then have "n_root h = RNil" by (cases "n_root h") auto
  then show ?case by (cases h) simp
next
  case (Suc n)
  then obtain c l x r where t: "n_root h = RNode c l x r" by (cases "n_root h") auto
  from RB_REMOVE_ok [of c l x r "[]"] Suc.prems(1) t obtain t' where
    t': "RB_REMOVE (n_root h, []) = Inr t'" "rb_inv t'" "inorder t' = inorder l @ inorder r" by auto
  let ?h = "h\<lparr>n_root := t', n_pgcnt := n_pgcnt h - 1\<rparr>"
  have len: "n = length (inorder (n_root ?h))" using Suc.hyps(2) t t'(3) by simp
  have "\<forall>p\<in>in_tree ?h. np_is_use (n_page ?h p)" using Suc.prems(2) t t'(3) by (auto simp: in_tree_def)
  from Suc.hyps(1) [OF len _ this] t'(2)
  have "close_tree n ?h = Inr (?h\<lparr>n_root := RNil, n_pgcnt := n_pgcnt ?h - length (inorder (n_root ?h))\<rparr>)"
    using len by simp
  moreover have "np_is_use (n_page h x)" using Suc.prems(2) t by (simp add: in_tree_def)
  moreover have "close_tree (Suc n) h = close_tree n ?h"
    using t'(1) t \<open>np_is_use (n_page h x)\<close> by (simp add: Let_def)
  moreover have "?h\<lparr>n_root := RNil, n_pgcnt := n_pgcnt ?h - length (inorder (n_root ?h))\<rparr> =
      h\<lparr>n_root := RNil, n_pgcnt := n_pgcnt h - Suc n\<rparr>" using len by simp
  ultimately show ?case by (simp only: Suc.hyps(2) [symmetric])
qed

lemma close_free_ok:
  assumes "dlist (n_links h) N_FREE_HEAD xs" "\<forall>p\<in>set xs. np_is_free (n_page h p)" "n_size h = length xs"
  shows "\<exists>h'. close_free (length xs) h = Inr h' \<and> n_pgcnt h' = n_pgcnt h - length xs"
  using assms
proof (induction xs arbitrary: h)
  case (Cons p xs)
  have d: "dlist (n_links h) N_FREE_HEAD ([] @ p # xs)" using Cons.prems(1) by simp
  from LIST_REMOVE_spec [OF d] obtain q where q: "LIST_REMOVE (n_links h) p = Inr q" "dlist q N_FREE_HEAD xs" by auto
  have first: "LIST_FIRST (n_links h) N_FREE_HEAD = p" using LIST_FIRST_spec [OF d] by simp
  have nz: "p \<noteq> 0" using slist_nonzero [OF dlist_slist [OF d]] by auto
  let ?h = "h\<lparr>n_links := q, n_size := length xs, n_pgcnt := n_pgcnt h - 1\<rparr>"
  from Cons.IH [of ?h] q(2) Cons.prems(2) obtain h' where
    "close_free (length xs) ?h = Inr h'" "n_pgcnt h' = n_pgcnt h - 1 - length xs" by auto
  then show ?case using first q(1) nz Cons.prems(2) by (simp add: Let_def)
qed simp

lemma nlm_close_ok:
  assumes rep: "nlm_rep h xs" and wf: "nlm_wf h"
  shows "nlm_close h s = Inr (0, s)"
proof -
  have tree: "rb_tree (\<lambda>p. np_addr (n_page h p)) (n_root h)" and d: "dlist (n_links h) N_FREE_HEAD xs"
    using rep by (simp_all add: nlm_rep_def)
  let ?t = "length (inorder (n_root h))"
  have pg: "n_pgcnt h = n_file_size h div PAGE_SIZE" using wf by (simp add: nlm_wf_def PAGE_SIZE_def)
  have ct: "close_tree ?t h = Inr (h\<lparr>n_root := RNil, n_pgcnt := n_pgcnt h - ?t\<rparr>)"
    using close_tree_ok [of h] rep tree by (simp add: nlm_rep_def rb_tree_def)
  let ?h = "h\<lparr>n_root := RNil, n_pgcnt := n_pgcnt h - ?t\<rparr>"
  from close_free_ok [of ?h xs] rep obtain h' where
    cf: "close_free (n_size ?h) ?h = Inr h'" "n_pgcnt h' = n_pgcnt h - ?t - length xs" by (auto simp: nlm_rep_def)
  have "distinct (inorder (n_root h))" using tree ascending_distinct distinct_map unfolding rb_tree_def by blast
  moreover have "distinct xs" using slist_distinct [OF dlist_slist [OF d]] .
  ultimately have "card (set xs \<union> in_tree h) = length xs + ?t"
    using card_Un_disjoint [of "set xs" "in_tree h"] rep by (simp add: nlm_rep_def in_tree_def distinct_card)
  then have "n_pgcnt h = length xs + ?t" using rep by (simp add: nlm_rep_def page_nos_def)
  then show ?thesis using pg ct cf by (simp add: nlm_close_def)
qed

section \<open>Properties\<close>

text \<open>
  C19: The non-linear mapper hands its pages out in the order in which they became free.  In every
  state of the invariant with the free pages \<^verbatim>\<open>xs\<close>, and with room to grow when there are none, an
  allocation returns the first of them, or after doubling the file the first of the new pages; the
  others stay free in their order.  The page was not in use and overlaps no page in use, the file
  page that is returned is the one mapped there.  Any page in use can then be given back and becomes
  the last of the free ones, and the shutdown succeeds.
\<close>

theorem nlm_pages_fifo:
  assumes "nlm_rep h xs" "nlm_wf h" "nlm_mapped h s" "0 < n_pgcnt h" "nlm_room h s"
  shows "\<exists>p ys a l h' s'. nlm_alloc_page h flags s = Inr ((a, l), h', s') \<and> a = n_start_addr h + (p - 1) * PAGE_SIZE \<and>
    p # ys = (if xs = [] then [Suc (n_pgcnt h)..<Suc (2 * n_pgcnt h)] else xs) \<and>
    nlm_rep h' ys \<and> nlm_wf h' \<and> nlm_mapped h' s' \<and> in_tree h' = insert p (in_tree h) \<and>
    os_vm s' (vpn a) = Some (l div PAGE_SIZE) \<and>
    (\<forall>b\<in>nlm_in_use (h, s). a + PAGE_SIZE \<le> b \<or> b + PAGE_SIZE \<le> a) \<and>
    (\<forall>q\<in>in_tree h'. \<exists>h3. nlm_free_pages h' (n_start_addr h + (q - 1) * PAGE_SIZE) = Inr h3 \<and> nlm_rep h3 (ys @ [q]) \<and>
       in_tree h3 = in_tree h' - {q}) \<and>
    nlm_close h' s' = Inr (0, s')"
proof -
  from nlm_alloc_ok [OF assms, of flags] obtain p ys h' s' where
    al: "nlm_alloc_page h flags s = Inr ((n_start_addr h + (p - 1) * PAGE_SIZE, np_pgoff (n_page h' p)), h', s')"
      "nlm_rep h' ys" "nlm_wf h'" "nlm_mapped h' s'" "n_start_addr h' = n_start_addr h"
      "p # ys = (if xs = [] then [Suc (n_pgcnt h)..<Suc (2 * n_pgcnt h)] else xs)"
      "in_tree h' = insert p (in_tree h)" "p \<in> page_nos h'"
    by blast
  have vm: "os_vm s' (vpn (n_start_addr h + (p - 1) * PAGE_SIZE)) = Some (np_pgoff (n_page h' p) div PAGE_SIZE)"
    using al(2,4,5,8) by (simp add: nlm_mapped_def nlm_rep_def)
  have new: "p \<in> set (if xs = [] then [Suc (n_pgcnt h)..<Suc (2 * n_pgcnt h)] else xs)" using al(6) by (metis list.set_intros(1))
  have used: "in_tree h \<subseteq> page_nos h" "set xs \<inter> in_tree h = {}" "set xs \<subseteq> page_nos h" using assms(1) by (auto simp: nlm_rep_def)
  have p: "1 \<le> p" "p \<notin> in_tree h" using new used by (auto simp: page_nos_def split: if_splits)
  have apart: "n_start_addr h + (p - 1) * PAGE_SIZE + PAGE_SIZE \<le> b \<or> b + PAGE_SIZE \<le> n_start_addr h + (p - 1) * PAGE_SIZE"
    if b: "b \<in> nlm_in_use (h, s)" for b
  proof -
    from b obtain q where q: "b = n_start_addr h + (q - 1) * PAGE_SIZE" "q \<in> in_tree h" by (auto simp: nlm_in_use_def)
    have "1 \<le> q" "q \<noteq> p" using q(2) used(1) p(2) by (auto simp: page_nos_def)
    then have "Suc (p - 1) \<le> q - 1 \<or> Suc (q - 1) \<le> p - 1" using p(1) by arith
    then have "Suc (p - 1) * PAGE_SIZE \<le> (q - 1) * PAGE_SIZE \<or> Suc (q - 1) * PAGE_SIZE \<le> (p - 1) * PAGE_SIZE"
      by (metis mult_le_mono1)
    then show ?thesis by (auto simp: q(1))
  qed
  have given: "\<exists>h3. nlm_free_pages h' (n_start_addr h + (q - 1) * PAGE_SIZE) = Inr h3 \<and> nlm_rep h3 (ys @ [q]) \<and>
      in_tree h3 = in_tree h' - {q}" if "q \<in> in_tree h'" for q
    using nlm_free_ok [OF al(2,3) that] al(5) by auto
  show ?thesis
    using al(1-4,6,7) vm apart given nlm_close_ok [OF al(2,3), of s'] by blast
qed
text \<open>
  C20: Exchanging two pages.  When two different pages in use are swapped with each other's file
  offsets, remap_file_pages succeeds twice, the contents seen at the two addresses are exchanged,
  every other address keeps its page, and the record of the offsets still agrees with the mapping.
\<close>

theorem nlm_swap_exchanges:
  assumes "nlm_rep h xs" "nlm_wf h" "nlm_mapped h s" "x \<in> in_tree h" "y \<in> in_tree h" "x \<noteq> y"
  shows "\<exists>h' s'. nlm_swap_pages h (np_addr (n_page h x)) (np_pgoff (n_page h y)) (np_addr (n_page h y)) (np_pgoff (n_page h x)) s =
      Inr (h', s') \<and> nlm_rep h' xs \<and> nlm_wf h' \<and> nlm_mapped h' s' \<and> os_pages s' = os_pages s \<and>
      (\<forall>p\<in>page_nos h. os_vm s' (vpn (np_addr (n_page h p))) = os_vm s (vpn (np_addr (n_page h (exchange x y p)))))"
  using nlm_swap_ok [OF assms] by blast

text \<open>
  C21: Opening the container with the non-linear mapper.  On an empty file and on a file that
  already has pages alike, every page of the file is put on the free list: so after reopening an
  existing container the first allocation hands out the page at offset 0, which holds the container
  record, although nothing has freed it.
\<close>

theorem nlm_init_forgets:
  assumes "PAGE_SIZE dvd os_len s" "os_len s = 0 \<Longrightarrow> initial_size e \<le> os_space s"
    and "n = (if os_len s = 0 then initial_size e else os_len s)"
    and "unat (map_hint (of_nat n) (os_maps s)) = a" "0 < a" "PAGE_SIZE dvd a" "os_place s a n = a"
  shows "\<exists>h s' h2 s2. nlm_init e s = Inr (h, s') \<and> nlm_inv (h, s') \<and> nlm_in_use (h, s') = {} \<and>
    nlm_alloc_page h flags s' = Inr ((a, 0), h2, s2)"
proof -
  let ?m = "n div PAGE_SIZE"
  from nlm_init_ok [OF assms] obtain h s' where
    h: "nlm_init e s = Inr (h, s')" "nlm_rep h [1..<Suc ?m]" "nlm_wf h" "nlm_mapped h s'" "n_start_addr h = a"
      "n_pgcnt h = ?m" "0 < n_pgcnt h" "\<forall>p\<in>page_nos h. np_pgoff (n_page h p) = (p - 1) * PAGE_SIZE" by blast
  have xs: "[1..<Suc ?m] = 1 # [2..<Suc ?m]" using h(6,7) by (simp add: upt_conv_Cons numeral_2_eq_2)
  have rep: "nlm_rep h (1 # [2..<Suc ?m])" using h(2) by (simp only: xs)
  have room: "nlm_room h s'" using rep by (simp add: nlm_room_def nlm_rep_def)
  from nlm_alloc_ok [OF rep h(3,4,7) room, of flags] obtain h2 s2 where
    al: "nlm_alloc_page h flags s' = Inr ((a, np_pgoff (n_page h2 1)), h2, s2)" and sm: "same_pages h h2"
    using h(5) by auto
  have "np_pgoff (n_page h2 1) = np_pgoff (n_page h 1)" using same_pages_wf(5) [OF sm] by simp
  also have "\<dots> = 0" using h(7,8) by (simp add: page_nos_def)
  finally have "nlm_alloc_page h flags s' = Inr ((a, 0), h2, s2)" using al by simp
  moreover have "in_tree h = {}"
  proof -
    have "page_nos h = set [1..<Suc ?m]" using h(6) by (auto simp: page_nos_def)
    then show ?thesis using h(2) by (auto simp: nlm_rep_def)
  qed
  ultimately show ?thesis using h(1,2-4,7) by (auto simp: nlm_inv_def nlm_in_use_def)
qed

definition nl_empty_os :: "nat \<Rightarrow> unit os" where
  "nl_empty_os n = \<lparr>os_len = n, os_pages = (\<lambda>_. ()), os_vm = (\<lambda>_. None), os_prot = (\<lambda>_. 0),
     os_other = (\<lambda>_. False), os_space = 2 ^ 40, os_place = (\<lambda>a n. a), os_maps = [], os_stats = GLOBAL_STATS\<rparr>"

definition default_env :: env where
  "default_env = \<lparr>PMLIB_INIT_SIZE = None, PMLIB_USE_NLMAPPER = None, PMLIB_FIX_PTRS = None, PMLIB_CLOSURE = None\<rparr>"

lemma default_hint: "map_hint n [] = (if - 1 - 2 ^ 40 < n then 0 else 2 ^ 40)"
  by (simp add: map_hint_def TERABYTE_def)

theorem nlm_init_forgets_witness:
  "\<exists>h s' h2 s2. nlm_init default_env (nl_empty_os 8192) = Inr (h, s') \<and> nlm_alloc_page h 1 s' = Inr ((2 ^ 40, 0), h2, s2)"
  using nlm_init_forgets [of "nl_empty_os 8192" default_env 8192 "2 ^ 40" 1]
  by (simp add: nl_empty_os_def default_hint PAGE_SIZE_def) blast

text \<open>Two pages in use after opening a new container of two pages.\<close>

lemma two_pages:
  "\<exists>h (s' :: unit os) h1 s1 h2 s2. nlm_inv (h, s') \<and>
    nlm_rep h [1, 2] \<and> nlm_wf h \<and> nlm_mapped h s' \<and> 0 < n_pgcnt h \<and> nlm_room h s' \<and> n_start_addr h = 2 ^ 40 \<and>
    nlm_alloc_page h 1 s' = Inr ((2 ^ 40, 0), h1, s1) \<and> nlm_alloc_page h1 1 s1 = Inr ((2 ^ 40 + 4096, 4096), h2, s2) \<and>
    nlm_rep h2 [] \<and> nlm_wf h2 \<and> nlm_mapped h2 s2 \<and> in_tree h2 = {1, 2} \<and> page_nos h2 = {1, 2} \<and>
    np_addr (n_page h2 1) = 2 ^ 40 \<and> np_addr (n_page h2 2) = 2 ^ 40 + 4096 \<and>
    np_pgoff (n_page h2 1) = 0 \<and> np_pgoff (n_page h2 2) = 4096"
proof -
  have u: "8192 div PAGE_SIZE = 2" "[1..<Suc 2] = [1, 2]" by (simp_all add: PAGE_SIZE_def upt_conv_Cons)
  have "\<exists>h s'. nlm_init default_env (nl_empty_os 8192) = Inr (h, s') \<and> nlm_rep h [1..<Suc (8192 div PAGE_SIZE)] \<and>
    nlm_wf h \<and> nlm_mapped h s' \<and> n_start_addr h = 2 ^ 40 \<and> n_pgcnt h = 8192 div PAGE_SIZE \<and> 0 < n_pgcnt h \<and>
    (\<forall>p\<in>page_nos h. np_pgoff (n_page h p) = (p - 1) * PAGE_SIZE) \<and> os_pages s' = os_pages (nl_empty_os 8192)"
    by (rule nlm_init_ok) (simp_all add: nl_empty_os_def default_hint PAGE_SIZE_def)
  then obtain h and s :: "unit os" where
    h: "nlm_rep h [1, 2]" "nlm_wf h" "nlm_mapped h s" "n_start_addr h = 2 ^ 40" "n_pgcnt h = 2"
      "\<forall>p\<in>page_nos h. np_pgoff (n_page h p) = (p - 1) * PAGE_SIZE"
    unfolding u by blast
  have pn: "page_nos h = {1, 2}" using h(5) by (auto simp: page_nos_def)
  have np: "0 < n_pgcnt h" using h(5) by simp
  have room: "nlm_room h s" using h(1) by (simp add: nlm_room_def nlm_rep_def)
  from nlm_alloc_ok [OF h(1-3) np room, of 1] obtain h1 s1 where
    h1: "nlm_alloc_page h 1 s = Inr ((2 ^ 40, np_pgoff (n_page h1 1)), h1, s1)" "nlm_rep h1 [2]" "nlm_wf h1" "nlm_mapped h1 s1"
      "same_pages h h1" "in_tree h1 = insert 1 (in_tree h)"
    using h(4) by auto
  note sm1 = same_pages_wf [OF h1(5)]
  have room1: "nlm_room h1 s1" "0 < n_pgcnt h1" using h1(2) np sm1(7) by (simp_all add: nlm_room_def nlm_rep_def)
  from nlm_alloc_ok [OF h1(2-4) room1(2,1), of 1] obtain h2 s2 where
    h2: "nlm_alloc_page h1 1 s1 = Inr ((2 ^ 40 + PAGE_SIZE, np_pgoff (n_page h2 2)), h2, s2)" "nlm_rep h2 []" "nlm_wf h2" "nlm_mapped h2 s2"
      "same_pages h1 h2"
    using h(4) sm1(6) by auto
  note sm2 = same_pages_wf [OF h2(5)]
  have pn2: "page_nos h2 = {1, 2}" using pn sm1(1) sm2(1) by simp
  have "in_tree h2 = {1, 2}" using h2(2) pn2 by (auto simp: nlm_rep_def)
  moreover have "np_addr (n_page h2 1) = 2 ^ 40" "np_addr (n_page h2 2) = 2 ^ 40 + 4096"
    using h2(2) pn2 h(4) sm1(6) sm2(6) by (simp_all add: nlm_rep_def PAGE_SIZE_def)
  moreover have "np_pgoff (n_page h1 1) = 0" "np_pgoff (n_page h2 1) = 0" "np_pgoff (n_page h2 2) = 4096"
    using h(6) pn sm1(5) sm2(5) by (simp_all add: PAGE_SIZE_def)
  moreover have "nlm_inv (h, s)" using h(1-3) np by (auto simp: nlm_inv_def)
  moreover have "nlm_alloc_page h 1 s = Inr ((2 ^ 40, 0), h1, s1)" using h1(1) \<open>np_pgoff (n_page h1 1) = 0\<close> by simp
  moreover have "nlm_alloc_page h1 1 s1 = Inr ((2 ^ 40 + 4096, 4096), h2, s2)"
    using h2(1) \<open>np_pgoff (n_page h2 2) = 4096\<close> by (simp add: PAGE_SIZE_def)
  ultimately show ?thesis using h2(2-4) pn2 h(1-4) np room by blast
qed

theorem nlm_pages_fifo_witness:
  "\<exists>h (s :: unit os) l h1 s1 h2. nlm_rep h [1, 2] \<and> nlm_alloc_page h 1 s = Inr ((2 ^ 40, l), h1, s1) \<and> nlm_rep h1 [2] \<and>
    nlm_free_pages h1 (2 ^ 40) = Inr h2 \<and> nlm_rep h2 [2, 1]"
proof -
  obtain h and s :: "unit os" where h: "nlm_rep h [1, 2]" "nlm_wf h" "nlm_mapped h s" "0 < n_pgcnt h" "nlm_room h s"
    "n_start_addr h = 2 ^ 40" using two_pages by blast
  have l: "([1, 2] = ([] :: nat list)) = False" by simp
  from nlm_pages_fifo [OF h(1-5), of 1] obtain l h' s' h3 where
    "nlm_alloc_page h 1 s = Inr ((2 ^ 40, l), h', s')" "nlm_rep h' [2]"
    "nlm_free_pages h' (2 ^ 40) = Inr h3" "nlm_rep h3 [2, 1]"
    unfolding l if_False h(6) by auto
  with h(1) show ?thesis by blast
qed

theorem nlm_swap_exchanges_witness:
  "\<exists>h (s :: unit os) h' s'. nlm_swap_pages h (2 ^ 40) 4096 (2 ^ 40 + 4096) 0 s = Inr (h', s') \<and>
    os_vm s' (vpn (2 ^ 40)) = os_vm s (vpn (2 ^ 40 + 4096))"
proof -
  obtain h and s :: "unit os" where h: "nlm_rep h []" "nlm_wf h" "nlm_mapped h s" "in_tree h = {1, 2}" "page_nos h = {1, 2}"
    "np_addr (n_page h 1) = 2 ^ 40" "np_addr (n_page h 2) = 2 ^ 40 + 4096"
    "np_pgoff (n_page h 1) = 0" "np_pgoff (n_page h 2) = 4096" using two_pages by blast
  from nlm_swap_exchanges [OF h(1-3), of 1 2] h(4) obtain h' s' where
    w: "nlm_swap_pages h (np_addr (n_page h 1)) (np_pgoff (n_page h 2)) (np_addr (n_page h 2)) (np_pgoff (n_page h 1)) s = Inr (h', s')"
      "\<forall>p\<in>page_nos h. os_vm s' (vpn (np_addr (n_page h p))) = os_vm s (vpn (np_addr (n_page h (exchange 1 2 p))))"
    by auto
  have "os_vm s' (vpn (np_addr (n_page h 1))) = os_vm s (vpn (np_addr (n_page h (exchange 1 2 1))))"
    using w(2) h(5) by blast
  then have "os_vm s' (vpn (2 ^ 40)) = os_vm s (vpn (2 ^ 40 + 4096))"
    unfolding exchange_def using h(6,7) by (simp only: if_True simp_thms)
  with w(1) show ?thesis unfolding h(6-9) by blast
qed

end
