(* ===== verification/PageAlloc.thy ===== *)
theory PageAlloc
  imports Fixmapper Nlmapper
begin

text \<open>
  The page allocator of \<^verbatim>\<open>src/src/page_alloc.c\<close>: a table of operations chosen by the environment
  variable \<^verbatim>\<open>PMLIB_USE_NLMAPPER\<close>, with the handler of the chosen mapper.  The table of functions
  is the constructor of the handler.  Both mappers satisfy the interface \<^verbatim>\<open>page_memory\<close>, hence so
  does the allocator, which is all the slab relies on.
\<close>

datatype pa_handler = Fixed fixed_mapper | Nonlinear nlm

definition set_page_allocator_ops :: "env \<Rightarrow> bool" where
  "set_page_allocator_ops e \<longleftrightarrow> PMLIB_USE_NLMAPPER e = Some 1"

definition page_allocator_init :: "env \<Rightarrow> 'p os \<Rightarrow> (pa_handler \<times> 'p os) res" where
  "page_allocator_init e s =
     (if set_page_allocator_ops e
      then bindR (nlm_init e s) (\<lambda>(h, s). Inr (Nonlinear h, s))
      else bindR (fixed_mapper_init e s) (\<lambda>(h, s). Inr (Fixed h, s)))"

definition page_allocator_getpage :: "pa_handler \<Rightarrow> nat \<Rightarrow> 'p os \<Rightarrow> ((nat \<times> nat) \<times> pa_handler \<times> 'p os) res" where
  "page_allocator_getpage pa flags s0 =
     (let s = stat (INC_BOTH Alloc_cont_pg) s0 in
      case pa of
        Fixed h \<Rightarrow> bindR (fixed_mapper_alloc_page h flags s) (\<lambda>(al, h, s). Inr (al, Fixed h, s))
      | Nonlinear h \<Rightarrow> bindR (nlm_alloc_page h flags s) (\<lambda>(al, h, s). Inr (al, Nonlinear h, s)))"

definition page_allocator_getpages :: "pa_handler \<Rightarrow> nat \<Rightarrow> nat \<Rightarrow> 'p os \<Rightarrow> nat res" where
  "page_allocator_getpages pa npages flags s =
     (case pa of Fixed h \<Rightarrow> fixed_mapper_alloc_pages h npages flags s | Nonlinear h \<Rightarrow> nlm_alloc_pages h npages flags s)"

definition page_allocator_freepages :: "pa_handler \<Rightarrow> nat \<Rightarrow> 'p os \<Rightarrow> (pa_handler \<times> 'p os) res" where
  "page_allocator_freepages pa maddr s0 =
     (let s = stat (INC_BOTH Free_cont_pg) s0 in
      case pa of
        Fixed h \<Rightarrow> bindR (fixed_mapper_freepages h maddr s) (\<lambda>(h, s). Inr (Fixed h, s))
      | Nonlinear h \<Rightarrow> bindR (nlm_free_pages h maddr) (\<lambda>h. Inr (Nonlinear h, s)))"

definition page_allocator_shutdown :: "pa_handler \<Rightarrow> 'p os \<Rightarrow> (int \<times> 'p os) res" where
  "page_allocator_shutdown pa s = (case pa of Fixed h \<Rightarrow> fixed_mapper_close h s | Nonlinear h \<Rightarrow> nlm_close h s)"

definition page_allocator_mappage :: "pa_handler \<Rightarrow> nat \<Rightarrow> nat" where
  "page_allocator_mappage pa laddr =
     (case pa of Fixed h \<Rightarrow> fixed_mapper_getaddress h laddr | Nonlinear h \<Rightarrow> nlm_get_address h laddr)"

definition page_allocator_swap_mappings ::
  "pa_handler \<Rightarrow> nat \<Rightarrow> nat \<Rightarrow> nat \<Rightarrow> nat \<Rightarrow> 'p os \<Rightarrow> (pa_handler \<times> 'p os) res" where
  "page_allocator_swap_mappings pa xaddr ypgoff yaddr xpgoff s =
     (case pa of
        Fixed h \<Rightarrow> bindR (fixed_mapper_noswap h s) (\<lambda>(h, s). Inr (Fixed h, s))
      | Nonlinear h \<Rightarrow> bindR (nlm_swap_pages h xaddr ypgoff yaddr xpgoff s) (\<lambda>(h, s). Inr (Nonlinear h, s)))"

definition page_allocator_mprotect :: "pa_handler \<Rightarrow> nat \<Rightarrow> nat \<Rightarrow> nat \<Rightarrow> 'p os \<Rightarrow> 'p os res" where
  "page_allocator_mprotect pa maddr n flags s = page_allocator_mprotect_generic maddr n flags s"

section \<open>The allocator satisfies the interface of its mappers\<close>

fun pa_inv :: "pa_handler \<times> 'p os \<Rightarrow> bool" where
  "pa_inv (Fixed h, s) \<longleftrightarrow> fm_inv (h, s)"
| "pa_inv (Nonlinear h, s) \<longleftrightarrow> nlm_inv (h, s)"

fun pa_in_use :: "pa_handler \<times> 'p os \<Rightarrow> nat set" where
  "pa_in_use (Fixed h, s) = fm_in_use (h, s)"
| "pa_in_use (Nonlinear h, s) = nlm_in_use (h, s)"

definition pa_alloc :: "pa_handler \<times> 'p os \<Rightarrow> nat \<Rightarrow> ((nat \<times> nat) \<times> pa_handler \<times> 'p os) res" where
  "pa_alloc m flags = page_allocator_getpage (fst m) flags (snd m)"

definition pa_release :: "pa_handler \<times> 'p os \<Rightarrow> nat \<Rightarrow> (pa_handler \<times> 'p os) res" where
  "pa_release m a = page_allocator_freepages (fst m) a (snd m)"

lemma stat_inv [simp]:
  "fm_inv (h, stat f s) \<longleftrightarrow> fm_inv (h, s)" "fm_in_use (h, stat f s) = fm_in_use (h, s)"
  "nlm_inv (n, stat f s) \<longleftrightarrow> nlm_inv (n, s)" "nlm_in_use (n, stat f s) = nlm_in_use (n, s)"
  "page_at (stat f s) a = page_at s a"
  by (simp_all add: fm_inv_def fm_in_use_def fm_mapped_def nlm_inv_def nlm_in_use_def nlm_mapped_def page_at_def)

lemma pa_alloc_cases:
  assumes "pa_alloc (pa, s) flags = Inr ((a, l), m')"
  obtains (Fixed) h h' s' where "pa = Fixed h" "m' = (Fixed h', s')"
      "fm_alloc (h, stat (INC_BOTH Alloc_cont_pg) s) flags = Inr ((a, l), h', s')"
    | (Nonlinear) h h' s' where "pa = Nonlinear h" "m' = (Nonlinear h', s')"
      "nlm_alloc (h, stat (INC_BOTH Alloc_cont_pg) s) flags = Inr ((a, l), h', s')"
  using assms
  by (cases pa) (auto simp: pa_alloc_def page_allocator_getpage_def Let_def bindR_Inr_iff fm_alloc_def nlm_alloc_def)

interpretation pa: page_memory pa_inv pa_in_use pa_alloc pa_release "\<lambda>m. page_at (snd m)"
proof unfold_locales
  fix m m' :: "pa_handler \<times> 'p os" and flags a l b
  assume inv: "pa_inv m" and ok: "pa_alloc m flags = Inr ((a, l), m')"
  obtain p s where m: "m = (p, s)" by force
  from ok have "pa_alloc (p, s) flags = Inr ((a, l), m')" by (simp add: m)
  then have "pa_inv m' \<and> a \<notin> pa_in_use m \<and> pa_in_use m' = insert a (pa_in_use m) \<and> PAGE_SIZE dvd a \<and>
    page_at (snd m') a \<noteq> None \<and> (b \<in> pa_in_use m \<longrightarrow> page_at (snd m') b = page_at (snd m) b)"
  proof (cases rule: pa_alloc_cases)
    case (Fixed h h' s')
    have i: "fm_inv (h, stat (INC_BOTH Alloc_cont_pg) s)" using inv m Fixed(1) by simp
    show ?thesis
      using fm.alloc [OF i Fixed(3)] fmv.alloc_mapped [OF i Fixed(3)] fmv.alloc_view [OF i Fixed(3), of b] Fixed(1,2) m by simp
  next
    case (Nonlinear h h' s')
    have i: "nlm_inv (h, stat (INC_BOTH Alloc_cont_pg) s)" using inv m Nonlinear(1) by simp
    show ?thesis
      using nl.alloc [OF i Nonlinear(3)] nlv.alloc_mapped [OF i Nonlinear(3)] nlv.alloc_view [OF i Nonlinear(3), of b]
        Nonlinear(1,2) m by simp
  qed
  then show "pa_inv m' \<and> a \<notin> pa_in_use m \<and> pa_in_use m' = insert a (pa_in_use m) \<and> PAGE_SIZE dvd a"
    "page_at (snd m') a \<noteq> None" "b \<in> pa_in_use m \<Longrightarrow> page_at (snd m') b = page_at (snd m) b" by blast+
next
  fix m :: "pa_handler \<times> 'p os" and a
  assume inv: "pa_inv m" and a: "a \<in> pa_in_use m"
  obtain p s where m: "m = (p, s)" by force
  let ?s = "stat (INC_BOTH Free_cont_pg) s"
  show "\<exists>m'. pa_release m a = Inr m' \<and> pa_inv m' \<and> pa_in_use m' = pa_in_use m - {a}"
  proof (cases p)
    case (Fixed h)
    then have "fm_inv (h, ?s)" "a \<in> fm_in_use (h, ?s)" using inv a m by simp_all
    from fm.release [OF this] obtain h' s' where
      "fm_release (h, ?s) a = Inr (h', s')" "fm_inv (h', s')" "fm_in_use (h', s') = fm_in_use (h, ?s) - {a}" by auto
    then show ?thesis using Fixed m by (auto simp: pa_release_def page_allocator_freepages_def fm_release_def)
  next
    case (Nonlinear h)
    then have "nlm_inv (h, ?s)" "a \<in> nlm_in_use (h, ?s)" using inv a m by simp_all
    from nl.release [OF this] obtain h' s' where
      "nlm_release (h, ?s) a = Inr (h', s')" "nlm_inv (h', s')" "nlm_in_use (h', s') = nlm_in_use (h, ?s) - {a}" by auto
    moreover from this(1) have "pa_release m a = Inr (Nonlinear h', s')"
      unfolding nlm_release_def m Nonlinear pa_release_def page_allocator_freepages_def
      by (cases "nlm_free_pages h a") simp_all
    ultimately show ?thesis using Nonlinear m by (intro exI [of _ "(Nonlinear h', s')"]) simp
  qed
next
  fix m m' :: "pa_handler \<times> 'p os" and a b
  assume ok: "pa_release m a = Inr m'"
  obtain p s where m: "m = (p, s)" by force
  let ?s = "stat (INC_BOTH Free_cont_pg) s"
  show "page_at (snd m') b = page_at (snd m) b"
  proof (cases p)
    case (Fixed h)
    then obtain h' s' where "fm_release (h, ?s) a = Inr (h', s')" "m' = (Fixed h', s')"
      using ok m by (auto simp: pa_release_def page_allocator_freepages_def fm_release_def bindR_Inr_iff)
    then show ?thesis using fmv.release_view [of "(h, ?s)" a "(h', s')" b] m by simp
  next
    case (Nonlinear h)
    then show ?thesis using ok m
      by (auto simp: pa_release_def page_allocator_freepages_def bindR_Inr_iff)
  qed
qed

definition pa_frame :: "pa_handler \<times> 'p os \<Rightarrow> nat \<Rightarrow> nat option" where "pa_frame m a = os_vm (snd m) (vpn a)"
definition pa_prot :: "pa_handler \<times> 'p os \<Rightarrow> nat \<Rightarrow> nat" where "pa_prot m a = os_prot (snd m) (vpn a)"

fun pa_spare :: "pa_handler \<times> 'p os \<Rightarrow> nat" where
  "pa_spare (Fixed h, s) = fm_spare (h, s)"
| "pa_spare (Nonlinear h, s) = nlm_spare (h, s)"

lemma stat_frame [simp]:
  "fm_frame (h, stat f s) = fm_frame (h, s)" "fm_prot (h, stat f s) = fm_prot (h, s)" "fm_spare (h, stat f s) = fm_spare (h, s)"
  "nlm_frame (n, stat f s) = nlm_frame (n, s)" "nlm_prot (n, stat f s) = nlm_prot (n, s)" "nlm_spare (n, stat f s) = nlm_spare (n, s)"
  by (simp_all add: fun_eq_iff fm_frame_def fm_prot_def fm_spare_def nlm_frame_def nlm_prot_def nlm_spare_def)

lemma pa_frame_of:
  "pa_frame (Fixed h, s) = fm_frame (h, s)" "pa_prot (Fixed h, s) = fm_prot (h, s)"
  "pa_frame (Nonlinear n, s) = nlm_frame (n, s)" "pa_prot (Nonlinear n, s) = nlm_prot (n, s)"
  by (simp_all add: fun_eq_iff fm_frame_def fm_prot_def nlm_frame_def nlm_prot_def pa_frame_def pa_prot_def)

lemma pa_release_cases:
  assumes "pa_release (pa, s) a = Inr m'"
  obtains (Fixed) h h' s' where "pa = Fixed h" "m' = (Fixed h', s')" "fm_release (h, stat (INC_BOTH Free_cont_pg) s) a = Inr (h', s')"
    | (Nonlinear) h h' s' where "pa = Nonlinear h" "m' = (Nonlinear h', s')"
      "nlm_release (h, stat (INC_BOTH Free_cont_pg) s) a = Inr (h', s')"
  using assms
  by (cases pa) (auto simp: pa_release_def page_allocator_freepages_def bindR_Inr_iff fm_release_def nlm_release_def)

interpretation pas: page_store pa_inv pa_in_use pa_alloc pa_release "\<lambda>m. page_at (snd m)" pa_frame pa_prot pa_spare
proof unfold_locales
  fix m :: "pa_handler \<times> 'p os" and a
  assume inv: "pa_inv m" and a: "a \<in> pa_in_use m"
  obtain p s where m: "m = (p, s)" by force
  show "PAGE_SIZE dvd a \<and> 0 < a \<and> pa_frame m a \<noteq> None"
  proof (cases p)
    case (Fixed h)
    then show ?thesis using inv a m fms.in_use_mapped [of "(h, s)" a] by (simp add: pa_frame_of)
  next
    case (Nonlinear h)
    then show ?thesis using inv a m nls.in_use_mapped [of "(h, s)" a] by (simp add: pa_frame_of)
  qed
next
  fix m :: "pa_handler \<times> 'p os" and a b
  assume inv: "pa_inv m" and ab: "a \<in> pa_in_use m" "b \<in> pa_in_use m" "pa_frame m a = pa_frame m b"
  obtain p s where m: "m = (p, s)" by force
  show "a = b"
  proof (cases p)
    case (Fixed h)
    then show ?thesis using inv ab m fms.frame_inj [of "(h, s)" a b] by (simp add: pa_frame_of)
  next
    case (Nonlinear h)
    then show ?thesis using inv ab m nls.frame_inj [of "(h, s)" a b] by (simp add: pa_frame_of)
  qed
next
  fix m :: "pa_handler \<times> 'p os" and flags
  assume inv: "pa_inv m" and sp: "0 < pa_spare m"
  obtain p s where m: "m = (p, s)" by force
  let ?s = "stat (INC_BOTH Alloc_cont_pg) s"
  show "\<exists>a l m'. pa_alloc m flags = Inr ((a, l), m') \<and> pa_spare m' = pa_spare m - 1 \<and>
      (writable flags \<longrightarrow> pa_prot m' a = flags) \<and>
      (\<forall>b\<in>pa_in_use m. pa_frame m' b = pa_frame m b \<and> pa_prot m' b = pa_prot m b)"
  proof (cases p)
    case (Fixed h)
    then have "fm_inv (h, ?s)" "0 < fm_spare (h, ?s)" using inv sp m by simp_all
    from fms.alloc_spare [OF this, of flags] obtain a l h' s' where
      x: "fm_alloc (h, ?s) flags = Inr ((a, l), h', s')" "fm_spare (h', s') = fm_spare (h, ?s) - 1"
        "writable flags \<longrightarrow> fm_prot (h', s') a = flags"
        "\<forall>b\<in>fm_in_use (h, ?s). fm_frame (h', s') b = fm_frame (h, ?s) b \<and> fm_prot (h', s') b = fm_prot (h, ?s) b" by auto
    then have "pa_alloc m flags = Inr ((a, l), Fixed h', s')"
      using m Fixed by (simp add: pa_alloc_def page_allocator_getpage_def fm_alloc_def)
    then show ?thesis using x m Fixed by (auto simp: pa_frame_of)
  next
    case (Nonlinear h)
    then have "nlm_inv (h, ?s)" "0 < nlm_spare (h, ?s)" using inv sp m by simp_all
    from nls.alloc_spare [OF this, of flags] obtain a l h' s' where
      x: "nlm_alloc (h, ?s) flags = Inr ((a, l), h', s')" "nlm_spare (h', s') = nlm_spare (h, ?s) - 1"
        "writable flags \<longrightarrow> nlm_prot (h', s') a = flags"
        "\<forall>b\<in>nlm_in_use (h, ?s). nlm_frame (h', s') b = nlm_frame (h, ?s) b \<and> nlm_prot (h', s') b = nlm_prot (h, ?s) b" by auto
    then have "pa_alloc m flags = Inr ((a, l), Nonlinear h', s')"
      using m Nonlinear by (simp add: pa_alloc_def page_allocator_getpage_def nlm_alloc_def)
    then show ?thesis using x m Nonlinear by (auto simp: pa_frame_of)
  qed
next
  fix m m' :: "pa_handler \<times> 'p os" and flags a l
  assume inv: "pa_inv m" and sp: "0 < pa_spare m" and ok: "pa_alloc m flags = Inr ((a, l), m')"
  obtain p s where m: "m = (p, s)" by force
  from ok m have "pa_alloc (p, s) flags = Inr ((a, l), m')" by simp
  then show "pa_frame m' = pa_frame m \<and> (\<forall>b. pa_frame m b \<noteq> pa_frame m a \<longrightarrow> pa_prot m' b = pa_prot m b) \<and>
      (\<not> writable flags \<longrightarrow> pa_prot m' = pa_prot m)"
  proof (cases rule: pa_alloc_cases)
    case (Fixed h h' s')
    then have "fm_inv (h, stat (INC_BOTH Alloc_cont_pg) s)" "0 < fm_spare (h, stat (INC_BOTH Alloc_cont_pg) s)"
      using inv sp m by simp_all
    from fms.alloc_frame [OF this] Fixed show ?thesis using m by (auto simp: pa_frame_of fun_eq_iff)
  next
    case (Nonlinear h h' s')
    then have "nlm_inv (h, stat (INC_BOTH Alloc_cont_pg) s)" "0 < nlm_spare (h, stat (INC_BOTH Alloc_cont_pg) s)"
      using inv sp m by simp_all
    from nls.alloc_frame [OF this] Nonlinear show ?thesis using m by (auto simp: pa_frame_of fun_eq_iff)
  qed
next
  fix m :: "pa_handler \<times> 'p os" and a m'
  assume inv: "pa_inv m" and a: "a \<in> pa_in_use m" and ok: "pa_release m a = Inr m'"
  obtain p s where m: "m = (p, s)" by force
  from ok m have "pa_release (p, s) a = Inr m'" by simp
  then show "pa_spare m' = Suc (pa_spare m) \<and> pa_frame m' = pa_frame m \<and> pa_prot m' = pa_prot m"
  proof (cases rule: pa_release_cases)
    case (Fixed h h' s')
    then have "fm_inv (h, stat (INC_BOTH Free_cont_pg) s)" "a \<in> fm_in_use (h, stat (INC_BOTH Free_cont_pg) s)"
      using inv a m by simp_all
    from fms.release_spare [OF this Fixed(3)] show ?thesis using Fixed(1,2) m by (simp add: pa_frame_of)
  next
    case (Nonlinear h h' s')
    then have "nlm_inv (h, stat (INC_BOTH Free_cont_pg) s)" "a \<in> nlm_in_use (h, stat (INC_BOTH Free_cont_pg) s)"
      using inv a m by simp_all
    from nls.release_spare [OF this Nonlinear(3)] show ?thesis using Nonlinear(1,2) m by (simp add: pa_frame_of)
  qed
qed

lemma pa_mprotect_ok:
  assumes "pa_inv (pa, s)" "a \<in> pa_in_use (pa, s)"
  shows "page_allocator_mprotect pa a PAGE_SIZE flags s =
    Inr ((stat (INC_BOTH Memprotects) s)\<lparr>os_prot := (os_prot s)(vpn a := flags)\<rparr>)"
proof -
  from pas.in_use_mapped [OF assms] have "PAGE_SIZE dvd a" "os_vm s (vpn a) \<noteq> None" by (simp_all add: pa_frame_def)
  from mprotect_page [OF this] show ?thesis by (simp add: page_allocator_mprotect_def)
qed

lemma pa_inv_contents [simp]:
  "pa_inv (pa, s\<lparr>os_pages := f\<rparr>) \<longleftrightarrow> pa_inv (pa, s)" "pa_in_use (pa, s\<lparr>os_pages := f\<rparr>) = pa_in_use (pa, s)"
  "pa_spare (pa, s\<lparr>os_pages := f\<rparr>) = pa_spare (pa, s)"
  "pa_inv (pa, s\<lparr>os_prot := g\<rparr>) \<longleftrightarrow> pa_inv (pa, s)" "pa_in_use (pa, s\<lparr>os_prot := g\<rparr>) = pa_in_use (pa, s)"
  "pa_spare (pa, s\<lparr>os_prot := g\<rparr>) = pa_spare (pa, s)"
  "pa_inv (pa, stat h s) \<longleftrightarrow> pa_inv (pa, s)" "pa_in_use (pa, stat h s) = pa_in_use (pa, s)"
  "pa_spare (pa, stat h s) = pa_spare (pa, s)"
  by (cases pa; simp add: fm_inv_def fm_in_use_def fm_mapped_def nlm_inv_def nlm_in_use_def nlm_mapped_def fm_spare_def nlm_spare_def)+

section \<open>The system calls do not write to the pages\<close>

named_theorems contents "operations that leave the contents of the file alone"

lemma sys_contents [contents]:
  "sys_mmap h n p off s = (a, s') \<Longrightarrow> os_pages s' = os_pages s" "os_pages (sys_munmap a n s) = os_pages s"
  "sys_mprotect a n p s = (i, s') \<Longrightarrow> os_pages s' = os_pages s"
  "remap_file_pages a i s = (rc, s') \<Longrightarrow> os_pages s' = os_pages s"
  "posix_fallocate off n s = (rc, s') \<Longrightarrow> os_pages s' = os_pages s"
  by (auto simp: sys_mmap_def sys_munmap_def sys_mprotect_def remap_file_pages_def posix_fallocate_def Let_def split: if_splits)

lemma mprotect_contents [contents]:
  "page_allocator_mprotect_generic a n f s = Inr s' \<Longrightarrow> os_pages s' = os_pages s"
  by (auto simp: page_allocator_mprotect_generic_def split: prod.splits if_splits dest!: sys_contents(3))

lemma protect_pages_contents [contents]: "protect_pages fm is s = Inr s' \<Longrightarrow> os_pages s' = os_pages s"
  by (induction "is" arbitrary: s) (auto simp: bindR_Inr_iff dest!: mprotect_contents)

lemma fixed_contents [contents]:
  "fixed_mapper_grow_file h n s = Inr (h', s') \<Longrightarrow> os_pages s' = os_pages s"
  "map_file h b s = Inr (h', s') \<Longrightarrow> os_pages s' = os_pages s"
proof -
  show "fixed_mapper_grow_file h n s = Inr (h', s') \<Longrightarrow> os_pages s' = os_pages s"
    by (auto simp: fixed_mapper_grow_file_def bindR_Inr_iff Let_def split: prod.splits if_splits dest!: sys_contents(5))
  show "map_file h b s = Inr (h', s') \<Longrightarrow> os_pages s' = os_pages s"
    by (auto simp: map_file_def update_mapping_prot_def bindR_Inr_iff Let_def sys_contents(2) split: prod.splits if_splits
        dest!: sys_contents(1) protect_pages_contents)
qed

lemma fixed_ops_contents [contents]:
  "fixed_mapper_alloc_page h f s = Inr (al, h', s') \<Longrightarrow> os_pages s' = os_pages s"
  "fixed_mapper_freepages h a s = Inr (h', s') \<Longrightarrow> os_pages s' = os_pages s"
  "fixed_mapper_init env s = Inr (h', s') \<Longrightarrow> os_pages s' = os_pages s"
proof -
  show "fixed_mapper_alloc_page h f s = Inr (al, h', s') \<Longrightarrow> os_pages s' = os_pages s"
    by (auto simp: fixed_mapper_alloc_page_def bindR_Inr_iff Let_def split: if_splits
        dest!: fixed_contents mprotect_contents)
  show "fixed_mapper_freepages h a s = Inr (h', s') \<Longrightarrow> os_pages s' = os_pages s"
    by (auto simp: fixed_mapper_freepages_def bindR_Inr_iff Let_def split: if_splits)
  show "fixed_mapper_init env s = Inr (h', s') \<Longrightarrow> os_pages s' = os_pages s"
    by (auto simp: fixed_mapper_init_def bindR_Inr_iff Let_def split: if_splits dest!: fixed_contents)
qed

lemma nlm_contents [contents]:
  "nlm_grow_file n m s = Inr (n', s') \<Longrightarrow> os_pages s' = os_pages s"
  "map_appending n b s = Inr (n', s') \<Longrightarrow> os_pages s' = os_pages s"
proof -
  show "nlm_grow_file n m s = Inr (n', s') \<Longrightarrow> os_pages s' = os_pages s"
    by (auto simp: nlm_grow_file_def bindR_Inr_iff Let_def split: prod.splits if_splits dest!: sys_contents(5))
  show "map_appending n b s = Inr (n', s') \<Longrightarrow> os_pages s' = os_pages s"
    by (auto simp: map_appending_def bindR_Inr_iff Let_def split: prod.splits if_splits dest!: sys_contents(1))
qed

lemma nlm_ops_contents [contents]:
  "nlm_alloc_page n f s = Inr (al, n', s') \<Longrightarrow> os_pages s' = os_pages s"
  "nlm_swap_pages n x i y j s = Inr (n', s') \<Longrightarrow> os_pages s' = os_pages s"
  "nlm_init env s = Inr (n', s') \<Longrightarrow> os_pages s' = os_pages s"
proof -
  show "nlm_alloc_page n f s = Inr (al, n', s') \<Longrightarrow> os_pages s' = os_pages s"
    by (auto simp: nlm_alloc_page_def bindR_Inr_iff Let_def split: if_splits dest!: nlm_contents mprotect_contents)
  show "nlm_swap_pages n x i y j s = Inr (n', s') \<Longrightarrow> os_pages s' = os_pages s"
    by (auto simp: nlm_swap_pages_def Let_def split: prod.splits if_splits dest!: sys_contents(4))
  show "nlm_init env s = Inr (n', s') \<Longrightarrow> os_pages s' = os_pages s"
    by (auto simp: nlm_init_def bindR_Inr_iff Let_def split: if_splits dest!: nlm_contents)
qed

lemma pa_contents [contents]:
  "page_allocator_getpage pa f s = Inr (al, pa', s') \<Longrightarrow> os_pages s' = os_pages s"
  "page_allocator_freepages pa a s = Inr (pa', s') \<Longrightarrow> os_pages s' = os_pages s"
  "page_allocator_swap_mappings pa x i y j s = Inr (pa', s') \<Longrightarrow> os_pages s' = os_pages s"
  "page_allocator_init env s = Inr (pa', s') \<Longrightarrow> os_pages s' = os_pages s"
  by (cases pa; force simp: page_allocator_getpage_def page_allocator_freepages_def page_allocator_swap_mappings_def
      page_allocator_init_def fixed_mapper_noswap_def bindR_Inr_iff split: if_splits
      dest!: fixed_ops_contents nlm_ops_contents)+

end
