(* ===== verification/Bitstring.thy ===== *)
theory Bitstring
  imports Prelude
begin

text \<open>
  The bit-string macros of \<^verbatim>\<open>utils/bitstring.h\<close>, which the slab allocator uses as its
  in-use bitmaps. A \<open>bitstr_t *\<close> is a function from byte indices to bytes; bit numbers
  are the non-negative C integers the callers pass, results that may be \<open>-1\<close> are \<open>int\<close>.
  The macros whose inner shift loop ends only on a suitable byte are
  \<^verbatim>\<open>partial_function\<close>s, and are shown to return; so is the search for a range, which does not always.
\<close>

unbundle bit_operations_syntax

type_synonym bitstr = "nat \<Rightarrow> u8"

section \<open>The macros\<close>

definition bit_byte :: "nat \<Rightarrow> nat" where
  "bit_byte b = drop_bit 3 b"

definition bit_mask :: "nat \<Rightarrow> u8" where
  "bit_mask b = push_bit (b AND 7) 1"

definition bitstr_size :: "nat \<Rightarrow> nat" where
  "bitstr_size nbits = drop_bit 3 (nbits + 7)"

definition bit_test :: "bitstr \<Rightarrow> nat \<Rightarrow> u8" where
  "bit_test name b = name (bit_byte b) AND bit_mask b"

definition bit_set :: "bitstr \<Rightarrow> nat \<Rightarrow> bitstr" where
  "bit_set name b = name(bit_byte b := name (bit_byte b) OR bit_mask b)"

definition bit_clear :: "bitstr \<Rightarrow> nat \<Rightarrow> bitstr" where
  "bit_clear name b = name(bit_byte b := name (bit_byte b) AND NOT (bit_mask b))"

text \<open>The loop \<open>while (++_startbyte < _stopbyte)\<close> that \<open>bit_nset\<close> and \<open>bit_nclear\<close> share.\<close>

function fill_bytes :: "bitstr \<Rightarrow> nat \<Rightarrow> nat \<Rightarrow> u8 \<Rightarrow> bitstr" where
  "fill_bytes name startbyte stopbyte v =
     (if Suc startbyte < stopbyte
      then fill_bytes (name(Suc startbyte := v)) (Suc startbyte) stopbyte v else name)"
  by pat_completeness auto
termination
  by (relation "measure (\<lambda>(_, a, b, _). b - a)") auto

declare fill_bytes.simps [simp del]

definition bit_nclear :: "bitstr \<Rightarrow> nat \<Rightarrow> nat \<Rightarrow> bitstr" where
  "bit_nclear name start stop =
     (let startbyte = bit_byte start; stopbyte = bit_byte stop;
          low = drop_bit (8 - (start AND 7)) (0xff :: u8);
          high = push_bit ((stop AND 7) + 1) (0xff :: u8)
      in if startbyte = stopbyte
         then name(startbyte := name startbyte AND (low OR high))
         else let name1 = name(startbyte := name startbyte AND low);
                  name2 = fill_bytes name1 startbyte stopbyte 0
              in name2(stopbyte := name2 stopbyte AND high))"

definition bit_nset :: "bitstr \<Rightarrow> nat \<Rightarrow> nat \<Rightarrow> bitstr" where
  "bit_nset name start stop =
     (let startbyte = bit_byte start; stopbyte = bit_byte stop;
          high = push_bit (start AND 7) (0xff :: u8);
          low = drop_bit (7 - (stop AND 7)) (0xff :: u8)
      in if startbyte = stopbyte
         then name(startbyte := name startbyte OR (high AND low))
         else let name1 = name(startbyte := name startbyte OR high);
                  name2 = fill_bytes name1 startbyte stopbyte 0xff
              in name2(stopbyte := name2 stopbyte OR low))"

text \<open>\<open>for (_lb = _name[_byte]; (_lb&0x1); ++_value, _lb >>= 1);\<close>\<close>

function ffc_shift :: "u8 \<Rightarrow> int \<Rightarrow> int" where
  "ffc_shift lb v = (if lb AND 1 \<noteq> 0 then ffc_shift (drop_bit 1 lb) (v + 1) else v)"
  by pat_completeness auto
termination
proof (relation "measure (\<lambda>(lb, _). unat lb)")
  show "((drop_bit 1 lb, v + 1), lb, v) \<in> measure (\<lambda>(lb, _). unat lb)"
    if "lb AND 1 \<noteq> 0" for lb :: u8 and v :: int
  proof -
    from that have "lb \<noteq> 0" by auto
    then show ?thesis by (simp add: unat_shift_right_less)
  qed
qed simp

declare ffc_shift.simps [simp del]

function ffc_byte :: "bitstr \<Rightarrow> nat \<Rightarrow> nat \<Rightarrow> int" where
  "ffc_byte name b stopbyte =
     (if b \<le> stopbyte
      then if name b \<noteq> 0xff then ffc_shift (name b) (int (push_bit 3 b))
           else ffc_byte name (Suc b) stopbyte
      else -1)"
  by pat_completeness auto
termination
  by (relation "measure (\<lambda>(_, b, s). Suc s - b)") auto

declare ffc_byte.simps [simp del]

definition bit_ffc :: "bitstr \<Rightarrow> nat \<Rightarrow> int" where
  "bit_ffc name nbits =
     (let stopbyte = bit_byte (nbits - 1);
          v = (if nbits > 0 then ffc_byte name 0 stopbyte else -1)
      in if v \<ge> int nbits then -1 else v)"

text \<open>\<open>for (_lb = _name[_byte]; !(_lb&0x1); ++_value, _lb >>= 1);\<close>\<close>

partial_function (option) ffs_shift :: "u8 \<Rightarrow> int \<Rightarrow> int option" where
  "ffs_shift lb v = (if lb AND 1 = 0 then ffs_shift (drop_bit 1 lb) (v + 1) else Some v)"

function ffs_byte :: "bitstr \<Rightarrow> nat \<Rightarrow> nat \<Rightarrow> int option" where
  "ffs_byte name b stopbyte =
     (if b \<le> stopbyte
      then if name b \<noteq> 0 then ffs_shift (name b) (int (push_bit 3 b))
           else ffs_byte name (Suc b) stopbyte
      else Some (-1))"
  by pat_completeness auto
termination
  by (relation "measure (\<lambda>(_, b, s). Suc s - b)") auto

declare ffs_byte.simps [simp del]

definition bit_ffs :: "bitstr \<Rightarrow> nat \<Rightarrow> int option" where
  "bit_ffs name nbits =
     (let stopbyte = bit_byte (nbits - 1)
      in map_option (\<lambda>v. if v \<ge> int nbits then -1 else v)
           (if nbits > 0 then ffs_byte name 0 stopbyte else Some (-1)))"

text \<open>\<open>for (_lb = _name[_byte]; _lb != 0x1; ++_value, _lb >>= 1);\<close>, scanning the bytes downwards.\<close>

partial_function (option) fls_shift :: "u8 \<Rightarrow> int \<Rightarrow> int option" where
  "fls_shift lb v = (if lb \<noteq> 1 then fls_shift (drop_bit 1 lb) (v + 1) else Some v)"

fun fls_byte :: "bitstr \<Rightarrow> nat \<Rightarrow> int option" where
  "fls_byte name n =
     (if name n \<noteq> 0 then fls_shift (name n) (int (push_bit 3 n))
      else case n of 0 \<Rightarrow> Some (-1) | Suc m \<Rightarrow> fls_byte name m)"

declare fls_byte.simps [simp del]

definition bit_fls :: "bitstr \<Rightarrow> nat \<Rightarrow> int option" where
  "bit_fls name nbits =
     (let startbyte = bit_byte (nbits - 1)
      in map_option (\<lambda>v. if v \<ge> int nbits then -1 else v)
           (if nbits > 0 then fls_byte name startbyte else Some (-1)))"

text \<open>
  The search for a clear range, the loop of \<^verbatim>\<open>_bit_nsearch\<close> with its variables \<open>_bit\<close>, \<open>_bit0\<close>, \<open>_tmplen\<close>
  and \<open>_match\<close>.  Its inner search for a byte that is not full starts at the first bit of the byte of
  \<open>_bit\<close>, and leaves \<open>_bit\<close> alone when every byte up to the last is full.
\<close>

partial_function (option) bit_nsearch_loop :: "bitstr \<Rightarrow> nat \<Rightarrow> int \<Rightarrow> nat \<Rightarrow> int \<Rightarrow> int \<Rightarrow> bool \<Rightarrow> int option" where
  "bit_nsearch_loop name nbits len b bit0 tmplen match =
     (if int b + tmplen < int nbits \<and> tmplen > 0
      then if \<not> match
           then bit_nsearch_loop name nbits len
                  ((if ffc_byte name (bit_byte b) (bit_byte (nbits - 1)) = -1 then b
                    else nat (ffc_byte name (bit_byte b) (bit_byte (nbits - 1)))) + 1)
                  (if ffc_byte name (bit_byte b) (bit_byte (nbits - 1)) = -1 then int b
                   else ffc_byte name (bit_byte b) (bit_byte (nbits - 1)))
                  (tmplen - 1) True
           else if bit_test name b = 0
           then if name (bit_byte b) = 0
                then bit_nsearch_loop name nbits len (b + 7 + 1) bit0 (tmplen - 8) True
                else bit_nsearch_loop name nbits len (b + 1) bit0 (tmplen - 1) True
           else bit_nsearch_loop name nbits len (b + 1) bit0 len False
      else Some (if tmplen \<le> 0 then bit0 else -1))"

definition bit_nsearch :: "bitstr \<Rightarrow> nat \<Rightarrow> int \<Rightarrow> int option" where
  "bit_nsearch name nbits len =
     (if len > 1 then bit_nsearch_loop name nbits len 0 (-1) len False else Some (bit_ffc name nbits))"

text \<open>A bit string from the heap: \<^verbatim>\<open>calloc\<close> zeroes its bytes.\<close>

definition bit_alloc :: "nat \<Rightarrow> bitstr" where
  "bit_alloc nbits = (\<lambda>_. 0)"

section \<open>Bits of a bit string\<close>

definition bits :: "bitstr \<Rightarrow> nat \<Rightarrow> bool" where
  "bits name i \<longleftrightarrow> bit (name (i div 8)) (i mod 8)"

lemma bit_byte_div: "bit_byte b = b div 8"
  by (simp add: bit_byte_def drop_bit_eq_div)

lemma and_7_mod: "(b::nat) AND 7 = b mod 8"
  using take_bit_eq_mask [of 3 b] by (simp add: take_bit_eq_mod mask_eq_exp_minus_1)

lemma bitstr_size_div: "bitstr_size n = (n + 7) div 8"
  by (simp add: bitstr_size_def drop_bit_eq_div)

lemma u8_ff: "(0xff :: u8) = mask 8"
  by (simp add: mask_eq_exp_minus_1)

lemma bit_test_bits: "bit_test name b \<noteq> 0 \<longleftrightarrow> bits name b"
proof -
  have "(x AND push_bit k 1 \<noteq> 0) = bit x k" if "k < 8" for x :: u8 and k
    using that by (simp add: and_exp_eq_0_iff_not_bit push_bit_eq_mult)
  then show ?thesis
    by (simp add: bit_test_def bit_mask_def bits_def bit_byte_div and_7_mod)
qed

lemma bit_test_zero [simp]: "bit_test name b = 0 \<longleftrightarrow> \<not> bits name b"
  using bit_test_bits [of name b] by auto

lemma div_mod_8_eq: "(i::nat) div 8 = j div 8 \<Longrightarrow> i mod 8 = j mod 8 \<Longrightarrow> i = j"
  by (metis div_mult_mod_eq)

lemma bits_bit_set: "bits (bit_set name b) i \<longleftrightarrow> i = b \<or> bits name i"
  by (auto simp: bits_def bit_set_def bit_byte_div bit_mask_def and_7_mod bit_simps dest: div_mod_8_eq)

lemma bits_bit_clear: "bits (bit_clear name b) i \<longleftrightarrow> i \<noteq> b \<and> bits name i"
  by (auto simp: bits_def bit_clear_def bit_byte_div bit_mask_def and_7_mod bit_simps dest: div_mod_8_eq)

section \<open>Ranges\<close>

lemma le_by_byte: "(a::nat) \<le> i \<longleftrightarrow> a div 8 < i div 8 \<or> (a div 8 = i div 8 \<and> a mod 8 \<le> i mod 8)"
proof -
  have "a \<le> i \<longleftrightarrow> A < B \<or> A = B \<and> x \<le> y"
    if "a = 8 * A + x" "i = 8 * B + y" "x < 8" "y < 8" for A B x y
    using that by arith
  from this [of "a div 8" "a mod 8" "i div 8" "i mod 8"] show ?thesis by simp
qed

lemma fill_bytes_apply:
  "fill_bytes name a b v i = (if a < i \<and> i < b then v else name i)"
proof (induction name a b v rule: fill_bytes.induct)
  case (1 name a b v)
  then show ?case
    by (subst fill_bytes.simps) (auto simp: fun_upd_def)
qed

lemma bit_high [simp]: "bit (push_bit k (0xff :: u8)) i \<longleftrightarrow> k \<le> i \<and> i < 8"
  unfolding u8_ff by (auto simp: bit_simps)

lemma bit_high_Suc [simp]: "bit (push_bit k (510 :: u8)) i \<longleftrightarrow> Suc k \<le> i \<and> i < 8"
  using bit_high [of "Suc k" i] by simp

lemma bit_low [simp]: "bit (drop_bit k (0xff :: u8)) i \<longleftrightarrow> k + i < 8"
  unfolding u8_ff by (auto simp: bit_simps)

lemma bit_ff [simp]: "bit (255 :: int) i \<longleftrightarrow> i < 8"
proof -
  have "bit (mask 8 :: int) i \<longleftrightarrow> i < 8" by (simp only: bit_mask_iff possible_bit_int simp_thms)
  then show ?thesis by (simp add: mask_eq_exp_minus_1)
qed

lemma bits_bit_nset:
  assumes "a \<le> b"
  shows "bits (bit_nset name a b) i \<longleftrightarrow> a \<le> i \<and> i \<le> b \<or> bits name i"
proof -
  define A B I x y z where names: "A = a div 8" "B = b div 8" "I = i div 8"
    "x = a mod 8" "y = b mod 8" "z = i mod 8"
  have z: "z < 8" and low: "7 - y + z < 8 \<longleftrightarrow> z \<le> y" by (auto simp: names)
  have ord: "A < B \<or> A = B \<and> x \<le> y"
    using assms by (auto simp: le_by_byte [of a b] names)
  show ?thesis
    unfolding le_by_byte [of a i] le_by_byte [of i b] bits_def bit_nset_def Let_def bit_byte_div
      and_7_mod names [symmetric]
    by (cases "I = A"; cases "I = B"; cases "A = B")
      (use z ord low in \<open>auto simp: bit_or_iff bit_and_iff fill_bytes_apply\<close>)
qed

lemma bits_bit_nclear:
  assumes "a \<le> b"
  shows "bits (bit_nclear name a b) i \<longleftrightarrow> \<not> (a \<le> i \<and> i \<le> b) \<and> bits name i"
proof -
  define A B I x y z where names: "A = a div 8" "B = b div 8" "I = i div 8"
    "x = a mod 8" "y = b mod 8" "z = i mod 8"
  have "x < 8" and z: "z < 8" by (auto simp: names)
  then have low: "8 - x + z < 8 \<longleftrightarrow> z < x" by arith
  have ord: "A < B \<or> A = B \<and> x \<le> y"
    using assms by (auto simp: le_by_byte [of a b] names)
  show ?thesis
    unfolding le_by_byte [of a i] le_by_byte [of i b] bits_def bit_nclear_def Let_def bit_byte_div
      and_7_mod names [symmetric]
    by (cases "I = A"; cases "I = B"; cases "A = B")
      (use z ord low in \<open>auto simp: bit_or_iff bit_and_iff fill_bytes_apply\<close>)
qed

section \<open>Searching\<close>

lemma u8_eqI: "(\<And>j. j < 8 \<Longrightarrow> bit x j = bit y j) \<Longrightarrow> x = (y :: u8)"
  by (rule bit_word_eqI) simp

lemma bit_drop1: "bit (drop_bit 1 lb) j = bit lb (Suc j)" for lb :: u8
  by (simp add: bit_simps)

lemma ffc_shift_first_clear:
  "\<exists>k. ffc_shift lb v = v + int k \<and> \<not> bit lb k \<and> (\<forall>j<k. bit lb j)"
proof (induction lb v rule: ffc_shift.induct)
  case (1 lb v)
  show ?case
  proof (cases "bit lb 0")
    case True
    then have guard: "lb AND 1 \<noteq> 0" by (simp add: and_one_eq odd_iff_mod_2_eq_one bit_0)
    from 1 [OF guard] obtain k where k: "ffc_shift (drop_bit 1 lb) (v + 1) = v + 1 + int k"
      "\<not> bit (drop_bit 1 lb) k" "\<forall>j<k. bit (drop_bit 1 lb) j" by blast
    have "\<forall>j<Suc k. bit lb j"
      using True k(3) bit_drop1 [of lb] by (auto simp: less_Suc_eq_0_disj simp del: One_nat_def)
    moreover have "ffc_shift lb v = v + int (Suc k)"
      using guard k(1) by (subst ffc_shift.simps) simp
    ultimately show ?thesis using k(2) bit_drop1 [of lb k] by (metis)
  next
    case False
    then have "lb AND 1 = 0" by (simp add: and_one_eq bit_0 even_iff_mod_2_eq_zero)
    with False show ?thesis by (subst ffc_shift.simps) (auto intro!: exI [of _ 0])
  qed
qed

lemma ffc_shift_byte:
  assumes "lb \<noteq> 0xff"
  shows "\<exists>k<8. ffc_shift lb v = v + int k \<and> \<not> bit lb k \<and> (\<forall>j<k. bit lb j)"
proof -
  obtain k where k: "ffc_shift lb v = v + int k" "\<not> bit lb k" "\<forall>j<k. bit lb j"
    using ffc_shift_first_clear by blast
  have "k < 8"
  proof (rule ccontr)
    assume "\<not> k < 8"
    with k(3) have "lb = 0xff" by (intro u8_eqI) simp
    with assms show False by simp
  qed
  with k show ?thesis by blast
qed

text \<open>The outcome of a scan for the first position in a range where a predicate holds.\<close>

definition first_at :: "(nat \<Rightarrow> bool) \<Rightarrow> nat \<Rightarrow> nat \<Rightarrow> int \<Rightarrow> bool" where
  "first_at P lo hi v \<longleftrightarrow>
     (v = -1 \<and> (\<forall>i. lo \<le> i \<and> i < hi \<longrightarrow> \<not> P i)) \<or>
     (\<exists>k. v = int k \<and> lo \<le> k \<and> k < hi \<and> P k \<and> (\<forall>i. lo \<le> i \<and> i < k \<longrightarrow> \<not> P i))"

lemma first_at_extend:
  assumes "first_at P mid hi v" and "lo \<le> mid" and "\<And>i. lo \<le> i \<Longrightarrow> i < mid \<Longrightarrow> \<not> P i"
  shows "first_at P lo hi v"
  using assms(1) unfolding first_at_def
proof (elim disjE exE conjE)
  assume "v = -1" and no: "\<forall>i. mid \<le> i \<and> i < hi \<longrightarrow> \<not> P i"
  moreover have "\<forall>i. lo \<le> i \<and> i < hi \<longrightarrow> \<not> P i"
    using no assms(3) by (metis not_le_imp_less)
  ultimately show "v = -1 \<and> (\<forall>i. lo \<le> i \<and> i < hi \<longrightarrow> \<not> P i) \<or>
      (\<exists>k. v = int k \<and> lo \<le> k \<and> k < hi \<and> P k \<and> (\<forall>i. lo \<le> i \<and> i < k \<longrightarrow> \<not> P i))" by simp
next
  fix k
  assume "v = int k" "mid \<le> k" "k < hi" "P k" and no: "\<forall>i. mid \<le> i \<and> i < k \<longrightarrow> \<not> P i"
  moreover have "\<forall>i. lo \<le> i \<and> i < k \<longrightarrow> \<not> P i"
    using no assms(3) by (metis not_le_imp_less)
  ultimately show "v = -1 \<and> (\<forall>i. lo \<le> i \<and> i < hi \<longrightarrow> \<not> P i) \<or>
      (\<exists>k. v = int k \<and> lo \<le> k \<and> k < hi \<and> P k \<and> (\<forall>i. lo \<le> i \<and> i < k \<longrightarrow> \<not> P i))"
    using assms(2) by auto
qed

lemma bits_at: "j < 8 \<Longrightarrow> bits name (8 * b + j) = bit (name b) j"
  by (simp add: bits_def)

lemma ffc_byte_first_at:
  "first_at (\<lambda>i. \<not> bits name i) (8 * b) (8 * Suc s) (ffc_byte name b s)"
proof (induction name b s rule: ffc_byte.induct)
  case (1 name b s)
  consider "s < b" | "b \<le> s" "name b \<noteq> 0xff" | "b \<le> s" "name b = 0xff" by fastforce
  then show ?case
  proof cases
    case 1
    then show ?thesis by (subst ffc_byte.simps) (auto simp: first_at_def)
  next
    case 2
    then obtain k where k: "k < 8" "ffc_shift (name b) (int (push_bit 3 b)) = int (8 * b) + int k"
      "\<not> bit (name b) k" "\<forall>j<k. bit (name b) j"
      using ffc_shift_byte [of "name b" "int (push_bit 3 b)"] by (auto simp: push_bit_eq_mult)
    have "bits name i" if "8 * b \<le> i" "i < 8 * b + k" for i
    proof -
      from that k(1,4) bits_at [of "i - 8 * b" name b] show ?thesis by auto
    qed
    with 2 k bits_at [OF k(1), of name b] show ?thesis
      by (subst ffc_byte.simps) (auto simp: first_at_def intro!: exI [of _ "8 * b + k"])
  next
    case 3
    have full: "bits name i" if "8 * b \<le> i" "i < 8 * Suc b" for i
      using that 3 bits_at [of "i - 8 * b" name b] by auto
    from 3 1 have "first_at (\<lambda>i. \<not> bits name i) (8 * Suc b) (8 * Suc s) (ffc_byte name (Suc b) s)"
      by simp
    then have "first_at (\<lambda>i. \<not> bits name i) (8 * b) (8 * Suc s) (ffc_byte name (Suc b) s)"
      by (rule first_at_extend) (use full in auto)
    with 3 show ?thesis by (subst ffc_byte.simps) simp
  qed
qed

lemma first_at_cut:
  assumes "first_at P lo hi v" and "hi' \<le> hi"
  shows "first_at P lo hi' (if v \<ge> int hi' then -1 else v)"
  using assms unfolding first_at_def by (auto split: if_splits)

lemma last_byte: "0 < n \<Longrightarrow> n \<le> 8 * Suc ((n - 1) div 8)" for n :: nat
  by presburger

lemma last_byte_size: "0 < n \<Longrightarrow> Suc ((n - 1) div 8) = (n + 7) div 8" for n :: nat
  using div_add_self2 [of 8 "n - 1"] by simp

lemma bit_ffc_first_at: "first_at (\<lambda>i. \<not> bits name i) 0 n (bit_ffc name n)"
proof (cases "n = 0")
  case True
  then show ?thesis by (simp add: bit_ffc_def first_at_def)
next
  case False
  then have "n \<le> 8 * Suc (bit_byte (n - 1))" using last_byte [of n] by (simp add: bit_byte_div)
  from first_at_cut [OF ffc_byte_first_at [of name 0, simplified mult_0_right] this] False
  show ?thesis by (simp add: bit_ffc_def Let_def del: One_nat_def split del: if_split)
qed

lemma ffs_shift_byte:
  assumes "lb \<noteq> 0"
  shows "\<exists>k<8. ffs_shift lb v = Some (v + int k) \<and> bit lb k \<and> (\<forall>j<k. \<not> bit lb j)"
  using assms
proof (induction "unat lb" arbitrary: lb v rule: less_induct)
  case less
  show ?case
  proof (cases "bit lb 0")
    case True
    then have "lb AND 1 \<noteq> 0" by (simp add: and_one_eq odd_iff_mod_2_eq_one bit_0)
    with True show ?thesis by (subst ffs_shift.simps) (auto intro!: exI [of _ 0])
  next
    case False
    then have guard: "lb AND 1 = 0" by (simp add: and_one_eq bit_0 even_iff_mod_2_eq_zero)
    have nz: "drop_bit 1 lb \<noteq> 0"
    proof
      assume z: "drop_bit 1 lb = 0"
      have "bit lb j = bit (0 :: u8) j" for j
        using False z bit_drop1 [of lb "j - 1"] by (cases j) (auto simp del: One_nat_def)
      then have "lb = 0" by (intro bit_word_eqI)
      with less.prems show False by simp
    qed
    have "unat (drop_bit 1 lb) < unat lb"
      using less.prems by (simp add: unat_shift_right_less)
    from less.hyps [OF this nz] obtain k where k: "k < 8"
      "ffs_shift (drop_bit 1 lb) (v + 1) = Some (v + 1 + int k)"
      "bit (drop_bit 1 lb) k" "\<forall>j<k. \<not> bit (drop_bit 1 lb) j" by blast
    have set: "bit lb (Suc k)" using k(3) bit_drop1 [of lb k] by simp
    then have "Suc k < 8" using bit_imp_le_length [of lb "Suc k"] by simp
    moreover have "\<forall>j<Suc k. \<not> bit lb j"
      using False k(4) bit_drop1 [of lb] by (auto simp: less_Suc_eq_0_disj simp del: One_nat_def)
    moreover have "ffs_shift lb v = Some (v + int (Suc k))"
      using guard k(2) by (subst ffs_shift.simps) simp
    ultimately show ?thesis using set by blast
  qed
qed

lemma ffs_byte_first_at:
  "\<exists>v. ffs_byte name b s = Some v \<and> first_at (bits name) (8 * b) (8 * Suc s) v"
proof (induction name b s rule: ffs_byte.induct)
  case (1 name b s)
  consider "s < b" | "b \<le> s" "name b \<noteq> 0" | "b \<le> s" "name b = 0" by fastforce
  then show ?case
  proof cases
    case 1
    then show ?thesis by (subst ffs_byte.simps) (auto simp: first_at_def)
  next
    case 2
    then obtain k where k: "k < 8" "ffs_shift (name b) (int (push_bit 3 b)) = Some (int (8 * b) + int k)"
      "bit (name b) k" "\<forall>j<k. \<not> bit (name b) j"
      using ffs_shift_byte [of "name b" "int (push_bit 3 b)"] by (auto simp: push_bit_eq_mult)
    have "\<not> bits name i" if "8 * b \<le> i" "i < 8 * b + k" for i
    proof -
      from that k(1,4) bits_at [of "i - 8 * b" name b] show ?thesis by auto
    qed
    with 2 k bits_at [OF k(1), of name b] show ?thesis
      by (subst ffs_byte.simps) (auto simp: first_at_def intro!: exI [of _ "8 * b + k"])
  next
    case 3
    have none: "\<not> bits name i" if "8 * b \<le> i" "i < 8 * Suc b" for i
      using that 3 bits_at [of "i - 8 * b" name b] by auto
    from 3 1 obtain v where v: "ffs_byte name (Suc b) s = Some v"
      "first_at (bits name) (8 * Suc b) (8 * Suc s) v" by auto
    from v(2) have "first_at (bits name) (8 * b) (8 * Suc s) v"
      by (rule first_at_extend) (use none in auto)
    with 3 v(1) show ?thesis by (subst ffs_byte.simps) simp
  qed
qed

lemma bit_ffs_first_at: "\<exists>v. bit_ffs name n = Some v \<and> first_at (bits name) 0 n v"
proof (cases "n = 0")
  case True
  then show ?thesis by (simp add: bit_ffs_def first_at_def)
next
  case False
  then have le: "n \<le> 8 * Suc (bit_byte (n - 1))" using last_byte [of n] by (simp add: bit_byte_div)
  obtain v where v: "ffs_byte name 0 (bit_byte (n - 1)) = Some v"
    "first_at (bits name) 0 (8 * Suc (bit_byte (n - 1))) v"
    using ffs_byte_first_at [of name 0 "bit_byte (n - 1)"] by auto
  from first_at_cut [OF v(2) le] v(1) False
  show ?thesis by (simp add: bit_ffs_def Let_def del: One_nat_def split del: if_split)
qed

lemma fls_shift_byte:
  assumes "lb \<noteq> 0"
  shows "\<exists>k<8. fls_shift lb v = Some (v + int k) \<and> bit lb k \<and> (\<forall>j. k < j \<longrightarrow> \<not> bit lb j)"
  using assms
proof (induction "unat lb" arbitrary: lb v rule: less_induct)
  case less
  show ?case
  proof (cases "lb = 1")
    case True
    then show ?thesis by (subst fls_shift.simps) (auto simp: bit_simps intro!: exI [of _ 0])
  next
    case False
    have nz: "drop_bit 1 lb \<noteq> 0"
    proof
      assume z: "drop_bit 1 lb = 0"
      have "bit lb j = bit (if bit lb 0 then 1 else (0 :: u8)) j" for j
        using z bit_drop1 [of lb "j - 1"] by (cases j) (auto simp: bit_simps simp del: One_nat_def)
      then have "lb = (if bit lb 0 then 1 else 0)" by (intro bit_word_eqI)
      with less.prems False show False by (auto split: if_splits)
    qed
    have "unat (drop_bit 1 lb) < unat lb"
      using less.prems by (simp add: unat_shift_right_less)
    from less.hyps [OF this nz] obtain k where k: "k < 8"
      "fls_shift (drop_bit 1 lb) (v + 1) = Some (v + 1 + int k)"
      "bit (drop_bit 1 lb) k" "\<forall>j. k < j \<longrightarrow> \<not> bit (drop_bit 1 lb) j" by blast
    have set: "bit lb (Suc k)" using k(3) bit_drop1 [of lb k] by simp
    then have "Suc k < 8" using bit_imp_le_length [of lb "Suc k"] by simp
    moreover have "\<not> bit lb j" if "Suc k < j" for j
      using that k(4) bit_drop1 [of lb "j - 1"] by (cases j) (auto simp del: One_nat_def)
    moreover have "fls_shift lb v = Some (v + int (Suc k))"
      using False k(2) by (subst fls_shift.simps) simp
    ultimately show ?thesis using set by blast
  qed
qed

text \<open>The outcome of a scan for the last position where a predicate holds.\<close>

definition last_at :: "(nat \<Rightarrow> bool) \<Rightarrow> nat \<Rightarrow> int \<Rightarrow> bool" where
  "last_at P hi v \<longleftrightarrow>
     (v = -1 \<and> (\<forall>i<hi. \<not> P i)) \<or>
     (\<exists>k. v = int k \<and> k < hi \<and> P k \<and> (\<forall>i. k < i \<and> i < hi \<longrightarrow> \<not> P i))"

lemma last_at_extend:
  assumes "last_at P mid v" and "mid \<le> hi" and "\<And>i. mid \<le> i \<Longrightarrow> i < hi \<Longrightarrow> \<not> P i"
  shows "last_at P hi v"
proof -
  have no: "\<not> P i" if "\<not> (i < mid \<and> P i)" "i < hi" for i
    using that assms(3) by (cases "i < mid") auto
  from assms(1) show ?thesis
    unfolding last_at_def
    by (elim disjE exE conjE) (use no assms(2) in \<open>auto intro!: no simp: less_le_trans\<close>)
qed

lemma fls_byte_last_at: "\<exists>v. fls_byte name s = Some v \<and> last_at (bits name) (8 * Suc s) v"
proof (induction s)
  case 0
  have zero: "name 0 = 0 \<Longrightarrow> i < 8 \<Longrightarrow> \<not> bits name i" for i
    using bits_at [of i name 0] by simp
  have "\<exists>k<8. fls_shift (name 0) 0 = Some (int k) \<and> bits name k \<and> (\<forall>j. k < j \<and> j < 8 \<longrightarrow> \<not> bits name j)"
    if "name 0 \<noteq> 0"
    using fls_shift_byte [OF that, of 0] bits_at [of _ name 0] by fastforce
  with zero show ?case by (subst fls_byte.simps) (auto simp: last_at_def)
next
  case (Suc s)
  show ?case
  proof (cases "name (Suc s) = 0")
    case False
    obtain k where k: "k < 8" "fls_shift (name (Suc s)) (int (8 * Suc s)) = Some (int (8 * Suc s) + int k)"
      "bit (name (Suc s)) k" "\<forall>j. k < j \<longrightarrow> \<not> bit (name (Suc s)) j"
      using fls_shift_byte [OF False] by blast
    have "\<not> bits name i" if "8 * Suc s + k < i" "i < 8 * Suc (Suc s)" for i
      using that k(4) bits_at [of "i - 8 * Suc s" name "Suc s"] by auto
    then have "last_at (bits name) (8 * Suc (Suc s)) (int (8 * Suc s + k))"
      using k(1,3) bits_at [OF k(1), of name "Suc s"] by (auto simp: last_at_def intro!: exI [of _ "8 * Suc s + k"])
    moreover have "push_bit 3 (Suc s) = 8 * Suc s" by (simp add: push_bit_eq_mult)
    ultimately show ?thesis using False k(2) by (subst fls_byte.simps) (simp del: mult_Suc_right push_bit_Suc)
  next
    case True
    have none: "\<not> bits name i" if "8 * Suc s \<le> i" "i < 8 * Suc (Suc s)" for i
      using that True bits_at [of "i - 8 * Suc s" name "Suc s"] by auto
    from Suc obtain v where v: "fls_byte name s = Some v" "last_at (bits name) (8 * Suc s) v" by blast
    from v(2) have "last_at (bits name) (8 * Suc (Suc s)) v"
      by (rule last_at_extend) (use none in auto)
    with True v(1) show ?thesis by (subst fls_byte.simps) simp
  qed
qed

lemma bit_fls_last_at:
  assumes "\<And>i. n \<le> i \<Longrightarrow> i < 8 * bitstr_size n \<Longrightarrow> \<not> bits name i"
  shows "\<exists>v. bit_fls name n = Some v \<and> last_at (bits name) n v"
proof (cases "n = 0")
  case True
  then show ?thesis by (simp add: bit_fls_def last_at_def)
next
  case False
  define s where "s = bit_byte (n - 1)"
  have sz: "8 * Suc s = 8 * bitstr_size n" and le: "n \<le> 8 * Suc s"
    using False last_byte [of n] last_byte_size [of n] by (simp_all add: s_def bit_byte_div bitstr_size_div)
  obtain v where v: "fls_byte name s = Some v" "last_at (bits name) (8 * Suc s) v"
    using fls_byte_last_at by blast
  from v(2) have "last_at (bits name) n v \<and> v < int n"
    unfolding last_at_def using assms le sz by (auto simp: not_le_imp_less leI)
  with v(1) False show ?thesis
    by (simp add: bit_fls_def Let_def s_def del: One_nat_def split del: if_split)
qed

section \<open>The interface of an in-use bitmap\<close>

text \<open>
  What the slab allocator asks of a bitmap: a test, a way to mark and to unmark a slot, and
  a search for the first free slot. The lemmas of the locale are what an allocator proves
  once about any such bitmap.
\<close>

locale slot_bitmap =
  fixes used :: "'b \<Rightarrow> nat \<Rightarrow> bool"
    and mark :: "'b \<Rightarrow> nat \<Rightarrow> 'b"
    and unmark :: "'b \<Rightarrow> nat \<Rightarrow> 'b"
    and find_free :: "'b \<Rightarrow> nat \<Rightarrow> int"
  assumes used_mark: "used (mark b k) i \<longleftrightarrow> i = k \<or> used b i"
    and used_unmark: "used (unmark b k) i \<longleftrightarrow> i \<noteq> k \<and> used b i"
    and find_free: "first_at (\<lambda>i. \<not> used b i) 0 n (find_free b n)"
begin

lemma find_free_none: "find_free b n = -1 \<longleftrightarrow> (\<forall>i<n. used b i)"
  using find_free [of b n] by (auto simp: first_at_def)

lemma find_free_slot:
  "find_free b n = int k \<longleftrightarrow> k < n \<and> \<not> used b k \<and> (\<forall>i<k. used b i)"
proof
  assume "find_free b n = int k"
  with find_free [of b n] show "k < n \<and> \<not> used b k \<and> (\<forall>i<k. used b i)"
    by (auto simp: first_at_def)
next
  assume k: "k < n \<and> \<not> used b k \<and> (\<forall>i<k. used b i)"
  from find_free [of b n] show "find_free b n = int k"
    unfolding first_at_def
  proof (elim disjE exE conjE)
    assume "\<forall>i. 0 \<le> i \<and> i < n \<longrightarrow> \<not> \<not> used b i"
    with k show ?thesis by auto
  next
    fix j
    assume j: "find_free b n = int j" "\<not> used b j" "\<forall>i. 0 \<le> i \<and> i < j \<longrightarrow> \<not> \<not> used b i"
    then have "j = k" using k by (metis less_linear zero_le)
    with j(1) show ?thesis by simp
  qed
qed

lemma find_free_cases:
  obtains (full) "find_free b n = -1" "\<forall>i<n. used b i"
    | (slot) k where "find_free b n = int k" "k < n" "\<not> used b k" "\<forall>i<k. used b i"
  using find_free [of b n] by (auto simp: first_at_def)

lemma count_mark:
  assumes "\<not> used b k" and "k < n"
  shows "card {i. i < n \<and> used (mark b k) i} = Suc (card {i. i < n \<and> used b i})"
proof -
  have "{i. i < n \<and> used (mark b k) i} = insert k {i. i < n \<and> used b i}"
    using assms by (auto simp: used_mark)
  with assms show ?thesis by simp
qed

lemma unmark_mark: "\<not> used b k \<Longrightarrow> used (unmark (mark b k) k) i = used b i"
  by (auto simp: used_mark used_unmark)

lemma count_full: "card {i. i < n \<and> used b i} = n \<longleftrightarrow> (\<forall>i<n. used b i)"
proof
  assume c: "card {i. i < n \<and> used b i} = n"
  have "{i. i < n \<and> used b i} = {i. i < n}"
    by (rule card_subset_eq) (use c in auto)
  then show "\<forall>i<n. used b i" by blast
qed (simp add: Collect_conj_eq Int_absorb2 Collect_mono)

end

interpretation bm: slot_bitmap bits bit_set bit_clear bit_ffc
  by unfold_locales (simp_all add: bits_bit_set bits_bit_clear bit_ffc_first_at)

section \<open>Properties\<close>

text \<open>
  C37: \<open>bit_ffc\<close> returns \<open>-1\<close> exactly when all of the first \<open>n\<close> bits are set, and \<open>k\<close>
  exactly when bit \<open>k\<close> is the first clear bit below \<open>n\<close>. Bits beyond \<open>n\<close> in the last
  byte never influence the result.
\<close>

theorem bit_ffc_finds_first_clear:
  "(bit_ffc name n = -1 \<longleftrightarrow> (\<forall>i<n. bit_test name i \<noteq> 0)) \<and>
   (bit_ffc name n = int k \<longleftrightarrow>
      k < n \<and> bit_test name k = 0 \<and> (\<forall>i<k. bit_test name i \<noteq> 0))"
  using bm.find_free_none [of name n] bm.find_free_slot [of name n k] by simp

theorem bit_ffc_finds_first_clear_witness:
  "bit_ffc (\<lambda>i. if i = 0 then 0xff else 0x03) 16 = int 10"
proof -
  let ?b = "\<lambda>i::nat. if i = 0 then 0xff else (0x03 :: u8)"
  have "bits ?b i" if "i < 10" for i
  proof (cases "i < 8")
    case True
    then show ?thesis by (simp add: bits_def)
  next
    case False
    with that have "i = 8 \<or> i = 9" by arith
    then show ?thesis by (auto simp: bits_def bit_numeral_rec)
  qed
  moreover have "\<not> bits ?b 10" by (simp add: bits_def bit_numeral_rec)
  ultimately have "(\<forall>i<10. bit_test ?b i \<noteq> 0) \<and> bit_test ?b 10 = 0" by simp
  with bit_ffc_finds_first_clear [of ?b 16 10] show ?thesis by simp
qed

text \<open>
  \<open>bit_nset\<close> and \<open>bit_nclear\<close> set and clear exactly the bits of the closed range
  \<open>start .. stop\<close>, whether it lies in one byte or spans several.
\<close>

lemma bit_ranges:
  assumes "start \<le> stop"
  shows "(bit_test (bit_nset name start stop) i \<noteq> 0 \<longleftrightarrow>
            start \<le> i \<and> i \<le> stop \<or> bit_test name i \<noteq> 0) \<and>
         (bit_test (bit_nclear name start stop) i \<noteq> 0 \<longleftrightarrow>
            (i < start \<or> stop < i) \<and> bit_test name i \<noteq> 0)"
  using bits_bit_nset [OF assms, of name i] bits_bit_nclear [OF assms, of name i]
  unfolding bit_test_bits by (metis linorder_not_le)

text \<open>
  the two searches for a set bit return (their shift loops end), \<open>bit_ffs\<close> with the
  first and \<open>bit_fls\<close> with the last set bit below \<open>n\<close>, or \<open>-1\<close> if there is none. For
  \<open>bit_fls\<close> this needs the padding bits of the last byte to be clear.
\<close>

lemma bit_ffs_fls_return:
  assumes "\<And>i. n \<le> i \<Longrightarrow> i < 8 * bitstr_size n \<Longrightarrow> bit_test name i = 0"
  shows "\<exists>v w. bit_ffs name n = Some v \<and> first_at (\<lambda>i. bit_test name i \<noteq> 0) 0 n v \<and>
               bit_fls name n = Some w \<and> last_at (\<lambda>i. bit_test name i \<noteq> 0) n w"
  using bit_ffs_first_at [of name n] bit_fls_last_at [of n name] assms by simp

text \<open>The hypothesis on the padding bits is needed: a stray bit hides the lower ones.\<close>

lemma bit_fls_stray_bit: "bit_fls (\<lambda>_. 0x21) 4 = Some (-1)"
  by (simp add: bit_fls_def bit_byte_def fls_byte.simps fls_shift.simps)

text \<open>
  \<open>bit_nsearch\<close> need not return.  When a candidate range is broken by a set bit, the search goes back
  to the first bit of that byte and finds the same candidate again: with bit 1 the only set bit of
  the first byte, the search for two bits never returns, whatever the other bytes are.
\<close>

lemma nsearch_states:
  assumes "name 0 = 2" and "n \<ge> 16"
  shows "ffc_byte name 0 (bit_byte (n - 1)) = 0" "bit_test name 1 \<noteq> 0"
proof -
  show "ffc_byte name 0 (bit_byte (n - 1)) = 0"
    using assms(1) by (subst ffc_byte.simps) (simp add: ffc_shift.simps)
  show "bit_test name 1 \<noteq> 0" using assms(1) by (simp add: bit_test_def bit_byte_def bit_mask_def)
qed

lemma bit_nsearch_diverges:
  assumes "name 0 = 2" and "n \<ge> 16"
  shows "bit_nsearch name n 2 = None"
proof (rule ccontr)
  note st = nsearch_states [of name, OF assms]
  assume "bit_nsearch name n 2 \<noteq> None"
  then obtain v where v: "bit_nsearch_loop name n 2 0 (-1) 2 False = Some v" by (auto simp: bit_nsearch_def)
  define circle where "circle b bit0 t m \<longleftrightarrow>
    (b = 0 \<and> t = 2 \<and> \<not> m) \<or> (b = 1 \<and> t = 1 \<and> m) \<or> (b = 2 \<and> t = 2 \<and> \<not> m)"
    for b :: nat and bit0 t :: int and m
  have "\<not> (name = name \<and> n = n \<and> 2 = (2 :: int) \<and> circle 0 (-1) 2 False)"
  proof (rule bit_nsearch_loop.raw_induct [where P = "\<lambda>nm k l b b0 t m _. \<not> (nm = name \<and> k = n \<and> l = 2 \<and> circle b b0 t m)", OF _ v])
    fix loop nm k and l :: int and b b0 t m v
    assume IH: "\<And>nm k l b b0 t m v. loop nm k l b b0 t m = Some v \<Longrightarrow> \<not> (nm = name \<and> k = n \<and> l = 2 \<and> circle b b0 t m)"
      and run: "(if int b + t < int k \<and> t > 0
        then if \<not> m
           then loop nm k l
                  ((if ffc_byte nm (bit_byte b) (bit_byte (k - 1)) = -1 then b
                    else nat (ffc_byte nm (bit_byte b) (bit_byte (k - 1)))) + 1)
                  (if ffc_byte nm (bit_byte b) (bit_byte (k - 1)) = -1 then int b
                   else ffc_byte nm (bit_byte b) (bit_byte (k - 1)))
                  (t - 1) True
           else if bit_test nm b = 0
           then if nm (bit_byte b) = 0 then loop nm k l (b + 7 + 1) b0 (t - 8) True
                else loop nm k l (b + 1) b0 (t - 1) True
           else loop nm k l (b + 1) b0 l False
        else Some (if t \<le> 0 then b0 else -1)) = Some v"
    show "\<not> (nm = name \<and> k = n \<and> l = 2 \<and> circle b b0 t m)"
    proof
      assume c: "nm = name \<and> k = n \<and> l = 2 \<and> circle b b0 t m"
      then consider "b = 0" "t = 2" "\<not> m" | "b = 1" "t = 1" "m" | "b = 2" "t = 2" "\<not> m"
        by (auto simp: circle_def)
      then show False
      proof cases
        case 1
        then show False using run c assms(2) st(1) IH [of name n 2 1 0 1 True v] by (simp add: bit_byte_def circle_def)
      next
        case 2
        then show False using run c assms(2) st(2) IH [of name n 2 2 b0 2 False v] by (simp add: circle_def numeral_2_eq_2)
      next
        case 3
        then show False using run c assms(2) st(1) IH [of name n 2 1 0 1 True v] by (simp add: bit_byte_def circle_def)
      qed
    qed
  qed
  then show False by (simp add: circle_def)
qed

end
