(* ===== verification/Vector.thy ===== *)
theory Vector
  imports Prelude
begin

text \<open>
  The growing arrays of \<^verbatim>\<open>utils/vector.h\<close>. The buffer is the list of the cells that
  \<open>malloc\<close>/\<open>realloc\<close> returned, \<open>None\<close> for a cell not written yet; the freed vector has no
  cells (its buffer is \<open>NULL\<close>). Reading or writing outside the cells is \<open>Undefined\<close>.
  Allocations are taken to succeed (the macros assert that they do).
\<close>

record 'a vector =
  capacity :: nat
  vsize :: nat
  buffer :: "'a option list"

definition INIT_SIZE :: nat where "INIT_SIZE = 2"

definition VECTOR_INITAT :: "nat \<Rightarrow> 'a vector" where
  "VECTOR_INITAT c = \<lparr>capacity = c, vsize = 0, buffer = replicate c None\<rparr>"

definition VECTOR_INIT :: "'a vector" where
  "VECTOR_INIT = VECTOR_INITAT INIT_SIZE"

definition VECTOR_FREE :: "'a vector \<Rightarrow> 'a vector" where
  "VECTOR_FREE p = p\<lparr>buffer := [], capacity := 0, vsize := 0\<rparr>"

definition VECTOR_DOUBLE :: "'a vector \<Rightarrow> 'a vector" where
  "VECTOR_DOUBLE p =
     (let c = max INIT_SIZE (capacity p * 2)
      in p\<lparr>capacity := c, buffer := take c (buffer p) @ replicate (c - length (buffer p)) None\<rparr>)"

definition VECTOR_APPEND :: "'a vector \<Rightarrow> 'a \<Rightarrow> 'a vector res" where
  "VECTOR_APPEND p item =
     (let p1 = (if vsize p = capacity p then VECTOR_DOUBLE p else p)
      in if vsize p1 < length (buffer p1)
         then Inr (p1\<lparr>buffer := (buffer p1)[vsize p1 := Some item], vsize := vsize p1 + 1\<rparr>)
         else Inl (Undefined ''vector: write outside the buffer''))"

definition VECTOR_SIZE :: "'a vector \<Rightarrow> nat" where
  "VECTOR_SIZE p = vsize p"

text \<open>Reading a cell: the cell itself (it may be unwritten), or \<open>Undefined\<close> outside.\<close>

definition vector_cell :: "'a vector \<Rightarrow> nat \<Rightarrow> 'a option res" where
  "vector_cell p idx =
     (if idx < length (buffer p) then Inr (buffer p ! idx)
      else Inl (Undefined ''vector: read outside the buffer''))"

definition VECTOR_AT :: "'a vector \<Rightarrow> nat \<Rightarrow> 'a res" where
  "VECTOR_AT p idx = bindR (vector_cell p idx)
     (\<lambda>c. case c of None \<Rightarrow> Inl (Undefined ''vector: uninitialised cell'') | Some x \<Rightarrow> Inr x)"

text \<open>
  \<open>for (i = 0, itr = p->buffer[0]; i < p->size; itr = p->buffer[++i])\<close> with body \<open>f\<close>:
  \<open>itr\<close> is read before the test of the next round.
\<close>

function vector_foreach_from ::
    "('a \<Rightarrow> nat \<Rightarrow> 's \<Rightarrow> 's res) \<Rightarrow> 'a vector \<Rightarrow> nat \<Rightarrow> 'a option \<Rightarrow> 's \<Rightarrow> 's res" where
  "vector_foreach_from f p i itr s =
     (if i < vsize p
      then case itr of
             None \<Rightarrow> Inl (Undefined ''vector: uninitialised cell'')
           | Some x \<Rightarrow> bindR (f x i s) (\<lambda>s'.
                       bindR (vector_cell p (Suc i)) (\<lambda>itr'.
                       vector_foreach_from f p (Suc i) itr' s'))
      else Inr s)"
  by pat_completeness auto
termination
  by (relation "measure (\<lambda>(_, p, i, _). vsize p - i)") auto

declare vector_foreach_from.simps [simp del]

definition VECTOR_FOREACH :: "('a \<Rightarrow> nat \<Rightarrow> 's \<Rightarrow> 's res) \<Rightarrow> 'a vector \<Rightarrow> 's \<Rightarrow> 's res" where
  "VECTOR_FOREACH f p s = bindR (vector_cell p 0) (\<lambda>itr. vector_foreach_from f p 0 itr s)"

section \<open>Invariant and contents\<close>

definition vec_wf :: "'a vector \<Rightarrow> bool" where
  "vec_wf p \<longleftrightarrow> vsize p \<le> capacity p \<and> length (buffer p) = capacity p \<and>
     (\<forall>i<vsize p. buffer p ! i \<noteq> None)"

definition vec_list :: "'a vector \<Rightarrow> 'a list" where
  "vec_list p = map the (take (vsize p) (buffer p))"

lemma length_vec_list: "vec_wf p \<Longrightarrow> length (vec_list p) = vsize p"
  by (simp add: vec_list_def vec_wf_def)

lemma vec_list_nth: "vec_wf p \<Longrightarrow> i < vsize p \<Longrightarrow> buffer p ! i = Some (vec_list p ! i)"
  by (auto simp: vec_list_def vec_wf_def)

lemma vec_wf_init [simp]: "vec_wf (VECTOR_INITAT c)" "vec_wf VECTOR_INIT" "vec_wf (VECTOR_FREE p)"
  by (simp_all add: vec_wf_def VECTOR_INITAT_def VECTOR_INIT_def VECTOR_FREE_def)

lemma vec_list_init [simp]:
  "vec_list (VECTOR_INITAT c) = []" "vec_list VECTOR_INIT = []" "vec_list (VECTOR_FREE p) = []"
  by (simp_all add: vec_list_def VECTOR_INITAT_def VECTOR_INIT_def VECTOR_FREE_def)

lemma double_wf:
  assumes "vec_wf p"
  shows "vec_wf (VECTOR_DOUBLE p)" and "vec_list (VECTOR_DOUBLE p) = vec_list p"
    and "vsize (VECTOR_DOUBLE p) = vsize p" and "capacity p < capacity (VECTOR_DOUBLE p)"
    and "capacity (VECTOR_DOUBLE p) = max 2 (2 * capacity p)"
proof -
  let ?c = "max INIT_SIZE (capacity p * 2)"
  from assms have cap: "length (buffer p) = capacity p" "vsize p \<le> capacity p" "capacity p \<le> ?c"
    by (auto simp: vec_wf_def)
  then have buf: "buffer (VECTOR_DOUBLE p) = buffer p @ replicate (?c - capacity p) None"
    by (simp add: VECTOR_DOUBLE_def Let_def)
  show "vsize (VECTOR_DOUBLE p) = vsize p" by (simp add: VECTOR_DOUBLE_def Let_def)
  show "capacity p < capacity (VECTOR_DOUBLE p)"
    by (auto simp: VECTOR_DOUBLE_def Let_def INIT_SIZE_def less_max_iff_disj)
  show "capacity (VECTOR_DOUBLE p) = max 2 (2 * capacity p)"
    by (simp add: VECTOR_DOUBLE_def Let_def INIT_SIZE_def mult.commute)
  show "vec_wf (VECTOR_DOUBLE p)"
    using assms cap buf by (auto simp: vec_wf_def VECTOR_DOUBLE_def Let_def nth_append)
  show "vec_list (VECTOR_DOUBLE p) = vec_list p"
    using cap buf by (simp add: vec_list_def VECTOR_DOUBLE_def Let_def)
qed

lemma append_room:
  assumes "vec_wf p" and "vsize p < capacity p"
  shows "\<exists>p'. VECTOR_APPEND p x = Inr p' \<and> vec_wf p' \<and> vec_list p' = vec_list p @ [x] \<and>
              capacity p' = capacity p"
  using assms
  by (auto simp: VECTOR_APPEND_def vec_wf_def vec_list_def nth_list_update take_Suc_conv_app_nth
      less_Suc_eq)

lemma append_wf:
  assumes "vec_wf p"
  obtains p' where "VECTOR_APPEND p x = Inr p'" and "vec_wf p'" and "vec_list p' = vec_list p @ [x]"
    and "capacity p' = (if vsize p = capacity p then max 2 (2 * capacity p) else capacity p)"
proof (cases "vsize p = capacity p")
  case True
  let ?d = "VECTOR_DOUBLE p"
  have d: "vec_wf ?d" "vsize ?d < capacity ?d" using double_wf [OF assms] True by simp_all
  have same: "VECTOR_APPEND p x = VECTOR_APPEND ?d x"
    using True d(2) by (simp add: VECTOR_APPEND_def)
  from append_room [OF d, of x] double_wf [OF assms] True that same show ?thesis by auto
next
  case False
  with assms have "vsize p < capacity p" by (simp add: vec_wf_def)
  from append_room [OF assms this, of x] False that show ?thesis by auto
qed

lemma vector_at: "vec_wf p \<Longrightarrow> i < vsize p \<Longrightarrow> VECTOR_AT p i = Inr (vec_list p ! i)"
  by (frule (1) vec_list_nth) (auto simp: VECTOR_AT_def vector_cell_def vec_wf_def)

section \<open>Iteration\<close>

fun foreach_list :: "('a \<Rightarrow> nat \<Rightarrow> 's \<Rightarrow> 's res) \<Rightarrow> 'a list \<Rightarrow> nat \<Rightarrow> 's \<Rightarrow> 's res" where
  "foreach_list f [] i s = Inr s"
| "foreach_list f (x # xs) i s = bindR (f x i s) (foreach_list f xs (Suc i))"

lemma foreach_from_room:
  assumes "vec_wf p" and "vsize p < capacity p" and "i \<le> vsize p"
  shows "vector_foreach_from f p i (buffer p ! i) s = foreach_list f (drop i (vec_list p)) i s"
  using assms(3)
proof (induction "vsize p - i" arbitrary: i s)
  case 0
  then show ?case
    using assms(1) by (subst vector_foreach_from.simps) (simp add: length_vec_list)
next
  case (Suc n)
  then have i: "i < vsize p" and n: "n = vsize p - Suc i" by simp_all
  have cell: "vector_cell p (Suc i) = Inr (buffer p ! Suc i)"
    using assms i by (simp add: vector_cell_def vec_wf_def)
  have drop: "drop i (vec_list p) = vec_list p ! i # drop (Suc i) (vec_list p)"
    using i assms(1) by (simp add: Cons_nth_drop_Suc length_vec_list)
  show ?case
    using i vec_list_nth [OF assms(1) i] cell drop Suc.hyps(1) [OF n]
    by (subst vector_foreach_from.simps) (simp add: bindR_def split: sum.split)
qed

lemma foreach_room:
  assumes "vec_wf p" and "vsize p < capacity p"
  shows "VECTOR_FOREACH f p s = foreach_list f (vec_list p) 0 s"
proof -
  have "vector_cell p 0 = Inr (buffer p ! 0)"
    using assms by (simp add: vector_cell_def vec_wf_def)
  with foreach_from_room [OF assms, of 0 f s] show ?thesis by (simp add: VECTOR_FOREACH_def)
qed

lemma foreach_from_full:
  assumes "vec_wf p" and "vsize p = capacity p" and "i < vsize p"
    and "\<And>x j s. \<exists>s'. f x j s = Inr s'"
  shows "vector_foreach_from f p i (buffer p ! i) s = Inl (Undefined ''vector: read outside the buffer'')"
  using assms(3)
proof (induction "vsize p - Suc i" arbitrary: i s)
  case 0
  then have last: "Suc i = vsize p" by simp
  obtain s' where "f (vec_list p ! i) i s = Inr s'" using assms(4) by blast
  moreover have "vector_cell p (Suc i) = Inl (Undefined ''vector: read outside the buffer'')"
    using last assms(1,2) by (simp add: vector_cell_def vec_wf_def)
  ultimately show ?case
    using 0 vec_list_nth [OF assms(1) \<open>i < vsize p\<close>] by (subst vector_foreach_from.simps) simp
next
  case (Suc n)
  then have i: "Suc i < vsize p" and n: "n = vsize p - Suc (Suc i)" by simp_all
  obtain s' where "f (vec_list p ! i) i s = Inr s'" using assms(4) by blast
  moreover have "vector_cell p (Suc i) = Inr (buffer p ! Suc i)"
    using assms i by (simp add: vector_cell_def vec_wf_def)
  ultimately show ?case
    using Suc.prems vec_list_nth [OF assms(1) \<open>i < vsize p\<close>] Suc.hyps(1) [OF n i]
    by (subst vector_foreach_from.simps) simp
qed

section \<open>Properties\<close>

text \<open>
  on a well-formed vector \<open>VECTOR_APPEND\<close> never writes outside its buffer, keeps the
  vector well-formed, appends exactly the item to its contents, and only reallocates when
  the vector is full, doubling the capacity (at least two cells, also after \<open>VECTOR_FREE\<close>).
\<close>

lemma vector_append_refines:
  assumes "vec_wf p"
  shows "\<exists>p'. VECTOR_APPEND p x = Inr p' \<and> vec_wf p' \<and> vec_list p' = vec_list p @ [x] \<and>
              capacity p' = (if vsize p = capacity p then max 2 (2 * capacity p) else capacity p)"
  by (rule append_wf [OF assms, of x]) blast

text \<open>
  C38: \<open>VECTOR_FOREACH\<close> visits the items in order when the vector has a spare cell, but its
  update expression reads \<open>buffer[++i]\<close> before the test, so on a full non-empty vector
  every traversal whose body returns ends with a read outside the buffer.
\<close>

theorem vector_foreach_overread:
  assumes "vec_wf p"
  shows "(vsize p < capacity p \<longrightarrow> VECTOR_FOREACH f p s = foreach_list f (vec_list p) 0 s) \<and>
         (vsize p = capacity p \<and> 0 < vsize p \<and> (\<forall>x j t. \<exists>t'. f x j t = Inr t') \<longrightarrow>
          VECTOR_FOREACH f p s = Inl (Undefined ''vector: read outside the buffer''))"
proof -
  have "VECTOR_FOREACH f p s = Inl (Undefined ''vector: read outside the buffer'')"
    if full: "vsize p = capacity p" "0 < vsize p" "\<forall>x j t. \<exists>t'. f x j t = Inr t'"
  proof -
    have "vector_cell p 0 = Inr (buffer p ! 0)"
      using assms full by (simp add: vector_cell_def vec_wf_def)
    with foreach_from_full [OF assms full(1,2), of f s] full(3) show ?thesis
      by (simp add: VECTOR_FOREACH_def)
  qed
  with foreach_room [OF assms, of f s] show ?thesis by auto
qed

theorem vector_foreach_overread_witness:
  "VECTOR_FOREACH (\<lambda>x i s. Inr (s @ [x])) \<lparr>capacity = 2, vsize = 2, buffer = [Some 5, Some (6::nat)]\<rparr> []
     = Inl (Undefined ''vector: read outside the buffer'') \<and>
   VECTOR_FOREACH (\<lambda>x i s. Inr (s @ [x])) \<lparr>capacity = 2, vsize = 1, buffer = [Some (5::nat), None]\<rparr> []
     = Inr [5]"
proof -
  let ?full = "\<lparr>capacity = 2, vsize = 2, buffer = [Some 5, Some (6::nat)]\<rparr>"
  let ?room = "\<lparr>capacity = 2, vsize = 1, buffer = [Some (5::nat), None]\<rparr>"
  have "vec_wf ?full" "vec_wf ?room" by (auto simp: vec_wf_def less_2_cases_iff)
  from vector_foreach_overread [OF this(1), of "\<lambda>x i s. Inr (s @ [x])" "[]"]
    vector_foreach_overread [OF this(2), of "\<lambda>x i s. Inr (s @ [x])" "[]"]
  show ?thesis by (simp add: vec_list_def)
qed

end
