(* ===== verification/Hash.thy ===== *)
theory Hash
  imports Prelude
begin

text \<open>
  The hash function of \<^verbatim>\<open>hash.c\<close>. Its input is a \<open>const char *\<close>, and \<open>char\<close> is signed on the
  platforms the library builds for, so a byte is sign-extended before it is shifted and
  added: \<open>schar\<close>.
\<close>

unbundle bit_operations_syntax

definition schar :: "u8 \<Rightarrow> u32" where
  "schar b = scast b"

definition DecodeFixed32 :: "u8 \<Rightarrow> u8 \<Rightarrow> u8 \<Rightarrow> u8 \<Rightarrow> u32" where
  "DecodeFixed32 p0 p1 p2 p3 =
     schar p0 OR push_bit 8 (schar p1) OR push_bit 16 (schar p2) OR push_bit 24 (schar p3)"

definition HASH_M :: u32 where "HASH_M = 0xc6a4a793"

text \<open>One round of the loop that picks up four bytes, and the final switch with its fall-through.\<close>

definition hash_round :: "u32 \<Rightarrow> u32 \<Rightarrow> u32" where
  "hash_round h w = (let h1 = (h + w) * HASH_M in h1 XOR drop_bit 16 h1)"

definition hash_case1 :: "u32 \<Rightarrow> u8 \<Rightarrow> u32" where
  "hash_case1 h d0 = (let h1 = (h + schar d0) * HASH_M in h1 XOR drop_bit 24 h1)"

fun hash_loop :: "u32 \<Rightarrow> u8 list \<Rightarrow> u32" where
  "hash_loop h (a # b # c # d # rest) = hash_loop (hash_round h (DecodeFixed32 a b c d)) rest"
| "hash_loop h [a, b, c] = hash_case1 (h + push_bit 16 (schar c) + push_bit 8 (schar b)) a"
| "hash_loop h [a, b] = hash_case1 (h + push_bit 8 (schar b)) a"
| "hash_loop h [a] = hash_case1 h a"
| "hash_loop h [] = h"

definition Hash :: "u8 list \<Rightarrow> u32 \<Rightarrow> u32" where
  "Hash data seed = hash_loop (seed XOR (of_nat (length data) * HASH_M)) data"

text \<open>\<open>Hash((char*)&key, sizeof(void*), 0)\<close>: the eight bytes of a pointer, least significant first.\<close>

definition ptr_bytes :: "u64 \<Rightarrow> u8 list" where
  "ptr_bytes key = map (\<lambda>i. ucast (drop_bit (8 * i) key)) [0, 1, 2, 3, 4, 5, 6, 7]"

definition hash_ptr :: "u64 \<Rightarrow> u32" where
  "hash_ptr key = Hash (ptr_bytes key) 0"

section \<open>Decoding\<close>

definition little_endian32 :: "u8 \<Rightarrow> u8 \<Rightarrow> u8 \<Rightarrow> u8 \<Rightarrow> u32" where
  "little_endian32 p0 p1 p2 p3 =
     ucast p0 OR push_bit 8 (ucast p1) OR push_bit 16 (ucast p2) OR push_bit 24 (ucast p3)"

lemma schar_bit: "bit (schar b) i \<longleftrightarrow> i < 32 \<and> bit b (min i 7)"
proof -
  have "bit (schar b) i \<longleftrightarrow> i < 32 \<and> bit (signed_take_bit 7 (uint b)) i"
    by (auto simp: schar_def bit_simps sint_uint)
  then show ?thesis by (auto simp: bit_simps bit_uint_iff min_def)
qed

lemma ucast_bit: "bit (ucast b :: u32) i \<longleftrightarrow> i < 8 \<and> bit b i" for b :: u8
  by (auto simp: bit_simps dest: bit_imp_le_length)

lemma schar_ascii: "\<not> bit b 7 \<Longrightarrow> schar b = ucast b"
  by (rule bit_word_eqI) (auto simp: schar_bit ucast_bit min_def split: if_splits)

lemma shifted_top_byte: "push_bit 24 (schar b) = push_bit 24 (ucast b)"
  by (rule bit_word_eqI) (auto simp: bit_push_bit_iff schar_bit ucast_bit min_def)

section \<open>Properties\<close>

text \<open>
  \<open>DecodeFixed32\<close> is the little-endian value of its four bytes when the first three
  are below \<open>0x80\<close>; if the first byte has its top bit set, the sign extension forces every
  bit from the eighth on and the other three bytes are ignored.
\<close>

lemma decode_little_endian:
  "(\<not> bit p0 7 \<and> \<not> bit p1 7 \<and> \<not> bit p2 7 \<longrightarrow> DecodeFixed32 p0 p1 p2 p3 = little_endian32 p0 p1 p2 p3) \<and>
   (bit p0 7 \<longrightarrow> DecodeFixed32 p0 p1 p2 p3 = ucast p0 OR 0xffffff00)"
proof -
  have ff: "(0xffffff00 :: u32) = push_bit 8 (mask 24)" by (simp add: mask_eq_exp_minus_1 push_bit_eq_mult)
  have "DecodeFixed32 p0 p1 p2 p3 = ucast p0 OR 0xffffff00" if "bit p0 7"
  proof (rule bit_word_eqI)
    fix i
    assume "i < LENGTH(32)"
    then show "bit (DecodeFixed32 p0 p1 p2 p3) i \<longleftrightarrow> bit (ucast p0 OR 0xffffff00 :: u32) i"
      unfolding ff using that
      by (cases "i < 8")
        (auto simp: DecodeFixed32_def bit_or_iff bit_push_bit_iff schar_bit ucast_bit bit_mask_iff min_def)
  qed
  then show ?thesis
    by (auto simp: DecodeFixed32_def little_endian32_def schar_ascii shifted_top_byte)
qed

end
