(* ===== verification/Htable.thy ===== *)
theory Htable
  imports Hash "HOL-Library.Multiset"
begin

text \<open>
  The chained hash table of \<^verbatim>\<open>htable.c\<close>, which the closure keeps its registered pointers and
  allocations in. A chain (\<open>next_hash\<close>) is a list of entries; \<open>htable_find_pointer\<close>, which
  returns the address of a link, returns the bucket and the position in its chain. Counters
  are the \<open>uint32_t\<close> values as naturals, with their wrap-around written out. The callbacks of
  \<open>htable_foreach\<close> and \<open>htable_filter\<close> act on a state of their own.
\<close>

unbundle bit_operations_syntax

record htable_entry =
  e_hash :: u32
  e_key :: u64
  e_val :: u64

record htable =
  ht_length :: nat
  ht_elems :: nat
  ht_list :: "htable_entry list list"

definition bucket_of :: "u32 \<Rightarrow> nat \<Rightarrow> nat" where
  "bucket_of hash n = unat (hash AND (of_nat n - 1))"

definition htable_entry_alloc :: "u64 \<Rightarrow> u64 \<Rightarrow> u32 \<Rightarrow> htable_entry" where
  "htable_entry_alloc key v hash = \<lparr>e_hash = hash, e_key = key, e_val = v\<rparr>"

fun chain_find :: "u64 \<Rightarrow> u32 \<Rightarrow> htable_entry list \<Rightarrow> nat" where
  "chain_find key hash [] = 0"
| "chain_find key hash (e # es) =
     (if e_hash e \<noteq> hash \<or> key \<noteq> e_key e then Suc (chain_find key hash es) else 0)"

definition htable_find_pointer :: "htable \<Rightarrow> u64 \<Rightarrow> u32 \<Rightarrow> nat \<times> nat" where
  "htable_find_pointer ht key hash =
     (let b = bucket_of hash (ht_length ht) in (b, chain_find key hash (ht_list ht ! b)))"

partial_function (option) grow_length :: "nat \<Rightarrow> nat \<Rightarrow> nat option" where
  "grow_length new_length elems =
     (if new_length < elems then grow_length (new_length * 2 mod 2 ^ 32) elems else Some new_length)"

definition relink :: "nat \<Rightarrow> htable_entry \<Rightarrow> htable_entry list list \<times> nat \<Rightarrow> htable_entry list list \<times> nat" where
  "relink new_length e = (\<lambda>(new_list, count).
     let b = bucket_of (e_hash e) new_length in (new_list[b := e # new_list ! b], Suc count))"

definition htable_resize :: "htable \<Rightarrow> htable res" where
  "htable_resize ht =
     (case grow_length 4 (ht_elems ht) of
        None \<Rightarrow> Inl Diverges
      | Some new_length \<Rightarrow>
          let (new_list, count) =
                fold (\<lambda>i. fold (relink new_length) (ht_list ht ! i)) [0..<ht_length ht]
                  (replicate new_length [], 0)
          in if ht_elems ht = count
             then Inr (ht\<lparr>ht_list := new_list, ht_length := new_length\<rparr>)
             else Inl (Assertion ''ht->elems == count''))"

definition htable_init :: "htable res" where
  "htable_init = htable_resize \<lparr>ht_length = 0, ht_elems = 0, ht_list = []\<rparr>"

definition htable_free :: "htable \<Rightarrow> unit res" where
  "htable_free ht =
     (let count = fold (\<lambda>i c. fold (\<lambda>e c. Suc c) (ht_list ht ! i) c) [0..<ht_length ht] 0
      in assertR (ht_elems ht = count) ''ht->elems == count'')"

definition htable_insert :: "htable \<Rightarrow> u64 \<Rightarrow> u64 \<Rightarrow> (htable \<times> int) res" where
  "htable_insert ht key v =
     (let hash = hash_ptr key;
          (b, pos) = htable_find_pointer ht key hash;
          chain = ht_list ht ! b
      in if pos = length chain
         then let ht1 = ht\<lparr>ht_list := (ht_list ht)[b := chain @ [htable_entry_alloc key v hash]],
                           ht_elems := (ht_elems ht + 1) mod 2 ^ 32\<rparr>
              in if ht_elems ht1 > ht_length ht1
                 then bindR (htable_resize ht1) (\<lambda>ht2. Inr (ht2, 1))
                 else Inr (ht1, 1)
         else Inr (ht\<lparr>ht_list := (ht_list ht)[b := chain[pos := (chain ! pos)\<lparr>e_val := v\<rparr>]]\<rparr>, 0))"

definition htable_lookup :: "htable \<Rightarrow> u64 \<Rightarrow> u64" where
  "htable_lookup ht key =
     (let hash = hash_ptr key; (b, pos) = htable_find_pointer ht key hash; chain = ht_list ht ! b
      in if pos \<noteq> length chain then e_val (chain ! pos) else 0)"

definition htable_remove :: "htable \<Rightarrow> u64 \<Rightarrow> htable \<times> u64" where
  "htable_remove ht key =
     (let hash = hash_ptr key; (b, pos) = htable_find_pointer ht key hash; chain = ht_list ht ! b
      in if pos \<noteq> length chain
         then (ht\<lparr>ht_list := (ht_list ht)[b := take pos chain @ drop (Suc pos) chain],
                  ht_elems := (ht_elems ht + (2 ^ 32 - 1)) mod 2 ^ 32\<rparr>, e_val (chain ! pos))
         else (ht, 0))"

fun foreach_chain :: "(u64 \<Rightarrow> u64 \<Rightarrow> 's \<Rightarrow> 's res) \<Rightarrow> htable_entry list \<Rightarrow> 's \<Rightarrow> 's res" where
  "foreach_chain f [] s = Inr s"
| "foreach_chain f (e # es) s = bindR (f (e_key e) (e_val e) s) (foreach_chain f es)"

fun foreach_buckets :: "(u64 \<Rightarrow> u64 \<Rightarrow> 's \<Rightarrow> 's res) \<Rightarrow> htable_entry list list \<Rightarrow> 's \<Rightarrow> 's res" where
  "foreach_buckets f [] s = Inr s"
| "foreach_buckets f (c # cs) s = bindR (foreach_chain f c s) (foreach_buckets f cs)"

definition htable_foreach :: "(u64 \<Rightarrow> u64 \<Rightarrow> 's \<Rightarrow> 's res) \<Rightarrow> htable \<Rightarrow> 's \<Rightarrow> 's res" where
  "htable_foreach f ht s =
     bindR (foreach_buckets f (take (ht_length ht) (ht_list ht)) s) (\<lambda>s'.
       bindR (assertR (ht_elems ht = (\<Sum>c\<leftarrow>take (ht_length ht) (ht_list ht). length c))
                ''ht->elems == count'') (\<lambda>_. Inr s'))"

fun filter_chain :: "(u64 \<Rightarrow> u64 \<Rightarrow> 's \<Rightarrow> (bool \<times> 's) res) \<Rightarrow> htable_entry list \<Rightarrow> nat \<Rightarrow> 's \<Rightarrow>
    (htable_entry list \<times> nat \<times> 's) res" where
  "filter_chain f [] elems s = Inr ([], elems, s)"
| "filter_chain f (e # es) elems s =
     bindR (f (e_key e) (e_val e) s) (\<lambda>(del, s').
       if del then filter_chain f es ((elems + (2 ^ 32 - 1)) mod 2 ^ 32) s'
       else bindR (filter_chain f es elems s') (\<lambda>(es', elems', s''). Inr (e # es', elems', s'')))"

fun filter_buckets :: "(u64 \<Rightarrow> u64 \<Rightarrow> 's \<Rightarrow> (bool \<times> 's) res) \<Rightarrow> htable_entry list list \<Rightarrow> nat \<Rightarrow> 's \<Rightarrow>
    (htable_entry list list \<times> nat \<times> 's) res" where
  "filter_buckets f [] elems s = Inr ([], elems, s)"
| "filter_buckets f (c # cs) elems s =
     bindR (filter_chain f c elems s) (\<lambda>(c', elems', s').
       bindR (filter_buckets f cs elems' s') (\<lambda>(cs', elems'', s''). Inr (c' # cs', elems'', s'')))"

definition htable_filter :: "(u64 \<Rightarrow> u64 \<Rightarrow> 's \<Rightarrow> (bool \<times> 's) res) \<Rightarrow> htable \<Rightarrow> 's \<Rightarrow> (htable \<times> 's) res" where
  "htable_filter f ht s =
     bindR (filter_buckets f (ht_list ht) (ht_elems ht) s) (\<lambda>(l, elems, s').
       Inr (ht\<lparr>ht_list := l, ht_elems := elems\<rparr>, s'))"

section \<open>Contents and invariant\<close>

definition ht_entries :: "htable \<Rightarrow> htable_entry list" where
  "ht_entries ht = concat (ht_list ht)"

definition ht_map :: "htable \<Rightarrow> u64 \<rightharpoonup> u64" where
  "ht_map ht = map_of (map (\<lambda>e. (e_key e, e_val e)) (ht_entries ht))"

definition placed :: "nat \<Rightarrow> htable_entry list list \<Rightarrow> bool" where
  "placed n l \<longleftrightarrow> (\<forall>i<length l. \<forall>e\<in>set (l ! i).
     e_hash e = hash_ptr (e_key e) \<and> bucket_of (e_hash e) n = i)"

definition ht_inv :: "htable \<Rightarrow> bool" where
  "ht_inv ht \<longleftrightarrow>
     (\<exists>k. 2 \<le> k \<and> k \<le> 31 \<and> ht_length ht = 2 ^ k) \<and>
     length (ht_list ht) = ht_length ht \<and>
     placed (ht_length ht) (ht_list ht) \<and>
     distinct (map e_key (ht_entries ht)) \<and>
     ht_elems ht = length (ht_entries ht) \<and>
     ht_elems ht \<le> ht_length ht"

lemma bucket_of_mod: "k \<le> 32 \<Longrightarrow> bucket_of h (2 ^ k) = unat h mod 2 ^ k"
proof -
  have "(of_nat (2 ^ k) - 1 :: u32) = mask k" by (simp add: mask_eq_exp_minus_1)
  then have "bucket_of h (2 ^ k) = unat (take_bit k h)" by (simp add: bucket_of_def take_bit_eq_mask)
  then show ?thesis by (simp only: unsigned_take_bit_eq) (simp add: take_bit_eq_mod)
qed

lemma bucket_of_less: "k \<le> 32 \<Longrightarrow> bucket_of h (2 ^ k) < 2 ^ k"
  by (simp add: bucket_of_mod)

lemma grow_length_return:
  assumes "k \<le> 31" and "elems \<le> 2 ^ 31"
  shows "\<exists>j. k \<le> j \<and> j \<le> 31 \<and> grow_length (2 ^ k) elems = Some (2 ^ j) \<and> elems \<le> 2 ^ j"
  using assms(1)
proof (induction "31 - k" arbitrary: k)
  case 0
  with assms show ?case by (subst grow_length.simps) auto
next
  case (Suc d)
  show ?case
  proof (cases "(2::nat) ^ k < elems")
    case True
    from Suc have k: "Suc k \<le> 31" "d = 31 - Suc k" by simp_all
    then have "(2::nat) ^ Suc k \<le> 2 ^ 31" by (intro power_increasing) simp_all
    then have "(2::nat) ^ k * 2 mod 2 ^ 32 = 2 ^ Suc k" by simp
    with Suc.hyps(1) [OF k(2,1)] True show ?thesis
      by (subst grow_length.simps) (auto simp del: power_Suc intro: Suc_leD)
  next
    case False
    with Suc.prems show ?thesis by (subst grow_length.simps) auto
  qed
qed

lemma grow_length_4:
  "elems \<le> 2 ^ 31 \<Longrightarrow> \<exists>j. 2 \<le> j \<and> j \<le> 31 \<and> grow_length 4 elems = Some (2 ^ j) \<and> elems \<le> 2 ^ j"
  using grow_length_return [of 2 elems] by simp

section \<open>Entry lists as maps\<close>

definition ent_map :: "htable_entry list \<Rightarrow> u64 \<rightharpoonup> u64" where
  "ent_map es = map_of (map (\<lambda>e. (e_key e, e_val e)) es)"

lemma ht_map_ent: "ht_map ht = ent_map (ht_entries ht)"
  by (simp add: ht_map_def ent_map_def)

lemma ent_map_Some:
  "distinct (map e_key es) \<Longrightarrow> ent_map es k = Some v \<longleftrightarrow> (\<exists>e\<in>set es. e_key e = k \<and> e_val e = v)"
  by (auto simp: ent_map_def map_of_eq_Some_iff comp_def)

lemma ent_map_None: "ent_map es k = None \<longleftrightarrow> k \<notin> e_key ` set es"
  by (auto simp: ent_map_def map_of_eq_None_iff image_image)

lemma ent_map_eqI:
  assumes "distinct (map e_key es)" and "distinct (map e_key es')" and "set es' = set es"
  shows "ent_map es' = ent_map es"
proof
  fix k
  show "ent_map es' k = ent_map es k"
    using ent_map_Some [OF assms(1), of k] ent_map_Some [OF assms(2), of k] assms(3)
    by (metis option.exhaust)
qed

lemma distinct_keys_mset:
  assumes "mset es' = mset es" and "distinct (map e_key es)"
  shows "distinct (map e_key es')"
proof -
  have "mset (map e_key es') = mset (map e_key es)" using assms(1) by simp
  then show ?thesis using assms(2) mset_eq_imp_distinct_iff by blast
qed

lemma ent_map_mset:
  assumes "mset es' = mset es" and "distinct (map e_key es)"
  shows "ent_map es' = ent_map es"
  using assms by (metis ent_map_eqI distinct_keys_mset set_mset_mset)

lemma entries_add:
  assumes "mset es' = add_mset e (mset es)" and "distinct (map e_key es)" and "e_key e \<notin> e_key ` set es"
  shows "distinct (map e_key es')" and "ent_map es' = (ent_map es)(e_key e \<mapsto> e_val e)"
proof -
  have eq: "mset es' = mset (e # es)" using assms(1) by simp
  have d: "distinct (map e_key (e # es))" using assms(2,3) by simp
  show "distinct (map e_key es')" using eq d by (rule distinct_keys_mset)
  show "ent_map es' = (ent_map es)(e_key e \<mapsto> e_val e)"
    using ent_map_mset [OF eq d] by (simp add: ent_map_def)
qed

lemma entries_del:
  assumes "mset es = add_mset e (mset es')" and "distinct (map e_key es)"
  shows "distinct (map e_key es')" and "ent_map es' = (ent_map es)(e_key e := None)"
    and "e_key e \<notin> e_key ` set es'"
proof -
  have eq: "mset (e # es') = mset es" using assms(1) by simp
  have d: "distinct (map e_key (e # es'))" using eq assms(2) by (rule distinct_keys_mset)
  then show "distinct (map e_key es')" and nin: "e_key e \<notin> e_key ` set es'" by simp_all
  show "ent_map es' = (ent_map es)(e_key e := None)"
  proof
    fix k
    show "ent_map es' k = ((ent_map es)(e_key e := None)) k"
      using ent_map_mset [OF eq assms(2)] nin ent_map_None [of es' "e_key e"]
      by (auto simp: ent_map_def fun_upd_def dest: fun_cong [of _ _ k])
  qed
qed

lemma mset_concat_update:
  "b < length l \<Longrightarrow> mset (concat (l[b := c'])) + mset (l ! b) = mset (concat l) + mset c'"
proof (induction l arbitrary: b)
  case (Cons c l)
  then show ?case by (cases b) (auto simp: algebra_simps)
qed simp

section \<open>Finding an entry\<close>

lemma chain_find_le: "chain_find key hash c \<le> length c"
  by (induction c) auto

lemma chain_find_found:
  "chain_find key hash c < length c \<Longrightarrow>
     e_hash (c ! chain_find key hash c) = hash \<and> e_key (c ! chain_find key hash c) = key"
  by (induction c) auto

lemma chain_find_none:
  "chain_find key hash c = length c \<Longrightarrow> e \<in> set c \<Longrightarrow> e_hash e = hash \<Longrightarrow> e_key e \<noteq> key"
  by (induction c) (auto split: if_splits)

lemma ht_inv_bucket:
  assumes "ht_inv ht"
  shows "bucket_of hash (ht_length ht) < length (ht_list ht)"
  using assms by (auto simp: ht_inv_def bucket_of_less)

lemma ht_inv_placed:
  assumes "ht_inv ht" and "e \<in> set (ht_entries ht)"
  shows "e \<in> set (ht_list ht ! bucket_of (hash_ptr (e_key e)) (ht_length ht))"
    and "e_hash e = hash_ptr (e_key e)"
proof -
  from assms(2) obtain c where "c \<in> set (ht_list ht)" "e \<in> set c"
    by (auto simp: ht_entries_def)
  then obtain i where "i < length (ht_list ht)" "e \<in> set (ht_list ht ! i)"
    by (auto simp: in_set_conv_nth)
  moreover from this assms(1) have "e_hash e = hash_ptr (e_key e) \<and> bucket_of (e_hash e) (ht_length ht) = i"
    unfolding ht_inv_def placed_def by blast
  ultimately show "e \<in> set (ht_list ht ! bucket_of (hash_ptr (e_key e)) (ht_length ht))"
    and "e_hash e = hash_ptr (e_key e)" by auto
qed

lemma find_pointer_cases:
  assumes inv: "ht_inv ht" and "htable_find_pointer ht key (hash_ptr key) = (b, pos)"
  obtains (absent) "b < length (ht_list ht)" "b = bucket_of (hash_ptr key) (ht_length ht)"
      "pos = length (ht_list ht ! b)" "key \<notin> e_key ` set (ht_entries ht)" "ht_map ht key = None"
    | (present) "b < length (ht_list ht)" "b = bucket_of (hash_ptr key) (ht_length ht)"
      "pos < length (ht_list ht ! b)" "e_key (ht_list ht ! b ! pos) = key"
      "e_hash (ht_list ht ! b ! pos) = hash_ptr key"
      "ht_map ht key = Some (e_val (ht_list ht ! b ! pos))"
proof -
  from assms(2) have b: "b = bucket_of (hash_ptr key) (ht_length ht)"
    and pos: "pos = chain_find key (hash_ptr key) (ht_list ht ! b)"
    by (auto simp: htable_find_pointer_def Let_def)
  have lt: "b < length (ht_list ht)" using ht_inv_bucket [OF inv] b by simp
  have dist: "distinct (map e_key (ht_entries ht))" using inv by (simp add: ht_inv_def)
  show ?thesis
  proof (cases "pos = length (ht_list ht ! b)")
    case True
    have "key \<notin> e_key ` set (ht_entries ht)"
    proof
      assume "key \<in> e_key ` set (ht_entries ht)"
      then obtain e where "e \<in> set (ht_entries ht)" "e_key e = key" by auto
      with ht_inv_placed [OF inv this(1)] b True pos chain_find_none [of key "hash_ptr key" "ht_list ht ! b" e]
      show False by auto
    qed
    then show ?thesis using absent lt b True ent_map_None ht_map_ent by simp
  next
    case False
    then have less: "pos < length (ht_list ht ! b)"
      using chain_find_le [of key "hash_ptr key" "ht_list ht ! b"] pos by simp
    note found = chain_find_found [OF less [unfolded pos], folded pos]
    have "ht_list ht ! b ! pos \<in> set (ht_entries ht)"
      using lt less by (auto simp: ht_entries_def intro!: bexI [of _ "ht_list ht ! b"])
    then have "ht_map ht key = Some (e_val (ht_list ht ! b ! pos))"
      using found ent_map_Some [OF dist] ht_map_ent by auto
    with present lt b less found show ?thesis by simp
  qed
qed

section \<open>Resizing\<close>

lemma relink_step:
  "relink n e (nl, c) = (nl[bucket_of (e_hash e) n := e # nl ! bucket_of (e_hash e) n], Suc c)"
  by (simp add: relink_def Let_def)

lemma relink_mset:
  assumes "n = 2 ^ k" and "k \<le> 32" and "length nl = n"
  shows "fold (relink n) es (nl, c) = (nl', c') \<Longrightarrow>
     length nl' = n \<and> c' = c + length es \<and> mset (concat nl') = mset (concat nl) + mset es \<and>
     (\<forall>i<n. set (nl' ! i) = set (nl ! i) \<union> {e \<in> set es. bucket_of (e_hash e) n = i})"
  using assms(3)
proof (induction es arbitrary: nl c)
  case (Cons e es)
  let ?b = "bucket_of (e_hash e) n"
  let ?nl = "nl[?b := e # nl ! ?b]"
  have b: "?b < length nl" using Cons.prems(2) assms bucket_of_less by simp
  have "fold (relink n) es (?nl, Suc c) = (nl', c')"
    using Cons.prems(1) by (simp add: relink_step)
  from Cons.IH [OF this] Cons.prems(2)
  have IH: "length nl' = n" "c' = Suc c + length es" "mset (concat nl') = mset (concat ?nl) + mset es"
    "\<forall>i<n. set (nl' ! i) = set (?nl ! i) \<union> {e \<in> set es. bucket_of (e_hash e) n = i}" by auto
  have "mset (concat ?nl) = add_mset e (mset (concat nl))"
    using mset_concat_update [OF b, of "e # nl ! ?b"] by simp
  with IH b Cons.prems(2) show ?case by (auto simp: nth_list_update)
qed simp

lemma fold_buckets:
  "n \<le> length l \<Longrightarrow> fold (\<lambda>i. fold g (l ! i)) [0..<n] s = fold g (concat (take n l)) s"
proof (induction n)
  case (Suc n)
  then have "take (Suc n) l = take n l @ [l ! n]" by (simp add: take_Suc_conv_app_nth)
  with Suc show ?case by simp
qed simp

lemma resize_spec:
  assumes len: "ht_length ht = length (ht_list ht)"
    and hashes: "\<forall>e\<in>set (ht_entries ht). e_hash e = hash_ptr (e_key e)"
    and dist: "distinct (map e_key (ht_entries ht))"
    and elems: "ht_elems ht = length (ht_entries ht)" "ht_elems ht \<le> 2 ^ 31"
  shows "\<exists>ht'. htable_resize ht = Inr ht' \<and> ht_inv ht' \<and> ht_map ht' = ht_map ht \<and>
               ht_elems ht' = ht_elems ht"
proof -
  obtain j where j: "2 \<le> j" "j \<le> 31" "grow_length 4 (ht_elems ht) = Some (2 ^ j)" "ht_elems ht \<le> 2 ^ j"
    using grow_length_4 [OF elems(2)] by blast
  define n :: nat where "n = 2 ^ j"
  obtain nl c where nl: "fold (relink n) (ht_entries ht) (replicate n [], 0) = (nl, c)"
    by (cases "fold (relink n) (ht_entries ht) (replicate n [], 0)")
  have R: "length nl = n" "c = length (ht_entries ht)" "mset (concat nl) = mset (ht_entries ht)"
    "\<forall>i<n. set (nl ! i) = {e \<in> set (ht_entries ht). bucket_of (e_hash e) n = i}"
    using relink_mset [OF n_def _ _ nl] j(2) by auto
  have res: "htable_resize ht = Inr (ht\<lparr>ht_list := nl, ht_length := n\<rparr>)" (is "_ = Inr ?ht")
    using j(3) nl R(2) elems(1) fold_buckets [of "ht_length ht" "ht_list ht" "relink n"] len
    by (simp add: htable_resize_def n_def ht_entries_def)
  have dist': "distinct (map e_key (concat nl))" using R(3) dist by (rule distinct_keys_mset)
  have size: "length (concat nl) = length (ht_entries ht)" using R(3) by (metis size_mset)
  have "placed n nl" using R(1,4) hashes by (auto simp: placed_def)
  then have "ht_inv ?ht"
    using j R(1) dist' elems(1) size by (auto simp: ht_inv_def n_def ht_entries_def)
  moreover have "ht_map ?ht = ht_map ht"
    unfolding ht_map_ent by (rule ent_map_mset) (use R(3) dist in \<open>simp_all add: ht_entries_def\<close>)
  ultimately show ?thesis using res by auto
qed

lemma htable_init_spec: "\<exists>ht. htable_init = Inr ht \<and> ht_inv ht \<and> ht_map ht = Map.empty"
  using resize_spec [of "\<lparr>ht_length = 0, ht_elems = 0, ht_list = []\<rparr>"]
  by (auto simp: htable_init_def ht_entries_def ht_map_def)

section \<open>Insertion, lookup, removal\<close>

lemma placed_update:
  assumes "placed n l" and "b < length l"
    and "\<And>e. e \<in> set c' \<Longrightarrow> e \<in> set (l ! b) \<or> e_hash e = hash_ptr (e_key e) \<and> bucket_of (e_hash e) n = b"
  shows "placed n (l[b := c'])"
  unfolding placed_def
proof (intro allI impI ballI)
  fix i e
  assume "i < length (l[b := c'])" and "e \<in> set (l[b := c'] ! i)"
  then have e: "i < length l" "e \<in> set (if i = b then c' else l ! i)"
    using assms(2) by (auto split: if_splits)
  have old: "e_hash e = hash_ptr (e_key e) \<and> bucket_of (e_hash e) n = j"
    if "j < length l" "e \<in> set (l ! j)" for j
    using assms(1) that unfolding placed_def by blast
  show "e_hash e = hash_ptr (e_key e) \<and> bucket_of (e_hash e) n = i"
    using e old [of i] old [OF assms(2)] assms(3) [of e] by (metis)
qed

lemma lookup_spec:
  assumes "ht_inv ht"
  shows "htable_lookup ht key = (case ht_map ht key of None \<Rightarrow> 0 | Some v \<Rightarrow> v)"
proof -
  obtain b pos where p: "htable_find_pointer ht key (hash_ptr key) = (b, pos)" by fastforce
  from assms p show ?thesis
    by (cases rule: find_pointer_cases) (simp_all add: htable_lookup_def p)
qed

lemma insert_absent:
  assumes inv: "ht_inv ht" and "ht_elems ht < 2 ^ 31"
    and b: "b < length (ht_list ht)" "b = bucket_of (hash_ptr key) (ht_length ht)"
    and new: "key \<notin> e_key ` set (ht_entries ht)"
    and ht1: "ht1 = ht\<lparr>ht_list := (ht_list ht)[b := ht_list ht ! b @ [htable_entry_alloc key v (hash_ptr key)]],
                      ht_elems := (ht_elems ht + 1) mod 2 ^ 32\<rparr>"
  shows "ht_map ht1 = (ht_map ht)(key \<mapsto> v)" and "ht_elems ht1 = Suc (ht_elems ht)"
    and "distinct (map e_key (ht_entries ht1))" and "length (ht_entries ht1) = Suc (length (ht_entries ht))"
    and "placed (ht_length ht) (ht_list ht1)"
    and "\<forall>e\<in>set (ht_entries ht1). e_hash e = hash_ptr (e_key e)"
proof -
  let ?e = "htable_entry_alloc key v (hash_ptr key)"
  have e: "e_key ?e = key" "e_val ?e = v" "e_hash ?e = hash_ptr key"
    by (simp_all add: htable_entry_alloc_def)
  have ms: "mset (ht_entries ht1) = add_mset ?e (mset (ht_entries ht))"
    using mset_concat_update [OF b(1), of "ht_list ht ! b @ [?e]"] by (simp add: ht1 ht_entries_def)
  have dist: "distinct (map e_key (ht_entries ht))" using inv by (simp add: ht_inv_def)
  from entries_add [OF ms dist] new e
  show "ht_map ht1 = (ht_map ht)(key \<mapsto> v)" "distinct (map e_key (ht_entries ht1))"
    by (simp_all add: ht_map_ent)
  show "ht_elems ht1 = Suc (ht_elems ht)" using assms(2) by (simp add: ht1)
  from ms show "length (ht_entries ht1) = Suc (length (ht_entries ht))" by (metis size_add_mset size_mset)
  show "placed (ht_length ht) (ht_list ht1)"
    using inv b e by (auto simp: ht1 ht_inv_def intro!: placed_update)
  have "set (ht_entries ht1) = insert ?e (set (ht_entries ht))"
    using ms by (metis set_mset_add_mset_insert set_mset_mset)
  with e ht_inv_placed(2) [OF inv] show "\<forall>e\<in>set (ht_entries ht1). e_hash e = hash_ptr (e_key e)"
    by auto
qed

lemma insert_spec:
  assumes inv: "ht_inv ht" and room: "ht_elems ht < 2 ^ 31"
  shows "\<exists>ht' r. htable_insert ht key v = Inr (ht', r) \<and> ht_inv ht' \<and>
           ht_map ht' = (ht_map ht)(key \<mapsto> v) \<and> r = (if ht_map ht key = None then 1 else 0)"
proof -
  obtain b pos where p: "htable_find_pointer ht key (hash_ptr key) = (b, pos)" by fastforce
  from inv p show ?thesis
  proof (cases rule: find_pointer_cases)
    case absent
    define ht1 where "ht1 = ht\<lparr>ht_list := (ht_list ht)[b := ht_list ht ! b @ [htable_entry_alloc key v (hash_ptr key)]],
                      ht_elems := (ht_elems ht + 1) mod 2 ^ 32\<rparr>"
    note ht1 = insert_absent [OF inv room absent(1,2,4) ht1_def]
    have step: "htable_insert ht key v = (if ht_elems ht1 > ht_length ht1
        then bindR (htable_resize ht1) (\<lambda>ht2. Inr (ht2, 1)) else Inr (ht1, 1))"
      using p absent(3) by (simp add: htable_insert_def Let_def ht1_def)
    have len: "ht_length ht1 = ht_length ht" "length (ht_list ht1) = ht_length ht"
      using inv by (simp_all add: ht1_def ht_inv_def)
    show ?thesis
    proof (cases "ht_elems ht1 > ht_length ht1")
      case True
      have "ht_elems ht1 = length (ht_entries ht1)" "ht_elems ht1 \<le> 2 ^ 31"
        using ht1(2,4) inv room by (simp_all add: ht_inv_def)
      from resize_spec [of ht1, OF _ ht1(6,3) this] len obtain ht2 where
        "htable_resize ht1 = Inr ht2" "ht_inv ht2" "ht_map ht2 = ht_map ht1" by auto
      with True absent(5) ht1(1) step show ?thesis by simp
    next
      case False
      then have "ht_inv ht1" using inv ht1 len by (auto simp: ht_inv_def)
      with False absent(5) ht1(1) step show ?thesis by simp
    qed
  next
    case present
    define e where "e = ht_list ht ! b ! pos"
    define c' where "c' = (ht_list ht ! b)[pos := e\<lparr>e_val := v\<rparr>]"
    define ht1 where "ht1 = ht\<lparr>ht_list := (ht_list ht)[b := c']\<rparr>"
    have dist: "distinct (map e_key (ht_entries ht))" using inv by (simp add: ht_inv_def)
    have bs: "mset (ht_list ht ! b) = add_mset e (mset (take pos (ht_list ht ! b) @ drop (Suc pos) (ht_list ht ! b)))"
      using present(3) id_take_nth_drop [of pos "ht_list ht ! b"]
      by (metis e_def mset.simps(2) mset_append union_mset_add_mset_right)
    have c': "mset c' = add_mset (e\<lparr>e_val := v\<rparr>) (mset (take pos (ht_list ht ! b) @ drop (Suc pos) (ht_list ht ! b)))"
      using present(3) by (simp add: c'_def upd_conv_take_nth_drop)
    define rest where "rest = concat ((ht_list ht)[b := take pos (ht_list ht ! b) @ drop (Suc pos) (ht_list ht ! b)])"
    have old: "mset (ht_entries ht) = add_mset e (mset rest)"
      using mset_concat_update [OF present(1), of "take pos (ht_list ht ! b) @ drop (Suc pos) (ht_list ht ! b)"] bs
      by (simp add: rest_def ht_entries_def)
    have new: "mset (ht_entries ht1) = add_mset (e\<lparr>e_val := v\<rparr>) (mset rest)"
      using mset_concat_update [OF present(1), of c'] bs c' old by (simp add: ht1_def ht_entries_def)
    note del = entries_del [OF old dist]
    note add = entries_add [OF new del(1)]
    have key: "e_key e = key" "e_hash e = hash_ptr key" using present by (simp_all add: e_def)
    have map: "ht_map ht1 = (ht_map ht)(key \<mapsto> v)" "distinct (map e_key (ht_entries ht1))"
      using add del(2,3) key by (simp_all add: ht_map_ent)
    have len: "length (ht_entries ht1) = length (ht_entries ht)"
      using old new by (metis size_add_mset size_mset)
    have "placed (ht_length ht) (ht_list ht1)"
    proof -
      have "e \<in> set (ht_list ht ! b)" using present(3) by (simp add: e_def)
      moreover have "set c' \<subseteq> insert (e\<lparr>e_val := v\<rparr>) (set (ht_list ht ! b))"
        by (auto simp: c'_def dest: set_update_subset_insert [THEN subsetD])
      ultimately show ?thesis
        using inv present(1,2) key by (auto simp: ht1_def ht_inv_def intro!: placed_update)
    qed
    then have "ht_inv ht1" using inv map(2) len by (auto simp: ht_inv_def ht1_def)
    moreover have "htable_insert ht key v = Inr (ht1, 0)"
      using p present(3) by (simp add: htable_insert_def Let_def ht1_def c'_def e_def)
    ultimately show ?thesis using map present(6) by auto
  qed
qed

lemma remove_spec:
  assumes inv: "ht_inv ht"
  shows "ht_inv (fst (htable_remove ht key)) \<and> ht_map (fst (htable_remove ht key)) = (ht_map ht)(key := None) \<and>
         snd (htable_remove ht key) = (case ht_map ht key of None \<Rightarrow> 0 | Some v \<Rightarrow> v)"
proof -
  obtain b pos where p: "htable_find_pointer ht key (hash_ptr key) = (b, pos)" by fastforce
  from inv p show ?thesis
  proof (cases rule: find_pointer_cases)
    case absent
    with inv p show ?thesis by (auto simp: htable_remove_def fun_upd_idem)
  next
    case present
    define e where "e = ht_list ht ! b ! pos"
    define c' where "c' = take pos (ht_list ht ! b) @ drop (Suc pos) (ht_list ht ! b)"
    define ht1 where "ht1 = ht\<lparr>ht_list := (ht_list ht)[b := c'], ht_elems := (ht_elems ht + (2 ^ 32 - 1)) mod 2 ^ 32\<rparr>"
    have dist: "distinct (map e_key (ht_entries ht))" using inv by (simp add: ht_inv_def)
    have bs: "mset (ht_list ht ! b) = add_mset e (mset c')"
      using present(3) id_take_nth_drop [of pos "ht_list ht ! b"]
      by (metis c'_def e_def mset.simps(2) mset_append union_mset_add_mset_right)
    have old: "mset (ht_entries ht) = add_mset e (mset (ht_entries ht1))"
      using mset_concat_update [OF present(1), of c'] bs by (simp add: ht1_def ht_entries_def)
    note del = entries_del [OF old dist]
    have key: "e_key e = key" using present by (simp add: e_def)
    have len: "length (ht_entries ht) = Suc (length (ht_entries ht1))"
      using old by (metis size_add_mset size_mset)
    then have pos_elems: "0 < ht_elems ht" "ht_elems ht < 2 ^ 32"
    proof -
      from inv len show "0 < ht_elems ht" by (simp add: ht_inv_def)
      from inv obtain k where "k \<le> 31" "ht_elems ht \<le> 2 ^ k" by (auto simp: ht_inv_def)
      then have "ht_elems ht \<le> 2 ^ 31" by (meson le_trans one_le_numeral power_increasing)
      then show "ht_elems ht < 2 ^ 32" by simp
    qed
    have "(ht_elems ht + (2 ^ 32 - 1)) mod 2 ^ 32 = ht_elems ht - 1"
      using pos_elems by (cases "ht_elems ht") auto
    then have elems: "ht_elems ht1 = ht_elems ht - 1" by (simp add: ht1_def)
    have "placed (ht_length ht) (ht_list ht1)"
      using inv present(1) by (auto simp: ht1_def c'_def ht_inv_def intro!: placed_update dest: in_set_takeD in_set_dropD)
    then have "ht_inv ht1" using inv del(1) len elems by (auto simp: ht_inv_def ht1_def)
    moreover have "htable_remove ht key = (ht1, e_val e)"
      using p present(3) by (simp add: htable_remove_def Let_def ht1_def c'_def e_def)
    ultimately show ?thesis using del(2) key present(6) by (simp add: ht_map_ent e_def)
  qed
qed

section \<open>Iteration and filtering\<close>

lemma foreach_chain_append:
  "foreach_chain f (xs @ ys) s = bindR (foreach_chain f xs s) (foreach_chain f ys)"
  by (induction xs arbitrary: s) (simp_all add: bindR_def split: sum.split)

lemma foreach_buckets_concat: "foreach_buckets f cs s = foreach_chain f (concat cs) s"
proof (induction cs arbitrary: s)
  case (Cons c cs)
  then have "foreach_buckets f cs = foreach_chain f (concat cs)" by blast
  then show ?case by (simp add: foreach_chain_append)
qed simp

lemma foreach_spec:
  assumes "ht_inv ht"
  shows "htable_foreach f ht s = foreach_chain f (ht_entries ht) s"
  using assms
  by (auto simp: htable_foreach_def ht_inv_def ht_entries_def foreach_buckets_concat length_concat
      bindR_def split: sum.split)

lemma filter_chain_pure:
  assumes "\<And>k v t. f k v t = Inr (P k v, g k v t)" and "length c \<le> n" and "n < 2 ^ 32"
  shows "filter_chain f c n s = Inr (filter (\<lambda>e. \<not> P (e_key e) (e_val e)) c,
     n - length (filter (\<lambda>e. P (e_key e) (e_val e)) c), fold (\<lambda>e. g (e_key e) (e_val e)) c s)"
  using assms(2,3)
proof (induction c arbitrary: n s)
  case (Cons e c)
  have "(n + (2 ^ 32 - 1)) mod 2 ^ 32 = n - 1" using Cons.prems by (cases n) auto
  with Cons assms(1) show ?case by simp
qed simp

lemma filter_buckets_pure:
  assumes "\<And>k v t. f k v t = Inr (P k v, g k v t)" and "length (concat cs) \<le> n" and "n < 2 ^ 32"
  shows "filter_buckets f cs n s = Inr (map (filter (\<lambda>e. \<not> P (e_key e) (e_val e))) cs,
     n - length (filter (\<lambda>e. P (e_key e) (e_val e)) (concat cs)),
     fold (\<lambda>e. g (e_key e) (e_val e)) (concat cs) s)"
  using assms(2,3)
proof (induction cs arbitrary: n s)
  case (Cons c cs)
  let ?n = "n - length (filter (\<lambda>e. P (e_key e) (e_val e)) c)"
  have "n - length c \<le> ?n" by (rule diff_le_mono2) simp
  then have "length (concat cs) \<le> ?n" "?n < 2 ^ 32" using Cons.prems by auto
  from Cons.IH [OF this]
    filter_chain_pure [where f = f and P = P and g = g and c = c and n = n and s = s, OF assms(1)] Cons.prems
  show ?case by simp
qed simp

lemma filter_concat_map: "concat (map (filter P) cs) = filter P (concat cs)"
  by (simp add: filter_concat)

lemma elems_u32:
  assumes "ht_inv ht"
  shows "ht_elems ht < 2 ^ 32"
proof -
  from assms obtain k where "k \<le> 31" "ht_elems ht \<le> 2 ^ k" by (auto simp: ht_inv_def)
  then have "ht_elems ht \<le> 2 ^ 31" by (meson le_trans one_le_numeral power_increasing)
  then show ?thesis by simp
qed

lemma filter_spec:
  assumes inv: "ht_inv ht" and f: "\<And>k v t. f k v t = Inr (P k v, g k v t)"
  shows "\<exists>ht'. htable_filter f ht s = Inr (ht', fold (\<lambda>e. g (e_key e) (e_val e)) (ht_entries ht) s) \<and>
           ht_inv ht' \<and> ht_entries ht' = filter (\<lambda>e. \<not> P (e_key e) (e_val e)) (ht_entries ht)"
proof -
  let ?keep = "\<lambda>e. \<not> P (e_key e) (e_val e)"
  define ht' where "ht' = ht\<lparr>ht_list := map (filter ?keep) (ht_list ht),
     ht_elems := ht_elems ht - length (filter (\<lambda>e. P (e_key e) (e_val e)) (ht_entries ht))\<rparr>"
  have len: "length (concat (ht_list ht)) \<le> ht_elems ht" using inv by (simp add: ht_inv_def ht_entries_def)
  have res: "htable_filter f ht s = Inr (ht', fold (\<lambda>e. g (e_key e) (e_val e)) (ht_entries ht) s)"
    using filter_buckets_pure [where f = f and P = P and g = g and s = s, OF f len elems_u32 [OF inv]]
    by (simp add: htable_filter_def ht'_def ht_entries_def)
  have ents: "ht_entries ht' = filter ?keep (ht_entries ht)"
    by (simp add: ht'_def ht_entries_def filter_concat)
  have split: "length (filter ?keep (ht_entries ht)) + length (filter (\<lambda>e. P (e_key e) (e_val e)) (ht_entries ht))
      = length (ht_entries ht)"
    using sum_length_filter_compl [of ?keep "ht_entries ht"] by simp
  have "distinct (map e_key (ht_entries ht'))"
    unfolding ents using inv by (simp add: ht_inv_def distinct_map_filter)
  moreover have "placed (ht_length ht) (ht_list ht')"
  proof -
    have "placed (ht_length ht) (ht_list ht)" using inv by (simp add: ht_inv_def)
    then show ?thesis by (simp add: placed_def ht'_def) metis
  qed
  moreover have "ht_elems ht' = length (ht_entries ht')"
    using split inv unfolding ents by (simp add: ht'_def ht_inv_def)
  moreover have "ht_elems ht' \<le> ht_length ht'" "ht_length ht' = ht_length ht"
    "length (ht_list ht') = length (ht_list ht)"
    using inv by (auto simp: ht'_def ht_inv_def)
  ultimately have "ht_inv ht'" using inv by (simp add: ht_inv_def)
  with res ents show ?thesis by blast
qed

lemma ent_map_filter:
  assumes "distinct (map e_key es)"
  shows "ent_map (filter (\<lambda>e. \<not> P (e_key e) (e_val e)) es) k =
    (case ent_map es k of None \<Rightarrow> None | Some v \<Rightarrow> if P k v then None else Some v)"
proof -
  have d: "distinct (map e_key (filter (\<lambda>e. \<not> P (e_key e) (e_val e)) es))"
    using assms by (rule distinct_map_filter)
  show ?thesis
  proof (cases "ent_map es k")
    case None
    then have "ent_map (filter (\<lambda>e. \<not> P (e_key e) (e_val e)) es) k = None"
      by (auto simp: ent_map_None)
    with None show ?thesis by simp
  next
    case (Some v)
    with ent_map_Some [OF assms] obtain e where e: "e \<in> set es" "e_key e = k" "e_val e = v" by blast
    show ?thesis
    proof (cases "P k v")
      case True
      have "k \<notin> e_key ` set (filter (\<lambda>e. \<not> P (e_key e) (e_val e)) es)"
      proof
        assume "k \<in> e_key ` set (filter (\<lambda>e. \<not> P (e_key e) (e_val e)) es)"
        then obtain e' where "e' \<in> set es" "e_key e' = k" "\<not> P k (e_val e')" by auto
        with e assms True show False by (metis distinct_map inj_on_eq_iff)
      qed
      with True Some show ?thesis by (simp add: ent_map_None)
    next
      case False
      with e d have "ent_map (filter (\<lambda>e. \<not> P (e_key e) (e_val e)) es) k = Some v"
        by (auto simp: ent_map_Some)
      with False Some show ?thesis by simp
    qed
  qed
qed

section \<open>The interface of a table of pointers\<close>

text \<open>
  What the closure relies on: a table with an invariant, a size below a limit, and contents
  that insertion, removal and lookup change and read as a finite map does.
\<close>

locale pointer_table =
  fixes inv :: "'t \<Rightarrow> bool"
    and size_of :: "'t \<Rightarrow> nat"
    and limit :: nat
    and contents :: "'t \<Rightarrow> 'k \<rightharpoonup> 'v"
    and lookup :: "'t \<Rightarrow> 'k \<Rightarrow> 'v"
    and insert :: "'t \<Rightarrow> 'k \<Rightarrow> 'v \<Rightarrow> ('t \<times> int) res"
    and remove :: "'t \<Rightarrow> 'k \<Rightarrow> 't \<times> 'v"
    and null :: 'v
  assumes lookup: "inv t \<Longrightarrow> lookup t k = (case contents t k of None \<Rightarrow> null | Some v \<Rightarrow> v)"
    and insert: "inv t \<Longrightarrow> size_of t < limit \<Longrightarrow>
       \<exists>t' r. insert t k v = Inr (t', r) \<and> inv t' \<and> contents t' = (contents t)(k \<mapsto> v) \<and>
         r = (if contents t k = None then 1 else 0)"
    and remove: "inv t \<Longrightarrow> inv (fst (remove t k)) \<and> contents (fst (remove t k)) = (contents t)(k := None) \<and>
       snd (remove t k) = (case contents t k of None \<Rightarrow> null | Some v \<Rightarrow> v)"
begin

lemma insert_lookup:
  assumes "inv t" and "size_of t < limit" and "insert t k v = Inr (t', r)"
  shows "inv t'" and "lookup t' k = v" and "k' \<noteq> k \<Longrightarrow> lookup t' k' = lookup t k'"
    and "r = 0 \<longleftrightarrow> k \<in> dom (contents t)"
  using insert [OF assms(1,2), of k v] assms(1,3) by (auto simp: lookup split: if_splits)

lemma remove_lookup:
  assumes "inv t"
  shows "inv (fst (remove t k))" and "lookup (fst (remove t k)) k = null"
    and "snd (remove t k) = lookup t k"
    and "k' \<noteq> k \<Longrightarrow> lookup (fst (remove t k)) k' = lookup t k'"
  using remove [OF assms, of k] assms by (auto simp: lookup)

lemma insert_remove:
  assumes "inv t" and "size_of t < limit" and "insert t k v = Inr (t', r)" and "contents t k = None"
  shows "contents (fst (remove t' k)) = contents t"
  using insert [OF assms(1,2), of k v] assms(3,4) remove [of t' k] by (auto simp: fun_upd_idem)

end

interpretation pt: pointer_table ht_inv ht_elems "2 ^ 31" ht_map htable_lookup htable_insert htable_remove 0
  by unfold_locales (erule lookup_spec, rule insert_spec, assumption+, erule remove_spec)

section \<open>Properties\<close>

text \<open>A table of two entries, for the examples.\<close>

lemma ht_elems_card: "ht_inv ht \<Longrightarrow> ht_elems ht = card (dom (ht_map ht))"
  using distinct_card [of "map e_key (ht_entries ht)"]
  by (auto simp: ht_inv_def ht_map_def dom_map_of_conv_image_fst image_image)

lemma two_entries: "\<exists>ht. ht_inv ht \<and> ht_elems ht < 2 ^ 31 \<and> ht_map ht = [4096 \<mapsto> 7, 8192 \<mapsto> 0]"
proof -
  obtain ht where ht: "ht_inv ht" "ht_map ht = Map.empty" using htable_init_spec by blast
  have "ht_elems ht < 2 ^ 31" using ht_elems_card [OF ht(1)] ht(2) by simp
  from pt.insert [OF ht(1) this, of 4096 7] ht(2) obtain h1 where h1: "ht_inv h1" "ht_map h1 = [4096 \<mapsto> 7]" by auto
  have "ht_elems h1 < 2 ^ 31" using ht_elems_card [OF h1(1)] h1(2) by simp
  from pt.insert [OF h1(1) this, of 8192 0] h1(2) obtain h2 where h2: "ht_inv h2" "ht_map h2 = [4096 \<mapsto> 7, 8192 \<mapsto> 0]" by auto
  moreover have "ht_elems h2 < 2 ^ 31" using ht_elems_card [OF h2(1)] h2(2) by simp
  ultimately show ?thesis by blast
qed

text \<open>
  C29: inserting into a table (with fewer than \<open>2 ^ 31\<close> entries) returns, keeps the
  invariant across the possible resize (length a power of two, load factor at most one,
  every entry in the bucket of its hash, no duplicate keys) and has the effect of a map
  update; the result is 1 exactly for a new key.
\<close>

theorem htable_insert_refines:
  assumes "ht_inv ht" and "ht_elems ht < 2 ^ 31"
  shows "\<exists>ht' r. htable_insert ht key v = Inr (ht', r) \<and> ht_inv ht' \<and>
           ht_map ht' = (ht_map ht)(key \<mapsto> v) \<and> r = (if ht_map ht key = None then 1 else 0) \<and>
           htable_lookup ht' key = v \<and> (\<forall>k. k \<noteq> key \<longrightarrow> htable_lookup ht' k = htable_lookup ht k)"
  using pt.insert [OF assms, of key v] pt.insert_lookup(2,3) [OF assms] by metis

theorem htable_insert_refines_witness:
  "\<exists>ht ht' r. htable_init = Inr ht \<and> htable_insert ht 4096 7 = Inr (ht', r) \<and> r = 1 \<and>
     htable_lookup ht' 4096 = 7"
proof -
  obtain ht where ht: "htable_init = Inr ht" "ht_inv ht" "ht_map ht = Map.empty"
    using htable_init_spec by blast
  then have "ht_entries ht = []" by (simp add: ht_map_def)
  with ht(2) have "ht_elems ht < 2 ^ 31" by (simp add: ht_inv_def)
  from htable_insert_refines [OF ht(2) this, of 4096 7] ht show ?thesis by auto
qed

text \<open>
  C30: removal keeps the invariant, deletes exactly the given key, and returns the value
  that was stored (\<open>NULL\<close> if there was none).
\<close>

theorem htable_remove_refines:
  assumes "ht_inv ht"
  shows "ht_inv (fst (htable_remove ht key)) \<and>
         ht_map (fst (htable_remove ht key)) = (ht_map ht)(key := None) \<and>
         snd (htable_remove ht key) = htable_lookup ht key"
  using pt.remove [OF assms] pt.remove_lookup [OF assms] by blast

theorem htable_remove_refines_witness:
  "\<exists>ht. ht_map ht = [4096 \<mapsto> 7, 8192 \<mapsto> 0] \<and> snd (htable_remove ht 4096) = htable_lookup ht 4096 \<and>
     ht_map (fst (htable_remove ht 4096)) = [8192 \<mapsto> 0]"
proof -
  obtain ht where ht: "ht_inv ht" "ht_map ht = [4096 \<mapsto> 7, 8192 \<mapsto> 0]" using two_entries by blast
  from htable_remove_refines [OF ht(1), of 4096] ht(2) show ?thesis by (intro exI [of _ ht]) auto
qed

text \<open>
  \<open>htable_resize\<close> relinks every entry exactly once: from any list of chains with
  matching count, correct hashes and no duplicate keys it ends, passes its own assertion,
  and gives a table with the same contents that satisfies the invariant.
\<close>

lemma htable_resize_preserves:
  assumes "ht_length ht = length (ht_list ht)"
    and "\<forall>e\<in>set (ht_entries ht). e_hash e = hash_ptr (e_key e)"
    and "distinct (map e_key (ht_entries ht))"
    and "ht_elems ht = length (ht_entries ht)" and "ht_elems ht \<le> 2 ^ 31"
  shows "\<exists>ht'. htable_resize ht = Inr ht' \<and> ht_inv ht' \<and> ht_map ht' = ht_map ht \<and>
               ht_elems ht' \<le> ht_length ht'"
  using resize_spec [OF assms] by (auto simp: ht_inv_def)

text \<open>
  C31: \<open>htable_filter\<close> removes exactly the entries whose callback returns non-zero, calling it
  once on every entry in table order, and \<open>htable_foreach\<close> runs its callback once on every
  entry in the same order; the counter stays equal to the number of entries, so the
  assertion of \<open>htable_foreach\<close> never fails.
\<close>

theorem htable_filter_foreach:
  assumes "ht_inv ht" and "\<And>k v t. f k v t = Inr (P k v, g k v t)"
  shows "\<exists>ht'. htable_filter f ht s = Inr (ht', fold (\<lambda>e. g (e_key e) (e_val e)) (ht_entries ht) s) \<and>
           ht_inv ht' \<and>
           (\<forall>k. ht_map ht' k = (case ht_map ht k of None \<Rightarrow> None | Some v \<Rightarrow> if P k v then None else Some v)) \<and>
           (\<forall>h t. htable_foreach h ht' t = foreach_chain h (filter (\<lambda>e. \<not> P (e_key e) (e_val e)) (ht_entries ht)) t)"
proof -
  from filter_spec [where P = P and g = g and f = f and s = s, OF assms] obtain ht' where ht': "ht_inv ht'"
    "htable_filter f ht s = Inr (ht', fold (\<lambda>e. g (e_key e) (e_val e)) (ht_entries ht) s)"
    "ht_entries ht' = filter (\<lambda>e. \<not> P (e_key e) (e_val e)) (ht_entries ht)" by blast
  have "distinct (map e_key (ht_entries ht))" using assms(1) by (simp add: ht_inv_def)
  with ht' foreach_spec [OF ht'(1)] ent_map_filter show ?thesis by (auto simp: ht_map_ent)
qed

theorem htable_filter_foreach_witness:
  "\<exists>ht ht' n. ht_map ht = [4096 \<mapsto> 7, 8192 \<mapsto> 0] \<and> htable_filter (\<lambda>k v t. Inr (v = 0, Suc t)) ht (0::nat) = Inr (ht', n) \<and>
     ht_map ht' 4096 = Some 7 \<and> ht_map ht' 8192 = None"
proof -
  obtain ht where ht: "ht_inv ht" "ht_map ht = [4096 \<mapsto> 7, 8192 \<mapsto> 0]" using two_entries by blast
  from htable_filter_foreach [OF ht(1), of "\<lambda>k v t. Inr (v = 0, Suc t)" "\<lambda>k v. v = 0" "\<lambda>k v. Suc" 0]
  obtain ht' where "htable_filter (\<lambda>k v t. Inr (v = 0, Suc t)) ht 0 = Inr (ht', fold (\<lambda>e. Suc) (ht_entries ht) 0)"
    "\<forall>k. ht_map ht' k = (case ht_map ht k of None \<Rightarrow> None | Some v \<Rightarrow> if v = 0 then None else Some v)" by auto
  then show ?thesis using ht(2) by (intro exI [of _ ht] exI [of _ ht']) auto
qed

end
