(* ===== verification/Splay.thy ===== *)
theory Splay
  imports Keyorder
begin

text \<open>
  The splay tree of \<^verbatim>\<open>src/src/utils/tree.h\<close> (the SPLAY macros).  The top-down loop of the code
  takes nodes off the tree at \<^verbatim>\<open>sph_root\<close> and hangs them under \<^verbatim>\<open>__left\<close> and \<^verbatim>\<open>__right\<close>, two nodes
  at the bottom of two trees that grow from the local \<^verbatim>\<open>__node\<close>.  The model keeps the two trees as
  the lists of their spine nodes, the last one hung first: a node of the left spine has its left
  subtree and its element, a node of the right spine its element and its right subtree; the
  ASSEMBLE macro closes them around the root.  The loop is also used with a comparison that is not
  an order of the elements (a point against intervals), so the lemmas only ask that the comparison
  with the sought element cuts the tree in two.
\<close>

datatype 'a stree = SNil | SNode (sleft: "'a stree") (selem: 'a) (sright: "'a stree")

type_synonym 'a left_spine = "('a stree \<times> 'a) list"
type_synonym 'a right_spine = "('a \<times> 'a stree) list"

fun hang_left :: "'a left_spine \<Rightarrow> 'a stree \<Rightarrow> 'a stree" where
  "hang_left [] t = t"
| "hang_left ((a, y) # ls) t = hang_left ls (SNode a y t)"

fun hang_right :: "'a right_spine \<Rightarrow> 'a stree \<Rightarrow> 'a stree" where
  "hang_right [] t = t"
| "hang_right ((y, b) # rs) t = hang_right rs (SNode t y b)"

definition SPLAY_ASSEMBLE :: "'a stree \<Rightarrow> 'a \<Rightarrow> 'a stree \<Rightarrow> 'a left_spine \<Rightarrow> 'a right_spine \<Rightarrow> 'a stree" where
  "SPLAY_ASSEMBLE l x r ls rs = SNode (hang_left ls l) x (hang_right rs r)"

function SPLAY_loop :: "('a \<Rightarrow> 'a \<Rightarrow> int) \<Rightarrow> 'a \<Rightarrow> 'a stree \<Rightarrow> 'a left_spine \<Rightarrow> 'a right_spine \<Rightarrow> 'a stree res" where
  "SPLAY_loop cmp elm SNil ls rs = Inl (Segv 0)"
| "SPLAY_loop cmp elm (SNode l x r) ls rs =
     (let comp = cmp elm x in
      if comp < 0 then
        (case l of
           SNil \<Rightarrow> Inr (SPLAY_ASSEMBLE l x r ls rs)
         | SNode ll y lr \<Rightarrow>
             if cmp elm y < 0 then
               (if ll = SNil then Inr (SPLAY_ASSEMBLE ll y (SNode lr x r) ls rs)
                else SPLAY_loop cmp elm ll ls ((y, SNode lr x r) # rs))
             else SPLAY_loop cmp elm l ls ((x, r) # rs))
      else if comp > 0 then
        (case r of
           SNil \<Rightarrow> Inr (SPLAY_ASSEMBLE l x r ls rs)
         | SNode rl y rr \<Rightarrow>
             if cmp elm y > 0 then
               (if rr = SNil then Inr (SPLAY_ASSEMBLE (SNode l x rl) y rr ls rs)
                else SPLAY_loop cmp elm rr ((SNode l x rl, y) # ls) rs)
             else SPLAY_loop cmp elm r ((l, x) # ls) rs)
      else Inr (SPLAY_ASSEMBLE l x r ls rs))"
  by pat_completeness auto

termination
  by (relation "measure (\<lambda>(_, _, t, _, _). size t)") auto

definition SPLAY :: "('a \<Rightarrow> 'a \<Rightarrow> int) \<Rightarrow> 'a stree \<Rightarrow> 'a \<Rightarrow> 'a stree res" where
  "SPLAY cmp head elm = SPLAY_loop cmp elm head [] []"

text \<open>SPLAY_MINMAX: the loop has no exit when its parameter is 0.\<close>

function MINMAX_loop :: "int \<Rightarrow> 'a stree \<Rightarrow> 'a left_spine \<Rightarrow> 'a right_spine \<Rightarrow> 'a stree res" where
  "MINMAX_loop side SNil ls rs = Inl (Segv 0)"
| "MINMAX_loop side (SNode l x r) ls rs =
     (if side < 0 then
        (case l of
           SNil \<Rightarrow> Inr (SPLAY_ASSEMBLE l x r ls rs)
         | SNode ll y lr \<Rightarrow>
             if ll = SNil then Inr (SPLAY_ASSEMBLE ll y (SNode lr x r) ls rs)
             else MINMAX_loop side ll ls ((y, SNode lr x r) # rs))
      else if side > 0 then
        (case r of
           SNil \<Rightarrow> Inr (SPLAY_ASSEMBLE l x r ls rs)
         | SNode rl y rr \<Rightarrow>
             if rr = SNil then Inr (SPLAY_ASSEMBLE (SNode l x rl) y rr ls rs)
             else MINMAX_loop side rr ((SNode l x rl, y) # ls) rs)
      else Inl Diverges)"
  by pat_completeness auto

termination
  by (relation "measure (\<lambda>(_, t, _, _). size t)") auto

definition SPLAY_MINMAX :: "'a stree \<Rightarrow> int \<Rightarrow> 'a stree res" where
  "SPLAY_MINMAX head side = MINMAX_loop side head [] []"

text \<open>SPLAY_MIN and SPLAY_MAX return the new tree and its root.\<close>

definition SPLAY_MIN :: "'a stree \<Rightarrow> ('a stree \<times> 'a option) res" where
  "SPLAY_MIN head =
     (if head = SNil then Inr (head, None)
      else bindR (SPLAY_MINMAX head (- 1)) (\<lambda>t. Inr (t, Some (selem t))))"

definition SPLAY_MAX :: "'a stree \<Rightarrow> ('a stree \<times> 'a option) res" where
  "SPLAY_MAX head =
     (if head = SNil then Inr (head, None)
      else bindR (SPLAY_MINMAX head 1) (\<lambda>t. Inr (t, Some (selem t))))"

definition SPLAY_FIND :: "('a \<Rightarrow> 'a \<Rightarrow> int) \<Rightarrow> 'a stree \<Rightarrow> 'a \<Rightarrow> ('a stree \<times> 'a option) res" where
  "SPLAY_FIND cmp head elm =
     (if head = SNil then Inr (head, None)
      else bindR (SPLAY cmp head elm) (\<lambda>t.
           Inr (t, if cmp elm (selem t) = 0 then Some (selem t) else None)))"

fun sleftmost :: "'a stree \<Rightarrow> 'a option" where
  "sleftmost SNil = None"
| "sleftmost (SNode l x r) = (if l = SNil then Some x else sleftmost l)"

text \<open>
  SPLAY_NEXT reads the right link of \<^verbatim>\<open>elm\<close> itself, which is the root only when \<^verbatim>\<open>elm\<close> is in the
  tree.
\<close>

definition SPLAY_NEXT :: "('a \<Rightarrow> 'a \<Rightarrow> int) \<Rightarrow> 'a stree \<Rightarrow> 'a \<Rightarrow> ('a stree \<times> 'a option) res" where
  "SPLAY_NEXT cmp head elm =
     bindR (SPLAY cmp head elm) (\<lambda>t.
     if cmp elm (selem t) = 0 then Inr (t, sleftmost (sright t))
     else Inl (Undefined ''SPLAY_NEXT of an element outside the tree''))"

definition SPLAY_INSERT :: "('a \<Rightarrow> 'a \<Rightarrow> int) \<Rightarrow> 'a stree \<Rightarrow> 'a \<Rightarrow> ('a stree \<times> 'a option) res" where
  "SPLAY_INSERT cmp head elm =
     (if head = SNil then Inr (SNode SNil elm SNil, None)
      else bindR (SPLAY cmp head elm) (\<lambda>t.
           let comp = cmp elm (selem t) in
           if comp < 0 then Inr (SNode (sleft t) elm (SNode SNil (selem t) (sright t)), None)
           else if comp > 0 then Inr (SNode (SNode (sleft t) (selem t) SNil) elm (sright t), None)
           else Inr (t, Some (selem t))))"

definition SPLAY_REMOVE :: "('a \<Rightarrow> 'a \<Rightarrow> int) \<Rightarrow> 'a stree \<Rightarrow> 'a \<Rightarrow> ('a stree \<times> 'a option) res" where
  "SPLAY_REMOVE cmp head elm =
     (if head = SNil then Inr (head, None)
      else bindR (SPLAY cmp head elm) (\<lambda>t.
           if cmp elm (selem t) = 0 then
             (if sleft t = SNil then Inr (sright t, Some elm)
              else bindR (SPLAY cmp (sleft t) elm) (\<lambda>t'.
                   Inr (SNode (sleft t') (selem t') (sright t), Some elm)))
           else Inr (t, None)))"

text \<open>
  SPLAY_FOREACH splays at every step, so it threads the tree; the body gets the element.  The
  traversal is bounded here by the number of steps, which the lemma below shows to suffice.
\<close>

fun SPLAY_FOREACH_from ::
  "nat \<Rightarrow> ('a \<Rightarrow> 'a \<Rightarrow> int) \<Rightarrow> ('a \<Rightarrow> 's \<Rightarrow> 's) \<Rightarrow> 'a stree \<Rightarrow> 'a option \<Rightarrow> 's \<Rightarrow> ('a stree \<times> 's) res" where
  "SPLAY_FOREACH_from n cmp f head None s = Inr (head, s)"
| "SPLAY_FOREACH_from 0 cmp f head (Some x) s = Inl Diverges"
| "SPLAY_FOREACH_from (Suc n) cmp f head (Some x) s =
     bindR (SPLAY_NEXT cmp head x) (\<lambda>(head', nxt). SPLAY_FOREACH_from n cmp f head' nxt (f x s))"

definition SPLAY_FOREACH ::
  "nat \<Rightarrow> ('a \<Rightarrow> 'a \<Rightarrow> int) \<Rightarrow> ('a \<Rightarrow> 's \<Rightarrow> 's) \<Rightarrow> 'a stree \<Rightarrow> 's \<Rightarrow> ('a stree \<times> 's) res" where
  "SPLAY_FOREACH n cmp f head s =
     bindR (SPLAY_MIN head) (\<lambda>(head', x). SPLAY_FOREACH_from n cmp f head' x s)"

section \<open>The elements in order\<close>

fun sinorder :: "'a stree \<Rightarrow> 'a list" where
  "sinorder SNil = []"
| "sinorder (SNode l x r) = sinorder l @ x # sinorder r"

definition ls_list :: "'a left_spine \<Rightarrow> 'a list" where
  "ls_list ls = concat (map (\<lambda>(a, y). sinorder a @ [y]) (rev ls))"

definition rs_list :: "'a right_spine \<Rightarrow> 'a list" where
  "rs_list rs = concat (map (\<lambda>(y, b). y # sinorder b) rs)"

lemma spine_simps [simp]:
  "ls_list [] = []" "ls_list ((a, y) # ls) = ls_list ls @ sinorder a @ [y]"
  "rs_list [] = []" "rs_list ((y, b) # rs) = y # sinorder b @ rs_list rs"
  by (simp_all add: ls_list_def rs_list_def)

lemma hang_inorder [simp]:
  "sinorder (hang_left ls t) = ls_list ls @ sinorder t"
  "sinorder (hang_right rs t) = sinorder t @ rs_list rs"
  by (induction ls t rule: hang_left.induct; simp) (induction rs t rule: hang_right.induct; simp)

lemma sinorder_empty [simp]: "sinorder t = [] \<longleftrightarrow> t = SNil"
  by (cases t) auto

lemma assemble_inorder [simp]:
  "sinorder (SPLAY_ASSEMBLE l x r ls rs) = ls_list ls @ sinorder l @ x # sinorder r @ rs_list rs"
  by (simp add: SPLAY_ASSEMBLE_def)

text \<open>
  The comparison with \<^verbatim>\<open>e\<close> cuts a list: of two elements, \<^verbatim>\<open>e\<close> is above the first or below the
  second.
\<close>

definition cuts :: "('a \<Rightarrow> 'a \<Rightarrow> int) \<Rightarrow> 'a \<Rightarrow> 'a list \<Rightarrow> bool" where
  "cuts cmp e xs \<longleftrightarrow> sorted_wrt (\<lambda>x y. cmp e x > 0 \<or> cmp e y < 0) xs"

lemma cuts_append [simp]:
  "cuts cmp e (xs @ ys) \<longleftrightarrow> cuts cmp e xs \<and> cuts cmp e ys \<and> (\<forall>x\<in>set xs. \<forall>y\<in>set ys. cmp e x > 0 \<or> cmp e y < 0)"
  by (simp add: cuts_def sorted_wrt_append)

lemma cuts_Cons [simp]:
  "cuts cmp e (x # xs) \<longleftrightarrow> (\<forall>y\<in>set xs. cmp e x > 0 \<or> cmp e y < 0) \<and> cuts cmp e xs"
  by (simp add: cuts_def)

lemma cuts_Nil [simp]: "cuts cmp e []"
  by (simp add: cuts_def)

text \<open>A tree splayed for \<^verbatim>\<open>e\<close>: everything left of the root is below \<^verbatim>\<open>e\<close>, everything right above.\<close>

definition splayed :: "('a \<Rightarrow> 'a \<Rightarrow> int) \<Rightarrow> 'a \<Rightarrow> 'a stree \<Rightarrow> bool" where
  "splayed cmp e t \<longleftrightarrow> t \<noteq> SNil \<and> (\<forall>y\<in>set (sinorder (sleft t)). cmp e y > 0) \<and>
     (\<forall>y\<in>set (sinorder (sright t)). cmp e y < 0)"

lemma SPLAY_loop_ok:
  assumes "t \<noteq> SNil" and "cuts cmp e (sinorder t)"
    and "\<forall>y\<in>set (ls_list ls). cmp e y > 0" "\<forall>y\<in>set (rs_list rs). cmp e y < 0"
  shows "\<exists>t'. SPLAY_loop cmp e t ls rs = Inr t' \<and> splayed cmp e t' \<and>
    sinorder t' = ls_list ls @ sinorder t @ rs_list rs"
  using assms
proof (induction cmp e t ls rs rule: SPLAY_loop.induct)
  case (2 cmp e l x r ls rs)
  consider "cmp e x < 0" | "cmp e x = 0" | "cmp e x > 0" by linarith
  then show ?case
  proof cases
    case 1
    have rx: "\<forall>y\<in>set (sinorder r). cmp e y < 0" using 2(6) 1 by auto
    show ?thesis
    proof (cases l)
      case SNil
      then show ?thesis using 1 rx 2(7,8) by (auto simp: splayed_def SPLAY_ASSEMBLE_def)
    next
      case l: (SNode ll y lr)
      show ?thesis
      proof (cases "cmp e y < 0")
        case True
        have lr: "\<forall>z\<in>set (sinorder lr). cmp e z < 0" using 2(6) True l by auto
        show ?thesis
        proof (cases "ll = SNil")
          case ll: True
          then show ?thesis using 1 True rx lr l 2(7,8) by (auto simp: splayed_def SPLAY_ASSEMBLE_def)
        next
          case ll: False
          from 2(1) [OF refl 1 l True ll ll] 2(6-8) 1 True l rx lr show ?thesis by (simp add: ll) blast
        qed
      next
        case False
        have "SPLAY_loop cmp e (SNode l x r) ls rs = SPLAY_loop cmp e l ls ((x, r) # rs)"
          by (subst SPLAY_loop.simps(2)) (simp add: Let_def 1 l False del: SPLAY_loop.simps)
        moreover have "\<forall>z\<in>set (rs_list ((x, r) # rs)). cmp e z < 0" "cuts cmp e (sinorder l)" "l \<noteq> SNil"
          using 2(6,8) 1 rx l by auto
        ultimately show ?thesis using 2(2) [OF refl 1 l False] 2(7) by (simp del: SPLAY_loop.simps)
      qed
    qed
  next
    case 2: 2
    then show ?thesis using "2.prems" by (auto simp: splayed_def SPLAY_ASSEMBLE_def)
  next
    case 3
    then have n: "\<not> cmp e x < 0" by simp
    have lx: "\<forall>y\<in>set (sinorder l). cmp e y > 0" using 2(6) 3 by fastforce
    show ?thesis
    proof (cases r)
      case SNil
      then show ?thesis using 3 lx 2(7,8) by (auto simp: splayed_def SPLAY_ASSEMBLE_def)
    next
      case r: (SNode rl y rr)
      show ?thesis
      proof (cases "cmp e y > 0")
        case True
        have rl: "\<forall>z\<in>set (sinorder rl). cmp e z > 0" using 2(6) True r by fastforce
        show ?thesis
        proof (cases "rr = SNil")
          case rr: True
          then show ?thesis using 3 True lx rl r 2(7,8) by (auto simp: splayed_def SPLAY_ASSEMBLE_def)
        next
          case rr: False
          from 2(3) [OF refl n 3 r True rr rr] 2(6-8) 3 True r lx rl show ?thesis by (simp add: rr) blast
        qed
      next
        case False
        have "SPLAY_loop cmp e (SNode l x r) ls rs = SPLAY_loop cmp e r ((l, x) # ls) rs"
          by (subst SPLAY_loop.simps(2)) (simp add: Let_def n 3 r False del: SPLAY_loop.simps)
        moreover have "\<forall>z\<in>set (ls_list ((l, x) # ls)). cmp e z > 0" "cuts cmp e (sinorder r)" "r \<noteq> SNil"
          using 2(6,7) 3 lx r by auto
        ultimately show ?thesis using 2(4) [OF refl n 3 r False] 2(8) by (simp del: SPLAY_loop.simps)
      qed
    qed
  qed
qed simp

lemma SPLAY_ok:
  assumes "t \<noteq> SNil" "cuts cmp e (sinorder t)"
  shows "\<exists>t'. SPLAY cmp t e = Inr t' \<and> splayed cmp e t' \<and> sinorder t' = sinorder t"
  using SPLAY_loop_ok [OF assms, of "[]" "[]"] by (simp add: SPLAY_def)

section \<open>The operations\<close>

lemma splayed_parts:
  assumes "splayed cmp e t"
  obtains l x r where "t = SNode l x r" "\<forall>y\<in>set (sinorder l). cmp e y > 0" "\<forall>y\<in>set (sinorder r). cmp e y < 0"
  using assms by (cases t) (auto simp: splayed_def)

lemma find_append_none: "(\<forall>x\<in>set xs. \<not> P x) \<Longrightarrow> find P (xs @ ys) = find P ys"
  by (induction xs) auto

lemma splayed_find:
  assumes "splayed cmp e t"
  shows "find (\<lambda>y. cmp e y = 0) (sinorder t) = (if cmp e (selem t) = 0 then Some (selem t) else None)"
proof -
  from assms obtain l x r where t: "t = SNode l x r" "\<forall>y\<in>set (sinorder l). cmp e y > 0" "\<forall>y\<in>set (sinorder r). cmp e y < 0"
    by (rule splayed_parts)
  have "find (\<lambda>y. cmp e y = 0) (sinorder l @ x # sinorder r) = find (\<lambda>y. cmp e y = 0) (x # sinorder r)"
    by (rule find_append_none) (use t(2) in auto)
  moreover have "find (\<lambda>y. cmp e y = 0) (sinorder r) = None" using t(3) by (auto simp: find_None_iff)
  ultimately show ?thesis using t(1) by simp
qed

lemma SPLAY_FIND_ok:
  assumes "cuts cmp e (sinorder t)"
  shows "\<exists>t'. SPLAY_FIND cmp t e = Inr (t', find (\<lambda>y. cmp e y = 0) (sinorder t)) \<and> sinorder t' = sinorder t"
proof (cases "t = SNil")
  case False
  from SPLAY_ok [OF False assms] obtain t' where "SPLAY cmp t e = Inr t'" "splayed cmp e t'" "sinorder t' = sinorder t" by blast
  then show ?thesis using False splayed_find [of cmp e t'] by (simp add: SPLAY_FIND_def)
qed (simp add: SPLAY_FIND_def)

lemma SPLAY_INSERT_ok:
  assumes "cuts cmp e (sinorder t)"
  shows "\<exists>t'. SPLAY_INSERT cmp t e = Inr (t', find (\<lambda>y. cmp e y = 0) (sinorder t)) \<and>
    sinorder t' = (if find (\<lambda>y. cmp e y = 0) (sinorder t) = None
      then filter (\<lambda>y. cmp e y > 0) (sinorder t) @ e # filter (\<lambda>y. cmp e y < 0) (sinorder t) else sinorder t)"
proof (cases "t = SNil")
  case False
  from SPLAY_ok [OF False assms] obtain t' where
    s: "SPLAY cmp t e = Inr t'" "splayed cmp e t'" "sinorder t' = sinorder t" by blast
  from s(2) obtain l x r where t': "t' = SNode l x r" "\<forall>y\<in>set (sinorder l). cmp e y > 0" "\<forall>y\<in>set (sinorder r). cmp e y < 0"
    by (rule splayed_parts)
  have io: "sinorder t = sinorder l @ x # sinorder r" using s(3) t'(1) by simp
  have f: "filter (\<lambda>y. cmp e y > 0) (sinorder l) = sinorder l" "filter (\<lambda>y. cmp e y < 0) (sinorder l) = []"
    "filter (\<lambda>y. cmp e y > 0) (sinorder r) = []" "filter (\<lambda>y. cmp e y < 0) (sinorder r) = sinorder r"
    using t'(2,3) by (auto intro!: filter_all filter_none)
  have fd: "find (\<lambda>y. cmp e y = 0) (sinorder t) = (if cmp e x = 0 then Some x else None)"
    using splayed_find [OF s(2)] s(3) t'(1) by simp
  consider "cmp e x < 0" | "cmp e x = 0" | "cmp e x > 0" by linarith
  then show ?thesis
  proof cases
    case 1
    with fd show ?thesis using False s(1) t'(1) io f by (simp add: SPLAY_INSERT_def)
  next
    case 2
    with fd show ?thesis using False s(1) t'(1) io by (simp add: SPLAY_INSERT_def)
  next
    case 3
    with fd show ?thesis using False s(1) t'(1) io f by (simp add: SPLAY_INSERT_def)
  qed
qed (simp add: SPLAY_INSERT_def)

lemma SPLAY_REMOVE_ok:
  assumes c: "cuts cmp e (sinorder t)"
  shows "\<exists>t'. SPLAY_REMOVE cmp t e = Inr (t', if find (\<lambda>y. cmp e y = 0) (sinorder t) = None then None else Some e) \<and>
    sinorder t' = filter (\<lambda>y. cmp e y \<noteq> 0) (sinorder t)"
proof (cases "t = SNil")
  case False
  from SPLAY_ok [OF False c] obtain t' where
    s: "SPLAY cmp t e = Inr t'" "splayed cmp e t'" "sinorder t' = sinorder t" by blast
  from s(2) obtain l x r where t': "t' = SNode l x r" "\<forall>y\<in>set (sinorder l). cmp e y > 0" "\<forall>y\<in>set (sinorder r). cmp e y < 0"
    by (rule splayed_parts)
  have io: "sinorder t = sinorder l @ x # sinorder r" using s(3) t'(1) by simp
  have fl: "filter (\<lambda>y. cmp e y \<noteq> 0) (sinorder l) = sinorder l" using t'(2) by (intro filter_all) auto
  have fr: "filter (\<lambda>y. cmp e y \<noteq> 0) (sinorder r) = sinorder r" using t'(3) by (intro filter_all) auto
  have fd: "find (\<lambda>y. cmp e y = 0) (sinorder t) = (if cmp e x = 0 then Some x else None)"
    using splayed_find [OF s(2)] s(3) t'(1) by simp
  show ?thesis
  proof (cases "cmp e x = 0")
    case True
    show ?thesis
    proof (cases "l = SNil")
      case l: True
      then show ?thesis using False True s(1) t'(1) io fr fd by (simp add: SPLAY_REMOVE_def)
    next
      case l: False
      have "cuts cmp e (sinorder l)" using c io by simp
      from SPLAY_ok [OF l this] obtain u where
        u: "SPLAY cmp l e = Inr u" "splayed cmp e u" "sinorder u = sinorder l" by blast
      from u(2) obtain ul ux ur where u': "u = SNode ul ux ur" "\<forall>y\<in>set (sinorder ur). cmp e y < 0"
        by (rule splayed_parts)
      have "ur = SNil"
      proof (rule ccontr)
        assume "ur \<noteq> SNil"
        then obtain y where "y \<in> set (sinorder ur)" by (metis sinorder_empty list.set_intros(1) neq_Nil_conv)
        moreover from this have "y \<in> set (sinorder l)" using arg_cong [OF u(3), of set] u'(1) by auto
        ultimately show False using t'(2) u'(2) by fastforce
      qed
      then have "sinorder (SNode ul ux r) = sinorder l @ sinorder r" using u(3) u'(1) by auto
      then show ?thesis using False True s(1) t'(1) io fl fr fd l u(1) u'(1) by (simp add: SPLAY_REMOVE_def)
    qed
  next
    case x: False
    then show ?thesis using False s(1) t'(1) io fl fr fd by (simp add: SPLAY_REMOVE_def)
  qed
qed (simp add: SPLAY_REMOVE_def)

lemma sleftmost_ok: "sleftmost t = (case sinorder t of [] \<Rightarrow> None | x # _ \<Rightarrow> Some x)"
  by (induction t) (auto split: list.splits)

lemma SPLAY_NEXT_ok:
  assumes "sinorder t = as @ y # bs" "cuts cmp e (sinorder t)" "cmp e y = 0"
  shows "\<exists>t'. SPLAY_NEXT cmp t e = Inr (t', case bs of [] \<Rightarrow> None | b # _ \<Rightarrow> Some b) \<and> sinorder t' = sinorder t"
proof -
  have "t \<noteq> SNil" using assms(1) by auto
  from SPLAY_ok [OF this assms(2)] obtain t' where
    s: "SPLAY cmp t e = Inr t'" "splayed cmp e t'" "sinorder t' = sinorder t" by blast
  from s(2) obtain l x r where t': "t' = SNode l x r" "\<forall>y\<in>set (sinorder l). cmp e y > 0" "\<forall>y\<in>set (sinorder r). cmp e y < 0"
    by (rule splayed_parts)
  have eq: "sinorder l @ x # sinorder r = as @ y # bs" using s(3) t'(1) assms(1) by simp
  then have "y \<in> set (sinorder l @ x # sinorder r)" by simp
  then have y: "y = x" using t'(2,3) assms(3) by fastforce
  have "x \<notin> set (sinorder l)" "x \<notin> set (sinorder r)" using t'(2,3) assms(3) y by fastforce+
  then have "sinorder r = bs" using eq y by (metis append_Cons_eq_iff)
  then show ?thesis using s t'(1) assms(3) y by (simp add: SPLAY_NEXT_def sleftmost_ok)
qed

lemma MINMAX_loop_min:
  "t \<noteq> SNil \<Longrightarrow> \<exists>t'. MINMAX_loop (- 1) t [] rs = Inr t' \<and> t' \<noteq> SNil \<and> sleft t' = SNil \<and>
     sinorder t' = sinorder t @ rs_list rs"
proof (induction "-1 :: int" t "[] :: 'a left_spine" rs rule: MINMAX_loop.induct)
  case (2 l x r rs)
  show ?case
  proof (cases l)
    case SNil
    then show ?thesis by (simp add: SPLAY_ASSEMBLE_def)
  next
    case (SNode ll y lr)
    then show ?thesis using 2(1) [OF _ SNode] by (cases "ll = SNil") (simp_all add: SPLAY_ASSEMBLE_def)
  qed
qed simp

lemma SPLAY_MIN_ok:
  "\<exists>t'. SPLAY_MIN t = Inr (t', case sinorder t of [] \<Rightarrow> None | x # _ \<Rightarrow> Some x) \<and> sinorder t' = sinorder t"
proof (cases "t = SNil")
  case False
  from MINMAX_loop_min [OF False, of "[]"] obtain t' where
    t': "MINMAX_loop (- 1) t [] [] = Inr t'" "t' \<noteq> SNil" "sleft t' = SNil" "sinorder t' = sinorder t" by auto
  then show ?thesis using False by (cases t') (auto simp: SPLAY_MIN_def SPLAY_MINMAX_def t'(4) [symmetric])
qed (simp add: SPLAY_MIN_def)

text \<open>A tree whose elements are told apart by the comparison.\<close>

definition self_cutting :: "('a \<Rightarrow> 'a \<Rightarrow> int) \<Rightarrow> 'a list \<Rightarrow> bool" where
  "self_cutting cmp xs \<longleftrightarrow> (\<forall>e\<in>set xs. cmp e e = 0 \<and> cuts cmp e xs)"

lemma FOREACH_from_ok:
  assumes "sinorder t = as @ bs" "self_cutting cmp (sinorder t)" "length bs \<le> n"
  shows "\<exists>t'. SPLAY_FOREACH_from n cmp f t (case bs of [] \<Rightarrow> None | b # _ \<Rightarrow> Some b) s = Inr (t', fold f bs s) \<and>
    sinorder t' = sinorder t"
  using assms
proof (induction bs arbitrary: as n t s)
  case (Cons b bs)
  then obtain m where n: "n = Suc m" "length bs \<le> m" by (cases n) auto
  have b: "cuts cmp b (sinorder t)" "cmp b b = 0" using Cons.prems(1,2) by (auto simp: self_cutting_def)
  from SPLAY_NEXT_ok [OF Cons.prems(1) b] obtain t' where
    t': "SPLAY_NEXT cmp t b = Inr (t', case bs of [] \<Rightarrow> None | b # _ \<Rightarrow> Some b)" "sinorder t' = sinorder t" by blast
  from Cons.IH [of t' "as @ [b]" m "f b s"] Cons.prems(1,2) t'(2) n(2) show ?case
    by (simp add: n(1) t'(1))
qed auto

lemma SPLAY_FOREACH_ok:
  assumes "self_cutting cmp (sinorder t)" "length (sinorder t) \<le> n"
  shows "\<exists>t'. SPLAY_FOREACH n cmp f t s = Inr (t', fold f (sinorder t) s) \<and> sinorder t' = sinorder t"
proof -
  from SPLAY_MIN_ok [of t] obtain t' where
    t': "SPLAY_MIN t = Inr (t', case sinorder t of [] \<Rightarrow> None | x # _ \<Rightarrow> Some x)" "sinorder t' = sinorder t" by blast
  from FOREACH_from_ok [of t' "[]" "sinorder t" cmp n f s] assms t' show ?thesis by (simp add: SPLAY_FOREACH_def)
qed

section \<open>The ordered index\<close>

definition splay_del :: "('a \<Rightarrow> 'a \<Rightarrow> int) \<Rightarrow> 'a stree \<Rightarrow> 'a \<Rightarrow> 'a stree res" where
  "splay_del cmp t x = bindR (SPLAY_REMOVE cmp t x) (\<lambda>(t', _). Inr t')"

definition splay_look :: "('a \<Rightarrow> 'a \<Rightarrow> int) \<Rightarrow> 'a stree \<Rightarrow> 'a \<Rightarrow> 'a option" where
  "splay_look cmp t x = (case SPLAY_FIND cmp t x of Inr (_, r) \<Rightarrow> r | Inl _ \<Rightarrow> None)"

lemma filter_eq_cong: "(\<And>y. y \<in> set xs \<Longrightarrow> P y = Q y) \<Longrightarrow> filter P xs = filter Q xs"
  by (rule filter_cong) auto

context key_order
begin

lemma cuts_ascending: "ascending key xs \<Longrightarrow> cuts cmp e xs"
proof (induction xs)
  case (Cons x xs)
  have "cmp e x > 0 \<or> cmp e y < 0" if "y \<in> set xs" for y
  proof -
    have "key x < key y" using Cons.prems that by simp
    then show ?thesis using cmp_less [of e y] cmp_greater [of e x] by (meson linorder_not_less order.strict_trans2)
  qed
  with Cons show ?case by simp
qed simp

lemma find_zero: "find (\<lambda>y. cmp x y = 0) xs = key_in key x xs"
  unfolding key_in_def by (rule arg_cong [where f = "\<lambda>P. find P xs"]) (auto simp: cmp_zero fun_eq_iff)

lemma splay_insert_key:
  assumes "ascending key (sinorder t)"
  shows "\<exists>t'. SPLAY_INSERT cmp t x = Inr (t', key_in key x (sinorder t)) \<and> ascending key (sinorder t') \<and>
    sinorder t' = (if key_in key x (sinorder t) = None then put_in key x (sinorder t) else sinorder t)"
proof -
  from SPLAY_INSERT_ok [OF cuts_ascending [OF assms, of x]] obtain t' where
    t': "SPLAY_INSERT cmp t x = Inr (t', key_in key x (sinorder t))"
    "sinorder t' = (if key_in key x (sinorder t) = None
      then filter (\<lambda>y. cmp x y > 0) (sinorder t) @ x # filter (\<lambda>y. cmp x y < 0) (sinorder t) else sinorder t)"
    by (auto simp: find_zero)
  have "filter (\<lambda>y. cmp x y > 0) (sinorder t) @ x # filter (\<lambda>y. cmp x y < 0) (sinorder t) = put_in key x (sinorder t)"
    by (simp add: put_in_def cmp_less cmp_greater)
  with t' ascending_put_in [OF assms] assms show ?thesis by auto
qed

lemma splay_remove_key:
  assumes "ascending key (sinorder t)"
  shows "\<exists>t'. splay_del cmp t x = Inr t' \<and> ascending key (sinorder t') \<and> sinorder t' = take_out key x (sinorder t)"
proof -
  from SPLAY_REMOVE_ok [OF cuts_ascending [OF assms, of x]] obtain t' r where
    t': "SPLAY_REMOVE cmp t x = Inr (t', r)" "sinorder t' = filter (\<lambda>y. cmp x y \<noteq> 0) (sinorder t)" by blast
  then have "sinorder t' = take_out key x (sinorder t)"
    by (auto simp: take_out_def cmp_zero intro: filter_eq_cong)
  with t' ascending_take_out [OF assms, of x] show ?thesis by (auto simp: splay_del_def)
qed

lemma splay_look_key: "ascending key (sinorder t) \<Longrightarrow> splay_look cmp t x = key_in key x (sinorder t)"
  using SPLAY_FIND_ok [OF cuts_ascending, of t x] by (auto simp: splay_look_def find_zero)

end

sublocale key_order \<subseteq> sp: ordered_index key "\<lambda>t. ascending key (sinorder t)" sinorder SNil
  "SPLAY_INSERT cmp" "splay_del cmp" "splay_look cmp"
  by unfold_locales (use splay_insert_key splay_remove_key splay_look_key in \<open>auto\<close>)

section \<open>Properties\<close>

text \<open>
  C28: The splay tree keeps its elements and their order through the splaying.  Whenever the
  comparison with the sought element cuts the tree in two, SPLAY_FIND, SPLAY_INSERT and
  SPLAY_REMOVE return without a fault: the search finds the element that compares equal, the
  insertion puts the new element between those below and those above it unless one compares equal,
  and the removal takes out exactly that one.
\<close>

theorem SPLAY_operations:
  assumes "cuts cmp e (sinorder t)"
  shows "\<exists>tf ti tr. let found = find (\<lambda>y. cmp e y = 0) (sinorder t) in
     SPLAY_FIND cmp t e = Inr (tf, found) \<and> sinorder tf = sinorder t \<and>
     SPLAY_INSERT cmp t e = Inr (ti, found) \<and>
     sinorder ti = (if found = None
       then filter (\<lambda>y. cmp e y > 0) (sinorder t) @ e # filter (\<lambda>y. cmp e y < 0) (sinorder t) else sinorder t) \<and>
     SPLAY_REMOVE cmp t e = Inr (tr, if found = None then None else Some e) \<and>
     sinorder tr = filter (\<lambda>y. cmp e y \<noteq> 0) (sinorder t)"
  using SPLAY_FIND_ok [OF assms] SPLAY_INSERT_ok [OF assms] SPLAY_REMOVE_ok [OF assms] by (auto simp: Let_def)

definition int_cmp :: "int \<Rightarrow> int \<Rightarrow> int" where
  "int_cmp a b = a - b"

theorem SPLAY_operations_witness:
  "\<exists>ti. SPLAY_INSERT int_cmp (SNode (SNode SNil 2 SNil) 4 SNil) 3 = Inr (ti, None) \<and> sinorder ti = [2, 3, 4]"
  using SPLAY_operations [of int_cmp 3 "SNode (SNode SNil 2 SNil) 4 SNil"]
  by (auto simp: int_cmp_def Let_def)

end
