(* ===== verification/Slabmem.thy ===== *)
theory Slabmem
  imports PageAlloc Bitstring Vector Htable Splay
begin

text \<open>
  The persistent data structures of \<^verbatim>\<open>src/src/slabInt.h\<close> and \<^verbatim>\<open>src/src/cont.h\<close> and the memory they
  live in.  A page of the container file holds the bytes of user objects or one structure; a page
  of zeroes can be read as any of them.  The address of a structure is the address of its page, the
  address of a slab entry lies in its bucket's page.  The links of the volatile indexes, which the C
  code keeps inside the entries, are in a link store of the process (\<^verbatim>\<open>se_list\<close>) and in the tree
  values of the directory (\<^verbatim>\<open>se_splay\<close>); a copy of a page copies the values, and the code never
  follows the links of a copy before it has built them again.

  The operations are functions on the state of the process that may fail.  A store to a page that
  is mapped read-only raises SIGSEGV; \<^verbatim>\<open>raw_touch\<close> is the store inside the signal handler, where a
  second fault kills the process.
\<close>

section \<open>The structures\<close>

record slab_data =
  d_maddr :: nat
  d_laddr :: nat
  d_bitmap :: u8

record slab_pref =
  p_idx :: u16
  p_maddr :: nat
  p_laddr :: nat

record slab_entry =
  se_id :: nat
  se_size :: nat
  se_cur :: slab_data
  se_snap :: slab_data
  ptr_cur :: slab_pref
  ptr_snap :: slab_pref

record slab_bucket =
  sb_has_snapshot :: bool
  sb_id :: nat
  sb_entries :: "slab_entry list"

record plink =
  l_maddr :: nat
  l_laddr :: nat

record slab_node =
  node_index :: nat
  node_current :: "plink list"
  node_snapshot :: "plink list"

type_synonym slab_inner = slab_node
type_synonym slab_outer = slab_node

record slab_dir =
  sd_index :: nat
  sd_maddr_root :: "nat rbt"
  sd_size_root :: "nat rbt"
  sd_cont_root :: u64
  sd_current :: "plink list"
  sd_snapshot :: "plink list"
  sd_vector :: "nat vector"

record ptr_meta =
  ploc_offset :: u16
  pval_seid :: u32
  pval_offset :: u16

type_synonym slab_ptr = "ptr_meta list"

record container =
  c_id :: nat
  c_pg_allocator :: bool
  c_current_slab :: plink
  c_snapshot_slab :: plink
  c_flags :: u8

text \<open>The nodes of the list of pointers of \<^verbatim>\<open>fixptr.h\<close>; an inode keeps the two versions of its data nodes.\<close>

record pptr =
  pp_loc_offset :: u16
  pp_loc_seid :: u32
  pp_val_offset :: u16
  pp_val_seid :: u32

record pptr_dnode =
  pdn_index :: nat
  pdn_entries :: "pptr list"

record pptr_inode =
  pin_current_idx :: nat
  pin_next :: plink
  pin_current :: "plink list"
  pin_snapshot :: "plink list"

datatype page =
    PZero
  | PData "nat \<Rightarrow> u8"
  | PDir slab_dir
  | POuter slab_node
  | PInner slab_node
  | PBucket slab_bucket
  | PPtr "ptr_meta list"
  | PCont container
  | PInode pptr_inode
  | PDnode pptr_dnode

definition SLAB_ENTRY_SIZE :: nat where "SLAB_ENTRY_SIZE = 144"
definition SLAB_BUCKET_ENTRIES :: nat where "SLAB_BUCKET_ENTRIES = (PAGE_SIZE - 4) div SLAB_ENTRY_SIZE"
definition SLAB_INNER_ENTRIES :: nat where "SLAB_INNER_ENTRIES = (PAGE_SIZE - 4) div (2 * (8 + 8))"
definition SLAB_OUTER_ENTRIES :: nat where "SLAB_OUTER_ENTRIES = (PAGE_SIZE - 4) div (2 * (8 + 8))"
definition SLAB_DIR_MEMSIZE :: nat where "SLAB_DIR_MEMSIZE = 4 + 3 * 8 + 3 * 8 + 2 * 8 + 24 + 8"
definition SLAB_DIR_ENTRIES :: nat where "SLAB_DIR_ENTRIES = (PAGE_SIZE - SLAB_DIR_MEMSIZE) div (2 * (8 + 8))"
definition SLAB_LARGE_ALLOC :: nat where "SLAB_LARGE_ALLOC = 512"

definition SLAB_INNER_FULL :: "slab_node \<Rightarrow> bool" where "SLAB_INNER_FULL p \<longleftrightarrow> node_index p = SLAB_INNER_ENTRIES"
definition SLAB_OUTER_FULL :: "slab_node \<Rightarrow> bool" where "SLAB_OUTER_FULL p \<longleftrightarrow> node_index p = SLAB_OUTER_ENTRIES"
definition SLAB_DIR_FULL :: "slab_dir \<Rightarrow> bool" where "SLAB_DIR_FULL p \<longleftrightarrow> sd_index p = SLAB_DIR_ENTRIES"

text \<open>The elements of slab_ptr that lie in its page; the array is declared with 512 of 12 bytes each.\<close>

definition SLAB_PTR_SIZE :: nat where "SLAB_PTR_SIZE = PAGE_SIZE div (2 * 2 + 4)"
definition PTR_ELEM_SIZE :: nat where "PTR_ELEM_SIZE = 12"
definition PTRS_IN_PAGE :: nat where "PTRS_IN_PAGE = PAGE_SIZE div PTR_ELEM_SIZE"

definition zero_data :: slab_data where "zero_data = \<lparr>d_maddr = 0, d_laddr = 0, d_bitmap = 0\<rparr>"
definition zero_pref :: slab_pref where "zero_pref = \<lparr>p_idx = 0, p_maddr = 0, p_laddr = 0\<rparr>"
definition zero_entry :: slab_entry where
  "zero_entry = \<lparr>se_id = 0, se_size = 0, se_cur = zero_data, se_snap = zero_data, ptr_cur = zero_pref, ptr_snap = zero_pref\<rparr>"
definition zero_bucket :: slab_bucket where
  "zero_bucket = \<lparr>sb_has_snapshot = False, sb_id = 0, sb_entries = replicate SLAB_BUCKET_ENTRIES zero_entry\<rparr>"
definition zero_link :: plink where "zero_link = \<lparr>l_maddr = 0, l_laddr = 0\<rparr>"
definition zero_inner :: slab_node where
  "zero_inner = \<lparr>node_index = 0, node_current = replicate SLAB_INNER_ENTRIES zero_link, node_snapshot = replicate SLAB_INNER_ENTRIES zero_link\<rparr>"
definition zero_outer :: slab_node where
  "zero_outer = \<lparr>node_index = 0, node_current = replicate SLAB_OUTER_ENTRIES zero_link, node_snapshot = replicate SLAB_OUTER_ENTRIES zero_link\<rparr>"
definition zero_dir :: slab_dir where
  "zero_dir = \<lparr>sd_index = 0, sd_maddr_root = RNil, sd_size_root = RNil, sd_cont_root = 0,
     sd_current = replicate SLAB_DIR_ENTRIES zero_link, sd_snapshot = replicate SLAB_DIR_ENTRIES zero_link,
     sd_vector = \<lparr>capacity = 0, vsize = 0, buffer = []\<rparr>\<rparr>"
definition zero_meta :: ptr_meta where "zero_meta = \<lparr>ploc_offset = 0, pval_seid = 0, pval_offset = 0\<rparr>"
definition zero_cont :: container where
  "zero_cont = \<lparr>c_id = 0, c_pg_allocator = False, c_current_slab = zero_link, c_snapshot_slab = zero_link, c_flags = 0\<rparr>"

definition SLAB_ENTRY_IS_INIT :: "slab_entry \<Rightarrow> bool" where
  "SLAB_ENTRY_IS_INIT se \<longleftrightarrow> se_size se \<noteq> 0 \<or> d_maddr (se_cur se) \<noteq> 0"

text \<open>Capacity and offset of the objects in a data page; both divide by the size.\<close>

definition SLAB_ENTRY_CAPACITY :: "slab_entry \<Rightarrow> nat res" where
  "SLAB_ENTRY_CAPACITY se =
     (if se_size se = 0 then Inl (Undefined ''division by zero'')
      else if se_size se < SLAB_LARGE_ALLOC then Inr ((PAGE_SIZE - bitstr_size (se_size se)) div se_size se)
      else Inr (PAGE_SIZE div se_size se))"

definition SLAB_ENTRY_DATAOFFSET :: "slab_entry \<Rightarrow> nat res" where
  "SLAB_ENTRY_DATAOFFSET se =
     (if se_size se \<ge> SLAB_LARGE_ALLOC then Inr 0
      else if se_size se = 0 then Inl (Undefined ''division by zero'')
      else Inr (bitstr_size (PAGE_SIZE div se_size se)))"

section \<open>The process\<close>

text \<open>
  The heap of slab_entry_size structures holds their sizes; the lists of entries are in the link
  store, with the head \<^verbatim>\<open>2 * es + 1\<close> for the list of \<^verbatim>\<open>es\<close> and \<^verbatim>\<open>2 * sd\<close> for the free list of the
  directory at \<^verbatim>\<open>sd\<close>.  \<^verbatim>\<open>w_mem\<close> is the memory of the process outside the container.  The last fields
  are the global variables of the closure; the nodes of its splay tree are numbers of a heap.
\<close>

record mallocat_entry =
  me_addr :: nat
  me_size :: nat
  me_paddr :: nat
  me_ptrs :: "nat vector"

record world =
  w_os :: "page os"
  w_pa :: pa_handler
  w_cont :: nat
  w_next_sb :: nat
  w_next_se :: nat
  w_do_fixptrs :: bool
  w_do_insert :: bool
  w_copynswap :: bool
  w_do_closure :: bool
  w_es :: "nat \<Rightarrow> nat"
  w_next_es :: nat
  w_links :: qstore
  w_mem :: "nat \<Rightarrow> u8"
  ht_pointerat :: "htable option"
  ht_mallocat :: "htable option"
  pptr_vec :: "nat vector"
  mallocat_tree :: "nat stree"
  w_me :: "nat \<Rightarrow> mallocat_entry"
  w_next_me :: nat

type_synonym 'a M = "world \<Rightarrow> ('a \<times> world) res"

definition retM :: "'a \<Rightarrow> 'a M" where "retM x w = Inr (x, w)"
definition errM :: "fail \<Rightarrow> 'a M" where "errM e w = Inl e"
definition bindM :: "'a M \<Rightarrow> ('a \<Rightarrow> 'b M) \<Rightarrow> 'b M" where
  "bindM m f w = bindR (m w) (\<lambda>(x, w). f x w)"
definition thenM :: "'a M \<Rightarrow> 'b M \<Rightarrow> 'b M" where "thenM m k = bindM m (\<lambda>_. k)"
definition getM :: "(world \<Rightarrow> 'a) \<Rightarrow> 'a M" where "getM f w = Inr (f w, w)"
definition modM :: "(world \<Rightarrow> world) \<Rightarrow> unit M" where "modM f w = Inr ((), f w)"
definition liftM :: "'a res \<Rightarrow> 'a M" where "liftM r w = bindR r (\<lambda>x. Inr (x, w))"
definition ifM :: "bool \<Rightarrow> unit M \<Rightarrow> unit M" where "ifM b m = (if b then m else retM ())"

fun eachM :: "('a \<Rightarrow> unit M) \<Rightarrow> 'a list \<Rightarrow> unit M" where
  "eachM f [] = retM ()"
| "eachM f (x # xs) = thenM (f x) (eachM f xs)"

lemma runM [simp]:
  "retM x w = Inr (x, w)" "errM e w = Inl e" "getM f w = Inr (f w, w)" "modM g w = Inr ((), g w)"
  "liftM (Inr x) w = Inr (x, w)" "liftM (Inl e) w = Inl e" "ifM True m = m" "ifM False m = retM ()"
  by (simp_all add: retM_def errM_def getM_def modM_def liftM_def ifM_def)

lemma bindM_Inr: "bindM m f w = Inr r \<longleftrightarrow> (\<exists>x w1. m w = Inr (x, w1) \<and> f x w1 = Inr r)"
  by (auto simp: bindM_def bindR_Inr_iff)

lemma bindM_step: "m w = Inr (x, w1) \<Longrightarrow> bindM m f w = f x w1"
  by (simp add: bindM_def)

lemma bindM_retM [simp]: "bindM (retM x) f = f x"
  by (auto simp: bindM_def fun_eq_iff)

lemma bindM_getM [simp]: "bindM (getM g) f = (\<lambda>w. f (g w) w)"
  by (auto simp: bindM_def fun_eq_iff)

lemma bindM_modM [simp]: "bindM (modM h) f = (\<lambda>w. f () (h w))"
  by (auto simp: bindM_def fun_eq_iff)

lemma bindM_errM [simp]: "bindM (errM e) f = errM e"
  by (auto simp: bindM_def fun_eq_iff)

lemma bindM_assoc [simp]: "bindM (bindM m f) g = bindM m (\<lambda>x. bindM (f x) g)"
  by (auto simp: bindM_def bindR_def fun_eq_iff split: sum.split)

lemma thenM_Inr: "thenM m k w = Inr r \<longleftrightarrow> (\<exists>x w1. m w = Inr (x, w1) \<and> k w1 = Inr r)"
  by (simp add: thenM_def bindM_Inr)

lemma thenM_step: "m w = Inr (x, w1) \<Longrightarrow> thenM m k w = k w1"
  by (simp add: thenM_def bindM_step)

lemma thenM_retM [simp]: "thenM (retM x) k = k"
  by (simp add: thenM_def)

lemma returned [simp]: "thenM (\<lambda>w. Inr (x, w)) k = k" "bindM (\<lambda>w. Inr (x, w)) f = f x"
  by (simp_all add: thenM_def bindM_def fun_eq_iff)

lemma thenM_modM [simp]: "thenM (modM h) k = (\<lambda>w. k (h w))"
  by (simp add: thenM_def)

lemma thenM_errM [simp]: "thenM (errM e) k = errM e"
  by (simp add: thenM_def)

lemma thenM_assoc [simp]: "thenM (thenM m m') k = thenM m (thenM m' k)"
  by (simp add: thenM_def)

lemma bindM_thenM [simp]: "bindM (thenM m k) f = thenM m (bindM k f)"
  by (simp add: thenM_def)

lemma eachM_append: "eachM f (xs @ ys) = thenM (eachM f xs) (eachM f ys)"
  by (induction xs) auto

section \<open>Page allocator and statistics\<close>

definition statM :: "counter \<Rightarrow> unit M" where
  "statM c = modM (\<lambda>w. w\<lparr>w_os := stat (INC_BOTH c) (w_os w)\<rparr>)"

definition getpage :: "nat \<Rightarrow> (nat \<times> nat) M" where
  "getpage flags w = bindR (page_allocator_getpage (w_pa w) flags (w_os w))
     (\<lambda>(al, pa, os). Inr (al, w\<lparr>w_pa := pa, w_os := os\<rparr>))"

definition freepage :: "nat \<Rightarrow> unit M" where
  "freepage a w = bindR (page_allocator_freepages (w_pa w) a (w_os w))
     (\<lambda>(pa, os). Inr ((), w\<lparr>w_pa := pa, w_os := os\<rparr>))"

definition mprotectM :: "nat \<Rightarrow> nat \<Rightarrow> nat \<Rightarrow> unit M" where
  "mprotectM a n flags w = bindR (page_allocator_mprotect (w_pa w) a n flags (w_os w)) (\<lambda>os. Inr ((), w\<lparr>w_os := os\<rparr>))"

definition mappage :: "nat \<Rightarrow> nat M" where
  "mappage laddr = getM (\<lambda>w. page_allocator_mappage (w_pa w) laddr)"

definition swapM :: "nat \<Rightarrow> nat \<Rightarrow> nat \<Rightarrow> nat \<Rightarrow> unit M" where
  "swapM xaddr ypgoff yaddr xpgoff w =
     bindR (page_allocator_swap_mappings (w_pa w) xaddr ypgoff yaddr xpgoff (w_os w))
       (\<lambda>(pa, os). Inr ((), w\<lparr>w_pa := pa, w_os := os\<rparr>))"

section \<open>Loads and stores\<close>

definition page_of :: "nat \<Rightarrow> page M" where
  "page_of a w =
     (case os_vm (w_os w) (vpn a) of
        Some k \<Rightarrow> Inr (os_pages (w_os w) k, w)
      | None \<Rightarrow> if os_other (w_os w) (vpn a) then Inl (Undefined ''not a page of the container'') else Inl (Segv a))"

definition raw_touch :: "nat \<Rightarrow> unit M" where
  "raw_touch a w =
     (case os_vm (w_os w) (vpn a) of
        Some k \<Rightarrow> if writable (os_prot (w_os w) (vpn a)) then Inr ((), w) else Inl (Segv a)
      | None \<Rightarrow> Inl (Segv a))"

text \<open>The store itself, to a page that has been found writable.\<close>

definition poke :: "nat \<Rightarrow> page \<Rightarrow> unit M" where
  "poke a p w =
     (case os_vm (w_os w) (vpn a) of
        Some k \<Rightarrow> Inr ((), w\<lparr>w_os := (w_os w)\<lparr>os_pages := (os_pages (w_os w))(k := p)\<rparr>\<rparr>)
      | None \<Rightarrow> Inl (Segv a))"

definition bad_page :: "'a M" where "bad_page = errM (Undefined ''the page holds another structure'')"

definition rd_dir :: "nat \<Rightarrow> slab_dir M" where
  "rd_dir a = bindM (page_of a) (\<lambda>p. case p of PDir d \<Rightarrow> retM d | PZero \<Rightarrow> retM zero_dir | _ \<Rightarrow> bad_page)"
definition rd_outer :: "nat \<Rightarrow> slab_node M" where
  "rd_outer a = bindM (page_of a) (\<lambda>p. case p of POuter d \<Rightarrow> retM d | PZero \<Rightarrow> retM zero_outer | _ \<Rightarrow> bad_page)"
definition rd_inner :: "nat \<Rightarrow> slab_node M" where
  "rd_inner a = bindM (page_of a) (\<lambda>p. case p of PInner d \<Rightarrow> retM d | PZero \<Rightarrow> retM zero_inner | _ \<Rightarrow> bad_page)"
definition rd_bucket :: "nat \<Rightarrow> slab_bucket M" where
  "rd_bucket a = bindM (page_of a) (\<lambda>p. case p of PBucket d \<Rightarrow> retM d | PZero \<Rightarrow> retM zero_bucket | _ \<Rightarrow> bad_page)"
definition rd_ptrs :: "nat \<Rightarrow> ptr_meta list M" where
  "rd_ptrs a = bindM (page_of a) (\<lambda>p. case p of PPtr d \<Rightarrow> retM d | PZero \<Rightarrow> retM (replicate PTRS_IN_PAGE zero_meta) | _ \<Rightarrow> bad_page)"
definition rd_cont :: "nat \<Rightarrow> container M" where
  "rd_cont a = bindM (page_of a) (\<lambda>p. case p of PCont d \<Rightarrow> retM d | PZero \<Rightarrow> retM zero_cont | _ \<Rightarrow> bad_page)"
definition rd_data :: "nat \<Rightarrow> (nat \<Rightarrow> u8) M" where
  "rd_data a = bindM (page_of a) (\<lambda>p. case p of PData d \<Rightarrow> retM d | PZero \<Rightarrow> retM (\<lambda>_. 0) | _ \<Rightarrow> bad_page)"

text \<open>
  An update of a structure in place: the store faults or not (\<^verbatim>\<open>t\<close> is the touch of the context,
  inside or outside the signal handler), then the fields are read, changed and written.
\<close>

definition up_dir :: "(nat \<Rightarrow> unit M) \<Rightarrow> nat \<Rightarrow> (slab_dir \<Rightarrow> slab_dir) \<Rightarrow> unit M" where
  "up_dir t a f = thenM (t a) (bindM (rd_dir a) (\<lambda>d. poke a (PDir (f d))))"
definition up_outer :: "(nat \<Rightarrow> unit M) \<Rightarrow> nat \<Rightarrow> (slab_node \<Rightarrow> slab_node) \<Rightarrow> unit M" where
  "up_outer t a f = thenM (t a) (bindM (rd_outer a) (\<lambda>d. poke a (POuter (f d))))"
definition up_inner :: "(nat \<Rightarrow> unit M) \<Rightarrow> nat \<Rightarrow> (slab_node \<Rightarrow> slab_node) \<Rightarrow> unit M" where
  "up_inner t a f = thenM (t a) (bindM (rd_inner a) (\<lambda>d. poke a (PInner (f d))))"
definition up_bucket :: "(nat \<Rightarrow> unit M) \<Rightarrow> nat \<Rightarrow> (slab_bucket \<Rightarrow> slab_bucket) \<Rightarrow> unit M" where
  "up_bucket t a f = thenM (t a) (bindM (rd_bucket a) (\<lambda>d. poke a (PBucket (f d))))"
definition up_cont :: "(nat \<Rightarrow> unit M) \<Rightarrow> nat \<Rightarrow> (container \<Rightarrow> container) \<Rightarrow> unit M" where
  "up_cont t a f = thenM (t a) (bindM (rd_cont a) (\<lambda>d. poke a (PCont (f d))))"
definition up_ptrs :: "(nat \<Rightarrow> unit M) \<Rightarrow> nat \<Rightarrow> (ptr_meta list \<Rightarrow> ptr_meta list) \<Rightarrow> unit M" where
  "up_ptrs t a f = thenM (t a) (bindM (rd_ptrs a) (\<lambda>d. poke a (PPtr (f d))))"
definition up_data :: "(nat \<Rightarrow> unit M) \<Rightarrow> nat \<Rightarrow> ((nat \<Rightarrow> u8) \<Rightarrow> nat \<Rightarrow> u8) \<Rightarrow> unit M" where
  "up_data t a f = thenM (t a) (bindM (rd_data a) (\<lambda>d. poke a (PData (f d))))"

text \<open>An array cell: reading outside the array is undefined.\<close>

definition cellM :: "'a list \<Rightarrow> nat \<Rightarrow> 'a M" where
  "cellM xs i = (if i < length xs then retM (xs ! i) else errM (Undefined ''index outside the array''))"

section \<open>Slab entries\<close>

definition page_base :: "nat \<Rightarrow> nat" where "page_base a = a div PAGE_SIZE * PAGE_SIZE"

definition se_addr :: "nat \<Rightarrow> nat \<Rightarrow> nat" where "se_addr sb i = sb + 8 + i * SLAB_ENTRY_SIZE"

definition SLAB_ENTRY_INDEX :: "nat \<Rightarrow> nat" where
  "SLAB_ENTRY_INDEX a = (a - a div PAGE_SIZE * PAGE_SIZE) div SLAB_ENTRY_SIZE"

definition se_index :: "nat \<Rightarrow> nat" where "se_index a = (a mod PAGE_SIZE - 8) div SLAB_ENTRY_SIZE"

definition rd_se :: "nat \<Rightarrow> slab_entry M" where
  "rd_se a = (if a = 0 then errM (Segv 0) else bindM (rd_bucket (page_base a)) (\<lambda>b. cellM (sb_entries b) (se_index a)))"

definition up_se :: "(nat \<Rightarrow> unit M) \<Rightarrow> nat \<Rightarrow> (slab_entry \<Rightarrow> slab_entry) \<Rightarrow> unit M" where
  "up_se t a f = (if a = 0 then errM (Segv 0) else
     up_bucket t (page_base a) (\<lambda>b. b\<lparr>sb_entries := (sb_entries b)[se_index a := f (sb_entries b ! se_index a)]\<rparr>))"

section \<open>Flushes\<close>

definition flushes :: "nat \<Rightarrow> unit M" where
  "flushes n = modM (\<lambda>w. w\<lparr>w_os := (stat (INC_BOTH Cpu_cache_flushes) ^^ n) (w_os w)\<rparr>)"

text \<open>The number of cache lines from \<^verbatim>\<open>low\<close> to \<^verbatim>\<open>high\<close>, one flush each.\<close>

definition flush_memsegment :: "nat \<Rightarrow> nat \<Rightarrow> unit M" where
  "flush_memsegment src n =
     (let low = src div CACHE_LINE_SIZE * CACHE_LINE_SIZE;
          high = (src + n + (CACHE_LINE_SIZE - 1)) div CACHE_LINE_SIZE * CACHE_LINE_SIZE
      in flushes ((high - low) div CACHE_LINE_SIZE))"

text \<open>atomic_set: the store (of the context) and one flush with a fence.\<close>

definition atomic_set :: "unit M \<Rightarrow> unit M" where
  "atomic_set store = thenM store (flushes 1)"

text \<open>
  memcpy between two pages: the sizes the slab copies are rounded up to a page, so the whole page is
  copied, or nothing when the size is 0.
\<close>

definition memcpy_page :: "(nat \<Rightarrow> unit M) \<Rightarrow> nat \<Rightarrow> nat \<Rightarrow> nat \<Rightarrow> unit M" where
  "memcpy_page t dest src n =
     (if n = 0 then retM ()
      else if n = PAGE_SIZE then bindM (page_of src) (\<lambda>p. thenM (t dest) (poke dest p))
      else errM (Undefined ''copy of several pages''))"

definition pmemcpy :: "(nat \<Rightarrow> unit M) \<Rightarrow> nat \<Rightarrow> nat \<Rightarrow> nat \<Rightarrow> unit M" where
  "pmemcpy t dest src n = thenM (memcpy_page t dest src n) (flush_memsegment dest n)"

definition ROUNDPG_nat :: "nat \<Rightarrow> nat" where
  "ROUNDPG_nat n = (n + (PAGE_SIZE - 1)) div PAGE_SIZE * PAGE_SIZE"

end
