(* ===== verification/Memlogic.thy ===== *)
theory Memlogic
  imports Slabmem
begin

text \<open>
  Total correctness of the operations on the pages of the container.  \<^verbatim>\<open>ends P m Q\<close>: from a state in
  \<^verbatim>\<open>P\<close>, \<^verbatim>\<open>m\<close> returns and its result and state are in \<^verbatim>\<open>Q\<close>.  The assertion \<^verbatim>\<open>mem U c pr k r\<close> describes
  a process whose page allocator is in order: \<^verbatim>\<open>U\<close> are the pages in use, \<^verbatim>\<open>c\<close> their contents, \<^verbatim>\<open>pr\<close>
  their protection, \<^verbatim>\<open>k\<close> the number of free pages, \<^verbatim>\<open>r\<close> the other fields of the process; with
  \<^verbatim>\<open>memz True\<close> the free pages are also as in a new file, zero and read-only.  Each
  operation has a rule that computes the assertion after it; the rules rest on the interface
  \<^verbatim>\<open>page_store\<close> of the page allocator.
\<close>

section \<open>Total correctness\<close>

definition ends :: "(world \<Rightarrow> bool) \<Rightarrow> 'a M \<Rightarrow> ('a \<Rightarrow> world \<Rightarrow> bool) \<Rightarrow> bool" where
  "ends P m Q \<longleftrightarrow> (\<forall>w. P w \<longrightarrow> (\<exists>x w'. m w = Inr (x, w') \<and> Q x w'))"

lemma endsD: "ends P m Q \<Longrightarrow> P w \<Longrightarrow> \<exists>x w'. m w = Inr (x, w') \<and> Q x w'"
  by (simp add: ends_def)

lemma total_ret: "(\<And>w. P w \<Longrightarrow> Q x w) \<Longrightarrow> ends P (retM x) Q"
  by (simp add: ends_def)

lemma total_bind: "ends P m R \<Longrightarrow> (\<And>x. ends (R x) (f x) Q) \<Longrightarrow> ends P (bindM m f) Q"
  unfolding ends_def bindM_Inr by fast

lemma total_then: "ends P m (\<lambda>_. R) \<Longrightarrow> ends R k Q \<Longrightarrow> ends P (thenM m k) Q"
  unfolding thenM_def by (rule total_bind)

lemma total_conseq: "ends P m Q \<Longrightarrow> (\<And>w. P' w \<Longrightarrow> P w) \<Longrightarrow> (\<And>x w. Q x w \<Longrightarrow> Q' x w) \<Longrightarrow> ends P' m Q'"
  unfolding ends_def by blast

lemma total_ex: "(\<And>y. ends (P y) m Q) \<Longrightarrow> ends (\<lambda>w. \<exists>y. P y w) m Q"
  unfolding ends_def by blast

lemma total_if: "(b \<Longrightarrow> ends P m Q) \<Longrightarrow> (\<not> b \<Longrightarrow> ends P n Q) \<Longrightarrow> ends P (if b then m else n) Q"
  by simp

lemma total_each:
  assumes "\<And>i. i < length xs \<Longrightarrow> ends (I i) (f (xs ! i)) (\<lambda>_. I (Suc i))"
  shows "ends (I 0) (eachM f xs) (\<lambda>_. I (length xs))"
  using assms
proof (induction xs arbitrary: I)
  case Nil
  then show ?case by (simp add: ends_def)
next
  case (Cons x xs)
  have "ends (I 0) (f x) (\<lambda>_. I (Suc 0))" using Cons.prems [of 0] by simp
  moreover have "ends (I (Suc 0)) (eachM f xs) (\<lambda>_. I (Suc (length xs)))"
    using Cons.IH [of "\<lambda>i. I (Suc i)"] Cons.prems [of "Suc _"] by simp
  ultimately show ?case by (auto intro: total_then)
qed

section \<open>The pages of the container\<close>

definition rest :: "world \<Rightarrow> world" where
  "rest w = w\<lparr>w_pa := undefined, w_os := undefined\<rparr>"

definition untouched :: "world \<Rightarrow> bool" where
  "untouched w \<longleftrightarrow>
     (\<forall>j. (\<forall>a\<in>pa_in_use (w_pa w, w_os w). os_vm (w_os w) (vpn a) \<noteq> Some j) \<longrightarrow> os_pages (w_os w) j = PZero) \<and>
     (\<forall>v. (\<forall>a\<in>pa_in_use (w_pa w, w_os w). os_vm (w_os w) (vpn a) \<noteq> os_vm (w_os w) v) \<longrightarrow>
        os_vm (w_os w) v \<noteq> None \<longrightarrow> os_prot (w_os w) v = PA_PROT_READ)"

definition memz :: "bool \<Rightarrow> nat set \<Rightarrow> (nat \<Rightarrow> page) \<Rightarrow> (nat \<Rightarrow> nat) \<Rightarrow> nat \<Rightarrow> world \<Rightarrow> world \<Rightarrow> bool" where
  "memz z U c pr k r w \<longleftrightarrow>
     pa_inv (w_pa w, w_os w) \<and> pa_in_use (w_pa w, w_os w) = U \<and> pa_spare (w_pa w, w_os w) = k \<and> rest w = r \<and>
     (\<forall>a\<in>U. page_at (w_os w) a = Some (c a) \<and> os_prot (w_os w) (vpn a) = pr a) \<and> (z \<longrightarrow> untouched w)"

abbreviation mem :: "nat set \<Rightarrow> (nat \<Rightarrow> page) \<Rightarrow> (nat \<Rightarrow> nat) \<Rightarrow> nat \<Rightarrow> world \<Rightarrow> world \<Rightarrow> bool" where
  "mem \<equiv> memz False"

lemma mem_def:
  "mem U c pr k r w \<longleftrightarrow>
     pa_inv (w_pa w, w_os w) \<and> pa_in_use (w_pa w, w_os w) = U \<and> pa_spare (w_pa w, w_os w) = k \<and> rest w = r \<and>
     (\<forall>a\<in>U. page_at (w_os w) a = Some (c a) \<and> os_prot (w_os w) (vpn a) = pr a)"
  by (simp add: memz_def)

lemma memz_mem: "memz z U c pr k r w \<Longrightarrow> mem U c pr k r w"
  by (simp add: memz_def)

lemma page_base_vpn: "vpn (page_base a) = vpn a"
  by (simp add: vpn_def page_base_def PAGE_SIZE_def)

lemma page_base_page: "page_base (page_base a) = page_base a"
  by (simp add: page_base_def PAGE_SIZE_def)

lemma page_base_dvd: "PAGE_SIZE dvd a \<Longrightarrow> page_base a = a"
  by (simp add: page_base_def)

lemma mem_page:
  assumes "memz z U c pr k r w" "a \<in> U"
  shows "page_base a = a" "0 < a" "PAGE_SIZE dvd a" "\<exists>n. os_vm (w_os w) (vpn a) = Some n \<and> os_pages (w_os w) n = c a"
    "os_prot (w_os w) (vpn a) = pr a" "page_at (w_os w) a = Some (c a)"
proof -
  have "pa_inv (w_pa w, w_os w)" "a \<in> pa_in_use (w_pa w, w_os w)" using assms by (auto simp: memz_def)
  from pas.in_use_mapped [OF this] show "page_base a = a" "0 < a" "PAGE_SIZE dvd a" by (auto simp: page_base_dvd)
  from assms show "page_at (w_os w) a = Some (c a)" "os_prot (w_os w) (vpn a) = pr a" by (auto simp: memz_def)
  from this(1) show "\<exists>n. os_vm (w_os w) (vpn a) = Some n \<and> os_pages (w_os w) n = c a"
    by (auto simp: page_at_def)
qed

lemma mem_frame:
  assumes "memz z U c pr k r w" "a \<in> U" "b \<in> U" "os_vm (w_os w) (vpn a) = os_vm (w_os w) (vpn b)"
  shows "a = b"
  using assms pas.frame_inj [of "(w_pa w, w_os w)" a b] by (simp add: memz_def pa_frame_def)

lemma mem_vpn:
  assumes "memz z U c pr k r w" "a \<in> U" "b \<in> U" "vpn a = vpn b"
  shows "a = b"
  using mem_frame [OF assms(1-3)] assms(4) by simp

text \<open>Reading a page.\<close>

lemma page_of_ok:
  assumes "memz z U c pr k r w" "page_base a \<in> U"
  shows "page_of a w = Inr (c (page_base a), w)"
proof -
  obtain n where "os_vm (w_os w) (vpn (page_base a)) = Some n" "os_pages (w_os w) n = c (page_base a)"
    using mem_page(4) [OF assms] by blast
  then show ?thesis by (simp add: page_of_def page_base_vpn)
qed

lemma total_read:
  assumes "\<And>w. memz z U c pr k r w \<Longrightarrow> m w = Inr (x, w)" and "ends (memz z U c pr k r) (f x) Q"
  shows "ends (memz z U c pr k r) (bindM m f) Q"
  using assms unfolding ends_def by (metis bindM_step)

section \<open>Typed pages\<close>

fun as_dir :: "page \<Rightarrow> slab_dir option" where
  "as_dir (PDir d) = Some d" | "as_dir PZero = Some zero_dir" | "as_dir _ = None"
fun as_outer :: "page \<Rightarrow> slab_node option" where
  "as_outer (POuter d) = Some d" | "as_outer PZero = Some zero_outer" | "as_outer _ = None"
fun as_inner :: "page \<Rightarrow> slab_node option" where
  "as_inner (PInner d) = Some d" | "as_inner PZero = Some zero_inner" | "as_inner _ = None"
fun as_bucket :: "page \<Rightarrow> slab_bucket option" where
  "as_bucket (PBucket d) = Some d" | "as_bucket PZero = Some zero_bucket" | "as_bucket _ = None"
fun as_cont :: "page \<Rightarrow> container option" where
  "as_cont (PCont d) = Some d" | "as_cont PZero = Some zero_cont" | "as_cont _ = None"
fun as_data :: "page \<Rightarrow> (nat \<Rightarrow> u8) option" where
  "as_data (PData d) = Some d" | "as_data PZero = Some (\<lambda>_. 0)" | "as_data _ = None"

lemma rd_ok:
  assumes "memz z U c pr k r w" "page_base a \<in> U"
  shows "as_dir (c (page_base a)) = Some d1 \<Longrightarrow> rd_dir a w = Inr (d1, w)"
    and "as_outer (c (page_base a)) = Some d2 \<Longrightarrow> rd_outer a w = Inr (d2, w)"
    and "as_inner (c (page_base a)) = Some d3 \<Longrightarrow> rd_inner a w = Inr (d3, w)"
    and "as_bucket (c (page_base a)) = Some d4 \<Longrightarrow> rd_bucket a w = Inr (d4, w)"
    and "as_cont (c (page_base a)) = Some d5 \<Longrightarrow> rd_cont a w = Inr (d5, w)"
    and "as_data (c (page_base a)) = Some d6 \<Longrightarrow> rd_data a w = Inr (d6, w)"
  by (cases "c (page_base a)"; simp add: rd_dir_def rd_outer_def rd_inner_def rd_bucket_def rd_cont_def rd_data_def
        bindM_def page_of_ok [OF assms])+

section \<open>Stores\<close>

definition put :: "nat \<Rightarrow> page \<Rightarrow> world \<Rightarrow> world" where
  "put a p w = w\<lparr>w_os := (w_os w)\<lparr>os_pages := (os_pages (w_os w))(the (os_vm (w_os w) (vpn a)) := p)\<rparr>\<rparr>"

lemma poke_ok:
  assumes m: "memz z U c pr k r w" and a: "page_base a \<in> U"
  shows "poke a p w = Inr ((), put a p w) \<and> memz z U (c(page_base a := p)) pr k r (put a p w)"
proof
  obtain n where n: "os_vm (w_os w) (vpn a) = Some n" using mem_page(4) [OF m a] by (auto simp: page_base_vpn)
  show "poke a p w = Inr ((), put a p w)" using n by (simp add: poke_def put_def)
  have "page_at (w_os (put a p w)) b = Some ((c(page_base a := p)) b)" if b: "b \<in> U" for b
  proof (cases "b = page_base a")
    case True
    then show ?thesis using n by (simp add: put_def page_at_def page_base_vpn)
  next
    case False
    obtain q where q: "os_vm (w_os w) (vpn b) = Some q" "os_pages (w_os w) q = c b" using mem_page(4) [OF m b] by blast
    have "q \<noteq> n" using mem_frame [OF m b a] False q n by (auto simp: page_base_vpn)
    then show ?thesis using False q n by (simp add: put_def page_at_def)
  qed
  moreover have "untouched (put a p w)" if "untouched w"
    using that m a n by (auto simp: untouched_def put_def memz_def page_base_vpn dest: bspec [of _ _ "page_base a"])
  ultimately show "memz z U (c(page_base a := p)) pr k r (put a p w)"
    using m by (simp add: memz_def put_def rest_def)
qed

lemma raw_touch_ok:
  assumes m: "memz z U c pr k r w" and a: "page_base a \<in> U" and pr: "writable (pr (page_base a))"
  shows "raw_touch a w = Inr ((), w)"
proof -
  obtain n where "os_vm (w_os w) (vpn a) = Some n" using mem_page(4) [OF m a] by (auto simp: page_base_vpn)
  moreover have "os_prot (w_os w) (vpn a) = pr (page_base a)" using mem_page(5) [OF m a] by (simp add: page_base_vpn)
  ultimately show ?thesis using pr by (simp add: raw_touch_def)
qed

text \<open>A store of the context: it succeeds at once on a writable page.\<close>

definition stores :: "(nat \<Rightarrow> unit M) \<Rightarrow> bool" where
  "stores t \<longleftrightarrow> (\<forall>a w x. raw_touch a w = Inr x \<longrightarrow> t a w = Inr x)"

lemma stores_raw [simp]: "stores raw_touch"
  by (simp add: stores_def)

lemma stores_ok: "stores t \<Longrightarrow> memz z U c pr k r w \<Longrightarrow> page_base a \<in> U \<Longrightarrow> writable (pr (page_base a)) \<Longrightarrow> t a w = Inr ((), w)"
  using raw_touch_ok by (simp add: stores_def)

lemma total_poke: "page_base a \<in> U \<Longrightarrow> ends (memz z U c pr k r) (poke a p) (\<lambda>_. memz z U (c(page_base a := p)) pr k r)"
  unfolding ends_def using poke_ok by blast

lemma total_store:
  assumes "stores t" "a \<in> U" "writable (pr a)"
    and "\<And>w. memz z U c pr k r w \<Longrightarrow> rd a w = Inr (d, w)"
  shows "ends (memz z U c pr k r) (thenM (t a) (bindM (rd a) (\<lambda>d. poke a (C (f d))))) (\<lambda>_. memz z U (c(a := C (f d))) pr k r)"
  unfolding ends_def
proof (intro allI impI)
  fix w
  assume m: "memz z U c pr k r w"
  have b: "page_base a = a" using mem_page(1) [OF m assms(2)] .
  have "t a w = Inr ((), w)" using stores_ok [OF assms(1) m] assms(2,3) b by simp
  then show "\<exists>x w'. thenM (t a) (bindM (rd a) (\<lambda>d. poke a (C (f d)))) w = Inr (x, w') \<and> memz z U (c(a := C (f d))) pr k r w'"
    using assms(4) [OF m] poke_ok [OF m, of a "C (f d)"] assms(2) b by (simp add: thenM_step bindM_step)
qed

lemma rd_at:
  assumes "memz z U c pr k r w" "a \<in> U"
  shows "as_dir (c a) = Some d1 \<Longrightarrow> rd_dir a w = Inr (d1, w)"
    and "as_outer (c a) = Some d2 \<Longrightarrow> rd_outer a w = Inr (d2, w)"
    and "as_inner (c a) = Some d3 \<Longrightarrow> rd_inner a w = Inr (d3, w)"
    and "as_bucket (c a) = Some d4 \<Longrightarrow> rd_bucket a w = Inr (d4, w)"
    and "as_cont (c a) = Some d5 \<Longrightarrow> rd_cont a w = Inr (d5, w)"
    and "as_data (c a) = Some d6 \<Longrightarrow> rd_data a w = Inr (d6, w)"
proof -
  note b = mem_page(1) [OF assms]
  have "page_base a \<in> U" using b assms(2) by simp
  note r = rd_ok [OF assms(1) this, unfolded b]
  show "as_dir (c a) = Some d1 \<Longrightarrow> rd_dir a w = Inr (d1, w)" by (rule r(1))
  show "as_outer (c a) = Some d2 \<Longrightarrow> rd_outer a w = Inr (d2, w)" by (rule r(2))
  show "as_inner (c a) = Some d3 \<Longrightarrow> rd_inner a w = Inr (d3, w)" by (rule r(3))
  show "as_bucket (c a) = Some d4 \<Longrightarrow> rd_bucket a w = Inr (d4, w)" by (rule r(4))
  show "as_cont (c a) = Some d5 \<Longrightarrow> rd_cont a w = Inr (d5, w)" by (rule r(5))
  show "as_data (c a) = Some d6 \<Longrightarrow> rd_data a w = Inr (d6, w)" by (rule r(6))
qed

lemma total_up_z:
  assumes "stores t" "a \<in> U" "writable (pr a)"
  shows "as_dir (c a) = Some d1 \<Longrightarrow> ends (memz z U c pr k r) (up_dir t a f1) (\<lambda>_. memz z U (c(a := PDir (f1 d1))) pr k r)"
    and "as_outer (c a) = Some d2 \<Longrightarrow> ends (memz z U c pr k r) (up_outer t a f2) (\<lambda>_. memz z U (c(a := POuter (f2 d2))) pr k r)"
    and "as_inner (c a) = Some d3 \<Longrightarrow> ends (memz z U c pr k r) (up_inner t a f3) (\<lambda>_. memz z U (c(a := PInner (f3 d3))) pr k r)"
    and "as_bucket (c a) = Some d4 \<Longrightarrow> ends (memz z U c pr k r) (up_bucket t a f4) (\<lambda>_. memz z U (c(a := PBucket (f4 d4))) pr k r)"
    and "as_cont (c a) = Some d5 \<Longrightarrow> ends (memz z U c pr k r) (up_cont t a f5) (\<lambda>_. memz z U (c(a := PCont (f5 d5))) pr k r)"
    and "as_data (c a) = Some d6 \<Longrightarrow> ends (memz z U c pr k r) (up_data t a f6) (\<lambda>_. memz z U (c(a := PData (f6 d6))) pr k r)"
proof -
  note store = total_store [of t a U pr, OF assms]
  show "as_dir (c a) = Some d1 \<Longrightarrow> ends (memz z U c pr k r) (up_dir t a f1) (\<lambda>_. memz z U (c(a := PDir (f1 d1))) pr k r)"
    unfolding up_dir_def by (rule store) (rule rd_at(1) [OF _ assms(2)])
  show "as_outer (c a) = Some d2 \<Longrightarrow> ends (memz z U c pr k r) (up_outer t a f2) (\<lambda>_. memz z U (c(a := POuter (f2 d2))) pr k r)"
    unfolding up_outer_def by (rule store) (rule rd_at(2) [OF _ assms(2)])
  show "as_inner (c a) = Some d3 \<Longrightarrow> ends (memz z U c pr k r) (up_inner t a f3) (\<lambda>_. memz z U (c(a := PInner (f3 d3))) pr k r)"
    unfolding up_inner_def by (rule store) (rule rd_at(3) [OF _ assms(2)])
  show "as_bucket (c a) = Some d4 \<Longrightarrow> ends (memz z U c pr k r) (up_bucket t a f4) (\<lambda>_. memz z U (c(a := PBucket (f4 d4))) pr k r)"
    unfolding up_bucket_def by (rule store) (rule rd_at(4) [OF _ assms(2)])
  show "as_cont (c a) = Some d5 \<Longrightarrow> ends (memz z U c pr k r) (up_cont t a f5) (\<lambda>_. memz z U (c(a := PCont (f5 d5))) pr k r)"
    unfolding up_cont_def by (rule store) (rule rd_at(5) [OF _ assms(2)])
  show "as_data (c a) = Some d6 \<Longrightarrow> ends (memz z U c pr k r) (up_data t a f6) (\<lambda>_. memz z U (c(a := PData (f6 d6))) pr k r)"
    unfolding up_data_def by (rule store) (rule rd_at(6) [OF _ assms(2)])
qed

section \<open>The page allocator\<close>

lemma getpage_untouched:
  assumes inv: "pa_inv m" "0 < pa_spare m" and ok: "pa_alloc m flags = Inr ((a, l), m')"
    and w: "untouched w" "m = (w_pa w, w_os w)" "m' = (p', s')"
  shows "page_at s' a = Some PZero" "\<not> writable flags \<Longrightarrow> os_prot s' (vpn a) = PA_PROT_READ"
    and "untouched (w\<lparr>w_pa := p', w_os := s'\<rparr>)"
proof -
  let ?U = "pa_in_use m"
  from pa.alloc [OF inv(1) ok] have i: "pa_inv m'" "a \<notin> ?U" "pa_in_use m' = insert a ?U" by auto
  have pages: "os_pages s' = os_pages (w_os w)" using ok w pa_contents(1) by (auto simp: pa_alloc_def)
  note fr = pas.alloc_frame [OF inv ok]
  have vm: "os_vm s' v = os_vm (w_os w) v" for v
    using fun_cong [OF conjunct1 [OF fr], of "v * PAGE_SIZE"] w by (simp add: pa_frame_def vpn_def PAGE_SIZE_def)
  have prot: "os_prot s' v = os_prot (w_os w) v" if "os_vm (w_os w) v \<noteq> os_vm (w_os w) (vpn a)" for v
    using fr that w by (auto simp: pa_frame_def pa_prot_def vpn_def PAGE_SIZE_def dest!: spec [of _ "v * PAGE_SIZE"])
  have new: "os_vm (w_os w) (vpn b) \<noteq> os_vm (w_os w) (vpn a)" if b: "b \<in> ?U" for b
    using pas.frame_inj [OF i(1), of a b] vm i(2,3) b w(3) by (auto simp: pa_frame_def)
  obtain j where j: "os_vm (w_os w) (vpn a) = Some j"
    using pas.in_use_mapped [OF i(1), of a] i(3) vm w(3) by (auto simp: pa_frame_def)
  have "os_pages (w_os w) j = PZero" using w(1) new j w(2) by (force simp: untouched_def)
  then show "page_at s' a = Some PZero" using j vm pages by (simp add: page_at_def)
  have "os_prot (w_os w) (vpn a) = PA_PROT_READ" using w(1) new j w(2) by (force simp: untouched_def)
  then show "os_prot s' (vpn a) = PA_PROT_READ" if "\<not> writable flags"
    using fr that w by (auto simp: pa_prot_def dest: fun_cong [of _ _ a])
  show "untouched (w\<lparr>w_pa := p', w_os := s'\<rparr>)"
    using w i(3) vm pages prot j by (fastforce simp: untouched_def)
qed

lemma total_getpage_zero:
  assumes "0 < k" "writable flags \<or> z \<and> flags = PA_PROT_READ"
    and "\<And>a l x. a \<notin> U \<Longrightarrow> 0 < a \<Longrightarrow> PAGE_SIZE dvd a \<Longrightarrow> (z \<Longrightarrow> x = PZero) \<Longrightarrow>
      ends (memz z (insert a U) (c(a := x)) (pr(a := flags)) (k - 1) r) (f (a, l)) Q"
  shows "ends (memz z U c pr k r) (bindM (getpage flags) f) Q"
  unfolding ends_def
proof (intro allI impI)
  fix w
  assume m: "memz z U c pr k r w"
  let ?m = "(w_pa w, w_os w)"
  have inv: "pa_inv ?m" "0 < pa_spare ?m" "pa_in_use ?m = U" using m assms(1) by (auto simp: memz_def)
  from pas.alloc_spare [OF inv(1,2), of flags] obtain a l m' where
    al: "pa_alloc ?m flags = Inr ((a, l), m')" "pa_spare m' = pa_spare ?m - 1" "writable flags \<longrightarrow> pa_prot m' a = flags"
      "\<forall>b\<in>U. pa_frame m' b = pa_frame ?m b \<and> pa_prot m' b = pa_prot ?m b" using inv(3) by blast
  from pa.alloc [OF inv(1) al(1)] have i: "pa_inv m'" "a \<notin> U" "pa_in_use m' = insert a U" using inv(3) by auto
  obtain p' s' where m': "m' = (p', s')" by force
  let ?w = "w\<lparr>w_pa := p', w_os := s'\<rparr>"
  have g: "getpage flags w = Inr ((a, l), ?w)" using al(1) m' by (simp add: getpage_def pa_alloc_def)
  obtain x where x: "page_at s' a = Some x" using pa.alloc_mapped [OF inv(1) al(1)] m' by auto
  have a: "0 < a" "PAGE_SIZE dvd a" using pas.in_use_mapped [OF i(1), of a] i(3) by auto
  note free = getpage_untouched [OF inv(1,2) al(1) _ refl m']
  have "untouched w" if z using m that by (simp add: memz_def)
  then have zf: "z \<Longrightarrow> x = PZero" "z \<Longrightarrow> untouched ?w" "pa_prot m' a = flags"
    using free x assms(2) al(3) m' by (auto simp: pa_prot_def)
  have "page_at s' b = Some (c b) \<and> os_prot s' (vpn b) = pr b" if "b \<in> U" for b
    using pa.alloc_view [OF inv(1) al(1), of b] al(4) that m m' inv(3) by (auto simp: memz_def pa_prot_def)
  then have "memz z (insert a U) (c(a := x)) (pr(a := flags)) (k - 1) r ?w"
    using m i al(2) x m' zf by (auto simp: memz_def rest_def pa_prot_def)
  with assms(3) [OF i(2) a] zf(1) have "\<exists>y w'. f (a, l) ?w = Inr (y, w') \<and> Q y w'" by (blast dest: endsD)
  then show "\<exists>y w'. bindM (getpage flags) f w = Inr (y, w') \<and> Q y w'" by (simp add: bindM_def g)
qed

lemma total_getpage:
  assumes "0 < k" "writable flags"
    and "\<And>a l x. a \<notin> U \<Longrightarrow> 0 < a \<Longrightarrow> PAGE_SIZE dvd a \<Longrightarrow>
      ends (mem (insert a U) (c(a := x)) (pr(a := flags)) (k - 1) r) (f (a, l)) Q"
  shows "ends (mem U c pr k r) (bindM (getpage flags) f) Q"
  by (rule total_getpage_zero [OF assms(1)]) (use assms(2,3) in auto)

lemma total_freepage:
  assumes "a \<in> U"
  shows "ends (mem U c pr k r) (freepage a) (\<lambda>_. mem (U - {a}) c pr (Suc k) r)"
  unfolding ends_def
proof (intro allI impI)
  fix w
  assume m: "mem U c pr k r w"
  let ?m = "(w_pa w, w_os w)"
  have inv: "pa_inv ?m" "a \<in> pa_in_use ?m" "pa_in_use ?m = U" using m assms by (auto simp: mem_def)
  from pa.release [OF inv(1,2)] obtain m' where r: "pa_release ?m a = Inr m'" "pa_inv m'" "pa_in_use m' = U - {a}"
    using inv(3) by auto
  obtain p' s' where m': "m' = (p', s')" by force
  have "page_at s' b = page_at (w_os w) b" for b using pa.release_view [OF r(1), of b] m' by simp
  moreover have "os_prot s' (vpn b) = os_prot (w_os w) (vpn b)" for b
    using pas.release_spare [OF inv(1,2) r(1)] m' by (auto simp: pa_prot_def dest: fun_cong [of _ _ b])
  moreover have "pa_spare m' = Suc (pa_spare ?m)" using pas.release_spare [OF inv(1,2) r(1)] by simp
  ultimately have "mem (U - {a}) c pr (Suc k) r (w\<lparr>w_pa := p', w_os := s'\<rparr>)"
    using m r(2,3) m' by (auto simp: mem_def rest_def)
  moreover have "freepage a w = Inr ((), w\<lparr>w_pa := p', w_os := s'\<rparr>)"
    using r(1) m' by (simp add: freepage_def pa_release_def)
  ultimately show "\<exists>x w'. freepage a w = Inr (x, w') \<and> mem (U - {a}) c pr (Suc k) r w'" by blast
qed

lemma total_mprotect:
  assumes "a \<in> U"
  shows "ends (memz z U c pr k r) (mprotectM a PAGE_SIZE f) (\<lambda>_. memz z U c (pr(a := f)) k r)"
  unfolding ends_def
proof (intro allI impI)
  fix w
  assume m: "memz z U c pr k r w"
  have i: "pa_inv (w_pa w, w_os w)" "a \<in> pa_in_use (w_pa w, w_os w)" using m assms by (auto simp: memz_def)
  let ?s = "(stat (INC_BOTH Memprotects) (w_os w))\<lparr>os_prot := (os_prot (w_os w))(vpn a := f)\<rparr>"
  have "mprotectM a PAGE_SIZE f w = Inr ((), w\<lparr>w_os := ?s\<rparr>)"
    using pa_mprotect_ok [OF i] by (simp add: mprotectM_def)
  moreover have "memz z U c (pr(a := f)) k r (w\<lparr>w_os := ?s\<rparr>)"
    using m mem_vpn [OF m _ assms] assms by (auto simp: memz_def rest_def page_at_def untouched_def)
  ultimately show "\<exists>x w'. mprotectM a PAGE_SIZE f w = Inr (x, w') \<and> memz z U c (pr(a := f)) k r w'" by blast
qed

lemma mem_stat: "memz z U c pr k r w \<Longrightarrow> memz z U c pr k r (w\<lparr>w_os := stat f (w_os w)\<rparr>)"
  by (simp add: memz_def rest_def untouched_def)

lemma total_stat_z:
  "ends (memz z U c pr k r) (statM x) (\<lambda>_. memz z U c pr k r)"
  "ends (memz z U c pr k r) (modM (\<lambda>w. w\<lparr>w_os := stat f (w_os w)\<rparr>)) (\<lambda>_. memz z U c pr k r)"
  "ends (memz z U c pr k r) (flushes n) (\<lambda>_. memz z U c pr k r)"
proof -
  show "ends (memz z U c pr k r) (statM x) (\<lambda>_. memz z U c pr k r)"
    "ends (memz z U c pr k r) (modM (\<lambda>w. w\<lparr>w_os := stat f (w_os w)\<rparr>)) (\<lambda>_. memz z U c pr k r)"
    using mem_stat by (simp_all add: ends_def statM_def)
  have "memz z U c pr k r (w\<lparr>w_os := (stat (INC_BOTH Cpu_cache_flushes) ^^ n) (w_os w)\<rparr>)" if "memz z U c pr k r w" for w
  proof (induction n)
    case (Suc n)
    then show ?case using mem_stat [OF Suc, of "INC_BOTH Cpu_cache_flushes"] by simp
  qed (use that in simp)
  then show "ends (memz z U c pr k r) (flushes n) (\<lambda>_. memz z U c pr k r)" by (simp add: ends_def flushes_def)
qed

lemma total_flush_memsegment: "ends (memz z U c pr k r) (flush_memsegment a n) (\<lambda>_. memz z U c pr k r)"
  by (simp add: flush_memsegment_def Let_def total_stat_z)

lemma total_atomic_set: "ends P m (\<lambda>_. memz z U c pr k r) \<Longrightarrow> ends P (atomic_set m) (\<lambda>_. memz z U c pr k r)"
  unfolding atomic_set_def by (rule total_then [OF _ total_stat_z(3)])

lemma total_memcpy_page:
  assumes "stores t" "dest \<in> U" "src \<in> U" "writable (pr dest)"
  shows "ends (memz z U c pr k r) (memcpy_page t dest src PAGE_SIZE) (\<lambda>_. memz z U (c(dest := c src)) pr k r)"
  unfolding ends_def
proof (intro allI impI)
  fix w
  assume m: "memz z U c pr k r w"
  have b: "page_base dest = dest" "page_base src = src" using mem_page(1) [OF m] assms by auto
  have "page_of src w = Inr (c src, w)" "t dest w = Inr ((), w)"
    using page_of_ok [OF m, of src] stores_ok [OF assms(1) m, of dest] assms b by simp_all
  then show "\<exists>x w'. memcpy_page t dest src PAGE_SIZE w = Inr (x, w') \<and> memz z U (c(dest := c src)) pr k r w'"
    using poke_ok [OF m, of dest "c src"] assms(2) b
    by (simp add: memcpy_page_def thenM_step bindM_step PAGE_SIZE_def)
qed

lemma total_pmemcpy_z:
  assumes "stores t" "dest \<in> U" "src \<in> U" "writable (pr dest)"
  shows "ends (memz z U c pr k r) (pmemcpy t dest src PAGE_SIZE) (\<lambda>_. memz z U (c(dest := c src)) pr k r)"
  unfolding pmemcpy_def by (rule total_then [OF total_memcpy_page [of t dest U src pr, OF assms] total_flush_memsegment])

section \<open>Slab entries\<close>

lemma se_addr_page:
  assumes "PAGE_SIZE dvd sb" "i < SLAB_BUCKET_ENTRIES"
  shows "page_base (se_addr sb i) = sb" "se_index (se_addr sb i) = i" "SLAB_ENTRY_INDEX (se_addr sb i) = i"
proof -
  from assms(1) obtain q where q: "sb = 4096 * q" by (auto simp: PAGE_SIZE_def)
  have i: "8 + i * 144 < 4096" "i < 28" using assms(2) by (simp_all add: SLAB_BUCKET_ENTRIES_def PAGE_SIZE_def SLAB_ENTRY_SIZE_def)
  have a: "se_addr sb i = 4096 * q + (8 + i * 144)" using q by (simp add: se_addr_def SLAB_ENTRY_SIZE_def)
  have d: "se_addr sb i div 4096 = q" "se_addr sb i mod 4096 = 8 + i * 144" unfolding a using i(1) by simp_all
  show "page_base (se_addr sb i) = sb" using d(1) q by (simp add: page_base_def PAGE_SIZE_def)
  show "se_index (se_addr sb i) = i" using d(2) by (simp add: se_index_def PAGE_SIZE_def SLAB_ENTRY_SIZE_def)
  have "se_addr sb i - se_addr sb i div 4096 * 4096 = 8 + i * 144" unfolding d(1) unfolding a by simp
  then show "SLAB_ENTRY_INDEX (se_addr sb i) = i" by (simp add: SLAB_ENTRY_INDEX_def PAGE_SIZE_def SLAB_ENTRY_SIZE_def)
qed

definition entry_at :: "(nat \<Rightarrow> page) \<Rightarrow> nat \<Rightarrow> slab_entry option" where
  "entry_at c a =
     (if a = 0 then None else case as_bucket (c (page_base a)) of
        Some b \<Rightarrow> if se_index a < length (sb_entries b) then Some (sb_entries b ! se_index a) else None
      | None \<Rightarrow> None)"

definition with_entry :: "(nat \<Rightarrow> page) \<Rightarrow> nat \<Rightarrow> (slab_entry \<Rightarrow> slab_entry) \<Rightarrow> nat \<Rightarrow> page" where
  "with_entry c a f =
     (case as_bucket (c (page_base a)) of
        Some b \<Rightarrow> c(page_base a := PBucket (b\<lparr>sb_entries := (sb_entries b)[se_index a := f (sb_entries b ! se_index a)]\<rparr>))
      | None \<Rightarrow> c)"

lemma rd_se_ok:
  assumes "memz z U c pr k r w" "page_base a \<in> U" "entry_at c a = Some e"
  shows "rd_se a w = Inr (e, w)"
proof -
  from assms(3) obtain b where b: "a \<noteq> 0" "as_bucket (c (page_base a)) = Some b" "se_index a < length (sb_entries b)"
    "e = sb_entries b ! se_index a" by (auto simp: entry_at_def split: option.splits if_splits)
  have "rd_bucket (page_base a) w = Inr (b, w)"
    using rd_at(4) [OF assms(1,2) b(2)] .
  then show ?thesis using b by (simp add: rd_se_def bindM_step cellM_def)
qed

lemma total_up_se_z:
  assumes "stores t" "page_base a \<in> U" "writable (pr (page_base a))" "entry_at c a = Some e"
  shows "ends (memz z U c pr k r) (up_se t a f) (\<lambda>_. memz z U (with_entry c a f) pr k r)"
proof -
  from assms(4) obtain b where b: "a \<noteq> 0" "as_bucket (c (page_base a)) = Some b"
    by (auto simp: entry_at_def split: option.splits if_splits)
  show ?thesis
    using total_up_z(4) [of t "page_base a" U pr c, OF assms(1-3) b(2), of _ k r "\<lambda>b. b\<lparr>sb_entries := (sb_entries b)[se_index a := f (sb_entries b ! se_index a)]\<rparr>"] b
    by (simp add: up_se_def with_entry_def)
qed

lemma entry_with_entry [simp]:
  assumes "entry_at c a = Some e"
  shows "entry_at (with_entry c a f) a = Some (f e)"
    "page_base b \<noteq> page_base a \<Longrightarrow> entry_at (with_entry c a f) b = entry_at c b"
    "x \<noteq> page_base a \<Longrightarrow> with_entry c a f x = c x"
  using assms by (auto simp: entry_at_def with_entry_def split: option.splits if_splits)

text \<open>The rules without a condition on the free pages.\<close>

lemmas total_up = total_up_z [where z = False]
lemmas total_stat = total_stat_z [where z = False]
lemmas total_pmemcpy = total_pmemcpy_z [where z = False]
lemmas total_up_se = total_up_se_z [where z = False]

end
