(* ===== verification/Snapshot.thy ===== *)
theory Snapshot
  imports Memlogic
begin

text \<open>
  The index of data pages and the copy-on-write of \<^verbatim>\<open>src/src/snapshot.c\<close>: the SIGSEGV handler finds
  the slab entry of the faulting page, copies the page (\<^verbatim>\<open>slab_entry_snapshot\<close>, or
  \<^verbatim>\<open>slab_entry_copynswap\<close> with the non-linear mapper) and makes it writable.  The snapshots of
  the metadata pages are taken by the allocator.
\<close>

section \<open>The container and the index\<close>

definition current_sd :: "nat M" where
  "current_sd = bindM (getM w_cont) (\<lambda>c. if c = 0 then errM (Segv 0)
     else bindM (rd_cont c) (\<lambda>cont. retM (l_maddr (c_current_slab cont))))"

definition SE_SEARCH_NORMAL :: nat where "SE_SEARCH_NORMAL = 1"
definition SE_SEARCH_MADDR :: nat where "SE_SEARCH_MADDR = 2"

text \<open>The comparison reads the search type and the address of the first entry, and the address of the second.\<close>

definition slab_entry_compare_by_maddr :: "nat \<Rightarrow> nat \<Rightarrow> nat \<Rightarrow> int" where
  "slab_entry_compare_by_maddr search_type a b =
     (if search_type = SE_SEARCH_MADDR
      then (if a < b then - 1 else if a \<ge> b + PAGE_SIZE then 1 else 0)
      else (if a < b then - 1 else if a > b then 1 else 0))"

definition peek_se :: "world \<Rightarrow> nat \<Rightarrow> slab_entry" where
  "peek_se w a = (case rd_se a w of Inr (e, _) \<Rightarrow> e | Inl _ \<Rightarrow> zero_entry)"

text \<open>A search key stands at address 0.\<close>

definition maddr_cmp :: "world \<Rightarrow> nat \<Rightarrow> nat \<Rightarrow> nat \<Rightarrow> nat \<Rightarrow> int" where
  "maddr_cmp w search_type key a b =
     slab_entry_compare_by_maddr
       (if a = 0 then search_type else d_maddr (se_snap (peek_se w a)))
       (if a = 0 then key else d_maddr (se_cur (peek_se w a)))
       (if b = 0 then key else d_maddr (se_cur (peek_se w b)))"

definition find_entry :: "nat \<Rightarrow> nat \<Rightarrow> nat option M" where
  "find_entry search_type key =
     bindM current_sd (\<lambda>sd. bindM (rd_dir sd) (\<lambda>d. bindM (getM (\<lambda>w. w)) (\<lambda>w.
     retM (map_option node_elem (RB_FIND (maddr_cmp w search_type key) (sd_maddr_root d) 0)))))"

definition index_entry :: "(nat \<Rightarrow> unit M) \<Rightarrow> nat \<Rightarrow> nat \<Rightarrow> unit M" where
  "index_entry t sd se =
     bindM (rd_dir sd) (\<lambda>d. bindM (getM (\<lambda>w. w)) (\<lambda>w.
     bindM (liftM (RB_INSERT (maddr_cmp w 0 0) (sd_maddr_root d) se)) (\<lambda>(r, _).
     thenM (t se) (up_dir t sd (\<lambda>d. d\<lparr>sd_maddr_root := r\<rparr>)))))"

section \<open>Copy on write of a data page\<close>

definition append_snapshotted :: "(nat \<Rightarrow> unit M) \<Rightarrow> nat \<Rightarrow> unit M" where
  "append_snapshotted t se =
     bindM current_sd (\<lambda>sd. bindM (rd_dir sd) (\<lambda>d.
     bindM (liftM (VECTOR_APPEND (sd_vector d) se)) (\<lambda>v.
     up_dir t sd (\<lambda>d. d\<lparr>sd_vector := v\<rparr>))))"

definition slab_entry_snapshot :: "nat \<Rightarrow> unit M" where
  "slab_entry_snapshot se =
     bindM (getpage PA_PROT_WRITE) (\<lambda>(data_maddr, data_laddr).
     bindM (rd_se se) (\<lambda>e.
     thenM (pmemcpy raw_touch data_maddr (d_maddr (se_cur e)) (ROUNDPG_nat (se_size e)))
     (thenM (statM Cow_data_pg)
     (thenM (append_snapshotted raw_touch se)
     (thenM
       (if p_maddr (ptr_snap e) \<noteq> 0
        then bindM (getpage PA_PROT_WRITE) (\<lambda>(ptr_maddr, ptr_laddr).
             thenM (pmemcpy raw_touch ptr_maddr (p_maddr (ptr_snap e)) (ROUNDPG_nat (se_size e)))
             (thenM (up_se raw_touch se (\<lambda>e. e\<lparr>ptr_cur := (ptr_cur e)\<lparr>p_idx := p_idx (ptr_snap e)\<rparr>\<rparr>))
             (thenM (atomic_set (retM ()))
             (thenM (up_se raw_touch se (\<lambda>e. e\<lparr>ptr_cur := (ptr_cur e)\<lparr>p_maddr := ptr_maddr\<rparr>\<rparr>))
             (statM Cow_meta_pg)))))
        else retM ())
     (thenM (up_se raw_touch se (\<lambda>e. e\<lparr>se_snap := (se_snap e)\<lparr>d_maddr := data_maddr\<rparr>\<rparr>))
     (atomic_set (up_se raw_touch se (\<lambda>e. e\<lparr>se_snap := (se_snap e)\<lparr>d_laddr := data_laddr\<rparr>\<rparr>)))))))))"

text \<open>
  In \<^verbatim>\<open>slab_entry_snapshot\<close> the call \<^verbatim>\<open>atomic_set(&ptr_laddr, se->se_ptr.current.laddr)\<close> stores into
  the local variable, which is not read again.
\<close>

definition slab_entry_copynswap :: "nat \<Rightarrow> unit M" where
  "slab_entry_copynswap se =
     bindM (getpage PA_PROT_WRITE) (\<lambda>(data_maddr, data_laddr).
     bindM (rd_se se) (\<lambda>e.
     thenM (memcpy_page raw_touch data_maddr (d_maddr (se_snap e)) (ROUNDPG_nat (se_size e)))
     (thenM (up_se raw_touch se (\<lambda>e. e\<lparr>se_snap := (se_snap e)\<lparr>d_maddr := data_maddr\<rparr>\<rparr>))
     (thenM (atomic_set (up_se raw_touch se (\<lambda>e. e\<lparr>se_cur := (se_cur e)\<lparr>d_laddr := data_laddr\<rparr>\<rparr>)))
     (bindM (rd_se se) (\<lambda>e.
     thenM (swapM data_maddr (d_laddr (se_snap e)) (d_maddr (se_snap e)) data_laddr)
     (thenM (statM Cow_data_pg)
     (thenM (append_snapshotted raw_touch se)
     (if p_maddr (ptr_snap e) \<noteq> 0 then errM (Assertion ''TODO: implement this later'') else retM ())))))))))"

section \<open>The signal handler\<close>

definition handle_memory_update :: "nat \<Rightarrow> unit M" where
  "handle_memory_update sig_addr =
     bindM current_sd (\<lambda>_.
     thenM (modM (\<lambda>w. w\<lparr>w_os := stat STATS_INC_FAULTS (w_os w)\<rparr>))
     (bindM (find_entry SE_SEARCH_NORMAL (page_base sig_addr)) (\<lambda>found.
     case found of
       Some se \<Rightarrow>
         bindM (getM w_copynswap) (\<lambda>swap.
         thenM (if swap then slab_entry_copynswap se else slab_entry_snapshot se)
         (bindM (rd_se se) (\<lambda>e. mprotectM (d_maddr (se_cur e)) PAGE_SIZE PA_PROT_RNW)))
     | None \<Rightarrow> errM (Handle_error ''Got SIGSEGV''))))"

text \<open>A store outside the handler: it is retried when the handler returns.\<close>

definition touch :: "nat \<Rightarrow> unit M" where
  "touch a w =
     (case raw_touch a w of
        Inr r \<Rightarrow> Inr r
      | Inl _ \<Rightarrow> bindR (handle_memory_update a w) (\<lambda>(_, w1).
          case raw_touch a w1 of Inr r \<Rightarrow> Inr r | Inl _ \<Rightarrow> Inl Diverges))"

section \<open>Snapshots of the metadata pages\<close>

text \<open>The path from a bucket to its inner node; the bucket's own slot in the node is not part of it.\<close>

definition bucket_inner :: "nat \<Rightarrow> (nat \<times> nat) M" where
  "bucket_inner sb =
     bindM (rd_bucket sb) (\<lambda>b.
     let si_id = sb_id b div SLAB_INNER_ENTRIES;
         so_id = si_id div SLAB_OUTER_ENTRIES;
         so_idx = si_id mod SLAB_OUTER_ENTRIES;
         sd_idx = so_id mod SLAB_DIR_ENTRIES
     in bindM current_sd (\<lambda>sd. bindM (rd_dir sd) (\<lambda>d.
        bindM (cellM (sd_current d) sd_idx) (\<lambda>lo. bindM (rd_outer (l_maddr lo)) (\<lambda>so.
        bindM (cellM (node_current so) so_idx) (\<lambda>li. retM (l_maddr li, si_id)))))))"

definition set_snap_maddr :: "nat \<Rightarrow> nat \<Rightarrow> slab_node \<Rightarrow> slab_node" where
  "set_snap_maddr i a n = n\<lparr>node_snapshot := (node_snapshot n)[i := (node_snapshot n ! i)\<lparr>l_maddr := a\<rparr>]\<rparr>"

definition set_snap_laddr :: "nat \<Rightarrow> nat \<Rightarrow> slab_node \<Rightarrow> slab_node" where
  "set_snap_laddr i a n = n\<lparr>node_snapshot := (node_snapshot n)[i := (node_snapshot n ! i)\<lparr>l_laddr := a\<rparr>]\<rparr>"

definition set_cur_laddr :: "nat \<Rightarrow> nat \<Rightarrow> slab_node \<Rightarrow> slab_node" where
  "set_cur_laddr i a n = n\<lparr>node_current := (node_current n)[i := (node_current n ! i)\<lparr>l_laddr := a\<rparr>]\<rparr>"

text \<open>The result says whether a snapshot was taken.\<close>

definition slab_bucket_snapshot :: "nat \<Rightarrow> bool M" where
  "slab_bucket_snapshot sb =
     bindM (bucket_inner sb) (\<lambda>(si, si_id).
     bindM (rd_inner si) (\<lambda>n.
     bindM (cellM (node_current n) si_id) (\<lambda>c. bindM (cellM (node_snapshot n) si_id) (\<lambda>s.
     if l_maddr c = l_maddr s
     then bindM (getpage PA_PROT_WRITE) (\<lambda>(sbs, snapshot_laddr).
          thenM (pmemcpy touch sbs sb PAGE_SIZE)
          (thenM (atomic_set (up_inner touch si (set_snap_laddr si_id snapshot_laddr)))
          (thenM (up_inner touch si (set_snap_maddr si_id sbs))
          (thenM (statM Cow_meta_pg) (retM True)))))
     else retM False))))"

definition slab_bucket_copynswap :: "nat \<Rightarrow> bool M" where
  "slab_bucket_copynswap sb =
     bindM (bucket_inner sb) (\<lambda>(si, si_id).
     bindM (rd_inner si) (\<lambda>n.
     bindM (cellM (node_current n) si_id) (\<lambda>c. bindM (cellM (node_snapshot n) si_id) (\<lambda>s.
     if l_maddr c = l_maddr s
     then bindM (getpage PA_PROT_WRITE) (\<lambda>(sbs, snapshot_laddr).
          thenM (memcpy_page touch sbs sb PAGE_SIZE)
          (thenM (swapM (l_maddr c) snapshot_laddr sbs (l_laddr c))
          (thenM (atomic_set (up_inner touch si (set_cur_laddr si_id snapshot_laddr)))
          (thenM (up_inner touch si (set_snap_maddr si_id sbs))
          (thenM (statM Cow_meta_pg) (retM True))))))
     else retM False))))"

text \<open>
  The snapshots of an inner node, an outer node and the directory: a copy of the page; \<^verbatim>\<open>store\<close> is
  the atomic_set through the caller's pointer.
\<close>

definition slab_inner_snapshot :: "nat \<Rightarrow> (nat \<Rightarrow> unit M) \<Rightarrow> nat M" where
  "slab_inner_snapshot si store =
     thenM (statM Cow_meta_pg) (bindM (getpage PA_PROT_WRITE) (\<lambda>(sis, snapshot_laddr).
     thenM (pmemcpy touch sis si PAGE_SIZE) (thenM (atomic_set (store snapshot_laddr)) (retM sis))))"

definition slab_outer_snapshot :: "nat \<Rightarrow> (nat \<Rightarrow> unit M) \<Rightarrow> nat M" where
  "slab_outer_snapshot so store =
     thenM (statM Cow_meta_pg) (bindM (getpage PA_PROT_WRITE) (\<lambda>(sos, snapshot_laddr).
     thenM (pmemcpy touch sos so PAGE_SIZE) (thenM (atomic_set (store snapshot_laddr)) (retM sos))))"

definition slab_dir_snapshot :: "nat \<Rightarrow> (nat \<Rightarrow> unit M) \<Rightarrow> nat M" where
  "slab_dir_snapshot sd store =
     thenM (statM Cow_meta_pg) (bindM (getpage PA_PROT_WRITE) (\<lambda>(sds, snapshot_laddr).
     thenM (pmemcpy touch sds sd PAGE_SIZE) (thenM (atomic_set (store snapshot_laddr)) (retM sds))))"

end
