(* ===== verification/Cow.thy ===== *)
theory Cow
  imports Snapshot
begin

text \<open>
  Copy on write is correct: the index of data pages finds the entry of an address, and a store to
  a write-protected data page leaves a copy of the old contents behind, makes the page writable and
  changes no other page.
\<close>

section \<open>Searching the index\<close>

lemma rb_descend_cong:
  "(\<And>b. b \<in> set (inorder t) \<Longrightarrow> cmp k b = cmp' k' b) \<Longrightarrow> rb_descend cmp k t path = rb_descend cmp' k' t path"
  by (induction t arbitrary: path) (simp_all add: Let_def)

interpretation addr_order: key_order "\<lambda>a b. slab_entry_compare_by_maddr SE_SEARCH_NORMAL (f a) (f b)" f for f :: "nat \<Rightarrow> nat"
  by unfold_locales (auto simp: slab_entry_compare_by_maddr_def SE_SEARCH_NORMAL_def SE_SEARCH_MADDR_def)

lemma find_by_address:
  fixes f :: "nat \<Rightarrow> nat"
  assumes "rb_tree f t" "0 \<notin> set (inorder t)"
    and "\<And>b. b \<in> set (inorder t) \<Longrightarrow> cmp 0 b = slab_entry_compare_by_maddr SE_SEARCH_NORMAL key (f b)"
  shows "map_option node_elem (RB_FIND cmp t 0) = find (\<lambda>b. f b = key) (inorder t)"
proof -
  let ?f = "\<lambda>a. if a = 0 then key else f a"
  let ?cmp = "\<lambda>a b. slab_entry_compare_by_maddr SE_SEARCH_NORMAL (?f a) (?f b)"
  have nz: "b \<noteq> 0" if "b \<in> set (inorder t)" for b using that assms(2) by metis
  have eq: "map ?f (inorder t) = map f (inorder t)" using nz by (intro map_cong) auto
  have "rb_tree ?f t" using assms(1) unfolding rb_tree_def ascending_def eq .
  then have "rb_look ?cmp t 0 = key_in ?f 0 (inorder t)" by (rule addr_order.look_key [where f = ?f])
  moreover have "RB_FIND cmp t 0 = RB_FIND ?cmp t 0"
    using rb_descend_cong [of t cmp 0 ?cmp 0 "[]"] assms(3) nz by (simp add: RB_FIND_def)
  moreover have "key_in ?f 0 (inorder t) = find (\<lambda>b. f b = key) (inorder t)"
    unfolding key_in_def by (rule find_cong) (use nz in auto)
  ultimately show ?thesis by (simp add: rb_look_def)
qed

text \<open>The address of the data page of an entry, and an index that is in order.\<close>

definition maddr_of :: "(nat \<Rightarrow> page) \<Rightarrow> nat \<Rightarrow> nat" where
  "maddr_of c a = (case entry_at c a of Some e \<Rightarrow> d_maddr (se_cur e) | None \<Rightarrow> 0)"

definition indexed :: "nat set \<Rightarrow> (nat \<Rightarrow> page) \<Rightarrow> slab_dir \<Rightarrow> bool" where
  "indexed U c d \<longleftrightarrow> rb_tree (maddr_of c) (sd_maddr_root d) \<and>
     (\<forall>se\<in>set (inorder (sd_maddr_root d)). page_base se \<in> U \<and>
        (\<exists>e. entry_at c se = Some e \<and> d_maddr (se_cur e) \<in> U))"

definition the_entry :: "(nat \<Rightarrow> page) \<Rightarrow> slab_dir \<Rightarrow> nat \<Rightarrow> nat option" where
  "the_entry c d page = find (\<lambda>se. maddr_of c se = page) (inorder (sd_maddr_root d))"

text \<open>The directory of the container in the state.\<close>

definition dir_is :: "nat set \<Rightarrow> (nat \<Rightarrow> page) \<Rightarrow> world \<Rightarrow> nat \<Rightarrow> slab_dir \<Rightarrow> bool" where
  "dir_is U c r sd d \<longleftrightarrow> w_cont r \<in> U \<and> sd \<in> U \<and> as_dir (c sd) = Some d \<and>
     (\<exists>k. as_cont (c (w_cont r)) = Some k \<and> l_maddr (c_current_slab k) = sd)"

lemma mem_cont: "mem U c pr k r w \<Longrightarrow> w_cont w = w_cont r \<and> w_copynswap w = w_copynswap r"
  by (auto simp: mem_def rest_def)

lemma current_sd_ok:
  assumes m: "mem U c pr k r w" and d: "dir_is U c r sd d"
  shows "current_sd w = Inr (sd, w) \<and> rd_dir sd w = Inr (d, w)"
proof
  from d obtain kc where k: "w_cont r \<in> U" "as_cont (c (w_cont r)) = Some kc" "l_maddr (c_current_slab kc) = sd"
    and sd: "sd \<in> U" "as_dir (c sd) = Some d" by (auto simp: dir_is_def)
  have "rd_cont (w_cont w) w = Inr (kc, w)" "w_cont w \<noteq> 0"
    using rd_at(5) [OF m k(1,2)] mem_cont [OF m] mem_page(2) [OF m k(1)] by simp_all
  then show "current_sd w = Inr (sd, w)" using k(3) by (simp add: current_sd_def bindM_def)
  show "rd_dir sd w = Inr (d, w)" by (rule rd_at(1) [OF m sd])
qed

lemma peek_ok:
  assumes "mem U c pr k r w" "indexed U c d" "se \<in> set (inorder (sd_maddr_root d))"
  shows "d_maddr (se_cur (peek_se w se)) = maddr_of c se" "se \<noteq> 0" "maddr_of c se \<in> U"
proof -
  from assms(2,3) obtain e where e: "page_base se \<in> U" "entry_at c se = Some e" "d_maddr (se_cur e) \<in> U"
    by (auto simp: indexed_def)
  have "rd_se se w = Inr (e, w)" by (rule rd_se_ok [OF assms(1) e(1,2)])
  then show "d_maddr (se_cur (peek_se w se)) = maddr_of c se" "maddr_of c se \<in> U"
    using e(2,3) by (simp_all add: peek_se_def maddr_of_def)
  show "se \<noteq> 0" using e(2) by (cases "se = 0") (simp_all add: entry_at_def)
qed

lemma find_entry_ok:
  assumes m: "mem U c pr k r w" and d: "dir_is U c r sd d" and i: "indexed U c d"
  shows "find_entry SE_SEARCH_NORMAL page w = Inr (the_entry c d page, w)"
    and "find_entry SE_SEARCH_MADDR addr w = Inr (the_entry c d (page_base addr), w)"
proof -
  let ?t = "sd_maddr_root d"
  have t: "rb_tree (maddr_of c) ?t" "0 \<notin> set (inorder ?t)" using i peek_ok(2) [OF m i] by (auto simp: indexed_def)
  have "maddr_cmp w SE_SEARCH_NORMAL page 0 se = slab_entry_compare_by_maddr SE_SEARCH_NORMAL page (maddr_of c se)"
    if "se \<in> set (inorder ?t)" for se using peek_ok(1,2) [OF m i that] by (simp add: maddr_cmp_def)
  then have "map_option node_elem (RB_FIND (maddr_cmp w SE_SEARCH_NORMAL page) ?t 0) = the_entry c d page"
    unfolding the_entry_def by (rule find_by_address [OF t])
  then show "find_entry SE_SEARCH_NORMAL page w = Inr (the_entry c d page, w)"
    using current_sd_ok [OF m d] by (simp add: find_entry_def bindM_def)
  have "maddr_cmp w SE_SEARCH_MADDR addr 0 se = slab_entry_compare_by_maddr SE_SEARCH_NORMAL (page_base addr) (maddr_of c se)"
    if se: "se \<in> set (inorder ?t)" for se
  proof -
    have "PAGE_SIZE dvd maddr_of c se" using mem_page(3) [OF m peek_ok(3) [OF m i se]] .
    then obtain q where q: "maddr_of c se = PAGE_SIZE * q" by blast
    have lt: "addr < PAGE_SIZE * q \<longleftrightarrow> addr div PAGE_SIZE < q" by (simp add: div_less_iff_less_mult mult.commute PAGE_SIZE_def)
    moreover have "addr \<ge> PAGE_SIZE * q + PAGE_SIZE \<longleftrightarrow> q < addr div PAGE_SIZE"
    proof -
      have "q < addr div PAGE_SIZE \<longleftrightarrow> Suc q \<le> addr div PAGE_SIZE" by arith
      also have "\<dots> \<longleftrightarrow> Suc q * PAGE_SIZE \<le> addr" by (simp add: less_eq_div_iff_mult_less_eq PAGE_SIZE_def)
      finally show ?thesis by (simp add: algebra_simps)
    qed
    moreover have "addr div PAGE_SIZE * PAGE_SIZE < PAGE_SIZE * q \<longleftrightarrow> addr div PAGE_SIZE < q"
      "addr div PAGE_SIZE * PAGE_SIZE > PAGE_SIZE * q \<longleftrightarrow> q < addr div PAGE_SIZE"
      by (simp_all add: mult.commute PAGE_SIZE_def)
    ultimately show ?thesis
      using peek_ok(1,2) [OF m i se] unfolding maddr_cmp_def slab_entry_compare_by_maddr_def q page_base_def
      by (simp add: SE_SEARCH_NORMAL_def SE_SEARCH_MADDR_def q)
  qed
  then have "map_option node_elem (RB_FIND (maddr_cmp w SE_SEARCH_MADDR addr) ?t 0) = the_entry c d (page_base addr)"
    unfolding the_entry_def by (rule find_by_address [OF t])
  then show "find_entry SE_SEARCH_MADDR addr w = Inr (the_entry c d (page_base addr), w)"
    using current_sd_ok [OF m d] by (simp add: find_entry_def bindM_def)
qed

lemma the_entry_Some:
  assumes "indexed U c d" "se \<in> set (inorder (sd_maddr_root d))" "maddr_of c se = page"
  shows "the_entry c d page = Some se"
proof (cases "the_entry c d page")
  case None
  then show ?thesis using assms(2,3) by (auto simp: the_entry_def find_None_iff)
next
  case (Some x)
  then have "x \<in> set (inorder (sd_maddr_root d))" "maddr_of c x = page" by (auto simp: the_entry_def find_Some_iff)
  moreover have "inj_on (maddr_of c) (set (inorder (sd_maddr_root d)))"
    using assms(1) ascending_distinct by (auto simp: indexed_def rb_tree_def distinct_map)
  ultimately show ?thesis using assms(2,3) Some by (auto dest: inj_onD)
qed

section \<open>The copy of a page\<close>

lemma dir_is_upd:
  "dir_is U c r sd d \<Longrightarrow> s \<notin> U \<Longrightarrow> dir_is (insert s U) (c(s := p)) r sd d"
  by (auto simp: dir_is_def)

lemma entry_at_upd [simp]: "page_base b \<noteq> a \<Longrightarrow> entry_at (c(a := p)) b = entry_at c b"
  by (simp add: entry_at_def)

lemma total_current_dir:
  assumes "dir_is U c r sd d" and "ends (mem U c pr k r) (f sd d) Q"
  shows "ends (mem U c pr k r) (bindM current_sd (\<lambda>sd. bindM (rd_dir sd) (f sd))) Q"
  using assms(2) current_sd_ok [OF _ assms(1)] unfolding ends_def by (simp add: bindM_def)

lemma total_rd_se:
  assumes "page_base se \<in> U" "entry_at c se = Some e" and "ends (mem U c pr k r) (f e) Q"
  shows "ends (mem U c pr k r) (bindM (rd_se se) f) Q"
  using assms(3) rd_se_ok [OF _ assms(1,2)] unfolding ends_def by (simp add: bindM_def)

lemma append_snapshotted_ends:
  assumes d: "dir_is U c r sd d" "vec_wf (sd_vector d)" "writable (pr sd)" "stores t"
  shows "\<exists>v. vec_wf v \<and> vec_list v = vec_list (sd_vector d) @ [se] \<and>
    ends (mem U c pr k r) (append_snapshotted t se) (\<lambda>_. mem U (c(sd := PDir (d\<lparr>sd_vector := v\<rparr>))) pr k r)"
proof -
  obtain v where v: "VECTOR_APPEND (sd_vector d) se = Inr v" "vec_wf v" "vec_list v = vec_list (sd_vector d) @ [se]"
    using append_wf [OF d(2), of se] by metis
  have sd: "sd \<in> U" "as_dir (c sd) = Some d" using d(1) by (auto simp: dir_is_def)
  have "ends (mem U c pr k r) (append_snapshotted t se) (\<lambda>_. mem U (c(sd := PDir (d\<lparr>sd_vector := v\<rparr>))) pr k r)"
    unfolding append_snapshotted_def
    by (rule total_current_dir [OF d(1)])
      (use total_up(1) [of t sd U pr c, OF d(4) sd(1) d(3) sd(2), of k r "\<lambda>d. d\<lparr>sd_vector := v\<rparr>"] in
        \<open>simp add: v(1) ends_def bindM_def\<close>)
  then show ?thesis using v(2,3) by blast
qed

lemma ROUNDPG_page: "0 < n \<Longrightarrow> n \<le> PAGE_SIZE \<Longrightarrow> ROUNDPG_nat n = PAGE_SIZE"
proof -
  assume n: "0 < n" "n \<le> PAGE_SIZE"
  then have "(n + 4095) div 4096 = 1" by (simp add: PAGE_SIZE_def div_nat_eqI)
  then show ?thesis by (simp add: ROUNDPG_nat_def PAGE_SIZE_def)
qed

text \<open>The other entries, in the same bucket or elsewhere, stay as they are.\<close>

definition other_slot :: "nat \<Rightarrow> nat \<Rightarrow> bool" where
  "other_slot se b \<longleftrightarrow> page_base b \<noteq> page_base se \<or> se_index b \<noteq> se_index se"

lemma entry_with_other [simp]:
  "entry_at c a = Some e \<Longrightarrow> other_slot a b \<Longrightarrow> entry_at (with_entry c a f) b = entry_at c b"
  by (auto simp: other_slot_def entry_at_def with_entry_def split: option.splits if_splits)

lemma bucket_with_entry:
  "entry_at c a = Some e \<Longrightarrow> as_bucket (c (page_base a)) = Some b \<Longrightarrow>
    \<exists>es. as_bucket (with_entry c a f (page_base a)) = Some (b\<lparr>sb_entries := es\<rparr>) \<and> length es = length (sb_entries b)"
  by (auto simp: with_entry_def)

text \<open>What the copy leaves behind: \<^verbatim>\<open>s\<close> is the page with the old contents of \<^verbatim>\<open>A\<close>.\<close>

definition copy_made ::
  "nat set \<Rightarrow> (nat \<Rightarrow> page) \<Rightarrow> nat \<Rightarrow> slab_dir \<Rightarrow> nat \<Rightarrow> slab_entry \<Rightarrow> nat \<Rightarrow> (nat \<Rightarrow> page) \<Rightarrow> bool" where
  "copy_made U c sd d se e s c' \<longleftrightarrow>
     s \<notin> U \<and> c' s = c (d_maddr (se_cur e)) \<and> (\<forall>b\<in>U - {sd, page_base se}. c' b = c b) \<and>
     (\<forall>b. page_base b \<in> U - {sd} \<and> other_slot se b \<longrightarrow> entry_at c' b = entry_at c b) \<and>
     (\<forall>b. as_bucket (c (page_base se)) = Some b \<longrightarrow> (\<exists>es. as_bucket (c' (page_base se)) = Some (b\<lparr>sb_entries := es\<rparr>) \<and> length es = length (sb_entries b))) \<and>
     (\<exists>v. c' sd = PDir (d\<lparr>sd_vector := v\<rparr>) \<and> vec_wf v \<and> vec_list v = vec_list (sd_vector d) @ [se]) \<and>
     (\<exists>l. entry_at c' se = Some (e\<lparr>se_snap := (se_snap e)\<lparr>d_maddr := s, d_laddr := l\<rparr>\<rparr>))"

lemma snapshot_ends:
  assumes d: "dir_is U c r sd d" "vec_wf (sd_vector d)" "writable (pr sd)"
    and e: "page_base se \<in> U" "entry_at c se = Some e" "writable (pr (page_base se))" "page_base se \<noteq> sd"
    and A: "d_maddr (se_cur e) \<in> U" "0 < se_size e" "se_size e \<le> PAGE_SIZE" "p_maddr (ptr_snap e) = 0"
  shows "ends (mem U c pr (Suc k) r) (slab_entry_snapshot se)
    (\<lambda>_ w. \<exists>s c'. copy_made U c sd d se e s c' \<and> mem (insert s U) c' (pr(s := PA_PROT_WRITE)) k r w)"
proof -
  let ?A = "d_maddr (se_cur e)"
  have wr: "writable PA_PROT_WRITE" by (simp add: writable_def PA_PROT_WRITE_def)
  have sd: "sd \<in> U" using d(1) by (simp add: dir_is_def)
  have "ends (mem (insert s U) (c(s := x)) (pr(s := PA_PROT_WRITE)) k r)
      (bindM (rd_se se) (\<lambda>e. thenM (pmemcpy raw_touch s (d_maddr (se_cur e)) (ROUNDPG_nat (se_size e)))
        (thenM (statM Cow_data_pg) (thenM (append_snapshotted raw_touch se)
        (thenM (if p_maddr (ptr_snap e) \<noteq> 0 then K e else retM ())
        (thenM (up_se raw_touch se (\<lambda>e. e\<lparr>se_snap := (se_snap e)\<lparr>d_maddr := s\<rparr>\<rparr>))
        (atomic_set (up_se raw_touch se (\<lambda>e. e\<lparr>se_snap := (se_snap e)\<lparr>d_laddr := l\<rparr>\<rparr>)))))))))
      (\<lambda>_ w. \<exists>s c'. copy_made U c sd d se e s c' \<and> mem (insert s U) c' (pr(s := PA_PROT_WRITE)) k r w)"
    if s: "s \<notin> U" for s l x K
  proof -
    let ?U = "insert s U" and ?pr = "pr(s := PA_PROT_WRITE)"
    have ne: "page_base se \<noteq> s" "sd \<noteq> s" "?A \<noteq> s" using s e(1) sd A(1) by auto
    define c2 where "c2 = c(s := c ?A)"
    have d2: "dir_is ?U c2 r sd d" unfolding c2_def by (rule dir_is_upd [OF d(1) s])
    obtain v where v: "vec_wf v" "vec_list v = vec_list (sd_vector d) @ [se]"
      "ends (mem ?U c2 ?pr k r) (append_snapshotted raw_touch se) (\<lambda>_. mem ?U (c2(sd := PDir (d\<lparr>sd_vector := v\<rparr>))) ?pr k r)"
      using append_snapshotted_ends [of ?U c2 r sd d ?pr raw_touch se k] d2 d(2,3) ne(2) by auto
    define c3 where "c3 = c2(sd := PDir (d\<lparr>sd_vector := v\<rparr>))"
    define c4 where "c4 = with_entry c3 se (\<lambda>e. e\<lparr>se_snap := (se_snap e)\<lparr>d_maddr := s\<rparr>\<rparr>)"
    define c5 where "c5 = with_entry c4 se (\<lambda>e. e\<lparr>se_snap := (se_snap e)\<lparr>d_laddr := l\<rparr>\<rparr>)"
    have e3: "entry_at c3 se = Some e" using e(2,4) ne by (simp add: c3_def c2_def)
    note e4 = entry_with_entry(1) [OF e3, of "\<lambda>e. e\<lparr>se_snap := (se_snap e)\<lparr>d_maddr := s\<rparr>\<rparr>", folded c4_def]
    note e5 = entry_with_entry(1) [OF e4, of "\<lambda>e. e\<lparr>se_snap := (se_snap e)\<lparr>d_laddr := l\<rparr>\<rparr>", folded c5_def]
    have same: "c5 b = c3 b" if "b \<noteq> page_base se" for b
      using entry_with_entry(3) [OF e3] entry_with_entry(3) [OF e4] that by (simp add: c4_def c5_def)
    have other: "entry_at c5 b = entry_at c b" if "page_base b \<in> U - {sd}" "other_slot se b" for b
    proof -
      have "page_base b \<noteq> s" "page_base b \<noteq> sd" using that(1) s by auto
      then show ?thesis
        using entry_with_other [OF e3 that(2)] entry_with_other [OF e4 that(2)]
        by (simp add: c5_def c4_def c3_def c2_def)
    qed
    have flag: "\<exists>es. as_bucket (c5 (page_base se)) = Some (b\<lparr>sb_entries := es\<rparr>) \<and> length es = length (sb_entries b)" if "as_bucket (c (page_base se)) = Some b" for b
    proof -
      have "as_bucket (c3 (page_base se)) = Some b" using that ne e(4) by (simp add: c3_def c2_def)
      from bucket_with_entry [OF e3 this] obtain es where "as_bucket (c4 (page_base se)) = Some (b\<lparr>sb_entries := es\<rparr>)" "length es = length (sb_entries b)"
        by (auto simp: c4_def)
      with bucket_with_entry [OF e4 this(1)] show ?thesis by (auto simp: c5_def)
    qed
    have made: "copy_made U c sd d se e s c5"
      using s e5 same ne e(4) v(1,2) other flag by (auto simp: copy_made_def c3_def c2_def)
    have cp: "ends (mem ?U (c(s := x)) ?pr k r) (pmemcpy raw_touch s ?A PAGE_SIZE) (\<lambda>_. mem ?U c2 ?pr k r)"
      using total_pmemcpy [of raw_touch s ?U ?A ?pr "c(s := x)" k r] A(1) ne(3) wr by (simp add: c2_def)
    have w: "writable (?pr (page_base se))" "page_base se \<in> ?U" using e(1,3) ne(1) by simp_all
    have rs: "ROUNDPG_nat (se_size e) = PAGE_SIZE" by (rule ROUNDPG_page [OF A(2,3)])
    have s4: "ends (mem ?U c3 ?pr k r) (up_se raw_touch se (\<lambda>e. e\<lparr>se_snap := (se_snap e)\<lparr>d_maddr := s\<rparr>\<rparr>)) (\<lambda>_. mem ?U c4 ?pr k r)"
      unfolding c4_def by (rule total_up_se [of raw_touch se ?U ?pr c3 e]) (use w e3 in simp_all)
    have s5: "ends (mem ?U c4 ?pr k r) (up_se raw_touch se (\<lambda>e. e\<lparr>se_snap := (se_snap e)\<lparr>d_laddr := l\<rparr>\<rparr>)) (\<lambda>_. mem ?U c5 ?pr k r)"
      unfolding c5_def by (rule total_up_se [of raw_touch se ?U ?pr c4, OF _ w(2,1) e4]) simp
    have x: "ends (mem ?U (c(s := x)) ?pr k r)
      (bindM (rd_se se) (\<lambda>e. thenM (pmemcpy raw_touch s (d_maddr (se_cur e)) (ROUNDPG_nat (se_size e)))
        (thenM (statM Cow_data_pg) (thenM (append_snapshotted raw_touch se)
        (thenM (if p_maddr (ptr_snap e) \<noteq> 0 then K e else retM ())
        (thenM (up_se raw_touch se (\<lambda>e. e\<lparr>se_snap := (se_snap e)\<lparr>d_maddr := s\<rparr>\<rparr>))
        (atomic_set (up_se raw_touch se (\<lambda>e. e\<lparr>se_snap := (se_snap e)\<lparr>d_laddr := l\<rparr>\<rparr>)))))))))
      (\<lambda>_. mem ?U c5 ?pr k r)"
      by (rule total_rd_se [OF w(2)], use e(2) ne(1) in simp, unfold rs)
        (use A(4) in \<open>simp, intro total_then [OF cp] total_then [OF total_stat(1)] total_then [OF v(3)] total_then [OF s4 [unfolded c3_def]]
          total_atomic_set s5\<close>)
    show ?thesis by (rule total_conseq [OF x]) (use made in blast)+
  qed
  note main = this
  show ?thesis unfolding slab_entry_snapshot_def
    by (rule total_getpage [OF _ wr], simp, unfold prod.case diff_Suc_1) (rule main)
qed

section \<open>The handler and the store\<close>

text \<open>A data page of the index, with its entry and the pages its copy writes to.\<close>

definition data_page :: "nat set \<Rightarrow> (nat \<Rightarrow> page) \<Rightarrow> (nat \<Rightarrow> nat) \<Rightarrow> world \<Rightarrow> nat \<Rightarrow> slab_dir \<Rightarrow> nat \<Rightarrow> slab_entry \<Rightarrow> bool" where
  "data_page U c pr r sd d se e \<longleftrightarrow>
     dir_is U c r sd d \<and> vec_wf (sd_vector d) \<and> writable (pr sd) \<and> indexed U c d \<and>
     se \<in> set (inorder (sd_maddr_root d)) \<and> entry_at c se = Some e \<and> writable (pr (page_base se)) \<and>
     0 < se_size e \<and> se_size e \<le> PAGE_SIZE \<and> p_maddr (ptr_snap e) = 0"

lemma data_pageD:
  assumes "data_page U c pr r sd d se e"
  shows "page_base se \<in> U" "d_maddr (se_cur e) \<in> U" "page_base se \<noteq> sd" "sd \<in> U"
    "the_entry c d (d_maddr (se_cur e)) = Some se"
proof -
  have e: "entry_at c se = Some e" "indexed U c d" "se \<in> set (inorder (sd_maddr_root d))" "dir_is U c r sd d" "0 < se_size e"
    using assms by (auto simp: data_page_def)
  then show "page_base se \<in> U" "d_maddr (se_cur e) \<in> U" "sd \<in> U" by (auto simp: indexed_def dir_is_def)
  have "maddr_of c se = d_maddr (se_cur e)" using e(1) by (simp add: maddr_of_def)
  then show "the_entry c d (d_maddr (se_cur e)) = Some se" by (rule the_entry_Some [OF e(2,3)])
  show "page_base se \<noteq> sd"
  proof
    assume b: "page_base se = sd"
    have "as_dir (c sd) = Some d" using e(4) by (simp add: dir_is_def)
    then have "c sd = PZero \<or> (\<exists>d. c sd = PDir d)" by (cases "c sd") auto
    then have "e = zero_entry"
      using e(1) b by (auto simp: entry_at_def zero_bucket_def split: if_splits)
    then show False using e(5) by (simp add: zero_entry_def)
  qed
qed

lemma handler_ends:
  assumes p: "data_page U c pr r sd d se e" and a: "page_base a = d_maddr (se_cur e)" and s: "\<not> w_copynswap r"
  shows "ends (mem U c pr (Suc k) r) (handle_memory_update a)
    (\<lambda>_ w. \<exists>s c'. copy_made U c sd d se e s c' \<and>
       mem (insert s U) c' (pr(s := PA_PROT_WRITE, page_base a := PA_PROT_RNW)) k r w)"
proof -
  note pd = data_pageD [OF p]
  let ?Q = "\<lambda>w. \<exists>s c'. copy_made U c sd d se e s c' \<and> mem (insert s U) c' (pr(s := PA_PROT_WRITE)) k r w"
  have d: "dir_is U c r sd d" "vec_wf (sd_vector d)" "writable (pr sd)" "indexed U c d" "entry_at c se = Some e"
    "writable (pr (page_base se))" "0 < se_size e" "se_size e \<le> PAGE_SIZE" "p_maddr (ptr_snap e) = 0"
    using p by (auto simp: data_page_def)
  note snap = snapshot_ends [OF d(1-3) pd(1) d(5,6) pd(3) pd(2) d(7-9)]
  have last: "ends (mem (insert s U) c' (pr(s := PA_PROT_WRITE)) k r)
      (bindM (rd_se se) (\<lambda>e. mprotectM (d_maddr (se_cur e)) PAGE_SIZE PA_PROT_RNW))
      (\<lambda>_ w. \<exists>s c'. copy_made U c sd d se e s c' \<and>
       mem (insert s U) c' (pr(s := PA_PROT_WRITE, page_base a := PA_PROT_RNW)) k r w)"
    if c': "copy_made U c sd d se e s c'" for s c'
  proof -
    obtain l where e': "entry_at c' se = Some (e\<lparr>se_snap := (se_snap e)\<lparr>d_maddr := s, d_laddr := l\<rparr>\<rparr>)"
      using c' by (auto simp: copy_made_def)
    have "ends (mem (insert s U) c' (pr(s := PA_PROT_WRITE)) k r)
        (bindM (rd_se se) (\<lambda>e. mprotectM (d_maddr (se_cur e)) PAGE_SIZE PA_PROT_RNW))
        (\<lambda>_. mem (insert s U) c' (pr(s := PA_PROT_WRITE, page_base a := PA_PROT_RNW)) k r)"
      by (rule total_rd_se [OF _ e']) (use pd(1,2) a total_mprotect [of "page_base a" "insert s U"] in simp_all)
    then show ?thesis by (rule total_conseq) (use c' in blast)+
  qed
  have "ends (mem U c pr (Suc k) r) (thenM (slab_entry_snapshot se)
      (bindM (rd_se se) (\<lambda>e. mprotectM (d_maddr (se_cur e)) PAGE_SIZE PA_PROT_RNW)))
    (\<lambda>_ w. \<exists>s c'. copy_made U c sd d se e s c' \<and>
       mem (insert s U) c' (pr(s := PA_PROT_WRITE, page_base a := PA_PROT_RNW)) k r w)"
    by (rule total_then [OF snap]) (intro total_ex, use last in \<open>auto simp: ends_def\<close>)
  note body = this
  have found: "find_entry SE_SEARCH_NORMAL (page_base a) w = Inr (Some se, w)" if "mem U c pr (Suc k) r w" for w
    using find_entry_ok(1) [OF that d(1,4), of "page_base a"] pd(5) a by simp
  have ns: "getM w_copynswap w = Inr (False, w)" if "mem U c pr (Suc k) r w" for w using mem_cont [OF that] s by simp
  have "ends (mem U c pr (Suc k) r)
      (bindM (find_entry SE_SEARCH_NORMAL (page_base a)) (\<lambda>found. case found of
       Some se \<Rightarrow>
         bindM (getM w_copynswap) (\<lambda>swap.
         thenM (if swap then slab_entry_copynswap se else slab_entry_snapshot se)
         (bindM (rd_se se) (\<lambda>e. mprotectM (d_maddr (se_cur e)) PAGE_SIZE PA_PROT_RNW)))
     | None \<Rightarrow> errM (Handle_error ''Got SIGSEGV'')))
    (\<lambda>_ w. \<exists>s c'. copy_made U c sd d se e s c' \<and>
       mem (insert s U) c' (pr(s := PA_PROT_WRITE, page_base a := PA_PROT_RNW)) k r w)"
    by (rule total_read [OF found], assumption, unfold option.case, rule total_read [OF ns], assumption, unfold if_False)
      (rule body)
  note main = total_then [OF total_stat(2) this]
  show ?thesis unfolding handle_memory_update_def
    by (rule total_read [OF conjunct1 [OF current_sd_ok [OF _ d(1)]]], assumption) (rule main)
qed

lemma stores_touch [simp]: "stores touch"
  by (simp add: stores_def touch_def)

lemma touch_ends:
  assumes p: "data_page U c pr r sd d se e" and a: "page_base a = d_maddr (se_cur e)"
    and ro: "\<not> writable (pr (page_base a))" and s: "\<not> w_copynswap r"
  shows "ends (mem U c pr (Suc k) r) (touch a)
    (\<lambda>_ w. \<exists>s c'. copy_made U c sd d se e s c' \<and>
       mem (insert s U) c' (pr(s := PA_PROT_WRITE, page_base a := PA_PROT_RNW)) k r w)"
  unfolding ends_def
proof (intro allI impI)
  fix w
  assume m: "mem U c pr (Suc k) r w"
  note pd = data_pageD [OF p]
  have A: "page_base a \<in> U" using pd(2) a by simp
  obtain n where n: "os_vm (w_os w) (vpn a) = Some n" using mem_page(4) [OF m A] by (auto simp: page_base_vpn)
  have "os_prot (w_os w) (vpn a) = pr (page_base a)" using mem_page(5) [OF m A] by (simp add: page_base_vpn)
  then have f: "raw_touch a w = Inl (Segv a)" using n ro by (simp add: raw_touch_def)
  from endsD [OF handler_ends [OF p a s] m] obtain w' s c' where
    h: "handle_memory_update a w = Inr ((), w')" "copy_made U c sd d se e s c'"
      "mem (insert s U) c' (pr(s := PA_PROT_WRITE, page_base a := PA_PROT_RNW)) k r w'" by auto
  have "raw_touch a w' = Inr ((), w')"
    by (rule raw_touch_ok [OF h(3)]) (use A in \<open>auto simp: writable_def PA_PROT_RNW_def\<close>)
  then have "touch a w = Inr ((), w')" using f h(1) by (simp add: touch_def)
  then show "\<exists>x w'. touch a w = Inr (x, w') \<and> (\<exists>s c'. copy_made U c sd d se e s c' \<and>
       mem (insert s U) c' (pr(s := PA_PROT_WRITE, page_base a := PA_PROT_RNW)) k r w')" using h(2,3) by blast
qed

section \<open>Properties\<close>

text \<open>
  C3: Copy on write.  In a process whose page allocator is in order and has a free page, a store to
  a write-protected data page that the index of the directory knows returns; the page is then
  writable and has its contents still, a page that was not in use holds a copy of the old contents
  and is the snapshot version of the slab entry, the entry is appended to the vector of the entries
  of this transaction, and no page but the directory and the bucket of the entry has changed.
\<close>

theorem store_copies_on_write:
  assumes "mem U c pr (Suc k) r w" "data_page U c pr r sd d se e" "page_base a = d_maddr (se_cur e)"
    and "\<not> writable (pr (page_base a))" "\<not> w_copynswap w"
  shows "\<exists>s w'. touch a w = Inr ((), w') \<and> s \<notin> U \<and> page_at (w_os w') s = page_at (w_os w) a \<and>
    page_at (w_os w') a = page_at (w_os w) a \<and> writable (os_prot (w_os w') (vpn a)) \<and>
    (\<exists>l. rd_se se w' = Inr (e\<lparr>se_snap := (se_snap e)\<lparr>d_maddr := s, d_laddr := l\<rparr>\<rparr>, w')) \<and>
    (\<exists>v. rd_dir sd w' = Inr (d\<lparr>sd_vector := v\<rparr>, w') \<and> vec_list v = vec_list (sd_vector d) @ [se]) \<and>
    (\<forall>b\<in>U - {sd, page_base se}. page_at (w_os w') b = page_at (w_os w) b)"
proof -
  note pd = data_pageD [OF assms(2)]
  have "\<not> w_copynswap r" using assms(5) mem_cont [OF assms(1)] by simp
  from endsD [OF touch_ends [OF assms(2-4) this] assms(1)] obtain w' s c' where
    t: "touch a w = Inr ((), w')" and c': "copy_made U c sd d se e s c'"
    and m: "mem (insert s U) c' (pr(s := PA_PROT_WRITE, page_base a := PA_PROT_RNW)) k r w'" by auto
  have s: "s \<notin> U" "c' s = c (page_base a)" using c' assms(3) by (auto simp: copy_made_def)
  obtain v where v: "c' sd = PDir (d\<lparr>sd_vector := v\<rparr>)" "vec_list v = vec_list (sd_vector d) @ [se]"
    using c' by (auto simp: copy_made_def)
  obtain l where l: "entry_at c' se = Some (e\<lparr>se_snap := (se_snap e)\<lparr>d_maddr := s, d_laddr := l\<rparr>\<rparr>)"
    using c' by (auto simp: copy_made_def)
  have A: "page_base a \<in> U" "page_base a \<noteq> sd" "page_base a \<noteq> page_base se"
    using pd(2) assms(2-4) by (auto simp: data_page_def)
  have at: "page_at (w_os x) a = page_at (w_os x) (page_base a)" for x by (simp add: page_at_def page_base_vpn)
  have "page_at (w_os w') s = page_at (w_os w) a"
    using mem_page(6) [OF m, of s] mem_page(6) [OF assms(1) A(1)] s(2) unfolding at by simp
  moreover have same: "\<forall>b\<in>U - {sd, page_base se}. page_at (w_os w') b = page_at (w_os w) b"
    using mem_page(6) [OF m] mem_page(6) [OF assms(1)] c' by (auto simp: copy_made_def)
  moreover have "page_at (w_os w') a = page_at (w_os w) a" using same A unfolding at by blast
  moreover have "writable (os_prot (w_os w') (vpn a))"
    using mem_page(5) [OF m, of "page_base a"] A(1) by (simp add: page_base_vpn writable_def PA_PROT_RNW_def)
  moreover have "rd_se se w' = Inr (e\<lparr>se_snap := (se_snap e)\<lparr>d_maddr := s, d_laddr := l\<rparr>\<rparr>, w')"
    by (rule rd_se_ok [OF m _ l]) (use pd(1) in simp)
  moreover have "rd_dir sd w' = Inr (d\<lparr>sd_vector := v\<rparr>, w')"
    by (rule rd_at(1) [OF m]) (use pd(4) v(1) in simp_all)
  ultimately show ?thesis using t s(1) v(2) by blast
qed

text \<open>
  A container of eight pages at one terabyte: the container, the directory, a bucket, a data page
  that is write-protected, an outer and an inner node, a page of pointers, and a free page.
\<close>

definition demo_page :: "nat \<Rightarrow> nat" where "demo_page i = 2 ^ 40 + i * 4096"

definition demo_mapper :: fixed_mapper where
  "demo_mapper = \<lparr>file_size = 32768, start_addr = 2 ^ 40, fl_size = 1, fl_last = 8,
     links = \<lparr>cell = (\<lambda>l. if l = LFirst 0 then 8 else 0), lastp = LFirst, prevp = (\<lambda>_. LFirst 0)\<rparr>,
     index = map (\<lambda>i. Some (fixed_page_alloc i)) [0..<8]\<rparr>"

definition demo_entry :: slab_entry where
  "demo_entry = zero_entry\<lparr>se_size := 32, se_cur := \<lparr>d_maddr = demo_page 3, d_laddr = 3 * 4096, d_bitmap = 0\<rparr>,
     se_snap := \<lparr>d_maddr = demo_page 3, d_laddr = 3 * 4096, d_bitmap = 0\<rparr>,
     ptr_cur := \<lparr>p_idx = 1, p_maddr = demo_page 6, p_laddr = 6 * 4096\<rparr>\<rparr>"

definition demo_se :: nat where "demo_se = demo_page 2 + 8"

definition demo_link :: "nat \<Rightarrow> plink" where "demo_link i = \<lparr>l_maddr = demo_page i, l_laddr = i * 4096\<rparr>"

definition demo_node :: "nat \<Rightarrow> slab_node" where
  "demo_node i = zero_inner\<lparr>node_index := 1, node_current := (node_current zero_inner)[0 := demo_link i],
     node_snapshot := (node_snapshot zero_inner)[0 := demo_link i]\<rparr>"

definition demo_dir :: slab_dir where
  "demo_dir = zero_dir\<lparr>sd_index := 1, sd_current := (sd_current zero_dir)[0 := demo_link 4],
     sd_snapshot := (sd_snapshot zero_dir)[0 := demo_link 4],
     sd_maddr_root := RNode RB_BLACK RNil demo_se RNil, sd_vector := VECTOR_INIT\<rparr>"

definition demo_bucket :: slab_bucket where
  "demo_bucket = zero_bucket\<lparr>sb_entries := (replicate SLAB_BUCKET_ENTRIES zero_entry)[0 := demo_entry]\<rparr>"

definition demo_ptrs :: "ptr_meta list" where
  "demo_ptrs = (replicate PTRS_IN_PAGE zero_meta)[
     0 := \<lparr>ploc_offset = 40, pval_seid = 0, pval_offset = 16\<rparr>,
     1 := \<lparr>ploc_offset = 48, pval_seid = 0xffffffff, pval_offset = 0xffff\<rparr>]"

definition demo_contents :: "nat \<Rightarrow> page" where
  "demo_contents i =
     (if i = 0 then PCont (zero_cont\<lparr>c_current_slab := demo_link 1, c_snapshot_slab := demo_link 1\<rparr>)
      else if i = 1 then PDir demo_dir
      else if i = 2 then PBucket demo_bucket
      else if i = 4 then POuter (demo_node 5)
      else if i = 5 then PInner (demo_node 2)
      else if i = 6 then PPtr demo_ptrs
      else PZero)"

definition demo_os :: "page os" where
  "demo_os = \<lparr>os_len = 32768, os_pages = demo_contents,
     os_vm = (\<lambda>v. if 2 ^ 28 \<le> v \<and> v < 2 ^ 28 + 8 then Some (v - 2 ^ 28) else None),
     os_prot = (\<lambda>v. if v = 2 ^ 28 + 3 then PA_PROT_READ else PA_PROT_WRITE), os_other = (\<lambda>_. False),
     os_space = 2 ^ 30, os_place = (\<lambda>a n. a), os_maps = [], os_stats = GLOBAL_STATS\<rparr>"

definition demo_world :: world where
  "demo_world = \<lparr>w_os = demo_os, w_pa = Fixed demo_mapper, w_cont = demo_page 0, w_next_sb = 1, w_next_se = 1,
     w_do_fixptrs = True, w_do_insert = True, w_copynswap = False, w_do_closure = False, w_es = (\<lambda>_. 0), w_next_es = 1,
     w_links = empty_links, w_mem = (\<lambda>_. 0), ht_pointerat = None, ht_mallocat = None, pptr_vec = VECTOR_INIT,
     mallocat_tree = SNil, w_me = (\<lambda>_. \<lparr>me_addr = 0, me_size = 0, me_paddr = 0, me_ptrs = VECTOR_INIT\<rparr>), w_next_me = 1\<rparr>"

lemma mem_self:
  assumes "pa_inv (w_pa w, w_os w)"
  shows "mem (pa_in_use (w_pa w, w_os w)) (\<lambda>a. the (page_at (w_os w) a)) (\<lambda>a. os_prot (w_os w) (vpn a))
    (pa_spare (w_pa w, w_os w)) (rest w) w"
  using pas.in_use_mapped [OF assms] assms unfolding mem_def by (auto simp: page_at_def pa_frame_def)

definition demo_used :: "nat set" where "demo_used = demo_page ` {0, 1, 2, 3, 4, 5, 6}"

lemma demo_used [simp]: "demo_page i \<in> demo_used \<longleftrightarrow> i < 7"
proof -
  have "demo_page i \<in> demo_used \<longleftrightarrow> i \<in> {0, 1, 2, 3, 4, 5, 6}" by (simp add: demo_used_def demo_page_def)
  then show ?thesis by auto
qed

lemma demo_apart [simp]: "demo_page i = demo_page j \<longleftrightarrow> i = j"
  by (simp add: demo_page_def)

lemma less_eight: "(\<forall>i<8. P i) \<longleftrightarrow> P 0 \<and> P 1 \<and> P 2 \<and> P 3 \<and> P 4 \<and> P 5 \<and> P 6 \<and> P (7::nat)"
  by (simp add: numeral_eq_Suc All_less_Suc conj_ac)

lemma demo_rep: "pages_of demo_mapper = 8" "fm_rep demo_mapper [7]" "fm_mapped demo_mapper demo_os"
proof -
  show p: "pages_of demo_mapper = 8" by (simp add: demo_mapper_def pages_of_def bytes2pgs_def PAGE_SIZE_def)
  have idx: "index_ok demo_mapper 8"
    unfolding index_ok_def by (simp add: demo_mapper_def fixed_page_alloc_def)
  have dl: "dlist (links demo_mapper) FREE_HEAD [8]"
    by (simp add: dlist_def slist_def demo_mapper_def FREE_HEAD_def)
  show "fm_rep demo_mapper [7]"
    unfolding fm_rep_def p using idx dl by (simp add: page_elem_def demo_mapper_def PAGE_SIZE_def)
  show "fm_mapped demo_mapper demo_os"
    unfolding fm_mapped_def p less_eight by (simp add: demo_mapper_def demo_os_def vpn_def PAGE_SIZE_def)
qed

lemma demo_ok:
  "pa_inv (w_pa demo_world, w_os demo_world)" "pa_spare (w_pa demo_world, w_os demo_world) = Suc 0"
  "pa_in_use (w_pa demo_world, w_os demo_world) = demo_used"
proof -
  note p = demo_rep(1) and rep = demo_rep(2) and mp = demo_rep(3)
  show "pa_inv (w_pa demo_world, w_os demo_world)"
    using rep mp p by (auto simp: demo_world_def fm_inv_def)
  show "pa_spare (w_pa demo_world, w_os demo_world) = Suc 0" by (simp add: demo_world_def fm_spare_def demo_mapper_def)
  have "free_list demo_mapper = {7}" using free_list_rep [OF rep] by simp
  moreover have "{..<8} - {7} = {0, 1, 2, 3, 4, 5, 6::nat}" by auto
  moreover have "page_addr demo_mapper = demo_page" by (simp add: fun_eq_iff page_addr_def demo_page_def demo_mapper_def PAGE_SIZE_def)
  ultimately show "pa_in_use (w_pa demo_world, w_os demo_world) = demo_used"
    by (simp only: demo_used_def demo_world_def world.select_convs pa_in_use.simps fm_in_use_def fst_conv p)
qed

lemma demo_at: "i < 8 \<Longrightarrow> page_at demo_os (demo_page i) = Some (demo_contents i)" "vpn (demo_page i) = 2 ^ 28 + i"
  "page_base (demo_page i) = demo_page i" "page_base demo_se = demo_page 2" "se_index demo_se = 0"
proof -
  have d: "demo_page i div 4096 = 2 ^ 28 + i" for i by (simp add: demo_page_def)
  show v: "vpn (demo_page i) = 2 ^ 28 + i" using d by (simp add: vpn_def PAGE_SIZE_def)
  show "page_at demo_os (demo_page i) = Some (demo_contents i)" if "i < 8"
    using that unfolding page_at_def v by (simp add: demo_os_def)
  show "page_base (demo_page i) = demo_page i" unfolding page_base_def PAGE_SIZE_def d by (simp add: demo_page_def)
  show "page_base demo_se = demo_page 2" "se_index demo_se = 0"
    by (simp_all add: demo_se_def demo_page_def page_base_def se_index_def PAGE_SIZE_def)
qed

definition demo_c :: "nat \<Rightarrow> page" where "demo_c a = the (page_at (w_os demo_world) a)"
definition demo_pr :: "nat \<Rightarrow> nat" where "demo_pr a = os_prot (w_os demo_world) (vpn a)"

lemma demo_views:
  "i < 8 \<Longrightarrow> demo_c (demo_page i) = demo_contents i" "demo_pr (demo_page i) = (if i = 3 then PA_PROT_READ else PA_PROT_WRITE)"
  "entry_at demo_c demo_se = Some demo_entry"
proof -
  show c: "demo_c (demo_page i) = demo_contents i" if "i < 8" for i using demo_at(1) [OF that] by (simp add: demo_c_def demo_world_def)
  show "demo_pr (demo_page i) = (if i = 3 then PA_PROT_READ else PA_PROT_WRITE)"
    unfolding demo_pr_def demo_at(2) by (simp add: demo_world_def demo_os_def)
  have b: "as_bucket (demo_c (demo_page 2)) = Some demo_bucket"
    using c [of 2] by (simp add: demo_contents_def)
  have "demo_se \<noteq> 0" "0 < SLAB_BUCKET_ENTRIES"
    by (simp_all add: demo_se_def SLAB_BUCKET_ENTRIES_def SLAB_ENTRY_SIZE_def PAGE_SIZE_def)
  then show "entry_at demo_c demo_se = Some demo_entry"
    unfolding entry_at_def demo_at(4,5) b by (simp add: demo_bucket_def)
qed

lemma demo_mem: "mem demo_used demo_c demo_pr (Suc 0) (rest demo_world) demo_world"
  using mem_self [OF demo_ok(1)] unfolding demo_ok(2,3) demo_c_def demo_pr_def .

text \<open>The example container with other contents in its pages.\<close>

lemma shown_mem:
  assumes "w_os w = demo_os\<lparr>os_pages := f\<rparr>" "w_pa w = Fixed demo_mapper"
  shows "mem demo_used (\<lambda>a. the (page_at (w_os w) a)) demo_pr (Suc 0) (rest w) w"
proof -
  have w: "w_pa w = w_pa demo_world" "w_os demo_world = demo_os" by (simp_all add: assms(2) demo_world_def)
  have "pa_inv (w_pa w, w_os w)" using demo_ok(1) by (simp add: assms(1) w)
  from mem_self [OF this] show ?thesis
    using demo_ok(2,3) by (simp add: assms(1) w demo_pr_def [abs_def])
qed

lemma shown_at: "w_os w = demo_os\<lparr>os_pages := f\<rparr> \<Longrightarrow> i < 8 \<Longrightarrow> the (page_at (w_os w) (demo_page i)) = f i"
  unfolding page_at_def demo_at(2) by (simp add: demo_os_def)

lemma demo_dir_is: "dir_is demo_used demo_c (rest demo_world) (demo_page 1) demo_dir"
proof -
  have w: "w_cont (rest demo_world) = demo_page 0" by (simp add: rest_def demo_world_def)
  have c: "demo_c (demo_page 0) = demo_contents 0" "demo_c (demo_page 1) = PDir demo_dir"
    using demo_views(1) by (simp_all add: demo_contents_def)
  show ?thesis unfolding dir_is_def w c by (simp add: demo_contents_def demo_link_def)
qed

lemma demo_indexed: "indexed demo_used demo_c demo_dir"
proof -
  have "rb_inv (RNode RB_BLACK RNil demo_se RNil)" by (auto simp: rb_inv_def intro: exI [of _ 1])
  then show ?thesis
    unfolding indexed_def
    by (simp add: demo_dir_def rb_tree_def ascending_def demo_views(3) demo_at(4), simp add: demo_entry_def)
qed

lemma demo_data_page:
  "data_page demo_used demo_c demo_pr (rest demo_world) (demo_page 1) demo_dir demo_se demo_entry"
proof -
  have "writable (demo_pr (demo_page 1))" "writable (demo_pr (page_base demo_se))"
    unfolding demo_at(4) demo_views(2) by (simp_all add: writable_def PA_PROT_WRITE_def)
  then show ?thesis
    unfolding data_page_def using demo_views(3) demo_dir_is demo_indexed
    by (simp add: demo_dir_def) (simp add: demo_entry_def zero_entry_def zero_pref_def PAGE_SIZE_def)
qed

theorem store_copies_on_write_witness:
  "\<exists>s w'. touch (demo_page 3 + 100) demo_world = Inr ((), w') \<and> s \<notin> demo_used \<and>
     page_at (w_os w') s = page_at demo_os (demo_page 3 + 100) \<and> writable (os_prot (w_os w') (vpn (demo_page 3 + 100)))"
proof -
  have a: "page_base (demo_page 3 + 100) = demo_page 3" by (simp add: page_base_def demo_page_def PAGE_SIZE_def)
  have "d_maddr (se_cur demo_entry) = demo_page 3" by (simp add: demo_entry_def)
  moreover have "\<not> writable (demo_pr (demo_page 3))"
    unfolding demo_views(2) by (simp add: writable_def PA_PROT_READ_def)
  moreover have "\<not> w_copynswap demo_world" "w_os demo_world = demo_os" by (simp_all add: demo_world_def)
  ultimately show ?thesis
    using store_copies_on_write [OF demo_mem demo_data_page, of "demo_page 3 + 100"] unfolding a by auto
qed

end
