(* ===== verification/Slab.thy ===== *)
theory Slab
  imports Cow
begin

text \<open>
  The slab allocator: the constructors of \<^verbatim>\<open>src/src/slab.c\<close> and the allocation of \<^verbatim>\<open>src/src/alloc.c\<close>.
  An object is a slot of a data page, the page is described by a slab entry, the entries lie in
  buckets, the buckets under the inner and outer nodes of the directory.  The entries without a
  data page are on the free list of the directory, the entries of one size on the list of their
  \<^verbatim>\<open>slab_entry_size\<close>; the list macros write to the pages of the entries and of the directory, so
  their stores are touches of these pages.
\<close>

section \<open>Lists of entries\<close>

definition free_list_head :: "nat \<Rightarrow> nat" where "free_list_head sd = 2 * sd"
definition es_list_head :: "nat \<Rightarrow> nat" where "es_list_head es = 2 * es + 1"

definition linksM :: "(qstore \<Rightarrow> qstore res) \<Rightarrow> unit M" where
  "linksM f = bindM (getM w_links) (\<lambda>q. bindM (liftM (f q)) (\<lambda>q. modM (\<lambda>w. w\<lparr>w_links := q\<rparr>)))"

text \<open>The page of a pointer field: the head of a size list is on the heap.\<close>

definition touch_loc :: "loc \<Rightarrow> unit M" where
  "touch_loc l = (case l of LNext e \<Rightarrow> touch e | LFirst h \<Rightarrow> ifM (even h) (touch (h div 2)))"

definition insert_tail :: "nat \<Rightarrow> nat \<Rightarrow> unit M" where
  "insert_tail h se =
     thenM (touch se) (bindM (getM w_links) (\<lambda>q.
     thenM (touch_loc (lastp q h)) (thenM (touch_loc (LFirst h)) (linksM (\<lambda>q. STAILQ_INSERT_TAIL q h se)))))"

definition insert_head :: "nat \<Rightarrow> nat \<Rightarrow> unit M" where
  "insert_head h se = thenM (touch se) (thenM (touch_loc (LFirst h)) (linksM (\<lambda>q. STAILQ_INSERT_HEAD q h se)))"

definition remove_head :: "nat \<Rightarrow> unit M" where
  "remove_head h = thenM (touch_loc (LFirst h)) (linksM (\<lambda>q. STAILQ_REMOVE_HEAD q h))"

definition init_list :: "nat \<Rightarrow> unit M" where
  "init_list h = thenM (touch_loc (LFirst h)) (linksM (\<lambda>q. Inr (STAILQ_INIT q h)))"

section \<open>The index of sizes\<close>

definition slab_entry_size_compare_by_size :: "nat \<Rightarrow> nat \<Rightarrow> int" where
  "slab_entry_size_compare_by_size a b = (if a < b then - 1 else if a > b then 1 else 0)"

text \<open>A search key stands at address 0, as in the index of pages.\<close>

definition size_cmp :: "world \<Rightarrow> nat \<Rightarrow> nat \<Rightarrow> nat \<Rightarrow> int" where
  "size_cmp w key a b =
     slab_entry_size_compare_by_size (if a = 0 then key else w_es w a) (if b = 0 then key else w_es w b)"

definition find_size :: "nat \<Rightarrow> nat \<Rightarrow> nat option M" where
  "find_size sd sz =
     bindM (rd_dir sd) (\<lambda>d. bindM (getM (\<lambda>w. w)) (\<lambda>w.
     retM (map_option node_elem (RB_FIND (size_cmp w sz) (sd_size_root d) 0))))"

definition index_size :: "nat \<Rightarrow> nat \<Rightarrow> unit M" where
  "index_size sd es =
     bindM (rd_dir sd) (\<lambda>d. bindM (getM (\<lambda>w. w)) (\<lambda>w.
     bindM (liftM (RB_INSERT (size_cmp w 0) (sd_size_root d) es)) (\<lambda>(r, _).
     up_dir touch sd (\<lambda>d. d\<lparr>sd_size_root := r\<rparr>))))"

definition slab_entry_size_init :: "nat \<Rightarrow> nat M" where
  "slab_entry_size_init sz =
     bindM (getM w_next_es) (\<lambda>es.
     thenM (modM (\<lambda>w. w\<lparr>w_es := (w_es w)(es := sz), w_next_es := es + 1\<rparr>))
     (thenM (linksM (\<lambda>q. Inr (STAILQ_INIT q (es_list_head es)))) (retM es)))"

section \<open>Constructors\<close>

definition GET_NEXT_BUCKET_ID :: "nat M" where
  "GET_NEXT_BUCKET_ID = bindM (getM w_next_sb) (\<lambda>i. thenM (modM (\<lambda>w. w\<lparr>w_next_sb := (i + 1) mod 2 ^ 32\<rparr>)) (retM i))"

definition GET_NEXT_SLAB_ENTRY_ID :: "nat M" where
  "GET_NEXT_SLAB_ENTRY_ID = bindM (getM w_next_se) (\<lambda>i. thenM (modM (\<lambda>w. w\<lparr>w_next_se := (i + 1) mod 2 ^ 32\<rparr>)) (retM i))"

definition slab_entry_init :: "nat \<Rightarrow> nat \<Rightarrow> unit M" where
  "slab_entry_init se sz =
     thenM (if se \<noteq> 0 then retM () else errM (Assertion ''Invalid pointer''))
     (thenM (statM Se_init)
     (bindM (getpage PA_PROT_READ) (\<lambda>(maddr, laddr).
     thenM (up_se touch se (\<lambda>e. e\<lparr>
         se_cur := (se_cur e)\<lparr>d_maddr := maddr, d_laddr := laddr\<rparr>,
         se_snap := (se_snap e)\<lparr>d_maddr := maddr, d_laddr := laddr\<rparr>,
         ptr_cur := \<lparr>p_idx = 0, p_maddr = 0, p_laddr = 0\<rparr>,
         ptr_snap := \<lparr>p_idx = 0, p_maddr = 0, p_laddr = 0\<rparr>,
         se_size := sz\<rparr>))
     (bindM GET_NEXT_SLAB_ENTRY_ID (\<lambda>i. up_se touch se (\<lambda>e. e\<lparr>se_id := i\<rparr>))))))"

definition slab_outer_init :: "(nat \<times> nat) M" where
  "slab_outer_init = thenM (statM So_init) (getpage PA_PROT_WRITE)"

definition slab_inner_init :: "(nat \<times> nat) M" where
  "slab_inner_init = thenM (statM Si_init) (getpage PA_PROT_WRITE)"

definition free_entries :: "nat \<Rightarrow> nat \<Rightarrow> unit M" where
  "free_entries sd sb = eachM (\<lambda>i. insert_tail (free_list_head sd) (se_addr sb i)) [0..<SLAB_BUCKET_ENTRIES]"

definition slab_bucket_init :: "(nat \<times> nat) M" where
  "slab_bucket_init =
     thenM (statM Sb_init)
     (bindM current_sd (\<lambda>sd.
     bindM (getpage PA_PROT_WRITE) (\<lambda>(sb, laddr).
     thenM (thenM (touch sb) (poke sb PZero))
     (bindM GET_NEXT_BUCKET_ID (\<lambda>i.
     thenM (up_bucket touch sb (\<lambda>b. b\<lparr>sb_id := i\<rparr>))
     (thenM (free_entries sd sb) (retM (sb, laddr))))))))"

text \<open>The next child of a node and of the directory: current and snapshot start as the same page.\<close>

definition push_child :: "nat \<Rightarrow> nat \<Rightarrow> slab_node \<Rightarrow> slab_node" where
  "push_child a l n = n\<lparr>
     node_current := (node_current n)[node_index n := \<lparr>l_maddr = a, l_laddr = l\<rparr>],
     node_snapshot := (node_snapshot n)[node_index n := \<lparr>l_maddr = a, l_laddr = l\<rparr>],
     node_index := node_index n + 1\<rparr>"

definition push_outer :: "nat \<Rightarrow> nat \<Rightarrow> slab_dir \<Rightarrow> slab_dir" where
  "push_outer a l d = d\<lparr>
     sd_current := (sd_current d)[sd_index d := \<lparr>l_maddr = a, l_laddr = l\<rparr>],
     sd_snapshot := (sd_snapshot d)[sd_index d := \<lparr>l_maddr = a, l_laddr = l\<rparr>],
     sd_index := sd_index d + 1\<rparr>"

definition add_to_inner :: "nat \<Rightarrow> nat \<Rightarrow> nat \<Rightarrow> unit M" where
  "add_to_inner si a l =
     bindM (rd_inner si) (\<lambda>n. bindM (cellM (node_current n) (node_index n)) (\<lambda>_. up_inner touch si (push_child a l)))"

definition add_to_outer :: "nat \<Rightarrow> nat \<Rightarrow> nat \<Rightarrow> unit M" where
  "add_to_outer so a l =
     bindM (rd_outer so) (\<lambda>n. bindM (cellM (node_current n) (node_index n)) (\<lambda>_. up_outer touch so (push_child a l)))"

definition add_to_dir :: "nat \<Rightarrow> nat \<Rightarrow> nat \<Rightarrow> unit M" where
  "add_to_dir sd a l =
     bindM (rd_dir sd) (\<lambda>d. bindM (cellM (sd_current d) (sd_index d)) (\<lambda>_. up_dir touch sd (push_outer a l)))"

text \<open>
  The directory of a new container.  The pages are not cleared: their fields are those of a page of
  zeroes when the file is new.
\<close>

definition slab_dir_init :: "(nat \<times> nat) M" where
  "slab_dir_init =
     bindM (getpage PA_PROT_WRITE) (\<lambda>(sd, laddr).
     bindM slab_outer_init (\<lambda>(so, so_laddr).
     bindM slab_inner_init (\<lambda>(si, si_laddr).
     bindM (getpage PA_PROT_WRITE) (\<lambda>(sb, sb_laddr).
     bindM GET_NEXT_BUCKET_ID (\<lambda>i.
     thenM (up_bucket touch sb (\<lambda>b. b\<lparr>sb_id := i\<rparr>))
     (thenM (add_to_dir sd so so_laddr)
     (thenM (up_dir touch sd (\<lambda>d. d\<lparr>sd_maddr_root := RNil, sd_size_root := RNil\<rparr>))
     (thenM (init_list (free_list_head sd))
     (thenM (add_to_outer so si si_laddr)
     (thenM (add_to_inner si sb sb_laddr)
     (thenM (free_entries sd sb)
     (thenM (up_dir touch sd (\<lambda>d. d\<lparr>sd_vector := VECTOR_INIT\<rparr>))
     (retM (sd, laddr))))))))))))))"

section \<open>Slots of a data page\<close>

text \<open>
  The bitmap of a large entry is one byte of the entry, enough for its at most eight slots; the
  bitmap of a small entry is at the start of its data page.
\<close>

definition SLAB_ENTRY_CBITMAP :: "slab_entry \<Rightarrow> bitstr M" where
  "SLAB_ENTRY_CBITMAP e =
     (if se_size e \<ge> SLAB_LARGE_ALLOC then retM (\<lambda>i. if i = 0 then d_bitmap (se_cur e) else 0)
      else rd_data (d_maddr (se_cur e)))"

definition set_slot :: "nat \<Rightarrow> slab_entry \<Rightarrow> nat \<Rightarrow> unit M" where
  "set_slot se e idx =
     (if se_size e \<ge> SLAB_LARGE_ALLOC
      then up_se touch se (\<lambda>e. e\<lparr>se_cur := (se_cur e)\<lparr>d_bitmap := bit_set (\<lambda>_. d_bitmap (se_cur e)) idx 0\<rparr>\<rparr>)
      else up_data touch (d_maddr (se_cur e)) (\<lambda>d. bit_set d idx))"

fun count_set :: "bitstr \<Rightarrow> nat list \<Rightarrow> nat" where
  "count_set bitmap [] = 0"
| "count_set bitmap (i # is) = (if bit_test bitmap i \<noteq> 0 then 1 else 0) + count_set bitmap is"

definition slab_entry_full :: "nat \<Rightarrow> bool M" where
  "slab_entry_full se =
     bindM (rd_se se) (\<lambda>e.
     bindM (SLAB_ENTRY_CBITMAP e) (\<lambda>bitmap.
     bindM (liftM (SLAB_ENTRY_CAPACITY e)) (\<lambda>cap.
     retM (count_set bitmap [0..<cap] = cap))))"

definition slab_entry_alloc_mem :: "nat \<Rightarrow> nat M" where
  "slab_entry_alloc_mem se =
     bindM (rd_se se) (\<lambda>e.
     bindM (SLAB_ENTRY_CBITMAP e) (\<lambda>bitmap.
     bindM (liftM (SLAB_ENTRY_CAPACITY e)) (\<lambda>cap.
     bindM (liftM (SLAB_ENTRY_DATAOFFSET e)) (\<lambda>off.
     thenM (if d_maddr (se_cur e) \<noteq> 0 then retM () else errM (Assertion ''Invalid pointer to data (NULL)''))
     (let idx = bit_ffc bitmap cap in
      if idx \<noteq> - 1
      then thenM (set_slot se e (nat idx)) (retM (d_maddr (se_cur e) + off + nat idx * se_size e))
      else retM 0)))))"

section \<open>A free slab entry\<close>

text \<open>The index \<^verbatim>\<open>i - 1\<close> is an unsigned int: below 0 it is far outside the array.\<close>

definition last_link :: "'a list \<Rightarrow> nat \<Rightarrow> 'a M" where
  "last_link xs i = (if i = 0 then errM (Undefined ''index outside the array'') else cellM xs (i - 1))"

definition set_cont_snap_laddr :: "nat \<Rightarrow> nat \<Rightarrow> unit M" where
  "set_cont_snap_laddr c l = up_cont touch c (\<lambda>k. k\<lparr>c_snapshot_slab := (c_snapshot_slab k)\<lparr>l_laddr := l\<rparr>\<rparr>)"

definition set_cont_snap_maddr :: "nat \<Rightarrow> nat \<Rightarrow> unit M" where
  "set_cont_snap_maddr c a = up_cont touch c (\<lambda>k. k\<lparr>c_snapshot_slab := (c_snapshot_slab k)\<lparr>l_maddr := a\<rparr>\<rparr>)"

definition set_dir_snap :: "nat \<Rightarrow> (plink \<Rightarrow> plink) \<Rightarrow> slab_dir \<Rightarrow> slab_dir" where
  "set_dir_snap i f d = d\<lparr>sd_snapshot := (sd_snapshot d)[i := f (sd_snapshot d ! i)]\<rparr>"

text \<open>A new outer node (the directory is copied once), or a copy of the full path's outer node.\<close>

definition grow_dir :: "nat \<Rightarrow> nat M" where
  "grow_dir sd =
     bindM (getM w_cont) (\<lambda>c. bindM (rd_cont c) (\<lambda>k.
     thenM
       (if l_maddr (c_current_slab k) = l_maddr (c_snapshot_slab k)
        then bindM (slab_dir_snapshot sd (set_cont_snap_laddr c)) (set_cont_snap_maddr c)
        else retM ())
     (bindM (rd_dir sd) (\<lambda>d.
     if SLAB_DIR_FULL d then errM (Handle_error ''Slab directory is full. Can not allocate more memory.'')
     else bindM slab_outer_init (\<lambda>(so, so_laddr). thenM (add_to_dir sd so so_laddr) (retM so))))))"

definition copy_outer :: "nat \<Rightarrow> nat \<Rightarrow> unit M" where
  "copy_outer sd so =
     bindM (rd_dir sd) (\<lambda>d. bindM (rd_outer so) (\<lambda>o'.
     bindM (last_link (sd_current d) (node_index o')) (\<lambda>cur.
     bindM (last_link (sd_snapshot d) (sd_index d)) (\<lambda>snap.
     if l_maddr cur = l_maddr snap
     then let i = sd_index d - 1
          in bindM (slab_outer_snapshot so (\<lambda>l. up_dir touch sd (set_dir_snap i (\<lambda>p. p\<lparr>l_laddr := l\<rparr>))))
               (\<lambda>sos. up_dir touch sd (set_dir_snap i (\<lambda>p. p\<lparr>l_maddr := sos\<rparr>)))
     else retM ()))))"

text \<open>A new inner node under the last outer node, or a copy of the inner node that gets the bucket.\<close>

definition grow_outer :: "nat \<Rightarrow> nat \<Rightarrow> nat M" where
  "grow_outer sd so =
     bindM (rd_outer so) (\<lambda>o'.
     bindM (if SLAB_OUTER_FULL o' then grow_dir sd else thenM (copy_outer sd so) (retM so)) (\<lambda>so.
     bindM slab_inner_init (\<lambda>(si, si_laddr). thenM (add_to_outer so si si_laddr) (retM si))))"

definition copy_inner :: "nat \<Rightarrow> nat \<Rightarrow> unit M" where
  "copy_inner so si =
     bindM (rd_outer so) (\<lambda>o'.
     bindM (last_link (node_current o') (node_index o')) (\<lambda>cur.
     bindM (last_link (node_snapshot o') (node_index o')) (\<lambda>snap.
     if l_maddr cur = l_maddr snap
     then let i = node_index o' - 1
          in bindM (slab_inner_snapshot si (\<lambda>l. up_outer touch so (set_snap_laddr i l)))
               (\<lambda>sis. up_outer touch so (set_snap_maddr i sis))
     else retM ())))"

definition grow_slab :: "nat \<Rightarrow> unit M" where
  "grow_slab sd =
     bindM (rd_dir sd) (\<lambda>d.
     bindM (last_link (sd_current d) (sd_index d)) (\<lambda>lo. let so = l_maddr lo in
     bindM (rd_outer so) (\<lambda>o'.
     bindM (last_link (node_current o') (node_index o')) (\<lambda>li. let si = l_maddr li in
     bindM (rd_inner si) (\<lambda>n.
     bindM (if SLAB_INNER_FULL n then grow_outer sd so else thenM (copy_inner so si) (retM si)) (\<lambda>si.
     bindM slab_bucket_init (\<lambda>(sb, sb_laddr). add_to_inner si sb sb_laddr)))))))"

definition get_free_slab_entry :: "nat M" where
  "get_free_slab_entry =
     bindM current_sd (\<lambda>sd.
     bindM (getM (\<lambda>w. STAILQ_FIRST (w_links w) (free_list_head sd))) (\<lambda>se.
     bindM
       (if se \<noteq> 0 then retM se
        else thenM (grow_slab sd)
          (bindM (getM (\<lambda>w. STAILQ_FIRST (w_links w) (free_list_head sd))) (\<lambda>se.
           if se = 0 then errM (Handle_error ''failed to get an slab_entry even after initializing a new slab_bucket!'')
           else retM se)))
     (\<lambda>se. thenM (remove_head (free_list_head sd)) (retM se))))"

section \<open>Allocation\<close>

definition Func_slab_bucket_snapshot :: "nat \<Rightarrow> bool M" where
  "Func_slab_bucket_snapshot sb =
     bindM (getM w_copynswap) (\<lambda>s. if s then slab_bucket_copynswap sb else slab_bucket_snapshot sb)"

text \<open>The flag of the bucket becomes the result of taking its snapshot.\<close>

definition mark_bucket :: "nat \<Rightarrow> unit M" where
  "mark_bucket sb =
     bindM (Func_slab_bucket_snapshot sb) (\<lambda>snap. up_bucket touch sb (\<lambda>b. b\<lparr>sb_has_snapshot := snap\<rparr>))"

text \<open>The entry for an object of the size, with its list: the head of the list, or a new entry in front.\<close>

definition pick_entry :: "nat \<Rightarrow> nat \<Rightarrow> (nat \<times> nat) M" where
  "pick_entry sd size8 =
     bindM (find_size sd size8) (\<lambda>found. case found of
       Some es \<Rightarrow>
         bindM (getM (\<lambda>w. STAILQ_FIRST (w_links w) (es_list_head es))) (\<lambda>se.
         bindM (slab_entry_full se) (\<lambda>full.
         if full
         then bindM get_free_slab_entry (\<lambda>se. thenM (insert_head (es_list_head es) se) (retM (es, se)))
         else retM (es, se)))
     | None \<Rightarrow>
         bindM (slab_entry_size_init size8) (\<lambda>es.
         thenM (index_size sd es)
         (bindM get_free_slab_entry (\<lambda>se. thenM (insert_head (es_list_head es) se) (retM (es, se))))))"

definition slab_palloc :: "u32 \<Rightarrow> nat M" where
  "slab_palloc sz =
     (let size8 = unat (ROUND8 sz) in
      thenM (statM Pallocations)
      (if unat sz > PAGE_SIZE then errM (Handle_error ''allocations bigger than 4KB are not implemented yet.'')
       else bindM current_sd (\<lambda>sd.
         bindM (pick_entry sd size8) (\<lambda>(es, se).
         thenM (mark_bucket (page_base se))
         (bindM (rd_se se) (\<lambda>e.
         thenM (if SLAB_ENTRY_IS_INIT e then retM ()
                else thenM (slab_entry_init se size8) (index_entry touch sd se))
         (bindM (slab_entry_alloc_mem se) (\<lambda>maddr.
         bindM (slab_entry_full se) (\<lambda>full.
         thenM (if full then insert_tail (es_list_head es) se else retM ())
         (retM maddr))))))))))"

section \<open>The layout of a data page\<close>

text \<open>
  The capacity and the offset of the first slot, and whether the slots stay in the page, for every
  size the allocator rounds to below \<^verbatim>\<open>SLAB_LARGE_ALLOC\<close>.
\<close>

definition layout_row :: "nat \<Rightarrow> bool" where
  "layout_row k \<longleftrightarrow>
     (let n = 8 * k; cap = (4096 - (n + 7) div 8) div n; off = (4096 div n + 7) div 8
      in (off + cap * n \<le> 4096 \<longleftrightarrow> k \<notin> {1, 2, 3, 7}) \<and> (cap + 7) div 8 \<le> off \<and> 0 < cap)"

lemma layout_rows: "list_all layout_row [1..<64]"
  by (simp add: upt_rec layout_row_def)

lemma layout_of_size:
  assumes "se_size e = 8 * k" "0 < k" "k \<le> 512"
  shows "\<exists>cap off. SLAB_ENTRY_CAPACITY e = Inr cap \<and> SLAB_ENTRY_DATAOFFSET e = Inr off \<and> 0 < cap \<and>
    (off + cap * se_size e \<le> PAGE_SIZE \<longleftrightarrow> k \<notin> {1, 2, 3, 7}) \<and>
    (se_size e < SLAB_LARGE_ALLOC \<longrightarrow> bitstr_size cap \<le> off) \<and>
    (SLAB_LARGE_ALLOC \<le> se_size e \<longrightarrow> off = 0 \<and> cap \<le> 8)"
proof (cases "k < 64")
  case True
  then have r: "layout_row k" using layout_rows assms(2) by (simp add: list_all_iff)
  have sz: "se_size e < SLAB_LARGE_ALLOC" "se_size e \<noteq> 0" using True assms by (simp_all add: SLAB_LARGE_ALLOC_def)
  then have "SLAB_ENTRY_CAPACITY e = Inr ((4096 - (8 * k + 7) div 8) div (8 * k))"
    "SLAB_ENTRY_DATAOFFSET e = Inr ((4096 div (8 * k) + 7) div 8)"
    using assms(1) by (simp_all add: SLAB_ENTRY_CAPACITY_def SLAB_ENTRY_DATAOFFSET_def bitstr_size_div PAGE_SIZE_def)
  then show ?thesis using r sz assms(1) unfolding layout_row_def Let_def bitstr_size_div
    by (auto simp: PAGE_SIZE_def)
next
  case False
  then have sz: "SLAB_LARGE_ALLOC \<le> se_size e" "se_size e \<noteq> 0" using assms by (simp_all add: SLAB_LARGE_ALLOC_def)
  then have c: "SLAB_ENTRY_CAPACITY e = Inr (PAGE_SIZE div se_size e)" "SLAB_ENTRY_DATAOFFSET e = Inr 0"
    by (simp_all add: SLAB_ENTRY_CAPACITY_def SLAB_ENTRY_DATAOFFSET_def)
  have "PAGE_SIZE div se_size e \<le> PAGE_SIZE div 512"
    using sz(1) by (intro div_le_mono2) (simp_all add: SLAB_LARGE_ALLOC_def)
  then have "PAGE_SIZE div se_size e \<le> 8" by (simp add: PAGE_SIZE_def)
  moreover have "se_size e \<le> PAGE_SIZE" using assms by (simp add: PAGE_SIZE_def)
  then have "0 < PAGE_SIZE div se_size e" using sz(2) by (simp add: div_greater_zero_iff)
  moreover have "PAGE_SIZE div se_size e * se_size e \<le> PAGE_SIZE" by simp
  moreover have "k \<notin> {1, 2, 3, 7}" using False by auto
  ultimately show ?thesis using c sz by auto
qed

text \<open>
  C16: The layout of a data page.  For every size \<^verbatim>\<open>8 * k\<close> up to a page the capacity and the offset of
  the first slot are defined and there is at least one slot.  The slots lie inside the page except
  for the sizes 8, 16, 24 and 56, where the last slot ends behind it; the bitmap at the start of the
  page ends before the first slot, and a large size has at most the eight slots of its bitmap byte.
\<close>

theorem slab_layout:
  assumes "se_size e = 8 * k" "0 < k" "k \<le> 512"
  shows "\<exists>cap off. SLAB_ENTRY_CAPACITY e = Inr cap \<and> SLAB_ENTRY_DATAOFFSET e = Inr off \<and> 0 < cap \<and>
    (off + cap * se_size e \<le> PAGE_SIZE \<longleftrightarrow> k \<notin> {1, 2, 3, 7}) \<and>
    (se_size e < SLAB_LARGE_ALLOC \<longrightarrow> bitstr_size cap \<le> off) \<and>
    (SLAB_LARGE_ALLOC \<le> se_size e \<longrightarrow> off = 0 \<and> cap \<le> 8)"
  by (rule layout_of_size [OF assms])

theorem slab_layout_witness:
  "\<exists>cap off. SLAB_ENTRY_CAPACITY (zero_entry\<lparr>se_size := 24\<rparr>) = Inr cap \<and>
    SLAB_ENTRY_DATAOFFSET (zero_entry\<lparr>se_size := 24\<rparr>) = Inr off \<and> PAGE_SIZE < off + cap * 24"
  using slab_layout [of "zero_entry\<lparr>se_size := 24\<rparr>" 3] by auto


section \<open>Allocation of a slot\<close>

text \<open>The bitmap of an entry in the memory, and the first slots.\<close>

definition bitmap_at :: "(nat \<Rightarrow> page) \<Rightarrow> slab_entry \<Rightarrow> bitstr" where
  "bitmap_at c e =
     (if SLAB_LARGE_ALLOC \<le> se_size e then (\<lambda>i. if i = 0 then d_bitmap (se_cur e) else 0)
      else the (as_data (c (d_maddr (se_cur e)))))"

definition slot_used :: "(nat \<Rightarrow> page) \<Rightarrow> slab_entry \<Rightarrow> nat \<Rightarrow> bool" where
  "slot_used c e i \<longleftrightarrow> bit_test (bitmap_at c e) i \<noteq> 0"

text \<open>An entry in use: its pages are in the memory, its data page holds data.\<close>

definition entry_ok :: "nat set \<Rightarrow> (nat \<Rightarrow> page) \<Rightarrow> nat \<Rightarrow> slab_entry \<Rightarrow> bool" where
  "entry_ok U c se e \<longleftrightarrow> page_base se \<in> U \<and> entry_at c se = Some e \<and> d_maddr (se_cur e) \<in> U \<and>
     (se_size e < SLAB_LARGE_ALLOC \<longrightarrow> as_data (c (d_maddr (se_cur e))) \<noteq> None) \<and> 0 < se_size e"

lemma CBITMAP_ok:
  assumes "mem U c pr k r w" "entry_ok U c se e"
  shows "SLAB_ENTRY_CBITMAP e w = Inr (bitmap_at c e, w)"
proof (cases "SLAB_LARGE_ALLOC \<le> se_size e")
  case False
  then obtain d where "as_data (c (d_maddr (se_cur e))) = Some d" using assms(2) by (auto simp: entry_ok_def)
  then show ?thesis using rd_at(6) [OF assms(1)] False assms(2) by (simp add: SLAB_ENTRY_CBITMAP_def bitmap_at_def entry_ok_def)
qed (simp add: SLAB_ENTRY_CBITMAP_def bitmap_at_def)

lemma count_set_all: "count_set f xs \<le> List.length xs" "count_set f xs = List.length xs \<longleftrightarrow> (\<forall>i\<in>set xs. bit_test f i \<noteq> 0)"
proof -
  show le: "count_set f xs \<le> List.length xs" for xs by (induction xs) auto
  show "count_set f xs = List.length xs \<longleftrightarrow> (\<forall>i\<in>set xs. bit_test f i \<noteq> 0)"
  proof (induction xs)
    case (Cons x xs)
    then show ?case using le [of xs] by auto
  qed simp
qed

lemma slab_entry_full_ok:
  assumes "mem U c pr k r w" "entry_ok U c se e" "SLAB_ENTRY_CAPACITY e = Inr cap"
  shows "slab_entry_full se w = Inr (\<forall>i<cap. slot_used c e i, w)"
proof -
  have "rd_se se w = Inr (e, w)" using rd_se_ok [OF assms(1)] assms(2) by (simp add: entry_ok_def)
  then show ?thesis
    using CBITMAP_ok [OF assms(1,2)] assms(3) count_set_all(2) [of "bitmap_at c e" "[0..<cap]"]
    by (simp add: slab_entry_full_def bindM_def slot_used_def) (auto simp: atLeast0LessThan)
qed

text \<open>The store that marks a slot: in the entry, or in the data page.\<close>

definition mark_slot :: "(nat \<Rightarrow> page) \<Rightarrow> nat \<Rightarrow> slab_entry \<Rightarrow> nat \<Rightarrow> nat \<Rightarrow> page" where
  "mark_slot c se e i =
     (if SLAB_LARGE_ALLOC \<le> se_size e
      then with_entry c se (\<lambda>e. e\<lparr>se_cur := (se_cur e)\<lparr>d_bitmap := bit_set (\<lambda>_. d_bitmap (se_cur e)) i 0\<rparr>\<rparr>)
      else c(d_maddr (se_cur e) := PData (bit_set (bitmap_at c e) i)))"

definition marked_entry :: "slab_entry \<Rightarrow> nat \<Rightarrow> slab_entry" where
  "marked_entry e i =
     (if SLAB_LARGE_ALLOC \<le> se_size e
      then e\<lparr>se_cur := (se_cur e)\<lparr>d_bitmap := bit_set (\<lambda>_. d_bitmap (se_cur e)) i 0\<rparr>\<rparr> else e)"

lemma set_slot_ends:
  assumes e: "entry_ok U c se e" and w: "writable (pr (page_base se))" "writable (pr (d_maddr (se_cur e)))"
  shows "ends (mem U c pr k r) (set_slot se e i) (\<lambda>_. mem U (mark_slot c se e i) pr k r)"
proof (cases "SLAB_LARGE_ALLOC \<le> se_size e")
  case True
  then show ?thesis
    using total_up_se [of touch se U pr c e] e w by (simp add: set_slot_def mark_slot_def entry_ok_def)
next
  case False
  then obtain d where "as_data (c (d_maddr (se_cur e))) = Some d" using e by (auto simp: entry_ok_def)
  then show ?thesis
    using total_up(6) [of touch "d_maddr (se_cur e)" U pr c d k r "\<lambda>d. bit_set d i"] e w False
    by (simp add: set_slot_def mark_slot_def entry_ok_def bitmap_at_def)
qed

lemma mark_slot_ok:
  assumes e: "entry_ok U c se e" and ne: "page_base se \<noteq> d_maddr (se_cur e)"
    and i: "SLAB_ENTRY_CAPACITY e = Inr cap" "i < cap"
  shows "entry_ok U (mark_slot c se e i) se (marked_entry e i)"
    and "j < cap \<Longrightarrow> slot_used (mark_slot c se e i) (marked_entry e i) j \<longleftrightarrow> j = i \<or> slot_used c e j"
    and "b \<noteq> page_base se \<Longrightarrow> b \<noteq> d_maddr (se_cur e) \<Longrightarrow> mark_slot c se e i b = c b"
proof -
  have at: "entry_at c se = Some e" using e by (simp add: entry_ok_def)
  note we = entry_with_entry [OF at]
  show "entry_ok U (mark_slot c se e i) se (marked_entry e i)"
    using e ne we(1) by (auto simp: entry_ok_def mark_slot_def marked_entry_def)
  show "b \<noteq> page_base se \<Longrightarrow> b \<noteq> d_maddr (se_cur e) \<Longrightarrow> mark_slot c se e i b = c b"
    using we(3) by (simp add: mark_slot_def)
  show "slot_used (mark_slot c se e i) (marked_entry e i) j \<longleftrightarrow> j = i \<or> slot_used c e j" if j: "j < cap"
  proof (cases "SLAB_LARGE_ALLOC \<le> se_size e")
    case True
    then have "PAGE_SIZE div se_size e \<le> PAGE_SIZE div 512"
      by (intro div_le_mono2) (simp_all add: SLAB_LARGE_ALLOC_def)
    then have "cap \<le> 8" using i(1) True e by (simp add: SLAB_ENTRY_CAPACITY_def PAGE_SIZE_def entry_ok_def split: if_splits)
    then have b: "bit_byte i = 0" "bit_byte j = 0" using i(2) j by (simp_all add: bit_byte_div)
    have "bits (\<lambda>n. if n = 0 then bit_set (\<lambda>_. x) i 0 else 0) j \<longleftrightarrow> j = i \<or> bits (\<lambda>n. if n = 0 then x else 0) j" for x
    proof -
      have "(\<lambda>n. if n = 0 then bit_set (\<lambda>_. x) i 0 else 0) = bit_set (\<lambda>n. if n = 0 then x else 0) i"
        using b by (auto simp: bit_set_def fun_eq_iff)
      then show ?thesis by (simp add: bits_bit_set)
    qed
    then show ?thesis using True by (simp add: slot_used_def bitmap_at_def marked_entry_def cong: if_cong)
  next
    case False
    then show ?thesis by (simp add: slot_used_def bitmap_at_def marked_entry_def mark_slot_def bits_bit_set)
  qed
qed

lemma total_of_read:
  assumes "\<And>w. mem U c pr k r w \<Longrightarrow> m w = Inr (x, w)"
  shows "ends (mem U c pr k r) m (\<lambda>y w. y = x \<and> mem U c pr k r w)"
  using assms by (simp add: ends_def)

lemma alloc_mem_ends:
  assumes e: "entry_ok U c se e" "page_base se \<noteq> d_maddr (se_cur e)"
    and w: "writable (pr (page_base se))" "writable (pr (d_maddr (se_cur e)))"
    and s: "SLAB_ENTRY_CAPACITY e = Inr cap" "SLAB_ENTRY_DATAOFFSET e = Inr off"
    and i: "i < cap" "\<not> slot_used c e i" "\<forall>j<i. slot_used c e j"
  shows "ends (mem U c pr k r) (slab_entry_alloc_mem se)
    (\<lambda>a w. a = d_maddr (se_cur e) + off + i * se_size e \<and> mem U (mark_slot c se e i) pr k r w)"
  unfolding ends_def
proof (intro allI impI)
  fix w
  assume m: "mem U c pr k r w"
  have f: "bit_ffc (bitmap_at c e) cap = int i"
    using i by (simp add: bm.find_free_slot slot_used_def)
  have "0 < d_maddr (se_cur e)" using mem_page(2) [OF m] e(1) by (simp add: entry_ok_def)
  moreover have "rd_se se w = Inr (e, w)" using rd_se_ok [OF m] e(1) by (simp add: entry_ok_def)
  moreover obtain w' where w': "set_slot se e i w = Inr ((), w')" "mem U (mark_slot c se e i) pr k r w'"
    using endsD [OF set_slot_ends [OF e(1) w] m] by auto
  ultimately have "slab_entry_alloc_mem se w = Inr (d_maddr (se_cur e) + off + i * se_size e, w')"
    using CBITMAP_ok [OF m e(1)] s f by (simp add: slab_entry_alloc_mem_def bindM_def thenM_def)
  then show "\<exists>x w'. slab_entry_alloc_mem se w = Inr (x, w') \<and>
      x = d_maddr (se_cur e) + off + i * se_size e \<and> mem U (mark_slot c se e i) pr k r w'"
    using w'(2) by blast
qed

lemma alloc_mem_full:
  assumes m: "mem U c pr k r w" and e: "entry_ok U c se e"
    and s: "SLAB_ENTRY_CAPACITY e = Inr cap" "SLAB_ENTRY_DATAOFFSET e = Inr off" and i: "\<forall>j<cap. slot_used c e j"
  shows "slab_entry_alloc_mem se w = Inr (0, w)"
proof -
  have "bit_ffc (bitmap_at c e) cap = - 1" using i by (simp add: bm.find_free_none slot_used_def)
  moreover have "0 < d_maddr (se_cur e)" using mem_page(2) [OF m] e by (simp add: entry_ok_def)
  moreover have "rd_se se w = Inr (e, w)" using rd_se_ok [OF m] e by (simp add: entry_ok_def)
  ultimately show ?thesis using CBITMAP_ok [OF m e] s by (simp add: slab_entry_alloc_mem_def bindM_def)
qed

lemma marked_same [simp]:
  "se_size (marked_entry e i) = se_size e" "d_maddr (se_cur (marked_entry e i)) = d_maddr (se_cur e)"
  "SLAB_ENTRY_CAPACITY (marked_entry e i) = SLAB_ENTRY_CAPACITY e"
  "SLAB_ENTRY_DATAOFFSET (marked_entry e i) = SLAB_ENTRY_DATAOFFSET e"
  by (simp_all add: marked_entry_def SLAB_ENTRY_CAPACITY_def SLAB_ENTRY_DATAOFFSET_def)

text \<open>Several allocations from one entry, their results in order.\<close>

fun alloc_times :: "nat \<Rightarrow> nat \<Rightarrow> nat list M" where
  "alloc_times se 0 = retM []"
| "alloc_times se (Suc n) = bindM (slab_entry_alloc_mem se) (\<lambda>a. bindM (alloc_times se n) (\<lambda>as. retM (a # as)))"

definition slot_addr :: "slab_entry \<Rightarrow> nat \<Rightarrow> nat \<Rightarrow> nat" where
  "slot_addr e off i = d_maddr (se_cur e) + off + i * se_size e"

lemma alloc_times_ends:
  assumes "entry_ok U c se e" "page_base se \<noteq> d_maddr (se_cur e)"
    and "writable (pr (page_base se))" "writable (pr (d_maddr (se_cur e)))"
    and "SLAB_ENTRY_CAPACITY e = Inr cap" "SLAB_ENTRY_DATAOFFSET e = Inr off"
    and "i + n \<le> cap" "\<forall>j<cap. slot_used c e j \<longleftrightarrow> j < i"
  shows "ends (mem U c pr k r) (alloc_times se n) (\<lambda>as w. as = map (slot_addr e off) [i..<i + n] \<and>
    (\<exists>c' e'. mem U c' pr k r w \<and> entry_ok U c' se e' \<and> SLAB_ENTRY_CAPACITY e' = Inr cap \<and>
      SLAB_ENTRY_DATAOFFSET e' = Inr off \<and> (\<forall>j<cap. slot_used c' e' j \<longleftrightarrow> j < i + n) \<and>
      (\<forall>b. b \<noteq> page_base se \<and> b \<noteq> d_maddr (se_cur e) \<longrightarrow> c' b = c b)))"
  using assms
proof (induction n arbitrary: i c e)
  case 0
  then show ?case unfolding ends_def alloc_times.simps retM_def by auto
next
  case (Suc n)
  have i: "i < cap" "\<not> slot_used c e i" "\<forall>j<i. slot_used c e j" using Suc.prems(7,8) by auto
  note mk = mark_slot_ok [OF Suc.prems(1,2,5) i(1)]
  let ?c = "mark_slot c se e i" and ?e = "marked_entry e i"
  have used: "\<forall>j<cap. slot_used ?c ?e j \<longleftrightarrow> j < Suc i" using mk(2) Suc.prems(8) by auto
  note IH = Suc.IH [OF mk(1), of "Suc i", unfolded marked_same, OF Suc.prems(2-6) _ used]
  have sa: "slot_addr (marked_entry e i) off = slot_addr e off" by (simp add: slot_addr_def fun_eq_iff)
  show ?case
    unfolding ends_def alloc_times.simps
  proof (intro allI impI)
    fix w
    assume m: "mem U c pr k r w"
    obtain w1 where w1: "slab_entry_alloc_mem se w = Inr (slot_addr e off i, w1)" "mem U ?c pr k r w1"
      using endsD [OF alloc_mem_ends [OF Suc.prems(1-6) i] m] by (auto simp: slot_addr_def)
    obtain w2 c' e' where w2: "alloc_times se n w1 = Inr (map (slot_addr e off) [Suc i..<Suc i + n], w2)"
      "mem U c' pr k r w2" "entry_ok U c' se e'" "SLAB_ENTRY_CAPACITY e' = Inr cap" "SLAB_ENTRY_DATAOFFSET e' = Inr off"
      "\<forall>j<cap. slot_used c' e' j \<longleftrightarrow> j < Suc i + n" "\<forall>b. b \<noteq> page_base se \<and> b \<noteq> d_maddr (se_cur e) \<longrightarrow> c' b = ?c b"
      using endsD [OF IH w1(2)] Suc.prems(7) unfolding sa by auto
    have "bindM (slab_entry_alloc_mem se) (\<lambda>a. bindM (alloc_times se n) (\<lambda>as. retM (a # as))) w =
        Inr (map (slot_addr e off) [i..<i + Suc n], w2)"
      using w1(1) w2(1) upt_conv_Cons [of i "i + Suc n"] by (simp add: bindM_def del: upt_Suc)
    moreover have "\<forall>b. b \<noteq> page_base se \<and> b \<noteq> d_maddr (se_cur e) \<longrightarrow> c' b = c b" using w2(7) mk(3) by simp
    moreover have "\<forall>j<cap. slot_used c' e' j \<longleftrightarrow> j < i + Suc n" using w2(6) by simp
    ultimately show "\<exists>x w'. bindM (slab_entry_alloc_mem se) (\<lambda>a. bindM (alloc_times se n) (\<lambda>as. retM (a # as))) w = Inr (x, w') \<and>
       x = map (slot_addr e off) [i..<i + Suc n] \<and>
       (\<exists>c' e'. mem U c' pr k r w' \<and> entry_ok U c' se e' \<and> SLAB_ENTRY_CAPACITY e' = Inr cap \<and>
          SLAB_ENTRY_DATAOFFSET e' = Inr off \<and> (\<forall>j<cap. slot_used c' e' j \<longleftrightarrow> j < i + Suc n) \<and>
          (\<forall>b. b \<noteq> page_base se \<and> b \<noteq> d_maddr (se_cur e) \<longrightarrow> c' b = c b))"
      using w2(2-5) by blast
  qed
qed


text \<open>
  C9: The next free slot.  From an entry whose first \<^verbatim>\<open>i\<close> slots are in use and whose pages can be
  written, \<^verbatim>\<open>n\<close> allocations return the addresses of the slots \<^verbatim>\<open>i\<close>, \<^verbatim>\<open>i + 1\<close>, ..., in this order; the
  slots are then in use, no other page has changed, and the entry is reported full exactly when all
  its slots are in use.
\<close>

theorem slots_fill_in_order:
  assumes "mem U c pr k r w" "entry_ok U c se e" "page_base se \<noteq> d_maddr (se_cur e)"
    and "writable (pr (page_base se))" "writable (pr (d_maddr (se_cur e)))"
    and "SLAB_ENTRY_CAPACITY e = Inr cap" "SLAB_ENTRY_DATAOFFSET e = Inr off"
    and "i + n \<le> cap" "\<forall>j<cap. slot_used c e j \<longleftrightarrow> j < i"
  shows "\<exists>w'. alloc_times se n w = Inr (map (\<lambda>j. d_maddr (se_cur e) + off + j * se_size e) [i..<i + n], w') \<and>
    slab_entry_full se w' = Inr (i + n = cap, w') \<and>
    (i + n = cap \<longrightarrow> slab_entry_alloc_mem se w' = Inr (0, w')) \<and>
    (\<forall>b\<in>U - {page_base se, d_maddr (se_cur e)}. page_at (w_os w') b = page_at (w_os w) b)"
proof -
  have sa: "slot_addr e off = (\<lambda>j. d_maddr (se_cur e) + off + j * se_size e)" by (simp add: fun_eq_iff slot_addr_def)
  obtain w' c' e' where w': "alloc_times se n w = Inr (map (slot_addr e off) [i..<i + n], w')"
    "mem U c' pr k r w'" "entry_ok U c' se e'" "SLAB_ENTRY_CAPACITY e' = Inr cap" "SLAB_ENTRY_DATAOFFSET e' = Inr off"
    "\<forall>j<cap. slot_used c' e' j \<longleftrightarrow> j < i + n" "\<forall>b. b \<noteq> page_base se \<and> b \<noteq> d_maddr (se_cur e) \<longrightarrow> c' b = c b"
    using endsD [OF alloc_times_ends [OF assms(2-9)] assms(1)] by auto
  have full: "(\<forall>j<cap. slot_used c' e' j) \<longleftrightarrow> i + n = cap" using w'(6) assms(8) by (metis le_neq_implies_less less_irrefl)
  have "slab_entry_full se w' = Inr (i + n = cap, w')" using slab_entry_full_ok [OF w'(2-4)] full by simp
  moreover have "i + n = cap \<longrightarrow> slab_entry_alloc_mem se w' = Inr (0, w')"
    using alloc_mem_full [OF w'(2-5)] full by blast
  moreover have "\<forall>b\<in>U - {page_base se, d_maddr (se_cur e)}. page_at (w_os w') b = page_at (w_os w) b"
    using mem_page(6) [OF w'(2)] mem_page(6) [OF assms(1)] w'(7) by simp
  ultimately show ?thesis using w'(1) sa by auto
qed

text \<open>The example container with the data page open for writing.\<close>

definition open_world :: world where
  "open_world = demo_world\<lparr>w_os := demo_os\<lparr>os_prot := \<lambda>_. PA_PROT_WRITE\<rparr>\<rparr>"

lemma open_mem: "mem demo_used demo_c (\<lambda>_. PA_PROT_WRITE) (Suc 0) (rest open_world) open_world"
proof -
  have w: "w_os open_world = demo_os\<lparr>os_prot := \<lambda>_. PA_PROT_WRITE\<rparr>" "w_pa open_world = w_pa demo_world"
    "w_os demo_world = demo_os" by (simp_all add: open_world_def demo_world_def)
  have "pa_inv (w_pa open_world, w_os open_world)" using demo_ok(1) by (simp add: w)
  from mem_self [OF this] show ?thesis
    using demo_ok(2,3) by (simp add: w page_at_def demo_c_def [abs_def] cong: if_cong)
qed

lemma demo_entry_slots:
  "entry_ok demo_used demo_c demo_se demo_entry" "SLAB_ENTRY_CAPACITY demo_entry = Inr 127"
  "SLAB_ENTRY_DATAOFFSET demo_entry = Inr 16" "\<not> slot_used demo_c demo_entry j" "d_maddr (se_cur demo_entry) = demo_page 3"
proof -
  have s: "se_size demo_entry = 32" "d_maddr (se_cur demo_entry) = demo_page 3" by (simp_all add: demo_entry_def zero_entry_def)
  then show "d_maddr (se_cur demo_entry) = demo_page 3" by simp
  have c: "demo_c (demo_page 3) = PZero" using demo_views(1) [of 3] by (simp add: demo_contents_def)
  show "entry_ok demo_used demo_c demo_se demo_entry"
    unfolding entry_ok_def s c demo_at(4) demo_views(3) by simp
  show "SLAB_ENTRY_CAPACITY demo_entry = Inr 127" "SLAB_ENTRY_DATAOFFSET demo_entry = Inr 16"
    by (simp_all add: SLAB_ENTRY_CAPACITY_def SLAB_ENTRY_DATAOFFSET_def s SLAB_LARGE_ALLOC_def bitstr_size_div PAGE_SIZE_def)
  show "\<not> slot_used demo_c demo_entry j"
    by (simp add: slot_used_def bitmap_at_def s c SLAB_LARGE_ALLOC_def bits_def)
qed

theorem slots_fill_in_order_witness:
  "\<exists>w'. alloc_times demo_se 127 open_world = Inr (map (\<lambda>j. demo_page 3 + 16 + j * 32) [0..<127], w') \<and>
     slab_entry_full demo_se w' = Inr (True, w') \<and> slab_entry_alloc_mem demo_se w' = Inr (0, w')"
proof -
  have "page_base demo_se \<noteq> d_maddr (se_cur demo_entry)" unfolding demo_at(4) demo_entry_slots(5) by (simp add: demo_page_def)
  moreover have "writable PA_PROT_WRITE" by (simp add: writable_def PA_PROT_WRITE_def)
  moreover have "se_size demo_entry = 32" by (simp add: demo_entry_def)
  ultimately show ?thesis
    using slots_fill_in_order [OF open_mem demo_entry_slots(1) _ _ _ demo_entry_slots(2,3), of 0 127] demo_entry_slots(4,5) by auto
qed

end
