(* ===== verification/Slabptr.thy ===== *)
theory Slabptr
  imports Slab
begin

text \<open>
  The parts of \<^verbatim>\<open>src/src/slab.c\<close> that follow identifiers and pointers: the slab entry of an
  identifier, the persistent pointers of a page (stored as identifier and offset, so that they can be
  set again when the container is mapped elsewhere), the root object and the protection of all data
  pages.
\<close>

section \<open>Bytes and pointers in memory\<close>

definition rd_byte :: "nat \<Rightarrow> u8 M" where
  "rd_byte a w =
     (if os_vm (w_os w) (vpn a) \<noteq> None then bindM (rd_data a) (\<lambda>d. retM (d (a mod PAGE_SIZE))) w
      else if os_other (w_os w) (vpn a) then Inr (w_mem w a, w) else Inl (Segv a))"

definition wr_byte :: "nat \<Rightarrow> u8 \<Rightarrow> unit M" where
  "wr_byte a b w =
     (if os_vm (w_os w) (vpn a) \<noteq> None then up_data touch a (\<lambda>d. d(a mod PAGE_SIZE := b)) w
      else if os_other (w_os w) (vpn a) then Inr ((), w\<lparr>w_mem := (w_mem w)(a := b)\<rparr>) else Inl (Segv a))"

fun rd_bytes :: "nat \<Rightarrow> nat \<Rightarrow> nat M" where
  "rd_bytes a 0 = retM 0"
| "rd_bytes a (Suc n) = bindM (rd_byte a) (\<lambda>b. bindM (rd_bytes (a + 1) n) (\<lambda>v. retM (unat b + 256 * v)))"

fun wr_bytes :: "nat \<Rightarrow> nat \<Rightarrow> nat \<Rightarrow> unit M" where
  "wr_bytes a 0 v = retM ()"
| "wr_bytes a (Suc n) v = thenM (wr_byte a (word_of_nat v)) (wr_bytes (a + 1) n (v div 256))"

definition rd_ptr :: "nat \<Rightarrow> nat M" where "rd_ptr a = rd_bytes a 8"
definition wr_ptr :: "nat \<Rightarrow> nat \<Rightarrow> unit M" where "wr_ptr a v = wr_bytes a 8 v"

section \<open>All initialised entries\<close>

text \<open>The four nested loops over the directory, the nodes and the buckets.\<close>

definition bucket_entries :: "(nat \<Rightarrow> unit M) \<Rightarrow> nat \<Rightarrow> unit M" where
  "bucket_entries f sb =
     eachM (\<lambda>l. bindM (rd_se (se_addr sb l)) (\<lambda>e. if SLAB_ENTRY_IS_INIT e then f (se_addr sb l) else retM ()))
       [0..<SLAB_BUCKET_ENTRIES]"

definition inner_entries :: "(nat \<Rightarrow> unit M) \<Rightarrow> nat \<Rightarrow> unit M" where
  "inner_entries f si =
     bindM (rd_inner si) (\<lambda>n. eachM (\<lambda>k.
       bindM (rd_inner si) (\<lambda>n. bindM (cellM (node_current n) k) (\<lambda>li. bucket_entries f (l_maddr li))))
       [0..<node_index n])"

definition outer_entries :: "(nat \<Rightarrow> unit M) \<Rightarrow> nat \<Rightarrow> unit M" where
  "outer_entries f so =
     bindM (rd_outer so) (\<lambda>n. eachM (\<lambda>j.
       bindM (rd_outer so) (\<lambda>n. bindM (cellM (node_current n) j) (\<lambda>lo. inner_entries f (l_maddr lo))))
       [0..<node_index n])"

definition all_entries :: "(nat \<Rightarrow> unit M) \<Rightarrow> unit M" where
  "all_entries f =
     bindM current_sd (\<lambda>sd. bindM (rd_dir sd) (\<lambda>d. eachM (\<lambda>i.
       bindM (rd_dir sd) (\<lambda>d. bindM (cellM (sd_current d) i) (\<lambda>ld. outer_entries f (l_maddr ld))))
       [0..<sd_index d]))"

definition slab_mprotect_datapgs :: "nat \<Rightarrow> unit M" where
  "slab_mprotect_datapgs prot =
     all_entries (\<lambda>se. bindM (rd_se se) (\<lambda>e. mprotectM (d_maddr (se_cur e)) PAGE_SIZE prot))"

section \<open>Identifiers\<close>

text \<open>The indices of an entry in the directory, the outer node, the inner node and the bucket.\<close>

definition seid_path :: "nat \<Rightarrow> nat \<times> nat \<times> nat \<times> nat" where
  "seid_path seid =
     (let sb_id = seid div SLAB_BUCKET_ENTRIES;
          sb_idx = seid mod SLAB_BUCKET_ENTRIES;
          si_id = sb_id div SLAB_INNER_ENTRIES;
          si_idx = sb_id mod SLAB_INNER_ENTRIES;
          so_id = si_id div SLAB_OUTER_ENTRIES;
          so_idx = si_id mod SLAB_OUTER_ENTRIES;
          sd_idx = so_id mod SLAB_DIR_ENTRIES
      in (sd_idx, so_idx, si_idx, sb_idx))"

definition get_slab_entry_by_id :: "nat \<Rightarrow> nat M" where
  "get_slab_entry_by_id seid =
     (case seid_path seid of (sd_idx, so_idx, si_idx, sb_idx) \<Rightarrow>
      bindM current_sd (\<lambda>sd. bindM (rd_dir sd) (\<lambda>d.
      bindM (cellM (sd_current d) sd_idx) (\<lambda>lo. bindM (rd_outer (l_maddr lo)) (\<lambda>so.
      bindM (cellM (node_current so) so_idx) (\<lambda>li. bindM (rd_inner (l_maddr li)) (\<lambda>si.
      bindM (cellM (node_current si) si_idx) (\<lambda>lb. retM (se_addr (l_maddr lb) sb_idx)))))))))"

section \<open>Persistent pointers\<close>

definition SLAB_PTR_SEID_NULL :: u32 where "SLAB_PTR_SEID_NULL = 0xffffffff"
definition SLAB_PTR_OFFSET_NULL :: u16 where "SLAB_PTR_OFFSET_NULL = 0xffff"

definition fix_pointer :: "nat \<Rightarrow> nat \<Rightarrow> unit M" where
  "fix_pointer se_loc m =
     bindM (rd_se se_loc) (\<lambda>e. bindM (rd_ptrs (p_maddr (ptr_cur e))) (\<lambda>sp. bindM (cellM sp m) (\<lambda>p.
     let ptr_loc = d_maddr (se_cur e) + unat (ploc_offset p) in
     if pval_seid p = SLAB_PTR_SEID_NULL \<and> pval_offset p = SLAB_PTR_OFFSET_NULL then wr_ptr ptr_loc 0
     else bindM (get_slab_entry_by_id (unat (pval_seid p))) (\<lambda>se_val. bindM (rd_se se_val) (\<lambda>v.
          wr_ptr ptr_loc (d_maddr (se_cur v) + unat (pval_offset p)))))))"

definition do_fixptrs :: "unit M" where
  "do_fixptrs =
     all_entries (\<lambda>se_loc. bindM (rd_se se_loc) (\<lambda>e. eachM (fix_pointer se_loc) [0..<unat (p_idx (ptr_cur e))]))"

definition slab_fixptrs :: "unit M" where
  "slab_fixptrs = bindM (getM w_do_fixptrs) (\<lambda>b. if b then do_fixptrs else retM ())"

text \<open>The next element of the page of pointers of an entry; the index is not checked by the code.\<close>

definition append_pointer :: "nat \<Rightarrow> ptr_meta \<Rightarrow> unit M" where
  "append_pointer se_loc p =
     bindM (rd_se se_loc) (\<lambda>e. let sptr = p_maddr (ptr_cur e); i = unat (p_idx (ptr_cur e)) in
     bindM (rd_ptrs sptr) (\<lambda>l. bindM (cellM l i) (\<lambda>_.
     thenM (up_ptrs touch sptr (\<lambda>l. l[i := p]))
     (up_se touch se_loc (\<lambda>e. e\<lparr>ptr_cur := (ptr_cur e)\<lparr>p_idx := p_idx (ptr_cur e) + 1\<rparr>\<rparr>)))))"

definition pointer_page :: "nat \<Rightarrow> unit M" where
  "pointer_page se_loc =
     bindM (rd_se se_loc) (\<lambda>e.
     if p_maddr (ptr_cur e) = 0
     then bindM (getpage PA_PROT_WRITE) (\<lambda>(a, l). up_se touch se_loc (\<lambda>e. e\<lparr>ptr_cur := (ptr_cur e)\<lparr>p_maddr := a, p_laddr := l\<rparr>\<rparr>))
     else retM ())"

definition do_insert_pointer :: "nat \<Rightarrow> unit M" where
  "do_insert_pointer ptr_loc =
     bindM current_sd (\<lambda>_.
     bindM (rd_ptr ptr_loc) (\<lambda>ptr_val.
     thenM (if ptr_loc \<noteq> 0 then retM () else errM (Assertion ''The location of the pointer must not be NULL''))
     (bindM (find_entry SE_SEARCH_NORMAL (page_base ptr_loc)) (\<lambda>found. case found of
        None \<Rightarrow> errM (Handle_error ''failed to find the slab entry for the given pointer location'')
      | Some se_loc \<Rightarrow>
          let ploc = word_of_nat (ptr_loc - page_base ptr_loc) in
          thenM (pointer_page se_loc)
          (if ptr_val \<noteq> 0
           then bindM (find_entry SE_SEARCH_NORMAL (page_base ptr_val)) (\<lambda>target. case target of
                  None \<Rightarrow> errM (Handle_error ''failed to find the target slab_entry for the given pointer'')
                | Some se_val \<Rightarrow> bindM (rd_se se_val) (\<lambda>v.
                    append_pointer se_loc \<lparr>ploc_offset = ploc, pval_seid = word_of_nat (se_id v),
                      pval_offset = word_of_nat (ptr_val - page_base ptr_val)\<rparr>))
           else append_pointer se_loc \<lparr>ploc_offset = ploc, pval_seid = SLAB_PTR_SEID_NULL,
                  pval_offset = SLAB_PTR_OFFSET_NULL\<rparr>)))))"

definition slab_insert_pointer :: "nat \<Rightarrow> unit M" where
  "slab_insert_pointer ptr_loc = bindM (getM w_do_insert) (\<lambda>b. if b then do_insert_pointer ptr_loc else retM ())"

section \<open>The root object\<close>

definition OFFSET_SIZE_BITS :: nat where "OFFSET_SIZE_BITS = 16"

definition PACK_CONT_ROOT :: "u32 \<Rightarrow> u64 \<Rightarrow> u64" where
  "PACK_CONT_ROOT seid offset = push_bit OFFSET_SIZE_BITS (ucast seid) OR offset"

definition UNPACK_CONT_ROOT :: "u64 \<Rightarrow> u32 \<times> u16" where
  "UNPACK_CONT_ROOT v = (ucast (drop_bit OFFSET_SIZE_BITS v), ucast v)"

definition slab_setroot :: "u64 \<Rightarrow> nat M" where
  "slab_setroot maddr =
     bindM current_sd (\<lambda>sd.
     bindM (find_entry SE_SEARCH_NORMAL (unat (ROUND_DWNPG maddr))) (\<lambda>found. case found of
       None \<Rightarrow> retM 0
     | Some se \<Rightarrow> bindM (rd_se se) (\<lambda>e.
         let root = PACK_CONT_ROOT (word_of_nat (se_id e)) (ROUND_DWNPG maddr - maddr) in
         thenM (atomic_set (up_dir touch sd (\<lambda>d. d\<lparr>sd_cont_root := root\<rparr>))) (retM 1))))"

definition slab_getroot :: "nat M" where
  "slab_getroot =
     bindM current_sd (\<lambda>sd. bindM (rd_dir sd) (\<lambda>d.
     case UNPACK_CONT_ROOT (sd_cont_root d) of (root_seid, root_offset) \<Rightarrow>
     bindM (get_slab_entry_by_id (unat root_seid)) (\<lambda>se. bindM (rd_se se) (\<lambda>e.
     retM (d_maddr (se_cur e) + unat root_offset)))))"

definition slab_find :: "nat \<Rightarrow> nat option M" where
  "slab_find maddr = find_entry SE_SEARCH_MADDR maddr"

section \<open>Initialisation\<close>

definition slab_init :: "env \<Rightarrow> world \<Rightarrow> world" where
  "slab_init env w =
     (let w = (case PMLIB_FIX_PTRS env of
                 Some val \<Rightarrow> if val = 0 then w\<lparr>w_do_fixptrs := False, w_do_insert := False\<rparr> else w
               | None \<Rightarrow> w\<lparr>w_do_fixptrs := True, w_do_insert := True\<rparr>)
      in case PMLIB_USE_NLMAPPER env of
           Some val \<Rightarrow> if val = 1 then w\<lparr>w_copynswap := True\<rparr> else w
         | None \<Rightarrow> w)"

section \<open>Identifiers and the directory\<close>

definition seid_of :: "nat \<Rightarrow> nat \<Rightarrow> nat \<Rightarrow> nat \<Rightarrow> nat" where
  "seid_of i j k l = ((i * SLAB_OUTER_ENTRIES + j) * SLAB_INNER_ENTRIES + k) * SLAB_BUCKET_ENTRIES + l"

lemma entries_numbers:
  "SLAB_BUCKET_ENTRIES = 28" "SLAB_INNER_ENTRIES = 127" "SLAB_OUTER_ENTRIES = 127" "SLAB_DIR_ENTRIES = 124"
  by (simp_all add: SLAB_BUCKET_ENTRIES_def SLAB_INNER_ENTRIES_def SLAB_OUTER_ENTRIES_def SLAB_DIR_ENTRIES_def
      SLAB_DIR_MEMSIZE_def SLAB_ENTRY_SIZE_def PAGE_SIZE_def)

lemma seid_path_of:
  assumes "i < SLAB_DIR_ENTRIES" "j < SLAB_OUTER_ENTRIES" "k < SLAB_INNER_ENTRIES" "l < SLAB_BUCKET_ENTRIES"
  shows "seid_path (seid_of i j k l) = (i, j, k, l)"
  using assms by (simp add: seid_path_def seid_of_def Let_def)

text \<open>The pages on the path with the indices \<^verbatim>\<open>i\<close>, \<^verbatim>\<open>j\<close>, \<^verbatim>\<open>k\<close> from the directory to a bucket.\<close>

definition dir_path :: "nat set \<Rightarrow> (nat \<Rightarrow> page) \<Rightarrow> nat \<Rightarrow> slab_dir \<Rightarrow> nat \<Rightarrow> nat \<Rightarrow> nat \<Rightarrow> nat \<Rightarrow> bool" where
  "dir_path U c sd d i j k sb \<longleftrightarrow>
     (\<exists>so si n m. i < length (sd_current d) \<and> l_maddr (sd_current d ! i) = so \<and> so \<in> U - {sd} \<and>
        as_outer (c so) = Some n \<and> j < length (node_current n) \<and> l_maddr (node_current n ! j) = si \<and> si \<in> U - {sd} \<and>
        as_inner (c si) = Some m \<and> k < length (node_current m) \<and> l_maddr (node_current m ! k) = sb)"

lemma get_by_id_ok:
  assumes m: "mem U c pr q r w" and d: "dir_is U c r sd d" and p: "dir_path U c sd d i j k sb"
    and s: "seid_path seid = (i, j, k, l)"
  shows "get_slab_entry_by_id seid w = Inr (se_addr sb l, w)"
proof -
  obtain so si n n' where
    o': "i < length (sd_current d)" "l_maddr (sd_current d ! i) = so" "so \<in> U" "as_outer (c so) = Some n"
    and i: "j < length (node_current n)" "l_maddr (node_current n ! j) = si" "si \<in> U" "as_inner (c si) = Some n'"
      "k < length (node_current n')" "l_maddr (node_current n' ! k) = sb"
    using p by (auto simp: dir_path_def)
  show ?thesis
    using current_sd_ok [OF m d] rd_at(2) [OF m o'(3,4)] rd_at(3) [OF m i(3,4)] o'(1,2) i(1,2,5,6) s
    by (simp add: get_slab_entry_by_id_def bindM_def cellM_def)
qed

text \<open>
  C15: Looking an address up in the index.  \<^verbatim>\<open>slab_find\<close>, which compares the address with the
  ranges of the data pages, returns what the search for the start of its page returns: the indexed
  entry whose data page contains the address, and nothing when there is none.
\<close>

theorem slab_find_by_address:
  assumes "mem U c pr k r w" "dir_is U c r sd d" "indexed U c d"
  shows "\<exists>found. slab_find addr w = Inr (found, w) \<and> find_entry SE_SEARCH_NORMAL (page_base addr) w = Inr (found, w) \<and>
    (\<forall>se. found = Some se \<longleftrightarrow> se \<in> set (inorder (sd_maddr_root d)) \<and>
       maddr_of c se \<le> addr \<and> addr < maddr_of c se + PAGE_SIZE)"
proof -
  have range: "maddr_of c se \<le> addr \<and> addr < maddr_of c se + PAGE_SIZE \<longleftrightarrow> maddr_of c se = page_base addr"
    if se: "se \<in> set (inorder (sd_maddr_root d))" for se
  proof -
    obtain q where q: "maddr_of c se = q * 4096"
      using mem_page(3) [OF assms(1) peek_ok(3) [OF assms(1,3) se]] by (auto simp: PAGE_SIZE_def elim: dvdE)
    have "addr div 4096 = q" if "q * 4096 \<le> addr" "addr < q * 4096 + 4096" by (rule div_nat_eqI) (use that in simp_all)
    moreover have "addr div 4096 * 4096 \<le> addr" "addr < addr div 4096 * 4096 + 4096"
      using div_mult_mod_eq [of addr 4096] by (simp, metis add_less_cancel_left mod_less_divisor zero_less_numeral)
    ultimately show ?thesis unfolding q page_base_def PAGE_SIZE_def by auto
  qed
  have "the_entry c d (page_base addr) = Some se \<longleftrightarrow>
      se \<in> set (inorder (sd_maddr_root d)) \<and> maddr_of c se = page_base addr" for se
    using the_entry_Some [OF assms(3)] by (auto simp: the_entry_def find_Some_iff)
  then show ?thesis
    using find_entry_ok [OF assms] range unfolding slab_find_def by auto
qed

text \<open>
  C14: Identifiers.  The identifier composed from the indices of a path of the directory and of an
  entry in its bucket is resolved to the address of that entry.
\<close>

theorem entry_of_identifier:
  assumes "mem U c pr q r w" "dir_is U c r sd d" "dir_path U c sd d i j k sb"
    and "i < SLAB_DIR_ENTRIES" "j < SLAB_OUTER_ENTRIES" "k < SLAB_INNER_ENTRIES" "l < SLAB_BUCKET_ENTRIES"
  shows "get_slab_entry_by_id (seid_of i j k l) w = Inr (se_addr sb l, w)"
  by (rule get_by_id_ok [OF assms(1-3) seid_path_of [OF assms(4-7)]])

section \<open>The root object\<close>

lemma pack_aligned: "UNPACK_CONT_ROOT (PACK_CONT_ROOT seid (ROUND_DWNPG a - a)) = (seid, 0)" if "ROUND_DWNPG a = a"
proof -
  have "(ucast (drop_bit 16 (push_bit 16 (ucast seid :: u64))) :: u32) = seid"
    by (rule bit_word_eqI) (auto simp: bit_simps)
  moreover have "(ucast (push_bit 16 (ucast seid :: u64)) :: u16) = 0"
    by (rule bit_word_eqI) (auto simp: bit_simps)
  ultimately show ?thesis using that
    by (simp add: UNPACK_CONT_ROOT_def PACK_CONT_ROOT_def OFFSET_SIZE_BITS_def)
qed

lemma pack_unaligned:
  assumes "\<not> PAGE_SIZE dvd unat a"
  shows "fst (UNPACK_CONT_ROOT (PACK_CONT_ROOT seid (ROUND_DWNPG a - a))) = SLAB_PTR_SEID_NULL"
proof -
  let ?r = "unat a mod 4096"
  have r: "0 < ?r" "?r < 4096" using assms by (auto simp: PAGE_SIZE_def dvd_eq_mod_eq_0)
  have "ROUND_DWNPG a = word_of_nat (unat a div 4096 * 4096)"
    using round_down_unat(2) [of a] by (metis of_nat_unat ucast_id)
  moreover have "a = word_of_nat (unat a div 4096 * 4096 + ?r)" by (metis div_mult_mod_eq of_nat_unat ucast_id)
  moreover have "(word_of_nat q :: u64) - word_of_nat (q + m) = - word_of_nat m" for q m by simp
  ultimately have "ROUND_DWNPG a - a = - word_of_nat ?r" by (metis (no_types))
  also have "\<dots> = NOT (word_of_nat ?r - 1)" by (rule minus_eq_not_minus_1)
  also have "word_of_nat ?r - 1 = (word_of_nat (?r - 1) :: u64)" using r(1) by (simp add: of_nat_diff)
  finally have x: "ROUND_DWNPG a - a = NOT (word_of_nat (?r - 1))" .
  have hi: "\<not> bit (?r - 1) n" if "12 \<le> n" for n
  proof -
    have "?r - 1 < 2 ^ n" using r power_increasing [OF that, of "2::nat"] by simp
    then show ?thesis by (simp add: bit_iff_odd)
  qed
  have "UNPACK_CONT_ROOT (PACK_CONT_ROOT seid (NOT (word_of_nat (?r - 1)))) =
      (ucast (drop_bit 16 (push_bit 16 (ucast seid :: u64) OR NOT (word_of_nat (?r - 1)))),
       ucast (push_bit 16 (ucast seid :: u64) OR NOT (word_of_nat (?r - 1))))"
    by (simp add: UNPACK_CONT_ROOT_def PACK_CONT_ROOT_def OFFSET_SIZE_BITS_def)
  moreover have "(ucast (drop_bit 16 (push_bit 16 (ucast seid :: u64) OR NOT (word_of_nat (?r - 1)))) :: u32) = - 1"
    by (rule bit_word_eqI) (use hi in \<open>simp add: bit_simps\<close>)
  ultimately show ?thesis unfolding x by (simp add: SLAB_PTR_SEID_NULL_def)
qed

lemma dir_is_put_dir:
  assumes "dir_is U c r sd d" "w_cont r \<noteq> sd"
  shows "dir_is U (c(sd := PDir d')) r sd d'"
  using assms by (auto simp: dir_is_def)

text \<open>
  C11: The root object.  Setting the root to an address in an indexed data page succeeds.  At the
  start of a page the identifier of the entry is stored, and reading the root follows it like any
  identifier, as a path through the directory: the result is the data page of the entry at the end
  of that path, so the root object itself exactly when that entry has the data page of the entry
  the root was set in.  The code does not ensure this: the identifier is the value of a counter of
  the process, which a restart resets.  For every other address the identifier that is stored is
  \<^verbatim>\<open>0xffffffff\<close>, whatever the entry's own identifier.
\<close>

theorem root_set_and_get:
  assumes "mem U c pr q r w" "dir_is U c r sd d" "indexed U c d" "writable (pr sd)" "w_cont r \<noteq> sd"
    and "se \<in> set (inorder (sd_maddr_root d))" "entry_at c se = Some e" "se_id e < 2 ^ 32"
    and "page_base (unat a) = d_maddr (se_cur e)"
    and "PAGE_SIZE dvd unat a \<Longrightarrow> seid_path (se_id e) = (i, j, k, l) \<and> dir_path U c sd d i j k sb \<and>
      page_base (se_addr sb l) \<in> U - {sd} \<and> entry_at c (se_addr sb l) = Some v"
  shows "\<exists>w' d'. slab_setroot a w = Inr (1, w') \<and> rd_dir sd w' = Inr (d', w') \<and>
    (if PAGE_SIZE dvd unat a
     then UNPACK_CONT_ROOT (sd_cont_root d') = (word_of_nat (se_id e), 0) \<and>
       slab_getroot w' = Inr (d_maddr (se_cur v), w') \<and>
       (slab_getroot w' = Inr (unat a, w') \<longleftrightarrow> d_maddr (se_cur v) = d_maddr (se_cur e))
     else fst (UNPACK_CONT_ROOT (sd_cont_root d')) = SLAB_PTR_SEID_NULL)"
proof -
  let ?root = "PACK_CONT_ROOT (word_of_nat (se_id e)) (ROUND_DWNPG a - a)"
  let ?d = "d\<lparr>sd_cont_root := ?root\<rparr>"
  let ?c = "c(sd := PDir ?d)"
  have base: "unat (ROUND_DWNPG a) = page_base (unat a)" by (simp add: round_down_unat page_base_def PAGE_SIZE_def)
  have U: "page_base se \<in> U" "maddr_of c se = d_maddr (se_cur e)"
    using assms(3,6,7) by (auto simp: indexed_def maddr_of_def)
  have f: "find_entry SE_SEARCH_NORMAL (unat (ROUND_DWNPG a)) w = Inr (Some se, w)"
    using find_entry_ok(1) [OF assms(1-3)] the_entry_Some [OF assms(3,6), of "page_base (unat a)"] U(2) assms(9) base by simp
  have sd: "sd \<in> U" "as_dir (c sd) = Some d" using assms(2) by (auto simp: dir_is_def)
  have up: "ends (mem U c pr q r) (atomic_set (up_dir touch sd (\<lambda>d. d\<lparr>sd_cont_root := ?root\<rparr>))) (\<lambda>_. mem U ?c pr q r)"
    by (rule total_atomic_set, rule total_up(1) [of touch sd U pr c d q r "\<lambda>d. d\<lparr>sd_cont_root := ?root\<rparr>"]) (use sd assms(4) in simp_all)
  from endsD [OF up assms(1)] obtain w' where w': "mem U ?c pr q r w'"
    "atomic_set (up_dir touch sd (\<lambda>d. d\<lparr>sd_cont_root := ?root\<rparr>)) w = Inr ((), w')" by auto
  have set: "slab_setroot a w = Inr (1, w')"
    using current_sd_ok [OF assms(1,2)] f rd_se_ok [OF assms(1) U(1) assms(7)] w'(2)
    by (simp add: slab_setroot_def bindM_def thenM_def)
  have d': "dir_is U ?c r sd ?d" by (rule dir_is_put_dir [OF assms(2,5)])
  have dir: "current_sd w' = Inr (sd, w')" "rd_dir sd w' = Inr (?d, w')" using current_sd_ok [OF w'(1) d'] by auto
  have id: "unat (word_of_nat (se_id e) :: u32) = se_id e" using assms(8) by (simp add: unsigned_of_nat take_bit_nat_eq_self)
  have get: "UNPACK_CONT_ROOT ?root = (word_of_nat (se_id e), 0) \<and> slab_getroot w' = Inr (d_maddr (se_cur v), w')"
    if al: "PAGE_SIZE dvd unat a"
  proof -
    have path: "seid_path (se_id e) = (i, j, k, l)" "page_base (se_addr sb l) \<in> U" "entry_at ?c (se_addr sb l) = Some v"
      using assms(10) [OF al] by simp_all
    have p: "dir_path U ?c sd ?d i j k sb" using assms(10) [OF al] by (fastforce simp: dir_path_def)
    have a: "page_base (unat a) = unat a" using al by (simp add: page_base_dvd)
    then have "ROUND_DWNPG a = a" using base by (simp add: word_unat_eq_iff)
    then have u: "UNPACK_CONT_ROOT ?root = (word_of_nat (se_id e), 0)" by (rule pack_aligned)
    have "get_slab_entry_by_id (se_id e) w' = Inr (se_addr sb l, w')"
      using get_by_id_ok [OF w'(1) d' p, of "se_id e" l] path(1) by simp
    moreover have "rd_se (se_addr sb l) w' = Inr (v, w')" by (rule rd_se_ok [OF w'(1) path(2,3)])
    ultimately show ?thesis using dir u id by (simp add: slab_getroot_def bindM_def)
  qed
  have "fst (UNPACK_CONT_ROOT (sd_cont_root ?d)) = SLAB_PTR_SEID_NULL" if "\<not> PAGE_SIZE dvd unat a"
    using pack_unaligned [OF that] by simp
  moreover have "slab_getroot w' = Inr (unat a, w') \<longleftrightarrow> d_maddr (se_cur v) = d_maddr (se_cur e)" if al: "PAGE_SIZE dvd unat a"
    using get [OF al] assms(9) al by (auto simp: page_base_dvd)
  ultimately show ?thesis using set dir(2) get by (intro exI [of _ w'] exI [of _ ?d]) auto
qed

section \<open>Examples\<close>

lemma demo_path: "dir_path demo_used demo_c (demo_page 1) demo_dir 0 0 0 (demo_page 2)"
proof -
  have c: "demo_c (demo_page 4) = POuter (demo_node 5)" "demo_c (demo_page 5) = PInner (demo_node 2)"
    using demo_views(1) [of 4] demo_views(1) [of 5] by (simp_all add: demo_contents_def)
  show ?thesis
    unfolding dir_path_def
    by (rule exI [of _ "demo_page 4"], rule exI [of _ "demo_page 5"], rule exI [of _ "demo_node 5"], rule exI [of _ "demo_node 2"])
      (simp add: c demo_dir_def demo_node_def demo_link_def zero_dir_def zero_inner_def entries_numbers)
qed

theorem slab_find_by_address_witness:
  "slab_find (demo_page 3 + 4000) demo_world = Inr (Some demo_se, demo_world)"
proof -
  have "inorder (sd_maddr_root demo_dir) = [demo_se]" "maddr_of demo_c demo_se = demo_page 3"
    by (simp_all add: demo_dir_def maddr_of_def demo_views(3)) (simp add: demo_entry_def)
  then show ?thesis
    using slab_find_by_address [OF demo_mem demo_dir_is demo_indexed, of "demo_page 3 + 4000"] by (auto simp: PAGE_SIZE_def)
qed

theorem entry_of_identifier_witness:
  "get_slab_entry_by_id 5 demo_world = Inr (se_addr (demo_page 2) 5, demo_world)"
  using entry_of_identifier [OF demo_mem demo_dir_is demo_path, of 5]
  by (simp add: entries_numbers seid_of_def)

theorem root_set_and_get_witness:
  "(\<exists>w'. slab_setroot (2 ^ 40 + 3 * 4096) demo_world = Inr (1, w') \<and> slab_getroot w' = Inr (demo_page 3, w')) \<and>
   (\<exists>w' d'. slab_setroot (2 ^ 40 + 3 * 4096 + 16) demo_world = Inr (1, w') \<and> rd_dir (demo_page 1) w' = Inr (d', w') \<and>
      fst (UNPACK_CONT_ROOT (sd_cont_root d')) = 0xffffffff)"
proof -
  have se: "demo_se = se_addr (demo_page 2) 0" by (simp add: demo_se_def se_addr_def)
  have d: "demo_se \<in> set (inorder (sd_maddr_root demo_dir))" "page_base demo_se \<noteq> demo_page 1"
    unfolding demo_at(4) by (simp_all add: demo_dir_def)
  have e: "se_id demo_entry = seid_of 0 0 0 0" "d_maddr (se_cur demo_entry) = demo_page 3"
    by (simp_all add: demo_entry_def zero_entry_def seid_of_def)
  have w: "w_cont (rest demo_world) \<noteq> demo_page 1" by (simp add: rest_def demo_world_def)
  have pr: "writable (demo_pr (demo_page 1))" unfolding demo_views(2) by (simp add: writable_def PA_PROT_WRITE_def)
  have p: "seid_path (se_id demo_entry) = (0, 0, 0, 0)" "se_id demo_entry < 2 ^ 32" "page_base (se_addr (demo_page 2) 0) \<in> demo_used - {demo_page 1}"
    "entry_at demo_c (se_addr (demo_page 2) 0) = Some demo_entry"
    using demo_views(3) d(2) demo_at(4) unfolding e(1) se [symmetric] by (simp_all add: seid_path_def seid_of_def)
  note root = root_set_and_get [OF demo_mem demo_dir_is demo_indexed pr w d(1) demo_views(3) p(2), unfolded e(2),
      of _ 0 0 0 0 "demo_page 2" demo_entry]
  have a: "unat (2 ^ 40 + 3 * 4096 :: u64) = demo_page 3" "unat (2 ^ 40 + 3 * 4096 + 16 :: u64) = demo_page 3 + 16"
    by (simp_all add: demo_page_def)
  have b: "page_base (demo_page 3) = demo_page 3" "page_base (demo_page 3 + 16) = demo_page 3" "PAGE_SIZE dvd demo_page 3"
    "\<not> PAGE_SIZE dvd demo_page 3 + 16" by (simp_all add: page_base_def demo_page_def PAGE_SIZE_def)
  have q: "seid_path (se_id demo_entry) = (0, 0, 0, 0) \<and> dir_path demo_used demo_c (demo_page 1) demo_dir 0 0 0 (demo_page 2) \<and>
    page_base (se_addr (demo_page 2) 0) \<in> demo_used - {demo_page 1} \<and> entry_at demo_c (se_addr (demo_page 2) 0) = Some demo_entry"
    using p demo_path by blast
  from root [of "2 ^ 40 + 3 * 4096"] root [of "2 ^ 40 + 3 * 4096 + 16"] q show ?thesis
    unfolding a e(2) by (simp only: b if_True if_False SLAB_PTR_SEID_NULL_def) auto
qed

section \<open>Pointers in a data page\<close>

fun put_bytes :: "(nat \<Rightarrow> u8) \<Rightarrow> nat \<Rightarrow> nat \<Rightarrow> nat \<Rightarrow> nat \<Rightarrow> u8" where
  "put_bytes d i 0 v = d"
| "put_bytes d i (Suc n) v = put_bytes (d(i := word_of_nat v)) (i + 1) n (v div 256)"

fun get_bytes :: "(nat \<Rightarrow> u8) \<Rightarrow> nat \<Rightarrow> nat \<Rightarrow> nat" where
  "get_bytes d i 0 = 0"
| "get_bytes d i (Suc n) = unat (d i) + 256 * get_bytes d (i + 1) n"

lemma put_bytes_frame: "j < i \<or> i + n \<le> j \<Longrightarrow> put_bytes d i n v j = d j"
  by (induction n arbitrary: d i v) auto

lemma get_put_bytes: "v < 256 ^ n \<Longrightarrow> get_bytes (put_bytes d i n v) i n = v"
proof (induction n arbitrary: d i v)
  case (Suc n)
  then have "v div 256 < 256 ^ n" by (simp add: div_less_iff_less_mult mult.commute)
  then have "get_bytes (put_bytes (d(i := word_of_nat v)) (i + 1) n (v div 256)) (i + 1) n = v div 256" by (rule Suc.IH)
  moreover have "unat (word_of_nat v :: u8) = v mod 256" by (simp add: unsigned_of_nat take_bit_eq_mod)
  ultimately show ?case by (simp add: put_bytes_frame)
qed simp

lemma next_byte:
  assumes "Suc (a mod PAGE_SIZE) < PAGE_SIZE"
  shows "page_base (a + 1) = page_base a" "(a + 1) mod PAGE_SIZE = a mod PAGE_SIZE + 1"
proof -
  have "(a + 1) mod 4096 = a mod 4096 + 1" using assms by (simp add: mod_Suc PAGE_SIZE_def)
  then show "(a + 1) mod PAGE_SIZE = a mod PAGE_SIZE + 1" by (simp add: PAGE_SIZE_def)
  have "(a + 1) div 4096 = a div 4096" using assms by (simp add: div_Suc PAGE_SIZE_def mod_Suc)
  then show "page_base (a + 1) = page_base a" by (simp add: page_base_def PAGE_SIZE_def)
qed

text \<open>A data page with the contents \<^verbatim>\<open>d\<close>, the other pages as in \<^verbatim>\<open>c\<close>.\<close>

definition data_at :: "nat set \<Rightarrow> (nat \<Rightarrow> page) \<Rightarrow> (nat \<Rightarrow> nat) \<Rightarrow> nat \<Rightarrow> world \<Rightarrow> nat \<Rightarrow> (nat \<Rightarrow> u8) \<Rightarrow> world \<Rightarrow> bool" where
  "data_at U c pr k r p d w \<longleftrightarrow> (\<exists>c'. mem U c' pr k r w \<and> as_data (c' p) = Some d \<and> (\<forall>b. b \<noteq> p \<longrightarrow> c' b = c b))"

lemma mapped_byte:
  assumes "mem U c pr k r w" "page_base a \<in> U"
  shows "os_vm (w_os w) (vpn a) \<noteq> None"
  using mem_page(4) [OF assms] by (auto simp: page_base_vpn)

lemma rd_bytes_ok:
  assumes "data_at U c pr k r (page_base a) d w" "page_base a \<in> U" "a mod PAGE_SIZE + n \<le> PAGE_SIZE"
  shows "rd_bytes a n w = Inr (get_bytes d (a mod PAGE_SIZE) n, w)"
  using assms
proof (induction n arbitrary: a)
  case (Suc n)
  obtain c' where m: "mem U c' pr k r w" "as_data (c' (page_base a)) = Some d" using Suc.prems(1) by (auto simp: data_at_def)
  have b: "rd_byte a w = Inr (d (a mod PAGE_SIZE), w)"
    using mapped_byte [OF m(1) Suc.prems(2)] rd_ok(6) [OF m(1) Suc.prems(2) m(2)] by (simp add: rd_byte_def bindM_def)
  show ?case
  proof (cases n)
    case 0
    then show ?thesis using b by (simp add: bindM_def)
  next
    case (Suc q)
    then have lt: "Suc (a mod PAGE_SIZE) < PAGE_SIZE" using Suc.prems(3) by simp
    have "rd_bytes (a + 1) n w = Inr (get_bytes d (a mod PAGE_SIZE + 1) n, w)"
      using Suc.IH [of "a + 1"] Suc.prems next_byte [OF lt] by simp
    then show ?thesis using b by (simp add: bindM_def)
  qed
qed simp

lemma wr_bytes_ends:
  assumes "page_base a \<in> U" "writable (pr (page_base a))" "a mod PAGE_SIZE + n \<le> PAGE_SIZE"
  shows "ends (data_at U c pr k r (page_base a) d) (wr_bytes a n v)
    (\<lambda>_. data_at U c pr k r (page_base a) (put_bytes d (a mod PAGE_SIZE) n v))"
  using assms
proof (induction n arbitrary: a d v)
  case (Suc n)
  let ?p = "page_base a"
  have b: "ends (data_at U c pr k r ?p d) (wr_byte a x) (\<lambda>_. data_at U c pr k r ?p (d(a mod PAGE_SIZE := x)))" for x
    unfolding ends_def
  proof (intro allI impI)
    fix w
    assume "data_at U c pr k r ?p d w"
    then obtain c' where c': "mem U c' pr k r w" "as_data (c' ?p) = Some d" "\<forall>b. b \<noteq> ?p \<longrightarrow> c' b = c b" by (auto simp: data_at_def)
    have "raw_touch a w = Inr ((), w)" by (rule raw_touch_ok [OF c'(1) Suc.prems(1,2)])
    then have "touch a w = Inr ((), w)" by (simp add: touch_def)
    moreover note poke_ok [OF c'(1) Suc.prems(1), of "PData (d(a mod PAGE_SIZE := x))"]
      rd_ok(6) [OF c'(1) Suc.prems(1) c'(2)] mapped_byte [OF c'(1) Suc.prems(1)]
    ultimately have "wr_byte a x w = Inr ((), put a (PData (d(a mod PAGE_SIZE := x))) w)"
      "mem U (c'(?p := PData (d(a mod PAGE_SIZE := x)))) pr k r (put a (PData (d(a mod PAGE_SIZE := x))) w)"
      by (simp_all add: wr_byte_def up_data_def thenM_step bindM_step)
    then show "\<exists>y w'. wr_byte a x w = Inr (y, w') \<and> data_at U c pr k r ?p (d(a mod PAGE_SIZE := x)) w'"
      using c'(3) unfolding data_at_def by fastforce
  qed
  show ?case
  proof (cases n)
    case 0
    have "ends (data_at U c pr k r ?p d) (thenM (wr_byte a (word_of_nat v)) (retM ()))
        (\<lambda>_. data_at U c pr k r ?p (d(a mod PAGE_SIZE := word_of_nat v)))"
      by (rule total_then [OF b total_ret])
    then show ?thesis unfolding 0 wr_bytes.simps put_bytes.simps .
  next
    case (Suc q)
    then have lt: "Suc (a mod PAGE_SIZE) < PAGE_SIZE" using Suc.prems(3) by simp
    have "ends (data_at U c pr k r ?p (d(a mod PAGE_SIZE := word_of_nat v))) (wr_bytes (a + 1) n (v div 256))
        (\<lambda>_. data_at U c pr k r ?p (put_bytes (d(a mod PAGE_SIZE := word_of_nat v)) (a mod PAGE_SIZE + 1) n (v div 256)))"
      using Suc.IH [of "a + 1"] Suc.prems next_byte [OF lt] by simp
    then show ?thesis using total_then [OF b [of "word_of_nat v"]] by simp
  qed
qed (simp add: ends_def)

lemma data_at_self: "mem U c pr k r w \<Longrightarrow> as_data (c p) = Some d \<Longrightarrow> data_at U c pr k r p d w"
  by (auto simp: data_at_def)

text \<open>
  A pointer stored into a data page that can be written is read back unchanged, and no byte of
  the page outside the eight of the pointer has changed.
\<close>

lemma pointer_written_and_read:
  assumes "mem U c pr k r w" "page_base a \<in> U" "as_data (c (page_base a)) = Some d" "writable (pr (page_base a))"
    and "a mod PAGE_SIZE + 8 \<le> PAGE_SIZE" "v < 2 ^ 64"
  shows "\<exists>w' d'. wr_ptr a v w = Inr ((), w') \<and> rd_ptr a w' = Inr (v, w') \<and> rd_data a w' = Inr (d', w') \<and>
    (\<forall>i. i < a mod PAGE_SIZE \<or> a mod PAGE_SIZE + 8 \<le> i \<longrightarrow> d' i = d i)"
proof -
  let ?d = "put_bytes d (a mod PAGE_SIZE) 8 v"
  obtain w' where w': "wr_ptr a v w = Inr ((), w')" "data_at U c pr k r (page_base a) ?d w'"
    using endsD [OF wr_bytes_ends [of a U pr 8, OF assms(2,4,5)] data_at_self [OF assms(1,3)]] by (auto simp: wr_ptr_def)
  have "rd_ptr a w' = Inr (v, w')"
    using rd_bytes_ok [OF w'(2) assms(2,5)] get_put_bytes [of v 8] assms(6) by (simp add: rd_ptr_def)
  moreover have "rd_data a w' = Inr (?d, w')"
    using w'(2) rd_ok(6) [OF _ assms(2)] by (auto simp: data_at_def)
  ultimately show ?thesis using w'(1) put_bytes_frame by blast
qed

text \<open>The element that stands for a NULL pointer.\<close>

definition null_element :: "ptr_meta \<Rightarrow> bool" where
  "null_element p \<longleftrightarrow> pval_seid p = SLAB_PTR_SEID_NULL \<and> pval_offset p = SLAB_PTR_OFFSET_NULL"

lemma rd_ptrs_ok:
  assumes "mem U c pr k r w" "a \<in> U" "c a = PPtr l"
  shows "rd_ptrs a w = Inr (l, w)"
  using page_of_ok [OF assms(1), of a] mem_page(1) [OF assms(1,2)] assms(2,3) by (simp add: rd_ptrs_def bindM_def)

text \<open>
  C12: Relocation of a persistent pointer.  The element \<^verbatim>\<open>m\<close> of the pointers of an entry says where in
  the entry's data page the pointer is and, by the identifier and the offset, what it points to.
  Fixing the null element stores NULL there, without any lookup in the directory; for every other
  element whose identifier leads to an entry it stores the present address of the target.
\<close>

theorem pointer_is_relocated:
  assumes "mem U c pr q r w" "dir_is U c r sd d" "page_base loc \<in> U" "entry_at c loc = Some e"
    and "p_maddr (ptr_cur e) \<in> U" "c (p_maddr (ptr_cur e)) = PPtr ps" "m < length ps" "p = ps ! m"
    and "a = d_maddr (se_cur e) + unat (ploc_offset p)" "page_base a \<in> U" "as_data (c (page_base a)) = Some b"
    and "writable (pr (page_base a))" "a mod PAGE_SIZE + 8 \<le> PAGE_SIZE"
    and "\<not> null_element p \<Longrightarrow> seid_path (unat (pval_seid p)) = (i, j, k, l) \<and> dir_path U c sd d i j k sb \<and>
      page_base (se_addr sb l) \<in> U \<and> entry_at c (se_addr sb l) = Some v \<and> d_maddr (se_cur v) + unat (pval_offset p) < 2 ^ 64"
  shows "\<exists>w'. fix_pointer loc m w = Inr ((), w') \<and>
    rd_ptr a w' = Inr (if null_element p then 0 else d_maddr (se_cur v) + unat (pval_offset p), w')"
proof -
  define u where "u = (if null_element p then 0 else d_maddr (se_cur v) + unat (pval_offset p))"
  have u: "u < 2 ^ 64" using assms(14) by (simp add: u_def)
  have read: "rd_se loc w = Inr (e, w)" "rd_ptrs (p_maddr (ptr_cur e)) w = Inr (ps, w)"
    using rd_se_ok [OF assms(1,3,4)] rd_ptrs_ok [OF assms(1,5,6)] by simp_all
  have target: "get_slab_entry_by_id (unat (pval_seid p)) w = Inr (se_addr sb l, w) \<and> rd_se (se_addr sb l) w = Inr (v, w)"
    if n: "\<not> null_element p"
    using get_by_id_ok [OF assms(1,2), of i j k sb "unat (pval_seid p)" l] rd_se_ok [OF assms(1), of "se_addr sb l" v] assms(14) [OF n]
    by simp
  have "fix_pointer loc m w = wr_ptr a u w"
    using read target assms(7-9) by (auto simp: fix_pointer_def bindM_def cellM_def Let_def u_def null_element_def)
  moreover obtain w' where w': "wr_ptr a u w = Inr ((), w')"
    "data_at U c pr q r (page_base a) (put_bytes b (a mod PAGE_SIZE) 8 u) w'"
    using endsD [OF wr_bytes_ends [of a U pr 8, OF assms(10,12,13)] data_at_self [OF assms(1,11)]] by (auto simp: wr_ptr_def)
  moreover have "rd_ptr a w' = Inr (u, w')"
    using rd_bytes_ok [OF w'(2) assms(10,13)] get_put_bytes [of u 8] u by (simp add: rd_ptr_def)
  ultimately show ?thesis unfolding u_def [symmetric] by auto
qed

theorem pointer_is_relocated_witness:
  "(\<exists>w'. fix_pointer demo_se 0 open_world = Inr ((), w') \<and> rd_ptr (demo_page 3 + 40) w' = Inr (demo_page 3 + 16, w')) \<and>
   (\<exists>w'. fix_pointer demo_se 1 open_world = Inr ((), w') \<and> rd_ptr (demo_page 3 + 48) w' = Inr (0, w'))"
proof -
  have se: "se_addr (demo_page 2) 0 = demo_se" by (simp add: demo_se_def se_addr_def)
  have e: "d_maddr (se_cur demo_entry) = demo_page 3" "p_maddr (ptr_cur demo_entry) = demo_page 6"
    by (simp_all add: demo_entry_def)
  have c: "demo_c (demo_page 6) = PPtr demo_ptrs" "as_data (demo_c (demo_page 3)) = Some (\<lambda>_. 0)"
    using demo_views(1) [of 6] demo_views(1) [of 3] by (simp_all add: demo_contents_def)
  have p: "0 < List.length demo_ptrs" "demo_ptrs ! 0 = \<lparr>ploc_offset = 40, pval_seid = 0, pval_offset = 16\<rparr>"
    "1 < List.length demo_ptrs" "demo_ptrs ! 1 = \<lparr>ploc_offset = 48, pval_seid = 0xffffffff, pval_offset = 0xffff\<rparr>"
    by (simp_all add: demo_ptrs_def PTRS_IN_PAGE_def PTR_ELEM_SIZE_def PAGE_SIZE_def)
  have a: "page_base (demo_page 3 + 40) = demo_page 3" "(demo_page 3 + 40) mod PAGE_SIZE = 40"
    "page_base (demo_page 3 + 48) = demo_page 3" "(demo_page 3 + 48) mod PAGE_SIZE = 48" "demo_page 3 + 16 < 2 ^ 64"
    by (simp_all add: page_base_def demo_page_def PAGE_SIZE_def)
  have n: "\<not> null_element \<lparr>ploc_offset = 40, pval_seid = 0, pval_offset = 16\<rparr>"
    "null_element \<lparr>ploc_offset = 48, pval_seid = 0xffffffff, pval_offset = 0xffff\<rparr>"
    by (simp_all add: null_element_def SLAB_PTR_SEID_NULL_def SLAB_PTR_OFFSET_NULL_def)
  have w: "writable PA_PROT_WRITE" by (simp add: writable_def PA_PROT_WRITE_def)
  have d: "dir_is demo_used demo_c (rest open_world) (demo_page 1) demo_dir"
    using demo_dir_is by (simp add: dir_is_def rest_def open_world_def demo_world_def)
  have s: "seid_path 0 = (0, 0, 0, 0)" by (simp add: seid_path_def)
  have u: "page_base demo_se \<in> demo_used" unfolding demo_at(4) by simp
  note moved = pointer_is_relocated [OF open_mem d u demo_views(3), unfolded e, OF _ c(1)]
  have "\<exists>w'. fix_pointer demo_se 0 open_world = Inr ((), w') \<and> rd_ptr (demo_page 3 + 40) w' = Inr (demo_page 3 + 16, w')"
    using moved [OF _ p(1) p(2) [symmetric], of "demo_page 3 + 40" "\<lambda>_. 0" 0 0 0 0 "demo_page 2" demo_entry]
      c(2) demo_path demo_views(3) a w s u n e se by (simp add: PAGE_SIZE_def)
  moreover have "\<exists>w'. fix_pointer demo_se 1 open_world = Inr ((), w') \<and> rd_ptr (demo_page 3 + 48) w' = Inr (0, w')"
    using moved [OF _ p(3) p(4) [symmetric], of "demo_page 3 + 48" "\<lambda>_. 0" 0 0 0 0 "demo_page 2" demo_entry]
      c(2) a w n by (simp add: PAGE_SIZE_def)
  ultimately show ?thesis by blast
qed

end
