(* ===== verification/Checkpoint.thy ===== *)
theory Checkpoint
  imports Slabptr
begin

text \<open>
  The checkpoint of \<^verbatim>\<open>src/src/checkpoint.c\<close>: the current versions of the pages become the snapshot
  versions, the old snapshot pages are given back and the data pages are write-protected again.
\<close>

definition set_ptr_snap :: "(slab_pref \<Rightarrow> slab_pref) \<Rightarrow> slab_entry \<Rightarrow> slab_entry" where
  "set_ptr_snap f e = e\<lparr>ptr_snap := f (ptr_snap e)\<rparr>"

definition set_data_snap :: "(slab_data \<Rightarrow> slab_data) \<Rightarrow> slab_entry \<Rightarrow> slab_entry" where
  "set_data_snap f e = e\<lparr>se_snap := f (se_snap e)\<rparr>"

text \<open>The two versions of the data page and of the page of pointers of an entry.\<close>

definition cpoint_data :: "nat \<Rightarrow> unit M" where
  "cpoint_data se =
     bindM (rd_se se) (\<lambda>e.
     if d_maddr (se_cur e) \<noteq> d_maddr (se_snap e)
     then thenM (atomic_set (up_se touch se (set_data_snap (\<lambda>d. d\<lparr>d_laddr := d_laddr (se_cur e)\<rparr>))))
          (thenM (freepage (d_maddr (se_snap e)))
          (up_se touch se (set_data_snap (\<lambda>d. d\<lparr>d_maddr := d_maddr (se_cur e)\<rparr>))))
     else retM ())"

definition cpoint_ptrs :: "nat \<Rightarrow> unit M" where
  "cpoint_ptrs se =
     bindM (rd_se se) (\<lambda>e.
     if p_maddr (ptr_cur e) \<noteq> 0
     then thenM (if p_maddr (ptr_snap e) \<noteq> 0 \<and> p_maddr (ptr_snap e) \<noteq> p_maddr (ptr_cur e)
                 then freepage (p_maddr (ptr_snap e)) else retM ())
          (thenM (atomic_set (up_se touch se (set_ptr_snap (\<lambda>p. p\<lparr>p_laddr := p_laddr (ptr_cur e)\<rparr>))))
          (up_se touch se (set_ptr_snap (\<lambda>p. p\<lparr>p_maddr := p_maddr (ptr_cur e)\<rparr>))))
     else retM ())"

definition cpoint_entry :: "cpoint_type \<Rightarrow> nat \<Rightarrow> unit M" where
  "cpoint_entry type se =
     thenM (cpoint_data se) (thenM (cpoint_ptrs se)
     (if type = CPOINT_REGULAR then bindM (rd_se se) (\<lambda>e. mprotectM (d_maddr (se_cur e)) PAGE_SIZE PA_PROT_READ)
      else retM ()))"

definition slab_bucket_cpoint :: "cpoint_type \<Rightarrow> nat \<Rightarrow> unit M" where
  "slab_bucket_cpoint type sb = bucket_entries (cpoint_entry type) sb"

definition cpoint_bucket :: "cpoint_type \<Rightarrow> nat \<Rightarrow> nat \<Rightarrow> unit M" where
  "cpoint_bucket type si i =
     bindM (rd_inner si) (\<lambda>n. bindM (cellM (node_current n) i) (\<lambda>c.
     let sb = l_maddr c in
     bindM (rd_bucket sb) (\<lambda>b.
     if sb_has_snapshot b
     then thenM (slab_bucket_cpoint type sb)
          (thenM (atomic_set (up_inner touch si (set_snap_laddr i (l_laddr c))))
          (bindM (rd_inner si) (\<lambda>n. bindM (cellM (node_snapshot n) i) (\<lambda>s.
           thenM (freepage (l_maddr s))
           (thenM (up_inner touch si (set_snap_maddr i sb))
           (up_bucket touch sb (\<lambda>b. b\<lparr>sb_has_snapshot := False\<rparr>)))))))
     else retM ())))"

definition slab_inner_cpoint :: "cpoint_type \<Rightarrow> nat \<Rightarrow> unit M" where
  "slab_inner_cpoint type si = bindM (rd_inner si) (\<lambda>n. eachM (cpoint_bucket type si) [0..<node_index n])"

definition cpoint_inner :: "cpoint_type \<Rightarrow> nat \<Rightarrow> nat \<Rightarrow> unit M" where
  "cpoint_inner type so i =
     bindM (rd_outer so) (\<lambda>n. bindM (cellM (node_current n) i) (\<lambda>c.
     thenM (slab_inner_cpoint type (l_maddr c))
     (bindM (rd_outer so) (\<lambda>n. bindM (cellM (node_snapshot n) i) (\<lambda>s.
     if l_maddr c \<noteq> l_maddr s
     then thenM (atomic_set (up_outer touch so (set_snap_laddr i (l_laddr c))))
          (thenM (freepage (l_maddr s)) (up_outer touch so (set_snap_maddr i (l_maddr c))))
     else retM ())))))"

definition slab_outer_cpoint :: "cpoint_type \<Rightarrow> nat \<Rightarrow> unit M" where
  "slab_outer_cpoint type so = bindM (rd_outer so) (\<lambda>n. eachM (cpoint_inner type so) [0..<node_index n])"

definition cpoint_outer :: "cpoint_type \<Rightarrow> nat \<Rightarrow> nat \<Rightarrow> unit M" where
  "cpoint_outer type sd i =
     bindM (rd_dir sd) (\<lambda>d. bindM (cellM (sd_current d) i) (\<lambda>c.
     thenM (slab_outer_cpoint type (l_maddr c))
     (bindM (rd_dir sd) (\<lambda>d. bindM (cellM (sd_snapshot d) i) (\<lambda>s.
     if l_maddr c \<noteq> l_maddr s
     then thenM (atomic_set (up_dir touch sd (set_dir_snap i (\<lambda>p. p\<lparr>l_laddr := l_laddr c\<rparr>))))
          (thenM (freepage (l_maddr s)) (up_dir touch sd (set_dir_snap i (\<lambda>p. p\<lparr>l_maddr := l_maddr c\<rparr>))))
     else retM ())))))"

definition slab_dir_cpoint :: "cpoint_type \<Rightarrow> nat \<Rightarrow> unit M" where
  "slab_dir_cpoint type sd = bindM (rd_dir sd) (\<lambda>d. eachM (cpoint_outer type sd) [0..<sd_index d])"

text \<open>The data pages copied in this transaction are flushed, then the vector of their entries is freed.\<close>

definition slab_cpoint :: "cpoint_type \<Rightarrow> unit M" where
  "slab_cpoint type =
     bindM current_sd (\<lambda>sd.
     thenM (slab_dir_cpoint type sd)
     (bindM (rd_dir sd) (\<lambda>d.
     thenM (eachM (\<lambda>i. bindM (liftM (VECTOR_AT (sd_vector d) i)) (\<lambda>se. bindM (rd_se se) (\<lambda>e.
              flush_memsegment (d_maddr (se_cur e)) PAGE_SIZE))) [0..<VECTOR_SIZE (sd_vector d)])
     (up_dir touch sd (\<lambda>d. d\<lparr>sd_vector := VECTOR_FREE (sd_vector d)\<rparr>)))))"

end
