(* ===== verification/Restore.thy ===== *)
theory Restore
  imports Slabptr
begin

text \<open>
  The restore of \<^verbatim>\<open>src/src/restore.c\<close>: the pages of the directory are mapped again, their addresses
  recomputed from the numbers of the pages in the file, and the indexes of the process rebuilt.
  After a complete checkpoint the snapshot version is mapped; after an interrupted one both are.
\<close>

definition index_slab_entry :: "nat \<Rightarrow> nat \<Rightarrow> unit M" where
  "index_slab_entry sd se =
     bindM (rd_se se) (\<lambda>e.
     if SLAB_ENTRY_IS_INIT e
     then bindM (find_size sd (se_size e)) (\<lambda>found.
          thenM (case found of
              Some es \<Rightarrow> bindM (slab_entry_full se) (\<lambda>full.
                if full then insert_tail (es_list_head es) se else insert_head (es_list_head es) se)
            | None \<Rightarrow> bindM (slab_entry_size_init (se_size e)) (\<lambda>es.
                thenM (index_size sd es) (insert_tail (es_list_head es) se)))
          (index_entry touch sd se))
     else insert_tail (free_list_head sd) se)"

text \<open>The addresses of an entry; the two versions must be the same page after a complete checkpoint.\<close>

definition map_entry :: "cpoint_type \<Rightarrow> nat \<Rightarrow> unit M" where
  "map_entry type se =
     bindM (rd_se se) (\<lambda>e.
     case type of
       CPOINT_INCOMPLETE \<Rightarrow>
         bindM (mappage (d_laddr (se_cur e))) (\<lambda>cd. bindM (mappage (d_laddr (se_snap e))) (\<lambda>sd.
         bindM (mappage (p_laddr (ptr_cur e))) (\<lambda>cp. bindM (mappage (p_laddr (ptr_snap e))) (\<lambda>sp.
         up_se touch se (\<lambda>e. e\<lparr>
           se_cur := (se_cur e)\<lparr>d_maddr := cd\<rparr>, se_snap := (se_snap e)\<lparr>d_maddr := sd\<rparr>,
           ptr_cur := (ptr_cur e)\<lparr>p_maddr := cp\<rparr>, ptr_snap := (ptr_snap e)\<lparr>p_maddr := sp\<rparr>\<rparr>)))))
     | CPOINT_COMPLETE \<Rightarrow>
         thenM (if d_laddr (se_cur e) = d_laddr (se_snap e) then retM ()
                else errM (Assertion ''Inconsistent state on slab_entry data''))
         (bindM (mappage (d_laddr (se_snap e))) (\<lambda>a.
         thenM (up_se touch se (\<lambda>e. e\<lparr>
           se_cur := (se_cur e)\<lparr>d_maddr := a, d_laddr := d_laddr (se_snap e)\<rparr>, se_snap := (se_snap e)\<lparr>d_maddr := a\<rparr>\<rparr>))
         (thenM (if p_laddr (ptr_cur e) = p_laddr (ptr_snap e) then retM ()
                 else errM (Assertion ''Inconsistent state on slab_entry ptrs''))
         (bindM (mappage (p_laddr (ptr_snap e))) (\<lambda>p.
         up_se touch se (\<lambda>e. e\<lparr>
           ptr_cur := (ptr_cur e)\<lparr>p_maddr := p, p_laddr := p_laddr (ptr_snap e)\<rparr>, ptr_snap := (ptr_snap e)\<lparr>p_maddr := p\<rparr>\<rparr>))))))
     | _ \<Rightarrow> errM (Handle_error ''invalid restore type''))"

definition slab_bucket_map :: "nat \<Rightarrow> nat \<Rightarrow> cpoint_type \<Rightarrow> bool \<Rightarrow> nat M" where
  "slab_bucket_map sd laddr type indexing =
     bindM (mappage laddr) (\<lambda>sb.
     thenM (eachM (\<lambda>i. let se = se_addr sb i in
       bindM (rd_se se) (\<lambda>e.
       thenM (if SLAB_ENTRY_IS_INIT e then map_entry type se else retM ())
       (if indexing then index_slab_entry sd se else retM ())))
       [0..<SLAB_BUCKET_ENTRIES])
     (retM sb))"

definition set_cur_maddr :: "nat \<Rightarrow> nat \<Rightarrow> slab_node \<Rightarrow> slab_node" where
  "set_cur_maddr i a n = n\<lparr>node_current := (node_current n)[i := (node_current n ! i)\<lparr>l_maddr := a\<rparr>]\<rparr>"

text \<open>The fields of a link after its page, or its two pages, have been mapped.\<close>

definition same_link :: "nat \<Rightarrow> slab_node \<Rightarrow> slab_node" where
  "same_link i n =
     (let s = node_snapshot n ! i; a = l_maddr (node_current n ! i)
      in set_cur_laddr i (l_laddr s) (set_snap_maddr i a n))"

definition map_bucket :: "nat \<Rightarrow> cpoint_type \<Rightarrow> nat \<Rightarrow> nat \<Rightarrow> unit M" where
  "map_bucket sd type si i =
     bindM (rd_inner si) (\<lambda>n. bindM (cellM (node_current n) i) (\<lambda>c. bindM (cellM (node_snapshot n) i) (\<lambda>s.
     if NOT_CS_CONSISTENT (l_laddr c) (l_laddr s)
     then errM (Handle_error ''found inconsistent state while restoring inner'')
     else if l_laddr c = 0 then retM ()
     else case type of
       CPOINT_INCOMPLETE \<Rightarrow>
         bindM (slab_bucket_map sd (l_laddr c) type True) (\<lambda>a. thenM (up_inner touch si (set_cur_maddr i a))
         (bindM (slab_bucket_map sd (l_laddr s) type False) (\<lambda>b. up_inner touch si (set_snap_maddr i b))))
     | CPOINT_COMPLETE \<Rightarrow>
         bindM (slab_bucket_map sd (l_laddr s) type True) (\<lambda>a.
         thenM (up_inner touch si (set_cur_maddr i a)) (up_inner touch si (same_link i)))
     | _ \<Rightarrow> errM (Handle_error ''invalid restore type''))))"

definition slab_inner_map :: "nat \<Rightarrow> nat \<Rightarrow> cpoint_type \<Rightarrow> nat M" where
  "slab_inner_map sd laddr type =
     bindM (mappage laddr) (\<lambda>si. bindM (rd_inner si) (\<lambda>n.
     thenM (eachM (map_bucket sd type si) [0..<node_index n]) (retM si)))"

definition map_inner :: "nat \<Rightarrow> cpoint_type \<Rightarrow> nat \<Rightarrow> nat \<Rightarrow> unit M" where
  "map_inner sd type so i =
     bindM (rd_outer so) (\<lambda>n. bindM (cellM (node_current n) i) (\<lambda>c. bindM (cellM (node_snapshot n) i) (\<lambda>s.
     if NOT_CS_CONSISTENT (l_laddr c) (l_laddr s)
     then errM (Handle_error ''found inconsistent state while restoringi outer'')
     else if l_laddr c = 0 then retM ()
     else case type of
       CPOINT_INCOMPLETE \<Rightarrow>
         bindM (slab_inner_map sd (l_laddr c) type) (\<lambda>a. thenM (up_outer touch so (set_cur_maddr i a))
         (bindM (slab_inner_map sd (l_laddr s) type) (\<lambda>b. up_outer touch so (set_snap_maddr i b))))
     | CPOINT_COMPLETE \<Rightarrow>
         bindM (slab_inner_map sd (l_laddr s) type) (\<lambda>a.
         thenM (up_outer touch so (set_cur_maddr i a)) (up_outer touch so (same_link i)))
     | _ \<Rightarrow> errM (Handle_error ''invalid restore type''))))"

definition slab_outer_map :: "nat \<Rightarrow> nat \<Rightarrow> cpoint_type \<Rightarrow> nat M" where
  "slab_outer_map sd laddr type =
     bindM (mappage laddr) (\<lambda>so. bindM (rd_outer so) (\<lambda>n.
     thenM (eachM (map_inner sd type so) [0..<node_index n]) (retM so)))"

definition set_dir_cur :: "nat \<Rightarrow> (plink \<Rightarrow> plink) \<Rightarrow> slab_dir \<Rightarrow> slab_dir" where
  "set_dir_cur i f d = d\<lparr>sd_current := (sd_current d)[i := f (sd_current d ! i)]\<rparr>"

definition same_dir_link :: "nat \<Rightarrow> slab_dir \<Rightarrow> slab_dir" where
  "same_dir_link i d =
     (let s = sd_snapshot d ! i; a = l_maddr (sd_current d ! i)
      in set_dir_cur i (\<lambda>p. p\<lparr>l_laddr := l_laddr s\<rparr>) (set_dir_snap i (\<lambda>p. p\<lparr>l_maddr := a\<rparr>) d))"

definition map_outer :: "cpoint_type \<Rightarrow> nat \<Rightarrow> nat \<Rightarrow> unit M" where
  "map_outer type sd i =
     bindM (rd_dir sd) (\<lambda>d. bindM (cellM (sd_current d) i) (\<lambda>c. bindM (cellM (sd_snapshot d) i) (\<lambda>s.
     if NOT_CS_CONSISTENT (l_laddr c) (l_laddr s)
     then errM (Handle_error ''found inconsistent state while restoring dir'')
     else if l_laddr c = 0 then retM ()
     else case type of
       CPOINT_INCOMPLETE \<Rightarrow>
         bindM (slab_outer_map sd (l_laddr c) type) (\<lambda>a. thenM (up_dir touch sd (set_dir_cur i (\<lambda>p. p\<lparr>l_maddr := a\<rparr>)))
         (bindM (slab_outer_map sd (l_laddr s) type) (\<lambda>b. up_dir touch sd (set_dir_snap i (\<lambda>p. p\<lparr>l_maddr := b\<rparr>)))))
     | CPOINT_COMPLETE \<Rightarrow>
         bindM (slab_outer_map sd (l_laddr s) type) (\<lambda>a.
         thenM (up_dir touch sd (set_dir_cur i (\<lambda>p. p\<lparr>l_maddr := a\<rparr>))) (up_dir touch sd (same_dir_link i)))
     | _ \<Rightarrow> errM (Handle_error ''invalid restore type''))))"

definition slab_map :: "nat \<Rightarrow> cpoint_type \<Rightarrow> nat M" where
  "slab_map laddr type =
     bindM (mappage laddr) (\<lambda>sd.
     thenM (up_dir touch sd (\<lambda>d. d\<lparr>sd_maddr_root := RNil, sd_size_root := RNil\<rparr>))
     (thenM (init_list (free_list_head sd))
     (bindM (rd_dir sd) (\<lambda>d.
     thenM (eachM (map_outer type sd) [0..<sd_index d]) (retM sd)))))"

end
