(* ===== verification/Commit.thy ===== *)
theory Commit
  imports Checkpoint Restore
begin

text \<open>
  Transactions: what a store, the checkpoint of its entry and the restore of the entry do together.
  The checkpoint commits the current version of an entry and frees the old one, so that transactions
  can go on for ever with one free page; a bucket without a snapshot of its own is left out by the
  checkpoint, and then the restore fails on the entries whose data has changed.
\<close>

section \<open>The checkpoint of an entry\<close>

definition freed_data :: "slab_entry \<Rightarrow> nat set" where
  "freed_data e = (if d_maddr (se_cur e) \<noteq> d_maddr (se_snap e) then {d_maddr (se_snap e)} else {})"

definition freed_ptrs :: "slab_entry \<Rightarrow> nat set" where
  "freed_ptrs e =
     (if p_maddr (ptr_cur e) \<noteq> 0 \<and> p_maddr (ptr_snap e) \<noteq> 0 \<and> p_maddr (ptr_snap e) \<noteq> p_maddr (ptr_cur e)
      then {p_maddr (ptr_snap e)} else {})"

definition commit_data :: "slab_entry \<Rightarrow> slab_entry" where
  "commit_data e =
     (if d_maddr (se_cur e) \<noteq> d_maddr (se_snap e)
      then e\<lparr>se_snap := (se_snap e)\<lparr>d_laddr := d_laddr (se_cur e), d_maddr := d_maddr (se_cur e)\<rparr>\<rparr> else e)"

definition commit_ptrs :: "slab_entry \<Rightarrow> slab_entry" where
  "commit_ptrs e =
     (if p_maddr (ptr_cur e) \<noteq> 0
      then e\<lparr>ptr_snap := (ptr_snap e)\<lparr>p_laddr := p_laddr (ptr_cur e), p_maddr := p_maddr (ptr_cur e)\<rparr>\<rparr> else e)"

lemma commit_fields [simp]:
  "se_cur (commit_data e) = se_cur e" "ptr_cur (commit_data e) = ptr_cur e" "ptr_snap (commit_data e) = ptr_snap e"
  "se_size (commit_data e) = se_size e" "se_id (commit_data e) = se_id e"
  "se_cur (commit_ptrs e) = se_cur e" "ptr_cur (commit_ptrs e) = ptr_cur e" "se_snap (commit_ptrs e) = se_snap e"
  "se_size (commit_ptrs e) = se_size e" "se_id (commit_ptrs e) = se_id e"
  "d_maddr (se_snap (commit_data e)) = d_maddr (se_cur e)"
  by (simp_all add: commit_data_def commit_ptrs_def)

text \<open>The contents after an update of an entry: the rest of its bucket and the other pages are the same.\<close>

definition bucket_shape :: "(nat \<Rightarrow> page) \<Rightarrow> nat \<Rightarrow> (nat \<times> nat) option" where
  "bucket_shape c sb = map_option (\<lambda>b. (sb_id b, length (sb_entries b))) (as_bucket (c sb))"

definition entry_rel :: "(nat \<Rightarrow> page) \<Rightarrow> nat \<Rightarrow> slab_entry \<Rightarrow> (nat \<Rightarrow> page) \<Rightarrow> bool" where
  "entry_rel c se e c' \<longleftrightarrow> entry_at c' se = Some e \<and> (\<forall>b. b \<noteq> page_base se \<longrightarrow> c' b = c b) \<and>
     (\<forall>b. other_slot se b \<longrightarrow> entry_at c' b = entry_at c b) \<and> bucket_shape c' (page_base se) = bucket_shape c (page_base se)"

lemma entry_rel_self: "entry_at c se = Some e \<Longrightarrow> entry_rel c se e c"
  by (simp add: entry_rel_def)

lemma entry_rel_up:
  assumes "entry_rel c se e c'"
  shows "entry_rel c se (f e) (with_entry c' se f)"
proof -
  have e: "entry_at c' se = Some e" using assms by (simp add: entry_rel_def)
  then obtain b where "as_bucket (c' (page_base se)) = Some b" by (auto simp: entry_at_def split: option.splits if_splits)
  from bucket_with_entry [OF e this, of f] this have "bucket_shape (with_entry c' se f) (page_base se) = bucket_shape c' (page_base se)"
    by (auto simp: bucket_shape_def)
  then show ?thesis
    using assms entry_with_entry(1) [OF e, of f] entry_with_entry(3) [OF e, of _ f] entry_with_other [OF e, of _ f]
    by (simp add: entry_rel_def)
qed

text \<open>The memory after an update of an entry and the release of some pages.\<close>

definition entry_now ::
  "nat set \<Rightarrow> (nat \<Rightarrow> page) \<Rightarrow> (nat \<Rightarrow> nat) \<Rightarrow> nat \<Rightarrow> world \<Rightarrow> nat \<Rightarrow> slab_entry \<Rightarrow> world \<Rightarrow> bool" where
  "entry_now U c pr k r se e w \<longleftrightarrow> (\<exists>c'. mem U c' pr k r w \<and> entry_rel c se e c')"

lemma entry_now_self: "mem U c pr k r w \<Longrightarrow> entry_at c se = Some e \<Longrightarrow> entry_now U c pr k r se e w"
  using entry_rel_self by (auto simp: entry_now_def)

lemma now_up:
  assumes "page_base se \<in> U" "writable (pr (page_base se))"
  shows "ends (entry_now U c pr k r se e) (up_se touch se f) (\<lambda>_. entry_now U c pr k r se (f e))"
proof -
  have "ends (\<lambda>w. mem U c' pr k r w \<and> entry_rel c se e c')
      (up_se touch se f) (\<lambda>_. entry_now U c pr k r se (f e))" for c'
  proof (cases "entry_rel c se e c'")
    case True
    then have "ends (mem U c' pr k r) (up_se touch se f) (\<lambda>_. mem U (with_entry c' se f) pr k r)"
      using total_up_se [of touch se U pr c' e] assms by (simp add: entry_rel_def)
    then show ?thesis
      using True entry_rel_up [OF True, of f] by (elim total_conseq) (auto simp: entry_now_def)
  qed (auto simp: ends_def)
  then show ?thesis unfolding entry_now_def [of _ _ _ _ _ _ e, abs_def] by (rule total_ex)
qed

lemma now_rd:
  assumes "page_base se \<in> U" "ends (entry_now U c pr k r se e) (f e) Q"
  shows "ends (entry_now U c pr k r se e) (bindM (rd_se se) f) Q"
proof -
  have "rd_se se w = Inr (e, w)" if "entry_now U c pr k r se e w" for w
    using that rd_se_ok [OF _ assms(1)] by (auto simp: entry_now_def entry_rel_def)
  then show ?thesis using assms(2) unfolding ends_def by (simp add: bindM_def)
qed

lemma now_flushes: "ends (entry_now U c pr k r se e) (flushes n) (\<lambda>_. entry_now U c pr k r se e)"
proof -
  have "ends (\<lambda>w. mem U c' pr k r w \<and> entry_rel c se e c')
      (flushes n) (\<lambda>_. entry_now U c pr k r se e)" for c'
    using total_stat(3) [of U c' pr k r n] unfolding ends_def entry_now_def by meson
  then show ?thesis unfolding entry_now_def [of _ _ _ _ _ _ e, abs_def] by (rule total_ex)
qed

lemma now_free:
  assumes "a \<in> U"
  shows "ends (entry_now U c pr k r se e) (freepage a) (\<lambda>_. entry_now (U - {a}) c pr (Suc k) r se e)"
  using total_freepage [OF assms] unfolding ends_def entry_now_def by meson

lemma now_mprotect:
  assumes "a \<in> U"
  shows "ends (entry_now U c pr k r se e) (mprotectM a PAGE_SIZE f) (\<lambda>_. entry_now U c (pr(a := f)) k r se e)"
  using total_mprotect [OF assms] unfolding ends_def entry_now_def by meson

lemma now_atomic_up:
  assumes "page_base se \<in> U" "writable (pr (page_base se))"
  shows "ends (entry_now U c pr k r se e) (atomic_set (up_se touch se f)) (\<lambda>_. entry_now U c pr k r se (f e))"
  unfolding atomic_set_def by (rule total_then [OF now_up [of se U pr, OF assms] now_flushes])

text \<open>An entry whose pages are in use and apart, in a bucket that can be written.\<close>

definition committable :: "nat set \<Rightarrow> (nat \<Rightarrow> nat) \<Rightarrow> nat \<Rightarrow> slab_entry \<Rightarrow> bool" where
  "committable U pr se e \<longleftrightarrow> page_base se \<in> U \<and> writable (pr (page_base se)) \<and>
     d_maddr (se_cur e) \<in> U \<and> d_maddr (se_snap e) \<in> U \<and> freed_ptrs e \<subseteq> U \<and>
     page_base se \<notin> freed_data e \<union> freed_ptrs e \<and> d_maddr (se_cur e) \<notin> freed_ptrs e \<and>
     freed_data e \<inter> freed_ptrs e = {}"

lemma cpoint_data_ends:
  assumes "page_base se \<in> U" "writable (pr (page_base se))" "d_maddr (se_snap e) \<in> U" "page_base se \<notin> freed_data e"
  shows "ends (entry_now U c pr k r se e) (cpoint_data se)
    (\<lambda>_. entry_now (U - freed_data e) c pr (k + card (freed_data e)) r se (commit_data e))"
proof (cases "d_maddr (se_cur e) \<noteq> d_maddr (se_snap e)")
  case True
  let ?e1 = "set_data_snap (\<lambda>d. d\<lparr>d_laddr := d_laddr (se_cur e)\<rparr>) e"
  have S: "freed_data e = {d_maddr (se_snap e)}" using True by (simp add: freed_data_def)
  have "ends (entry_now U c pr k r se e)
      (thenM (atomic_set (up_se touch se (set_data_snap (\<lambda>d. d\<lparr>d_laddr := d_laddr (se_cur e)\<rparr>))))
       (thenM (freepage (d_maddr (se_snap e))) (up_se touch se (set_data_snap (\<lambda>d. d\<lparr>d_maddr := d_maddr (se_cur e)\<rparr>)))))
      (\<lambda>_. entry_now (U - {d_maddr (se_snap e)}) c pr (Suc k) r se (set_data_snap (\<lambda>d. d\<lparr>d_maddr := d_maddr (se_cur e)\<rparr>) ?e1))"
    by (intro total_then [OF now_atomic_up [of se U pr, OF assms(1,2)]] total_then [OF now_free [OF assms(3)]] now_up)
      (use assms S in auto)
  moreover have "set_data_snap (\<lambda>d. d\<lparr>d_maddr := d_maddr (se_cur e)\<rparr>) ?e1 = commit_data e"
    using True by (simp add: commit_data_def set_data_snap_def)
  ultimately show ?thesis
    unfolding cpoint_data_def using True by (intro now_rd [OF assms(1)]) (simp add: S)
next
  case False
  then show ?thesis
    unfolding cpoint_data_def by (intro now_rd [OF assms(1)]) (simp add: freed_data_def commit_data_def ends_def)
qed

lemma cpoint_ptrs_ends:
  assumes "page_base se \<in> U" "writable (pr (page_base se))" "freed_ptrs e \<subseteq> U" "page_base se \<notin> freed_ptrs e"
  shows "ends (entry_now U c pr k r se e) (cpoint_ptrs se)
    (\<lambda>_. entry_now (U - freed_ptrs e) c pr (k + card (freed_ptrs e)) r se (commit_ptrs e))"
proof (cases "p_maddr (ptr_cur e) \<noteq> 0")
  case True
  let ?e1 = "set_ptr_snap (\<lambda>p. p\<lparr>p_laddr := p_laddr (ptr_cur e)\<rparr>) e"
  let ?U = "U - freed_ptrs e" and ?k = "k + card (freed_ptrs e)"
  have free: "ends (entry_now U c pr k r se e)
      (if p_maddr (ptr_snap e) \<noteq> 0 \<and> p_maddr (ptr_snap e) \<noteq> p_maddr (ptr_cur e) then freepage (p_maddr (ptr_snap e)) else retM ())
      (\<lambda>_. entry_now ?U c pr ?k r se e)"
  proof (cases "p_maddr (ptr_snap e) \<noteq> 0 \<and> p_maddr (ptr_snap e) \<noteq> p_maddr (ptr_cur e)")
    case F: True
    then have "freed_ptrs e = {p_maddr (ptr_snap e)}" using True by (simp add: freed_ptrs_def)
    then show ?thesis using now_free [of "p_maddr (ptr_snap e)" U c pr k r se e] assms(3) F by simp
  next
    case False
    then have "freed_ptrs e = {}" by (auto simp: freed_ptrs_def)
    moreover have "ends (entry_now U c pr k r se e) (retM ()) (\<lambda>_. entry_now U c pr k r se e)" by (simp add: ends_def)
    ultimately show ?thesis unfolding if_not_P [OF False] by simp
  qed
  have u: "page_base se \<in> ?U" using assms(1,4) by simp
  have "ends (entry_now U c pr k r se e)
      (thenM (if p_maddr (ptr_snap e) \<noteq> 0 \<and> p_maddr (ptr_snap e) \<noteq> p_maddr (ptr_cur e) then freepage (p_maddr (ptr_snap e)) else retM ())
       (thenM (atomic_set (up_se touch se (set_ptr_snap (\<lambda>p. p\<lparr>p_laddr := p_laddr (ptr_cur e)\<rparr>))))
        (up_se touch se (set_ptr_snap (\<lambda>p. p\<lparr>p_maddr := p_maddr (ptr_cur e)\<rparr>)))))
      (\<lambda>_. entry_now ?U c pr ?k r se (set_ptr_snap (\<lambda>p. p\<lparr>p_maddr := p_maddr (ptr_cur e)\<rparr>) ?e1))"
    by (rule total_then [OF free total_then [OF now_atomic_up now_up]]) (use u assms(2) in simp_all)
  moreover have "set_ptr_snap (\<lambda>p. p\<lparr>p_maddr := p_maddr (ptr_cur e)\<rparr>) ?e1 = commit_ptrs e"
    using True by (simp add: commit_ptrs_def set_ptr_snap_def)
  ultimately show ?thesis
    unfolding cpoint_ptrs_def using True by (intro now_rd [OF assms(1)]) simp
next
  case False
  then show ?thesis
    unfolding cpoint_ptrs_def by (intro now_rd [OF assms(1)]) (simp add: freed_ptrs_def commit_ptrs_def ends_def)
qed

text \<open>The pages an entry gives back, and its state after the checkpoint.\<close>

definition freed :: "slab_entry \<Rightarrow> nat set" where "freed e = freed_data e \<union> freed_ptrs e"
definition committed :: "slab_entry \<Rightarrow> slab_entry" where "committed e = commit_ptrs (commit_data e)"

definition protect :: "cpoint_type \<Rightarrow> slab_entry \<Rightarrow> (nat \<Rightarrow> nat) \<Rightarrow> nat \<Rightarrow> nat" where
  "protect type e pr = (if type = CPOINT_REGULAR then pr(d_maddr (se_cur e) := PA_PROT_READ) else pr)"

lemma freed_ptrs_commit [simp]: "freed_ptrs (commit_data e) = freed_ptrs e"
  by (simp add: freed_ptrs_def)

lemma cpoint_entry_now:
  assumes "committable U pr se e"
  shows "ends (entry_now U c pr k r se e) (cpoint_entry type se)
    (\<lambda>_. entry_now (U - freed e) c (protect type e pr) (k + card (freed e)) r se (committed e))"
proof -
  have a: "page_base se \<in> U" "writable (pr (page_base se))" "d_maddr (se_cur e) \<in> U" "d_maddr (se_snap e) \<in> U"
    "freed_ptrs e \<subseteq> U" "page_base se \<notin> freed_data e" "page_base se \<notin> freed_ptrs e" "d_maddr (se_cur e) \<notin> freed_ptrs e"
    "freed_data e \<inter> freed_ptrs e = {}" using assms by (auto simp: committable_def)
  let ?U = "U - freed_data e" and ?k = "k + card (freed_data e)"
  have fin: "finite (freed_data e)" "finite (freed_ptrs e)" by (simp_all add: freed_data_def freed_ptrs_def)
  have U: "U - freed e = ?U - freed_ptrs e" "k + card (freed e) = ?k + card (freed_ptrs e)"
    using card_Un_disjoint [OF fin a(9)] by (auto simp: freed_def)
  have cur: "d_maddr (se_cur e) \<in> ?U - freed_ptrs e" using a(3,8) by (auto simp: freed_data_def)
  have b: "page_base se \<in> ?U - freed_ptrs e" using a(1,6,7) by simp
  note p = cpoint_ptrs_ends [of se ?U pr "commit_data e" c ?k r, unfolded freed_ptrs_commit]
  have p': "ends (entry_now ?U c pr ?k r se (commit_data e)) (cpoint_ptrs se)
      (\<lambda>_. entry_now (?U - freed_ptrs e) c pr (?k + card (freed_ptrs e)) r se (committed e))"
    unfolding committed_def by (rule p) (use a in auto)
  have last: "ends (entry_now (?U - freed_ptrs e) c pr (?k + card (freed_ptrs e)) r se (committed e))
      (if type = CPOINT_REGULAR then bindM (rd_se se) (\<lambda>e. mprotectM (d_maddr (se_cur e)) PAGE_SIZE PA_PROT_READ) else retM ())
      (\<lambda>_. entry_now (?U - freed_ptrs e) c (protect type e pr) (?k + card (freed_ptrs e)) r se (committed e))"
  proof (cases "type = CPOINT_REGULAR")
    case True
    have "se_cur (committed e) = se_cur e" by (simp add: committed_def)
    then have "ends (entry_now (?U - freed_ptrs e) c pr (?k + card (freed_ptrs e)) r se (committed e))
        (bindM (rd_se se) (\<lambda>e. mprotectM (d_maddr (se_cur e)) PAGE_SIZE PA_PROT_READ))
        (\<lambda>_. entry_now (?U - freed_ptrs e) c (pr(d_maddr (se_cur e) := PA_PROT_READ)) (?k + card (freed_ptrs e)) r se (committed e))"
      by (intro now_rd [OF b]) (simp add: now_mprotect [OF cur])
    with True show ?thesis by (simp add: protect_def)
  qed (simp add: protect_def ends_def)
  show ?thesis
    unfolding cpoint_entry_def U
    by (rule total_then [OF cpoint_data_ends [of se U pr e, OF a(1,2,4,6)] total_then [OF p' last]])
qed

section \<open>A transaction on one page\<close>

text \<open>
  A store of new contents to a data page by the application, which faults when the page is
  protected, and the checkpoint of its entry.
\<close>

definition store_page :: "nat \<Rightarrow> (nat \<Rightarrow> u8) \<Rightarrow> unit M" where
  "store_page a x = thenM (touch a) (poke a (PData x))"

definition transaction :: "nat \<Rightarrow> nat \<Rightarrow> (nat \<Rightarrow> u8) \<Rightarrow> unit M" where
  "transaction se a x = thenM (store_page a x) (cpoint_entry CPOINT_REGULAR se)"

text \<open>
  The state between two transactions: the page is protected, its two versions are the same page and
  there are free pages.  The contents of the page of the container and of the pages of the
  directory do not matter, and the vector of copied entries grows.
\<close>

definition between ::
  "nat set \<Rightarrow> (nat \<Rightarrow> nat) \<Rightarrow> nat \<Rightarrow> world \<Rightarrow> nat \<Rightarrow> nat \<Rightarrow> nat \<Rightarrow> (nat \<Rightarrow> u8) \<Rightarrow> world \<Rightarrow> bool" where
  "between U pr k r sd se a x w \<longleftrightarrow>
     (\<exists>c d e. mem U c pr k r w \<and> data_page U c pr r sd d se e \<and> d_maddr (se_cur e) = a \<and>
        d_maddr (se_snap e) = a \<and> as_data (c a) = Some x \<and> p_maddr (ptr_cur e) = 0)"

lemma dir_is_same:
  assumes "dir_is U c r sd d" "as_dir (c' sd) = Some d'" "c' (w_cont r) = c (w_cont r)"
  shows "dir_is U c' r sd d'"
  using assms by (auto simp: dir_is_def)

lemma bucket_page:
  assumes "entry_at c b = Some e" "0 < d_maddr (se_cur e)"
  shows "\<exists>bk. c (page_base b) = PBucket bk"
  using assms by (cases "c (page_base b)") (auto simp: entry_at_def zero_bucket_def zero_entry_def zero_data_def split: if_splits)

lemma mem_cong_prot:
  assumes "mem U c pr k r w" "\<And>a. a \<in> U \<Longrightarrow> pr' a = pr a"
  shows "mem U c pr' k r w"
  using assms by (simp add: mem_def)

text \<open>An index stays in order when the current pages of its entries are the same.\<close>

lemma indexed_same:
  assumes "indexed U c d" "sd_maddr_root d' = sd_maddr_root d"
    and "\<And>b e. b \<in> set (inorder (sd_maddr_root d)) \<Longrightarrow> entry_at c b = Some e \<Longrightarrow>
      \<exists>e'. entry_at c' b = Some e' \<and> d_maddr (se_cur e') = d_maddr (se_cur e)"
  shows "indexed U c' d'"
proof -
  let ?t = "sd_maddr_root d"
  have same: "maddr_of c' b = maddr_of c b" "\<exists>e'. entry_at c' b = Some e' \<and> d_maddr (se_cur e') \<in> U" "page_base b \<in> U"
    if "b \<in> set (inorder ?t)" for b
  proof -
    from assms(1) that obtain e where e: "entry_at c b = Some e" "d_maddr (se_cur e) \<in> U" "page_base b \<in> U"
      by (auto simp: indexed_def)
    from assms(3) [OF that e(1)] show "maddr_of c' b = maddr_of c b" "\<exists>e'. entry_at c' b = Some e' \<and> d_maddr (se_cur e') \<in> U" "page_base b \<in> U"
      using e by (auto simp: maddr_of_def)
  qed
  have "map (maddr_of c') (inorder ?t) = map (maddr_of c) (inorder ?t)" using same(1) by (intro map_cong) auto
  then have "rb_tree (maddr_of c') ?t" using assms(1) unfolding indexed_def rb_tree_def ascending_def by (simp del: map_eq_conv)
  then show ?thesis using same(2,3) assms(2) by (simp add: indexed_def)
qed

text \<open>The pages of an indexed data page have different roles, so they are different pages.\<close>

lemma data_page_apart:
  assumes "data_page U c pr r sd d se e" "as_data (c (d_maddr (se_cur e))) = Some x" "0 \<notin> U"
  shows "w_cont r \<notin> {sd, page_base se, d_maddr (se_cur e)}" "d_maddr (se_cur e) \<notin> {sd, page_base se}"
    and "b \<in> set (inorder (sd_maddr_root d)) \<Longrightarrow> page_base b \<in> U - {sd, w_cont r, d_maddr (se_cur e)}"
    and "b \<in> set (inorder (sd_maddr_root d)) \<Longrightarrow> b \<noteq> se \<Longrightarrow> other_slot se b"
proof -
  have p: "dir_is U c r sd d" "indexed U c d" "se \<in> set (inorder (sd_maddr_root d))" "entry_at c se = Some e"
    using assms(1) by (auto simp: data_page_def)
  have "sd_maddr_root d \<noteq> RNil" using p(3) by auto
  then have sd: "\<exists>d. c sd = PDir d" using p(1) by (cases "c sd") (auto simp: dir_is_def zero_dir_def)
  have "sd \<noteq> 0" using p(1) assms(3) by (metis dir_is_def)
  then have ct: "\<exists>k. c (w_cont r) = PCont k"
    using p(1) by (cases "c (w_cont r)") (auto simp: dir_is_def zero_cont_def zero_link_def)
  have bk: "\<exists>x. c (page_base b) = PBucket x" "page_base b \<in> U" if b: "b \<in> set (inorder (sd_maddr_root d))" for b
  proof -
    from p(2) b obtain f where "entry_at c b = Some f" "d_maddr (se_cur f) \<in> U" "page_base b \<in> U" by (auto simp: indexed_def)
    then show "\<exists>x. c (page_base b) = PBucket x" "page_base b \<in> U" using bucket_page [of c b f] assms(3) by (metis not_gr_zero)+
  qed
  have A: "c (d_maddr (se_cur e)) = PZero \<or> (\<exists>y. c (d_maddr (se_cur e)) = PData y)"
    using assms(2) by (cases "c (d_maddr (se_cur e))") auto
  show "w_cont r \<notin> {sd, page_base se, d_maddr (se_cur e)}" "d_maddr (se_cur e) \<notin> {sd, page_base se}"
    using sd ct bk [OF p(3)] A by auto
  show "page_base b \<in> U - {sd, w_cont r, d_maddr (se_cur e)}" if "b \<in> set (inorder (sd_maddr_root d))"
    using sd ct bk [OF that] A by auto
  show "other_slot se b" if "b \<in> set (inorder (sd_maddr_root d))" "b \<noteq> se"
  proof (rule ccontr)
    assume "\<not> other_slot se b"
    then have "page_base b = page_base se" "se_index b = se_index se" by (auto simp: other_slot_def)
    moreover have "b' \<noteq> 0" if "b' \<in> set (inorder (sd_maddr_root d))" for b'
      using p(2) that by (cases "b' = 0") (auto simp: indexed_def entry_at_def)
    then have "b \<noteq> 0" "se \<noteq> 0" using p(3) that(1) by metis+
    ultimately have "entry_at c b = entry_at c se" by (simp add: entry_at_def cong: option.case_cong if_cong)
    then have "maddr_of c b = maddr_of c se" by (simp add: maddr_of_def)
    moreover have "inj_on (maddr_of c) (set (inorder (sd_maddr_root d)))"
      using p(2) ascending_distinct by (auto simp: indexed_def rb_tree_def distinct_map)
    ultimately show False using that p(3) by (auto dest: inj_onD)
  qed
qed

lemma mem_zero: "mem U c pr k r w \<Longrightarrow> 0 \<notin> U"
  using mem_page(2) by blast

text \<open>The store and the checkpoint of one transaction.\<close>

definition data_stored ::
  "nat set \<Rightarrow> (nat \<Rightarrow> page) \<Rightarrow> nat \<Rightarrow> slab_dir \<Rightarrow> nat \<Rightarrow> slab_entry \<Rightarrow> (nat \<Rightarrow> u8) \<Rightarrow> nat \<Rightarrow> (nat \<Rightarrow> page) \<Rightarrow> bool" where
  "data_stored U c sd d se e x s c1 \<longleftrightarrow>
     (\<exists>c'. copy_made U c sd d se e s c' \<and> c1 = c'(d_maddr (se_cur e) := PData x))"

lemma store_page_ends:
  assumes p: "data_page U c pr r sd d se e" and a: "d_maddr (se_cur e) = a" and ro: "\<not> writable (pr a)" and s: "\<not> w_copynswap r"
  shows "ends (mem U c pr (Suc k) r) (store_page a x)
    (\<lambda>_ w. \<exists>s c1. data_stored U c sd d se e x s c1 \<and> mem (insert s U) c1 (pr(s := PA_PROT_WRITE, a := PA_PROT_RNW)) k r w)"
  unfolding ends_def
proof (intro allI impI)
  fix w
  assume m: "mem U c pr (Suc k) r w"
  have A: "a \<in> U" using data_pageD(2) [OF p] a by simp
  have b: "page_base a = a" using mem_page(1) [OF m A] .
  obtain w1 s c' where w1: "touch a w = Inr ((), w1)" "copy_made U c sd d se e s c'"
    "mem (insert s U) c' (pr(s := PA_PROT_WRITE, a := PA_PROT_RNW)) k r w1"
    using endsD [OF touch_ends [OF p, of a k] m] b a ro s by auto
  obtain w2 where "poke a (PData x) w1 = Inr ((), w2)" "mem (insert s U) (c'(a := PData x)) (pr(s := PA_PROT_WRITE, a := PA_PROT_RNW)) k r w2"
    using poke_ok [OF w1(3), of a "PData x"] A b by auto
  then show "\<exists>y w'. store_page a x w = Inr (y, w') \<and>
      (\<exists>s c1. data_stored U c sd d se e x s c1 \<and> mem (insert s U) c1 (pr(s := PA_PROT_WRITE, a := PA_PROT_RNW)) k r w')"
    using w1(1,2) a by (auto simp: store_page_def thenM_step data_stored_def)
qed

lemma transaction_once:
  assumes ro: "pr a = PA_PROT_READ" and s: "\<not> w_copynswap r"
  shows "ends (between U pr (Suc k) r sd se a x) (transaction se a y) (\<lambda>_. between U pr (Suc k) r sd se a y)"
  unfolding ends_def
proof (intro allI impI)
  fix w
  assume "between U pr (Suc k) r sd se a x w"
  then obtain c d e where m: "mem U c pr (Suc k) r w" and p: "data_page U c pr r sd d se e"
    and e: "d_maddr (se_cur e) = a" "d_maddr (se_snap e) = a" "as_data (c a) = Some x" "p_maddr (ptr_cur e) = 0"
    by (auto simp: between_def)
  note pd = data_pageD [OF p]
  note ap = data_page_apart [OF p, unfolded e(1), OF e(3) mem_zero [OF m]]
  have A: "a \<in> U" using pd(2) e(1) by simp
  have "\<not> writable (pr a)" using ro by (simp add: writable_def PA_PROT_READ_def)
  from endsD [OF store_page_ends [OF p e(1) this s, of k y] m] obtain w1 t c' where
    w1: "store_page a y w = Inr ((), w1)" and c': "copy_made U c sd d se e t c'"
    and m1: "mem (insert t U) (c'(a := PData y)) (pr(t := PA_PROT_WRITE, a := PA_PROT_RNW)) k r w1"
    using e(1) by (auto simp: data_stored_def)
  let ?c1 = "c'(a := PData y)" and ?pr1 = "pr(t := PA_PROT_WRITE, a := PA_PROT_RNW)"
  obtain l where e': "entry_at c' se = Some (e\<lparr>se_snap := (se_snap e)\<lparr>d_maddr := t, d_laddr := l\<rparr>\<rparr>)"
    using c' by (auto simp: copy_made_def)
  define f where "f = e\<lparr>se_snap := (se_snap e)\<lparr>d_maddr := t, d_laddr := l\<rparr>\<rparr>"
  obtain v where v: "c' sd = PDir (d\<lparr>sd_vector := v\<rparr>)" "vec_wf v" using c' by (auto simp: copy_made_def)
  have t: "t \<notin> U" using c' by (simp add: copy_made_def)
  have f: "d_maddr (se_cur f) = a" "d_maddr (se_snap f) = t" "p_maddr (ptr_cur f) = 0" "freed f = {t}" "freed_ptrs f = {}" "freed_data f = {t}"
    using e t A by (auto simp: f_def freed_def freed_data_def freed_ptrs_def)
  have cm: "committable (insert t U) ?pr1 se f"
    using f pd(1) A t p ap(2) by (auto simp: committable_def data_page_def)
  have now: "entry_now (insert t U) ?c1 ?pr1 k r se f w1"
    by (rule entry_now_self [OF m1]) (use e' ap(2) in \<open>simp add: f_def\<close>)
  from endsD [OF cpoint_entry_now [OF cm, of ?c1 k r CPOINT_REGULAR] now] obtain w2 c2 where
    w2: "cpoint_entry CPOINT_REGULAR se w1 = Inr ((), w2)"
    and m2: "mem (insert t U - {t}) c2 (protect CPOINT_REGULAR f ?pr1) (k + 1) r w2"
    and c2: "entry_at c2 se = Some (committed f)" "\<forall>b. b \<noteq> page_base se \<longrightarrow> c2 b = ?c1 b"
      "\<forall>b. other_slot se b \<longrightarrow> entry_at c2 b = entry_at ?c1 b"
    unfolding entry_now_def entry_rel_def f(4) by (auto simp del: fun_upd_apply insert_Diff_single)
  have mem2: "mem U c2 pr (Suc k) r w2"
  proof -
    have "insert t U - {t} = U" "k + 1 = Suc k" using t by auto
    then have "mem U c2 (protect CPOINT_REGULAR f ?pr1) (Suc k) r w2" using m2 by simp
    moreover have "pr b = protect CPOINT_REGULAR f ?pr1 b" if "b \<in> U" for b using that t ro f(1) by (auto simp: protect_def)
    ultimately show ?thesis by (rule mem_cong_prot)
  qed
  let ?d = "d\<lparr>sd_vector := v\<rparr>"
  have c2sd: "c2 sd = PDir ?d" using c2(2) pd(3) ap(2) v(1) by auto
  have ct: "c2 (w_cont r) = c (w_cont r)"
    using c2(2) ap(1) c' p by (auto simp: copy_made_def data_page_def dir_is_def)
  have dir: "dir_is U c2 r sd ?d"
    by (rule dir_is_same [where c = c and d = d]) (use p c2sd ct in \<open>auto simp: data_page_def\<close>)
  have kept: "\<exists>g'. entry_at c2 b = Some g' \<and> d_maddr (se_cur g') = d_maddr (se_cur g)"
    if b: "b \<in> set (inorder (sd_maddr_root d))" "entry_at c b = Some g" for b g
  proof (cases "b = se")
    case True
    then have "g = e" using b(2) p by (simp add: data_page_def)
    then show ?thesis using True c2(1) e(1) f(1) by (simp add: committed_def)
  next
    case False
    then have "entry_at c2 b = entry_at c' b" using c2(3) ap(3,4) [OF b(1)] by simp
    also have "\<dots> = entry_at c b" using c' ap(3,4) [OF b(1)] False by (auto simp: copy_made_def)
    finally show ?thesis using b(2) by simp
  qed
  have "indexed U c2 ?d" by (rule indexed_same [where c = c and d = d]) (use p kept in \<open>auto simp: data_page_def\<close>)
  moreover have same: "se_size (committed f) = se_size e" "ptr_snap (committed f) = ptr_snap e" "ptr_cur (committed f) = ptr_cur e"
    "se_cur (committed f) = se_cur e" "d_maddr (se_snap (committed f)) = a"
    using f e(4) by (simp_all add: committed_def commit_ptrs_def f_def commit_data_def)
  ultimately have "data_page U c2 pr r sd ?d se (committed f)"
    using p dir v(2) c2(1) by (simp add: data_page_def)
  moreover have "as_data (c2 a) = Some y" using c2(2) ap(2) by simp
  ultimately have "between U pr (Suc k) r sd se a y w2"
    unfolding between_def
    by (intro exI [of _ c2] exI [of _ ?d] exI [of _ "committed f"]) (use mem2 same e in simp)
  moreover have "transaction se a y w = Inr ((), w2)" using w1 w2 by (simp add: transaction_def thenM_step)
  ultimately show "\<exists>z w'. transaction se a y w = Inr (z, w') \<and> between U pr (Suc k) r sd se a y w'" by blast
qed

text \<open>
  Transactions go on for ever with one free page.  Each transaction stores to a protected data
  page, which copies it, and checkpoints the entry, which makes the new contents the committed
  version, gives the old page back and protects the page again.  Any number of them returns, the
  page holds the last contents stored, current and committed version are the same page, and the
  number of free pages has not changed.
\<close>

lemma transactions_go_on:
  assumes "between U pr (Suc k) r sd se a x w" "pr a = PA_PROT_READ" "\<not> w_copynswap r"
  shows "\<exists>w'. eachM (transaction se a) ys w = Inr ((), w') \<and> between U pr (Suc k) r sd se a (last (x # ys)) w'"
proof -
  have "ends (between U pr (Suc k) r sd se a x) (eachM (transaction se a) ys)
      (\<lambda>_. between U pr (Suc k) r sd se a (last (x # ys)))"
  proof (induction ys arbitrary: x)
    case (Cons y ys)
    have "ends (between U pr (Suc k) r sd se a x) (eachM (transaction se a) (y # ys))
        (\<lambda>_. between U pr (Suc k) r sd se a (last (y # ys)))"
      unfolding eachM.simps by (rule total_then [OF transaction_once [of pr a r, OF assms(2,3)] Cons.IH])
    then show ?case by simp
  qed (simp add: ends_def)
  from endsD [OF this assms(1)] show ?thesis by auto
qed

section \<open>A transaction without an allocation\<close>

text \<open>
  Nodes without snapshots of their own: what the directory looks like when nothing has been
  allocated since the last checkpoint, whatever has been stored to the objects.
\<close>

definition clean_inner :: "nat set \<Rightarrow> (nat \<Rightarrow> page) \<Rightarrow> nat \<Rightarrow> bool" where
  "clean_inner U c si \<longleftrightarrow> si \<in> U \<and> (\<exists>n. c si = PInner n \<and> node_index n \<le> length (node_current n) \<and>
     (\<forall>i<node_index n. l_maddr (node_current n ! i) \<in> U \<and>
        (\<exists>b. c (l_maddr (node_current n ! i)) = PBucket b \<and> \<not> sb_has_snapshot b)))"

definition clean_outer :: "nat set \<Rightarrow> (nat \<Rightarrow> page) \<Rightarrow> nat \<Rightarrow> bool" where
  "clean_outer U c so \<longleftrightarrow> so \<in> U \<and> (\<exists>n. c so = POuter n \<and> node_index n \<le> length (node_current n) \<and>
     node_index n \<le> length (node_snapshot n) \<and>
     (\<forall>i<node_index n. clean_inner U c (l_maddr (node_current n ! i)) \<and>
        l_maddr (node_snapshot n ! i) = l_maddr (node_current n ! i)))"

definition clean_dir :: "nat set \<Rightarrow> (nat \<Rightarrow> page) \<Rightarrow> slab_dir \<Rightarrow> bool" where
  "clean_dir U c d \<longleftrightarrow> sd_index d \<le> length (sd_current d) \<and> sd_index d \<le> length (sd_snapshot d) \<and>
     (\<forall>i < sd_index d. clean_outer U c (l_maddr (sd_current d ! i)) \<and>
        l_maddr (sd_snapshot d ! i) = l_maddr (sd_current d ! i))"

lemma eachM_same: "(\<And>x. x \<in> set xs \<Longrightarrow> f x w = Inr ((), w)) \<Longrightarrow> eachM f xs w = Inr ((), w)"
  by (induction xs) (simp_all add: thenM_def bindM_def)

lemma clean_cpoint:
  assumes m: "mem U c pr k r w"
  shows "clean_inner U c si \<Longrightarrow> slab_inner_cpoint type si w = Inr ((), w)"
    and "clean_outer U c so \<Longrightarrow> slab_outer_cpoint type so w = Inr ((), w)"
    and "sd \<in> U \<Longrightarrow> as_dir (c sd) = Some d \<Longrightarrow> clean_dir U c d \<Longrightarrow> slab_dir_cpoint type sd w = Inr ((), w)"
proof -
  show inner: "slab_inner_cpoint type si w = Inr ((), w)" if "clean_inner U c si" for si
  proof -
    from that obtain n where n: "si \<in> U" "c si = PInner n" "node_index n \<le> length (node_current n)"
      "\<And>i. i < node_index n \<Longrightarrow> l_maddr (node_current n ! i) \<in> U \<and>
        (\<exists>b. c (l_maddr (node_current n ! i)) = PBucket b \<and> \<not> sb_has_snapshot b)"
      unfolding clean_inner_def by blast
    have r: "rd_inner si w = Inr (n, w)" by (rule rd_at(3) [OF m n(1)]) (simp add: n(2))
    have "cpoint_bucket type si i w = Inr ((), w)" if i: "i < node_index n" for i
    proof -
      obtain b where b: "c (l_maddr (node_current n ! i)) = PBucket b" "\<not> sb_has_snapshot b"
        "l_maddr (node_current n ! i) \<in> U" using n(4) [OF i] by blast
      have "rd_bucket (l_maddr (node_current n ! i)) w = Inr (b, w)" by (rule rd_at(4) [OF m b(3)]) (simp add: b(1))
      then show ?thesis using r i n(3) b(2) by (simp add: cpoint_bucket_def bindM_def cellM_def Let_def)
    qed
    then have "eachM (cpoint_bucket type si) [0..<node_index n] w = Inr ((), w)" by (intro eachM_same) simp
    then show ?thesis using r by (simp add: slab_inner_cpoint_def bindM_def)
  qed
  show outer: "slab_outer_cpoint type so w = Inr ((), w)" if "clean_outer U c so" for so
  proof -
    from that obtain n where n: "so \<in> U" "c so = POuter n" "node_index n \<le> length (node_current n)"
      "node_index n \<le> length (node_snapshot n)"
      "\<And>i. i < node_index n \<Longrightarrow> clean_inner U c (l_maddr (node_current n ! i)) \<and>
        l_maddr (node_snapshot n ! i) = l_maddr (node_current n ! i)"
      unfolding clean_outer_def by blast
    have r: "rd_outer so w = Inr (n, w)" by (rule rd_at(2) [OF m n(1)]) (simp add: n(2))
    have "cpoint_inner type so i w = Inr ((), w)" if i: "i < node_index n" for i
      using r i n(3,4) n(5) [OF i] inner [of "l_maddr (node_current n ! i)"]
      by (simp add: cpoint_inner_def bindM_def thenM_def cellM_def)
    then have "eachM (cpoint_inner type so) [0..<node_index n] w = Inr ((), w)" by (intro eachM_same) simp
    then show ?thesis using r by (simp add: slab_outer_cpoint_def bindM_def)
  qed
  assume sd: "sd \<in> U" "as_dir (c sd) = Some d" and d: "clean_dir U c d"
  have r: "rd_dir sd w = Inr (d, w)" by (rule rd_at(1) [OF m sd])
  have "cpoint_outer type sd i w = Inr ((), w)" if i: "i < sd_index d" for i
    using r i d outer [of "l_maddr (sd_current d ! i)"]
    by (simp add: cpoint_outer_def bindM_def thenM_def cellM_def clean_dir_def)
  then have "eachM (cpoint_outer type sd) [0..<sd_index d] w = Inr ((), w)" by (intro eachM_same) simp
  then show "slab_dir_cpoint type sd w = Inr ((), w)" using r by (simp add: slab_dir_cpoint_def bindM_def)
qed

text \<open>After the walk over the directory the checkpoint flushes the copied pages and forgets their vector.\<close>

lemma slab_cpoint_after:
  assumes "current_sd w = Inr (sd, w)" "slab_dir_cpoint type sd w = Inr ((), w1)" "mem U c pr k r w1"
    and "dir_is U c r sd d" "writable (pr sd)" "vec_wf (sd_vector d)"
    and "\<forall>se\<in>set (vec_list (sd_vector d)). page_base se \<in> U \<and> entry_at c se \<noteq> None"
  shows "\<exists>w'. slab_cpoint type w = Inr ((), w') \<and> mem U (c(sd := PDir (d\<lparr>sd_vector := VECTOR_FREE (sd_vector d)\<rparr>))) pr k r w'"
proof -
  have sd: "sd \<in> U" "as_dir (c sd) = Some d" using assms(4) by (auto simp: dir_is_def)
  have flush: "ends (mem U c pr k r)
      (bindM (liftM (VECTOR_AT (sd_vector d) i)) (\<lambda>se. bindM (rd_se se) (\<lambda>e. flush_memsegment (d_maddr (se_cur e)) PAGE_SIZE)))
      (\<lambda>_. mem U c pr k r)" if i: "i < VECTOR_SIZE (sd_vector d)" for i
  proof -
    let ?se = "vec_list (sd_vector d) ! i"
    have v: "VECTOR_AT (sd_vector d) i = Inr ?se" using vector_at [OF assms(6)] i by (simp add: VECTOR_SIZE_def)
    have "?se \<in> set (vec_list (sd_vector d))" using i length_vec_list [OF assms(6)] by (simp add: VECTOR_SIZE_def)
    then obtain e where e: "page_base ?se \<in> U" "entry_at c ?se = Some e" using assms(7) by blast
    have "ends (mem U c pr k r) (bindM (rd_se ?se) (\<lambda>e. flush_memsegment (d_maddr (se_cur e)) PAGE_SIZE)) (\<lambda>_. mem U c pr k r)"
      by (rule total_rd_se [OF e]) (rule total_flush_memsegment)
    then show ?thesis unfolding v by (simp add: bindM_def [of "liftM _"] ends_def)
  qed
  have flushes: "ends (mem U c pr k r) (eachM (\<lambda>i. bindM (liftM (VECTOR_AT (sd_vector d) i)) (\<lambda>se. bindM (rd_se se) (\<lambda>e.
              flush_memsegment (d_maddr (se_cur e)) PAGE_SIZE))) [0..<VECTOR_SIZE (sd_vector d)]) (\<lambda>_. mem U c pr k r)"
    using total_each [of "[0..<VECTOR_SIZE (sd_vector d)]" "\<lambda>_. mem U c pr k r"] flush by simp
  have up: "ends (mem U c pr k r) (up_dir touch sd (\<lambda>d. d\<lparr>sd_vector := VECTOR_FREE (sd_vector d)\<rparr>))
      (\<lambda>_. mem U (c(sd := PDir (d\<lparr>sd_vector := VECTOR_FREE (sd_vector d)\<rparr>))) pr k r)"
    by (rule total_up(1) [of touch sd U pr c d k r "\<lambda>d. d\<lparr>sd_vector := VECTOR_FREE (sd_vector d)\<rparr>"]) (use sd assms(5) in simp_all)
  note rd = conjunct2 [OF current_sd_ok [OF assms(3,4)]]
  from endsD [OF total_then [OF flushes up] assms(3)] assms(1,2) rd show ?thesis
    by (simp add: slab_cpoint_def bindM_step thenM_step)
qed

lemma clean_slab_cpoint:
  assumes "dir_is U c r sd d" "clean_dir U c d" "writable (pr sd)" "vec_wf (sd_vector d)"
    and "\<forall>se\<in>set (vec_list (sd_vector d)). page_base se \<in> U \<and> entry_at c se \<noteq> None"
  shows "ends (mem U c pr k r) (slab_cpoint type)
    (\<lambda>_. mem U (c(sd := PDir (d\<lparr>sd_vector := VECTOR_FREE (sd_vector d)\<rparr>))) pr k r)"
  unfolding ends_def
proof (intro allI impI)
  fix w
  assume m: "mem U c pr k r w"
  have "sd \<in> U" "as_dir (c sd) = Some d" using assms(1) by (auto simp: dir_is_def)
  from slab_cpoint_after [OF conjunct1 [OF current_sd_ok [OF m assms(1)]] clean_cpoint(3) [OF m this assms(2)] m assms(1,3-5)]
  show "\<exists>x w'. slab_cpoint type w = Inr (x, w') \<and> mem U (c(sd := PDir (d\<lparr>sd_vector := VECTOR_FREE (sd_vector d)\<rparr>))) pr k r w'"
    by blast
qed

lemma data_page_kinds:
  assumes "data_page U c pr r sd d se e" "0 \<notin> U"
  shows "c sd = PDir d" "\<exists>b. c (page_base se) = PBucket b"
proof -
  have p: "dir_is U c r sd d" "se \<in> set (inorder (sd_maddr_root d))" "entry_at c se = Some e"
    using assms(1) by (auto simp: data_page_def)
  have "sd_maddr_root d \<noteq> RNil" using p(2) by auto
  then show "c sd = PDir d" using p(1) by (cases "c sd") (auto simp: dir_is_def zero_dir_def)
  have "d_maddr (se_cur e) \<noteq> 0" using data_pageD(2) [OF assms(1)] assms(2) by metis
  then show "\<exists>b. c (page_base se) = PBucket b" using bucket_page [OF p(3)] by simp
qed

lemma copied_bucket:
  assumes "data_page U c pr r sd d se e" "0 \<notin> U" "copy_made U c sd d se e s c'"
  shows "\<exists>b. c' (page_base se) = PBucket b"
proof -
  obtain l where l: "entry_at c' se = Some (e\<lparr>se_snap := (se_snap e)\<lparr>d_maddr := s, d_laddr := l\<rparr>\<rparr>)"
    using assms(3) by (auto simp: copy_made_def)
  have "d_maddr (se_cur e) \<noteq> 0" using data_pageD(2) [OF assms(1)] assms(2) by metis
  then show ?thesis using bucket_page [OF l] by simp
qed

text \<open>A copy of a data page leaves the nodes without snapshots.\<close>

lemma clean_after_copy:
  assumes p: "data_page U c pr r sd d se e" "0 \<notin> U" and c': "copy_made U c sd d se e s c'"
  shows "clean_inner U c si \<Longrightarrow> clean_inner (insert s U) c' si"
    and "clean_outer U c so \<Longrightarrow> clean_outer (insert s U) c' so"
    and "clean_dir U c d \<Longrightarrow> clean_dir (insert s U) c' (d\<lparr>sd_vector := v\<rparr>)"
proof -
  obtain bk where kinds: "c sd = PDir d" "c (page_base se) = PBucket bk" using data_page_kinds [OF p] by blast
  have same: "c' x = c x" if "x \<in> U" "x \<noteq> sd" "x \<noteq> page_base se" for x using c' that by (simp add: copy_made_def)
  obtain es where es: "as_bucket (c' (page_base se)) = Some (bk\<lparr>sb_entries := es\<rparr>)"
    using c' kinds by (auto simp: copy_made_def)
  obtain b2 where es2: "c' (page_base se) = PBucket b2" "sb_has_snapshot b2 = sb_has_snapshot bk"
    using p(1) c' es copied_bucket [OF p c'] by auto
  have bucket: "\<exists>b'. c' x = PBucket b' \<and> \<not> sb_has_snapshot b'"
    if x: "x \<in> U" "c x = PBucket b" "\<not> sb_has_snapshot b" for x b
    using x same [of x] kinds es2 by (cases "x = sd"; cases "x = page_base se") auto
  show inner: "clean_inner (insert s U) c' si" if i: "clean_inner U c si" for si
  proof -
    from i obtain n where "si \<in> U" "c si = PInner n" by (auto simp: clean_inner_def)
    moreover from this have "si \<noteq> sd" "si \<noteq> page_base se" using kinds by auto
    ultimately have "c' si = c si" using same by simp
    then show ?thesis using i bucket by (auto simp: clean_inner_def) blast
  qed
  show outer: "clean_outer (insert s U) c' so" if o': "clean_outer U c so" for so
  proof -
    from o' obtain n where "so \<in> U" "c so = POuter n" by (auto simp: clean_outer_def)
    moreover from this have "so \<noteq> sd" "so \<noteq> page_base se" using kinds by auto
    ultimately have "c' so = c so" using same by simp
    then show ?thesis using o' inner by (auto simp: clean_outer_def)
  qed
  show "clean_dir (insert s U) c' (d\<lparr>sd_vector := v\<rparr>)" if "clean_dir U c d"
    using that outer by (auto simp: clean_dir_def)
qed

text \<open>
  C4: A transaction that only stores is not committed.  When nothing has been allocated since the
  last checkpoint, a store to a protected data page copies the page, but the checkpoint leaves out
  every bucket without a snapshot: it returns with the current version of the entry still different
  from the committed one and the page still open for writing, so the next transactions are not even
  noticed.  If the container is then restored, the entry's two versions are different pages of the
  file and the restore stops at its assertion.
\<close>

theorem store_without_allocation_not_committed:
  assumes "mem U c pr (Suc k) r w" "data_page U c pr r sd d se e" "page_base a = d_maddr (se_cur e)"
    and "\<not> writable (pr (page_base a))" "\<not> w_copynswap r" "clean_dir U c d" "vec_list (sd_vector d) = []"
  shows "\<exists>w1 w2 e2. touch a w = Inr ((), w1) \<and> slab_cpoint CPOINT_REGULAR w1 = Inr ((), w2) \<and>
    rd_se se w2 = Inr (e2, w2) \<and> d_maddr (se_snap e2) \<noteq> d_maddr (se_cur e2) \<and>
    writable (os_prot (w_os w2) (vpn a)) \<and>
    (d_laddr (se_snap e2) \<noteq> d_laddr (se_cur e2) \<longrightarrow>
       map_entry CPOINT_COMPLETE se w2 = Inl (Assertion ''Inconsistent state on slab_entry data''))"
proof -
  note pd = data_pageD [OF assms(2)]
  let ?pr = "\<lambda>s. pr(s := PA_PROT_WRITE, page_base a := PA_PROT_RNW)"
  from endsD [OF touch_ends [OF assms(2-5)] assms(1)] obtain w1 s c' where
    t: "touch a w = Inr ((), w1)" and c': "copy_made U c sd d se e s c'" and m: "mem (insert s U) c' (?pr s) k r w1"
    by auto
  note z = mem_zero [OF assms(1)]
  obtain bk where kinds: "c sd = PDir d" "c (page_base se) = PBucket bk" using data_page_kinds [OF assms(2) z] by blast
  obtain v where v: "c' sd = PDir (d\<lparr>sd_vector := v\<rparr>)" "vec_wf v" "vec_list v = [se]"
    using c' assms(7) by (auto simp: copy_made_def)
  obtain l where l: "entry_at c' se = Some (e\<lparr>se_snap := (se_snap e)\<lparr>d_maddr := s, d_laddr := l\<rparr>\<rparr>)"
    using c' by (auto simp: copy_made_def)
  let ?e = "e\<lparr>se_snap := (se_snap e)\<lparr>d_maddr := s, d_laddr := l\<rparr>\<rparr>" and ?d = "d\<lparr>sd_vector := v\<rparr>"
  have dd: "dir_is U c r sd d" "writable (pr sd)" using assms(2) by (auto simp: data_page_def)
  obtain kc where kc: "w_cont r \<in> U" "as_cont (c (w_cont r)) = Some kc" "l_maddr (c_current_slab kc) = sd"
    using dd(1) by (auto simp: dir_is_def)
  have "w_cont r \<noteq> sd" "w_cont r \<noteq> page_base se" using kc(2) kinds by auto
  then have "c' (w_cont r) = c (w_cont r)" using c' kc(1) by (simp add: copy_made_def)
  then have dir: "dir_is (insert s U) c' r sd ?d"
    using kc v(1) dd(1) by (auto simp: dir_is_def)
  have ne: "s \<noteq> sd" "page_base a \<noteq> sd" "page_base a \<in> U" "s \<notin> U" "sd \<in> U"
    using c' pd(2,4) dd(2) assms(3,4) by (auto simp: copy_made_def)
  have w': "writable (?pr s sd)" using dd(2) ne by simp
  have vec: "\<forall>se\<in>set (vec_list (sd_vector ?d)). page_base se \<in> insert s U \<and> entry_at c' se \<noteq> None"
    using v(3) l pd(1) by simp
  have "vec_wf (sd_vector ?d)" using v(2) by simp
  note cp = clean_slab_cpoint [of _ c' r sd ?d "?pr s", OF dir clean_after_copy(3) [OF assms(2) z c' assms(6)] w' this vec,
      of k CPOINT_REGULAR]
  from endsD [OF cp m] obtain w2 where w2: "slab_cpoint CPOINT_REGULAR w1 = Inr ((), w2)"
    "mem (insert s U) (c'(sd := PDir (?d\<lparr>sd_vector := VECTOR_FREE (sd_vector ?d)\<rparr>))) (?pr s) k r w2" by auto
  have se2: "rd_se se w2 = Inr (?e, w2)" by (rule rd_se_ok [OF w2(2)]) (use pd(1,3) l in simp_all)
  have wr: "writable (os_prot (w_os w2) (vpn a))"
    using mem_page(5) [OF w2(2), of "page_base a"] ne(3) by (simp add: page_base_vpn writable_def PA_PROT_RNW_def)
  have "map_entry CPOINT_COMPLETE se w2 = Inl (Assertion ''Inconsistent state on slab_entry data'')"
    if "l \<noteq> d_laddr (se_cur e)"
    using se2 that by (simp add: map_entry_def bindM_def thenM_def)
  moreover have "s \<noteq> d_maddr (se_cur e)" using ne(3,4) assms(3) by auto
  ultimately show ?thesis using t w2(1) se2 wr by force
qed

section \<open>Examples\<close>

theorem store_without_allocation_not_committed_witness:
  "\<exists>w1 w2 e2. touch (demo_page 3 + 100) demo_world = Inr ((), w1) \<and> slab_cpoint CPOINT_REGULAR w1 = Inr ((), w2) \<and>
     rd_se demo_se w2 = Inr (e2, w2) \<and> d_maddr (se_snap e2) \<noteq> d_maddr (se_cur e2) \<and>
     writable (os_prot (w_os w2) (vpn (demo_page 3 + 100)))"
proof -
  have a: "page_base (demo_page 3 + 100) = demo_page 3" by (simp add: page_base_def demo_page_def PAGE_SIZE_def)
  have c: "demo_c (demo_page 4) = POuter (demo_node 5)" "demo_c (demo_page 5) = PInner (demo_node 2)"
    "demo_c (demo_page 2) = PBucket demo_bucket"
    using demo_views(1) [of 4] demo_views(1) [of 5] demo_views(1) [of 2] by (simp_all add: demo_contents_def)
  have "clean_inner demo_used demo_c (demo_page 5)"
    by (simp add: clean_inner_def c demo_node_def zero_inner_def demo_link_def entries_numbers) (simp add: demo_bucket_def zero_bucket_def)
  then have "clean_outer demo_used demo_c (demo_page 4)"
    by (simp add: clean_outer_def c(1) demo_node_def [of 5] zero_inner_def demo_link_def entries_numbers)
  then have clean: "clean_dir demo_used demo_c demo_dir"
    by (simp add: clean_dir_def demo_dir_def zero_dir_def demo_link_def entries_numbers)
  have e: "d_maddr (se_cur demo_entry) = demo_page 3" "\<not> writable (demo_pr (demo_page 3))" "\<not> w_copynswap (rest demo_world)"
    "vec_list (sd_vector demo_dir) = []"
    unfolding demo_views(2) by (simp_all add: demo_entry_def writable_def PA_PROT_READ_def rest_def demo_world_def demo_dir_def)
  show ?thesis
    using store_without_allocation_not_committed [OF demo_mem demo_data_page _ _ e(3) clean e(4), of "demo_page 3 + 100"] e(1,2)
    unfolding a by (simp only: simp_thms) blast
qed

text \<open>The example container without persistent pointers.\<close>

definition plain_entry :: slab_entry where "plain_entry = demo_entry\<lparr>ptr_cur := zero_pref\<rparr>"

definition plain_world :: world where
  "plain_world = demo_world\<lparr>w_os := demo_os\<lparr>os_pages :=
     demo_contents(2 := PBucket (demo_bucket\<lparr>sb_entries := (sb_entries demo_bucket)[0 := plain_entry]\<rparr>))\<rparr>\<rparr>"

definition plain_c :: "nat \<Rightarrow> page" where "plain_c a = the (page_at (w_os plain_world) a)"

lemma plain_mem: "mem demo_used plain_c demo_pr (Suc 0) (rest plain_world) plain_world"
  unfolding plain_c_def [abs_def] by (rule shown_mem) (simp_all add: plain_world_def demo_world_def)

lemma plain_views:
  "plain_c (demo_page 2) = PBucket (demo_bucket\<lparr>sb_entries := (sb_entries demo_bucket)[0 := plain_entry]\<rparr>)"
  "i < 8 \<Longrightarrow> i \<noteq> 2 \<Longrightarrow> plain_c (demo_page i) = demo_c (demo_page i)" "entry_at plain_c demo_se = Some plain_entry"
proof -
  have at: "plain_c (demo_page i) = (demo_contents(2 := PBucket (demo_bucket\<lparr>sb_entries := (sb_entries demo_bucket)[0 := plain_entry]\<rparr>))) i"
    if "i < 8" for i
    unfolding plain_c_def by (rule shown_at [OF _ that]) (simp add: plain_world_def del: fun_upd_apply)
  show b: "plain_c (demo_page 2) = PBucket (demo_bucket\<lparr>sb_entries := (sb_entries demo_bucket)[0 := plain_entry]\<rparr>)"
    using at [of 2] by simp
  show "plain_c (demo_page i) = demo_c (demo_page i)" if "i < 8" "i \<noteq> 2" using at [of i] demo_views(1) [of i] that by simp
  have "as_bucket (plain_c (demo_page 2)) = Some (demo_bucket\<lparr>sb_entries := (sb_entries demo_bucket)[0 := plain_entry]\<rparr>)"
    using b by simp
  moreover have "demo_se \<noteq> 0" "0 < length (sb_entries demo_bucket)"
    by (simp_all add: demo_se_def demo_bucket_def entries_numbers)
  ultimately show "entry_at plain_c demo_se = Some plain_entry"
    unfolding entry_at_def demo_at(4,5) by simp
qed

lemma plain_between: "between demo_used demo_pr (Suc 0) (rest plain_world) (demo_page 1) demo_se (demo_page 3) (\<lambda>_. 0) plain_world"
proof -
  have r: "rest plain_world = rest demo_world" by (simp add: rest_def plain_world_def)
  have w: "w_cont (rest demo_world) = demo_page 0" by (simp add: rest_def demo_world_def)
  have d: "demo_c (demo_page 1) = PDir demo_dir" "as_data (demo_c (demo_page 3)) = Some (\<lambda>_. 0)"
    using demo_views(1) [of 1] demo_views(1) [of 3] by (simp_all add: demo_contents_def)
  have e: "se_cur plain_entry = se_cur demo_entry" "se_snap plain_entry = se_snap demo_entry" "se_size plain_entry = se_size demo_entry"
    "ptr_snap plain_entry = ptr_snap demo_entry" "p_maddr (ptr_cur plain_entry) = 0" by (simp_all add: plain_entry_def zero_pref_def)
  have m: "d_maddr (se_cur demo_entry) = demo_page 3" "d_maddr (se_snap demo_entry) = demo_page 3" by (simp_all add: demo_entry_def)
  have "dir_is demo_used plain_c (rest demo_world) (demo_page 1) demo_dir"
    by (rule dir_is_same [OF demo_dir_is]) (use plain_views(2) [of 1] plain_views(2) [of 0] d(1) w in simp_all)
  moreover have "indexed demo_used plain_c demo_dir"
    by (rule indexed_same [OF demo_indexed]) (use demo_views(3) plain_views(3) e(1) in \<open>auto simp: demo_dir_def\<close>)
  ultimately have "data_page demo_used plain_c demo_pr (rest plain_world) (demo_page 1) demo_dir demo_se plain_entry"
    using demo_data_page plain_views(3) e unfolding r data_page_def by simp
  moreover have "as_data (plain_c (demo_page 3)) = Some (\<lambda>_. 0)" using d(2) plain_views(2) [of 3] by simp
  ultimately show ?thesis unfolding between_def
    by (intro exI [of _ plain_c] exI [of _ demo_dir] exI [of _ plain_entry]) (use plain_mem e m in simp)
qed

end
