(* ===== verification/Bucket.thy ===== *)
theory Bucket
  imports Commit Slab
begin

text \<open>
  The checkpoint of a bucket and the flag that asks for it.  \<^verbatim>\<open>slab_palloc\<close> takes a snapshot of the
  bucket it allocates from and sets \<^verbatim>\<open>sb_has_snapshot\<close>; the checkpoint walks over the 28 entries of
  a bucket with the flag, commits each of them and gives the snapshot of the bucket back.  The
  lemmas compose the commit of one entry (\<^verbatim>\<open>Commit\<close>) over all entries and the link of the bucket
  in its inner node.
\<close>

section \<open>The entries of a bucket\<close>

definition holds_entries :: "(nat \<Rightarrow> page) \<Rightarrow> nat \<Rightarrow> slab_entry list \<Rightarrow> bool" where
  "holds_entries c sb es \<longleftrightarrow>
     length es = SLAB_BUCKET_ENTRIES \<and> (\<forall>i<SLAB_BUCKET_ENTRIES. entry_at c (se_addr sb i) = Some (es ! i))"

text \<open>What the checkpoint of the first \<^verbatim>\<open>l\<close> entries makes of the entries, the pages in use and their protection.\<close>

definition done_upto :: "slab_entry list \<Rightarrow> nat \<Rightarrow> slab_entry list" where
  "done_upto es l =
     map (\<lambda>i. if i < l \<and> SLAB_ENTRY_IS_INIT (es ! i) then committed (es ! i) else es ! i) [0..<length es]"

definition gone_upto :: "slab_entry list \<Rightarrow> nat \<Rightarrow> nat set" where
  "gone_upto es l = (\<Union>i\<in>{i. i < l \<and> SLAB_ENTRY_IS_INIT (es ! i)}. freed (es ! i))"

fun protect_upto :: "cpoint_type \<Rightarrow> slab_entry list \<Rightarrow> nat \<Rightarrow> (nat \<Rightarrow> nat) \<Rightarrow> nat \<Rightarrow> nat" where
  "protect_upto type es 0 pr = pr"
| "protect_upto type es (Suc l) pr =
     (if SLAB_ENTRY_IS_INIT (es ! l) then protect type (es ! l) (protect_upto type es l pr) else protect_upto type es l pr)"

text \<open>The entries of a bucket that can be checkpointed: their pages are in use and their own.\<close>

definition own_pages :: "slab_entry \<Rightarrow> nat set" where
  "own_pages e = {d_maddr (se_cur e), d_maddr (se_snap e)} \<union> freed_ptrs e"

definition bucket_ok :: "nat set \<Rightarrow> (nat \<Rightarrow> nat) \<Rightarrow> nat \<Rightarrow> slab_entry list \<Rightarrow> bool" where
  "bucket_ok U pr sb es \<longleftrightarrow>
     sb \<in> U \<and> PAGE_SIZE dvd sb \<and> writable (pr sb) \<and> length es = SLAB_BUCKET_ENTRIES \<and>
     (\<forall>i<SLAB_BUCKET_ENTRIES. SLAB_ENTRY_IS_INIT (es ! i) \<longrightarrow>
        own_pages (es ! i) \<subseteq> U - {sb} \<and> d_maddr (se_cur (es ! i)) \<notin> freed_ptrs (es ! i) \<and>
        d_maddr (se_snap (es ! i)) \<notin> freed_ptrs (es ! i) \<and>
        (\<forall>j<SLAB_BUCKET_ENTRIES. j \<noteq> i \<and> SLAB_ENTRY_IS_INIT (es ! j) \<longrightarrow> own_pages (es ! i) \<inter> own_pages (es ! j) = {}))"

lemma freed_own: "freed e \<subseteq> own_pages e"
  by (auto simp: freed_def freed_data_def own_pages_def)

lemma finite_freed [simp]: "finite (freed e)"
  by (simp add: freed_def freed_data_def freed_ptrs_def)

lemma gone_Suc: "gone_upto es (Suc l) = gone_upto es l \<union> (if SLAB_ENTRY_IS_INIT (es ! l) then freed (es ! l) else {})"
  by (auto simp: gone_upto_def less_Suc_eq)

lemma finite_gone [simp]: "finite (gone_upto es l)"
  by (simp add: gone_upto_def)

lemma protect_other: "(\<And>i. i < l \<Longrightarrow> SLAB_ENTRY_IS_INIT (es ! i) \<Longrightarrow> a \<noteq> d_maddr (se_cur (es ! i))) \<Longrightarrow>
    protect_upto type es l pr a = pr a"
proof (induction l)
  case (Suc l)
  then have "protect_upto type es l pr a = pr a" "SLAB_ENTRY_IS_INIT (es ! l) \<Longrightarrow> a \<noteq> d_maddr (se_cur (es ! l))" by simp_all
  then show ?case by (auto simp: protect_def)
qed simp

lemma protect_current:
  "l < m \<Longrightarrow> SLAB_ENTRY_IS_INIT (es ! l) \<Longrightarrow> protect_upto CPOINT_REGULAR es m pr (d_maddr (se_cur (es ! l))) = PA_PROT_READ"
  by (induction m) (auto simp: protect_def less_Suc_eq)

lemma done_nth: "i < length es \<Longrightarrow>
    done_upto es l ! i = (if i < l \<and> SLAB_ENTRY_IS_INIT (es ! i) then committed (es ! i) else es ! i)"
  by (simp add: done_upto_def)

lemma bucket_okD:
  assumes "bucket_ok U pr sb es" "i < SLAB_BUCKET_ENTRIES" "SLAB_ENTRY_IS_INIT (es ! i)"
  shows "own_pages (es ! i) \<subseteq> U - {sb}" "d_maddr (se_cur (es ! i)) \<notin> freed_ptrs (es ! i)"
    "d_maddr (se_snap (es ! i)) \<notin> freed_ptrs (es ! i)"
    and "j < SLAB_BUCKET_ENTRIES \<Longrightarrow> j \<noteq> i \<Longrightarrow> SLAB_ENTRY_IS_INIT (es ! j) \<Longrightarrow> own_pages (es ! i) \<inter> own_pages (es ! j) = {}"
  using assms unfolding bucket_ok_def by blast+

lemma gone_apart:
  assumes "bucket_ok U pr sb es" "i < SLAB_BUCKET_ENTRIES" "SLAB_ENTRY_IS_INIT (es ! i)" "l \<le> i"
  shows "own_pages (es ! i) \<inter> gone_upto es l = {}"
proof -
  have "own_pages (es ! i) \<inter> freed (es ! j) = {}" if "j < l" "SLAB_ENTRY_IS_INIT (es ! j)" for j
    using bucket_okD(4) [OF assms(1-3), of j] assms(2,4) that freed_own [of "es ! j"] by auto
  then show ?thesis unfolding gone_upto_def by blast
qed

lemma gone_pages:
  assumes "bucket_ok U pr sb es" "l \<le> SLAB_BUCKET_ENTRIES"
  shows "gone_upto es l \<subseteq> U - {sb}"
proof -
  have "freed (es ! j) \<subseteq> U - {sb}" if "j < l" "SLAB_ENTRY_IS_INIT (es ! j)" for j
    using bucket_okD(1) [OF assms(1), of j] assms(2) that freed_own [of "es ! j"] by auto
  then show ?thesis unfolding gone_upto_def by blast
qed

lemma committable_next:
  assumes ok: "bucket_ok U pr sb es" and l: "l < SLAB_BUCKET_ENTRIES" "SLAB_ENTRY_IS_INIT (es ! l)"
  shows "committable (U - gone_upto es l) (protect_upto type es l pr) (se_addr sb l) (es ! l)"
proof -
  note d = bucket_okD [OF ok l]
  have b: "page_base (se_addr sb l) = sb" using se_addr_page(1) [of sb l] ok l(1) by (simp add: bucket_ok_def)
  have sb: "sb \<in> U - gone_upto es l" using gone_pages [OF ok, of l] l(1) ok by (auto simp: bucket_ok_def)
  have "sb \<noteq> d_maddr (se_cur (es ! i))" if "i < l" "SLAB_ENTRY_IS_INIT (es ! i)" for i
    using bucket_okD(1) [OF ok, of i] l(1) that by (auto simp: own_pages_def)
  then have "protect_upto type es l pr sb = pr sb" by (rule protect_other)
  then have w: "writable (protect_upto type es l pr sb)" using ok by (simp add: bucket_ok_def)
  have own: "own_pages (es ! l) \<subseteq> U - gone_upto es l - {sb}" using d(1) gone_apart [OF ok l, of l] by blast
  show ?thesis
    using b sb w own d(2,3) freed_own [of "es ! l"] unfolding committable_def own_pages_def by (auto simp: freed_def freed_data_def)
qed

text \<open>The state after the checkpoint of the first \<^verbatim>\<open>l\<close> entries.\<close>

definition bucket_upto ::
  "nat set \<Rightarrow> (nat \<Rightarrow> page) \<Rightarrow> (nat \<Rightarrow> nat) \<Rightarrow> nat \<Rightarrow> world \<Rightarrow> cpoint_type \<Rightarrow> nat \<Rightarrow> slab_entry list \<Rightarrow> nat \<Rightarrow> world \<Rightarrow> bool" where
  "bucket_upto U c pr k r type sb es l w \<longleftrightarrow>
     (\<exists>c'. mem (U - gone_upto es l) c' (protect_upto type es l pr) (k + card (gone_upto es l)) r w \<and>
        (\<forall>b. b \<noteq> sb \<longrightarrow> c' b = c b) \<and> bucket_shape c' sb = bucket_shape c sb \<and> holds_entries c' sb (done_upto es l))"

lemma bucket_step:
  assumes ok: "bucket_ok U pr sb es" and l: "l < SLAB_BUCKET_ENTRIES"
  shows "ends (bucket_upto U c pr k r type sb es l)
    (bindM (rd_se (se_addr sb l)) (\<lambda>e. if SLAB_ENTRY_IS_INIT e then cpoint_entry type (se_addr sb l) else retM ()))
    (\<lambda>_. bucket_upto U c pr k r type sb es (Suc l))"
proof -
  let ?se = "se_addr sb l" and ?e = "es ! l"
  have len: "length es = SLAB_BUCKET_ENTRIES" and dvd: "PAGE_SIZE dvd sb" and sbU: "sb \<in> U" using ok by (auto simp: bucket_ok_def)
  have sb: "sb \<in> U - gone_upto es l" using gone_pages [OF ok, of l] l sbU by auto
  note pg = se_addr_page [OF dvd]
  have now: "ends (\<lambda>w. mem (U - gone_upto es l) c' (protect_upto type es l pr) (k + card (gone_upto es l)) r w \<and>
        (\<forall>b. b \<noteq> sb \<longrightarrow> c' b = c b) \<and> bucket_shape c' sb = bucket_shape c sb \<and> holds_entries c' sb (done_upto es l))
      (bindM (rd_se ?se) (\<lambda>e. if SLAB_ENTRY_IS_INIT e then cpoint_entry type ?se else retM ()))
      (\<lambda>_. bucket_upto U c pr k r type sb es (Suc l))" for c'
    unfolding ends_def
  proof (intro allI impI, elim conjE)
    fix w
    assume m: "mem (U - gone_upto es l) c' (protect_upto type es l pr) (k + card (gone_upto es l)) r w"
      and c': "\<forall>b. b \<noteq> sb \<longrightarrow> c' b = c b" "bucket_shape c' sb = bucket_shape c sb" and h: "holds_entries c' sb (done_upto es l)"
    have e: "entry_at c' ?se = Some ?e" using h l len by (simp add: holds_entries_def done_nth)
    have rd: "rd_se ?se w = Inr (?e, w)" by (rule rd_se_ok [OF m _ e]) (use sb pg(1) [OF l] in simp)
    show "\<exists>x w'. bindM (rd_se ?se) (\<lambda>e. if SLAB_ENTRY_IS_INIT e then cpoint_entry type ?se else retM ()) w = Inr (x, w') \<and>
        bucket_upto U c pr k r type sb es (Suc l) w'"
    proof (cases "SLAB_ENTRY_IS_INIT ?e")
      case True
      note cm = committable_next [OF ok l True, of type]
      from endsD [OF cpoint_entry_now [OF cm, of c' "k + card (gone_upto es l)" r type] entry_now_self [OF m e]]
      obtain w' c2 where w': "cpoint_entry type ?se w = Inr ((), w')"
        and m2: "mem (U - gone_upto es l - freed ?e) c2 (protect type ?e (protect_upto type es l pr))
          (k + card (gone_upto es l) + card (freed ?e)) r w'"
        and c2: "entry_at c2 ?se = Some (committed ?e)" "\<forall>b. b \<noteq> sb \<longrightarrow> c2 b = c' b"
          "\<forall>b. other_slot ?se b \<longrightarrow> entry_at c2 b = entry_at c' b" "bucket_shape c2 sb = bucket_shape c' sb"
        unfolding entry_now_def entry_rel_def pg(1) [OF l] by (auto simp del: fun_upd_apply)
      have "gone_upto es l \<inter> freed ?e = {}" using gone_apart [OF ok l True, of l] freed_own by blast
      then have "card (gone_upto es (Suc l)) = card (gone_upto es l) + card (freed ?e)"
        using True by (simp add: gone_Suc card_Un_disjoint)
      then have m3: "mem (U - gone_upto es (Suc l)) c2 (protect_upto type es (Suc l) pr) (k + card (gone_upto es (Suc l))) r w'"
        using m2 True by (simp add: gone_Suc Diff_Un Int_Diff [symmetric] set_diff_eq conj_ac) (simp add: add.assoc)
      have "entry_at c2 (se_addr sb i) = Some (done_upto es (Suc l) ! i)" if i: "i < SLAB_BUCKET_ENTRIES" for i
      proof (cases "i = l")
        case False
        then have "other_slot ?se (se_addr sb i)" using pg(2) [OF i] pg(2) [OF l] by (simp add: other_slot_def)
        then have "entry_at c2 (se_addr sb i) = Some (done_upto es l ! i)" using c2(3) h i by (simp add: holds_entries_def)
        then show ?thesis using False i len by (simp add: done_nth less_Suc_eq)
      qed (use c2(1) True i len in \<open>simp add: done_nth\<close>)
      then have "holds_entries c2 sb (done_upto es (Suc l))" by (simp add: holds_entries_def done_upto_def len)
      then show ?thesis using rd w' m3 c' c2(2,4) True by (auto simp: bindM_def bucket_upto_def)
    next
      case False
      then have "done_upto es (Suc l) = done_upto es l" by (auto simp: done_upto_def less_Suc_eq)
      then have "bucket_upto U c pr k r type sb es (Suc l) w"
        using m c' h False by (auto simp: bucket_upto_def gone_Suc)
      then show ?thesis using rd False by (simp add: bindM_def)
    qed
  qed
  show ?thesis unfolding bucket_upto_def [of _ _ _ _ _ _ _ _ l, abs_def] by (rule total_ex) (rule now)
qed

lemma bucket_cpoint_ends:
  assumes "bucket_ok U pr sb es"
  shows "ends (bucket_upto U c pr k r type sb es 0) (slab_bucket_cpoint type sb)
    (\<lambda>_. bucket_upto U c pr k r type sb es SLAB_BUCKET_ENTRIES)"
proof -
  have "ends (bucket_upto U c pr k r type sb es i)
      ((\<lambda>l. bindM (rd_se (se_addr sb l)) (\<lambda>e. if SLAB_ENTRY_IS_INIT e then cpoint_entry type (se_addr sb l) else retM ()))
        ([0..<SLAB_BUCKET_ENTRIES] ! i)) (\<lambda>_. bucket_upto U c pr k r type sb es (Suc i))"
    if "i < length [0..<SLAB_BUCKET_ENTRIES]" for i
  proof -
    have i: "i < SLAB_BUCKET_ENTRIES" "[0..<SLAB_BUCKET_ENTRIES] ! i = i" using that by simp_all
    show ?thesis unfolding i(2) by (rule bucket_step [OF assms i(1)])
  qed
  from total_each [OF this] show ?thesis by (simp add: slab_bucket_cpoint_def bucket_entries_def)
qed

lemma bucket_upto_start:
  "mem U c pr k r w \<Longrightarrow> holds_entries c sb es \<Longrightarrow> bucket_upto U c pr k r type sb es 0 w"
  by (auto simp: bucket_upto_def gone_upto_def done_upto_def map_nth)

section \<open>The link of a bucket in its inner node\<close>

lemma holds_bucket:
  assumes "as_bucket (c sb) = Some b" "length (sb_entries b) = SLAB_BUCKET_ENTRIES" "PAGE_SIZE dvd sb"
  shows "holds_entries c sb (sb_entries b)"
  using assms se_addr_page [OF assms(3)] by (simp add: holds_entries_def entry_at_def) (simp add: se_addr_def)

lemma holds_flag:
  assumes "holds_entries c sb es" "PAGE_SIZE dvd sb"
  shows "\<exists>b. as_bucket (c sb) = Some b \<and> (\<forall>f. holds_entries (c(sb := PBucket (b\<lparr>sb_has_snapshot := f\<rparr>))) sb es)"
proof -
  note pg = se_addr_page [OF assms(2)]
  have "0 < SLAB_BUCKET_ENTRIES" by (simp add: entries_numbers)
  then have "entry_at c (se_addr sb 0) = Some (es ! 0)" using assms(1) by (simp add: holds_entries_def)
  then obtain b where b: "as_bucket (c sb) = Some b"
    using pg(1) \<open>0 < SLAB_BUCKET_ENTRIES\<close> by (auto simp: entry_at_def split: option.splits if_splits)
  have "entry_at (c(sb := PBucket (b\<lparr>sb_has_snapshot := f\<rparr>))) (se_addr sb i) = entry_at c (se_addr sb i)"
    if "i < SLAB_BUCKET_ENTRIES" for f i
    using pg [OF that] b by (simp add: entry_at_def)
  then show ?thesis using b assms(1) by (auto simp: holds_entries_def)
qed

text \<open>
  The bucket at \<^verbatim>\<open>i\<close> of an inner node: it has the flag, its entries can be checkpointed, and the node
  and the page in the link of its snapshot are none of their pages.
\<close>

definition marked ::
  "nat set \<Rightarrow> (nat \<Rightarrow> page) \<Rightarrow> (nat \<Rightarrow> nat) \<Rightarrow> nat \<Rightarrow> slab_node \<Rightarrow> nat \<Rightarrow> nat \<Rightarrow> slab_bucket \<Rightarrow> nat \<Rightarrow> bool" where
  "marked U c pr si n i sb b s \<longleftrightarrow>
     si \<in> U \<and> c si = PInner n \<and> writable (pr si) \<and> i < length (node_current n) \<and> i < length (node_snapshot n) \<and>
     l_maddr (node_current n ! i) = sb \<and> l_maddr (node_snapshot n ! i) = s \<and> c sb = PBucket b \<and> sb_has_snapshot b \<and>
     bucket_ok U pr sb (sb_entries b) \<and> s \<in> U \<and> s \<noteq> si \<and>
     (\<forall>l<SLAB_BUCKET_ENTRIES. SLAB_ENTRY_IS_INIT (sb_entries b ! l) \<longrightarrow> {si, s} \<inter> own_pages (sb_entries b ! l) = {})"

lemma marked_apart:
  assumes "marked U c pr si n i sb b s"
  shows "si \<in> U - gone_upto (sb_entries b) SLAB_BUCKET_ENTRIES" "s \<in> U - gone_upto (sb_entries b) SLAB_BUCKET_ENTRIES"
    "sb \<in> U - gone_upto (sb_entries b) SLAB_BUCKET_ENTRIES" "si \<noteq> sb" "writable (protect_upto type (sb_entries b) SLAB_BUCKET_ENTRIES pr si)"
    "writable (protect_upto type (sb_entries b) SLAB_BUCKET_ENTRIES pr sb)" "PAGE_SIZE dvd sb"
proof -
  have m: "si \<in> U" "s \<in> U" "sb \<in> U" "writable (pr si)" "writable (pr sb)" "bucket_ok U pr sb (sb_entries b)"
    "\<And>l. l < SLAB_BUCKET_ENTRIES \<Longrightarrow> SLAB_ENTRY_IS_INIT (sb_entries b ! l) \<Longrightarrow> {si, s} \<inter> own_pages (sb_entries b ! l) = {}"
    using assms by (auto simp: marked_def bucket_ok_def)
  have "{si, s} \<inter> gone_upto (sb_entries b) SLAB_BUCKET_ENTRIES = {}"
    using m(7) freed_own unfolding gone_upto_def by blast
  then show "si \<in> U - gone_upto (sb_entries b) SLAB_BUCKET_ENTRIES" "s \<in> U - gone_upto (sb_entries b) SLAB_BUCKET_ENTRIES"
    using m by auto
  show "sb \<in> U - gone_upto (sb_entries b) SLAB_BUCKET_ENTRIES" using gone_pages [OF m(6), of SLAB_BUCKET_ENTRIES] m(3) by auto
  show "si \<noteq> sb" using assms by (auto simp: marked_def)
  have "si \<noteq> d_maddr (se_cur (sb_entries b ! l))" "sb \<noteq> d_maddr (se_cur (sb_entries b ! l))"
    if "l < SLAB_BUCKET_ENTRIES" "SLAB_ENTRY_IS_INIT (sb_entries b ! l)" for l
    using m(7) [OF that] bucket_okD(1) [OF m(6) that] by (auto simp: own_pages_def)
  then show "writable (protect_upto type (sb_entries b) SLAB_BUCKET_ENTRIES pr si)"
    "writable (protect_upto type (sb_entries b) SLAB_BUCKET_ENTRIES pr sb)" using m(4,5) by (simp_all add: protect_other)
  show "PAGE_SIZE dvd sb" using m(6) by (simp add: bucket_ok_def)
qed

text \<open>The checkpoint of the bucket up to the release of the page in the link of its snapshot.\<close>

lemma cpoint_bucket_half:
  assumes m: "mem U c pr k r w" and b: "marked U c pr si n i sb b s"
  obtains c' w2 where
    "mem (U - gone_upto (sb_entries b) SLAB_BUCKET_ENTRIES) c' (protect_upto type (sb_entries b) SLAB_BUCKET_ENTRIES pr)
       (k + card (gone_upto (sb_entries b) SLAB_BUCKET_ENTRIES)) r w2"
    "c' si = PInner (set_snap_laddr i (l_laddr (node_current n ! i)) n)" "\<forall>a. a \<notin> {sb, si} \<longrightarrow> c' a = c a"
    "holds_entries c' sb (done_upto (sb_entries b) SLAB_BUCKET_ENTRIES)" "bucket_shape c' sb = Some (sb_id b, length (sb_entries b))"
    "cpoint_bucket type si i w = thenM (freepage s) (thenM (up_inner touch si (set_snap_maddr i sb))
       (up_bucket touch sb (\<lambda>b. b\<lparr>sb_has_snapshot := False\<rparr>))) w2"
proof -
  let ?es = "sb_entries b" and ?N = SLAB_BUCKET_ENTRIES
  let ?pr = "protect_upto type ?es ?N pr" and ?n = "set_snap_laddr i (l_laddr (node_current n ! i)) n"
  have d: "si \<in> U" "c si = PInner n" "i < length (node_current n)" "i < length (node_snapshot n)" "sb \<in> U"
    "l_maddr (node_current n ! i) = sb" "l_maddr (node_snapshot n ! i) = s" "c sb = PBucket b" "sb_has_snapshot b"
    "bucket_ok U pr sb ?es" "length ?es = ?N" using b by (auto simp: marked_def bucket_ok_def)
  note ap = marked_apart(1-4) [OF b] marked_apart(5,6) [OF b, of type] marked_apart(7) [OF b]
  have rd: "rd_inner si w = Inr (n, w)" "rd_bucket sb w = Inr (b, w)"
    using rd_at(3) [OF m d(1)] rd_at(4) [OF m d(5)] d(2,8) by simp_all
  have h: "holds_entries c sb ?es" by (rule holds_bucket) (use d ap(7) in simp_all)
  from endsD [OF bucket_cpoint_ends [OF d(10), of c k r type] bucket_upto_start [OF m h]] obtain w1 c1 where
    w1: "slab_bucket_cpoint type sb w = Inr ((), w1)" and m1: "mem (U - gone_upto ?es ?N) c1 ?pr (k + card (gone_upto ?es ?N)) r w1"
    and c1: "\<forall>a. a \<noteq> sb \<longrightarrow> c1 a = c a" "holds_entries c1 sb (done_upto ?es ?N)" "bucket_shape c1 sb = bucket_shape c sb"
    by (auto simp: bucket_upto_def)
  have "as_inner (c1 si) = Some n" using c1(1) d(2) ap(4) by simp
  note up = total_atomic_set [OF total_up(3) [of touch si "U - gone_upto ?es ?N" ?pr c1 n, OF stores_touch ap(1) ap(5) this]]
  from endsD [OF up [of _ _ "set_snap_laddr i (l_laddr (node_current n ! i))"] m1] obtain w2 where
    w2: "atomic_set (up_inner touch si (set_snap_laddr i (l_laddr (node_current n ! i)))) w1 = Inr ((), w2)"
    and m2: "mem (U - gone_upto ?es ?N) (c1(si := PInner ?n)) ?pr (k + card (gone_upto ?es ?N)) r w2" by (auto simp del: fun_upd_apply)
  have rd2: "rd_inner si w2 = Inr (?n, w2)" using rd_at(3) [OF m2 ap(1), of ?n] by simp
  have s: "i < length (node_snapshot ?n)" "l_maddr (node_snapshot ?n ! i) = s" using d(4,7) by (simp_all add: set_snap_laddr_def)
  have "cpoint_bucket type si i w = thenM (freepage s) (thenM (up_inner touch si (set_snap_maddr i sb))
       (up_bucket touch sb (\<lambda>b. b\<lparr>sb_has_snapshot := False\<rparr>))) w2"
    using rd w1 w2 rd2 s d(3,6,9) by (simp add: cpoint_bucket_def bindM_step thenM_step cellM_def Let_def)
  moreover have "holds_entries (c1(si := PInner ?n)) sb (done_upto ?es ?N)"
    using c1(2) se_addr_page(1) [OF ap(7)] ap(4) by (simp add: holds_entries_def)
  moreover have "bucket_shape (c1(si := PInner ?n)) sb = Some (sb_id b, length (sb_entries b))" using c1(3) ap(4) d(8) by (simp add: bucket_shape_def)
  ultimately show thesis using that [OF m2] c1(1) by simp
qed

definition given_back :: "slab_bucket \<Rightarrow> nat \<Rightarrow> nat set" where
  "given_back b s = insert s (gone_upto (sb_entries b) SLAB_BUCKET_ENTRIES)"

lemma card_given_back:
  "marked U c pr si n i sb b s \<Longrightarrow> card (given_back b s) = Suc (card (gone_upto (sb_entries b) SLAB_BUCKET_ENTRIES))"
  using marked_apart(2) by (simp add: given_back_def)

lemma cpoint_bucket_ends:
  assumes "mem U c pr k r w" "marked U c pr si n i sb b s" "s \<noteq> sb"
  obtains c' w' n' b' where
    "cpoint_bucket type si i w = Inr ((), w')"
    "mem (U - given_back b s) c' (protect_upto type (sb_entries b) SLAB_BUCKET_ENTRIES pr) (k + card (given_back b s)) r w'"
    "\<forall>a. a \<notin> {sb, si} \<longrightarrow> c' a = c a" "c' si = PInner n'" "node_index n' = node_index n" "node_current n' = node_current n"
    "node_snapshot n' = (node_snapshot n)[i := node_current n ! i]"
    "c' sb = PBucket b'" "\<not> sb_has_snapshot b'" "holds_entries c' sb (done_upto (sb_entries b) SLAB_BUCKET_ENTRIES)"
    "si \<in> U - given_back b s" "sb \<in> U - given_back b s" "sb_id b' = sb_id b"
    "length (sb_entries b') = SLAB_BUCKET_ENTRIES"
proof -
  let ?es = "sb_entries b" and ?N = SLAB_BUCKET_ENTRIES
  let ?n = "set_snap_laddr i (l_laddr (node_current n ! i)) n"
  let ?pr = "protect_upto type ?es ?N pr" and ?U = "U - given_back b s" and ?k = "k + card (given_back b s)"
  note ap = marked_apart(1-4,7) [OF assms(2)] and wr = marked_apart(5,6) [OF assms(2), of type]
  have d: "i < length (node_snapshot n)" "l_maddr (node_current n ! i) = sb" "s \<noteq> si"
    using assms(2) by (auto simp: marked_def)
  obtain c' w2 where m2: "mem (U - gone_upto ?es ?N) c' ?pr (k + card (gone_upto ?es ?N)) r w2"
    and c': "c' si = PInner ?n" "\<forall>a. a \<notin> {sb, si} \<longrightarrow> c' a = c a" "holds_entries c' sb (done_upto ?es ?N)" "bucket_shape c' sb = Some (sb_id b, length (sb_entries b))"
    and run: "cpoint_bucket type si i w = thenM (freepage s) (thenM (up_inner touch si (set_snap_maddr i sb))
       (up_bucket touch sb (\<lambda>b. b\<lparr>sb_has_snapshot := False\<rparr>))) w2"
    by (rule cpoint_bucket_half [OF assms(1,2)])
  have gb: "U - gone_upto ?es ?N - {s} = ?U" "Suc (k + card (gone_upto ?es ?N)) = ?k"
    using card_given_back [OF assms(2)] by (auto simp: given_back_def)
  have in_U: "si \<in> ?U" "sb \<in> ?U" using ap(1,3) assms(3) d(3) gb(1) by auto
  let ?n2 = "set_snap_maddr i sb ?n" and ?c3 = "c'(si := PInner (set_snap_maddr i sb ?n))"
  have h3: "holds_entries ?c3 sb (done_upto ?es ?N)"
    using c'(3) se_addr_page(1) [OF ap(5)] ap(4) by (simp add: holds_entries_def)
  obtain b3 where b3: "as_bucket (?c3 sb) = Some b3" "holds_entries (?c3(sb := PBucket (b3\<lparr>sb_has_snapshot := False\<rparr>))) sb (done_upto ?es ?N)"
    using holds_flag [OF h3 ap(5)] by blast
  let ?c4 = "?c3(sb := PBucket (b3\<lparr>sb_has_snapshot := False\<rparr>))"
  have free: "ends (mem (U - gone_upto ?es ?N) c' ?pr (k + card (gone_upto ?es ?N)) r) (freepage s) (\<lambda>_. mem ?U c' ?pr ?k r)"
    using total_freepage [OF ap(2)] gb by metis
  have link: "ends (mem ?U c' ?pr ?k r) (up_inner touch si (set_snap_maddr i sb)) (\<lambda>_. mem ?U ?c3 ?pr ?k r)"
    by (rule total_up(3) [of touch si ?U ?pr c' ?n]) (use in_U wr c'(1) in simp_all)
  have flag: "ends (mem ?U ?c3 ?pr ?k r) (up_bucket touch sb (\<lambda>b. b\<lparr>sb_has_snapshot := False\<rparr>)) (\<lambda>_. mem ?U ?c4 ?pr ?k r)"
    by (rule total_up(4) [of touch sb ?U ?pr ?c3 b3]) (use in_U wr b3 in simp_all)
  from endsD [OF total_then [OF free total_then [OF link flag]] m2] obtain w' where
    w': "cpoint_bucket type si i w = Inr ((), w')" and m: "mem ?U ?c4 ?pr ?k r w'" using run by auto
  have link_eq: "x\<lparr>l_laddr := l_laddr y, l_maddr := sb\<rparr> = y" if "l_maddr y = sb" for x y :: plink using that by auto
  have "node_snapshot ?n2 = (node_snapshot n)[i := node_current n ! i]" "node_index ?n2 = node_index n" "node_current ?n2 = node_current n"
    using d(1) link_eq [OF d(2)] by (simp_all add: set_snap_maddr_def set_snap_laddr_def)
  moreover have "sb_id b3 = sb_id b" "length (sb_entries b3) = length (sb_entries b)"
    using c'(4) b3(1) ap(4) by (simp_all add: bucket_shape_def)
  moreover have "length (sb_entries b) = SLAB_BUCKET_ENTRIES" using assms(2) by (simp add: marked_def bucket_ok_def)
  ultimately show thesis using that [OF w' m, of ?n2 "b3\<lparr>sb_has_snapshot := False\<rparr>"] c'(2) ap(4) b3(2) in_U by simp
qed

lemma current_stays:
  assumes "bucket_ok U pr sb es" "l < SLAB_BUCKET_ENTRIES" "SLAB_ENTRY_IS_INIT (es ! l)"
  shows "d_maddr (se_cur (es ! l)) \<notin> gone_upto es SLAB_BUCKET_ENTRIES"
proof -
  have "d_maddr (se_cur (es ! l)) \<notin> freed (es ! j)" if j: "j < SLAB_BUCKET_ENTRIES" "SLAB_ENTRY_IS_INIT (es ! j)" for j
  proof (cases "j = l")
    case True
    then show ?thesis using bucket_okD(2) [OF assms] by (auto simp: freed_def freed_data_def)
  next
    case False
    then show ?thesis using bucket_okD(4) [OF assms j(1) _ j(2)] freed_own [of "es ! j"] by (auto simp: own_pages_def)
  qed
  then show ?thesis by (auto simp: gone_upto_def)
qed

text \<open>
  C5: The checkpoint of a bucket.  When the bucket has the flag and a snapshot page of its own, the
  checkpoint returns.  Then the current version of the data page of each of its initialised entries
  is the committed one, with its contents, and is write-protected again; the pages of the old
  versions and the snapshot of the bucket are free pages, and no other page is; the link of the
  bucket's snapshot is the link of the bucket, and the flag is clear.
\<close>

theorem bucket_checkpoint_commits:
  assumes "mem U c pr k r w" "marked U c pr si n i sb b s" "s \<noteq> sb"
  shows "\<exists>w' n' b'. cpoint_bucket CPOINT_REGULAR si i w = Inr ((), w') \<and>
    pa_in_use (w_pa w', w_os w') = U - given_back b s \<and> pa_spare (w_pa w', w_os w') = k + card (given_back b s) \<and>
    rd_inner si w' = Inr (n', w') \<and> node_snapshot n' = (node_snapshot n)[i := node_current n ! i] \<and>
    rd_bucket sb w' = Inr (b', w') \<and> \<not> sb_has_snapshot b' \<and>
    (\<forall>l<SLAB_BUCKET_ENTRIES. let e = sb_entries b ! l; e' = sb_entries b' ! l; a = d_maddr (se_cur e) in
       if SLAB_ENTRY_IS_INIT e
       then e' = committed e \<and> d_maddr (se_snap e') = a \<and> page_at (w_os w') a = page_at (w_os w) a \<and>
         os_prot (w_os w') (vpn a) = PA_PROT_READ
       else e' = e)"
proof -
  let ?es = "sb_entries b" and ?N = SLAB_BUCKET_ENTRIES and ?U = "U - given_back b s"
  have d: "bucket_ok U pr sb ?es" "length ?es = ?N" "PAGE_SIZE dvd sb"
    "\<And>l. l < ?N \<Longrightarrow> SLAB_ENTRY_IS_INIT (?es ! l) \<Longrightarrow> {si, s} \<inter> own_pages (?es ! l) = {}"
    using assms(2) by (auto simp: marked_def bucket_ok_def)
  obtain c' w' n' b' where w': "cpoint_bucket CPOINT_REGULAR si i w = Inr ((), w')"
    and m: "mem ?U c' (protect_upto CPOINT_REGULAR ?es ?N pr) (k + card (given_back b s)) r w'"
    and c': "\<forall>a. a \<notin> {sb, si} \<longrightarrow> c' a = c a" "c' si = PInner n'" "node_snapshot n' = (node_snapshot n)[i := node_current n ! i]"
      "c' sb = PBucket b'" "\<not> sb_has_snapshot b'" "holds_entries c' sb (done_upto ?es ?N)" and u: "si \<in> ?U" "sb \<in> ?U" and "sb_id b' = sb_id b" "length (sb_entries b') = ?N"
    by (rule cpoint_bucket_ends [OF assms])
  have "rd_inner si w' = Inr (n', w')" by (rule rd_at(3) [OF m u(1)]) (use c'(2) in simp)
  moreover have "rd_bucket sb w' = Inr (b', w')" by (rule rd_at(4) [OF m u(2)]) (use c'(4) in simp)
  moreover have "sb_entries b' ! l = done_upto ?es ?N ! l" if "l < ?N" for l
    using c'(4,6) that se_addr_page [OF d(3) that] by (auto simp: holds_entries_def entry_at_def split: if_splits)
  moreover have "page_at (w_os w') a = page_at (w_os w) a \<and> os_prot (w_os w') (vpn a) = PA_PROT_READ"
    if l: "l < ?N" "SLAB_ENTRY_IS_INIT (?es ! l)" "a = d_maddr (se_cur (?es ! l))" for l a
  proof -
    have "a \<in> U - {sb}" "a \<notin> {si, s}"
      using bucket_okD(1) [OF d(1) l(1,2)] d(4) [OF l(1,2)] l(3) by (auto simp: own_pages_def)
    then have "a \<in> ?U" "c' a = c a" "a \<in> U" using current_stays [OF d(1) l(1,2)] c'(1) l(3) by (auto simp: given_back_def)
    then show ?thesis
      using mem_page(5,6) [OF m, of a] mem_page(6) [OF assms(1), of a] protect_current [of l ?N ?es pr] l by simp
  qed
  moreover have "pa_in_use (w_pa w', w_os w') = ?U" "pa_spare (w_pa w', w_os w') = k + card (given_back b s)"
    using m by (simp_all add: mem_def)
  ultimately show ?thesis
    using w' d(2) c'(3,5) by (intro exI [of _ w'] exI [of _ n'] exI [of _ b']) (auto simp: Let_def done_nth committed_def)
qed

section \<open>Marking a bucket\<close>

text \<open>
  The bucket \<^verbatim>\<open>b\<close> at \<^verbatim>\<open>sb\<close> and the inner node \<^verbatim>\<open>n\<close> at \<^verbatim>\<open>si\<close> that the numbers in its identifier lead
  to; \<^verbatim>\<open>q\<close> is the number of the inner node, which the code takes for the bucket's index in it.
\<close>

definition bucket_at ::
  "nat set \<Rightarrow> (nat \<Rightarrow> page) \<Rightarrow> (nat \<Rightarrow> nat) \<Rightarrow> world \<Rightarrow> nat \<Rightarrow> slab_bucket \<Rightarrow> nat \<Rightarrow> slab_node \<Rightarrow> nat \<Rightarrow> bool" where
  "bucket_at U c pr r sb b si n q \<longleftrightarrow>
     sb \<in> U \<and> c sb = PBucket b \<and> writable (pr sb) \<and> si \<in> U \<and> c si = PInner n \<and> writable (pr si) \<and>
     q = sb_id b div SLAB_INNER_ENTRIES \<and> q < length (node_current n) \<and> q < length (node_snapshot n) \<and>
     (\<exists>sd d so no. dir_is U c r sd d \<and> q div SLAB_OUTER_ENTRIES mod SLAB_DIR_ENTRIES < length (sd_current d) \<and>
        l_maddr (sd_current d ! (q div SLAB_OUTER_ENTRIES mod SLAB_DIR_ENTRIES)) = so \<and> so \<in> U \<and> as_outer (c so) = Some no \<and>
        q mod SLAB_OUTER_ENTRIES < length (node_current no) \<and> l_maddr (node_current no ! (q mod SLAB_OUTER_ENTRIES)) = si)"

lemma bucket_inner_ok:
  assumes m: "mem U c pr k r w" and b: "bucket_at U c pr r sb b si n q"
  shows "bucket_inner sb w = Inr ((si, q), w)" "rd_inner si w = Inr (n, w)"
proof -
  obtain sd d so no where d: "dir_is U c r sd d" "q div SLAB_OUTER_ENTRIES mod SLAB_DIR_ENTRIES < length (sd_current d)"
    "l_maddr (sd_current d ! (q div SLAB_OUTER_ENTRIES mod SLAB_DIR_ENTRIES)) = so" "so \<in> U" "as_outer (c so) = Some no"
    "q mod SLAB_OUTER_ENTRIES < length (node_current no)" "l_maddr (node_current no ! (q mod SLAB_OUTER_ENTRIES)) = si"
    and s: "sb \<in> U" "c sb = PBucket b" "si \<in> U" "c si = PInner n" "q = sb_id b div SLAB_INNER_ENTRIES"
    using b by (auto simp: bucket_at_def)
  have "rd_bucket sb w = Inr (b, w)" using rd_at(4) [OF m s(1)] s(2) by simp
  then show "bucket_inner sb w = Inr ((si, q), w)"
    using current_sd_ok [OF m d(1)] rd_at(2) [OF m d(4,5)] d(2,3,6,7) s(5)
    by (simp add: bucket_inner_def bindM_def cellM_def Let_def)
  show "rd_inner si w = Inr (n, w)" using rd_at(3) [OF m s(3)] s(4) by simp
qed

text \<open>The contents after the bucket has been marked, with the copy at \<^verbatim>\<open>a\<close>.\<close>

definition marked_c :: "(nat \<Rightarrow> page) \<Rightarrow> nat \<Rightarrow> slab_bucket \<Rightarrow> nat \<Rightarrow> slab_node \<Rightarrow> nat \<Rightarrow> nat \<Rightarrow> nat \<Rightarrow> nat \<Rightarrow> page" where
  "marked_c c sb b si n q a l = c(a := PBucket b, si := PInner (set_snap_maddr q a (set_snap_laddr q l n)),
     sb := PBucket (b\<lparr>sb_has_snapshot := True\<rparr>))"

lemma mark_bucket_first_z:
  assumes b: "bucket_at U c pr r sb b si n q" and s: "\<not> w_copynswap r" "l_maddr (node_current n ! q) = l_maddr (node_snapshot n ! q)"
  shows "ends (memz z U c pr (Suc k) r) (mark_bucket sb)
    (\<lambda>_ w. \<exists>a l. a \<notin> U \<and> PAGE_SIZE dvd a \<and> memz z (insert a U) (marked_c c sb b si n q a l) (pr(a := PA_PROT_WRITE)) k r w)"
  unfolding ends_def
proof (intro allI impI)
  fix w
  assume m: "memz z U c pr (Suc k) r w"
  have d: "sb \<in> U" "si \<in> U" "c sb = PBucket b" "c si = PInner n" "writable (pr sb)" "writable (pr si)"
    "q < length (node_current n)" "q < length (node_snapshot n)" using b by (auto simp: bucket_at_def)
  have wr: "writable PA_PROT_WRITE" by (simp add: writable_def PA_PROT_WRITE_def)
  let ?Q = "\<lambda>x w. x = True \<and> (\<exists>a l. a \<notin> U \<and> PAGE_SIZE dvd a \<and>
    memz z (insert a U) (c(a := PBucket b, si := PInner (set_snap_maddr q a (set_snap_laddr q l n)))) (pr(a := PA_PROT_WRITE)) k r w)"
  have "ends (memz z (insert a U) (c(a := x)) (pr(a := PA_PROT_WRITE)) k r)
      (thenM (pmemcpy touch a sb PAGE_SIZE) (thenM (atomic_set (up_inner touch si (set_snap_laddr q l)))
        (thenM (up_inner touch si (set_snap_maddr q a)) (thenM (statM Cow_meta_pg) (retM True))))) ?Q"
    if a: "a \<notin> U" "PAGE_SIZE dvd a" for a l x
  proof -
    let ?pr = "pr(a := PA_PROT_WRITE)" and ?U = "insert a U" and ?c = "c(a := PBucket b)"
    have ne: "a \<noteq> sb" "a \<noteq> si" using a(1) d(1,2) by auto
    have cp: "ends (memz z ?U (c(a := x)) ?pr k r) (pmemcpy touch a sb PAGE_SIZE) (\<lambda>_. memz z ?U ?c ?pr k r)"
      using total_pmemcpy_z [of touch a ?U sb ?pr z "c(a := x)" k r] d(1,3) ne wr by simp
    have l1: "ends (memz z ?U ?c ?pr k r) (atomic_set (up_inner touch si (set_snap_laddr q l)))
        (\<lambda>_. memz z ?U (?c(si := PInner (set_snap_laddr q l n))) ?pr k r)"
      by (intro total_atomic_set total_up_z(3) [of touch si ?U ?pr ?c n]) (use d ne in simp_all)
    have l2: "ends (memz z ?U (?c(si := PInner (set_snap_laddr q l n))) ?pr k r) (up_inner touch si (set_snap_maddr q a))
        (\<lambda>_. memz z ?U (?c(si := PInner (set_snap_maddr q a (set_snap_laddr q l n)))) ?pr k r)"
      using total_up_z(3) [of touch si ?U ?pr "?c(si := PInner (set_snap_laddr q l n))" "set_snap_laddr q l n"] d ne by simp
    show ?thesis
      by (intro total_then [OF cp] total_then [OF l1] total_then [OF l2] total_then [OF total_stat_z(1)] total_ret) (use a in auto)
  qed
  then have body: "ends (memz z U c pr (Suc k) r) (bindM (getpage PA_PROT_WRITE) (\<lambda>(sbs, l).
      thenM (pmemcpy touch sbs sb PAGE_SIZE) (thenM (atomic_set (up_inner touch si (set_snap_laddr q l)))
        (thenM (up_inner touch si (set_snap_maddr q sbs)) (thenM (statM Cow_meta_pg) (retM True)))))) ?Q"
    by (intro total_getpage_zero [OF _ disjI1 [OF wr]]) simp_all
  have snap: "slab_bucket_snapshot sb w = bindM (getpage PA_PROT_WRITE) (\<lambda>(sbs, l).
      thenM (pmemcpy touch sbs sb PAGE_SIZE) (thenM (atomic_set (up_inner touch si (set_snap_laddr q l)))
        (thenM (up_inner touch si (set_snap_maddr q sbs)) (thenM (statM Cow_meta_pg) (retM True))))) w"
    using bucket_inner_ok [OF memz_mem [OF m] b] s(2) d(7,8)
    by (simp add: slab_bucket_snapshot_def bindM_step cellM_def split: prod.splits)
  from endsD [OF body m] obtain w1 a l where w1: "slab_bucket_snapshot sb w = Inr (True, w1)" "a \<notin> U" "PAGE_SIZE dvd a"
    "memz z (insert a U) (c(a := PBucket b, si := PInner (set_snap_maddr q a (set_snap_laddr q l n)))) (pr(a := PA_PROT_WRITE)) k r w1"
    unfolding snap by auto
  let ?c1 = "c(a := PBucket b, si := PInner (set_snap_maddr q a (set_snap_laddr q l n)))"
  have "as_bucket (?c1 sb) = Some b" "sb \<in> insert a U" "writable ((pr(a := PA_PROT_WRITE)) sb)" using d w1(2) by auto
  from endsD [OF total_up_z(4) [of touch sb "insert a U" "pr(a := PA_PROT_WRITE)" ?c1 b z k r "\<lambda>b. b\<lparr>sb_has_snapshot := True\<rparr>"] w1(4)] this
  obtain w2 where "up_bucket touch sb (\<lambda>b. b\<lparr>sb_has_snapshot := True\<rparr>) w1 = Inr ((), w2)"
    "memz z (insert a U) (marked_c c sb b si n q a l) (pr(a := PA_PROT_WRITE)) k r w2"
    unfolding marked_c_def by auto
  moreover have "w_copynswap w = False" using mem_cont [OF memz_mem [OF m]] s(1) by simp
  ultimately show "\<exists>x w'. mark_bucket sb w = Inr (x, w') \<and> (\<exists>a l. a \<notin> U \<and> PAGE_SIZE dvd a \<and>
      memz z (insert a U) (marked_c c sb b si n q a l) (pr(a := PA_PROT_WRITE)) k r w')"
    using w1(1-3) by (auto simp: mark_bucket_def Func_slab_bucket_snapshot_def bindM_step)
qed

lemmas mark_bucket_first = mark_bucket_first_z [where z = False]

lemma mark_bucket_again:
  assumes b: "bucket_at U c pr r sb b si n q" and s: "\<not> w_copynswap r" "l_maddr (node_current n ! q) \<noteq> l_maddr (node_snapshot n ! q)"
  shows "ends (mem U c pr k r) (mark_bucket sb) (\<lambda>_. mem U (c(sb := PBucket (b\<lparr>sb_has_snapshot := False\<rparr>))) pr k r)"
  unfolding ends_def
proof (intro allI impI)
  fix w
  assume m: "mem U c pr k r w"
  have d: "sb \<in> U" "c sb = PBucket b" "writable (pr sb)" "q < length (node_current n)" "q < length (node_snapshot n)"
    using b by (auto simp: bucket_at_def)
  have "slab_bucket_snapshot sb w = Inr (False, w)"
    using bucket_inner_ok [OF m b] s(2) d(4,5) by (simp add: slab_bucket_snapshot_def bindM_step cellM_def)
  moreover have "w_copynswap w = False" using mem_cont [OF m] s(1) by simp
  moreover obtain w2 where "up_bucket touch sb (\<lambda>b. b\<lparr>sb_has_snapshot := False\<rparr>) w = Inr ((), w2)"
    "mem U (c(sb := PBucket (b\<lparr>sb_has_snapshot := False\<rparr>))) pr k r w2"
    using endsD [OF total_up(4) [of touch sb U pr c b k r "\<lambda>b. b\<lparr>sb_has_snapshot := False\<rparr>"] m] d(1-3) by auto
  ultimately show "\<exists>x w'. mark_bucket sb w = Inr (x, w') \<and> mem U (c(sb := PBucket (b\<lparr>sb_has_snapshot := False\<rparr>))) pr k r w'"
    by (auto simp: mark_bucket_def Func_slab_bucket_snapshot_def bindM_step)
qed

lemma dir_is_other:
  assumes "dir_is U c r sd d" "U \<subseteq> V" "c' sd = c sd" "c' (w_cont r) = c (w_cont r)"
  shows "dir_is V c' r sd d"
  using assms by (auto simp: dir_is_def)

lemma bucket_at_marked:
  assumes b: "bucket_at U c pr r sb b si n q" and a: "a \<notin> U" "0 \<notin> U"
  shows "bucket_at (insert a U) (marked_c c sb b si n q a l) (pr(a := PA_PROT_WRITE)) r sb (b\<lparr>sb_has_snapshot := True\<rparr>)
    si (set_snap_maddr q a (set_snap_laddr q l n)) q"
proof -
  obtain sd d so no where d: "dir_is U c r sd d" "q div SLAB_OUTER_ENTRIES mod SLAB_DIR_ENTRIES < length (sd_current d)"
    "l_maddr (sd_current d ! (q div SLAB_OUTER_ENTRIES mod SLAB_DIR_ENTRIES)) = so" "so \<in> U" "as_outer (c so) = Some no"
    "q mod SLAB_OUTER_ENTRIES < length (node_current no)" "l_maddr (node_current no ! (q mod SLAB_OUTER_ENTRIES)) = si"
    and s: "sb \<in> U" "c sb = PBucket b" "si \<in> U" "c si = PInner n" "q = sb_id b div SLAB_INNER_ENTRIES"
      "writable (pr sb)" "writable (pr si)" "q < length (node_current n)" "q < length (node_snapshot n)"
    using b by (auto simp: bucket_at_def)
  have dd: "sd \<in> U" "as_dir (c sd) = Some d" "w_cont r \<in> U" "as_cont (c (w_cont r)) \<noteq> None" using d(1) by (auto simp: dir_is_def)
  have ne: "sd \<notin> {a, si, sb}" "w_cont r \<notin> {a, si, sb}" "so \<notin> {a, si, sb}" "sb \<noteq> si" "sb \<noteq> a" "si \<noteq> a"
    using dd d(4,5) s(1-4) a by auto
  have "dir_is (insert a U) (marked_c c sb b si n q a l) r sd d"
    by (rule dir_is_other [OF d(1)]) (use ne in \<open>auto simp: marked_c_def\<close>)
  then show ?thesis
    unfolding bucket_at_def
    by (intro conjI exI [of _ sd] exI [of _ d] exI [of _ so] exI [of _ no])
      (use d s ne in \<open>simp_all add: marked_c_def set_snap_maddr_def set_snap_laddr_def\<close>)
qed

text \<open>
  C7: The second allocation from a bucket hides it from the checkpoint.  In one transaction, the first
  allocation takes the snapshot of the bucket and sets its flag; the second finds that the snapshot
  has been taken and clears the flag.  The checkpoint then returns without having done anything for
  this bucket: no entry is committed, no data page is protected again, and the page of the bucket's
  snapshot stays in use.
\<close>

theorem second_allocation_hides_bucket:
  assumes "mem U c pr (Suc k) r w" "bucket_at U c pr r sb b si n q" "\<not> w_copynswap r"
    and "l_maddr (node_current n ! q) = sb" "l_maddr (node_snapshot n ! q) = sb"
  shows "\<exists>w1 w2 b1 n2. mark_bucket sb w = Inr ((), w1) \<and> rd_bucket sb w1 = Inr (b1, w1) \<and> sb_has_snapshot b1 \<and>
    mark_bucket sb w1 = Inr ((), w2) \<and> cpoint_bucket type si q w2 = Inr ((), w2) \<and>
    rd_inner si w2 = Inr (n2, w2) \<and> l_maddr (node_snapshot n2 ! q) \<noteq> l_maddr (node_current n2 ! q) \<and>
    pa_in_use (w_pa w2, w_os w2) = insert (l_maddr (node_snapshot n2 ! q)) U"
proof -
  have d: "sb \<in> U" "si \<in> U" "c sb = PBucket b" "c si = PInner n" "q < length (node_current n)" "q < length (node_snapshot n)"
    using assms(2) by (auto simp: bucket_at_def)
  from endsD [OF mark_bucket_first [OF assms(2,3)] assms(1)] assms(4,5) obtain w1 a l where
    w1: "mark_bucket sb w = Inr ((), w1)" and a: "a \<notin> U" and m1: "mem (insert a U) (marked_c c sb b si n q a l) (pr(a := PA_PROT_WRITE)) k r w1"
    by auto
  let ?b1 = "b\<lparr>sb_has_snapshot := True\<rparr>" and ?n1 = "set_snap_maddr q a (set_snap_laddr q l n)" and ?c1 = "marked_c c sb b si n q a l"
  note at = bucket_at_marked [OF assms(2) a mem_zero [OF assms(1)], of l]
  have links: "l_maddr (node_current ?n1 ! q) = sb" "l_maddr (node_snapshot ?n1 ! q) = a"
    using assms(4) d(6) by (simp_all add: set_snap_maddr_def set_snap_laddr_def)
  have "a \<noteq> sb" "si \<noteq> sb" using a d by auto
  have "rd_bucket sb w1 = Inr (?b1, w1)" by (rule rd_at(4) [OF m1]) (use d(1) in \<open>simp_all add: marked_c_def\<close>)
  moreover have "l_maddr (node_current ?n1 ! q) \<noteq> l_maddr (node_snapshot ?n1 ! q)" using links \<open>a \<noteq> sb\<close> by simp
  from endsD [OF mark_bucket_again [OF at assms(3) this] m1] obtain w2 where w2: "mark_bucket sb w1 = Inr ((), w2)"
    and m2: "mem (insert a U) (?c1(sb := PBucket (?b1\<lparr>sb_has_snapshot := False\<rparr>))) (pr(a := PA_PROT_WRITE)) k r w2" by auto
  have rd: "rd_inner si w2 = Inr (?n1, w2)"
    by (rule rd_at(3) [OF m2]) (use d(2) \<open>si \<noteq> sb\<close> in \<open>simp_all add: marked_c_def\<close>)
  have "rd_bucket sb w2 = Inr (?b1\<lparr>sb_has_snapshot := False\<rparr>, w2)" by (rule rd_at(4) [OF m2]) (use d(1) in simp_all)
  moreover have "q < length (node_current ?n1)" using d(5) by (simp add: set_snap_maddr_def set_snap_laddr_def)
  ultimately have "cpoint_bucket type si q w2 = Inr ((), w2)"
    using rd links by (simp add: cpoint_bucket_def bindM_step cellM_def Let_def)
  moreover have "pa_in_use (w_pa w2, w_os w2) = insert a U" using m2 by (simp add: mem_def)
  ultimately show ?thesis using w1 w2 rd links \<open>a \<noteq> sb\<close> \<open>rd_bucket sb w1 = _\<close>
    by (intro exI [of _ w1] exI [of _ w2] exI [of _ ?b1] exI [of _ ?n1]) simp
qed

section \<open>A page that is free and still written\<close>

definition shadow :: "nat set \<Rightarrow> page \<Rightarrow> nat \<Rightarrow> world \<Rightarrow> bool" where
  "shadow U p a w \<longleftrightarrow> writable (os_prot (w_os w) (vpn a)) \<and>
     (\<exists>f. os_vm (w_os w) (vpn a) = Some f \<and> os_pages (w_os w) f = p \<and> (\<forall>b\<in>U. os_vm (w_os w) (vpn b) \<noteq> Some f))"

lemma freed_shadow:
  assumes m: "mem U c pr k r w" and a: "a \<in> U" "writable (pr a)"
  shows "\<exists>w'. freepage a w = Inr ((), w') \<and> mem (U - {a}) c pr (Suc k) r w' \<and> shadow (U - {a}) (c a) a w'"
proof -
  let ?m = "(w_pa w, w_os w)"
  from endsD [OF total_freepage [OF a(1)] m] obtain w' where
    w': "freepage a w = Inr ((), w')" and m': "mem (U - {a}) c pr (Suc k) r w'" by auto
  have rel: "pa_release ?m a = Inr (w_pa w', w_os w')"
    using w' by (auto simp: freepage_def pa_release_def bindR_Inr_iff)
  have i: "pa_inv ?m" "a \<in> pa_in_use ?m" using m a(1) by (auto simp: mem_def)
  have frame: "os_vm (w_os w') (vpn b) = os_vm (w_os w) (vpn b)" "os_prot (w_os w') (vpn b) = os_prot (w_os w) (vpn b)" for b
    using pas.release_spare [OF i rel] by (auto simp: pa_frame_def pa_prot_def dest: fun_cong [of _ _ b])
  have view: "page_at (w_os w') a = page_at (w_os w) a" using pa.release_view [OF rel, of a] by simp
  obtain f where f: "os_vm (w_os w) (vpn a) = Some f" using mem_page(4) [OF m a(1)] by blast
  have "os_pages (w_os w') f = c a" using view mem_page(6) [OF m a(1)] f frame(1) [of a] by (auto simp: page_at_def)
  moreover have "os_vm (w_os w') (vpn b) \<noteq> Some f" if "b \<in> U - {a}" for b
    using mem_frame [OF m a(1), of b] that f frame(1) [of b] by auto
  ultimately show ?thesis
    using w' m' f frame mem_page(5) [OF m a(1)] a(2) by (auto simp: shadow_def)
qed

lemma shadow_up_inner:
  assumes m: "mem U c pr k r w" and s: "shadow U p a w" and si: "si \<in> U" "c si = PInner n" "writable (pr si)"
  shows "\<exists>w'. up_inner touch si f w = Inr ((), w') \<and> mem U (c(si := PInner (f n))) pr k r w' \<and> shadow U p a w'"
proof -
  have b: "page_base si = si" using mem_page(1) [OF m si(1)] .
  obtain g where g: "os_vm (w_os w) (vpn si) = Some g" using mem_page(4) [OF m si(1)] by blast
  have "touch si w = Inr ((), w)" using stores_ok [OF stores_touch m, of si] si b by simp
  moreover have "rd_inner si w = Inr (n, w)" using rd_at(3) [OF m si(1)] si(2) by simp
  moreover note p = poke_ok [OF m, of si "PInner (f n)", unfolded b, OF si(1)]
  moreover have "shadow U p a (put si (PInner (f n)) w)" using s g si(1) by (auto simp: shadow_def put_def)
  ultimately show ?thesis by (auto simp: up_inner_def thenM_step bindM_step)
qed

lemma shadow_up_bucket:
  assumes m: "mem U c pr k r w" and s: "shadow U p a w" and b: "as_bucket p = Some bk"
  shows "\<exists>w'. up_bucket touch a f w = Inr ((), w') \<and> mem U c pr k r w'"
proof -
  obtain g where g: "os_vm (w_os w) (vpn a) = Some g" "os_pages (w_os w) g = p" "\<forall>b\<in>U. os_vm (w_os w) (vpn b) \<noteq> Some g"
    and wr: "writable (os_prot (w_os w) (vpn a))" using s by (auto simp: shadow_def)
  have "raw_touch a w = Inr ((), w)" using g wr by (simp add: raw_touch_def)
  then have "touch a w = Inr ((), w)" by (simp add: touch_def)
  moreover have "rd_bucket a w = Inr (bk, w)"
    using g(1,2) b by (cases p) (auto simp: rd_bucket_def bindM_def page_of_def)
  moreover have "mem U c pr k r (put a (PBucket (f bk)) w)"
  proof -
    have "page_at (w_os (put a (PBucket (f bk)) w)) b = page_at (w_os w) b" if "b \<in> U" for b
      using g(1,3) that by (cases "os_vm (w_os w) (vpn b)") (auto simp: page_at_def put_def)
    then show ?thesis using m by (simp add: mem_def put_def rest_def)
  qed
  moreover have "poke a (PBucket (f bk)) w = Inr ((), put a (PBucket (f bk)) w)" using g by (simp add: poke_def put_def)
  ultimately show ?thesis by (auto simp: up_bucket_def thenM_step bindM_step)
qed

text \<open>A bucket that has just been marked can be checkpointed.\<close>

lemma bucket_ok_more: "bucket_ok U pr sb es \<Longrightarrow> a \<notin> U \<Longrightarrow> bucket_ok (insert a U) (pr(a := x)) sb es"
  unfolding bucket_ok_def by auto

lemma marked_after:
  assumes b: "bucket_at U c pr r sb b si n q" and a: "a \<notin> U" and ok: "bucket_ok U pr sb (sb_entries b)"
    and i: "i < length (node_current n)" "i < length (node_snapshot n)" "l_maddr (node_current n ! i) = sb"
      "l_maddr (node_snapshot n ! i) = sb"
    and si: "\<And>l. l < SLAB_BUCKET_ENTRIES \<Longrightarrow> SLAB_ENTRY_IS_INIT (sb_entries b ! l) \<Longrightarrow> si \<notin> own_pages (sb_entries b ! l)"
  shows "marked (insert a U) (marked_c c sb b si n q a l) (pr(a := PA_PROT_WRITE)) si (set_snap_maddr q a (set_snap_laddr q l n)) i sb
    (b\<lparr>sb_has_snapshot := True\<rparr>) (if i = q then a else sb)"
proof -
  have d: "sb \<in> U" "si \<in> U" "c sb = PBucket b" "c si = PInner n" "writable (pr si)"
    using b by (auto simp: bucket_at_def)
  have ne: "sb \<noteq> si" "a \<noteq> sb" "a \<noteq> si" using d a by auto
  have own: "own_pages (sb_entries b ! l) \<subseteq> U - {sb}" if "l < SLAB_BUCKET_ENTRIES" "SLAB_ENTRY_IS_INIT (sb_entries b ! l)" for l
    by (rule bucket_okD(1) [OF ok that])
  show ?thesis
    unfolding marked_def
    using d ne i bucket_ok_more [OF ok a, of PA_PROT_WRITE] own si a
    by (auto simp: marked_c_def set_snap_maddr_def set_snap_laddr_def)
qed

text \<open>
  C6: The checkpoint gives the page of a bucket back while the bucket is in use.  The bucket is at an
  index \<^verbatim>\<open>i\<close> of its inner node that is not the node's own number \<^verbatim>\<open>q\<close>, no snapshot has been taken yet of
  the bucket at \<^verbatim>\<open>q\<close> or of the bucket itself, and the bucket at \<^verbatim>\<open>q\<close> is another one.  The step of an
  allocation that takes the snapshot of the bucket then stores a copy of it, in a new page, as the
  snapshot of the bucket at \<^verbatim>\<open>q\<close>, marks the bucket, and leaves the link of its own snapshot at the
  bucket itself.  So the checkpoint of the bucket frees the page of the bucket: it is no page in use
  any more, and the inner node still leads to it.
\<close>

theorem checkpoint_frees_second_bucket:
  assumes "mem U c pr (Suc k) r w" "bucket_at U c pr r sb b si n q" "\<not> w_copynswap r"
    and "l_maddr (node_current n ! q) = l_maddr (node_snapshot n ! q)" "i \<noteq> q"
    and "i < length (node_current n)" "i < length (node_snapshot n)" "l_maddr (node_current n ! i) = sb" "l_maddr (node_snapshot n ! i) = sb"
    and "bucket_ok U pr sb (sb_entries b)"
    and "\<And>l. l < SLAB_BUCKET_ENTRIES \<Longrightarrow> SLAB_ENTRY_IS_INIT (sb_entries b ! l) \<Longrightarrow> si \<notin> own_pages (sb_entries b ! l)"
    and "l_maddr (node_current n ! q) \<noteq> sb"
  shows "\<exists>w1 w2 n1 n2 a. mark_bucket sb w = Inr ((), w1) \<and>
    a \<notin> pa_in_use (w_pa w, w_os w) \<and> a \<in> pa_in_use (w_pa w1, w_os w1) \<and> rd_bucket a w1 = Inr (b, w1) \<and>
    rd_bucket sb w1 = Inr (b\<lparr>sb_has_snapshot := True\<rparr>, w1) \<and> rd_inner si w1 = Inr (n1, w1) \<and>
    node_current n1 = node_current n \<and> l_maddr (node_current n1 ! q) \<noteq> sb \<and> l_maddr (node_snapshot n1 ! q) = a \<and>
    l_maddr (node_snapshot n1 ! i) = sb \<and>
    cpoint_bucket type si i w1 = Inr ((), w2) \<and>
    rd_inner si w2 = Inr (n2, w2) \<and> l_maddr (node_current n2 ! i) = sb \<and>
    sb \<in> pa_in_use (w_pa w, w_os w) \<and> sb \<notin> pa_in_use (w_pa w2, w_os w2)"
proof -
  from endsD [OF mark_bucket_first [OF assms(2-4)] assms(1)] obtain w1 a l where
    w1: "mark_bucket sb w = Inr ((), w1)" and a: "a \<notin> U"
    and m1: "mem (insert a U) (marked_c c sb b si n q a l) (pr(a := PA_PROT_WRITE)) k r w1" by auto
  let ?b1 = "b\<lparr>sb_has_snapshot := True\<rparr>" and ?n1 = "set_snap_maddr q a (set_snap_laddr q l n)" and ?N = SLAB_BUCKET_ENTRIES
  let ?pr = "protect_upto type (sb_entries ?b1) ?N (pr(a := PA_PROT_WRITE))"
  have mk: "marked (insert a U) (marked_c c sb b si n q a l) (pr(a := PA_PROT_WRITE)) si ?n1 i sb ?b1 sb"
    using marked_after [OF assms(2) a assms(10,6-9,11), of l] assms(5) by simp
  note ap = marked_apart(1-4,7) [OF mk] and wr = marked_apart(5,6) [OF mk, of type]
  obtain c' w2 where m2: "mem (insert a U - gone_upto (sb_entries ?b1) ?N) c' ?pr (k + card (gone_upto (sb_entries ?b1) ?N)) r w2"
    and c': "c' si = PInner (set_snap_laddr i (l_laddr (node_current ?n1 ! i)) ?n1)" "holds_entries c' sb (done_upto (sb_entries ?b1) ?N)" "bucket_shape c' sb = Some (sb_id ?b1, length (sb_entries ?b1))"
    and run: "cpoint_bucket type si i w1 = thenM (freepage sb) (thenM (up_inner touch si (set_snap_maddr i sb))
       (up_bucket touch sb (\<lambda>b. b\<lparr>sb_has_snapshot := False\<rparr>))) w2"
    by (rule cpoint_bucket_half [OF m1 mk])
  let ?U = "insert a U - gone_upto (sb_entries ?b1) ?N - {sb}"
  let ?n2 = "set_snap_maddr i sb (set_snap_laddr i (l_laddr (node_current ?n1 ! i)) ?n1)"
  obtain w3 where w3: "freepage sb w2 = Inr ((), w3)" "mem ?U c' ?pr (Suc (k + card (gone_upto (sb_entries ?b1) ?N))) r w3" "shadow ?U (c' sb) sb w3"
    using freed_shadow [OF m2 ap(3) wr(2)] by blast
  have si: "si \<in> ?U" using ap(1,4) by simp
  obtain w4 where w4: "up_inner touch si (set_snap_maddr i sb) w3 = Inr ((), w4)"
    "mem ?U (c'(si := PInner ?n2)) ?pr (Suc (k + card (gone_upto (sb_entries ?b1) ?N))) r w4" "shadow ?U (c' sb) sb w4"
    using shadow_up_inner [OF w3(2,3) si c'(1) wr(1)] by blast
  obtain bk where "as_bucket (c' sb) = Some bk" using holds_flag [OF c'(2) ap(5)] by blast
  then obtain w5 where w5: "up_bucket touch sb (\<lambda>b. b\<lparr>sb_has_snapshot := False\<rparr>) w4 = Inr ((), w5)"
    "mem ?U (c'(si := PInner ?n2)) ?pr (Suc (k + card (gone_upto (sb_entries ?b1) ?N))) r w5"
    using shadow_up_bucket [OF w4(2,3)] by blast
  have "cpoint_bucket type si i w1 = Inr ((), w5)" using run w3(1) w4(1) w5(1) by (simp add: thenM_step)
  moreover have "rd_inner si w5 = Inr (?n2, w5)" by (rule rd_at(3) [OF w5(2) si]) simp
  moreover have "l_maddr (node_current ?n2 ! i) = sb" using assms(8) by (simp add: set_snap_maddr_def set_snap_laddr_def)
  moreover have "sb \<in> pa_in_use (w_pa w, w_os w)" "sb \<notin> pa_in_use (w_pa w5, w_os w5)"
    using assms(1,2) w5(2) by (auto simp: mem_def bucket_at_def)
  moreover have "a \<notin> pa_in_use (w_pa w, w_os w)" "a \<in> pa_in_use (w_pa w1, w_os w1)" using a assms(1) m1 by (auto simp: mem_def)
  moreover have at: "a \<noteq> si" "a \<noteq> sb" "si \<noteq> sb" "sb \<in> U" "si \<in> U" "q < length (node_snapshot n)"
    using a assms(2) by (auto simp: bucket_at_def)
  moreover have "rd_bucket a w1 = Inr (b, w1)" "rd_bucket sb w1 = Inr (?b1, w1)" "rd_inner si w1 = Inr (?n1, w1)"
    using at by (auto intro: rd_at [OF m1] simp: marked_c_def)
  moreover have "node_current ?n1 = node_current n" "l_maddr (node_snapshot ?n1 ! q) = a" "l_maddr (node_snapshot ?n1 ! i) = sb"
    using at(6) assms(5,9) by (simp_all add: set_snap_maddr_def set_snap_laddr_def)
  ultimately show ?thesis using w1 assms(12)
    by (intro exI [of _ w1] exI [of _ w5] exI [of _ ?n1] exI [of _ ?n2] exI [of _ a]) simp
qed

section \<open>Examples\<close>

text \<open>The example container with a second bucket, in the page that held the pointers.\<close>

definition twin_bucket :: slab_bucket where "twin_bucket = zero_bucket\<lparr>sb_id := 1\<rparr>"

definition twin_node :: slab_node where
  "twin_node = (demo_node 2)\<lparr>node_index := 2, node_current := (node_current (demo_node 2))[1 := demo_link 6],
     node_snapshot := (node_snapshot (demo_node 2))[1 := demo_link 6]\<rparr>"

definition plain_bucket :: slab_bucket where
  "plain_bucket = demo_bucket\<lparr>sb_entries := (sb_entries demo_bucket)[0 := plain_entry]\<rparr>"

definition twin_contents :: "nat \<Rightarrow> page" where
  "twin_contents = demo_contents(2 := PBucket plain_bucket, 5 := PInner twin_node, 6 := PBucket twin_bucket)"

definition twin_world :: world where
  "twin_world = demo_world\<lparr>w_os := demo_os\<lparr>os_pages := twin_contents\<rparr>\<rparr>"

definition twin_c :: "nat \<Rightarrow> page" where "twin_c a = the (page_at (w_os twin_world) a)"

lemma twin_mem: "mem demo_used twin_c demo_pr (Suc 0) (rest twin_world) twin_world"
  unfolding twin_c_def [abs_def] by (rule shown_mem) (simp_all add: twin_world_def demo_world_def)

lemma twin_at: "i < 8 \<Longrightarrow> twin_c (demo_page i) = twin_contents i"
  unfolding twin_c_def by (rule shown_at) (simp_all add: twin_world_def)

lemma twin_rest: "rest twin_world = rest demo_world" "\<not> w_copynswap (rest twin_world)"
  by (simp_all add: rest_def twin_world_def demo_world_def)

lemma twin_dir: "dir_is demo_used twin_c (rest twin_world) (demo_page 1) demo_dir"
proof -
  have w: "w_cont (rest demo_world) = demo_page 0" by (simp add: rest_def demo_world_def)
  show ?thesis unfolding twin_rest
    by (rule dir_is_same [OF demo_dir_is])
      (use w twin_at [of 0] twin_at [of 1] demo_views(1) [of 0] in \<open>simp_all add: twin_contents_def demo_contents_def\<close>)
qed

lemma twin_bucket_at:
  assumes "twin_contents j = PBucket b" "j < 7" "sb_id b < SLAB_INNER_ENTRIES" "j \<noteq> 3"
  shows "bucket_at demo_used twin_c demo_pr (rest twin_world) (demo_page j) b (demo_page 5) twin_node 0"
proof -
  have "as_outer (twin_c (demo_page 4)) = Some (demo_node 5)" using twin_at [of 4] by (simp add: twin_contents_def demo_contents_def)
  then have "\<exists>sd d so no. dir_is demo_used twin_c (rest twin_world) sd d \<and> 0 < length (sd_current d) \<and>
      l_maddr (sd_current d ! 0) = so \<and> so \<in> demo_used \<and> as_outer (twin_c so) = Some no \<and>
      0 < length (node_current no) \<and> l_maddr (node_current no ! 0) = demo_page 5"
    by (intro exI [of _ "demo_page 1"] exI [of _ demo_dir] exI [of _ "demo_page 4"] exI [of _ "demo_node 5"])
      (use twin_dir in \<open>simp add: demo_dir_def demo_node_def zero_inner_def zero_dir_def demo_link_def entries_numbers\<close>)
  moreover have "twin_c (demo_page j) = PBucket b" "twin_c (demo_page 5) = PInner twin_node"
    using twin_at [of j] twin_at [of 5] assms(1,2) by (simp_all add: twin_contents_def)
  moreover have "writable (demo_pr (demo_page j))" "writable (demo_pr (demo_page 5))"
    unfolding demo_views(2) using assms(4) by (simp_all add: writable_def PA_PROT_WRITE_def)
  moreover have "0 < length (node_current twin_node)" "0 < length (node_snapshot twin_node)"
    by (simp_all add: twin_node_def demo_node_def zero_inner_def entries_numbers)
  ultimately show ?thesis using assms(2,3) by (simp add: bucket_at_def)
qed

lemma twin_links:
  "node_current twin_node ! 0 = demo_link 2" "node_snapshot twin_node ! 0 = demo_link 2"
  "node_current twin_node ! 1 = demo_link 6" "node_snapshot twin_node ! 1 = demo_link 6"
  "length (node_current twin_node) = SLAB_INNER_ENTRIES" "length (node_snapshot twin_node) = SLAB_INNER_ENTRIES"
  by (simp_all add: twin_node_def demo_node_def zero_inner_def entries_numbers)

theorem second_allocation_hides_bucket_witness:
  "\<exists>w1 w2. mark_bucket (demo_page 2) twin_world = Inr ((), w1) \<and> mark_bucket (demo_page 2) w1 = Inr ((), w2) \<and>
     cpoint_bucket CPOINT_REGULAR (demo_page 5) 0 w2 = Inr ((), w2)"
proof -
  have "twin_contents 2 = PBucket plain_bucket" "sb_id plain_bucket < SLAB_INNER_ENTRIES"
    by (simp_all add: twin_contents_def plain_bucket_def demo_bucket_def zero_bucket_def entries_numbers)
  then have b: "bucket_at demo_used twin_c demo_pr (rest twin_world) (demo_page 2) plain_bucket (demo_page 5) twin_node 0"
    by (intro twin_bucket_at) simp_all
  have "l_maddr (demo_link 2) = demo_page 2" by (simp add: demo_link_def)
  then show ?thesis
    using second_allocation_hides_bucket [OF twin_mem b twin_rest(2), of CPOINT_REGULAR] unfolding twin_links by blast
qed

theorem checkpoint_frees_second_bucket_witness:
  "\<exists>w1 w2 n1 a. mark_bucket (demo_page 6) twin_world = Inr ((), w1) \<and>
     rd_inner (demo_page 5) w1 = Inr (n1, w1) \<and> l_maddr (node_snapshot n1 ! 0) = a \<and> rd_bucket a w1 = Inr (twin_bucket, w1) \<and>
     cpoint_bucket CPOINT_REGULAR (demo_page 5) 1 w1 = Inr ((), w2) \<and> demo_page 6 \<notin> pa_in_use (w_pa w2, w_os w2)"
proof -
  have t: "twin_contents 6 = PBucket twin_bucket" "sb_id twin_bucket < SLAB_INNER_ENTRIES"
    "sb_entries twin_bucket = replicate SLAB_BUCKET_ENTRIES zero_entry"
    by (simp_all add: twin_contents_def twin_bucket_def zero_bucket_def entries_numbers)
  from t(1,2) have b: "bucket_at demo_used twin_c demo_pr (rest twin_world) (demo_page 6) twin_bucket (demo_page 5) twin_node 0"
    by (intro twin_bucket_at) simp_all
  have z: "\<not> SLAB_ENTRY_IS_INIT zero_entry" by (simp add: SLAB_ENTRY_IS_INIT_def zero_entry_def zero_data_def)
  have "writable (demo_pr (demo_page 6))" unfolding demo_views(2) by (simp add: writable_def PA_PROT_WRITE_def)
  then have ok: "bucket_ok demo_used demo_pr (demo_page 6) (sb_entries twin_bucket)"
    using z mem_page(3) [OF twin_mem, of "demo_page 6"] by (simp add: bucket_ok_def t(3))
  have l: "l_maddr (demo_link 2) = l_maddr (demo_link 2)" "l_maddr (demo_link 6) = demo_page 6" "1 < SLAB_INNER_ENTRIES"
    "l_maddr (demo_link 2) \<noteq> demo_page 6"
    by (simp_all add: demo_link_def entries_numbers)
  show ?thesis
    using checkpoint_frees_second_bucket [OF twin_mem b twin_rest(2), of 1 CPOINT_REGULAR] ok l z t(3)
    unfolding twin_links by auto
qed

theorem bucket_checkpoint_commits_witness:
  "\<exists>w1 w2 s. mark_bucket (demo_page 2) twin_world = Inr ((), w1) \<and> s \<in> pa_in_use (w_pa w1, w_os w1) - demo_used \<and>
     cpoint_bucket CPOINT_REGULAR (demo_page 5) 0 w1 = Inr ((), w2) \<and> s \<notin> pa_in_use (w_pa w2, w_os w2)"
proof -
  have t: "twin_contents 2 = PBucket plain_bucket" "sb_id plain_bucket < SLAB_INNER_ENTRIES"
    by (simp_all add: twin_contents_def plain_bucket_def demo_bucket_def zero_bucket_def entries_numbers)
  then have b: "bucket_at demo_used twin_c demo_pr (rest twin_world) (demo_page 2) plain_bucket (demo_page 5) twin_node 0"
    by (intro twin_bucket_at) simp_all
  have l: "l_maddr (node_current twin_node ! 0) = demo_page 2" "l_maddr (node_snapshot twin_node ! 0) = demo_page 2"
    "0 < length (node_current twin_node)" "0 < length (node_snapshot twin_node)"
    unfolding twin_links by (simp_all add: demo_link_def entries_numbers)
  have es: "sb_entries plain_bucket = (replicate SLAB_BUCKET_ENTRIES zero_entry)[0 := plain_entry]"
    by (simp add: plain_bucket_def demo_bucket_def)
  have z: "\<not> SLAB_ENTRY_IS_INIT zero_entry" by (simp add: SLAB_ENTRY_IS_INIT_def zero_entry_def zero_data_def)
  have init: "i = 0" if "i < SLAB_BUCKET_ENTRIES" "SLAB_ENTRY_IS_INIT (sb_entries plain_bucket ! i)" for i
    using that z by (cases "i = 0") (simp_all add: es)
  have e0: "sb_entries plain_bucket ! 0 = plain_entry" by (simp add: es entries_numbers)
  have own: "own_pages plain_entry = {demo_page 3}" "freed_ptrs plain_entry = {}"
    by (simp_all add: own_pages_def plain_entry_def demo_entry_def freed_ptrs_def zero_pref_def)
  have "writable (demo_pr (demo_page 2))" unfolding demo_views(2) by (simp add: writable_def PA_PROT_WRITE_def)
  then have ok: "bucket_ok demo_used demo_pr (demo_page 2) (sb_entries plain_bucket)"
    unfolding bucket_ok_def
  proof (intro conjI allI impI, goal_cases)
    case (5 i)
    then show ?case using init [OF 5(2,3)] e0 own by auto
  next
    case (6 i)
    then show ?case using init [OF 6(2,3)] e0 own by auto
  next
    case (7 i)
    then show ?case using init [OF 7(2,3)] e0 own by auto
  next
    case (8 i j)
    then show ?case using init [OF 8(2,3)] init [of j] by blast
  qed (use mem_page(3) [OF twin_mem, of "demo_page 2"] in \<open>simp_all add: es\<close>)
  from endsD [OF mark_bucket_first [OF b twin_rest(2)] twin_mem] l obtain w1 a k where
    w1: "mark_bucket (demo_page 2) twin_world = Inr ((), w1)" and a: "a \<notin> demo_used"
    and m1: "mem (insert a demo_used) (marked_c twin_c (demo_page 2) plain_bucket (demo_page 5) twin_node 0 a k)
      (demo_pr(a := PA_PROT_WRITE)) 0 (rest twin_world) w1" by auto
  have "demo_page 5 \<notin> own_pages (sb_entries plain_bucket ! i)" if "i < SLAB_BUCKET_ENTRIES" "SLAB_ENTRY_IS_INIT (sb_entries plain_bucket ! i)" for i
    using init [OF that] e0 own by simp
  note mk = marked_after [OF b a ok l(3,4,1,2) this, of k]
  have "a \<noteq> demo_page 2" using a by auto
  then have "(if (0::nat) = 0 then a else demo_page 2) \<noteq> demo_page 2" by simp
  from bucket_checkpoint_commits [OF m1 mk this] obtain w2 where
    w2: "cpoint_bucket CPOINT_REGULAR (demo_page 5) 0 w1 = Inr ((), w2)"
      "pa_in_use (w_pa w2, w_os w2) = insert a demo_used - given_back (plain_bucket\<lparr>sb_has_snapshot := True\<rparr>) a"
    by auto
  moreover have "a \<in> pa_in_use (w_pa w1, w_os w1)" using m1 by (simp add: mem_def)
  ultimately show ?thesis using w1 a by (auto simp: given_back_def)
qed

end
