(* ===== verification/Closure.thy ===== *)
theory Closure
  imports Slabptr
begin

text \<open>
  The closure of \<^verbatim>\<open>src/src/closure.c\<close>: before a checkpoint the registered volatile allocations that
  persistent pointers reach are moved to the container, their pointers become persistent
  pointers, and the pointers from volatile memory to the moved objects are set to the new addresses.
  The two hash tables hold the registered pointers and allocations; a tree of the allocations is
  built for each checkpoint.
\<close>

definition PTR_REBASE :: "nat \<Rightarrow> nat \<Rightarrow> nat \<Rightarrow> nat" where
  "PTR_REBASE base ploc newbase = newbase + (ploc - base)"

section \<open>Registration\<close>

text \<open>The tables are NULL before \<^verbatim>\<open>closure_init\<close>.\<close>

definition the_table :: "htable option \<Rightarrow> htable M" where
  "the_table t = (case t of Some ht \<Rightarrow> retM ht | None \<Rightarrow> errM (Segv 0))"

definition pointerat_aux :: "nat \<Rightarrow> unit M" where
  "pointerat_aux ptr_loc =
     bindM (getM ht_pointerat) (\<lambda>t. bindM (the_table t) (\<lambda>ht.
     bindM (liftM (htable_insert ht (word_of_nat ptr_loc) (word_of_nat ptr_loc))) (\<lambda>(ht, _).
     modM (\<lambda>w. w\<lparr>ht_pointerat := Some ht\<rparr>))))"

definition mallocat :: "nat \<Rightarrow> nat \<Rightarrow> unit M" where
  "mallocat addr sz =
     thenM (if addr \<noteq> 0 then retM () else errM (Assertion ''registering a failed memory allocation''))
     (bindM (getM ht_mallocat) (\<lambda>t. bindM (the_table t) (\<lambda>ht.
     bindM (liftM (htable_insert ht (word_of_nat addr) (word_of_nat sz))) (\<lambda>(ht, _).
     modM (\<lambda>w. w\<lparr>ht_mallocat := Some ht\<rparr>)))))"

definition freeat :: "nat \<Rightarrow> unit M" where
  "freeat addr = errM (Handle_error ''not implemented yet'')"

definition closure_init :: "unit M" where
  "closure_init =
     bindM (liftM htable_init) (\<lambda>m. thenM (modM (\<lambda>w. w\<lparr>ht_mallocat := Some m\<rparr>))
     (bindM (liftM htable_init) (\<lambda>p. thenM (modM (\<lambda>w. w\<lparr>ht_pointerat := Some p\<rparr>))
     (modM (\<lambda>w. w\<lparr>pptr_vec := VECTOR_INIT\<rparr>)))))"

section \<open>The tree of allocations\<close>

text \<open>The first argument is the key of a search, whose size is not read.\<close>

definition mallocat_entry_cpm :: "nat \<Rightarrow> nat \<times> nat \<Rightarrow> int" where
  "mallocat_entry_cpm a = (\<lambda>(b, bsize). if a < b then - 1 else if a \<ge> b + bsize then 1 else 0)"

definition me_cmp :: "world \<Rightarrow> nat \<Rightarrow> nat \<Rightarrow> nat \<Rightarrow> int" where
  "me_cmp w key a b = mallocat_entry_cpm (if a = 0 then key else me_addr (w_me w a)) (me_addr (w_me w b), me_size (w_me w b))"

definition mallocat_entry_alloc :: "nat \<Rightarrow> nat \<Rightarrow> nat M" where
  "mallocat_entry_alloc addr sz =
     bindM (getM w_next_me) (\<lambda>e. thenM (modM (\<lambda>w. w\<lparr>w_next_me := e + 1,
       w_me := (w_me w)(e := \<lparr>me_addr = addr, me_size = sz, me_paddr = 0, me_ptrs = VECTOR_INIT\<rparr>)\<rparr>)) (retM e))"

definition init_mallocat_tree_callback :: "u64 \<Rightarrow> u64 \<Rightarrow> unit M" where
  "init_mallocat_tree_callback key val =
     bindM (mallocat_entry_alloc (unat key) (unat val)) (\<lambda>e. bindM (getM (\<lambda>w. w)) (\<lambda>w.
     bindM (liftM (SPLAY_INSERT (me_cmp w 0) (mallocat_tree w) e)) (\<lambda>(t, _).
     modM (\<lambda>w. w\<lparr>mallocat_tree := t\<rparr>))))"

text \<open>A callback of the tables and vectors acts on the state of the process.\<close>

definition on_world :: "unit M \<Rightarrow> world \<Rightarrow> world res" where
  "on_world m w = bindR (m w) (\<lambda>(_, w). Inr w)"

definition of_world :: "(world \<Rightarrow> world res) \<Rightarrow> unit M" where
  "of_world f w = bindR (f w) (\<lambda>w. Inr ((), w))"

definition build_mallocat_tree :: "unit M" where
  "build_mallocat_tree =
     bindM (getM ht_mallocat) (\<lambda>t. bindM (the_table t) (\<lambda>ht.
     of_world (htable_foreach (\<lambda>k v. on_world (init_mallocat_tree_callback k v)) ht)))"

text \<open>The loop of \<^verbatim>\<open>empty_mallocat_tree\<close> runs while the tree is empty and removes its root, NULL.\<close>

definition empty_mallocat_tree :: "unit M" where
  "empty_mallocat_tree = bindM (getM mallocat_tree) (\<lambda>t. if t = SNil then errM Diverges else retM ())"

definition find_mallocat :: "nat \<Rightarrow> nat option M" where
  "find_mallocat addr =
     bindM (getM (\<lambda>w. w)) (\<lambda>w. bindM (liftM (SPLAY_FIND (me_cmp w addr) (mallocat_tree w) 0)) (\<lambda>(t, e).
     thenM (modM (\<lambda>w. w\<lparr>mallocat_tree := t\<rparr>)) (retM e)))"

section \<open>Classification of the registered pointers\<close>

definition append_pptr :: "nat \<Rightarrow> unit M" where
  "append_pptr p = bindM (getM pptr_vec) (\<lambda>v. bindM (liftM (VECTOR_APPEND v p)) (\<lambda>v. modM (\<lambda>w. w\<lparr>pptr_vec := v\<rparr>)))"

definition up_me :: "nat \<Rightarrow> (mallocat_entry \<Rightarrow> mallocat_entry) \<Rightarrow> unit M" where
  "up_me e f = modM (\<lambda>w. w\<lparr>w_me := (w_me w)(e := f (w_me w e))\<rparr>)"

definition classify_pointers_callback :: "u64 \<Rightarrow> u64 \<Rightarrow> bool M" where
  "classify_pointers_callback key val =
     (let ptr_loc = unat key in
      bindM (find_mallocat ptr_loc) (\<lambda>found. case found of
        Some e \<Rightarrow> bindM (getM (\<lambda>w. me_ptrs (w_me w e))) (\<lambda>v.
          bindM (liftM (VECTOR_APPEND v ptr_loc)) (\<lambda>v. thenM (up_me e (\<lambda>m. m\<lparr>me_ptrs := v\<rparr>)) (retM False)))
      | None \<Rightarrow> bindM (slab_find ptr_loc) (\<lambda>se. case se of
          Some se \<Rightarrow> thenM (append_pptr ptr_loc) (retM True)
        | None \<Rightarrow> retM False)))"

definition classify_pointers :: "unit M" where
  "classify_pointers =
     bindM (getM ht_pointerat) (\<lambda>t. bindM (the_table t) (\<lambda>ht. bindM (getM (\<lambda>w. w)) (\<lambda>w.
     bindM (liftM (htable_filter (\<lambda>k v. classify_pointers_callback k v) ht w)) (\<lambda>(ht, w1).
     modM (\<lambda>_. w1\<lparr>ht_pointerat := Some ht\<rparr>)))))"

section \<open>Moving volatile allocations\<close>

fun memcpy_bytes :: "nat \<Rightarrow> nat \<Rightarrow> nat \<Rightarrow> unit M" where
  "memcpy_bytes dest src 0 = retM ()"
| "memcpy_bytes dest src (Suc n) =
     bindM (rd_byte src) (\<lambda>b. thenM (wr_byte dest b) (memcpy_bytes (dest + 1) (src + 1) n))"

definition forget_pointer :: "nat \<Rightarrow> unit M" where
  "forget_pointer ptr =
     bindM (getM ht_pointerat) (\<lambda>t. bindM (the_table t) (\<lambda>ht.
     modM (\<lambda>w. w\<lparr>ht_pointerat := Some (fst (htable_remove ht (word_of_nat ptr)))\<rparr>)))"

text \<open>The size is passed as an unsigned int; the pointers of the allocation become persistent ones.\<close>

definition move_allocation :: "nat \<Rightarrow> unit M" where
  "move_allocation e =
     bindM (getM (\<lambda>w. w_me w e)) (\<lambda>m.
     bindM (slab_palloc (word_of_nat (me_size m))) (\<lambda>p.
     thenM (up_me e (\<lambda>m. m\<lparr>me_paddr := p\<rparr>))
     (thenM (memcpy_bytes p (me_addr m) (me_size m))
     (thenM (flush_memsegment p (me_size m))
     (of_world (VECTOR_FOREACH (\<lambda>ptr i. on_world
        (thenM (append_pptr (PTR_REBASE (me_addr m) ptr p)) (forget_pointer ptr))) (me_ptrs m)))))))"

definition persist_valloc :: "nat \<Rightarrow> unit M" where
  "persist_valloc ptr_loc =
     bindM (rd_ptr ptr_loc) (\<lambda>target. bindM (find_mallocat target) (\<lambda>found. case found of
       Some e \<Rightarrow>
         bindM (getM (\<lambda>w. me_paddr (w_me w e))) (\<lambda>paddr.
         thenM (if paddr = 0 then move_allocation e else retM ())
         (bindM (rd_ptr ptr_loc) (\<lambda>v. bindM (getM (\<lambda>w. w_me w e)) (\<lambda>m.
          wr_ptr ptr_loc (PTR_REBASE (me_addr m) v (me_paddr m))))))
     | None \<Rightarrow> retM ()))"

definition move_volatile_allocations_callback :: "nat \<Rightarrow> unit M" where
  "move_volatile_allocations_callback se_loc =
     bindM (rd_se se_loc) (\<lambda>e. eachM (\<lambda>i.
       bindM (rd_se se_loc) (\<lambda>e. bindM (rd_ptrs (p_maddr (ptr_cur e))) (\<lambda>sp. bindM (cellM sp i) (\<lambda>p.
       persist_valloc (d_maddr (se_cur e) + unat (ploc_offset p))))))
       [0..<unat (p_idx (ptr_cur e))])"

text \<open>
  The loops over a vector that the body extends: over the persistent pointers, and over the
  entries copied in this transaction.
\<close>

partial_function (option) vector_loop ::
  "(world \<Rightarrow> nat vector res) \<Rightarrow> (nat \<Rightarrow> unit M) \<Rightarrow> nat \<Rightarrow> world \<Rightarrow> (unit \<times> world) res option" where
  "vector_loop vec body i w =
     (case vec w of
        Inl e \<Rightarrow> Some (Inl e)
      | Inr v \<Rightarrow>
          if i < VECTOR_SIZE v
          then (case bindR (VECTOR_AT v i) (\<lambda>x. body x w) of
                  Inl e \<Rightarrow> Some (Inl e)
                | Inr (_, w) \<Rightarrow> vector_loop vec body (i + 1) w)
          else Some (Inr ((), w)))"

definition loopM :: "(world \<Rightarrow> (unit \<times> world) res option) \<Rightarrow> unit M" where
  "loopM l w = (case l w of Some r \<Rightarrow> r | None \<Rightarrow> Inl Diverges)"

definition dirty_vector :: "nat \<Rightarrow> world \<Rightarrow> nat vector res" where
  "dirty_vector sd w = bindR (rd_dir sd w) (\<lambda>(d, _). Inr (sd_vector d))"

definition slab_foreach_snapshot_entry :: "(nat \<Rightarrow> unit M) \<Rightarrow> unit M" where
  "slab_foreach_snapshot_entry f = bindM current_sd (\<lambda>sd. loopM (vector_loop (dirty_vector sd) f 0))"

definition move_volatile_allocations :: "unit M" where
  "move_volatile_allocations =
     thenM (loopM (vector_loop (\<lambda>w. Inr (pptr_vec w)) (\<lambda>p. thenM (persist_valloc p) (slab_insert_pointer p)) 0))
     (thenM (modM (\<lambda>w. w\<lparr>pptr_vec := VECTOR_FREE (pptr_vec w)\<rparr>))
     (slab_foreach_snapshot_entry move_volatile_allocations_callback))"

section \<open>Back references\<close>

definition fix_back_references_callback :: "u64 \<Rightarrow> u64 \<Rightarrow> unit M" where
  "fix_back_references_callback key val =
     (let ptr_loc = unat key in
      bindM (rd_ptr ptr_loc) (\<lambda>target.
      if target = 0 then retM ()
      else bindM (find_mallocat target) (\<lambda>found. case found of
        Some e \<Rightarrow> bindM (getM (\<lambda>w. w_me w e)) (\<lambda>m. wr_ptr ptr_loc (PTR_REBASE (me_addr m) target (me_paddr m)))
      | None \<Rightarrow> retM ())))"

definition fix_back_references :: "unit M" where
  "fix_back_references =
     bindM (getM ht_pointerat) (\<lambda>t. bindM (the_table t) (\<lambda>ht.
     of_world (htable_foreach (\<lambda>k v. on_world (fix_back_references_callback k v)) ht)))"

definition store_peristent_pointers :: "unit M" where
  "store_peristent_pointers =
     bindM (getM pptr_vec) (\<lambda>v. of_world (VECTOR_FOREACH (\<lambda>p i. on_world (slab_insert_pointer p)) v))"

text \<open>The steps of the closure, in the order of \<^verbatim>\<open>compute_closure\<close> of \<^verbatim>\<open>src/src/cont.c\<close>.\<close>

definition compute_closure :: "unit M" where
  "compute_closure =
     thenM build_mallocat_tree (thenM classify_pointers (thenM move_volatile_allocations fix_back_references))"

end
