(* ===== verification/Container.thy ===== *)
theory Container
  imports Checkpoint Restore Closure
begin

text \<open>
  The container of \<^verbatim>\<open>src/src/cont.c\<close>, the interface of the library: create, allocate, checkpoint,
  restore, and the root object.  There is one container (\<^verbatim>\<open>CONTAINER_CNT\<close>), with the identifier 0;
  \<^verbatim>\<open>w_cont\<close> is its cell of the array \<^verbatim>\<open>CONTAINERS\<close>.
\<close>

definition CFLAG_CPOINT_IN_PROGRESS :: u8 where "CFLAG_CPOINT_IN_PROGRESS = 1"

text \<open>The cells of the array are tried in order.\<close>

definition container_getid :: "nat list \<Rightarrow> int" where
  "container_getid containers =
     (case filter (\<lambda>i. containers ! i = 0) [0..<CONTAINER_CNT] of [] \<Rightarrow> - 1 | i # _ \<Rightarrow> int i)"

text \<open>The constructor that runs when the library is loaded.\<close>

definition library_init :: "env \<Rightarrow> world \<Rightarrow> world" where
  "library_init env w =
     (let w = (case PMLIB_CLOSURE env of
                 Some val \<Rightarrow> if val = 0 then w\<lparr>w_do_closure := False\<rparr> else w
               | None \<Rightarrow> w\<lparr>w_do_closure := True\<rparr>)
      in slab_init env w)"

definition pa_init :: "env \<Rightarrow> unit M" where
  "pa_init env w = bindR (page_allocator_init env (w_os w)) (\<lambda>(pa, os). Inr ((), w\<lparr>w_pa := pa, w_os := os\<rparr>))"

definition set_current :: "nat \<Rightarrow> nat \<Rightarrow> container \<Rightarrow> container" where
  "set_current a l k = k\<lparr>c_current_slab := \<lparr>l_maddr = a, l_laddr = l\<rparr>\<rparr>"

definition container_init :: "env \<Rightarrow> nat M" where
  "container_init env =
     bindM (getM (\<lambda>w. container_getid [w_cont w])) (\<lambda>cid.
     thenM (pa_init env)
     (bindM (getpage PA_PROT_WRITE) (\<lambda>(cont, cont_laddr).
     if cont_laddr \<noteq> CONTAINER_LIMA_ADDRESS
     then errM (Handle_error ''failed to get the expected laddr for container'')
     else if cid < 0 then errM (Undefined ''index outside the array'')
     else thenM closure_init
       (thenM (modM (\<lambda>w. w\<lparr>w_cont := cont\<rparr>))
       (thenM (up_cont touch cont (\<lambda>k. k\<lparr>c_id := nat cid, c_pg_allocator := True\<rparr>))
       (bindM slab_dir_init (\<lambda>(sd, laddr).
       thenM (up_cont touch cont (set_current sd laddr))
       (thenM (up_cont touch cont (\<lambda>k. k\<lparr>c_snapshot_slab := c_current_slab k\<rparr>))
       (retM cont)))))))))"

definition container_palloc :: "u32 \<Rightarrow> nat M" where
  "container_palloc sz = slab_palloc sz"

definition container_compute_closure :: "unit M" where
  "container_compute_closure = bindM (getM w_do_closure) (\<lambda>b. if b then compute_closure else retM ())"

definition the_container :: "nat M" where
  "the_container = bindM (getM w_cont) (\<lambda>c. if c = 0 then errM (Segv 0) else retM c)"

definition cpoint_dir :: "nat \<Rightarrow> unit M" where
  "cpoint_dir c =
     bindM (rd_cont c) (\<lambda>k.
     if l_maddr (c_current_slab k) \<noteq> l_maddr (c_snapshot_slab k)
     then thenM (atomic_set (up_cont touch c (\<lambda>k. k\<lparr>c_snapshot_slab := (c_snapshot_slab k)\<lparr>l_laddr := l_laddr (c_current_slab k)\<rparr>\<rparr>)))
          (thenM (freepage (l_maddr (c_snapshot_slab k)))
          (up_cont touch c (\<lambda>k. k\<lparr>c_snapshot_slab := (c_snapshot_slab k)\<lparr>l_maddr := l_maddr (c_current_slab k)\<rparr>\<rparr>)))
     else retM ())"

definition container_cpoint_aux :: "cpoint_type \<Rightarrow> unit M" where
  "container_cpoint_aux type =
     bindM the_container (\<lambda>c.
     thenM (atomic_set (up_cont touch c (\<lambda>k. k\<lparr>c_flags := set_flag (c_flags k) CFLAG_CPOINT_IN_PROGRESS\<rparr>)))
     (thenM container_compute_closure
     (thenM (slab_cpoint type)
     (thenM (cpoint_dir c)
     (atomic_set (up_cont touch c (\<lambda>k. k\<lparr>c_flags := clear_flag (c_flags k) CFLAG_CPOINT_IN_PROGRESS\<rparr>)))))))"

definition container_cpoint :: "unit M" where
  "container_cpoint =
     thenM (container_cpoint_aux CPOINT_REGULAR)
     (modM (\<lambda>w. w\<lparr>w_os := stat STATS_RESET_TRANSACTION_COUNTERS (w_os w)\<rparr>))"

definition restore_incomplete :: "nat \<Rightarrow> unit M" where
  "restore_incomplete cont =
     bindM (rd_cont cont) (\<lambda>k.
     bindM (slab_map (l_laddr (c_current_slab k)) CPOINT_INCOMPLETE) (\<lambda>a.
     thenM (up_cont touch cont (\<lambda>k. k\<lparr>c_current_slab := (c_current_slab k)\<lparr>l_maddr := a\<rparr>\<rparr>))
     (thenM
       (if l_laddr (c_current_slab k) \<noteq> l_laddr (c_snapshot_slab k)
        then bindM (slab_map (l_laddr (c_snapshot_slab k)) CPOINT_INCOMPLETE) (\<lambda>b.
             up_cont touch cont (\<lambda>k. k\<lparr>c_snapshot_slab := (c_snapshot_slab k)\<lparr>l_maddr := b\<rparr>\<rparr>))
        else retM ())
     (thenM (container_cpoint_aux CPOINT_RESTORE)
     (atomic_set (up_cont touch cont (\<lambda>k. k\<lparr>c_flags := clear_flag (c_flags k) CFLAG_CPOINT_IN_PROGRESS\<rparr>)))))))"

definition restore_complete :: "nat \<Rightarrow> unit M" where
  "restore_complete cont =
     bindM (rd_cont cont) (\<lambda>k.
     bindM (slab_map (l_laddr (c_snapshot_slab k)) CPOINT_COMPLETE) (\<lambda>a.
     up_cont touch cont (\<lambda>k. k\<lparr>
       c_current_slab := \<lparr>l_maddr = a, l_laddr = l_laddr (c_snapshot_slab k)\<rparr>,
       c_snapshot_slab := (c_snapshot_slab k)\<lparr>l_maddr := a\<rparr>\<rparr>)))"

definition container_restore :: "env \<Rightarrow> nat M" where
  "container_restore env =
     thenM (pa_init env)
     (bindM (mappage CONTAINER_LIMA_ADDRESS) (\<lambda>cont.
     thenM (modM (\<lambda>w. w\<lparr>w_cont := cont\<rparr>))
     (thenM (up_cont touch cont (\<lambda>k. k\<lparr>c_pg_allocator := True\<rparr>))
     (thenM closure_init
     (bindM (rd_cont cont) (\<lambda>k.
     thenM (if test_flag (c_flags k) CFLAG_CPOINT_IN_PROGRESS then restore_incomplete cont else restore_complete cont)
     (thenM slab_fixptrs
     (thenM (slab_mprotect_datapgs PA_PROT_READ)
     (retM cont)))))))))"

definition container_setroot :: "u64 \<Rightarrow> nat M" where "container_setroot maddr = slab_setroot maddr"
definition container_getroot :: "nat M" where "container_getroot = slab_getroot"

end
