(* ===== verification/Transact.thy ===== *)
theory Transact
  imports Bucket Container
begin

text \<open>
  Transactions through the interface of the container: an allocation, a store to the new object and
  the checkpoint.  The allocation takes the snapshot of its bucket and marks a slot in the bitmap,
  a store to the protected data page that copies it; the checkpoint walks over the directory, finds
  the one bucket with the flag, commits its entries, and gives both copies back.  So such
  transactions go on with two free pages as long as a slot of the data page stays free, with the
  closure off and the bucket at the index the code takes for it.
\<close>

section \<open>The walk to the one bucket with the flag\<close>

lemma eachM_one:
  assumes "j < m" "f j w = Inr ((), w')"
    and "\<And>i. i < j \<Longrightarrow> f i w = Inr ((), w)" "\<And>i. j < i \<Longrightarrow> i < m \<Longrightarrow> f i w' = Inr ((), w')"
  shows "eachM f [0..<m] w = Inr ((), w')"
proof -
  have "[0..<m] = [0..<j] @ j # [Suc j..<m]"
    using upt_add_eq_append [of 0 j "m - j"] upt_conv_Cons [OF assms(1)] assms(1) by simp
  moreover have "eachM f [0..<j] w = Inr ((), w)" using assms(3) by (intro eachM_same) simp
  moreover have "eachM f [Suc j..<m] w' = Inr ((), w')" using assms(4) by (intro eachM_same) simp
  ultimately show ?thesis using assms(2) by (simp add: eachM_append bindM_step thenM_step)
qed

text \<open>
  The path of the indices \<^verbatim>\<open>i\<close>, \<^verbatim>\<open>j\<close> and \<^verbatim>\<open>q\<close> from the directory to the bucket \<^verbatim>\<open>sb\<close>, off which no
  bucket has the flag; the nodes have no snapshots of their own.
\<close>

definition inner_but :: "nat set \<Rightarrow> (nat \<Rightarrow> page) \<Rightarrow> nat \<Rightarrow> nat \<Rightarrow> nat \<Rightarrow> bool" where
  "inner_but V c si q sb \<longleftrightarrow> si \<in> V \<and> (\<exists>n. c si = PInner n \<and> node_index n \<le> length (node_current n) \<and>
     q < node_index n \<and> l_maddr (node_current n ! q) = sb \<and>
     (\<forall>i<node_index n. i \<noteq> q \<longrightarrow> l_maddr (node_current n ! i) \<in> V \<and>
        (\<exists>b. c (l_maddr (node_current n ! i)) = PBucket b \<and> \<not> sb_has_snapshot b)))"

definition outer_but :: "nat set \<Rightarrow> (nat \<Rightarrow> page) \<Rightarrow> nat \<Rightarrow> nat \<Rightarrow> nat \<Rightarrow> bool" where
  "outer_but V c so j si \<longleftrightarrow> so \<in> V \<and> (\<exists>n. c so = POuter n \<and> node_index n \<le> length (node_current n) \<and>
     node_index n \<le> length (node_snapshot n) \<and> j < node_index n \<and> l_maddr (node_current n ! j) = si \<and>
     (\<forall>i<node_index n. l_maddr (node_snapshot n ! i) = l_maddr (node_current n ! i) \<and>
        (i \<noteq> j \<longrightarrow> clean_inner V c (l_maddr (node_current n ! i)))))"

definition dir_but :: "nat set \<Rightarrow> (nat \<Rightarrow> page) \<Rightarrow> slab_dir \<Rightarrow> nat \<Rightarrow> nat \<Rightarrow> bool" where
  "dir_but V c d j so \<longleftrightarrow> sd_index d \<le> length (sd_current d) \<and> sd_index d \<le> length (sd_snapshot d) \<and>
     j < sd_index d \<and> l_maddr (sd_current d ! j) = so \<and>
     (\<forall>i < sd_index d. l_maddr (sd_snapshot d ! i) = l_maddr (sd_current d ! i) \<and>
        (i \<noteq> j \<longrightarrow> clean_outer V c (l_maddr (sd_current d ! i))))"

text \<open>The indices are those that the number \<^verbatim>\<open>q\<close> of the inner node gives; \<^verbatim>\<open>q\<close> is also the bucket's index in it.\<close>

definition lone_path :: "nat set \<Rightarrow> (nat \<Rightarrow> page) \<Rightarrow> slab_dir \<Rightarrow> nat \<Rightarrow> nat \<Rightarrow> nat \<Rightarrow> bool" where
  "lone_path V c d q si sb \<longleftrightarrow>
     (\<exists>so. dir_but V c d (q div SLAB_OUTER_ENTRIES mod SLAB_DIR_ENTRIES) so \<and>
        outer_but V c so (q mod SLAB_OUTER_ENTRIES) si \<and> inner_but V c si q sb)"

text \<open>Pages that are the same for this walk: nodes with the same links, buckets without the flag.\<close>

definition same_node :: "page \<Rightarrow> page \<Rightarrow> bool" where
  "same_node p p' \<longleftrightarrow> (\<forall>n. p = POuter n \<longrightarrow> p' = p) \<and>
     (\<forall>n. p = PInner n \<longrightarrow> (\<exists>n'. p' = PInner n' \<and> node_index n' = node_index n \<and> node_current n' = node_current n)) \<and>
     (\<forall>b. p = PBucket b \<and> \<not> sb_has_snapshot b \<longrightarrow> (\<exists>b'. p' = PBucket b' \<and> \<not> sb_has_snapshot b'))"

lemma same_node_refl [simp]: "same_node p p"
  by (simp add: same_node_def)

lemma clean_same:
  assumes V: "V \<subseteq> V'" "\<And>a. a \<in> V \<Longrightarrow> same_node (c a) (c' a)"
  shows "clean_inner V c si \<Longrightarrow> clean_inner V' c' si"
    and "clean_outer V c so \<Longrightarrow> clean_outer V' c' so"
proof -
  show inner: "clean_inner V' c' si" if "clean_inner V c si" for si
  proof -
    from that obtain n where n: "si \<in> V" "c si = PInner n" "node_index n \<le> length (node_current n)"
      "\<And>i. i < node_index n \<Longrightarrow> l_maddr (node_current n ! i) \<in> V \<and>
        (\<exists>b. c (l_maddr (node_current n ! i)) = PBucket b \<and> \<not> sb_has_snapshot b)"
      unfolding clean_inner_def by blast
    obtain n' where n': "c' si = PInner n'" "node_index n' = node_index n" "node_current n' = node_current n"
      using V(2) [OF n(1)] n(2) by (auto simp: same_node_def)
    have "l_maddr (node_current n ! i) \<in> V' \<and> (\<exists>b. c' (l_maddr (node_current n ! i)) = PBucket b \<and> \<not> sb_has_snapshot b)"
      if i: "i < node_index n" for i
    proof -
      from n(4) [OF i] obtain b where b: "l_maddr (node_current n ! i) \<in> V" "c (l_maddr (node_current n ! i)) = PBucket b" "\<not> sb_has_snapshot b"
        by blast
      from V(2) [OF b(1)] b V(1) show ?thesis by (auto simp: same_node_def)
    qed
    then show ?thesis using n(1,3) n' V(1) unfolding clean_inner_def by (intro conjI exI [of _ n']) auto
  qed
  show "clean_outer V' c' so" if "clean_outer V c so" for so
  proof -
    from that obtain n where n: "so \<in> V" "c so = POuter n" by (auto simp: clean_outer_def)
    then have "c' so = POuter n" using V(2) [OF n(1)] by (auto simp: same_node_def)
    then show ?thesis using that n V(1) inner by (auto simp: clean_outer_def)
  qed
qed

lemma lone_same:
  assumes V: "V \<subseteq> V'" "\<And>a. a \<in> V \<Longrightarrow> same_node (c a) (c' a)" and p: "lone_path V c d q si sb"
    and d: "sd_index d' = sd_index d" "sd_current d' = sd_current d" "sd_snapshot d' = sd_snapshot d"
  shows "lone_path V' c' d' q si sb"
proof -
  obtain so where so: "dir_but V c d (q div SLAB_OUTER_ENTRIES mod SLAB_DIR_ENTRIES) so"
    "outer_but V c so (q mod SLAB_OUTER_ENTRIES) si" "inner_but V c si q sb" using p by (auto simp: lone_path_def)
  note cl = clean_same [where V' = V' and c' = c', OF V]
  have "dir_but V' c' d' (q div SLAB_OUTER_ENTRIES mod SLAB_DIR_ENTRIES) so"
    using so(1) cl(2) d by (simp add: dir_but_def)
  moreover have "outer_but V' c' so (q mod SLAB_OUTER_ENTRIES) si"
  proof -
    from so(2) obtain n where n: "so \<in> V" "c so = POuter n" by (auto simp: outer_but_def)
    then have "c' so = POuter n" using V(2) [OF n(1)] by (auto simp: same_node_def)
    then show ?thesis using so(2) n V(1) cl(1) by (auto simp: outer_but_def)
  qed
  moreover have "inner_but V' c' si q sb"
  proof -
    from so(3) obtain n where n: "si \<in> V" "c si = PInner n" "node_index n \<le> length (node_current n)" "q < node_index n"
      "l_maddr (node_current n ! q) = sb"
      "\<And>i. i < node_index n \<Longrightarrow> i \<noteq> q \<Longrightarrow> l_maddr (node_current n ! i) \<in> V \<and>
        (\<exists>b. c (l_maddr (node_current n ! i)) = PBucket b \<and> \<not> sb_has_snapshot b)"
      unfolding inner_but_def by blast
    obtain n' where n': "c' si = PInner n'" "node_index n' = node_index n" "node_current n' = node_current n"
      using V(2) [OF n(1)] n(2) by (auto simp: same_node_def)
    have "l_maddr (node_current n ! i) \<in> V' \<and> (\<exists>b. c' (l_maddr (node_current n ! i)) = PBucket b \<and> \<not> sb_has_snapshot b)"
      if i: "i < node_index n" "i \<noteq> q" for i
    proof -
      from n(6) [OF i] obtain b where b: "l_maddr (node_current n ! i) \<in> V" "c (l_maddr (node_current n ! i)) = PBucket b" "\<not> sb_has_snapshot b"
        by blast
      from V(2) [OF b(1)] b V(1) show ?thesis by (auto simp: same_node_def)
    qed
    then show ?thesis using n n' V(1) unfolding inner_but_def by (intro conjI exI [of _ n']) auto
  qed
  ultimately show ?thesis by (auto simp: lone_path_def)
qed
lemma bucket_skip:
  assumes "mem U c pr k r w" "rd_inner si w = Inr (n, w)" "i < length (node_current n)"
    and "l_maddr (node_current n ! i) \<in> U" "c (l_maddr (node_current n ! i)) = PBucket b" "\<not> sb_has_snapshot b"
  shows "cpoint_bucket type si i w = Inr ((), w)"
proof -
  have "rd_bucket (l_maddr (node_current n ! i)) w = Inr (b, w)" by (rule rd_at(4) [OF assms(1,4)]) (simp add: assms(5))
  then show ?thesis using assms(2,3,6) by (simp add: cpoint_bucket_def bindM_step cellM_def Let_def)
qed

lemma inner_link_same:
  assumes "rd_outer so w = Inr (n, w)" "rd_outer so w' = Inr (n, w')" "i < length (node_current n)" "i < length (node_snapshot n)"
    and "l_maddr (node_snapshot n ! i) = l_maddr (node_current n ! i)"
    and "slab_inner_cpoint type (l_maddr (node_current n ! i)) w = Inr ((), w')"
  shows "cpoint_inner type so i w = Inr ((), w')"
  using assms by (simp add: cpoint_inner_def bindM_step thenM_step cellM_def)

lemma outer_link_same:
  assumes "rd_dir sd w = Inr (d, w)" "rd_dir sd w' = Inr (d, w')" "i < length (sd_current d)" "i < length (sd_snapshot d)"
    and "l_maddr (sd_snapshot d ! i) = l_maddr (sd_current d ! i)"
    and "slab_outer_cpoint type (l_maddr (sd_current d ! i)) w = Inr ((), w')"
  shows "cpoint_outer type sd i w = Inr ((), w')"
  using assms by (simp add: cpoint_outer_def bindM_step thenM_step cellM_def)

lemma walk_finds_bucket:
  assumes m: "mem U c pr k r w" "mem V c' pr' k' r w'" and V: "V \<subseteq> U" "\<And>a. a \<in> V \<Longrightarrow> same_node (c a) (c' a)"
    and run: "cpoint_bucket type si q w = Inr ((), w')" and p: "lone_path V c d q si sb"
    and sd: "sd \<in> V" "c sd = PDir d" "c' sd = PDir d"
  shows "slab_dir_cpoint type sd w = Inr ((), w')"
proof -
  let ?i = "q div SLAB_OUTER_ENTRIES mod SLAB_DIR_ENTRIES" and ?j = "q mod SLAB_OUTER_ENTRIES"
  obtain so where so: "dir_but V c d ?i so" "outer_but V c so ?j si" "inner_but V c si q sb" using p by (auto simp: lone_path_def)
  note sameU = clean_same [where V' = U and c' = c, OF V(1)] and sameV = clean_same [where V' = V and c' = c', OF _ V(2)]
  have inner: "slab_inner_cpoint type si w = Inr ((), w')"
  proof -
    from so(3) obtain n where n: "si \<in> V" "c si = PInner n" "node_index n \<le> length (node_current n)" "q < node_index n"
      "\<And>i. i < node_index n \<Longrightarrow> i \<noteq> q \<Longrightarrow> l_maddr (node_current n ! i) \<in> V \<and>
        (\<exists>b. c (l_maddr (node_current n ! i)) = PBucket b \<and> \<not> sb_has_snapshot b)"
      unfolding inner_but_def by blast
    obtain n' where n': "c' si = PInner n'" "node_index n' = node_index n" "node_current n' = node_current n"
      using V(2) [OF n(1)] n(2) by (auto simp: same_node_def)
    have rd: "rd_inner si w = Inr (n, w)" "rd_inner si w' = Inr (n', w')"
      using rd_at(3) [OF m(1), of si n] rd_at(3) [OF m(2), of si n'] n(1,2) n' V(1) by auto
    have skip: "cpoint_bucket type si i w = Inr ((), w)" "cpoint_bucket type si i w' = Inr ((), w')"
      if i: "i < node_index n" "i \<noteq> q" for i
    proof -
      from n(5) [OF i] obtain b where b: "l_maddr (node_current n ! i) \<in> V" "c (l_maddr (node_current n ! i)) = PBucket b" "\<not> sb_has_snapshot b"
        by blast
      then obtain b' where b': "c' (l_maddr (node_current n ! i)) = PBucket b'" "\<not> sb_has_snapshot b'"
        using V(2) [OF b(1)] by (auto simp: same_node_def)
      have "l_maddr (node_current n ! i) \<in> U" using b(1) V(1) by auto
      then show "cpoint_bucket type si i w = Inr ((), w)" using bucket_skip [OF m(1) rd(1), of i b] i(1) n(3) b by simp
      show "cpoint_bucket type si i w' = Inr ((), w')" using bucket_skip [OF m(2) rd(2), of i b'] i(1) n(3) n' b(1) b' by simp
    qed
    have "eachM (cpoint_bucket type si) [0..<node_index n] w = Inr ((), w')"
      using skip n(4) by (intro eachM_one [of q _ "cpoint_bucket type si", OF _ run]) auto
    then show ?thesis using rd(1) by (simp add: slab_inner_cpoint_def bindM_step)
  qed
  have outer: "slab_outer_cpoint type so w = Inr ((), w')"
  proof -
    from so(2) obtain n where n: "so \<in> V" "c so = POuter n" "node_index n \<le> length (node_current n)" "node_index n \<le> length (node_snapshot n)"
      "?j < node_index n" "l_maddr (node_current n ! ?j) = si"
      "\<And>i. i < node_index n \<Longrightarrow> l_maddr (node_snapshot n ! i) = l_maddr (node_current n ! i)"
      "\<And>i. i < node_index n \<Longrightarrow> i \<noteq> ?j \<Longrightarrow> clean_inner V c (l_maddr (node_current n ! i))"
      unfolding outer_but_def by blast
    have "c' so = POuter n" using V(2) [OF n(1)] n(2) by (auto simp: same_node_def)
    then have rd: "rd_outer so w = Inr (n, w)" "rd_outer so w' = Inr (n, w')"
      using rd_at(2) [OF m(1), of so n] rd_at(2) [OF m(2), of so n] n(1,2) V(1) by auto
    have skip: "cpoint_inner type so i w = Inr ((), w)" "cpoint_inner type so i w' = Inr ((), w')"
      if i: "i < node_index n" "i \<noteq> ?j" for i
    proof -
      have l: "i < length (node_current n)" "i < length (node_snapshot n)" using i(1) n(3,4) by simp_all
      show "cpoint_inner type so i w = Inr ((), w)"
        by (rule inner_link_same [OF rd(1,1) l n(7) [OF i(1)]]) (rule clean_cpoint(1) [OF m(1) sameU(1) [OF _ n(8) [OF i]]], simp)
      show "cpoint_inner type so i w' = Inr ((), w')"
        by (rule inner_link_same [OF rd(2,2) l n(7) [OF i(1)]]) (rule clean_cpoint(1) [OF m(2) sameV(1) [OF _ _ n(8) [OF i]]], simp_all)
    qed
    have "?j < length (node_current n)" "?j < length (node_snapshot n)" using n(3-5) by simp_all
    note here = inner_link_same [of so w n w' ?j type, OF rd this n(7) [OF n(5)], unfolded n(6), OF inner]
    have "eachM (cpoint_inner type so) [0..<node_index n] w = Inr ((), w')"
      using skip n(5) by (intro eachM_one [of ?j _ "cpoint_inner type so", OF _ here]) auto
    then show ?thesis using rd(1) by (simp add: slab_outer_cpoint_def bindM_step)
  qed
  from so(1) have n: "sd_index d \<le> length (sd_current d)" "sd_index d \<le> length (sd_snapshot d)"
    "?i < sd_index d" "l_maddr (sd_current d ! ?i) = so"
    "\<And>i. i < sd_index d \<Longrightarrow> l_maddr (sd_snapshot d ! i) = l_maddr (sd_current d ! i)"
    "\<And>i. i < sd_index d \<Longrightarrow> i \<noteq> ?i \<Longrightarrow> clean_outer V c (l_maddr (sd_current d ! i))"
    unfolding dir_but_def by blast+
  have rd: "rd_dir sd w = Inr (d, w)" "rd_dir sd w' = Inr (d, w')"
    using rd_at(1) [OF m(1), of sd d] rd_at(1) [OF m(2), of sd d] sd V(1) by auto
  have skip: "cpoint_outer type sd i w = Inr ((), w)" "cpoint_outer type sd i w' = Inr ((), w')"
    if i: "i < sd_index d" "i \<noteq> ?i" for i
  proof -
    have l: "i < length (sd_current d)" "i < length (sd_snapshot d)" using i(1) n(1,2) by simp_all
    show "cpoint_outer type sd i w = Inr ((), w)"
      by (rule outer_link_same [OF rd(1,1) l n(5) [OF i(1)]]) (rule clean_cpoint(2) [OF m(1) sameU(2) [OF _ n(6) [OF i]]], simp)
    show "cpoint_outer type sd i w' = Inr ((), w')"
      by (rule outer_link_same [OF rd(2,2) l n(5) [OF i(1)]]) (rule clean_cpoint(2) [OF m(2) sameV(2) [OF _ _ n(6) [OF i]]], simp_all)
  qed
  have "?i < length (sd_current d)" "?i < length (sd_snapshot d)" using n(1-3) by simp_all
  note here = outer_link_same [of sd w d w' ?i type, OF rd this n(5) [OF n(3)], unfolded n(4), OF outer]
  have "eachM (cpoint_outer type sd) [0..<sd_index d] w = Inr ((), w')"
    using skip n(3) by (intro eachM_one [of ?i _ "cpoint_outer type sd", OF _ here]) auto
  then show ?thesis using rd(1) by (simp add: slab_dir_cpoint_def bindM_step)
qed
section \<open>The state between two transactions\<close>

text \<open>
  The initialised entries of the bucket between two transactions: both versions are the same page, it
  is their own and protected.
\<close>

definition settled :: "nat set \<Rightarrow> (nat \<Rightarrow> nat) \<Rightarrow> nat \<Rightarrow> nat \<Rightarrow> slab_entry list \<Rightarrow> bool" where
  "settled U pr sb si es \<longleftrightarrow> length es = SLAB_BUCKET_ENTRIES \<and>
     (\<forall>i<SLAB_BUCKET_ENTRIES. SLAB_ENTRY_IS_INIT (es ! i) \<longrightarrow>
        d_maddr (se_cur (es ! i)) \<in> U - {sb, si} \<and> d_maddr (se_snap (es ! i)) = d_maddr (se_cur (es ! i)) \<and>
        freed_ptrs (es ! i) = {} \<and> pr (d_maddr (se_cur (es ! i))) = PA_PROT_READ \<and>
        (\<forall>j<SLAB_BUCKET_ENTRIES. j \<noteq> i \<and> SLAB_ENTRY_IS_INIT (es ! j) \<longrightarrow>
           d_maddr (se_cur (es ! j)) \<noteq> d_maddr (se_cur (es ! i))))"

lemma settledD:
  assumes "settled U pr sb si es" "i < SLAB_BUCKET_ENTRIES" "SLAB_ENTRY_IS_INIT (es ! i)"
  shows "d_maddr (se_cur (es ! i)) \<in> U - {sb, si}" "d_maddr (se_snap (es ! i)) = d_maddr (se_cur (es ! i))"
    "freed_ptrs (es ! i) = {}" "pr (d_maddr (se_cur (es ! i))) = PA_PROT_READ"
    and "j < SLAB_BUCKET_ENTRIES \<Longrightarrow> j \<noteq> i \<Longrightarrow> SLAB_ENTRY_IS_INIT (es ! j) \<Longrightarrow> d_maddr (se_cur (es ! j)) \<noteq> d_maddr (se_cur (es ! i))"
  using assms unfolding settled_def by blast+

text \<open>The entries after the data page of the entry \<^verbatim>\<open>l\<close> has been copied to \<^verbatim>\<open>t\<close>.\<close>

definition copied_at :: "slab_entry list \<Rightarrow> nat \<Rightarrow> nat \<Rightarrow> nat \<Rightarrow> slab_entry list" where
  "copied_at es l t m = es[l := (es ! l)\<lparr>se_snap := (se_snap (es ! l))\<lparr>d_maddr := t, d_laddr := m\<rparr>\<rparr>]"

lemma copied_at_nth:
  assumes "length es = SLAB_BUCKET_ENTRIES" "i < SLAB_BUCKET_ENTRIES"
  shows "SLAB_ENTRY_IS_INIT (copied_at es l t m ! i) = SLAB_ENTRY_IS_INIT (es ! i)"
    "se_cur (copied_at es l t m ! i) = se_cur (es ! i)" "freed_ptrs (copied_at es l t m ! i) = freed_ptrs (es ! i)"
    "d_maddr (se_snap (copied_at es l t m ! i)) = (if i = l then t else d_maddr (se_snap (es ! i)))"
  using assms by (cases "i = l"; simp add: copied_at_def SLAB_ENTRY_IS_INIT_def freed_ptrs_def)+

lemma copied_own:
  assumes "settled U pr sb si es" "i < SLAB_BUCKET_ENTRIES" "SLAB_ENTRY_IS_INIT (es ! i)"
  shows "own_pages (copied_at es l t m ! i) = insert (d_maddr (se_cur (es ! i))) (if i = l then {t} else {})"
    "freed (copied_at es l t m ! i) = (if i = l then {t} - {d_maddr (se_cur (es ! i))} else {})"
proof -
  have "length es = SLAB_BUCKET_ENTRIES" using assms(1) by (simp add: settled_def)
  note n = copied_at_nth [OF this assms(2)] and s = settledD [OF assms]
  show "own_pages (copied_at es l t m ! i) = insert (d_maddr (se_cur (es ! i))) (if i = l then {t} else {})"
    unfolding own_pages_def n s by auto
  show "freed (copied_at es l t m ! i) = (if i = l then {t} - {d_maddr (se_cur (es ! i))} else {})"
    unfolding freed_def freed_data_def n s by auto
qed

lemma copied_bucket_ok:
  assumes s: "settled U pr sb si es" and l: "l < SLAB_BUCKET_ENTRIES" "SLAB_ENTRY_IS_INIT (es ! l)"
    and V: "U \<subseteq> V" "sb \<in> U" "t \<in> V" "t \<notin> U" "PAGE_SIZE dvd sb" "writable (pr' sb)"
  shows "bucket_ok V pr' sb (copied_at es l t m)"
    and "gone_upto (copied_at es l t m) SLAB_BUCKET_ENTRIES = {t}"
    and "x \<notin> U \<Longrightarrow> x \<noteq> t \<Longrightarrow> si \<in> U \<Longrightarrow> i < SLAB_BUCKET_ENTRIES \<Longrightarrow> SLAB_ENTRY_IS_INIT (copied_at es l t m ! i) \<Longrightarrow>
      {si, x} \<inter> own_pages (copied_at es l t m ! i) = {}"
proof -
  have len: "length es = SLAB_BUCKET_ENTRIES" using s by (simp add: settled_def)
  note n = copied_at_nth [OF len] and own = copied_own [OF s]
  have init: "SLAB_ENTRY_IS_INIT (es ! i)" if "i < SLAB_BUCKET_ENTRIES" "SLAB_ENTRY_IS_INIT (copied_at es l t m ! i)" for i
    using that n(1) by simp
  note d = settledD [OF s]
  have cur: "d_maddr (se_cur (es ! i)) \<in> U - {sb, si, t}" if "i < SLAB_BUCKET_ENTRIES" "SLAB_ENTRY_IS_INIT (es ! i)" for i
    using d(1) [OF that] V(4) by auto
  show "bucket_ok V pr' sb (copied_at es l t m)"
    unfolding bucket_ok_def
  proof (intro conjI allI impI, goal_cases)
    case (5 i)
    have "sb \<noteq> t" using V(2,4) by auto
    then show ?case using own(1) [OF 5(1) init [OF 5], of l t m] cur [OF 5(1) init [OF 5]] V(1,3) by auto
  next
    case (6 i)
    then show ?case using n(3) [OF 6(1)] d(3) [OF 6(1) init [OF 6]] by simp
  next
    case (7 i)
    then show ?case using n(3) [OF 7(1)] d(3) [OF 7(1) init [OF 7]] by simp
  next
    case (8 i j)
    then have "SLAB_ENTRY_IS_INIT (es ! i)" "SLAB_ENTRY_IS_INIT (es ! j)" using init by auto
    then show ?case
      using own(1) [of i l t m] own(1) [of j l t m] 8 cur [of i] cur [of j] d(5) [of i j] by auto
  qed (use V len in \<open>auto simp: copied_at_def\<close>)
  have "freed (copied_at es l t m ! i) = (if i = l then {t} else {})"
    if "i < SLAB_BUCKET_ENTRIES" "SLAB_ENTRY_IS_INIT (copied_at es l t m ! i)" for i
    using own(2) [OF that(1) init [OF that], of l t m] cur [OF that(1) init [OF that]] by auto
  moreover have "SLAB_ENTRY_IS_INIT (copied_at es l t m ! l)" using n(1) [OF l(1)] l(2) by simp
  ultimately show "gone_upto (copied_at es l t m) SLAB_BUCKET_ENTRIES = {t}"
    using l(1) unfolding gone_upto_def by auto
  show "{si, x} \<inter> own_pages (copied_at es l t m ! i) = {}"
    if "x \<notin> U" "x \<noteq> t" "si \<in> U" "i < SLAB_BUCKET_ENTRIES" "SLAB_ENTRY_IS_INIT (copied_at es l t m ! i)"
  proof -
    have "si \<noteq> t" using that(3) V(4) by auto
    then show ?thesis using own(1) [OF that(4) init [OF that(4,5)], of l t m] cur [OF that(4) init [OF that(4,5)]] that(1-3) by auto
  qed
qed

text \<open>The checkpoint settles the entries again.\<close>

lemma done_settled:
  assumes s: "settled U pr sb si es"
  shows "settled U pr sb si (done_upto (copied_at es l t m) SLAB_BUCKET_ENTRIES)"
proof -
  let ?es = "copied_at es l t m"
  have len: "length es = SLAB_BUCKET_ENTRIES" "length ?es = SLAB_BUCKET_ENTRIES" using s by (simp_all add: settled_def copied_at_def)
  note n = copied_at_nth [OF len(1)]
  have c: "SLAB_ENTRY_IS_INIT (committed e) = SLAB_ENTRY_IS_INIT e" "se_cur (committed e) = se_cur e"
    "d_maddr (se_snap (committed e)) = d_maddr (se_cur e)" "freed_ptrs (committed e) = {}" for e
    by (auto simp: committed_def SLAB_ENTRY_IS_INIT_def commit_ptrs_def freed_ptrs_def)
  have i: "SLAB_ENTRY_IS_INIT (done_upto ?es SLAB_BUCKET_ENTRIES ! i) = SLAB_ENTRY_IS_INIT (es ! i)"
    "se_cur (done_upto ?es SLAB_BUCKET_ENTRIES ! i) = se_cur (es ! i)"
    "SLAB_ENTRY_IS_INIT (es ! i) \<Longrightarrow> d_maddr (se_snap (done_upto ?es SLAB_BUCKET_ENTRIES ! i)) = d_maddr (se_cur (es ! i))"
    "SLAB_ENTRY_IS_INIT (es ! i) \<Longrightarrow> freed_ptrs (done_upto ?es SLAB_BUCKET_ENTRIES ! i) = {}" if "i < SLAB_BUCKET_ENTRIES" for i
    using that len n [OF that, of l t m] c by (simp_all add: done_nth)
  show ?thesis
    unfolding settled_def
    by (intro conjI allI impI, goal_cases) (use i settledD [OF s] len in \<open>simp_all add: done_upto_def\<close>)
qed
text \<open>
  The container between two transactions: the bucket \<^verbatim>\<open>b\<close> at the index \<^verbatim>\<open>q\<close> of the inner node \<^verbatim>\<open>n\<close> has the
  number \<^verbatim>\<open>q\<close> of this node; the data page of its entry \<^verbatim>\<open>l\<close> holds \<^verbatim>\<open>x\<close>; nothing has been copied; on
  the way from the directory to the bucket no other bucket has the flag.
\<close>

definition quiet_at ::
  "nat set \<Rightarrow> (nat \<Rightarrow> page) \<Rightarrow> (nat \<Rightarrow> nat) \<Rightarrow> world \<Rightarrow> nat \<Rightarrow> slab_dir \<Rightarrow> nat \<Rightarrow> slab_node \<Rightarrow> nat \<Rightarrow> slab_bucket \<Rightarrow>
   nat \<Rightarrow> nat \<Rightarrow> (nat \<Rightarrow> u8) \<Rightarrow> bool" where
  "quiet_at U c pr r sd d si n sb b q l x \<longleftrightarrow>
     data_page U c pr r sd d (se_addr sb l) (sb_entries b ! l) \<and> vec_list (sd_vector d) = [] \<and> l < SLAB_BUCKET_ENTRIES \<and>
     p_maddr (ptr_cur (sb_entries b ! l)) = 0 \<and> sb \<in> U \<and> c sb = PBucket b \<and> settled U pr sb si (sb_entries b) \<and>
     q = sb_id b div SLAB_INNER_ENTRIES \<and> c si = PInner n \<and> writable (pr si) \<and> q < length (node_snapshot n) \<and>
     l_maddr (node_snapshot n ! q) = sb \<and> lone_path U (c(sb := PBucket (b\<lparr>sb_has_snapshot := True\<rparr>))) d q si sb \<and>
     writable (pr (w_cont r)) \<and> (\<exists>k. c (w_cont r) = PCont k \<and> l_maddr (c_snapshot_slab k) = sd) \<and>
     as_data (c (d_maddr (se_cur (sb_entries b ! l)))) = Some x"

lemma quietD:
  assumes "quiet_at U c pr r sd d si n sb b q l x"
  shows "data_page U c pr r sd d (se_addr sb l) (sb_entries b ! l)" "dir_is U c r sd d" "indexed U c d" "vec_wf (sd_vector d)"
    "writable (pr sd)" "entry_at c (se_addr sb l) = Some (sb_entries b ! l)" "writable (pr (page_base (se_addr sb l)))"
    "0 < se_size (sb_entries b ! l)" "SLAB_ENTRY_IS_INIT (sb_entries b ! l)" "si \<in> U" "sd \<in> U" "sb \<in> U" "w_cont r \<in> U"
    "d_maddr (se_cur (sb_entries b ! l)) \<in> U" "pr (d_maddr (se_cur (sb_entries b ! l))) = PA_PROT_READ"
    "length (sb_entries b) = SLAB_BUCKET_ENTRIES" "q < length (node_current n)" "l_maddr (node_current n ! q) = sb"
proof -
  have p: "data_page U c pr r sd d (se_addr sb l) (sb_entries b ! l)" "settled U pr sb si (sb_entries b)" "l < SLAB_BUCKET_ENTRIES"
    "inner_but U (c(sb := PBucket (b\<lparr>sb_has_snapshot := True\<rparr>))) si q sb" "c si = PInner n" "sb \<in> U" "c sb = PBucket b"
    using assms by (auto simp: quiet_at_def lone_path_def)
  then show "data_page U c pr r sd d (se_addr sb l) (sb_entries b ! l)" "dir_is U c r sd d" "indexed U c d" "vec_wf (sd_vector d)"
    "writable (pr sd)" "entry_at c (se_addr sb l) = Some (sb_entries b ! l)" "writable (pr (page_base (se_addr sb l)))"
    "0 < se_size (sb_entries b ! l)" "sb \<in> U" by (simp_all add: data_page_def)
  then show i: "SLAB_ENTRY_IS_INIT (sb_entries b ! l)" and "sd \<in> U" "w_cont r \<in> U" by (simp_all add: SLAB_ENTRY_IS_INIT_def dir_is_def)
  show "d_maddr (se_cur (sb_entries b ! l)) \<in> U" "pr (d_maddr (se_cur (sb_entries b ! l))) = PA_PROT_READ"
    using settledD [OF p(2,3) i] by auto
  show "length (sb_entries b) = SLAB_BUCKET_ENTRIES" using p(2) by (simp add: settled_def)
  have "si \<noteq> sb" using p(5,7) by auto
  then show "si \<in> U" "q < length (node_current n)" "l_maddr (node_current n ! q) = sb"
    using p(4,5) by (auto simp: inner_but_def)
qed

lemma quiet_apart:
  assumes Q: "quiet_at U c pr r sd d si n sb b q l x" and m: "0 \<notin> U"
  shows "c sd = PDir d" "d_maddr (se_cur (sb_entries b ! l)) \<notin> {sd, si, sb, w_cont r}" "sd \<notin> {si, sb, w_cont r}" "si \<noteq> sb"
    "w_cont r \<notin> {si, sb}"
proof -
  show sd: "c sd = PDir d" by (rule data_page_kinds(1) [OF quietD(1) [OF Q] m])
  have k: "c sb = PBucket b" "c si = PInner n" "\<exists>k. c (w_cont r) = PCont k" "as_data (c (d_maddr (se_cur (sb_entries b ! l)))) = Some x"
    using Q by (auto simp: quiet_at_def)
  show "d_maddr (se_cur (sb_entries b ! l)) \<notin> {sd, si, sb, w_cont r}" "sd \<notin> {si, sb, w_cont r}" "si \<noteq> sb" "w_cont r \<notin> {si, sb}"
    using k sd by auto
qed

lemma quiet_bucket_at:
  assumes Q: "quiet_at U c pr r sd d si n sb b q l x" and m: "0 \<notin> U" and dvd: "PAGE_SIZE dvd sb"
  shows "bucket_at U c pr r sb b si n q"
proof -
  let ?c = "c(sb := PBucket (b\<lparr>sb_has_snapshot := True\<rparr>))" and ?i = "q div SLAB_OUTER_ENTRIES mod SLAB_DIR_ENTRIES"
  have k: "c sb = PBucket b" "c si = PInner n" "q = sb_id b div SLAB_INNER_ENTRIES" "writable (pr si)" "q < length (node_snapshot n)"
    "l < SLAB_BUCKET_ENTRIES" "lone_path U ?c d q si sb" using Q by (auto simp: quiet_at_def)
  from k(7) obtain so where so: "dir_but U ?c d ?i so" "outer_but U ?c so (q mod SLAB_OUTER_ENTRIES) si" by (auto simp: lone_path_def)
  from so(2) obtain no where no: "so \<in> U" "?c so = POuter no" "q mod SLAB_OUTER_ENTRIES < length (node_current no)"
    "l_maddr (node_current no ! (q mod SLAB_OUTER_ENTRIES)) = si" by (auto simp: outer_but_def)
  have "c so = POuter no" using no(2) by (auto split: if_splits)
  moreover have "?i < length (sd_current d)" "l_maddr (sd_current d ! ?i) = so" using so(1) by (auto simp: dir_but_def)
  moreover have "writable (pr sb)" using quietD(7) [OF Q] se_addr_page(1) [OF dvd k(6)] by simp
  ultimately show ?thesis
    using k quietD(2,10,12,17) [OF Q] no unfolding bucket_at_def
    by (intro conjI exI [of _ sd] exI [of _ d] exI [of _ so] exI [of _ no]) simp_all
qed
section \<open>The allocation\<close>

lemma entry_at_flag:
  "c sb = PBucket b \<Longrightarrow> c' sb = PBucket (b\<lparr>sb_has_snapshot := f\<rparr>) \<Longrightarrow> page_base x = sb \<Longrightarrow> entry_at c' x = entry_at c x"
  by (simp add: entry_at_def)

text \<open>The flag and the snapshot of the bucket leave the index and the data pages, whatever the copy holds.\<close>

lemma marked_data_page:
  assumes Q: "quiet_at U c pr r sd d si n sb b q l x" and m: "0 \<notin> U" "PAGE_SIZE dvd sb" and s: "s \<notin> U"
  shows "data_page (insert s U) ((marked_c c sb b si n q s ls)(s := p)) (pr(s := PA_PROT_WRITE)) r sd d (se_addr sb l) (sb_entries b ! l)"
proof -
  let ?c = "(marked_c c sb b si n q s ls)(s := p)" and ?t = "sd_maddr_root d"
  note D = quietD [OF Q] and ap = quiet_apart [OF Q m(1)]
  have k: "c sb = PBucket b" "c si = PInner n" "l < SLAB_BUCKET_ENTRIES" using Q by (auto simp: quiet_at_def)
  have same: "?c a = c a" if "a \<noteq> s" "a \<noteq> si" "a \<noteq> sb" for a using that by (simp add: marked_c_def)
  have sb: "?c sb = PBucket (b\<lparr>sb_has_snapshot := True\<rparr>)" using D(12) s by (auto simp: marked_c_def)
  have entry: "entry_at ?c a = Some f \<and> page_base a \<noteq> s" if a: "page_base a \<in> U" "entry_at c a = Some f" "0 < d_maddr (se_cur f)" for a f
  proof -
    have ne: "page_base a \<noteq> s" "page_base a \<noteq> si" using a(1) s bucket_page [OF a(2,3)] k(2) by auto
    have "entry_at ?c a = entry_at c a"
      using same [of "page_base a"] ne entry_at_flag [of c sb b ?c, OF k(1) sb] by (cases "page_base a = sb") (simp_all add: entry_at_def)
    then show ?thesis using a(2) ne by simp
  qed
  have idx: "\<exists>f. entry_at c a = Some f \<and> d_maddr (se_cur f) \<in> U" "page_base a \<in> U" if "a \<in> set (inorder ?t)" for a
    using D(3) that by (auto simp: indexed_def)
  have pos: "0 < a" if "a \<in> U" for a using that m(1) by (cases "a = 0") auto
  have kept: "\<exists>f'. entry_at ?c a = Some f' \<and> d_maddr (se_cur f') = d_maddr (se_cur f)"
    if a: "a \<in> set (inorder ?t)" "entry_at c a = Some f" for a f
  proof -
    have "d_maddr (se_cur f) \<in> U" using idx(1) [OF a(1)] a(2) by auto
    then show ?thesis using entry [OF idx(2) [OF a(1)] a(2) pos] by simp
  qed
  have "indexed (insert s U) c d" using D(3) by (auto simp: indexed_def)
  then have "indexed (insert s U) ?c d" by (rule indexed_same) (rule refl, rule kept)
  moreover have "entry_at ?c (se_addr sb l) = Some (sb_entries b ! l)" "page_base (se_addr sb l) \<noteq> s"
    using entry [of "se_addr sb l"] se_addr_page(1) [OF m(2) k(3)] D(6,12) pos [OF D(14)] by auto
  moreover have "dir_is (insert s U) ?c r sd d"
    by (rule dir_is_other [OF D(2)]) (use ap(3,5) D(11,13) s in \<open>auto simp: marked_c_def\<close>)
  moreover have "sd \<noteq> s" using D(11) s by auto
  ultimately show ?thesis using D(1) unfolding data_page_def by simp
qed
lemma entries_of_bucket:
  assumes "c sb = PBucket b" "PAGE_SIZE dvd sb" "i < SLAB_BUCKET_ENTRIES" "length (sb_entries b) = SLAB_BUCKET_ENTRIES" "0 < sb"
  shows "entry_at c (se_addr sb i) = Some (sb_entries b ! i)"
proof -
  have "se_addr sb i \<noteq> 0" using assms(5) by (simp add: se_addr_def)
  then show ?thesis using assms(1,3,4) se_addr_page [OF assms(2,3)] by (simp add: entry_at_def)
qed

lemma copied_entries:
  assumes cm: "copy_made V c1 sd d (se_addr sb l) (sb_entries b ! l) t c2" and b: "c1 sb = PBucket b" "c2 sb = PBucket b'"
    and n: "length (sb_entries b) = SLAB_BUCKET_ENTRIES" "PAGE_SIZE dvd sb" "0 < sb" "l < SLAB_BUCKET_ENTRIES" "sb \<in> V - {sd}"
  shows "\<exists>m. c2 sb = PBucket (b\<lparr>sb_entries := copied_at (sb_entries b) l t m\<rparr>)"
proof -
  note pg = se_addr_page [OF n(2)]
  have "page_base (se_addr sb l) = sb" by (rule pg(1) [OF n(4)])
  moreover have "as_bucket (c1 sb) = Some b" by (simp add: b(1))
  ultimately obtain es where es: "b' = b\<lparr>sb_entries := es\<rparr>" "length es = SLAB_BUCKET_ENTRIES"
    using cm b(2) n(1) unfolding copy_made_def by auto
  note at = entries_of_bucket [of c2 sb b', OF b(2) n(2) _ _ n(3)] entries_of_bucket [of c1 sb b, OF b(1) n(2) _ n(1,3)]
  obtain m where m: "entry_at c2 (se_addr sb l) = Some ((sb_entries b ! l)\<lparr>se_snap := (se_snap (sb_entries b ! l))\<lparr>d_maddr := t, d_laddr := m\<rparr>\<rparr>)"
    using cm by (auto simp: copy_made_def)
  have "es ! i = copied_at (sb_entries b) l t m ! i" if i: "i < SLAB_BUCKET_ENTRIES" for i
  proof (cases "i = l")
    case True
    then show ?thesis using m at(1) [OF i] es n(1,4) by (simp add: copied_at_def)
  next
    case False
    then have "other_slot (se_addr sb l) (se_addr sb i)" using pg(2) [OF i] pg(2) [OF n(4)] by (simp add: other_slot_def)
    then have "entry_at c2 (se_addr sb i) = entry_at c1 (se_addr sb i)"
      using cm n(5) pg(1) [OF i] by (simp add: copy_made_def)
    then show ?thesis using at(1) [OF i] at(2) [OF i] es False by (simp add: copied_at_def)
  qed
  then have "es = copied_at (sb_entries b) l t m" using es(2) n(1) by (intro nth_equalityI) (simp_all add: copied_at_def)
  then show ?thesis using b(2) es(1) by auto
qed

text \<open>
  The container during a transaction: the bucket has its flag and its snapshot \<^verbatim>\<open>s\<close>, the data page of
  the entry has been copied to \<^verbatim>\<open>t\<close> and holds \<^verbatim>\<open>y\<close>.
\<close>

definition opened ::
  "nat set \<Rightarrow> (nat \<Rightarrow> page) \<Rightarrow> nat \<Rightarrow> slab_dir \<Rightarrow> nat \<Rightarrow> slab_node \<Rightarrow> nat \<Rightarrow> slab_bucket \<Rightarrow> nat \<Rightarrow> nat \<Rightarrow>
   (nat \<Rightarrow> u8) \<Rightarrow> nat \<Rightarrow> nat \<Rightarrow> (nat \<Rightarrow> page) \<Rightarrow> bool" where
  "opened U c sd d si n sb b q l y s t c' \<longleftrightarrow>
     s \<notin> U \<and> t \<notin> insert s U \<and> c' (d_maddr (se_cur (sb_entries b ! l))) = PData y \<and>
     (\<exists>v. c' sd = PDir (d\<lparr>sd_vector := v\<rparr>) \<and> vec_wf v \<and> vec_list v = [se_addr sb l]) \<and>
     (\<exists>ls. c' si = PInner (set_snap_maddr q s (set_snap_laddr q ls n))) \<and>
     (\<exists>m. c' sb = PBucket (b\<lparr>sb_has_snapshot := True, sb_entries := copied_at (sb_entries b) l t m\<rparr>)) \<and>
     (\<forall>a\<in>U - {d_maddr (se_cur (sb_entries b ! l)), sd, si, sb}. c' a = c a)"

definition opened_prot :: "(nat \<Rightarrow> nat) \<Rightarrow> nat \<Rightarrow> nat \<Rightarrow> nat \<Rightarrow> nat \<Rightarrow> nat" where
  "opened_prot pr a s t = pr(s := PA_PROT_WRITE, t := PA_PROT_WRITE, a := PA_PROT_RNW)"

lemma opened_data:
  assumes Q: "quiet_at U c pr r sd d si n sb b q l x" and m: "0 \<notin> U" "PAGE_SIZE dvd sb" and s: "s \<notin> U" "0 < s"
    and cm: "copy_made (insert s U) ((marked_c c sb b si n q s ls)(s := p)) sd d (se_addr sb l) (sb_entries b ! l) t c2"
  shows "opened U c sd d si n sb b q l y s t (c2(d_maddr (se_cur (sb_entries b ! l)) := PData y))"
    "c2 (d_maddr (se_cur (sb_entries b ! l))) = c (d_maddr (se_cur (sb_entries b ! l)))"
proof -
  let ?A = "d_maddr (se_cur (sb_entries b ! l))" and ?b = "b\<lparr>sb_has_snapshot := True\<rparr>" and ?c = "(marked_c c sb b si n q s ls)(s := p)"
  note D = quietD [OF Q] and ap = quiet_apart [OF Q m(1)]
  have k: "vec_list (sd_vector d) = []" "l < SLAB_BUCKET_ENTRIES" using Q by (auto simp: quiet_at_def)
  have pb: "page_base (se_addr sb l) = sb" by (rule se_addr_page(1) [OF m(2) k(2)])
  have t: "t \<notin> insert s U" using cm by (simp add: copy_made_def)
  have same: "c2 a = ?c a" if "a \<in> U" "a \<noteq> sd" "a \<noteq> sb" for a using cm that pb by (simp add: copy_made_def)
  have old: "?c a = c a" if "a \<in> U" "a \<noteq> si" "a \<noteq> sb" for a using that s by (auto simp: marked_c_def)
  have "0 < sb" using D(12) m(1) by (cases "sb = 0") auto
  moreover obtain b' where "c2 sb = PBucket b'"
    using copied_bucket [OF marked_data_page [OF Q m s(1)] _ cm] m(1) s pb by auto
  moreover have "sb \<noteq> s" using D(12) s(1) by auto
  ultimately obtain mm where mm: "c2 sb = PBucket (?b\<lparr>sb_entries := copied_at (sb_entries b) l t mm\<rparr>)"
    using copied_entries [of "insert s U" ?c sd d sb l ?b t c2 b'] cm D(12,16) ap(3) k(2) m(2) by (auto simp: marked_c_def)
  have si: "c2 si = PInner (set_snap_maddr q s (set_snap_laddr q ls n))"
    using same [OF D(10)] ap(3,4) D(10) s by (auto simp: marked_c_def)
  obtain v where v: "c2 sd = PDir (d\<lparr>sd_vector := v\<rparr>)" "vec_wf v" "vec_list v = [se_addr sb l]"
    using cm k(1) by (auto simp: copy_made_def)
  have rest: "\<forall>a\<in>U - {?A, sd, si, sb}. c2 a = c a" using same old by auto
  show "c2 ?A = c ?A" using same [OF D(14)] old [OF D(14)] ap(2) by auto
  show "opened U c sd d si n sb b q l y s t (c2(?A := PData y))"
    using t s v si mm rest ap(2) unfolding opened_def by auto
qed
text \<open>The tree of the sizes leads to a class whose list starts with the entry.\<close>

definition class_of_size :: "world \<Rightarrow> nat rbt \<Rightarrow> nat \<Rightarrow> nat \<Rightarrow> bool" where
  "class_of_size r t z se \<longleftrightarrow>
     (case RB_FIND (size_cmp r z) t 0 of None \<Rightarrow> False
      | Some n \<Rightarrow> STAILQ_FIRST (w_links r) (es_list_head (node_elem n)) = se)"

lemma mem_rest: "mem U c pr k r w \<Longrightarrow> w_es w = w_es r \<and> w_links w = w_links r \<and> w_do_closure w = w_do_closure r"
  by (auto simp: mem_def rest_def)

lemma pick_entry_first:
  assumes m: "mem U c pr k r w" and d: "dir_is U c r sd d" and s: "class_of_size r (sd_size_root d) z se"
    and e: "entry_ok U c se e" "SLAB_ENTRY_CAPACITY e = Inr cap" "i < cap" "\<not> slot_used c e i"
  shows "\<exists>es. pick_entry sd z w = Inr ((es, se), w)"
proof -
  obtain n where n: "RB_FIND (size_cmp r z) (sd_size_root d) 0 = Some n" "STAILQ_FIRST (w_links r) (es_list_head (node_elem n)) = se"
    using s by (auto simp: class_of_size_def split: option.splits)
  have "size_cmp w z = size_cmp r z" using mem_rest [OF m] by (simp add: size_cmp_def fun_eq_iff)
  then have "find_size sd z w = Inr (Some (node_elem n), w)"
    using current_sd_ok [OF m d] n(1) by (simp add: find_size_def bindM_step)
  moreover have "slab_entry_full se w = Inr (False, w)" using slab_entry_full_ok [OF m e(1,2)] e(3,4) by auto
  moreover have "STAILQ_FIRST (w_links w) (es_list_head (node_elem n)) = se" using n(2) mem_rest [OF m] by simp
  ultimately show ?thesis by (simp add: pick_entry_def bindM_def)
qed

lemma up_data_touched:
  assumes "touch a w = Inr ((), w1)" "mem U c pr k r w1" "a \<in> U" "as_data (c a) = Some x"
  shows "\<exists>w'. up_data touch a f w = Inr ((), w') \<and> mem U (c(a := PData (f x))) pr k r w'"
proof -
  have b: "page_base a = a" using mem_page(1) [OF assms(2,3)] .
  have "rd_data a w1 = Inr (x, w1)" by (rule rd_at(6) [OF assms(2,3,4)])
  then show ?thesis
    using assms(1) poke_ok [OF assms(2), of a "PData (f x)"] assms(3) b by (simp add: up_data_def thenM_step bindM_step)
qed

text \<open>The entry of a small size with a free slot, and the bitmap in its data page.\<close>

definition free_slot :: "slab_entry \<Rightarrow> (nat \<Rightarrow> u8) \<Rightarrow> nat \<Rightarrow> nat \<Rightarrow> nat \<Rightarrow> bool" where
  "free_slot e x cap off i \<longleftrightarrow> se_size e < SLAB_LARGE_ALLOC \<and> SLAB_ENTRY_CAPACITY e = Inr cap \<and>
     SLAB_ENTRY_DATAOFFSET e = Inr off \<and> Suc i < cap \<and> (\<forall>j<cap. bit_test x j \<noteq> 0 \<longleftrightarrow> j < i)"

lemma alloc_mem_opens:
  assumes Q: "quiet_at U c pr r sd d si n sb b q l x" and m: "mem (insert s U) ((marked_c c sb b si n q s ls)(s := p)) (pr(s := PA_PROT_WRITE)) (Suc k) r w"
    and dvd: "PAGE_SIZE dvd sb" and s: "s \<notin> U" and r: "\<not> w_copynswap r"
    and f: "free_slot (sb_entries b ! l) x cap off i"
  shows "\<exists>w' c' t. slab_entry_alloc_mem (se_addr sb l) w =
      Inr (d_maddr (se_cur (sb_entries b ! l)) + off + i * se_size (sb_entries b ! l), w') \<and>
    mem (insert t (insert s U)) c' (opened_prot pr (d_maddr (se_cur (sb_entries b ! l))) s t) k r w' \<and>
    opened U c sd d si n sb b q l (bit_set x i) s t c'"
proof -
  let ?e = "sb_entries b ! l" and ?se = "se_addr sb l" and ?c = "(marked_c c sb b si n q s ls)(s := p)"
  let ?A = "d_maddr (se_cur (sb_entries b ! l))"
  have z: "0 \<notin> insert s U" by (rule mem_zero [OF m])
  then have z': "0 \<notin> U" "0 < s" by auto
  note D = quietD [OF Q] and ap = quiet_apart [OF Q z'(1)]
  note dp = marked_data_page [OF Q z'(1) dvd s, of ls p]
  have b: "page_base ?A = ?A" using mem_page(1) [OF m] D(14) by simp
  have x: "as_data (?c ?A) = Some x" using Q ap(2) D(14) s by (auto simp: quiet_at_def marked_c_def)
  have ok: "entry_ok (insert s U) ?c ?se ?e"
    using dp D(8,14) x data_pageD(1) [OF dp] by (simp add: entry_ok_def data_page_def)
  have f': "\<not> SLAB_LARGE_ALLOC \<le> se_size ?e" "SLAB_ENTRY_CAPACITY ?e = Inr cap" "SLAB_ENTRY_DATAOFFSET ?e = Inr off" "i < cap"
    using f by (auto simp: free_slot_def)
  have bm: "SLAB_ENTRY_CBITMAP ?e w = Inr (x, w)" using CBITMAP_ok [OF m ok] x f'(1) by (simp add: bitmap_at_def)
  have ffc: "bit_ffc x cap = int i" using f by (simp add: free_slot_def bm.find_free_slot)
  have "(pr(s := PA_PROT_WRITE)) ?A = PA_PROT_READ" using D(14,15) s by auto
  then have ro: "\<not> writable ((pr(s := PA_PROT_WRITE)) (page_base ?A))" unfolding b by (simp add: writable_def PA_PROT_READ_def)
  from endsD [OF touch_ends [OF dp b ro r] m] obtain w1 t c2 where w1: "touch ?A w = Inr ((), w1)"
    and cm: "copy_made (insert s U) ?c sd d ?se ?e t c2"
    and m1: "mem (insert t (insert s U)) c2 (pr(s := PA_PROT_WRITE, t := PA_PROT_WRITE, ?A := PA_PROT_RNW)) k r w1"
    unfolding b by (auto simp del: fun_upd_apply)
  note op = opened_data [OF Q z'(1) dvd s z'(2) cm]
  have "as_data (c2 ?A) = Some x" using op(2) Q by (simp add: quiet_at_def)
  then obtain w2 where w2: "up_data touch ?A (\<lambda>d. bit_set d i) w = Inr ((), w2)"
    "mem (insert t (insert s U)) (c2(?A := PData (bit_set x i))) (opened_prot pr ?A s t) k r w2"
    using up_data_touched [OF w1 m1, of x "\<lambda>d. bit_set d i"] D(14) by (auto simp: opened_prot_def)
  have "rd_se ?se w = Inr (?e, w)" using rd_se_ok [OF m] ok by (simp add: entry_ok_def)
  moreover have "0 < ?A" using D(14) z'(1) by (cases "?A = 0") auto
  ultimately have "slab_entry_alloc_mem ?se w = Inr (?A + off + i * se_size ?e, w2)"
    using bm f' ffc w2(1) by (simp add: slab_entry_alloc_mem_def bindM_step thenM_step set_slot_def)
  then show ?thesis using w2(2) op(1) by blast
qed
lemma opened_entry:
  assumes Q: "quiet_at U c pr r sd d si n sb b q l x" and m: "0 \<notin> U" "PAGE_SIZE dvd sb"
    and o': "opened U c sd d si n sb b q l y s t c'"
  shows "\<exists>e. entry_ok (insert t (insert s U)) c' (se_addr sb l) e \<and> se_cur e = se_cur (sb_entries b ! l) \<and>
    se_size e = se_size (sb_entries b ! l)"
proof -
  note D = quietD [OF Q]
  have l: "l < SLAB_BUCKET_ENTRIES" using Q by (simp add: quiet_at_def)
  obtain mm where b': "c' sb = PBucket (b\<lparr>sb_has_snapshot := True, sb_entries := copied_at (sb_entries b) l t mm\<rparr>)"
    and y: "c' (d_maddr (se_cur (sb_entries b ! l))) = PData y" using o' by (auto simp: opened_def)
  have n: "length (copied_at (sb_entries b) l t mm) = SLAB_BUCKET_ENTRIES" using D(16) by (simp add: copied_at_def)
  have "0 < sb" using D(12) m(1) by (cases "sb = 0") auto
  then have "entry_at c' (se_addr sb l) = Some (copied_at (sb_entries b) l t mm ! l)"
    using entries_of_bucket [of c' sb, OF b' m(2) l] n by simp
  then show ?thesis
    using D(8,12,14) y se_addr_page(1) [OF m(2) l] l D(16)
    by (intro exI [of _ "copied_at (sb_entries b) l t mm ! l"]) (simp add: entry_ok_def copied_at_def)
qed

lemma opened_not_full:
  assumes Q: "quiet_at U c pr r sd d si n sb b q l x" and dvd: "PAGE_SIZE dvd sb" and f: "free_slot (sb_entries b ! l) x cap off i"
    and m: "mem (insert t (insert s U)) c' p k r w" and op: "opened U c sd d si n sb b q l (bit_set x i) s t c'"
  shows "slab_entry_full (se_addr sb l) w = Inr (False, w)"
proof -
  let ?e = "sb_entries b ! l" and ?se = "se_addr sb l"
  have z0: "0 \<notin> U" using mem_zero [OF m] by auto
  have fs: "SLAB_ENTRY_CAPACITY ?e = Inr cap" "Suc i < cap" "se_size ?e < SLAB_LARGE_ALLOC" using f by (auto simp: free_slot_def)
  obtain e2 where e2: "entry_ok (insert t (insert s U)) c' ?se e2" "se_cur e2 = se_cur ?e" "se_size e2 = se_size ?e"
    using opened_entry [OF Q z0 dvd op] by blast
  have "SLAB_ENTRY_CAPACITY e2 = SLAB_ENTRY_CAPACITY ?e" by (simp add: SLAB_ENTRY_CAPACITY_def e2(3))
  then have cap: "SLAB_ENTRY_CAPACITY e2 = Inr cap" using fs(1) by simp
  have "\<not> slot_used c' e2 (Suc i)"
    using op f e2(2,3) fs(2,3) by (simp add: slot_used_def bitmap_at_def opened_def free_slot_def bits_bit_set)
  then show ?thesis using slab_entry_full_ok [OF m e2(1) cap] fs(2) by auto
qed

lemma palloc_opens:
  assumes Q: "quiet_at U c pr r sd d si n sb b q l x" and m: "mem U c pr (Suc (Suc k)) r w" and r: "\<not> w_copynswap r"
    and z: "class_of_size r (sd_size_root d) (se_size (sb_entries b ! l)) (se_addr sb l)"
      "unat (ROUND8 sz) = se_size (sb_entries b ! l)" "unat sz \<le> PAGE_SIZE"
    and f: "free_slot (sb_entries b ! l) x cap off i"
  shows "\<exists>w' c' s t. container_palloc sz w = Inr (d_maddr (se_cur (sb_entries b ! l)) + off + i * se_size (sb_entries b ! l), w') \<and>
    mem (insert t (insert s U)) c' (opened_prot pr (d_maddr (se_cur (sb_entries b ! l))) s t) k r w' \<and>
    opened U c sd d si n sb b q l (bit_set x i) s t c'"
proof -
  let ?e = "sb_entries b ! l" and ?se = "se_addr sb l" and ?w = "w\<lparr>w_os := stat (INC_BOTH Pallocations) (w_os w)\<rparr>"
  note D = quietD [OF Q] and z0 = mem_zero [OF m]
  have dvd: "PAGE_SIZE dvd sb" by (rule mem_page(3) [OF m D(12)])
  have l: "l < SLAB_BUCKET_ENTRIES" and x: "as_data (c (d_maddr (se_cur ?e))) = Some x" and sn: "l_maddr (node_snapshot n ! q) = sb"
    using Q by (auto simp: quiet_at_def)
  have pb: "page_base ?se = sb" by (rule se_addr_page(1) [OF dvd l])
  have m0: "mem U c pr (Suc (Suc k)) r ?w" by (rule mem_stat [OF m])
  have fs: "SLAB_ENTRY_CAPACITY ?e = Inr cap" "Suc i < cap" "se_size ?e < SLAB_LARGE_ALLOC" using f by (auto simp: free_slot_def)
  have ok: "entry_ok U c ?se ?e" using D(6,8,12,14) x pb by (simp add: entry_ok_def)
  have "\<not> slot_used c ?e i" using f x by (simp add: slot_used_def bitmap_at_def free_slot_def)
  then obtain es where pick: "pick_entry sd (se_size ?e) ?w = Inr ((es, ?se), ?w)"
    using pick_entry_first [OF m0 D(2) z(1) ok fs(1), of i] fs(2) by auto
  note at = quiet_bucket_at [OF Q z0 dvd]
  have "l_maddr (node_current n ! q) = l_maddr (node_snapshot n ! q)" using D(18) sn by simp
  from endsD [OF mark_bucket_first [OF at r this] m0] obtain w1 s ls where w1: "mark_bucket sb ?w = Inr ((), w1)"
    and s: "s \<notin> U" and m1: "mem (insert s U) (marked_c c sb b si n q s ls) (pr(s := PA_PROT_WRITE)) (Suc k) r w1" by auto
  have own: "(marked_c c sb b si n q s ls)(s := PBucket b) = marked_c c sb b si n q s ls"
    using s D(10,12) by (auto simp: marked_c_def fun_eq_iff)
  note dp = marked_data_page [OF Q z0 dvd s, of ls "PBucket b", unfolded own]
  have rd: "rd_se ?se w1 = Inr (?e, w1)" using rd_se_ok [OF m1 data_pageD(1) [OF dp]] dp by (simp add: data_page_def)
  obtain w2 c2 t where w2: "slab_entry_alloc_mem ?se w1 = Inr (d_maddr (se_cur ?e) + off + i * se_size ?e, w2)"
    and m2: "mem (insert t (insert s U)) c2 (opened_prot pr (d_maddr (se_cur ?e)) s t) k r w2"
    and op: "opened U c sd d si n sb b q l (bit_set x i) s t c2"
    using alloc_mem_opens [OF Q _ dvd s r f, of ls "PBucket b" k w1, unfolded own, OF m1] by blast
  have full: "slab_entry_full ?se w2 = Inr (False, w2)" by (rule opened_not_full [OF Q dvd f m2 op])
  have "current_sd ?w = Inr (sd, ?w)" using current_sd_ok [OF m0 D(2)] by simp
  then have "container_palloc sz w = Inr (d_maddr (se_cur ?e) + off + i * se_size ?e, w2)"
    using z(2,3) pick pb w1 rd D(9) w2 full
    by (simp add: container_palloc_def slab_palloc_def statM_def bindM_step thenM_step Let_def bindM_def [of "slab_entry_full _"])
  then show ?thesis using m2 op by blast
qed
section \<open>The store and the checkpoint\<close>

text \<open>The application stores bytes to an object inside a page.\<close>

definition overwrite :: "(nat \<Rightarrow> u8) \<Rightarrow> nat \<Rightarrow> u8 list \<Rightarrow> nat \<Rightarrow> u8" where
  "overwrite d o' bs = (\<lambda>i. if o' \<le> i \<and> i < o' + length bs then bs ! (i - o') else d i)"

definition store_bytes :: "nat \<Rightarrow> u8 list \<Rightarrow> unit M" where
  "store_bytes p bs = up_data touch (page_base p) (\<lambda>d. overwrite d (p mod PAGE_SIZE) bs)"

lemma store_bytes_opened:
  assumes m: "mem V c' (opened_prot pr (d_maddr (se_cur (sb_entries b ! l))) s t) k r w"
    and o': "opened U c sd d si n sb b q l y s t c'" and a: "page_base p = d_maddr (se_cur (sb_entries b ! l))"
    and V: "d_maddr (se_cur (sb_entries b ! l)) \<in> V" and ne: "d_maddr (se_cur (sb_entries b ! l)) \<notin> {sd, si, sb}"
  shows "\<exists>w' c''. store_bytes p bs w = Inr ((), w') \<and>
    mem V c'' (opened_prot pr (d_maddr (se_cur (sb_entries b ! l))) s t) k r w' \<and>
    opened U c sd d si n sb b q l (overwrite y (p mod PAGE_SIZE) bs) s t c''"
proof -
  let ?A = "d_maddr (se_cur (sb_entries b ! l))"
  have "writable (opened_prot pr ?A s t ?A)" by (simp add: opened_prot_def writable_def PA_PROT_RNW_def)
  moreover have "as_data (c' ?A) = Some y" using o' by (simp add: opened_def)
  ultimately obtain w' where "store_bytes p bs w = Inr ((), w')"
    "mem V (c'(?A := PData (overwrite y (p mod PAGE_SIZE) bs))) (opened_prot pr ?A s t) k r w'"
    using endsD [OF total_up(6) [of touch ?A V "opened_prot pr ?A s t" c' y k r "\<lambda>d. overwrite d (p mod PAGE_SIZE) bs"] m] V
    unfolding store_bytes_def a by auto
  moreover have "opened U c sd d si n sb b q l (overwrite y (p mod PAGE_SIZE) bs) s t (c'(?A := PData (overwrite y (p mod PAGE_SIZE) bs)))"
    using o' ne unfolding opened_def by auto
  ultimately show ?thesis by blast
qed

text \<open>The bucket and its path, as the checkpoint finds them.\<close>

lemma opened_marked:
  assumes Q: "quiet_at U c pr r sd d si n sb b q l x" and m: "0 \<notin> U" "PAGE_SIZE dvd sb"
    and o': "opened U c sd d si n sb b q l y s t c'"
    and b': "c' sb = PBucket b'" "b' = b\<lparr>sb_has_snapshot := True, sb_entries := copied_at (sb_entries b) l t mm\<rparr>"
    and n': "c' si = PInner n'" "n' = set_snap_maddr q s (set_snap_laddr q ls n)"
  shows "marked (insert t (insert s U)) c' (opened_prot pr (d_maddr (se_cur (sb_entries b ! l))) s t) si n' q sb b' s"
    and "given_back b' s = {s, t}"
proof -
  let ?A = "d_maddr (se_cur (sb_entries b ! l))" and ?V = "insert t (insert s U)"
  let ?pr = "opened_prot pr ?A s t" and ?es = "copied_at (sb_entries b) l t mm"
  note D = quietD [OF Q] and ap = quiet_apart [OF Q m(1)]
  have k: "settled U pr sb si (sb_entries b)" "l < SLAB_BUCKET_ENTRIES" "writable (pr si)" "q < length (node_snapshot n)"
    using Q by (auto simp: quiet_at_def)
  have st: "s \<notin> U" "t \<notin> U" "s \<noteq> t" using o' by (auto simp: opened_def)
  have pr: "?pr a = pr a" if "a \<in> U" "a \<noteq> ?A" for a using that st by (auto simp: opened_prot_def)
  have wr: "writable (?pr si)" "writable (?pr sb)"
    using pr [OF D(10)] pr [OF D(12)] ap(2) k(3) D(7) se_addr_page(1) [OF m(2) k(2)] by auto
  note ok = copied_bucket_ok [of U pr sb si "sb_entries b" l ?V t ?pr, OF k(1,2) D(9) _ D(12) _ st(2) m(2) wr(2)]
  have "bucket_ok ?V ?pr sb ?es" by (rule ok(1)) auto
  moreover have "{si, s} \<inter> own_pages (?es ! i) = {}" if "i < SLAB_BUCKET_ENTRIES" "SLAB_ENTRY_IS_INIT (?es ! i)" for i
    by (rule ok(3)) (use st(1,3) D(10) that in auto)
  ultimately show "marked ?V c' ?pr si n' q sb b' s"
    unfolding marked_def using D(10,17,18) k(4) st(1) wr(1) b' n'
    by (auto simp: set_snap_maddr_def set_snap_laddr_def)
  have "gone_upto ?es SLAB_BUCKET_ENTRIES = {t}" by (rule ok(2)) auto
  then show "given_back b' s = {s, t}" using b'(2) by (simp add: given_back_def)
qed

lemma opened_lone:
  assumes Q: "quiet_at U c pr r sd d si n sb b q l x" and m: "0 \<notin> U"
    and o': "opened U c sd d si n sb b q l y s t c'"
    and d': "sd_index d' = sd_index d" "sd_current d' = sd_current d" "sd_snapshot d' = sd_snapshot d"
  shows "lone_path U c' d' q si sb"
proof -
  let ?A = "d_maddr (se_cur (sb_entries b ! l))"
  note ap = quiet_apart [OF Q m]
  have k: "c si = PInner n" "lone_path U (c(sb := PBucket (b\<lparr>sb_has_snapshot := True\<rparr>))) d q si sb" "as_data (c ?A) = Some x"
    using Q by (auto simp: quiet_at_def)
  have O: "\<exists>ls. c' si = PInner (set_snap_maddr q s (set_snap_laddr q ls n))" "\<forall>a\<in>U - {?A, sd, si, sb}. c' a = c a"
    using o' by (auto simp: opened_def)
  have "same_node ((c(sb := PBucket (b\<lparr>sb_has_snapshot := True\<rparr>))) a) (c' a)" if a: "a \<in> U" for a
  proof (cases "a \<in> {?A, sd, si, sb}")
    case True
    then show ?thesis
      using k(1,3) O(1) ap by (auto simp: same_node_def set_snap_maddr_def set_snap_laddr_def)
  next
    case False
    then show ?thesis using O(2) a by auto
  qed
  then show ?thesis by (rule lone_same [OF subset_refl _ k(2) d'])
qed
text \<open>The container after the checkpoint, with the contents \<^verbatim>\<open>y\<close> of the data page.\<close>

definition closed ::
  "nat set \<Rightarrow> (nat \<Rightarrow> page) \<Rightarrow> nat \<Rightarrow> slab_dir \<Rightarrow> nat \<Rightarrow> slab_node \<Rightarrow> nat \<Rightarrow> slab_bucket \<Rightarrow> nat \<Rightarrow> nat \<Rightarrow>
   (nat \<Rightarrow> u8) \<Rightarrow> (nat \<Rightarrow> page) \<Rightarrow> bool" where
  "closed U c sd d si n sb b q l y c' \<longleftrightarrow>
     c' (d_maddr (se_cur (sb_entries b ! l))) = PData y \<and>
     (\<exists>v. c' sd = PDir (d\<lparr>sd_vector := v\<rparr>) \<and> vec_wf v \<and> vec_list v = []) \<and>
     (\<exists>n'. c' si = PInner n' \<and> node_index n' = node_index n \<and> node_current n' = node_current n \<and>
        q < length (node_snapshot n') \<and> l_maddr (node_snapshot n' ! q) = sb) \<and>
     (\<exists>b' t mm. c' sb = PBucket b' \<and> sb_id b' = sb_id b \<and>
        sb_entries b' = done_upto (copied_at (sb_entries b) l t mm) SLAB_BUCKET_ENTRIES) \<and>
     (\<forall>a\<in>U - {d_maddr (se_cur (sb_entries b ! l)), sd, si, sb}. c' a = c a)"

text \<open>The protection of the pages in use is the same again.\<close>

lemma prot_again:
  assumes s: "settled U pr sb si es" and l: "l < SLAB_BUCKET_ENTRIES" "SLAB_ENTRY_IS_INIT (es ! l)"
    and st: "s \<notin> U" "t \<notin> U" and a: "a \<in> U"
  shows "protect_upto CPOINT_REGULAR (copied_at es l t mm) SLAB_BUCKET_ENTRIES (opened_prot pr (d_maddr (se_cur (es ! l))) s t) a = pr a"
proof -
  let ?es = "copied_at es l t mm" and ?N = SLAB_BUCKET_ENTRIES
  have len: "length es = ?N" using s by (simp add: settled_def)
  note n = copied_at_nth [OF len]
  show ?thesis
  proof (cases "\<exists>i<?N. SLAB_ENTRY_IS_INIT (es ! i) \<and> d_maddr (se_cur (es ! i)) = a")
    case True
    then obtain i where i: "i < ?N" "SLAB_ENTRY_IS_INIT (es ! i)" "d_maddr (se_cur (es ! i)) = a" by blast
    have "SLAB_ENTRY_IS_INIT (?es ! i)" "d_maddr (se_cur (?es ! i)) = a" using n(1,2) [OF i(1)] i(2,3) by simp_all
    then show ?thesis using protect_current [OF i(1), of ?es] settledD(4) [OF s i(1,2)] i(3) by auto
  next
    case False
    have "d_maddr (se_cur (?es ! i)) \<noteq> a" if "i < ?N" "SLAB_ENTRY_IS_INIT (?es ! i)" for i
      using False that n(1,2) [OF that(1)] by auto
    then have "protect_upto CPOINT_REGULAR ?es ?N (opened_prot pr (d_maddr (se_cur (es ! l))) s t) a =
        opened_prot pr (d_maddr (se_cur (es ! l))) s t a" by (intro protect_other) auto
    moreover have "a \<noteq> d_maddr (se_cur (es ! l))" using False l by blast
    ultimately show ?thesis using st a by (auto simp: opened_prot_def)
  qed
qed

lemma bucket_cpoint_opened:
  assumes Q: "quiet_at U c pr r sd d si n sb b q l x" and m: "mem (insert t (insert s U)) c' (opened_prot pr (d_maddr (se_cur (sb_entries b ! l))) s t) k r w"
    and o': "opened U c sd d si n sb b q l y s t c'"
  shows "\<exists>w' c'' n' b' mm. cpoint_bucket CPOINT_REGULAR si q w = Inr ((), w') \<and> mem U c'' pr (Suc (Suc k)) r w' \<and>
    (\<forall>a. a \<notin> {sb, si} \<longrightarrow> c'' a = c' a) \<and>
    c'' si = PInner n' \<and> node_index n' = node_index n \<and> node_current n' = node_current n \<and>
    q < length (node_snapshot n') \<and> l_maddr (node_snapshot n' ! q) = sb \<and>
    c'' sb = PBucket b' \<and> sb_id b' = sb_id b \<and> holds_entries c'' sb (sb_entries b') \<and>
    sb_entries b' = done_upto (copied_at (sb_entries b) l t mm) SLAB_BUCKET_ENTRIES"
proof -
  let ?A = "d_maddr (se_cur (sb_entries b ! l))" and ?V = "insert t (insert s U)" and ?N = SLAB_BUCKET_ENTRIES
  note D = quietD [OF Q]
  have z: "0 \<notin> U" using mem_zero [OF m] by auto
  have dvd: "PAGE_SIZE dvd sb" using mem_page(3) [OF m] D(12) by simp
  have k: "settled U pr sb si (sb_entries b)" "l < ?N" "q < length (node_snapshot n)" using Q by (auto simp: quiet_at_def)
  have st: "s \<notin> U" "t \<notin> U" "s \<noteq> t" using o' by (auto simp: opened_def)
  obtain mm ls where b1: "c' sb = PBucket (b\<lparr>sb_has_snapshot := True, sb_entries := copied_at (sb_entries b) l t mm\<rparr>)"
    and n1: "c' si = PInner (set_snap_maddr q s (set_snap_laddr q ls n))" using o' by (auto simp: opened_def)
  let ?b = "b\<lparr>sb_has_snapshot := True, sb_entries := copied_at (sb_entries b) l t mm\<rparr>"
  let ?es = "copied_at (sb_entries b) l t mm" and ?n = "set_snap_maddr q s (set_snap_laddr q ls n)"
  note mk = opened_marked [OF Q z dvd o' b1 refl n1 refl]
  have "s \<noteq> sb" using st(1) D(12) by auto
  obtain c'' w' n' b' where w': "cpoint_bucket CPOINT_REGULAR si q w = Inr ((), w')"
    and m': "mem (?V - given_back ?b s) c'' (protect_upto CPOINT_REGULAR (sb_entries ?b) ?N (opened_prot pr ?A s t)) (k + card (given_back ?b s)) r w'"
    and c'': "\<forall>a. a \<notin> {sb, si} \<longrightarrow> c'' a = c' a" "c'' si = PInner n'" "node_index n' = node_index ?n" "node_current n' = node_current ?n"
      "node_snapshot n' = (node_snapshot ?n)[q := node_current ?n ! q]" "c'' sb = PBucket b'" "\<not> sb_has_snapshot b'"
      "holds_entries c'' sb (done_upto (sb_entries ?b) ?N)" "si \<in> ?V - given_back ?b s" "sb \<in> ?V - given_back ?b s" "sb_id b' = sb_id ?b"
      "length (sb_entries b') = ?N"
    by (rule cpoint_bucket_ends [OF m mk(1) \<open>s \<noteq> sb\<close>])
  have V: "?V - given_back ?b s = U" "k + card (given_back ?b s) = Suc (Suc k)" using mk(2) st by auto
  have m2: "mem U c'' pr (Suc (Suc k)) r w'"
    by (rule mem_cong_prot [OF m' [unfolded V]]) (use prot_again [OF k(1,2) D(9) st(1,2)] in simp)
  have len: "length ?es = ?N" using k(1) by (simp add: copied_at_def settled_def)
  have at: "sb_entries b' ! i = done_upto ?es ?N ! i" if i: "i < ?N" for i
    using c''(6,8) i se_addr_page [OF dvd i] by (auto simp: holds_entries_def entry_at_def split: if_splits)
  have es: "sb_entries b' = done_upto ?es ?N"
    by (intro nth_equalityI) (use c''(12) len at in \<open>simp_all add: done_upto_def\<close>)
  have "q < length (node_snapshot n')" "l_maddr (node_snapshot n' ! q) = sb" "node_index n' = node_index n" "node_current n' = node_current n"
    using c''(3-5) k(3) D(18) by (simp_all add: set_snap_maddr_def set_snap_laddr_def)
  then show ?thesis
    using w' m2 c''(1,2,6,8,11) es by (intro exI [of _ w'] exI [of _ c''] exI [of _ n'] exI [of _ b'] exI [of _ mm]) simp
qed
lemma slab_cpoint_opened:
  assumes Q: "quiet_at U c pr r sd d si n sb b q l x" and m: "mem (insert t (insert s U)) c' (opened_prot pr (d_maddr (se_cur (sb_entries b ! l))) s t) k r w"
    and o': "opened U c sd d si n sb b q l y s t c'"
  shows "\<exists>w' c''. slab_cpoint CPOINT_REGULAR w = Inr ((), w') \<and> mem U c'' pr (Suc (Suc k)) r w' \<and> closed U c sd d si n sb b q l y c''"
proof -
  let ?A = "d_maddr (se_cur (sb_entries b ! l))" and ?V = "insert t (insert s U)"
  note D = quietD [OF Q]
  have z: "0 \<notin> U" using mem_zero [OF m] by auto
  note ap = quiet_apart [OF Q z]
  have dvd: "PAGE_SIZE dvd sb" using mem_page(3) [OF m] D(12) by simp
  have k: "l < SLAB_BUCKET_ENTRIES" "c si = PInner n" using Q by (auto simp: quiet_at_def)
  obtain v where v: "c' sd = PDir (d\<lparr>sd_vector := v\<rparr>)" "vec_wf v" "vec_list v = [se_addr sb l]" using o' by (auto simp: opened_def)
  let ?d = "d\<lparr>sd_vector := v\<rparr>"
  have O: "s \<notin> U" "t \<notin> U" "c' ?A = PData y" "\<forall>a\<in>U - {?A, sd, si, sb}. c' a = c a"
    "\<exists>ls. c' si = PInner (set_snap_maddr q s (set_snap_laddr q ls n))" "\<exists>b'. c' sb = PBucket b' \<and> sb_has_snapshot b'"
    using o' by (auto simp: opened_def)
  obtain w1 c1 n' b' mm where w1: "cpoint_bucket CPOINT_REGULAR si q w = Inr ((), w1)" and m1: "mem U c1 pr (Suc (Suc k)) r w1"
    and c1: "\<And>a. a \<notin> {sb, si} \<Longrightarrow> c1 a = c' a" "c1 si = PInner n'" "node_index n' = node_index n" "node_current n' = node_current n"
      "q < length (node_snapshot n')" "l_maddr (node_snapshot n' ! q) = sb" "c1 sb = PBucket b'" "sb_id b' = sb_id b"
      "holds_entries c1 sb (sb_entries b')" "sb_entries b' = done_upto (copied_at (sb_entries b) l t mm) SLAB_BUCKET_ENTRIES"
    using bucket_cpoint_opened [OF Q m o'] by blast
  have same: "same_node (c' a) (c1 a)" if "a \<in> U" for a
    using c1(1) [of a] c1(2-4) O(5,6) by (cases "a = sb"; cases "a = si") (auto simp: same_node_def set_snap_maddr_def set_snap_laddr_def)
  have sd1: "c1 sd = PDir ?d" using c1(1) ap(3) v(1) by auto
  have lone: "lone_path U c' ?d q si sb" by (rule opened_lone [OF Q z o']) simp_all
  have walk: "slab_dir_cpoint CPOINT_REGULAR sd w = Inr ((), w1)"
    by (rule walk_finds_bucket [OF m m1 _ same w1 lone D(11) v(1) sd1]) auto
  have ct: "c' (w_cont r) = c (w_cont r)" using O(4) D(13) ap(2,3,5) by auto
  then have ct1: "c1 (w_cont r) = c (w_cont r)" using c1(1) ap(5) by auto
  have dir: "dir_is ?V c' r sd ?d" "dir_is U c1 r sd ?d" using D(2) v(1) sd1 ct ct1 by (auto simp: dir_is_def)
  have vec: "\<forall>se\<in>set (vec_list (sd_vector ?d)). page_base se \<in> U \<and> entry_at c1 se \<noteq> None"
    using v(3) c1(9) k(1) se_addr_page(1) [OF dvd k(1)] D(12) by (simp add: holds_entries_def)
  have "vec_wf (sd_vector ?d)" using v(2) by simp
  from slab_cpoint_after [OF conjunct1 [OF current_sd_ok [OF m dir(1)]] walk m1 dir(2) D(5) this vec] obtain w2 where
    w2: "slab_cpoint CPOINT_REGULAR w = Inr ((), w2)"
    and m2: "mem U (c1(sd := PDir (?d\<lparr>sd_vector := VECTOR_FREE (sd_vector ?d)\<rparr>))) pr (Suc (Suc k)) r w2" by blast
  have "?d\<lparr>sd_vector := VECTOR_FREE (sd_vector ?d)\<rparr> = d\<lparr>sd_vector := VECTOR_FREE v\<rparr>" by simp
  then have "closed U c sd d si n sb b q l y (c1(sd := PDir (?d\<lparr>sd_vector := VECTOR_FREE (sd_vector ?d)\<rparr>)))"
    using c1 O(3,4) ap unfolding closed_def by auto
  then show ?thesis using w2 m2 by blast
qed
lemma done_copied_nth:
  assumes "length es = SLAB_BUCKET_ENTRIES" "i < SLAB_BUCKET_ENTRIES"
  shows "se_cur (done_upto (copied_at es l t m) SLAB_BUCKET_ENTRIES ! i) = se_cur (es ! i)"
    "se_size (done_upto (copied_at es l t m) SLAB_BUCKET_ENTRIES ! i) = se_size (es ! i)"
    "ptr_cur (done_upto (copied_at es l t m) SLAB_BUCKET_ENTRIES ! i) = ptr_cur (es ! i)"
    "p_maddr (ptr_cur (es ! i)) = 0 \<Longrightarrow> ptr_snap (done_upto (copied_at es l t m) SLAB_BUCKET_ENTRIES ! i) = ptr_snap (es ! i)"
proof -
  have len: "length (copied_at es l t m) = SLAB_BUCKET_ENTRIES" using assms(1) by (simp add: copied_at_def)
  have e: "se_cur (copied_at es l t m ! i) = se_cur (es ! i)" "se_size (copied_at es l t m ! i) = se_size (es ! i)"
    "ptr_cur (copied_at es l t m ! i) = ptr_cur (es ! i)" "ptr_snap (copied_at es l t m ! i) = ptr_snap (es ! i)"
    using assms by (cases "i = l"; simp add: copied_at_def)+
  have c: "se_cur (committed f) = se_cur f" "se_size (committed f) = se_size f" "ptr_cur (committed f) = ptr_cur f"
    "p_maddr (ptr_cur f) = 0 \<Longrightarrow> ptr_snap (committed f) = ptr_snap f" for f
    by (simp_all add: committed_def commit_ptrs_def)
  show "se_cur (done_upto (copied_at es l t m) SLAB_BUCKET_ENTRIES ! i) = se_cur (es ! i)"
    "se_size (done_upto (copied_at es l t m) SLAB_BUCKET_ENTRIES ! i) = se_size (es ! i)"
    "ptr_cur (done_upto (copied_at es l t m) SLAB_BUCKET_ENTRIES ! i) = ptr_cur (es ! i)"
    "p_maddr (ptr_cur (es ! i)) = 0 \<Longrightarrow> ptr_snap (done_upto (copied_at es l t m) SLAB_BUCKET_ENTRIES ! i) = ptr_snap (es ! i)"
    using len assms(2) c e by (simp_all add: done_nth)
qed

lemma closed_quiet:
  assumes Q: "quiet_at U c pr r sd d si n sb b q l x" and m: "0 \<notin> U" "PAGE_SIZE dvd sb"
    and cl: "closed U c sd d si n sb b q l y c'"
  shows "\<exists>d' n' b'. quiet_at U c' pr r sd d' si n' sb b' q l y \<and> sd_size_root d' = sd_size_root d \<and>
    se_cur (sb_entries b' ! l) = se_cur (sb_entries b ! l) \<and> se_size (sb_entries b' ! l) = se_size (sb_entries b ! l)"
proof -
  let ?A = "d_maddr (se_cur (sb_entries b ! l))" and ?t = "sd_maddr_root d"
  note D = quietD [OF Q] and ap = quiet_apart [OF Q m(1)]
  have k: "l < SLAB_BUCKET_ENTRIES" "c si = PInner n" "c sb = PBucket b" "settled U pr sb si (sb_entries b)" "as_data (c ?A) = Some x"
    "q = sb_id b div SLAB_INNER_ENTRIES" "writable (pr si)" "writable (pr (w_cont r))" "p_maddr (ptr_cur (sb_entries b ! l)) = 0"
    "lone_path U (c(sb := PBucket (b\<lparr>sb_has_snapshot := True\<rparr>))) d q si sb" "\<exists>k. c (w_cont r) = PCont k \<and> l_maddr (c_snapshot_slab k) = sd"
    using Q by (auto simp: quiet_at_def)
  obtain v n' b' t mm where v: "c' sd = PDir (d\<lparr>sd_vector := v\<rparr>)" "vec_wf v" "vec_list v = []"
    and n': "c' si = PInner n'" "node_index n' = node_index n" "node_current n' = node_current n" "q < length (node_snapshot n')"
      "l_maddr (node_snapshot n' ! q) = sb"
    and b': "c' sb = PBucket b'" "sb_id b' = sb_id b" "sb_entries b' = done_upto (copied_at (sb_entries b) l t mm) SLAB_BUCKET_ENTRIES"
    and A: "c' ?A = PData y" and rest: "\<forall>a\<in>U - {?A, sd, si, sb}. c' a = c a"
    using cl unfolding closed_def by blast
  let ?d = "d\<lparr>sd_vector := v\<rparr>"
  note dn = done_copied_nth [OF D(16), of _ l t mm, folded b'(3)]
  have len: "length (sb_entries b') = SLAB_BUCKET_ENTRIES" using b'(3) D(16) by (simp add: copied_at_def done_upto_def)
  have ct: "c' (w_cont r) = c (w_cont r)" using rest D(13) ap(2,3,5) by auto
  have kept: "\<exists>f'. entry_at c' a = Some f' \<and> d_maddr (se_cur f') = d_maddr (se_cur f)"
    if a: "a \<in> set (inorder ?t)" "entry_at c a = Some f" for a f
  proof -
    from D(3) a have U: "d_maddr (se_cur f) \<in> U" "page_base a \<in> U" by (auto simp: indexed_def)
    then have "0 < d_maddr (se_cur f)" using m(1) by (cases "d_maddr (se_cur f) = 0") auto
    then obtain bk where bk: "c (page_base a) = PBucket bk" using bucket_page [OF a(2)] by blast
    show ?thesis
    proof (cases "page_base a = sb")
      case True
      then have "a \<noteq> 0" "se_index a < SLAB_BUCKET_ENTRIES" "f = sb_entries b ! se_index a"
        using a(2) k(3) D(16) by (auto simp: entry_at_def split: if_splits)
      then show ?thesis using True b'(1) len dn(1) by (simp add: entry_at_def)
    next
      case False
      have "page_base a \<notin> {?A, sd, si}" using bk k(2,5) ap(1) by auto
      then have "c' (page_base a) = c (page_base a)" using rest U(2) False by auto
      then have "entry_at c' a = entry_at c a" by (simp add: entry_at_def)
      then show ?thesis using a(2) by simp
    qed
  qed
  have "indexed U c' ?d" by (rule indexed_same [OF D(3)]) (simp, rule kept)
  moreover have "0 < sb" using D(12) m(1) by (cases "sb = 0") auto
  then have "entry_at c' (se_addr sb l) = Some (sb_entries b' ! l)" using entries_of_bucket [of c' sb, OF b'(1) m(2) k(1) len] by simp
  moreover have "dir_is U c' r sd ?d" by (rule dir_is_same [OF D(2)]) (use v ct in simp_all)
  ultimately have "data_page U c' pr r sd ?d (se_addr sb l) (sb_entries b' ! l)"
    using D(1) v(2) dn(2) [OF k(1)] dn(4) [OF k(1,9)] by (simp add: data_page_def)
  moreover have "same_node ((c(sb := PBucket (b\<lparr>sb_has_snapshot := True\<rparr>))) a) ((c'(sb := PBucket (b'\<lparr>sb_has_snapshot := True\<rparr>))) a)"
    if a: "a \<in> U" for a
  proof (cases "a \<in> {?A, sd, si, sb}")
    case True
    then show ?thesis using k(2,5) n' ap by (auto simp: same_node_def)
  qed (use rest a in auto)
  from lone_same [OF subset_refl this k(10), of ?d] have "lone_path U (c'(sb := PBucket (b'\<lparr>sb_has_snapshot := True\<rparr>))) ?d q si sb" by (simp del: fun_upd_apply)
  moreover have "settled U pr sb si (sb_entries b')" unfolding b'(3) by (rule done_settled [OF k(4)])
  ultimately have "quiet_at U c' pr r sd ?d si n' sb b' q l y"
    unfolding quiet_at_def using v(3) k n' b'(1,2) D(12) A ct dn(1,3) [OF k(1)] by simp
  then show ?thesis using dn(1,2) [OF k(1)] by (intro exI [of _ ?d] exI [of _ n'] exI [of _ b']) simp
qed
text \<open>The flags in the page of the container do not matter to the state.\<close>

lemma quiet_cont:
  assumes Q: "quiet_at U c pr r sd d si n sb b q l x" and m: "0 \<notin> U"
    and k: "c (w_cont r) = PCont k" "c_current_slab k' = c_current_slab k" "c_snapshot_slab k' = c_snapshot_slab k"
  shows "quiet_at U (c(w_cont r := PCont k')) pr r sd d si n sb b q l x"
proof -
  let ?c = "c(w_cont r := PCont k')"
  note D = quietD [OF Q] and ap = quiet_apart [OF Q m]
  have entry: "entry_at ?c a = entry_at c a" if "entry_at c a = Some f" for a f
    using that k(1) by (auto simp: entry_at_def split: if_splits)
  have "indexed U ?c d" by (rule indexed_same [OF D(3)]) (use entry in auto)
  moreover have "dir_is U ?c r sd d" using D(2) k(1,2) ap(1,3) by (auto simp: dir_is_def)
  ultimately have data: "data_page U ?c pr r sd d (se_addr sb l) (sb_entries b ! l)" using D(1) entry [OF D(6)] by (simp add: data_page_def)
  have "same_node ((c(sb := PBucket (b\<lparr>sb_has_snapshot := True\<rparr>))) a) ((?c(sb := PBucket (b\<lparr>sb_has_snapshot := True\<rparr>))) a)" for a
    using k(1) ap(5) by (auto simp: same_node_def)
  moreover have "lone_path U (c(sb := PBucket (b\<lparr>sb_has_snapshot := True\<rparr>))) d q si sb" using Q unfolding quiet_at_def by blast
  ultimately have "lone_path U (?c(sb := PBucket (b\<lparr>sb_has_snapshot := True\<rparr>))) d q si sb"
    by (rule lone_same [OF subset_refl, of U "c(sb := PBucket (b\<lparr>sb_has_snapshot := True\<rparr>))"]) (rule refl)+
  moreover note data
  ultimately show ?thesis using Q k ap(2,5) unfolding quiet_at_def by (elim conjE, intro conjI) simp_all
qed

lemma opened_cont:
  "opened U c sd d si n sb b q l y s t c' \<Longrightarrow> a \<notin> {d_maddr (se_cur (sb_entries b ! l)), sd, si, sb} \<Longrightarrow>
    opened U (c(a := p)) sd d si n sb b q l y s t (c'(a := p))"
  by (auto simp: opened_def)

lemma cpoint_opened:
  assumes Q: "quiet_at U c pr r sd d si n sb b q l x" and m: "mem (insert t (insert s U)) c' (opened_prot pr (d_maddr (se_cur (sb_entries b ! l))) s t) k r w"
    and o': "opened U c sd d si n sb b q l y s t c'" and nc: "\<not> w_do_closure r"
  shows "\<exists>w' c'' d' n' b'. container_cpoint w = Inr ((), w') \<and> mem U c'' pr (Suc (Suc k)) r w' \<and>
    quiet_at U c'' pr r sd d' si n' sb b' q l y \<and> sd_size_root d' = sd_size_root d \<and>
    se_cur (sb_entries b' ! l) = se_cur (sb_entries b ! l) \<and> se_size (sb_entries b' ! l) = se_size (sb_entries b ! l)"
proof -
  let ?A = "d_maddr (se_cur (sb_entries b ! l))" and ?V = "insert t (insert s U)" and ?c = "w_cont r"
  let ?set = "\<lambda>k. k\<lparr>c_flags := set_flag (c_flags k) CFLAG_CPOINT_IN_PROGRESS\<rparr>" and ?clear = "\<lambda>k. k\<lparr>c_flags := clear_flag (c_flags k) CFLAG_CPOINT_IN_PROGRESS\<rparr>"
  note D = quietD [OF Q]
  have z: "0 \<notin> U" using mem_zero [OF m] by auto
  have dvd: "PAGE_SIZE dvd sb" using mem_page(3) [OF m] D(12) by simp
  note ap = quiet_apart [OF Q z]
  obtain kc where kc: "c ?c = PCont kc" "l_maddr (c_snapshot_slab kc) = sd" "writable (pr ?c)" using Q by (auto simp: quiet_at_def)
  have cur: "l_maddr (c_current_slab kc) = sd" using D(2) kc(1) by (auto simp: dir_is_def)
  have st: "?c \<noteq> s" "?c \<noteq> t" "?c \<noteq> ?A" using o' D(13) ap(2) by (auto simp: opened_def)
  have c0: "?c \<noteq> 0" using D(13) z by metis
  have c': "c' ?c = PCont kc" using o' D(13) ap(2,3,5) kc(1) by (auto simp: opened_def)
  have wr: "writable (opened_prot pr ?A s t ?c)" using st kc(3) by (simp add: opened_prot_def)
  have the: "the_container w = Inr (?c, w)" using mem_cont [OF m] c0 by (simp add: the_container_def bindM_def)
  have up: "ends (mem ?V c' (opened_prot pr ?A s t) k r) (atomic_set (up_cont touch ?c ?set)) (\<lambda>_. mem ?V (c'(?c := PCont (?set kc))) (opened_prot pr ?A s t) k r)"
    by (intro total_atomic_set total_up(5) [of touch ?c ?V "opened_prot pr ?A s t" c' kc]) (use wr D(13) c' in simp_all)
  from endsD [OF up m] obtain w1 where w1: "atomic_set (up_cont touch ?c ?set) w = Inr ((), w1)"
    and m1: "mem ?V (c'(?c := PCont (?set kc))) (opened_prot pr ?A s t) k r w1" by auto
  have Q1: "quiet_at U (c(?c := PCont (?set kc))) pr r sd d si n sb b q l x" by (rule quiet_cont [OF Q z kc(1)]) simp_all
  have o1: "opened U (c(?c := PCont (?set kc))) sd d si n sb b q l y s t (c'(?c := PCont (?set kc)))"
    by (rule opened_cont [OF o']) (use ap(2,3,5) in auto)
  have cl: "container_compute_closure w1 = Inr ((), w1)"
    using mem_rest [OF m1] nc by (simp add: container_compute_closure_def bindM_def)
  from slab_cpoint_opened [OF Q1 m1 o1] obtain w2 c2 where w2: "slab_cpoint CPOINT_REGULAR w1 = Inr ((), w2)"
    and m2: "mem U c2 pr (Suc (Suc k)) r w2" and c2: "closed U (c(?c := PCont (?set kc))) sd d si n sb b q l y c2" by blast
  have ct: "c2 ?c = PCont (?set kc)" using c2 D(13) ap(2,3,5) by (auto simp: closed_def)
  have rd: "rd_cont ?c w2 = Inr (?set kc, w2)" by (rule rd_at(5) [OF m2 D(13)]) (simp add: ct)
  have dir: "cpoint_dir ?c w2 = Inr ((), w2)" using rd kc(2) cur by (simp add: cpoint_dir_def bindM_step)
  let ?k = "?clear (?set kc)"
  have up2: "ends (mem U c2 pr (Suc (Suc k)) r) (atomic_set (up_cont touch ?c ?clear)) (\<lambda>_. mem U (c2(?c := PCont ?k)) pr (Suc (Suc k)) r)"
    by (intro total_atomic_set total_up(5) [of touch ?c U pr c2 "?set kc"]) (use kc(3) D(13) ct in simp_all)
  from endsD [OF up2 m2] obtain w3 where w3: "atomic_set (up_cont touch ?c ?clear) w2 = Inr ((), w3)"
    and m3: "mem U (c2(?c := PCont ?k)) pr (Suc (Suc k)) r w3" by auto
  let ?w = "w3\<lparr>w_os := stat STATS_RESET_TRANSACTION_COUNTERS (w_os w3)\<rparr>"
  have run: "container_cpoint w = Inr ((), ?w)"
    using the w1 cl w2 dir w3 by (simp add: container_cpoint_def container_cpoint_aux_def bindM_step thenM_step)
  obtain d' n' b' where q: "quiet_at U c2 pr r sd d' si n' sb b' q l y" "sd_size_root d' = sd_size_root d"
    "se_cur (sb_entries b' ! l) = se_cur (sb_entries b ! l)" "se_size (sb_entries b' ! l) = se_size (sb_entries b ! l)"
    using closed_quiet [OF Q1 z dvd c2] by blast
  have "quiet_at U (c2(?c := PCont ?k)) pr r sd d' si n' sb b' q l y" by (rule quiet_cont [OF q(1) z ct]) simp_all
  then show ?thesis using run mem_stat [OF m3] q(2-4) by blast
qed
section \<open>Transactions of the application\<close>

text \<open>A new object is allocated and written, then the container is checkpointed.\<close>

definition transact :: "u32 \<Rightarrow> u8 list \<Rightarrow> nat M" where
  "transact sz bs = bindM (container_palloc sz) (\<lambda>p. thenM (store_bytes p bs) (thenM container_cpoint (retM p)))"

fun transacts :: "u32 \<Rightarrow> u8 list list \<Rightarrow> nat list M" where
  "transacts sz [] = retM []"
| "transacts sz (bs # bss) = bindM (transact sz bs) (\<lambda>p. bindM (transacts sz bss) (\<lambda>ps. retM (p # ps)))"

text \<open>
  The state between two transactions, for the objects of the size \<^verbatim>\<open>z\<close> in the data page \<^verbatim>\<open>a\<close> with the
  contents \<^verbatim>\<open>x\<close>.
\<close>

definition quiet ::
  "nat set \<Rightarrow> (nat \<Rightarrow> nat) \<Rightarrow> nat \<Rightarrow> world \<Rightarrow> nat \<Rightarrow> nat \<Rightarrow> nat \<Rightarrow> nat \<Rightarrow> nat \<Rightarrow> nat \<Rightarrow> nat \<Rightarrow> (nat \<Rightarrow> u8) \<Rightarrow> world \<Rightarrow> bool" where
  "quiet U pr k r sd si sb q l z a x w \<longleftrightarrow>
     (\<exists>c d n b. mem U c pr k r w \<and> quiet_at U c pr r sd d si n sb b q l x \<and>
        class_of_size r (sd_size_root d) z (se_addr sb l) \<and> se_size (sb_entries b ! l) = z \<and> d_maddr (se_cur (sb_entries b ! l)) = a)"

text \<open>The slots of a size: their number, the first one, and the bitmap before it.\<close>

definition slots :: "nat \<Rightarrow> nat \<Rightarrow> nat \<Rightarrow> bool" where
  "slots z cap off \<longleftrightarrow> z \<noteq> 0 \<and> z mod 8 = 0 \<and> z < SLAB_LARGE_ALLOC \<and> z \<notin> {8, 16, 24, 56} \<and>
     SLAB_ENTRY_CAPACITY (zero_entry\<lparr>se_size := z\<rparr>) = Inr cap \<and> SLAB_ENTRY_DATAOFFSET (zero_entry\<lparr>se_size := z\<rparr>) = Inr off"

lemma slots_layout:
  assumes "slots z cap off"
  shows "off + cap * z \<le> PAGE_SIZE" "(cap + 7) div 8 \<le> off"
    and "se_size e = z \<Longrightarrow> SLAB_ENTRY_CAPACITY e = Inr cap \<and> SLAB_ENTRY_DATAOFFSET e = Inr off"
proof -
  obtain m where m: "z = 8 * m" "0 < m" "m < 64" "m \<notin> {1, 2, 3, 7}"
  proof (rule that [of "z div 8"])
    have "z = 8 * (z div 8)" using assms by (auto simp: slots_def)
    then show "z = 8 * (z div 8)" "0 < z div 8" "z div 8 < 64" "z div 8 \<notin> {1, 2, 3, 7}"
      using assms by (auto simp: slots_def SLAB_LARGE_ALLOC_def)
  qed
  have "layout_row m" using layout_rows m(2,3) by (simp add: list_all_iff)
  moreover have "cap = (4096 - (z + 7) div 8) div z" "off = (4096 div z + 7) div 8"
    using assms by (auto simp: slots_def SLAB_ENTRY_CAPACITY_def SLAB_ENTRY_DATAOFFSET_def bitstr_size_div PAGE_SIZE_def)
  ultimately show "off + cap * z \<le> PAGE_SIZE" "(cap + 7) div 8 \<le> off"
    using m unfolding layout_row_def Let_def by (simp_all add: PAGE_SIZE_def)
  show "SLAB_ENTRY_CAPACITY e = Inr cap \<and> SLAB_ENTRY_DATAOFFSET e = Inr off" if "se_size e = z"
  proof -
    have "SLAB_ENTRY_CAPACITY e = SLAB_ENTRY_CAPACITY (zero_entry\<lparr>se_size := z\<rparr>)"
      "SLAB_ENTRY_DATAOFFSET e = SLAB_ENTRY_DATAOFFSET (zero_entry\<lparr>se_size := z\<rparr>)"
      by (simp_all add: SLAB_ENTRY_CAPACITY_def SLAB_ENTRY_DATAOFFSET_def that)
    then show ?thesis using assms by (simp add: slots_def)
  qed
qed

lemma bit_overwrite:
  assumes "slots z cap off" "j < cap" "off \<le> o'"
  shows "bit_test (overwrite x o' bs) j = bit_test x j"
proof -
  have "j div 8 < off" using slots_layout(2) [OF assms(1)] assms(2) by linarith
  then show ?thesis using assms(3) by (simp add: bit_test_def overwrite_def bit_byte_div)
qed

lemma slot_page:
  assumes "slots z cap off" "i < cap" "PAGE_SIZE dvd a"
  shows "page_base (a + off + i * z) = a" "(a + off + i * z) mod PAGE_SIZE = off + i * z"
proof -
  have "Suc i * z \<le> cap * z" using assms(2) by (intro mult_le_mono1) simp
  moreover have "0 < z" using assms(1) by (simp add: slots_def)
  ultimately have "off + i * z < PAGE_SIZE" using slots_layout(1) [OF assms(1)] by simp
  then show "page_base (a + off + i * z) = a" "(a + off + i * z) mod PAGE_SIZE = off + i * z"
    using assms(3) by (auto simp: page_base_def add.assoc elim!: dvdE)
qed

lemma transact_once:
  assumes st: "quiet U pr (Suc (Suc k)) r sd si sb q l z a x w" and r: "\<not> w_copynswap r" "\<not> w_do_closure r"
    and z: "unat (ROUND8 sz) = z" "unat sz \<le> PAGE_SIZE" "slots z cap off"
    and i: "\<forall>j<cap. bit_test x j \<noteq> 0 \<longleftrightarrow> j < i" "Suc i < cap"
  shows "\<exists>w'. transact sz bs w = Inr (a + off + i * z, w') \<and>
    quiet U pr (Suc (Suc k)) r sd si sb q l z a (overwrite (bit_set x i) (off + i * z) bs) w'"
proof -
  obtain c d n b where m: "mem U c pr (Suc (Suc k)) r w" and Q: "quiet_at U c pr r sd d si n sb b q l x"
    and s: "class_of_size r (sd_size_root d) (se_size (sb_entries b ! l)) (se_addr sb l)" "se_size (sb_entries b ! l) = z"
      "d_maddr (se_cur (sb_entries b ! l)) = a" using st by (auto simp: quiet_def)
  note D = quietD [OF Q] and ap = quiet_apart [OF Q mem_zero [OF m]]
  have dvd: "PAGE_SIZE dvd a" using mem_page(3) [OF m] D(14) s(3) by simp
  have f: "free_slot (sb_entries b ! l) x cap off i"
    using slots_layout(3) [OF z(3) s(2)] z(3) s(2) i by (simp add: free_slot_def slots_def)
  from palloc_opens [OF Q m r(1) s(1) _ z(2) f] z(1) s(2,3) obtain w1 c1 s' t where
    w1: "container_palloc sz w = Inr (a + off + i * z, w1)" and m1: "mem (insert t (insert s' U)) c1 (opened_prot pr a s' t) k r w1"
    and o1: "opened U c sd d si n sb b q l (bit_set x i) s' t c1" by auto
  have i': "i < cap" using i(2) by simp
  have "page_base (a + off + i * z) = d_maddr (se_cur (sb_entries b ! l))" using slot_page(1) [OF z(3) i' dvd] s(3) by simp
  from store_bytes_opened [OF m1 [folded s(3)] o1 this] D(14) ap(2) obtain w2 c2 where
    w2: "store_bytes (a + off + i * z) bs w1 = Inr ((), w2)" and m2: "mem (insert t (insert s' U)) c2 (opened_prot pr (d_maddr (se_cur (sb_entries b ! l))) s' t) k r w2"
    and o2: "opened U c sd d si n sb b q l (overwrite (bit_set x i) (off + i * z) bs) s' t c2"
    unfolding slot_page(2) [OF z(3) i' dvd] by blast
  obtain w3 c3 d' n' b' where w3: "container_cpoint w2 = Inr ((), w3)" "mem U c3 pr (Suc (Suc k)) r w3"
    "quiet_at U c3 pr r sd d' si n' sb b' q l (overwrite (bit_set x i) (off + i * z) bs)" "sd_size_root d' = sd_size_root d"
    "se_cur (sb_entries b' ! l) = se_cur (sb_entries b ! l)" "se_size (sb_entries b' ! l) = se_size (sb_entries b ! l)"
    using cpoint_opened [OF Q m2 o2 r(2)] by blast
  have "transact sz bs w = Inr (a + off + i * z, w3)"
    using w1 w2 w3(1) by (simp add: transact_def bindM_step thenM_step)
  moreover have "quiet U pr (Suc (Suc k)) r sd si sb q l z a (overwrite (bit_set x i) (off + i * z) bs) w3"
    unfolding quiet_def by (intro exI [of _ c3] exI [of _ d'] exI [of _ n'] exI [of _ b']) (use w3(2-6) s in simp)
  ultimately show ?thesis by blast
qed
text \<open>What the state between two transactions means for the process.\<close>

lemma quiet_means:
  assumes "quiet U pr k r sd si sb q l z a x w"
  shows "pa_in_use (w_pa w, w_os w) = U" "pa_spare (w_pa w, w_os w) = k" "rd_data a w = Inr (x, w)"
    "os_prot (w_os w) (vpn a) = PA_PROT_READ"
    "\<exists>e. rd_se (se_addr sb l) w = Inr (e, w) \<and> d_maddr (se_cur e) = a \<and> d_maddr (se_snap e) = a"
proof -
  obtain c d n b where m: "mem U c pr k r w" and Q: "quiet_at U c pr r sd d si n sb b q l x"
    and a: "d_maddr (se_cur (sb_entries b ! l)) = a" using assms by (auto simp: quiet_def)
  note D = quietD [OF Q]
  have k: "settled U pr sb si (sb_entries b)" "l < SLAB_BUCKET_ENTRIES" "as_data (c a) = Some x"
    using Q a by (auto simp: quiet_at_def)
  show "pa_in_use (w_pa w, w_os w) = U" "pa_spare (w_pa w, w_os w) = k" using m by (auto simp: mem_def)
  show "rd_data a w = Inr (x, w)" by (rule rd_at(6) [OF m _ k(3)]) (use D(14) a in simp)
  show "os_prot (w_os w) (vpn a) = PA_PROT_READ" using mem_page(5) [OF m D(14)] D(15) a by simp
  have "rd_se (se_addr sb l) w = Inr (sb_entries b ! l, w)"
    by (rule rd_se_ok [OF m data_pageD(1) [OF D(1)] D(6)])
  then show "\<exists>e. rd_se (se_addr sb l) w = Inr (e, w) \<and> d_maddr (se_cur e) = a \<and> d_maddr (se_snap e) = a"
    using settledD(2) [OF k(1,2) D(9)] a by auto
qed

lemma transacts_run:
  assumes r: "\<not> w_copynswap r" "\<not> w_do_closure r"
    and z: "unat (ROUND8 sz) = z" "unat sz \<le> PAGE_SIZE" "slots z cap off"
    and st: "quiet U pr (Suc (Suc k)) r sd si sb q l z a x w"
    and i: "\<forall>j<cap. bit_test x j \<noteq> 0 \<longleftrightarrow> j < i" "i + length bss < cap" "\<forall>bs\<in>set bss. length bs \<le> z"
  shows "\<exists>w' y. transacts sz bss w = Inr (map (\<lambda>j. a + off + j * z) [i..<i + length bss], w') \<and>
    quiet U pr (Suc (Suc k)) r sd si sb q l z a y w' \<and>
    (\<forall>j<cap. bit_test y j \<noteq> 0 \<longleftrightarrow> j < i + length bss) \<and>
    (\<forall>j<length bss. \<forall>m<length (bss ! j). y (off + (i + j) * z + m) = bss ! j ! m) \<and>
    (\<forall>p. off \<le> p \<and> p < off + i * z \<longrightarrow> y p = x p)"
  using st i
proof (induction bss arbitrary: i x w)
  case Nil
  then show ?case by (intro exI [of _ w] exI [of _ x]) simp
next
  case (Cons bs bss)
  let ?y = "overwrite (bit_set x i) (off + i * z) bs"
  have i: "i < cap" "Suc i < cap" "Suc i + length bss < cap" using Cons.prems(3) by simp_all
  obtain w1 where w1: "transact sz bs w = Inr (a + off + i * z, w1)" "quiet U pr (Suc (Suc k)) r sd si sb q l z a ?y w1"
    using transact_once [OF Cons.prems(1) r z Cons.prems(2) i(2)] by blast
  have "bit_test ?y j \<noteq> 0 \<longleftrightarrow> j < Suc i" if j: "j < cap" for j
  proof -
    have "bit_test ?y j = bit_test (bit_set x i) j" by (rule bit_overwrite [OF z(3) j]) simp
    then show ?thesis using Cons.prems(2) j by (auto simp: bits_bit_set)
  qed
  then have "\<forall>j<cap. bit_test ?y j \<noteq> 0 \<longleftrightarrow> j < Suc i" by blast
  from Cons.IH [OF w1(2) this i(3)] Cons.prems(4) obtain w2 y where
    w2: "transacts sz bss w1 = Inr (map (\<lambda>j. a + off + j * z) [Suc i..<Suc i + length bss], w2)"
    and y: "quiet U pr (Suc (Suc k)) r sd si sb q l z a y w2" "\<forall>j<cap. bit_test y j \<noteq> 0 \<longleftrightarrow> j < Suc i + length bss"
      "\<forall>j<length bss. \<forall>m<length (bss ! j). y (off + (Suc i + j) * z + m) = bss ! j ! m"
      "\<forall>p. off \<le> p \<and> p < off + Suc i * z \<longrightarrow> y p = ?y p" by auto
  have "transacts sz (bs # bss) w = Inr (map (\<lambda>j. a + off + j * z) [i..<i + length (bs # bss)], w2)"
    using w1(1) w2 upt_conv_Cons [of i "i + length (bs # bss)"] by (simp add: bindM_step)
  moreover have "y (off + (i + j) * z + m) = (bs # bss) ! j ! m" if "j < length (bs # bss)" "m < length ((bs # bss) ! j)" for j m
  proof (cases j)
    case 0
    then have "m < z" using that(2) Cons.prems(4) by auto
    then have "y (off + i * z + m) = ?y (off + i * z + m)" using y(4) by simp
    then show ?thesis using 0 that(2) by (simp add: overwrite_def)
  next
    case (Suc j')
    then show ?thesis using y(3) that by simp
  qed
  moreover have "y p = x p" if p: "off \<le> p" "p < off + i * z" for p
  proof -
    have "i div 8 < off" using slots_layout(2) [OF z(3)] i(1) by linarith
    then have "?y p = x p" using p by (simp add: overwrite_def bit_set_def bit_byte_div)
    then show ?thesis using y(4) p by simp
  qed
  ultimately show ?case using y(1,2) by (intro exI [of _ w2] exI [of _ y]) simp
qed

text \<open>
  C2: Transactions through the interface, within one data page.  The setting: closure and \<^verbatim>\<open>copynswap\<close>
  off, two free pages, the objects of one size, whose rounded size is below 512 and none of 8, 16, 24
  and 56, in the data page \<^verbatim>\<open>a\<close>, whose first \<^verbatim>\<open>i\<close> slots are in use; the entry of the page has no page of
  pointers, its bucket is at the index of its inner node that is the number of this node, and no
  bucket has the flag of a snapshot.  Let \<^verbatim>\<open>i\<close> and the number of new objects be together below the
  number of slots of the page.  Then one transaction per new object, which allocates it, writes it
  and checkpoints the container, returns.  The objects are the next slots in order; the page holds
  exactly their bytes there and the bytes of the older objects; it is committed and write-protected
  again; the pages in use are the same as before, with two pages free.  Nothing is said of the
  transaction that takes the last slot.
\<close>

theorem allocations_are_committed:
  assumes "quiet U pr (Suc (Suc k)) r sd si sb q l z a x w" "\<not> w_copynswap r" "\<not> w_do_closure r"
    and "unat (ROUND8 sz) = z" "unat sz \<le> PAGE_SIZE" "slots z cap off"
    and "\<forall>j<cap. bit_test x j \<noteq> 0 \<longleftrightarrow> j < i" "i + length bss < cap" "\<forall>bs\<in>set bss. length bs \<le> z"
  shows "\<exists>w' y e. transacts sz bss w = Inr (map (\<lambda>j. a + off + j * z) [i..<i + length bss], w') \<and>
    quiet U pr (Suc (Suc k)) r sd si sb q l z a y w' \<and>
    rd_data a w' = Inr (y, w') \<and> (\<forall>j<cap. bit_test y j \<noteq> 0 \<longleftrightarrow> j < i + length bss) \<and>
    (\<forall>j<length bss. \<forall>m<length (bss ! j). y (off + (i + j) * z + m) = bss ! j ! m) \<and>
    (\<forall>p. off \<le> p \<and> p < off + i * z \<longrightarrow> y p = x p) \<and>
    rd_se (se_addr sb l) w' = Inr (e, w') \<and> d_maddr (se_cur e) = a \<and> d_maddr (se_snap e) = a \<and>
    os_prot (w_os w') (vpn a) = PA_PROT_READ \<and> pa_in_use (w_pa w', w_os w') = U \<and> pa_spare (w_pa w', w_os w') = Suc (Suc k)"
proof -
  obtain w' y where w': "transacts sz bss w = Inr (map (\<lambda>j. a + off + j * z) [i..<i + length bss], w')"
    and y: "quiet U pr (Suc (Suc k)) r sd si sb q l z a y w'" "\<forall>j<cap. bit_test y j \<noteq> 0 \<longleftrightarrow> j < i + length bss"
      "\<forall>j<length bss. \<forall>m<length (bss ! j). y (off + (i + j) * z + m) = bss ! j ! m"
      "\<forall>p. off \<le> p \<and> p < off + i * z \<longrightarrow> y p = x p"
    using transacts_run [OF assms(2-6,1,7-9)] by blast
  note q = quiet_means [OF y(1)]
  from q(5) obtain e where "rd_se (se_addr sb l) w' = Inr (e, w')" "d_maddr (se_cur e) = a" "d_maddr (se_snap e) = a" by blast
  then show ?thesis using w' y q(1-4) by (intro exI [of _ w'] exI [of _ y] exI [of _ e] conjI)
qed
section \<open>Examples\<close>

text \<open>The example container with a tree of sizes that leads to its entry, and without pointers.\<close>

definition sized_dir :: slab_dir where "sized_dir = demo_dir\<lparr>sd_size_root := RNode RB_BLACK RNil 1 RNil\<rparr>"

definition sized_contents :: "nat \<Rightarrow> page" where
  "sized_contents = demo_contents(1 := PDir sized_dir, 2 := PBucket plain_bucket)"

definition sized_world :: world where
  "sized_world = demo_world\<lparr>w_os := demo_os\<lparr>os_pages := sized_contents\<rparr>, w_es := (\<lambda>_. 32),
     w_links := set_cell (LFirst (es_list_head 1)) demo_se empty_links\<rparr>"

definition sized_c :: "nat \<Rightarrow> page" where "sized_c a = the (page_at (w_os sized_world) a)"

lemma sized_mem: "mem demo_used sized_c demo_pr (Suc 0) (rest sized_world) sized_world"
  unfolding sized_c_def [abs_def] by (rule shown_mem) (simp_all add: sized_world_def demo_world_def)

lemma sized_at: "i < 8 \<Longrightarrow> sized_c (demo_page i) = sized_contents i"
  unfolding sized_c_def by (rule shown_at) (simp_all add: sized_world_def)

lemma sized_rest:
  "w_cont (rest sized_world) = demo_page 0" "\<not> w_copynswap (rest sized_world)" "\<not> w_do_closure (rest sized_world)"
  "class_of_size (rest sized_world) (sd_size_root sized_dir) 32 demo_se"
  by (simp_all add: rest_def sized_world_def demo_world_def sized_dir_def class_of_size_def RB_FIND_def Let_def
      size_cmp_def slab_entry_size_compare_by_size_def STAILQ_FIRST_def set_cell_def node_elem_def)

abbreviation "sized_used \<equiv> demo_used - {demo_page 6}"

lemma sized_pages:
  "sized_c (demo_page 0) = PCont (zero_cont\<lparr>c_current_slab := demo_link 1, c_snapshot_slab := demo_link 1\<rparr>)"
  "sized_c (demo_page 1) = PDir sized_dir" "sized_c (demo_page 2) = PBucket plain_bucket" "sized_c (demo_page 3) = PZero"
  "sized_c (demo_page 4) = POuter (demo_node 5)" "sized_c (demo_page 5) = PInner (demo_node 2)"
  by (simp_all add: sized_at sized_contents_def demo_contents_def)

lemma plain_entries:
  "sb_entries plain_bucket ! 0 = plain_entry" "length (sb_entries plain_bucket) = SLAB_BUCKET_ENTRIES"
  "i < SLAB_BUCKET_ENTRIES \<Longrightarrow> SLAB_ENTRY_IS_INIT (sb_entries plain_bucket ! i) \<Longrightarrow> i = 0"
  "d_maddr (se_cur plain_entry) = demo_page 3" "d_maddr (se_snap plain_entry) = demo_page 3" "freed_ptrs plain_entry = {}"
  "p_maddr (ptr_cur plain_entry) = 0" "p_maddr (ptr_snap plain_entry) = 0" "se_size plain_entry = 32" "sb_id plain_bucket = 0"
proof -
  have z: "\<not> SLAB_ENTRY_IS_INIT zero_entry" by (simp add: SLAB_ENTRY_IS_INIT_def zero_entry_def zero_data_def)
  have es: "sb_entries plain_bucket = (replicate SLAB_BUCKET_ENTRIES zero_entry)[0 := plain_entry]"
    by (simp add: plain_bucket_def demo_bucket_def)
  show "sb_entries plain_bucket ! 0 = plain_entry" "length (sb_entries plain_bucket) = SLAB_BUCKET_ENTRIES"
    by (simp_all add: es entries_numbers)
  show "i = 0" if "i < SLAB_BUCKET_ENTRIES" "SLAB_ENTRY_IS_INIT (sb_entries plain_bucket ! i)"
    using that z by (cases "i = 0") (simp_all add: es)
  show "d_maddr (se_cur plain_entry) = demo_page 3" "d_maddr (se_snap plain_entry) = demo_page 3" "freed_ptrs plain_entry = {}"
    "p_maddr (ptr_cur plain_entry) = 0" "p_maddr (ptr_snap plain_entry) = 0" "se_size plain_entry = 32" "sb_id plain_bucket = 0"
    by (simp_all add: plain_entry_def demo_entry_def freed_ptrs_def zero_pref_def zero_entry_def plain_bucket_def demo_bucket_def zero_bucket_def)
qed

lemma sized_data_page:
  "data_page sized_used sized_c demo_pr (rest sized_world) (demo_page 1) sized_dir demo_se plain_entry"
proof -
  have e: "entry_at sized_c demo_se = Some plain_entry"
    using sized_pages(3) plain_entries(1,2) by (simp add: entry_at_def demo_at(4,5)) (simp add: demo_se_def entries_numbers)
  have "dir_is sized_used sized_c (rest sized_world) (demo_page 1) sized_dir"
    using sized_rest(1) sized_pages(1,2) by (simp add: dir_is_def demo_link_def)
  moreover have "rb_inv (RNode RB_BLACK RNil demo_se RNil)" by (auto simp: rb_inv_def intro: exI [of _ 1])
  then have "indexed sized_used sized_c sized_dir"
    using e by (simp add: indexed_def sized_dir_def demo_dir_def rb_tree_def ascending_def demo_at(4) plain_entries(4))
  moreover have "writable (demo_pr (demo_page 1))" "writable (demo_pr (demo_page 2))"
    unfolding demo_views(2) by (simp_all add: writable_def PA_PROT_WRITE_def)
  ultimately show ?thesis
    using e plain_entries(8,9) unfolding data_page_def demo_at(4) by (simp add: sized_dir_def demo_dir_def PAGE_SIZE_def)
qed

lemma sized_lone:
  "lone_path sized_used (sized_c(demo_page 2 := PBucket (plain_bucket\<lparr>sb_has_snapshot := True\<rparr>))) sized_dir 0 (demo_page 5) (demo_page 2)"
  unfolding lone_path_def
proof (intro exI [of _ "demo_page 4"] conjI)
  let ?c = "sized_c(demo_page 2 := PBucket (plain_bucket\<lparr>sb_has_snapshot := True\<rparr>))"
  show "dir_but sized_used ?c sized_dir (0 div SLAB_OUTER_ENTRIES mod SLAB_DIR_ENTRIES) (demo_page 4)"
    by (simp add: dir_but_def sized_dir_def demo_dir_def zero_dir_def demo_link_def entries_numbers)
  show "outer_but sized_used ?c (demo_page 4) (0 mod SLAB_OUTER_ENTRIES) (demo_page 5)"
    by (simp add: outer_but_def sized_pages) (simp add: demo_node_def zero_inner_def demo_link_def entries_numbers)
  show "inner_but sized_used ?c (demo_page 5) 0 (demo_page 2)"
    by (simp add: inner_but_def sized_pages) (simp add: demo_node_def zero_inner_def demo_link_def entries_numbers)
qed

lemma sized_quiet:
  "quiet_at sized_used sized_c demo_pr (rest sized_world) (demo_page 1) sized_dir (demo_page 5) (demo_node 2) (demo_page 2)
     plain_bucket 0 0 (\<lambda>_. 0)"
proof -
  have "se_addr (demo_page 2) 0 = demo_se" by (simp add: se_addr_def demo_se_def)
  moreover have "settled sized_used demo_pr (demo_page 2) (demo_page 5) (sb_entries plain_bucket)"
  proof -
    have at: "i = 0 \<and> sb_entries plain_bucket ! i = plain_entry"
      if "i < SLAB_BUCKET_ENTRIES" "SLAB_ENTRY_IS_INIT (sb_entries plain_bucket ! i)" for i
      using plain_entries(3) [OF that] plain_entries(1) by simp
    show ?thesis
      unfolding settled_def
      by (intro conjI allI impI) (use at plain_entries(2,4-6) in \<open>auto simp: demo_views(2) dest!: at\<close>)
  qed
  moreover have "writable (demo_pr (demo_page 5))" "writable (demo_pr (demo_page 0))"
    unfolding demo_views(2) by (simp_all add: writable_def PA_PROT_WRITE_def)
  moreover have "0 < length (node_snapshot (demo_node 2))" "l_maddr (node_snapshot (demo_node 2) ! 0) = demo_page 2"
    by (simp_all add: demo_node_def zero_inner_def demo_link_def entries_numbers)
  moreover have "0 < SLAB_BUCKET_ENTRIES" "l_maddr (demo_link 1) = demo_page 1" "vec_list (sd_vector sized_dir) = []"
    by (simp_all add: entries_numbers demo_link_def sized_dir_def demo_dir_def)
  ultimately show ?thesis
    using sized_data_page sized_lone sized_rest(1) sized_pages plain_entries
    unfolding quiet_at_def by simp
qed
theorem allocations_are_committed_witness:
  "\<exists>w0 w1. freepage (demo_page 6) sized_world = Inr ((), w0) \<and>
     transacts 32 [[1, 2, 3], [4]] w0 = Inr ([demo_page 3 + 16, demo_page 3 + 48], w1) \<and>
     (\<exists>y. rd_data (demo_page 3) w1 = Inr (y, w1) \<and> y 18 = 3 \<and> y 48 = 4) \<and>
     pa_spare (w_pa w1, w_os w1) = 2"
proof -
  let ?r = "rest sized_world"
  have se: "se_addr (demo_page 2) 0 = demo_se" by (simp add: se_addr_def demo_se_def)
  obtain w0 where w0: "freepage (demo_page 6) sized_world = Inr ((), w0)" "mem sized_used sized_c demo_pr (Suc (Suc 0)) ?r w0"
    using endsD [OF total_freepage [of "demo_page 6"] sized_mem] by auto
  have q: "quiet sized_used demo_pr (Suc (Suc 0)) ?r (demo_page 1) (demo_page 5) (demo_page 2) 0 0 32 (demo_page 3) (\<lambda>_. 0) w0"
    unfolding quiet_def
    by (intro exI [of _ sized_c] exI [of _ sized_dir] exI [of _ "demo_node 2"] exI [of _ plain_bucket] conjI w0(2) sized_quiet)
      (use sized_rest(4) plain_entries in \<open>simp_all add: se\<close>)
  have s: "slots 32 127 16"
    by (simp add: slots_def SLAB_LARGE_ALLOC_def SLAB_ENTRY_CAPACITY_def SLAB_ENTRY_DATAOFFSET_def bitstr_size_div PAGE_SIZE_def)
  have sz: "unat (ROUND8 (32 :: u32)) = 32" by (simp add: ROUND8_def)
  have b: "\<forall>j<127. bit_test (\<lambda>_. 0) j \<noteq> 0 \<longleftrightarrow> j < 0" by (simp add: bits_def)
  have le: "unat (32 :: u32) \<le> PAGE_SIZE" by (simp add: PAGE_SIZE_def)
  have n: "length [[1, 2, 3], [4 :: u8]] = 2" "(2 :: nat) < 127" "(\<forall>bs\<in>set [[1, 2, 3], [4 :: u8]]. length bs \<le> 32) = True" by simp_all
  have "\<exists>w' y. transacts 32 [[1, 2, 3], [4]] w0 = Inr (map (\<lambda>j. demo_page 3 + 16 + j * 32) [0..<2], w') \<and>
      rd_data (demo_page 3) w' = Inr (y, w') \<and>
      (\<forall>j<2. \<forall>m<length ([[1, 2, 3], [4]] ! j :: u8 list). y (16 + j * 32 + m) = [[1, 2, 3], [4]] ! j ! m) \<and>
      pa_spare (w_pa w', w_os w') = Suc (Suc 0)"
    using allocations_are_committed [OF q sized_rest(2,3) sz le s b, of "[[1, 2, 3], [4]]"] n by (simp only: add_0 n simp_thms) blast
  then obtain w1 y where w1: "transacts 32 [[1, 2, 3], [4]] w0 = Inr (map (\<lambda>j. demo_page 3 + 16 + j * 32) [0..<2], w1)"
      "rd_data (demo_page 3) w1 = Inr (y, w1)" "pa_spare (w_pa w1, w_os w1) = Suc (Suc 0)"
    and y: "\<And>j m. j < 2 \<Longrightarrow> m < length ([[1, 2, 3], [4]] ! j :: u8 list) \<Longrightarrow> y (16 + j * 32 + m) = [[1, 2, 3], [4]] ! j ! m" by blast
  have "y 18 = 3" "y 48 = 4" using y [of 0 2] y [of 1 0] by simp_all
  moreover have "map (\<lambda>j. demo_page 3 + 16 + j * 32) [0..<2] = [demo_page 3 + 16, demo_page 3 + 48]" by (simp add: upt_rec)
  ultimately show ?thesis using w0(1) w1 by (intro exI [of _ w0] exI [of _ w1]) simp
qed

end
