(* ===== verification/Fresh.thy ===== *)
theory Fresh
  imports Transact
begin

text \<open>
  From an empty file to the first committed object: \<^verbatim>\<open>container_init\<close> with the fixed mapper builds a
  container with one bucket, the first transaction allocates an entry of it with its data page, and
  the state it leaves is the one between two transactions of \<^verbatim>\<open>Transact\<close>, which go on until one slot of
  the data page is left.  The pages are not cleared
  by the code; it relies on the pages of a new file, which the assertion \<^verbatim>\<open>memz True\<close> keeps track of.
\<close>

section \<open>The other fields of the process\<close>

lemma memz_rest:
  assumes "memz z U c pr k r w" "w_pa (g w) = w_pa w" "w_os (g w) = w_os w" "rest (g w) = g (rest w)"
  shows "memz z U c pr k (g r) (g w)"
  using assms by (auto simp: memz_def untouched_def)

lemma total_mod:
  assumes "\<And>w. w_pa (g w) = w_pa w" "\<And>w. w_os (g w) = w_os w" "\<And>w. rest (g w) = g (rest w)"
  shows "ends (memz z U c pr k r) (modM g) (\<lambda>_. memz z U c pr k (g r))"
  using memz_rest [of z U c pr k r _ g] assms by (simp add: ends_def)

lemma total_get:
  assumes "\<And>w. memz z U c pr k r w \<Longrightarrow> f w = x" "ends (memz z U c pr k r) (h x) Q"
  shows "ends (memz z U c pr k r) (bindM (getM f) h) Q"
  using assms by (simp add: ends_def)

lemma ends_unit: "ends P m (\<lambda>_. Q) \<Longrightarrow> P w \<Longrightarrow> \<exists>w'. m w = Inr ((), w') \<and> Q w'"
  by (auto simp: ends_def)

lemma memz_fields:
  "memz z U c pr k r w \<Longrightarrow> w_cont w = w_cont r \<and> w_links w = w_links r \<and> w_next_sb w = w_next_sb r \<and> w_next_se w = w_next_se r \<and>
     w_next_es w = w_next_es r \<and> w_es w = w_es r \<and> w_copynswap w = w_copynswap r \<and> w_do_closure w = w_do_closure r"
  by (auto simp: memz_def rest_def)

lemma total_reading:
  assumes "\<And>w. memz z U c pr k r w \<Longrightarrow> m w = Inr (x, w)" "ends (memz z U c pr k r) (f x) Q"
  shows "ends (memz z U c pr k r) (bindM m f) Q"
  using assms unfolding ends_def by (metis bindM_step)

lemma total_touch:
  assumes "page_base a \<in> U" "writable (pr (page_base a))"
  shows "ends (memz z U c pr k r) (touch a) (\<lambda>_. memz z U c pr k r)"
  unfolding ends_def
proof (intro allI impI)
  fix w
  assume "memz z U c pr k r w"
  from stores_ok [of touch, OF stores_touch this assms] show "\<exists>x w'. touch a w = Inr (x, w') \<and> memz z U c pr k r w'"
    using \<open>memz z U c pr k r w\<close> by simp
qed

section \<open>A new file\<close>

text \<open>
  A process that has just started, with an empty file that can grow to its initial size, a free
  place for the mapping, the fixed mapper and no closure.
\<close>

definition new_process :: "env \<Rightarrow> world \<Rightarrow> bool" where
  "new_process e w \<longleftrightarrow>
     os_len (w_os w) = 0 \<and> (\<forall>j. os_pages (w_os w) j = PZero) \<and> (\<forall>v. os_vm (w_os w) v = None) \<and>
     initial_size e \<le> os_space (w_os w) \<and>
     (let a = unat (map_hint (of_nat (initial_size e)) (os_maps (w_os w)))
      in 0 < a \<and> PAGE_SIZE dvd a \<and> os_place (w_os w) a (initial_size e) = a) \<and>
     w_cont w = 0 \<and> w_next_sb w = 0 \<and> 0 < w_next_es w \<and> \<not> w_copynswap w \<and>
     PMLIB_USE_NLMAPPER e \<noteq> Some 1 \<and> PMLIB_CLOSURE e = Some 0"

lemma grow_maps: "fixed_mapper_grow_file h n s = Inr (h', s') \<Longrightarrow> os_vm s' = os_vm s"
  by (auto simp: fixed_mapper_grow_file_def posix_fallocate_def Let_def bindR_Inr_iff stat_def split: if_splits)

lemma map_file_maps:
  assumes "map_file h False s = Inr (h', s')" "\<And>v. os_vm s v = None" "os_vm s' v \<noteq> None"
  shows "os_prot s' v = PA_PROT_READ"
proof -
  obtain a n t where "s' = snd (sys_mmap a n DEFAULT_MAPPING_PROT 0 t)" "t = s \<or> t = sys_munmap a n s"
  proof (cases "start_addr h = 0")
    case True
    then show thesis using assms(1) that
      by (auto simp: map_file_def Let_def bindR_Inr_iff split: prod.splits) (metis snd_conv)
  next
    case False
    then show thesis using assms(1) that
      by (auto simp: map_file_def Let_def bindR_Inr_iff split: prod.splits) (metis snd_conv)
  qed
  then show ?thesis using assms(2,3) by (auto simp: sys_mmap_def sys_munmap_def Let_def DEFAULT_MAPPING_PROT_def split: if_splits)
qed

lemma init_new_maps:
  assumes "fixed_mapper_init e s = Inr (fm, s')" "os_len s = 0" "\<And>v. os_vm s v = None" "os_vm s' v \<noteq> None"
  shows "os_prot s' v = PA_PROT_READ"
proof -
  obtain h s1 where "fixed_mapper_grow_file \<lparr>file_size = 0, start_addr = 0, fl_size = 0, fl_last = 0,
      links = LIST_INIT empty_links FREE_HEAD, index = []\<rparr> (initial_size e) s = Inr (h, s1)" "map_file h False s1 = Inr (fm, s')"
    using assms(1,2) by (auto simp: fixed_mapper_init_def Let_def bindR_Inr_iff)
  from map_file_maps [OF this(2) _ assms(4)] grow_maps [OF this(1)] assms(3) show ?thesis by simp
qed

lemma pa_init_new:
  assumes n: "new_process e w"
  shows "\<exists>w'. pa_init e w = Inr ((), w') \<and> memz True {} c pr (initial_size e div PAGE_SIZE) (rest w) w' \<and>
    (\<forall>a l w''. getpage PA_PROT_WRITE w' = Inr ((a, l), w'') \<longrightarrow> l = 0)"
proof -
  let ?n = "initial_size e div PAGE_SIZE"
  from n have p: "os_len (w_os w) = 0" "\<And>j. os_pages (w_os w) j = PZero" "\<And>v. os_vm (w_os w) v = None"
    "initial_size e \<le> os_space (w_os w)" "PMLIB_USE_NLMAPPER e \<noteq> Some 1" by (auto simp: new_process_def)
  obtain a where a: "unat (map_hint (of_nat (initial_size e)) (os_maps (w_os w))) = a" "0 < a" "PAGE_SIZE dvd a"
    "os_place (w_os w) a (initial_size e) = a" using n by (auto simp: new_process_def Let_def)
  obtain fm s' where fm: "fixed_mapper_init e (w_os w) = Inr (fm, s')" "fm_rep fm [0..<?n]" "fm_mapped fm s'"
    "pages_of fm = ?n" "0 < pages_of fm" using init_new_ok [OF p(1,4) a] by blast
  let ?w = "w\<lparr>w_pa := Fixed fm, w_os := s'\<rparr>"
  have run: "pa_init e w = Inr ((), ?w)"
    using fm(1) p(5) by (simp add: pa_init_def page_allocator_init_def set_page_allocator_ops_def)
  have "free_list fm = {..<?n}" unfolding free_list_rep [OF fm(2)] by auto
  then have use: "fm_in_use (fm, s') = {}" using fm(4) by (simp add: fm_in_use_def)
  have pages: "os_pages s' = os_pages (w_os w)" using fixed_ops_contents(3) [OF fm(1)] .
  have "untouched ?w"
    unfolding untouched_def
  proof (intro conjI allI impI)
    show "os_pages (w_os ?w) j = PZero" for j using p(2) by (simp add: pages)
    show "os_prot (w_os ?w) v = PA_PROT_READ" if "os_vm (w_os ?w) v \<noteq> None" for v
      using that by (simp add: init_new_maps [OF fm(1) p(1,3)])
  qed
  moreover have "fm_inv (fm, s')" using fm(2,3,5) by (auto simp: fm_inv_def)
  moreover have "fm_spare (fm, s') = ?n" using fm(2) by (simp add: fm_spare_def fm_rep_def)
  ultimately have "memz True {} c pr ?n (rest w) ?w" using use by (simp add: memz_def rest_def)
  moreover have "l = 0" if "getpage PA_PROT_WRITE ?w = Inr ((b, l), w'')" for b l w''
  proof -
    let ?s = "stat (INC_BOTH Alloc_cont_pg) s'"
    have xs: "[0..<?n] \<noteq> []" "fm_mapped fm ?s" using fm(3-5) by (simp_all add: fm_mapped_def)
    have "fm_room fm ?s" using fm(2,4,5) by (simp add: fm_room_def fm_rep_def)
    from alloc_page_ok [OF fm(2) xs(2) fm(5) this, of PA_PROT_WRITE] xs(1) obtain i h' t where
      t: "fixed_mapper_alloc_page fm PA_PROT_WRITE ?s = Inr ((page_addr fm i, i * PAGE_SIZE), h', t)" "\<exists>ys. i # ys = [0..<?n]" by auto
    then have "i = 0" using xs(1) by (auto simp: upt_conv_Cons)
    then show ?thesis using that t(1) by (simp add: getpage_def page_allocator_getpage_def Let_def)
  qed
  ultimately show ?thesis using run by blast
qed
section \<open>The free list\<close>

lemma linksM_ends:
  assumes "f (w_links r) = Inr q"
  shows "ends (memz z U c pr k r) (linksM f) (\<lambda>_. memz z U c pr k (r\<lparr>w_links := q\<rparr>))"
  unfolding ends_def
proof (intro allI impI)
  fix w
  assume m: "memz z U c pr k r w"
  have "memz z U c pr k (r\<lparr>w_links := q\<rparr>) (w\<lparr>w_links := q\<rparr>)"
    by (rule memz_rest [OF m, of "\<lambda>w. w\<lparr>w_links := q\<rparr>"]) (simp_all add: rest_def)
  then show "\<exists>x w'. linksM f w = Inr (x, w') \<and> memz z U c pr k (r\<lparr>w_links := q\<rparr>) w'"
    using assms memz_fields [OF m] by (simp add: linksM_def bindM_step)
qed

lemma insert_tail_ends:
  assumes q: "stailq (w_links r) (free_list_head sd) xs" "se \<noteq> 0" "se \<notin> set xs"
    and U: "sd \<in> U" "PAGE_SIZE dvd sd" "writable (pr sd)" "\<forall>x\<in>insert se (set xs). page_base x \<in> U \<and> writable (pr (page_base x))"
  shows "ends (memz z U c pr k r) (insert_tail (free_list_head sd) se)
    (\<lambda>_ w. \<exists>q'. memz z U c pr k (r\<lparr>w_links := q'\<rparr>) w \<and> stailq q' (free_list_head sd) (xs @ [se]))"
proof -
  let ?h = "free_list_head sd"
  obtain q' where q': "STAILQ_INSERT_TAIL (w_links r) ?h se = Inr q'" "stailq q' ?h (xs @ [se])"
    using STAILQ_INSERT_TAIL_spec [OF q] by blast
  have T: "ends (memz z U c pr k r) (touch se) (\<lambda>_. memz z U c pr k r)" by (rule total_touch) (use U(4) in auto)
  have sd: "ends (memz z U c pr k r) (touch_loc (LFirst ?h)) (\<lambda>_. memz z U c pr k r)"
    using total_touch [of sd U pr] U(1-3) by (simp add: touch_loc_def free_list_head_def page_base_dvd)
  have L: "ends (memz z U c pr k r) (touch_loc (lastp (w_links r) ?h)) (\<lambda>_. memz z U c pr k r)"
  proof (cases "xs = []")
    case True
    then show ?thesis using q(1) sd by (simp add: stailq_def)
  next
    case False
    then have "lastp (w_links r) ?h = LNext (last xs)" "last xs \<in> set xs" using q(1) by (simp_all add: stailq_def endl_last)
    then show ?thesis using U(4) by (auto simp: touch_loc_def intro!: total_touch)
  qed
  have M: "ends (memz z U c pr k r) (linksM (\<lambda>q. STAILQ_INSERT_TAIL q ?h se)) (\<lambda>_. memz z U c pr k (r\<lparr>w_links := q'\<rparr>))"
    by (rule linksM_ends) (rule q'(1))
  show ?thesis
    unfolding insert_tail_def
  proof (rule total_then [OF T], rule total_get [of _ _ _ _ _ _ _ "w_links r"])
    show "w_links w = w_links r" if "memz z U c pr k r w" for w using memz_fields [OF that] by simp
    show "ends (memz z U c pr k r) (thenM (touch_loc (lastp (w_links r) ?h))
        (thenM (touch_loc (LFirst ?h)) (linksM (\<lambda>q. STAILQ_INSERT_TAIL q ?h se))))
        (\<lambda>_ w. \<exists>q'. memz z U c pr k (r\<lparr>w_links := q'\<rparr>) w \<and> stailq q' ?h (xs @ [se]))"
      by (rule total_then [OF L], rule total_then [OF sd], rule total_conseq [OF M]) (use q'(2) in auto)
  qed
qed

lemma free_entries_ends:
  assumes q: "stailq (w_links r) (free_list_head sd) []" and s: "0 < sb" "PAGE_SIZE dvd sb" "sb \<in> U" "writable (pr sb)"
    and U: "sd \<in> U" "PAGE_SIZE dvd sd" "writable (pr sd)"
  shows "ends (memz z U c pr k r) (free_entries sd sb)
    (\<lambda>_ w. \<exists>q. memz z U c pr k (r\<lparr>w_links := q\<rparr>) w \<and> stailq q (free_list_head sd) (map (se_addr sb) [0..<SLAB_BUCKET_ENTRIES]))"
proof -
  let ?I = "\<lambda>i w. \<exists>q. memz z U c pr k (r\<lparr>w_links := q\<rparr>) w \<and> stailq q (free_list_head sd) (map (se_addr sb) [0..<i])"
  have inj: "se_addr sb i = se_addr sb j \<longleftrightarrow> i = j" for i j by (simp add: se_addr_def SLAB_ENTRY_SIZE_def)
  have "ends (?I i) (insert_tail (free_list_head sd) (se_addr sb i)) (\<lambda>_. ?I (Suc i))" if i: "i < SLAB_BUCKET_ENTRIES" for i
  proof (intro total_ex)
    fix q
    have pg: "page_base (se_addr sb j) = sb" if "j < SLAB_BUCKET_ENTRIES" for j using se_addr_page(1) [OF s(2) that] .
    show "ends (\<lambda>w. memz z U c pr k (r\<lparr>w_links := q\<rparr>) w \<and> stailq q (free_list_head sd) (map (se_addr sb) [0..<i]))
      (insert_tail (free_list_head sd) (se_addr sb i)) (\<lambda>_. ?I (Suc i))"
    proof (cases "stailq q (free_list_head sd) (map (se_addr sb) [0..<i])")
      case True
      have "ends (memz z U c pr k (r\<lparr>w_links := q\<rparr>)) (insert_tail (free_list_head sd) (se_addr sb i))
        (\<lambda>_ w. \<exists>q'. memz z U c pr k (r\<lparr>w_links := q, w_links := q'\<rparr>) w \<and>
           stailq q' (free_list_head sd) (map (se_addr sb) [0..<i] @ [se_addr sb i]))"
        by (rule insert_tail_ends) (use True pg i s U inj in \<open>auto simp: se_addr_def\<close>)
      then show ?thesis by (rule total_conseq) auto
    qed (simp add: ends_def)
  qed
  from total_each [of "[0..<SLAB_BUCKET_ENTRIES]" ?I "\<lambda>i. insert_tail (free_list_head sd) (se_addr sb i)"] this
  have "ends (?I 0) (free_entries sd sb) (\<lambda>_. ?I SLAB_BUCKET_ENTRIES)" by (simp add: free_entries_def)
  moreover have "?I 0 w" if "memz z U c pr k r w" for w using q that by (intro exI [of _ "w_links r"]) simp
  ultimately show ?thesis by (auto elim: total_conseq)
qed
section \<open>The directory of a new container\<close>

definition first_dir :: "nat \<Rightarrow> nat \<Rightarrow> slab_dir" where
  "first_dir so l = (push_outer so l zero_dir)\<lparr>sd_vector := VECTOR_INIT\<rparr>"

definition first_outer :: "nat \<Rightarrow> nat \<Rightarrow> slab_node" where "first_outer si l = push_child si l zero_outer"
definition first_inner :: "nat \<Rightarrow> nat \<Rightarrow> slab_node" where "first_inner sb l = push_child sb l zero_inner"

text \<open>The pages of a directory with one outer node, one inner node and one bucket without objects.\<close>

definition fresh_dir :: "(nat \<Rightarrow> page) \<Rightarrow> nat \<Rightarrow> nat \<Rightarrow> nat \<Rightarrow> nat \<Rightarrow> bool" where
  "fresh_dir c sd so si sb \<longleftrightarrow>
     (\<exists>l. c sd = PDir (first_dir so l)) \<and> (\<exists>l. c so = POuter (first_outer si l)) \<and> (\<exists>l. c si = PInner (first_inner sb l)) \<and>
     c sb = PBucket zero_bucket"

lemma GET_NEXT_BUCKET_ID_ends:
  assumes "w_next_sb r = i"
  shows "ends (memz z U c pr k r) GET_NEXT_BUCKET_ID (\<lambda>x w. x = i \<and> memz z U c pr k (r\<lparr>w_next_sb := (i + 1) mod 2 ^ 32\<rparr>) w)"
  unfolding ends_def
proof (intro allI impI)
  fix w
  assume m: "memz z U c pr k r w"
  have "memz z U c pr k (r\<lparr>w_next_sb := (i + 1) mod 2 ^ 32\<rparr>) (w\<lparr>w_next_sb := (i + 1) mod 2 ^ 32\<rparr>)"
    by (rule memz_rest [OF m, of "\<lambda>w. w\<lparr>w_next_sb := (i + 1) mod 2 ^ 32\<rparr>"]) (simp_all add: rest_def)
  then show "\<exists>x w'. GET_NEXT_BUCKET_ID w = Inr (x, w') \<and> x = i \<and> memz z U c pr k (r\<lparr>w_next_sb := (i + 1) mod 2 ^ 32\<rparr>) w'"
    using memz_fields [OF m] assms by (simp add: GET_NEXT_BUCKET_ID_def)
qed

lemma rd_ends:
  assumes "a \<in> U"
  shows "as_dir (c a) = Some d \<Longrightarrow> ends (memz z U c pr k r) (f1 d) Q \<Longrightarrow> ends (memz z U c pr k r) (bindM (rd_dir a) f1) Q"
    and "as_outer (c a) = Some n \<Longrightarrow> ends (memz z U c pr k r) (f2 n) Q \<Longrightarrow> ends (memz z U c pr k r) (bindM (rd_outer a) f2) Q"
    and "as_inner (c a) = Some n \<Longrightarrow> ends (memz z U c pr k r) (f2 n) Q \<Longrightarrow> ends (memz z U c pr k r) (bindM (rd_inner a) f2) Q"
proof -
  show "as_dir (c a) = Some d \<Longrightarrow> ends (memz z U c pr k r) (f1 d) Q \<Longrightarrow> ends (memz z U c pr k r) (bindM (rd_dir a) f1) Q"
    by (rule total_reading) (rule rd_at(1) [OF _ assms])
  show "as_outer (c a) = Some n \<Longrightarrow> ends (memz z U c pr k r) (f2 n) Q \<Longrightarrow> ends (memz z U c pr k r) (bindM (rd_outer a) f2) Q"
    by (rule total_reading) (rule rd_at(2) [OF _ assms])
  show "as_inner (c a) = Some n \<Longrightarrow> ends (memz z U c pr k r) (f2 n) Q \<Longrightarrow> ends (memz z U c pr k r) (bindM (rd_inner a) f2) Q"
    by (rule total_reading) (rule rd_at(3) [OF _ assms])
qed

lemma add_ends:
  assumes "a \<in> U" "writable (pr a)"
  shows "as_dir (c a) = Some d \<Longrightarrow> sd_index d < length (sd_current d) \<Longrightarrow>
      ends (memz z U c pr k r) (add_to_dir a x l) (\<lambda>_. memz z U (c(a := PDir (push_outer x l d))) pr k r)"
    and "as_outer (c a) = Some n \<Longrightarrow> node_index n < length (node_current n) \<Longrightarrow>
      ends (memz z U c pr k r) (add_to_outer a x l) (\<lambda>_. memz z U (c(a := POuter (push_child x l n))) pr k r)"
    and "as_inner (c a) = Some n \<Longrightarrow> node_index n < length (node_current n) \<Longrightarrow>
      ends (memz z U c pr k r) (add_to_inner a x l) (\<lambda>_. memz z U (c(a := PInner (push_child x l n))) pr k r)"
proof -
  note up = total_up_z [of touch a U pr c, OF stores_touch assms] and rd = rd_ends [OF assms(1)]
  show "as_dir (c a) = Some d \<Longrightarrow> sd_index d < length (sd_current d) \<Longrightarrow>
      ends (memz z U c pr k r) (add_to_dir a x l) (\<lambda>_. memz z U (c(a := PDir (push_outer x l d))) pr k r)"
    unfolding add_to_dir_def by (rule rd(1)) (auto simp: cellM_def intro: up(1))
  show "as_outer (c a) = Some n \<Longrightarrow> node_index n < length (node_current n) \<Longrightarrow>
      ends (memz z U c pr k r) (add_to_outer a x l) (\<lambda>_. memz z U (c(a := POuter (push_child x l n))) pr k r)"
    unfolding add_to_outer_def by (rule rd(2)) (auto simp: cellM_def intro: up(2))
  show "as_inner (c a) = Some n \<Longrightarrow> node_index n < length (node_current n) \<Longrightarrow>
      ends (memz z U c pr k r) (add_to_inner a x l) (\<lambda>_. memz z U (c(a := PInner (push_child x l n))) pr k r)"
    unfolding add_to_inner_def by (rule rd(3)) (auto simp: cellM_def intro: up(3))
qed

lemma init_list_ends:
  assumes "sd \<in> U" "PAGE_SIZE dvd sd" "writable (pr sd)"
  shows "ends (memz z U c pr k r) (init_list (free_list_head sd))
    (\<lambda>_. memz z U c pr k (r\<lparr>w_links := STAILQ_INIT (w_links r) (free_list_head sd)\<rparr>))"
  unfolding init_list_def
proof (rule total_then)
  show "ends (memz z U c pr k r) (touch_loc (LFirst (free_list_head sd))) (\<lambda>_. memz z U c pr k r)"
    using total_touch [of sd U pr] assms by (simp add: touch_loc_def free_list_head_def page_base_dvd)
  show "ends (memz z U c pr k r) (linksM (\<lambda>q. Inr (STAILQ_INIT q (free_list_head sd))))
      (\<lambda>_. memz z U c pr k (r\<lparr>w_links := STAILQ_INIT (w_links r) (free_list_head sd)\<rparr>))"
    by (rule linksM_ends) simp
qed
text \<open>The steps of \<^verbatim>\<open>slab_dir_init\<close> after it has its four pages.\<close>

definition link_dir :: "nat \<Rightarrow> nat \<Rightarrow> nat \<Rightarrow> nat \<Rightarrow> nat \<Rightarrow> nat \<Rightarrow> nat \<Rightarrow> nat \<Rightarrow> (nat \<times> nat) M" where
  "link_dir sd l so lo si li sb lb =
     bindM GET_NEXT_BUCKET_ID (\<lambda>i.
     thenM (up_bucket touch sb (\<lambda>b. b\<lparr>sb_id := i\<rparr>))
     (thenM (add_to_dir sd so lo)
     (thenM (up_dir touch sd (\<lambda>d. d\<lparr>sd_maddr_root := RNil, sd_size_root := RNil\<rparr>))
     (thenM (init_list (free_list_head sd))
     (thenM (add_to_outer so si li)
     (thenM (add_to_inner si sb lb)
     (thenM (free_entries sd sb)
     (thenM (up_dir touch sd (\<lambda>d. d\<lparr>sd_vector := VECTOR_INIT\<rparr>))
     (retM (sd, l))))))))))"

lemma zero_structs:
  "sd_index zero_dir < length (sd_current zero_dir)" "node_index zero_outer < length (node_current zero_outer)"
  "node_index zero_inner < length (node_current zero_inner)" "zero_bucket\<lparr>sb_id := 0\<rparr> = zero_bucket"
  "(push_outer so lo zero_dir)\<lparr>sd_maddr_root := RNil, sd_size_root := RNil\<rparr> = push_outer so lo zero_dir"
  by (simp_all add: zero_dir_def zero_outer_def zero_inner_def zero_bucket_def push_outer_def entries_numbers)

lemma link_dir_ends:
  assumes d: "distinct [sd, so, si, sb]" and U: "{sd, so, si, sb} \<subseteq> U" "\<forall>a\<in>{sd, so, si, sb}. c a = PZero \<and> writable (pr a)"
    and a: "PAGE_SIZE dvd sd" "PAGE_SIZE dvd sb" "0 < sb" and n: "w_next_sb r = 0"
  shows "ends (memz z U c pr k r) (link_dir sd l so lo si li sb lb)
    (\<lambda>x w. x = (sd, l) \<and> (\<exists>c' q. memz z U c' pr k (r\<lparr>w_next_sb := 1, w_links := q\<rparr>) w \<and> fresh_dir c' sd so si sb \<and>
       (\<forall>a. a \<notin> {sd, so, si, sb} \<longrightarrow> c' a = c a) \<and> stailq q (free_list_head sd) (map (se_addr sb) [0..<SLAB_BUCKET_ENTRIES])))"
proof -
  let ?r1 = "r\<lparr>w_next_sb := 1\<rparr>" and ?h = "free_list_head sd"
  let ?r2 = "?r1\<lparr>w_links := STAILQ_INIT (w_links ?r1) ?h\<rparr>"
  have W: "sd \<in> U" "so \<in> U" "si \<in> U" "sb \<in> U" "writable (pr sd)" "writable (pr so)" "writable (pr si)" "writable (pr sb)"
    "c sd = PZero" "c so = PZero" "c si = PZero" "c sb = PZero" using U by auto
  define c1 where "c1 = c(sb := PBucket zero_bucket)"
  define c2 where "c2 = c1(sd := PDir (push_outer so lo zero_dir))"
  define c4 where "c4 = c2(so := POuter (push_child si li zero_outer))"
  define c5 where "c5 = c4(si := PInner (push_child sb lb zero_inner))"
  define c6 where "c6 = c5(sd := PDir (first_dir so lo))"
  note cs = c1_def c2_def c4_def c5_def c6_def
  have G: "ends (memz z U c pr k r) GET_NEXT_BUCKET_ID (\<lambda>x w. x = 0 \<and> memz z U c pr k ?r1 w)"
    using GET_NEXT_BUCKET_ID_ends [OF n, of z U c pr k] by simp
  have s1: "ends (memz z U c pr k ?r1) (up_bucket touch sb (\<lambda>b. b\<lparr>sb_id := 0\<rparr>)) (\<lambda>_. memz z U c1 pr k ?r1)"
    using total_up_z(4) [of touch sb U pr c zero_bucket z k ?r1 "\<lambda>b. b\<lparr>sb_id := 0\<rparr>"] W by (simp add: c1_def zero_structs)
  have s2: "ends (memz z U c1 pr k ?r1) (add_to_dir sd so lo) (\<lambda>_. memz z U c2 pr k ?r1)"
    using add_ends(1) [of sd U pr c1 zero_dir] W d zero_structs by (simp add: cs)
  have s3: "ends (memz z U c2 pr k ?r1) (up_dir touch sd (\<lambda>d. d\<lparr>sd_maddr_root := RNil, sd_size_root := RNil\<rparr>)) (\<lambda>_. memz z U c2 pr k ?r1)"
    using total_up_z(1) [of touch sd U pr c2 "push_outer so lo zero_dir" z k ?r1 "\<lambda>d. d\<lparr>sd_maddr_root := RNil, sd_size_root := RNil\<rparr>"] W
    by (simp add: zero_structs(5)) (simp add: cs)
  have s4: "ends (memz z U c2 pr k ?r1) (init_list ?h) (\<lambda>_. memz z U c2 pr k ?r2)"
    by (rule init_list_ends) (use W a in auto)
  have s5: "ends (memz z U c2 pr k ?r2) (add_to_outer so si li) (\<lambda>_. memz z U c4 pr k ?r2)"
    using add_ends(2) [of so U pr c2 zero_outer] W d zero_structs by (simp add: cs)
  have s6: "ends (memz z U c4 pr k ?r2) (add_to_inner si sb lb) (\<lambda>_. memz z U c5 pr k ?r2)"
    using add_ends(3) [of si U pr c4 zero_inner] W d zero_structs by (simp add: cs)
  let ?fl = "\<lambda>q. stailq q ?h (map (se_addr sb) [0..<SLAB_BUCKET_ENTRIES])"
  have s7: "ends (memz z U c5 pr k ?r2) (free_entries sd sb) (\<lambda>_ w. \<exists>q. memz z U c5 pr k (?r1\<lparr>w_links := q\<rparr>) w \<and> ?fl q)"
    using free_entries_ends [of ?r2 sd sb U pr z c5 k] STAILQ_INIT_spec W a by simp
  have s8: "ends (\<lambda>w. \<exists>q. memz z U c5 pr k (?r1\<lparr>w_links := q\<rparr>) w \<and> ?fl q) (up_dir touch sd (\<lambda>d. d\<lparr>sd_vector := VECTOR_INIT\<rparr>))
      (\<lambda>_ w. \<exists>q. memz z U c6 pr k (?r1\<lparr>w_links := q\<rparr>) w \<and> ?fl q)"
  proof (rule total_ex)
    fix q
    have "ends (memz z U c5 pr k (?r1\<lparr>w_links := q\<rparr>)) (up_dir touch sd (\<lambda>d. d\<lparr>sd_vector := VECTOR_INIT\<rparr>)) (\<lambda>_. memz z U c6 pr k (?r1\<lparr>w_links := q\<rparr>))"
      using total_up_z(1) [of touch sd U pr c5 "push_outer so lo zero_dir" z k "?r1\<lparr>w_links := q\<rparr>" "\<lambda>d. d\<lparr>sd_vector := VECTOR_INIT\<rparr>"] W d
      by (simp add: cs first_dir_def)
    then show "ends (\<lambda>w. memz z U c5 pr k (?r1\<lparr>w_links := q\<rparr>) w \<and> ?fl q) (up_dir touch sd (\<lambda>d. d\<lparr>sd_vector := VECTOR_INIT\<rparr>))
        (\<lambda>_ w. \<exists>q. memz z U c6 pr k (?r1\<lparr>w_links := q\<rparr>) w \<and> ?fl q)"
      unfolding ends_def by blast
  qed
  have f: "fresh_dir c6 sd so si sb" using d by (auto simp: fresh_dir_def cs first_outer_def first_inner_def)
  have o': "\<forall>a. a \<notin> {sd, so, si, sb} \<longrightarrow> c6 a = c a" by (simp add: cs)
  have R: "ends (\<lambda>w. \<exists>q. memz z U c6 pr k (?r1\<lparr>w_links := q\<rparr>) w \<and> ?fl q) (retM (sd, l))
      (\<lambda>x w. x = (sd, l) \<and> (\<exists>c' q. memz z U c' pr k (r\<lparr>w_next_sb := 1, w_links := q\<rparr>) w \<and> fresh_dir c' sd so si sb \<and>
       (\<forall>a. a \<notin> {sd, so, si, sb} \<longrightarrow> c' a = c a) \<and> ?fl q))"
    by (rule total_ret) (use f o' in auto)
  note tail = total_then [OF s1 total_then [OF s2 total_then [OF s3 total_then [OF s4 total_then [OF s5 total_then [OF s6
    total_then [OF s7 total_then [OF s8 R]]]]]]]]
  show ?thesis
    unfolding link_dir_def
  proof (rule total_bind [OF G])
    fix i
    show "ends (\<lambda>w. i = 0 \<and> memz z U c pr k ?r1 w)
      (thenM (up_bucket touch sb (\<lambda>b. b\<lparr>sb_id := i\<rparr>))
       (thenM (add_to_dir sd so lo)
       (thenM (up_dir touch sd (\<lambda>d. d\<lparr>sd_maddr_root := RNil, sd_size_root := RNil\<rparr>))
       (thenM (init_list ?h) (thenM (add_to_outer so si li) (thenM (add_to_inner si sb lb)
       (thenM (free_entries sd sb) (thenM (up_dir touch sd (\<lambda>d. d\<lparr>sd_vector := VECTOR_INIT\<rparr>)) (retM (sd, l))))))))))
      (\<lambda>x w. x = (sd, l) \<and> (\<exists>c' q. memz z U c' pr k (r\<lparr>w_next_sb := 1, w_links := q\<rparr>) w \<and> fresh_dir c' sd so si sb \<and>
         (\<forall>a. a \<notin> {sd, so, si, sb} \<longrightarrow> c' a = c a) \<and> ?fl q))"
      by (cases "i = 0") (use tail in \<open>simp_all add: ends_def\<close>)
  qed
qed
lemma slab_dir_init_steps:
  "slab_dir_init =
     bindM (getpage PA_PROT_WRITE) (\<lambda>(sd, l). thenM (statM So_init) (bindM (getpage PA_PROT_WRITE) (\<lambda>(so, lo).
     thenM (statM Si_init) (bindM (getpage PA_PROT_WRITE) (\<lambda>(si, li). bindM (getpage PA_PROT_WRITE) (\<lambda>(sb, lb).
     link_dir sd l so lo si li sb lb))))))"
  by (simp add: slab_dir_init_def slab_outer_init_def slab_inner_init_def link_dir_def split_def)

text \<open>The pages in use after the directory has been built, and the free list of its entries.\<close>

definition dir_built :: "nat set \<Rightarrow> (nat \<Rightarrow> page) \<Rightarrow> (nat \<Rightarrow> nat) \<Rightarrow> nat \<Rightarrow> world \<Rightarrow> nat \<Rightarrow> world \<Rightarrow> bool" where
  "dir_built U c pr k r sd w \<longleftrightarrow> (\<exists>so si sb c' pr' q.
     distinct [sd, so, si, sb] \<and> {sd, so, si, sb} \<inter> U = {} \<and> PAGE_SIZE dvd sd \<and> PAGE_SIZE dvd sb \<and>
     memz True ({sd, so, si, sb} \<union> U) c' pr' k (r\<lparr>w_next_sb := 1, w_links := q\<rparr>) w \<and> fresh_dir c' sd so si sb \<and>
     (\<forall>a\<in>U. c' a = c a \<and> pr' a = pr a) \<and> (\<forall>a\<in>{sd, so, si, sb}. writable (pr' a)) \<and>
     stailq q (free_list_head sd) (map (se_addr sb) [0..<SLAB_BUCKET_ENTRIES]))"

lemma slab_dir_init_ends:
  assumes "w_next_sb r = 0"
  shows "ends (memz True U c pr (k + 4) r) slab_dir_init (\<lambda>x w. dir_built U c pr k r (fst x) w)"
  unfolding slab_dir_init_steps
proof (rule total_getpage_zero, simp, rule disjI1, simp add: writable_def PA_PROT_WRITE_def, unfold prod.case)
  fix sd l x
  assume sd: "sd \<notin> U" "PAGE_SIZE dvd sd" "True \<Longrightarrow> x = PZero"
  have wr: "writable PA_PROT_WRITE" by (simp add: writable_def PA_PROT_WRITE_def)
  show "ends (memz True (insert sd U) (c(sd := x)) (pr(sd := PA_PROT_WRITE)) (k + 4 - 1) r)
    (thenM (statM So_init) (bindM (getpage PA_PROT_WRITE) (\<lambda>(so, lo). thenM (statM Si_init) (bindM (getpage PA_PROT_WRITE) (\<lambda>(si, li).
      bindM (getpage PA_PROT_WRITE) (\<lambda>(sb, lb). link_dir sd l so lo si li sb lb))))))
    (\<lambda>x w. dir_built U c pr k r (fst x) w)"
  proof (rule total_then [OF total_stat_z(1)], rule total_getpage_zero, simp, rule disjI1, rule wr, unfold prod.case)
    fix so lo y
    assume so: "so \<notin> insert sd U" "True \<Longrightarrow> y = PZero"
    let ?c = "c(sd := x, so := y)" and ?pr = "pr(sd := PA_PROT_WRITE, so := PA_PROT_WRITE)"
    show "ends (memz True (insert so (insert sd U)) ?c ?pr (k + 4 - 1 - 1) r)
      (thenM (statM Si_init) (bindM (getpage PA_PROT_WRITE) (\<lambda>(si, li).
        bindM (getpage PA_PROT_WRITE) (\<lambda>(sb, lb). link_dir sd l so lo si li sb lb))))
      (\<lambda>x w. dir_built U c pr k r (fst x) w)"
    proof (rule total_then [OF total_stat_z(1)], rule total_getpage_zero, simp, rule disjI1, rule wr, unfold prod.case)
      fix si li v
      assume si: "si \<notin> insert so (insert sd U)" "True \<Longrightarrow> v = PZero"
      show "ends (memz True (insert si (insert so (insert sd U))) (?c(si := v)) (?pr(si := PA_PROT_WRITE)) (k + 4 - 1 - 1 - 1) r)
        (bindM (getpage PA_PROT_WRITE) (\<lambda>(sb, lb). link_dir sd l so lo si li sb lb)) (\<lambda>x w. dir_built U c pr k r (fst x) w)"
      proof (rule total_getpage_zero, simp, rule disjI1, rule wr, unfold prod.case)
        fix sb lb u
        assume sb: "sb \<notin> insert si (insert so (insert sd U))" "0 < sb" "PAGE_SIZE dvd sb" "True \<Longrightarrow> u = PZero"
        let ?U = "insert sb (insert si (insert so (insert sd U)))" and ?c' = "?c(si := v, sb := u)"
          and ?p = "?pr(si := PA_PROT_WRITE, sb := PA_PROT_WRITE)"
        have eq: "?U = {sd, so, si, sb} \<union> U" "k + 4 - 1 - 1 - 1 - 1 = k" by auto
        have d: "distinct [sd, so, si, sb]" using so(1) si(1) sb(1) by auto
        have z: "x = PZero" "y = PZero" "v = PZero" "u = PZero" using sd(3) so(2) si(2) sb(4) by simp_all
        have L: "ends (memz True ?U ?c' ?p k r) (link_dir sd l so lo si li sb lb)
          (\<lambda>x w. x = (sd, l) \<and> (\<exists>c' q. memz True ?U c' ?p k (r\<lparr>w_next_sb := 1, w_links := q\<rparr>) w \<and> fresh_dir c' sd so si sb \<and>
             (\<forall>a. a \<notin> {sd, so, si, sb} \<longrightarrow> c' a = ?c' a) \<and> stailq q (free_list_head sd) (map (se_addr sb) [0..<SLAB_BUCKET_ENTRIES])))"
          by (rule link_dir_ends) (use d sd sb assms z wr in auto)
        have B: "dir_built U c pr k r sd w"
          if "memz True ?U c' ?p k (r\<lparr>w_next_sb := 1, w_links := q\<rparr>) w" "fresh_dir c' sd so si sb"
            "\<forall>a. a \<notin> {sd, so, si, sb} \<longrightarrow> c' a = ?c' a" "stailq q (free_list_head sd) (map (se_addr sb) [0..<SLAB_BUCKET_ENTRIES])" for c' q w
          unfolding dir_built_def
        proof (rule exI [of _ so], rule exI [of _ si], rule exI [of _ sb], intro exI [of _ c'] exI [of _ ?p] exI [of _ q] conjI)
          show "memz True ({sd, so, si, sb} \<union> U) c' ?p k (r\<lparr>w_next_sb := 1, w_links := q\<rparr>) w" unfolding eq(1) [symmetric] by (rule that(1))
          show "\<forall>a\<in>U. c' a = c a \<and> ?p a = pr a" using that(3) sd(1) so(1) si(1) sb(1) by auto
        qed (use d that(2,4) sd so(1) si(1) sb wr in auto)
        show "ends (memz True ?U ?c' ?p (k + 4 - 1 - 1 - 1 - 1) r) (link_dir sd l so lo si li sb lb)
          (\<lambda>x w. dir_built U c pr k r (fst x) w)"
          unfolding eq(2)
        proof (rule total_conseq [OF L])
          show "dir_built U c pr k r (fst p) w"
            if "p = (sd, l) \<and> (\<exists>c' q. memz True ?U c' ?p k (r\<lparr>w_next_sb := 1, w_links := q\<rparr>) w \<and> fresh_dir c' sd so si sb \<and>
              (\<forall>a. a \<notin> {sd, so, si, sb} \<longrightarrow> c' a = ?c' a) \<and> stailq q (free_list_head sd) (map (se_addr sb) [0..<SLAB_BUCKET_ENTRIES]))" for p w
            using that B by (auto simp del: fun_upd_apply)
        qed
      qed
    qed
  qed
qed
section \<open>A new container\<close>

lemma library_new:
  assumes "new_process e w"
  shows "new_process e (library_init e w)" "\<not> w_do_closure (library_init e w)"
  using assms by (auto simp: new_process_def library_init_def slab_init_def Let_def split: option.splits)

text \<open>
  A container whose bucket has no object yet, with its five pages; the free list has the entries of
  the bucket in order.
\<close>

definition no_objects :: "nat \<Rightarrow> nat \<Rightarrow> nat \<Rightarrow> nat \<Rightarrow> nat \<Rightarrow> nat \<Rightarrow> (nat \<Rightarrow> page) \<Rightarrow> (nat \<Rightarrow> nat) \<Rightarrow> world \<Rightarrow> world \<Rightarrow> bool" where
  "no_objects k ct sd so si sb c pr r w \<longleftrightarrow>
     distinct [ct, sd, so, si, sb] \<and> memz True {ct, sd, so, si, sb} c pr k r w \<and> w_cont r = ct \<and>
     (\<exists>f. c ct = PCont f \<and> l_maddr (c_current_slab f) = sd \<and> l_maddr (c_snapshot_slab f) = sd) \<and>
     fresh_dir c sd so si sb \<and> (\<forall>a\<in>{ct, sd, so, si, sb}. writable (pr a)) \<and>
     stailq (w_links r) (free_list_head sd) (map (se_addr sb) [0..<SLAB_BUCKET_ENTRIES]) \<and>
     0 < w_next_es r \<and> \<not> w_copynswap r \<and> \<not> w_do_closure r"

lemma closure_init_ends:
  "\<exists>g. ends (memz z U c pr k r) closure_init (\<lambda>_. memz z U c pr k (g r)) \<and>
     (\<forall>r. w_cont (g r) = w_cont r \<and> w_next_sb (g r) = w_next_sb r \<and> w_next_es (g r) = w_next_es r \<and> w_copynswap (g r) = w_copynswap r \<and>
        w_do_closure (g r) = w_do_closure r)"
proof -
  obtain m where m: "htable_init = Inr m" using htable_init_spec by blast
  let ?f = "\<lambda>w. w\<lparr>ht_mallocat := Some m\<rparr>" and ?g = "\<lambda>w. w\<lparr>ht_pointerat := Some m\<rparr>" and ?h = "\<lambda>w. w\<lparr>pptr_vec := VECTOR_INIT\<rparr>"
  have "ends (memz z U c pr k r) (modM ?f) (\<lambda>_. memz z U c pr k (?f r))"
    "ends (memz z U c pr k (?f r)) (modM ?g) (\<lambda>_. memz z U c pr k (?g (?f r)))"
    "ends (memz z U c pr k (?g (?f r))) (modM ?h) (\<lambda>_. memz z U c pr k (?h (?g (?f r))))"
    by (rule total_mod; simp add: rest_def)+
  note steps = total_then [OF this(1) total_then [OF this(2,3)]]
  have "closure_init = thenM (modM ?f) (thenM (modM ?g) (modM ?h))"
    by (simp add: closure_init_def m bindM_def liftM_def thenM_def fun_eq_iff)
  then show ?thesis using steps by (intro exI [of _ "\<lambda>r. ?h (?g (?f r))"]) simp
qed
lemma getpage_new:
  assumes "memz True U c pr (Suc k) r w" "writable flags \<or> flags = PA_PROT_READ"
  shows "\<exists>a l w'. getpage flags w = Inr ((a, l), w') \<and> a \<notin> U \<and> 0 < a \<and> PAGE_SIZE dvd a \<and>
    memz True (insert a U) (c(a := PZero)) (pr(a := flags)) k r w'"
proof -
  let ?Q = "\<lambda>p w. fst p \<notin> U \<and> 0 < fst p \<and> PAGE_SIZE dvd fst p \<and> memz True (insert (fst p) U) (c(fst p := PZero)) (pr(fst p := flags)) k r w"
  have "ends (memz True U c pr (Suc k) r) (bindM (getpage flags) retM) ?Q"
    by (rule total_getpage_zero) (use assms(2) in \<open>auto intro!: total_ret\<close>)
  from endsD [OF this assms(1)] show ?thesis by (auto simp: bindM_Inr)
qed

text \<open>The steps of \<^verbatim>\<open>container_init\<close> after the page of the container is known.\<close>

definition fill_container :: "nat \<Rightarrow> nat M" where
  "fill_container cont =
     thenM closure_init
       (thenM (modM (\<lambda>w. w\<lparr>w_cont := cont\<rparr>))
       (thenM (up_cont touch cont (\<lambda>k. k\<lparr>c_id := 0, c_pg_allocator := True\<rparr>))
       (bindM slab_dir_init (\<lambda>(sd, laddr).
       thenM (up_cont touch cont (set_current sd laddr))
       (thenM (up_cont touch cont (\<lambda>k. k\<lparr>c_snapshot_slab := c_current_slab k\<rparr>))
       (retM cont))))))"

lemma fill_container_ends:
  assumes m: "memz True {ct} c pr (k + 4) r w" and ct: "c ct = PZero" "writable (pr ct)"
    and r: "w_next_sb r = 0" "0 < w_next_es r" "\<not> w_copynswap r" "\<not> w_do_closure r"
  shows "\<exists>w' sd so si sb c pr r. fill_container ct w = Inr (ct, w') \<and> no_objects k ct sd so si sb c pr r w'"
proof -
  obtain g w1 where w1: "closure_init w = Inr ((), w1)" "memz True {ct} c pr (k + 4) (g r) w1" and
    g: "\<And>r. w_next_sb (g r) = w_next_sb r \<and> w_next_es (g r) = w_next_es r \<and> w_copynswap (g r) = w_copynswap r \<and> w_do_closure (g r) = w_do_closure r"
    using closure_init_ends [of True "{ct}" c pr "k + 4" r] m by (auto dest: endsD)
  let ?r = "(g r)\<lparr>w_cont := ct\<rparr>" and ?k1 = "zero_cont\<lparr>c_id := 0, c_pg_allocator := True\<rparr>"
  have m2: "memz True {ct} c pr (k + 4) ?r (w1\<lparr>w_cont := ct\<rparr>)"
    by (rule memz_rest [OF w1(2), of "\<lambda>w. w\<lparr>w_cont := ct\<rparr>"]) (simp_all add: rest_def)
  obtain w3 where w3: "up_cont touch ct (\<lambda>k. k\<lparr>c_id := 0, c_pg_allocator := True\<rparr>) (w1\<lparr>w_cont := ct\<rparr>) = Inr ((), w3)"
    "memz True {ct} (c(ct := PCont ?k1)) pr (k + 4) ?r w3"
    using endsD [OF total_up_z(5) [of touch ct "{ct}" pr c zero_cont True "k + 4" ?r "\<lambda>k. k\<lparr>c_id := 0, c_pg_allocator := True\<rparr>"] m2] ct by auto
  have "w_next_sb ?r = 0" using g r by simp
  from endsD [OF slab_dir_init_ends [OF this] w3(2)] obtain sd l w4 where
    w4: "slab_dir_init w3 = Inr ((sd, l), w4)" "dir_built {ct} (c(ct := PCont ?k1)) pr k ?r sd w4" by (auto simp del: fun_upd_apply)
  then obtain so si sb c' pr' q where b: "distinct [sd, so, si, sb]" "{sd, so, si, sb} \<inter> {ct} = {}"
    "memz True ({sd, so, si, sb} \<union> {ct}) c' pr' k (?r\<lparr>w_next_sb := 1, w_links := q\<rparr>) w4" "fresh_dir c' sd so si sb"
    "c' ct = PCont ?k1" "pr' ct = pr ct" "\<forall>a\<in>{sd, so, si, sb}. writable (pr' a)"
    "stailq q (free_list_head sd) (map (se_addr sb) [0..<SLAB_BUCKET_ENTRIES])" unfolding dir_built_def by auto
  let ?U = "{ct, sd, so, si, sb}" and ?r' = "?r\<lparr>w_next_sb := 1, w_links := q\<rparr>"
  have U: "{sd, so, si, sb} \<union> {ct} = ?U" by auto
  note m4 = b(3) [unfolded U]
  let ?k2 = "set_current sd l ?k1"
  have wr: "writable (pr' ct)" using b(6) ct(2) by simp
  obtain w5 where w5: "up_cont touch ct (set_current sd l) w4 = Inr ((), w5)" "memz True ?U (c'(ct := PCont ?k2)) pr' k ?r' w5"
    using endsD [OF total_up_z(5) [of touch ct ?U pr' c' ?k1 True k ?r' "set_current sd l"] m4] b(5) wr by auto
  let ?k3 = "?k2\<lparr>c_snapshot_slab := c_current_slab ?k2\<rparr>"
  obtain w6 where w6: "up_cont touch ct (\<lambda>k. k\<lparr>c_snapshot_slab := c_current_slab k\<rparr>) w5 = Inr ((), w6)"
    "memz True ?U (c'(ct := PCont ?k3)) pr' k ?r' w6"
    using endsD [OF total_up_z(5) [of touch ct ?U pr' "c'(ct := PCont ?k2)" ?k2 True k ?r' "\<lambda>k. k\<lparr>c_snapshot_slab := c_current_slab k\<rparr>"] w5(2)] wr by auto
  have "fill_container ct w = Inr (ct, w6)"
    using w1(1) w3(1) w4(1) w5(1) w6(1) by (simp add: fill_container_def thenM_step bindM_step)
  moreover have "no_objects k ct sd so si sb (c'(ct := PCont ?k3)) pr' ?r' w6"
    unfolding no_objects_def
  proof (intro conjI)
    show "fresh_dir (c'(ct := PCont ?k3)) sd so si sb" using b(2,4) by (simp add: fresh_dir_def)
    show "\<exists>f. (c'(ct := PCont ?k3)) ct = PCont f \<and> l_maddr (c_current_slab f) = sd \<and> l_maddr (c_snapshot_slab f) = sd"
      by (simp add: set_current_def)
    show "\<forall>a\<in>?U. writable (pr' a)" using b(7) wr by blast
    show "distinct [ct, sd, so, si, sb]" using b(1,2) by auto
  qed (use w6(2) b(8) g r in simp_all)
  ultimately show ?thesis by blast
qed

lemma container_init_new:
  assumes n: "new_process e w" "\<not> w_do_closure w" and k: "initial_size e div PAGE_SIZE = k + 5"
  shows "\<exists>w' ct sd so si sb c pr r. container_init e w = Inr (ct, w') \<and> no_objects k ct sd so si sb c pr r w'"
proof -
  have p: "w_cont w = 0" "w_next_sb w = 0" "0 < w_next_es w" "\<not> w_copynswap w" using n(1) by (auto simp: new_process_def)
  obtain w1 where w1: "pa_init e w = Inr ((), w1)" "memz True {} (\<lambda>_. PZero) (\<lambda>_. 0) (k + 5) (rest w) w1"
    "\<And>a l w'. getpage PA_PROT_WRITE w1 = Inr ((a, l), w') \<Longrightarrow> l = 0"
    using pa_init_new [OF n(1), of "\<lambda>_. PZero" "\<lambda>_. 0"] unfolding k by blast
  have wr: "writable PA_PROT_WRITE" by (simp add: writable_def PA_PROT_WRITE_def)
  have "memz True {} (\<lambda>_. PZero) (\<lambda>_. 0) (Suc (k + 4)) (rest w) w1" using w1(2) by (simp add: add.commute)
  from getpage_new [OF this disjI1 [OF wr]] obtain ct l w2 where
    w2: "getpage PA_PROT_WRITE w1 = Inr ((ct, l), w2)" "memz True {ct} ((\<lambda>_. PZero)(ct := PZero)) ((\<lambda>_. 0)(ct := PA_PROT_WRITE)) (k + 4) (rest w) w2" by auto
  have l: "l = 0" using w1(3) [OF w2(1)] .
  obtain w' sd so si sb c pr r where w': "fill_container ct w2 = Inr (ct, w')" "no_objects k ct sd so si sb c pr r w'"
    using fill_container_ends [OF w2(2)] wr p n(2) by (auto simp: rest_def)
  have "container_getid [w_cont w] = 0" using p(1) by (simp add: container_getid_def CONTAINER_CNT_def)
  then have "container_init e w = Inr (ct, w')"
    using w1(1) w2(1) w'(1) l by (simp add: container_init_def fill_container_def bindM_step thenM_step CONTAINER_LIMA_ADDRESS_def)
  then show ?thesis using w'(2) by blast
qed
section \<open>The first entry\<close>

lemma first_dir_fields:
  "sd_size_root (first_dir so l) = RNil" "sd_maddr_root (first_dir so l) = RNil" "sd_vector (first_dir so l) = VECTOR_INIT"
  "sd_index (first_dir so l) = 1" "sd_current (first_dir so l) ! 0 = \<lparr>l_maddr = so, l_laddr = l\<rparr>"
  "sd_snapshot (first_dir so l) ! 0 = \<lparr>l_maddr = so, l_laddr = l\<rparr>"
  "length (sd_current (first_dir so l)) = SLAB_DIR_ENTRIES" "length (sd_snapshot (first_dir so l)) = SLAB_DIR_ENTRIES"
  by (simp_all add: first_dir_def push_outer_def zero_dir_def entries_numbers)

lemma RB_INSERT_first: "RB_INSERT cmp RNil x = Inr (RNode RB_BLACK RNil x RNil, None)"
  by (simp add: RB_INSERT_def)

lemma no_objectsD:
  assumes "no_objects k ct sd so si sb c pr r w"
  shows "memz True {ct, sd, so, si, sb} c pr k r w" "w_cont r = ct" "\<exists>l. c sd = PDir (first_dir so l)"
    "\<exists>f. c ct = PCont f \<and> l_maddr (c_current_slab f) = sd \<and> l_maddr (c_snapshot_slab f) = sd"
    "\<forall>a\<in>{ct, sd, so, si, sb}. 0 < a \<and> PAGE_SIZE dvd a \<and> page_base a = a \<and> writable (pr a)"
    "distinct [ct, sd, so, si, sb]" "c sb = PBucket zero_bucket" "\<exists>l. c so = POuter (first_outer si l)" "\<exists>l. c si = PInner (first_inner sb l)"
    "stailq (w_links r) (free_list_head sd) (map (se_addr sb) [0..<SLAB_BUCKET_ENTRIES])" "0 < w_next_es r"
    "\<not> w_copynswap r" "\<not> w_do_closure r"
proof -
  show m: "memz True {ct, sd, so, si, sb} c pr k r w" using assms by (simp add: no_objects_def)
  show "\<forall>a\<in>{ct, sd, so, si, sb}. 0 < a \<and> PAGE_SIZE dvd a \<and> page_base a = a \<and> writable (pr a)"
    using mem_page(1-3) [OF m] assms unfolding no_objects_def by blast
qed (use assms in \<open>auto simp: no_objects_def fresh_dir_def\<close>)

text \<open>The process after the entry has been picked for the size \<^verbatim>\<open>z\<close>.\<close>

definition picked :: "nat \<Rightarrow> qstore \<Rightarrow> world \<Rightarrow> world" where
  "picked z q r = r\<lparr>w_es := (w_es r)(w_next_es r := z), w_next_es := w_next_es r + 1, w_links := q\<rparr>"

abbreviation sized :: "nat \<Rightarrow> slab_dir \<Rightarrow> slab_dir" where
  "sized es d \<equiv> d\<lparr>sd_size_root := RNode RB_BLACK RNil es RNil\<rparr>"

lemma STAILQ_INSERT_HEAD_first:
  "e \<noteq> 0 \<Longrightarrow> \<exists>q'. STAILQ_INSERT_HEAD q h e = Inr q' \<and> STAILQ_FIRST q' h = e"
  by (simp add: STAILQ_INSERT_HEAD_def STAILQ_FIRST_def Let_def)

lemma first_pick:
  assumes N: "no_objects k ct sd so si sb c pr r w" and d: "c sd = PDir (first_dir so l)"
  shows "\<exists>w' q. pick_entry sd z w = Inr ((w_next_es r, se_addr sb 0), w') \<and>
    memz True {ct, sd, so, si, sb} (c(sd := PDir (sized (w_next_es r) (first_dir so l)))) pr k (picked z q r) w' \<and>
    STAILQ_FIRST q (es_list_head (w_next_es r)) = se_addr sb 0"
proof -
  let ?U = "{ct, sd, so, si, sb}" and ?es = "w_next_es r" and ?se = "se_addr sb 0" and ?h = "free_list_head sd"
  note D = no_objectsD [OF N]
  have sd: "sd \<in> ?U" "PAGE_SIZE dvd sd" "writable (pr sd)" "page_base sd = sd" and sb: "sb \<in> ?U" "PAGE_SIZE dvd sb" "0 < sb" "writable (pr sb)"
    using D(5) by auto
  have pg: "page_base ?se = sb" by (rule se_addr_page(1) [OF sb(2)]) (simp add: entries_numbers)
  have se0: "?se \<noteq> 0" using sb(3) by (simp add: se_addr_def)
  let ?d = "first_dir so l"
  have rd: "rd_dir sd w = Inr (?d, w)" by (rule rd_at(1) [OF D(1) sd(1)]) (simp add: d)
  have find: "find_size sd z w = Inr (None, w)" using rd first_dir_fields(1) by (simp add: find_size_def bindM_step RB_FIND_def)
  let ?q0 = "STAILQ_INIT (w_links r) (es_list_head ?es)"
  let ?g = "\<lambda>w. w\<lparr>w_es := (w_es w)(?es := z), w_next_es := ?es + 1\<rparr>"
  have m1: "memz True ?U c pr k (?g r) (?g w)" by (rule memz_rest [OF D(1)]) (simp_all add: rest_def)
  have es: "w_next_es w = ?es" using memz_fields [OF D(1)] by simp
  obtain w2 where w2: "linksM (\<lambda>q. Inr (STAILQ_INIT q (es_list_head ?es))) (?g w) = Inr ((), w2)" "memz True ?U c pr k (?g r\<lparr>w_links := ?q0\<rparr>) w2"
    using endsD [OF linksM_ends [of "\<lambda>q. Inr (STAILQ_INIT q (es_list_head ?es))" "?g r" ?q0] m1] by auto
  have init: "slab_entry_size_init z w = Inr (?es, w2)"
    using w2(1) es by (simp add: slab_entry_size_init_def bindM_step thenM_step)
  let ?r2 = "?g r\<lparr>w_links := ?q0\<rparr>"
  have rd2: "rd_dir sd w2 = Inr (?d, w2)" by (rule rd_at(1) [OF w2(2) sd(1)]) (simp add: d)
  let ?c = "c(sd := PDir (sized ?es ?d))"
  obtain w3 where w3: "up_dir touch sd (sized ?es) w2 = Inr ((), w3)" "memz True ?U ?c pr k ?r2 w3"
    using endsD [OF total_up_z(1) [of touch sd ?U pr c ?d True k ?r2 "sized ?es"] w2(2)] sd d by auto
  have index: "index_size sd ?es w2 = Inr ((), w3)"
    using rd2 w3(1) first_dir_fields(1) by (simp add: index_size_def bindM_step RB_INSERT_first)
  have head: "es_list_head ?es \<noteq> ?h" by (simp add: es_list_head_def free_list_head_def) presburger
  have "local_to (es_list_head ?es) {} (w_links r) ?q0" using STAILQ_INIT_spec by blast
  then have fl: "stailq ?q0 ?h (map (se_addr sb) [0..<SLAB_BUCKET_ENTRIES])"
    using D(10) head local_frame by fastforce
  have split: "map (se_addr sb) [0..<SLAB_BUCKET_ENTRIES] = ?se # map (se_addr sb) [1..<SLAB_BUCKET_ENTRIES]"
    by (simp add: upt_conv_Cons entries_numbers)
  have first: "STAILQ_FIRST ?q0 ?h = ?se" using STAILQ_FIRST_spec [OF fl] by (simp add: split)
  obtain q1 where q1: "STAILQ_REMOVE_HEAD ?q0 ?h = Inr q1" using STAILQ_REMOVE_HEAD_spec [OF fl [unfolded split]] by blast
  have links: "w_links w3 = ?q0" using memz_fields [OF w3(2)] by simp
  have T: "ends (memz True ?U ?c pr k ?r2) (touch_loc (LFirst ?h)) (\<lambda>_. memz True ?U ?c pr k ?r2)"
    using total_touch [of sd ?U pr] sd by (simp add: touch_loc_def free_list_head_def)
  have "ends (memz True ?U ?c pr k ?r2) (linksM (\<lambda>q. STAILQ_REMOVE_HEAD q ?h)) (\<lambda>_. memz True ?U ?c pr k (?r2\<lparr>w_links := q1\<rparr>))"
    by (rule linksM_ends) (simp add: q1)
  from endsD [OF total_then [OF T this] w3(2)] obtain w4 where
    w4: "remove_head ?h w3 = Inr ((), w4)" "memz True ?U ?c pr k (?r2\<lparr>w_links := q1\<rparr>) w4" by (auto simp: remove_head_def)
  obtain f where f: "c ct = PCont f" "l_maddr (c_current_slab f) = sd" using D(4) by blast
  have ct: "?c ct = PCont f" "w_cont w3 = ct" "0 < ct" using f(1) D(2,5,6) memz_fields [OF w3(2)] by auto
  have "rd_cont ct w3 = Inr (f, w3)" by (rule rd_at(5) [OF w3(2)]) (use D(6) f(1) in auto)
  then have cur: "current_sd w3 = Inr (sd, w3)" using ct f(2) by (simp add: current_sd_def bindM_step)
  have free: "get_free_slab_entry w3 = Inr (?se, w4)"
    using cur first links w4(1) se0 by (simp add: get_free_slab_entry_def bindM_step thenM_step)
  obtain q where q: "STAILQ_INSERT_HEAD q1 (es_list_head ?es) ?se = Inr q" "STAILQ_FIRST q (es_list_head ?es) = ?se"
    using STAILQ_INSERT_HEAD_first [OF se0] by blast
  let ?r4 = "?r2\<lparr>w_links := q1\<rparr>"
  have T1: "ends (memz True ?U ?c pr k ?r4) (touch ?se) (\<lambda>_. memz True ?U ?c pr k ?r4)"
    by (rule total_touch) (use pg sb in simp_all)
  have T2: "ends (memz True ?U ?c pr k ?r4) (touch_loc (LFirst (es_list_head ?es))) (\<lambda>_. memz True ?U ?c pr k ?r4)"
    by (simp add: touch_loc_def es_list_head_def total_ret)
  have T3: "ends (memz True ?U ?c pr k ?r4) (linksM (\<lambda>q. STAILQ_INSERT_HEAD q (es_list_head ?es) ?se)) (\<lambda>_. memz True ?U ?c pr k (?r4\<lparr>w_links := q\<rparr>))"
    by (rule linksM_ends) (simp add: q(1))
  from endsD [OF total_then [OF T1 total_then [OF T2 T3]] w4(2)] obtain w5 where
    w5: "insert_head (es_list_head ?es) ?se w4 = Inr ((), w5)" "memz True ?U ?c pr k (?r4\<lparr>w_links := q\<rparr>) w5" by (auto simp: insert_head_def)
  have "pick_entry sd z w = Inr ((?es, ?se), w5)"
    using find init index free w5(1) by (simp add: pick_entry_def bindM_step thenM_step)
  moreover have "memz True ?U ?c pr k (picked z q r) w5" using w5(2) by (simp add: picked_def)
  ultimately show ?thesis using q(2) by blast
qed
text \<open>The entry with its data page \<^verbatim>\<open>a\<close>, in the bucket and in the index.\<close>

definition first_entry :: "nat \<Rightarrow> nat \<Rightarrow> nat \<Rightarrow> nat \<Rightarrow> slab_entry" where
  "first_entry i z a l = \<lparr>se_id = i, se_size = z, se_cur = \<lparr>d_maddr = a, d_laddr = l, d_bitmap = 0\<rparr>,
     se_snap = \<lparr>d_maddr = a, d_laddr = l, d_bitmap = 0\<rparr>, ptr_cur = zero_pref, ptr_snap = zero_pref\<rparr>"

definition first_bucket :: "slab_entry \<Rightarrow> slab_bucket" where
  "first_bucket e = zero_bucket\<lparr>sb_entries := (sb_entries zero_bucket)[0 := e]\<rparr>"

definition first_index :: "nat \<Rightarrow> nat \<Rightarrow> slab_dir \<Rightarrow> slab_dir" where
  "first_index es se d = d\<lparr>sd_size_root := RNode RB_BLACK RNil es RNil, sd_maddr_root := RNode RB_BLACK RNil se RNil\<rparr>"

definition first_c :: "(nat \<Rightarrow> page) \<Rightarrow> nat \<Rightarrow> nat \<Rightarrow> slab_dir \<Rightarrow> nat \<Rightarrow> nat \<Rightarrow> slab_entry \<Rightarrow> nat \<Rightarrow> page" where
  "first_c c sd sb d es a e = c(sd := PDir (first_index es (se_addr sb 0) d), sb := PBucket (first_bucket e), a := PZero)"

lemma first_bucket_fields:
  "sb_id (first_bucket e) = 0" "length (sb_entries (first_bucket e)) = SLAB_BUCKET_ENTRIES" "sb_entries (first_bucket e) ! 0 = e"
  "i < SLAB_BUCKET_ENTRIES \<Longrightarrow> i \<noteq> 0 \<Longrightarrow> sb_entries (first_bucket e) ! i = zero_entry" "\<not> SLAB_ENTRY_IS_INIT zero_entry"
  by (simp_all add: first_bucket_def zero_bucket_def entries_numbers SLAB_ENTRY_IS_INIT_def zero_entry_def zero_data_def)

lemma first_node_fields:
  "node_index (first_outer si l) = 1" "node_current (first_outer si l) ! 0 = \<lparr>l_maddr = si, l_laddr = l\<rparr>"
  "node_snapshot (first_outer si l) ! 0 = \<lparr>l_maddr = si, l_laddr = l\<rparr>"
  "length (node_current (first_outer si l)) = SLAB_OUTER_ENTRIES" "length (node_snapshot (first_outer si l)) = SLAB_OUTER_ENTRIES"
  "node_index (first_inner sb l) = 1" "node_current (first_inner sb l) ! 0 = \<lparr>l_maddr = sb, l_laddr = l\<rparr>"
  "node_snapshot (first_inner sb l) ! 0 = \<lparr>l_maddr = sb, l_laddr = l\<rparr>"
  "length (node_current (first_inner sb l)) = SLAB_INNER_ENTRIES" "length (node_snapshot (first_inner sb l)) = SLAB_INNER_ENTRIES"
  by (simp_all add: first_outer_def first_inner_def push_child_def zero_outer_def zero_inner_def entries_numbers)

lemma first_quiet:
  assumes N: "no_objects k ct sd so si sb c pr r w" and d: "c sd = PDir (first_dir so l)" and n: "c si = PInner (first_inner sb m)"
    and a: "a \<notin> {ct, sd, so, si, sb}" "0 < a" and z: "0 < z" "z \<le> PAGE_SIZE" and r': "w_cont r' = ct"
  shows "quiet_at (insert a {ct, sd, so, si, sb}) (first_c c sd sb (first_dir so l) es a (first_entry i z a j)) (pr(a := PA_PROT_READ)) r'
    sd (first_index es (se_addr sb 0) (first_dir so l)) si (first_inner sb m) sb (first_bucket (first_entry i z a j)) 0 0 (\<lambda>_. 0)"
proof -
  let ?U = "insert a {ct, sd, so, si, sb}" and ?se = "se_addr sb 0" and ?e = "first_entry i z a j" and ?d = "first_dir so l"
  let ?b = "first_bucket ?e" and ?d' = "first_index es ?se ?d" and ?pr = "pr(a := PA_PROT_READ)"
  let ?c = "first_c c sd sb ?d es a ?e"
  note D = no_objectsD [OF N] and b = first_bucket_fields and nf = first_node_fields and df = first_dir_fields
  have sb: "PAGE_SIZE dvd sb" "0 < sb" using D(5) by auto
  have zero: "0 < SLAB_BUCKET_ENTRIES" by (simp add: entries_numbers)
  have pg: "page_base ?se = sb" by (rule se_addr_page(1) [OF sb(1) zero])
  obtain f where f: "c ct = PCont f" "l_maddr (c_current_slab f) = sd" "l_maddr (c_snapshot_slab f) = sd" using D(4) by blast
  obtain o' where o': "c so = POuter (first_outer si o')" using D(8) by blast
  have C: "?c ct = PCont f" "?c sd = PDir ?d'" "?c so = POuter (first_outer si o')" "?c si = PInner (first_inner sb m)" "?c sb = PBucket ?b" "?c a = PZero"
    using f(1) o' n D(6) a(1) by (auto simp: first_c_def)
  have P: "writable (?pr ct)" "writable (?pr sd)" "writable (?pr si)" "writable (?pr sb)" using D(5) a(1) by auto
  have e: "entry_at ?c ?se = Some ?e" using entries_of_bucket [of ?c sb, OF C(5) sb(1) zero b(2) sb(2)] b(3) by simp
  have dir: "dir_is ?U ?c r' sd ?d'" using C(1,2) f(2) r' by (simp add: dir_is_def)
  have "rb_inv (RNode RB_BLACK RNil ?se RNil)" by (auto simp: rb_inv_def intro: exI [of _ 1])
  then have idx: "indexed ?U ?c ?d'"
    using e pg by (simp add: indexed_def first_index_def rb_tree_def ascending_def first_entry_def)
  have vec: "sd_vector ?d' = VECTOR_INIT" by (simp add: first_index_def df)
  have data: "data_page ?U ?c ?pr r' sd ?d' ?se (sb_entries ?b ! 0)"
    unfolding data_page_def b(3) using dir idx e P(2,4) pg z vec
    by (simp add: first_index_def first_entry_def zero_pref_def)
  have own: "i' = 0" if "i' < SLAB_BUCKET_ENTRIES" "SLAB_ENTRY_IS_INIT (sb_entries ?b ! i')" for i'
    using b(4) [OF that(1)] b(5) that(2) by metis
  have set': "settled ?U ?pr sb si (sb_entries ?b)"
    unfolding settled_def
  proof (intro conjI allI impI, goal_cases)
    case (2 i')
    then show ?case using own [OF 2] a(1) b(3) by (simp add: first_entry_def)
  next
    case (6 i' j')
    then show ?case using own by blast
  qed (use own b(2,3) a(1) in \<open>auto simp: first_entry_def freed_ptrs_def zero_pref_def dest!: own\<close>)
  let ?c1 = "?c(sb := PBucket (?b\<lparr>sb_has_snapshot := True\<rparr>))"
  have lone: "lone_path ?U ?c1 ?d' 0 si sb"
    unfolding lone_path_def
  proof (intro exI [of _ so] conjI)
    show "dir_but ?U ?c1 ?d' (0 div SLAB_OUTER_ENTRIES mod SLAB_DIR_ENTRIES) so"
      using df by (simp add: dir_but_def first_index_def entries_numbers)
    show "outer_but ?U ?c1 so (0 mod SLAB_OUTER_ENTRIES) si"
      using C(3) D(6) nf by (simp add: outer_but_def entries_numbers)
    show "inner_but ?U ?c1 si 0 sb"
      using C(4) D(6) nf by (simp add: inner_but_def entries_numbers)
  qed
  show ?thesis
    unfolding quiet_at_def
  proof (intro conjI)
    show "data_page ?U ?c ?pr r' sd ?d' (se_addr sb 0) (sb_entries ?b ! 0)" by (rule data)
    show "settled ?U ?pr sb si (sb_entries ?b)" by (rule set')
    show "lone_path ?U ?c1 ?d' 0 si sb" by (rule lone)
    show "vec_list (sd_vector ?d') = []" by (simp add: vec)
    show "\<exists>k. ?c (w_cont r') = PCont k \<and> l_maddr (c_snapshot_slab k) = sd" using C(1) f(3) r' by simp
  qed (use C P r' zero nf b(1,3) in \<open>simp_all add: first_entry_def zero_pref_def entries_numbers\<close>)
qed
lemma with_first_entry:
  assumes "c sb = PBucket b" "PAGE_SIZE dvd sb" "length (sb_entries b) = SLAB_BUCKET_ENTRIES"
  shows "with_entry c (se_addr sb 0) f = c(sb := PBucket (b\<lparr>sb_entries := (sb_entries b)[0 := f (sb_entries b ! 0)]\<rparr>))"
proof -
  have "0 < SLAB_BUCKET_ENTRIES" by (simp add: entries_numbers)
  then show ?thesis using assms se_addr_page [of sb 0] by (simp add: with_entry_def)
qed

lemma GET_NEXT_SLAB_ENTRY_ID_run:
  assumes m: "memz z U c pr k r w"
  shows "\<exists>w'. GET_NEXT_SLAB_ENTRY_ID w = Inr (w_next_se r, w') \<and> memz z U c pr k (r\<lparr>w_next_se := (w_next_se r + 1) mod 2 ^ 32\<rparr>) w'"
proof -
  let ?g = "\<lambda>w. w\<lparr>w_next_se := (w_next_se r + 1) mod 2 ^ 32\<rparr>"
  have "memz z U c pr k (?g r) (?g w)" by (rule memz_rest [OF m]) (simp_all add: rest_def)
  then show ?thesis using memz_fields [OF m] by (simp add: GET_NEXT_SLAB_ENTRY_ID_def)
qed

text \<open>The initialisation of the entry of a marked bucket, with the index entry, in a new file.\<close>

lemma first_fill:
  assumes m: "memz True V c pr (Suc k) r w" and V: "sb \<in> V" "sd \<in> V" "sb \<noteq> sd" "writable (pr sb)" "writable (pr sd)"
    and b: "c sb = PBucket b" "length (sb_entries b) = SLAB_BUCKET_ENTRIES" "sb_entries b ! 0 = zero_entry" "PAGE_SIZE dvd sb" "0 < sb"
    and d: "c sd = PDir d" "sd_maddr_root d = RNil"
  shows "\<exists>w' a j. thenM (slab_entry_init (se_addr sb 0) z) (index_entry touch sd (se_addr sb 0)) w = Inr ((), w') \<and> a \<notin> V \<and> 0 < a \<and>
    memz True (insert a V)
      (c(a := PZero, sb := PBucket (b\<lparr>sb_entries := (sb_entries b)[0 := first_entry (w_next_se r) z a j]\<rparr>),
         sd := PDir (d\<lparr>sd_maddr_root := RNode RB_BLACK RNil (se_addr sb 0) RNil\<rparr>)))
      (pr(a := PA_PROT_READ)) k (r\<lparr>w_next_se := (w_next_se r + 1) mod 2 ^ 32\<rparr>) w'"
proof -
  let ?se = "se_addr sb 0" and ?r = "r\<lparr>w_next_se := (w_next_se r + 1) mod 2 ^ 32\<rparr>"
  have zero: "0 < SLAB_BUCKET_ENTRIES" by (simp add: entries_numbers)
  have pg: "page_base ?se = sb" by (rule se_addr_page(1) [OF b(4) zero])
  have se0: "?se \<noteq> 0" using b(5) by (simp add: se_addr_def)
  let ?w = "w\<lparr>w_os := stat (INC_BOTH Se_init) (w_os w)\<rparr>"
  from getpage_new [OF mem_stat [OF m], of PA_PROT_READ] obtain a j w1 where
    w1: "getpage PA_PROT_READ ?w = Inr ((a, j), w1)" "a \<notin> V" "0 < a" and
    m1: "memz True (insert a V) (c(a := PZero)) (pr(a := PA_PROT_READ)) k r w1" by blast
  let ?V = "insert a V" and ?p = "pr(a := PA_PROT_READ)" and ?c = "c(a := PZero)"
  have ne: "a \<noteq> sb" "a \<noteq> sd" using w1(2) V by auto
  have wr: "writable (?p (page_base ?se))" "page_base ?se \<in> ?V" "writable (?p sd)" "sd \<in> ?V" using ne V pg by simp_all
  have cb: "?c sb = PBucket b" using ne b(1) by simp
  define e1 where "e1 = zero_entry\<lparr>se_cur := (se_cur zero_entry)\<lparr>d_maddr := a, d_laddr := j\<rparr>,
     se_snap := (se_snap zero_entry)\<lparr>d_maddr := a, d_laddr := j\<rparr>,
     ptr_cur := \<lparr>p_idx = 0, p_maddr = 0, p_laddr = 0\<rparr>, ptr_snap := \<lparr>p_idx = 0, p_maddr = 0, p_laddr = 0\<rparr>, se_size := z\<rparr>"
  let ?f = "\<lambda>e. e\<lparr>se_cur := (se_cur e)\<lparr>d_maddr := a, d_laddr := j\<rparr>, se_snap := (se_snap e)\<lparr>d_maddr := a, d_laddr := j\<rparr>,
     ptr_cur := \<lparr>p_idx = 0, p_maddr = 0, p_laddr = 0\<rparr>, ptr_snap := \<lparr>p_idx = 0, p_maddr = 0, p_laddr = 0\<rparr>, se_size := z\<rparr>"
  let ?b1 = "b\<lparr>sb_entries := (sb_entries b)[0 := e1]\<rparr>" and ?e2 = "first_entry (w_next_se r) z a j"
  let ?c1 = "?c(sb := PBucket ?b1)" and ?b2 = "b\<lparr>sb_entries := (sb_entries b)[0 := ?e2]\<rparr>"
  let ?c2 = "?c(sb := PBucket ?b2)"
  have we: "with_entry ?c ?se ?f = ?c1"
    using with_first_entry [of ?c sb b, OF cb b(4,2)] b(3) by (simp add: e1_def)
  have en: "entry_at ?c ?se = Some zero_entry" using entries_of_bucket [of ?c sb b, OF cb b(4) zero b(2,5)] b(3) by simp
  obtain w2 where w2: "up_se touch ?se ?f w1 = Inr ((), w2)" "memz True ?V ?c1 ?p k r w2"
    using ends_unit [OF total_up_se_z [of touch ?se ?V ?p ?c zero_entry, OF stores_touch wr(2,1) en, of True k r ?f] m1] unfolding we by blast
  obtain w3 where w3: "GET_NEXT_SLAB_ENTRY_ID w2 = Inr (w_next_se r, w3)" "memz True ?V ?c1 ?p k ?r w3"
    using GET_NEXT_SLAB_ENTRY_ID_run [OF w2(2)] by blast
  have cb1: "?c1 sb = PBucket ?b1" "length (sb_entries ?b1) = SLAB_BUCKET_ENTRIES" "sb_entries ?b1 ! 0 = e1" using b(2) zero by simp_all
  have e2: "e1\<lparr>se_id := w_next_se r\<rparr> = ?e2" by (simp add: e1_def first_entry_def zero_entry_def zero_data_def zero_pref_def)
  have we2: "with_entry ?c1 ?se (\<lambda>e. e\<lparr>se_id := w_next_se r\<rparr>) = ?c2"
    using with_first_entry [of ?c1 sb ?b1 "\<lambda>e. e\<lparr>se_id := w_next_se r\<rparr>", OF cb1(1) b(4) cb1(2)] cb1(3) e2 by simp
  have en2: "entry_at ?c1 ?se = Some e1" using entries_of_bucket [of ?c1 sb ?b1, OF cb1(1) b(4) zero cb1(2) b(5)] cb1(3) by simp
  obtain w4 where w4: "up_se touch ?se (\<lambda>e. e\<lparr>se_id := w_next_se r\<rparr>) w3 = Inr ((), w4)" "memz True ?V ?c2 ?p k ?r w4"
    using ends_unit [OF total_up_se_z [of touch ?se ?V ?p ?c1 e1, OF stores_touch wr(2,1) en2, of True k ?r "\<lambda>e. e\<lparr>se_id := w_next_se r\<rparr>"] w3(2)]
    unfolding we2 by blast
  have init: "slab_entry_init ?se z w = Inr ((), w4)"
    using w1(1) w2(1) w3(1) w4(1) se0 by (simp add: slab_entry_init_def statM_def bindM_step thenM_step)
  have cd: "?c2 sd = PDir d" using ne V(3) d(1) by auto
  have rd: "rd_dir sd w4 = Inr (d, w4)" by (rule rd_at(1) [OF w4(2) wr(4)]) (use cd in simp)
  let ?root = "\<lambda>d. d\<lparr>sd_maddr_root := RNode RB_BLACK RNil ?se RNil\<rparr>"
  have t: "touch ?se w4 = Inr ((), w4)" by (rule stores_ok [of touch, OF stores_touch w4(2) wr(2,1)])
  have dd: "as_dir (?c2 sd) = Some d" by (simp only: cd as_dir.simps)
  obtain w5 where w5: "up_dir touch sd ?root w4 = Inr ((), w5)" "memz True ?V (?c2(sd := PDir (?root d))) ?p k ?r w5"
    using ends_unit [OF total_up_z(1) [of touch sd ?V ?p ?c2, OF stores_touch wr(4,3) dd, of True k ?r ?root] w4(2)] by blast
  have "index_entry touch sd ?se w4 = Inr ((), w5)"
    using rd d(2) t w5(1) by (simp add: index_entry_def bindM_step thenM_step RB_INSERT_first)
  then have "thenM (slab_entry_init ?se z) (index_entry touch sd ?se) w = Inr ((), w5)" using init by (simp add: thenM_step)
  then show ?thesis using w1(2,3) w5(2) by blast
qed
section \<open>The first transaction\<close>

lemma zero_bucket_fields:
  "length (sb_entries zero_bucket) = SLAB_BUCKET_ENTRIES" "sb_entries zero_bucket ! 0 = zero_entry" "sb_id zero_bucket = 0"
  by (simp_all add: zero_bucket_def entries_numbers)

lemma first_bucket_at:
  assumes N: "no_objects k ct sd so si sb c pr r w" and d: "c sd = PDir (first_dir so l)" and n: "c si = PInner (first_inner sb m)"
    and r': "w_cont r' = ct"
  shows "bucket_at {ct, sd, so, si, sb} (c(sd := PDir (sized es (first_dir so l)))) pr r' sb zero_bucket si (first_inner sb m) 0"
proof -
  let ?c = "c(sd := PDir (sized es (first_dir so l)))"
  note D = no_objectsD [OF N] and nf = first_node_fields and df = first_dir_fields
  obtain f where f: "c ct = PCont f" "l_maddr (c_current_slab f) = sd" using D(4) by blast
  obtain o' where o': "c so = POuter (first_outer si o')" using D(8) by blast
  have "dir_is {ct, sd, so, si, sb} ?c r' sd (sized es (first_dir so l))" using f D(6) r' by (auto simp: dir_is_def)
  moreover have ne: "sb \<noteq> sd" "so \<noteq> sd" "si \<noteq> sd" using D(6) by auto
  moreover have "as_outer (?c so) = Some (first_outer si o')" using o' ne by simp
  ultimately show ?thesis
    unfolding bucket_at_def using D(5,7) n nf df zero_bucket_fields
    by (intro conjI exI [of _ sd] exI [of _ "sized es (first_dir so l)"] exI [of _ so] exI [of _ "first_outer si o'"])
      (simp_all add: entries_numbers)
qed

lemma first_palloc:
  assumes N: "no_objects (Suc (Suc (Suc k))) ct sd so si sb c pr r w"
    and z: "unat (ROUND8 sz) = z" "unat sz \<le> PAGE_SIZE" "slots z cap off" "Suc 0 < cap"
  shows "\<exists>w' a s t c0 d n b p c' r'. container_palloc sz w = Inr (a + off, w') \<and> a \<notin> {ct, sd, so, si, sb} \<and>
    quiet_at (insert a {ct, sd, so, si, sb}) c0 p r' sd d si n sb b 0 0 (\<lambda>_. 0) \<and>
    d_maddr (se_cur (sb_entries b ! 0)) = a \<and> se_size (sb_entries b ! 0) = z \<and> class_of_size r' (sd_size_root d) z (se_addr sb 0) \<and>
    mem (insert t (insert s (insert a {ct, sd, so, si, sb}))) c' (opened_prot p a s t) k r' w' \<and>
    opened (insert a {ct, sd, so, si, sb}) c0 sd d si n sb b 0 0 (bit_set (\<lambda>_. 0) 0) s t c' \<and> \<not> w_copynswap r' \<and> \<not> w_do_closure r'"
proof -
  let ?U = "{ct, sd, so, si, sb}" and ?se = "se_addr sb 0" and ?es = "w_next_es r"
  note D = no_objectsD [OF N]
  obtain l where d: "c sd = PDir (first_dir so l)" using D(3) by blast
  obtain i where n: "c si = PInner (first_inner sb i)" using D(9) by blast
  let ?d = "first_dir so l" and ?n = "first_inner sb i"
  have zero: "0 < SLAB_BUCKET_ENTRIES" by (simp add: entries_numbers)
  have sb: "PAGE_SIZE dvd sb" "0 < sb" "sb \<in> ?U" "sd \<in> ?U" "sb \<noteq> sd" "writable (pr sb)" "writable (pr sd)" using D(5,6) by auto
  have pg: "page_base ?se = sb" by (rule se_addr_page(1) [OF sb(1) zero])
  let ?w = "w\<lparr>w_os := stat (INC_BOTH Pallocations) (w_os w)\<rparr>"
  have "memz True ?U c pr (Suc (Suc (Suc k))) r ?w" by (rule mem_stat [OF D(1)])
  then have N0: "no_objects (Suc (Suc (Suc k))) ct sd so si sb c pr r ?w" using N by (simp add: no_objects_def)
  obtain w1 q where w1: "pick_entry sd z ?w = Inr ((?es, ?se), w1)" "STAILQ_FIRST q (es_list_head ?es) = ?se"
    and m1: "memz True ?U (c(sd := PDir (sized ?es ?d))) pr (Suc (Suc (Suc k))) (picked z q r) w1"
    using first_pick [OF N0 d, of z] by blast
  let ?r1 = "picked z q r" and ?c1 = "c(sd := PDir (sized ?es ?d))"
  have r1: "w_cont ?r1 = ct" "\<not> w_copynswap ?r1" "\<not> w_do_closure ?r1" "w_es ?r1 ?es = z" "w_links ?r1 = q"
    using D(2,12,13) by (simp_all add: picked_def)
  have same: "l_maddr (node_current ?n ! 0) = l_maddr (node_snapshot ?n ! 0)" by (simp add: first_node_fields)
  from endsD [OF mark_bucket_first_z [OF first_bucket_at [OF N d n r1(1)] r1(2) same] m1] obtain w2 s ls where
    w2: "mark_bucket sb w1 = Inr ((), w2)" "s \<notin> ?U" and
    m2: "memz True (insert s ?U) (marked_c ?c1 sb zero_bucket si ?n 0 s ls) (pr(s := PA_PROT_WRITE)) (Suc (Suc k)) ?r1 w2"
    by (auto simp del: fun_upd_apply)
  let ?c2 = "marked_c ?c1 sb zero_bucket si ?n 0 s ls" and ?p2 = "pr(s := PA_PROT_WRITE)" and ?b2 = "zero_bucket\<lparr>sb_has_snapshot := True\<rparr>"
  have ne: "s \<noteq> ct" "s \<noteq> sd" "s \<noteq> so" "s \<noteq> si" "s \<noteq> sb" using w2(2) by auto
  have c2: "?c2 sb = PBucket ?b2" "?c2 sd = PDir (sized ?es ?d)" using ne D(6) by (auto simp: marked_c_def)
  have "entry_at ?c2 ?se = Some zero_entry"
    using entries_of_bucket [of ?c2 sb ?b2, OF c2(1) sb(1) zero _ sb(2)] zero_bucket_fields by simp
  then have rd: "rd_se ?se w2 = Inr (zero_entry, w2)" using rd_se_ok [OF m2] pg sb(3) by simp
  have wr2: "writable (?p2 sb)" "writable (?p2 sd)" "sb \<in> insert s ?U" "sd \<in> insert s ?U" using sb ne by auto
  have b2: "length (sb_entries ?b2) = SLAB_BUCKET_ENTRIES" "sb_entries ?b2 ! 0 = zero_entry"
    and root2: "sd_maddr_root (sized ?es ?d) = RNil" by (simp_all add: zero_bucket_fields first_dir_fields)
  obtain w3 a j where w3: "thenM (slab_entry_init ?se z) (index_entry touch sd ?se) w2 = Inr ((), w3)" "a \<notin> insert s ?U" "0 < a"
    and m3: "memz True (insert a (insert s ?U))
      (?c2(a := PZero, sb := PBucket (?b2\<lparr>sb_entries := (sb_entries ?b2)[0 := first_entry (w_next_se ?r1) z a j]\<rparr>),
         sd := PDir ((sized ?es ?d)\<lparr>sd_maddr_root := RNode RB_BLACK RNil ?se RNil\<rparr>)))
      (?p2(a := PA_PROT_READ)) (Suc k) (?r1\<lparr>w_next_se := (w_next_se ?r1 + 1) mod 2 ^ 32\<rparr>) w3"
    using first_fill [OF m2 wr2(3,4) sb(5) wr2(1,2) c2(1) b2 sb(1,2) c2(2) root2, of z] by blast
  let ?e = "first_entry (w_next_se ?r1) z a j" and ?r = "?r1\<lparr>w_next_se := (w_next_se ?r1 + 1) mod 2 ^ 32\<rparr>"
  let ?cc = "first_c c sd sb ?d ?es a ?e" and ?b = "first_bucket ?e" and ?dd = "first_index ?es ?se ?d" and ?p = "pr(a := PA_PROT_READ)"
  let ?UU = "insert a ?U"
  have a: "a \<notin> ?U" "a \<noteq> s" using w3(2) by auto
  have z0: "0 < z" "z \<le> PAGE_SIZE" "z < SLAB_LARGE_ALLOC" using z(3) by (auto simp: slots_def SLAB_LARGE_ALLOC_def PAGE_SIZE_def)
  have Q: "quiet_at ?UU ?cc ?p ?r sd ?dd si ?n sb ?b 0 0 (\<lambda>_. 0)"
    by (rule first_quiet [OF N d n a(1) w3(3) z0(1,2)]) (use r1(1) in simp)
  have same_c: "?c2(a := PZero, sb := PBucket (?b2\<lparr>sb_entries := (sb_entries ?b2)[0 := ?e]\<rparr>),
      sd := PDir ((sized ?es ?d)\<lparr>sd_maddr_root := RNode RB_BLACK RNil ?se RNil\<rparr>)) =
      (marked_c ?cc sb ?b si ?n 0 s ls)(s := PBucket zero_bucket)"
    using a ne D(6) by (auto simp: marked_c_def first_c_def first_bucket_def first_index_def fun_eq_iff)
  have "memz True (insert s ?UU) ((marked_c ?cc sb ?b si ?n 0 s ls)(s := PBucket zero_bucket)) (?p(s := PA_PROT_WRITE)) (Suc k) ?r w3"
    using m3 unfolding same_c fun_upd_twist [OF a(2) [symmetric]] insert_commute [of a s] .
  then have m4: "mem (insert s ?UU) ((marked_c ?cc sb ?b si ?n 0 s ls)(s := PBucket zero_bucket)) (?p(s := PA_PROT_WRITE)) (Suc k) ?r w3"
    by (rule memz_mem)
  have be: "sb_entries ?b ! 0 = ?e" by (rule first_bucket_fields(3))
  have ef: "d_maddr (se_cur ?e) = a" "se_size ?e = z" by (simp_all add: first_entry_def)
  have f: "free_slot (sb_entries ?b ! 0) (\<lambda>_. 0) cap off 0"
    using slots_layout(3) [OF z(3) ef(2)] z0(3) z(4) be ef(2) by (simp add: free_slot_def bits_def)
  have s0: "s \<notin> ?UU" using ne a by auto
  have rc: "\<not> w_copynswap ?r" "\<not> w_do_closure ?r" using r1 by simp_all
  obtain w5 c5 t where w5: "slab_entry_alloc_mem ?se w3 = Inr (a + off, w5)"
    and m5: "mem (insert t (insert s ?UU)) c5 (opened_prot ?p a s t) k ?r w5"
    and op: "opened ?UU ?cc sd ?dd si ?n sb ?b 0 0 (bit_set (\<lambda>_. 0) 0) s t c5"
    using alloc_mem_opens [OF Q m4 sb(1) s0 rc(1) f] be ef by auto
  have full: "slab_entry_full ?se w5 = Inr (False, w5)" by (rule opened_not_full [OF Q sb(1) f m5 op])
  obtain g where g: "c ct = PCont g" "l_maddr (c_current_slab g) = sd" using D(4) by blast
  have "dir_is ?U c r sd ?d" using g d D(2) by (simp add: dir_is_def)
  from current_sd_ok [OF memz_mem [OF mem_stat [OF D(1)]] this] have cur: "current_sd ?w = Inr (sd, ?w)" by simp
  have fill: "thenM (slab_entry_init ?se z) (thenM (index_entry touch sd ?se) C) w2 = C w3" for C :: "'a M"
    unfolding thenM_assoc [symmetric] by (rule thenM_step) (rule w3(1))
  have "container_palloc sz w = Inr (a + off, w5)"
    using z(1,2) w1(1) pg w2(1) rd first_bucket_fields(5) w5 full cur
    by (simp add: container_palloc_def slab_palloc_def statM_def bindM_step thenM_step fill Let_def bindM_def [of "slab_entry_full _"])
  moreover have "class_of_size ?r (sd_size_root ?dd) z ?se"
    using r1(4,5) w1(2) D(11)
    by (simp add: class_of_size_def first_index_def RB_FIND_def size_cmp_def slab_entry_size_compare_by_size_def Let_def node_elem_def)
  ultimately show ?thesis using Q a(1) be ef m5 op rc by (metis (no_types, lifting))
qed

lemma first_transact:
  assumes N: "no_objects (Suc (Suc (Suc k))) ct sd so si sb c pr r w"
    and z: "unat (ROUND8 sz) = z" "unat sz \<le> PAGE_SIZE" "slots z cap off" "Suc 0 < cap"
  shows "\<exists>w' a p r'. transact sz bs w = Inr (a + off, w') \<and> a \<notin> {ct, sd, so, si, sb} \<and> \<not> w_copynswap r' \<and> \<not> w_do_closure r' \<and>
    quiet (insert a {ct, sd, so, si, sb}) p (Suc (Suc k)) r' sd si sb 0 0 z a (overwrite (bit_set (\<lambda>_. 0) 0) off bs) w'"
proof -
  let ?U = "{ct, sd, so, si, sb}" and ?x = "bit_set (\<lambda>_. 0) 0"
  from first_palloc [OF N z] obtain w1 a s t c d n b p c1 r' where
    w1: "container_palloc sz w = Inr (a + off, w1)" "a \<notin> ?U" and Q: "quiet_at (insert a ?U) c p r' sd d si n sb b 0 0 (\<lambda>_. 0)"
    and b: "d_maddr (se_cur (sb_entries b ! 0)) = a" "se_size (sb_entries b ! 0) = z" "class_of_size r' (sd_size_root d) z (se_addr sb 0)"
    and m1: "mem (insert t (insert s (insert a ?U))) c1 (opened_prot p a s t) k r' w1"
    and o1: "opened (insert a ?U) c sd d si n sb b 0 0 ?x s t c1" and r': "\<not> w_copynswap r'" "\<not> w_do_closure r'" by blast
  note D = quietD [OF Q]
  have dvd: "PAGE_SIZE dvd a" by (rule mem_page(3) [OF m1]) simp
  have cap: "0 < cap" using z(4) by simp
  have pg: "page_base (a + off + 0 * z) = a" "(a + off + 0 * z) mod PAGE_SIZE = off + 0 * z"
    by (rule slot_page [OF z(3) cap dvd])+
  then have pg: "page_base (a + off) = d_maddr (se_cur (sb_entries b ! 0))" "(a + off) mod PAGE_SIZE = off" using b(1) by simp_all
  have "d_maddr (se_cur (sb_entries b ! 0)) \<notin> {sd, si, sb}" using w1(2) b(1) by simp
  from store_bytes_opened [OF m1 [folded b(1)] o1 pg(1) _ this, of bs] b(1) obtain w2 c2 where
    w2: "store_bytes (a + off) bs w1 = Inr ((), w2)" and m2: "mem (insert t (insert s (insert a ?U))) c2 (opened_prot p (d_maddr (se_cur (sb_entries b ! 0))) s t) k r' w2"
    and o2: "opened (insert a ?U) c sd d si n sb b 0 0 (overwrite ?x off bs) s t c2"
    unfolding pg(2) by auto
  obtain w3 c3 d' n' b' where w3: "container_cpoint w2 = Inr ((), w3)" "mem (insert a ?U) c3 p (Suc (Suc k)) r' w3"
    "quiet_at (insert a ?U) c3 p r' sd d' si n' sb b' 0 0 (overwrite ?x off bs)" "sd_size_root d' = sd_size_root d"
    "se_cur (sb_entries b' ! 0) = se_cur (sb_entries b ! 0)" "se_size (sb_entries b' ! 0) = se_size (sb_entries b ! 0)"
    using cpoint_opened [OF Q m2 o2 r'(2)] by blast
  have "transact sz bs w = Inr (a + off, w3)"
    using w1(1) w2 w3(1) by (simp add: transact_def bindM_step thenM_step)
  moreover have "quiet (insert a ?U) p (Suc (Suc k)) r' sd si sb 0 0 z a (overwrite ?x off bs) w3"
    unfolding quiet_def by (intro exI [of _ c3] exI [of _ d'] exI [of _ n'] exI [of _ b']) (use w3(2-6) b in simp)
  ultimately show ?thesis using w1(2) r' by blast
qed

text \<open>
  C1: From an empty file to committed objects, within one data page.  The setting: a new process with
  the fixed mapper (not \<^verbatim>\<open>PMLIB_USE_NLMAPPER=1\<close>), the closure switched off by \<^verbatim>\<open>PMLIB_CLOSURE=0\<close>
  (without the variable it is on), no \<^verbatim>\<open>copynswap\<close>, and an empty file of at least eight pages.  The
  objects: at least one, all of one requested size whose rounded size is below 512 and none of 8, 16,
  24 and 56, and fewer of them than the slots of one data page of that size.  Then the constructor of
  the library and \<^verbatim>\<open>container_init\<close> succeed, and so does one transaction per object that allocates it,
  writes it and checkpoints the container.  The objects are the slots of one page in order; the page
  holds exactly their bytes and marks exactly their slots; its entry has this page as the current and
  as the snapshot version; the page is write-protected; and just six pages of the file are in use: the
  container, the directory, its two inner nodes, the bucket and the one data page.
\<close>

theorem new_container_keeps_objects:
  assumes "new_process e w" "initial_size e div PAGE_SIZE = k + 8"
    and "unat (ROUND8 sz) = z" "unat sz \<le> PAGE_SIZE" "slots z cap off"
    and "bss \<noteq> []" "length bss < cap" "\<forall>bs\<in>set bss. length bs \<le> z"
  shows "\<exists>ct w1 w2 a y se en. container_init e (library_init e w) = Inr (ct, w1) \<and>
    transacts sz bss w1 = Inr (map (\<lambda>j. a + off + j * z) [0..<length bss], w2) \<and>
    rd_data a w2 = Inr (y, w2) \<and> (\<forall>j<cap. bit_test y j \<noteq> 0 \<longleftrightarrow> j < length bss) \<and>
    (\<forall>j<length bss. \<forall>m<length (bss ! j). y (off + j * z + m) = bss ! j ! m) \<and>
    rd_se se w2 = Inr (en, w2) \<and> d_maddr (se_cur en) = a \<and> d_maddr (se_snap en) = a \<and>
    os_prot (w_os w2) (vpn a) = PA_PROT_READ \<and> card (pa_in_use (w_pa w2, w_os w2)) = 6 \<and> pa_spare (w_pa w2, w_os w2) = k + 2"
proof -
  obtain bs rest where bss: "bss = bs # rest" using assms(6) by (cases bss) auto
  have k: "initial_size e div PAGE_SIZE = Suc (Suc (Suc k)) + 5" using assms(2) by simp
  from container_init_new [OF library_new [OF assms(1)] k] obtain w1 ct sd so si sb c pr r where
    w1: "container_init e (library_init e w) = Inr (ct, w1)" and N: "no_objects (Suc (Suc (Suc k))) ct sd so si sb c pr r w1" by blast
  let ?U = "{ct, sd, so, si, sb}" and ?x = "overwrite (bit_set (\<lambda>_. 0) 0) off bs"
  have cap: "Suc 0 < cap" using assms(7) bss by simp
  from first_transact [OF N assms(3-5) cap, of bs] obtain w2 a p r' where
    w2: "transact sz bs w1 = Inr (a + off, w2)" "a \<notin> ?U" "\<not> w_copynswap r'" "\<not> w_do_closure r'" and
    q: "quiet (insert a ?U) p (Suc (Suc k)) r' sd si sb 0 0 z a ?x w2" by blast
  have bits: "\<forall>j<cap. bit_test ?x j \<noteq> 0 \<longleftrightarrow> j < 1"
  proof (intro allI impI)
    fix j assume j: "j < cap"
    have "bit_test ?x j = bit_test (bit_set (\<lambda>_. 0) 0) j" by (rule bit_overwrite [OF assms(5) j]) simp
    moreover have "bit_test (\<lambda>_. 0) j = 0" by (simp add: bits_def)
    ultimately show "bit_test ?x j \<noteq> 0 \<longleftrightarrow> j < 1" by (simp add: bits_bit_set)
  qed
  have len: "1 + length rest < cap" "\<forall>bs\<in>set rest. length bs \<le> z" using assms(7,8) bss by simp_all
  obtain w3 y where w3: "transacts sz rest w2 = Inr (map (\<lambda>j. a + off + j * z) [1..<1 + length rest], w3)"
    and q3: "quiet (insert a ?U) p (Suc (Suc k)) r' sd si sb 0 0 z a y w3"
    and y: "\<forall>j<cap. bit_test y j \<noteq> 0 \<longleftrightarrow> j < 1 + length rest" "\<And>j m. j < length rest \<Longrightarrow> m < length (rest ! j) \<Longrightarrow> y (off + (1 + j) * z + m) = rest ! j ! m"
      "\<And>i. off \<le> i \<Longrightarrow> i < off + 1 * z \<Longrightarrow> y i = ?x i"
    using transacts_run [OF w2(3,4) assms(3-5) q bits len] by blast
  have t: "transacts sz bss w1 = Inr (map (\<lambda>j. a + off + j * z) [0..<length bss], w3)"
    using w2(1) w3 upt_conv_Cons [of 0 "length bss"] by (simp add: bss bindM_step)
  have "y (off + j * z + m) = bss ! j ! m" if "j < length bss" "m < length (bss ! j)" for j m
  proof (cases j)
    case 0
    then have "m < z" "m < length bs" using that(2) assms(8) bss by auto
    then show ?thesis using 0 bss y(3) [of "off + m"] by (simp add: overwrite_def)
  next
    case (Suc j')
    then show ?thesis using y(2) [of j' m] that bss by simp
  qed
  moreover have "card (insert a ?U) = 6" using N w2(2) by (simp add: no_objects_def)
  moreover obtain en where "rd_se (se_addr sb 0) w3 = Inr (en, w3)" "d_maddr (se_cur en) = a" "d_maddr (se_snap en) = a"
    using quiet_means(5) [OF q3] by blast
  ultimately show ?thesis
    using w1 t y(1) bss quiet_means(1-4) [OF q3]
    by - (rule exI [of _ ct], rule exI [of _ w1], rule exI [of _ w3], rule exI [of _ a], rule exI [of _ y], rule exI [of _ "se_addr sb 0"], rule exI [of _ en], simp)
qed

text \<open>A process that starts with an empty file and asks for eight pages.\<close>

definition eight_page_env :: env where
  "eight_page_env = \<lparr>PMLIB_INIT_SIZE = Some 32768, PMLIB_USE_NLMAPPER = None, PMLIB_FIX_PTRS = None, PMLIB_CLOSURE = Some 0\<rparr>"

definition started :: world where
  "started = demo_world\<lparr>w_cont := 0, w_next_sb := 0,
     w_os := demo_os\<lparr>os_len := 0, os_pages := (\<lambda>_. PZero), os_vm := (\<lambda>_. None), os_space := 2 ^ 40\<rparr>\<rparr>"

lemma started_new: "new_process eight_page_env started" "initial_size eight_page_env = 8 * PAGE_SIZE"
proof -
  show i: "initial_size eight_page_env = 8 * PAGE_SIZE"
    by (simp add: eight_page_env_def initial_size_def ROUNDPG_def PAGE_MASK_def PAGE_SIZE_def)
  have "map_hint (of_nat (8 * PAGE_SIZE)) [] = 2 ^ 40" "unat (2 ^ 40 :: u64) = 2 ^ 40"
    by (simp_all add: map_hint_def TERABYTE_def PAGE_SIZE_def)
  then show "new_process eight_page_env started"
    unfolding new_process_def i by (simp add: started_def demo_world_def demo_os_def Let_def eight_page_env_def PAGE_SIZE_def)
qed

theorem new_container_keeps_objects_witness:
  "\<exists>ct w1 w2 a y. container_init eight_page_env (library_init eight_page_env started) = Inr (ct, w1) \<and>
     transacts 32 [[1, 2, 3], [4]] w1 = Inr ([a + 16, a + 48], w2) \<and> rd_data a w2 = Inr (y, w2) \<and> y 18 = 3 \<and> y 48 = 4 \<and>
     pa_spare (w_pa w2, w_os w2) = 2"
proof -
  have k: "initial_size eight_page_env div PAGE_SIZE = 0 + 8" using started_new(2) by (simp add: PAGE_SIZE_def)
  have s: "slots 32 127 16"
    by (simp add: slots_def SLAB_LARGE_ALLOC_def SLAB_ENTRY_CAPACITY_def SLAB_ENTRY_DATAOFFSET_def bitstr_size_div PAGE_SIZE_def)
  have sz: "unat (ROUND8 (32 :: u32)) = 32" "unat (32 :: u32) \<le> PAGE_SIZE" by (simp_all add: ROUND8_def PAGE_SIZE_def)
  have b: "[[1, 2, 3], [4 :: u8]] \<noteq> []" "length [[1, 2, 3], [4 :: u8]] < 127" "\<forall>bs\<in>set [[1, 2, 3], [4 :: u8]]. length bs \<le> 32" by simp_all
  have n: "map (\<lambda>j. a + 16 + j * 32) [0..<length [[1, 2, 3], [4 :: u8]]] = [a + 16, a + 48]" for a :: nat by (simp add: upt_rec)
  obtain ct w1 w2 a y where w: "container_init eight_page_env (library_init eight_page_env started) = Inr (ct, w1)"
      "transacts 32 [[1, 2, 3], [4]] w1 = Inr ([a + 16, a + 48], w2)" "rd_data a w2 = Inr (y, w2)" "pa_spare (w_pa w2, w_os w2) = 0 + 2"
    and y: "\<forall>j<length [[1, 2, 3], [4 :: u8]]. \<forall>m<length ([[1, 2, 3], [4 :: u8]] ! j). y (16 + j * 32 + m) = [[1, 2, 3], [4 :: u8]] ! j ! m"
    using new_container_keeps_objects [OF started_new(1) k sz s b] unfolding n by blast
  have "y 18 = 3" "y 48 = 4" using spec [OF y, of 0] spec [OF y, of 1] by (auto dest: spec [of _ 2])
  then show ?thesis using w(1-3) w(4) [unfolded add_0] by blast
qed

end
