(* ===== verification/Fixptr.thy ===== *)
theory Fixptr
  imports Fresh
begin

text \<open>
  The list of persistent pointers of \<^verbatim>\<open>src/src/fixptr.h\<close> and \<^verbatim>\<open>src/src/fixptr.c\<close>: a chain of inodes whose
  slots link to data nodes, with a current and a snapshot version of each.  The slab keeps its
  pointers in its entries by now, so the head of a list is an argument here.  The lemmas read the
  two versions of an inode as two sequences of pointers: an append extends the current one and
  leaves the committed one as it is, a checkpoint makes them equal, and a restore, which should
  return to the committed one, keeps the current one.
\<close>

section \<open>The nodes\<close>

definition PPTR_SIZE :: nat where "PPTR_SIZE = 16"
definition PPTR_DNODE_ENTRIES :: nat where "PPTR_DNODE_ENTRIES = (PAGE_SIZE - 4) div PPTR_SIZE"
definition PPTR_INODE_ENTRIES :: nat where "PPTR_INODE_ENTRIES = (PAGE_SIZE - 4 - 8 - 8) div (2 * (8 + 8))"

definition PPTR_DNODE_IS_FULL :: "pptr_dnode \<Rightarrow> bool" where "PPTR_DNODE_IS_FULL p \<longleftrightarrow> pdn_index p = PPTR_DNODE_ENTRIES"

definition zero_pptr :: pptr where
  "zero_pptr = \<lparr>pp_loc_offset = 0, pp_loc_seid = 0, pp_val_offset = 0, pp_val_seid = 0\<rparr>"
definition zero_dnode :: pptr_dnode where
  "zero_dnode = \<lparr>pdn_index = 0, pdn_entries = replicate PPTR_DNODE_ENTRIES zero_pptr\<rparr>"
definition zero_inode :: pptr_inode where
  "zero_inode = \<lparr>pin_current_idx = 0, pin_next = zero_link,
     pin_current = replicate PPTR_INODE_ENTRIES zero_link, pin_snapshot = replicate PPTR_INODE_ENTRIES zero_link\<rparr>"

record pptr_head =
  ph_first :: plink
  ph_last :: nat

definition rd_inode :: "nat \<Rightarrow> pptr_inode M" where
  "rd_inode a = bindM (page_of a) (\<lambda>p. case p of PInode d \<Rightarrow> retM d | PZero \<Rightarrow> retM zero_inode | _ \<Rightarrow> bad_page)"
definition rd_dnode :: "nat \<Rightarrow> pptr_dnode M" where
  "rd_dnode a = bindM (page_of a) (\<lambda>p. case p of PDnode d \<Rightarrow> retM d | PZero \<Rightarrow> retM zero_dnode | _ \<Rightarrow> bad_page)"
definition up_inode :: "nat \<Rightarrow> (pptr_inode \<Rightarrow> pptr_inode) \<Rightarrow> unit M" where
  "up_inode a f = thenM (touch a) (bindM (rd_inode a) (\<lambda>d. poke a (PInode (f d))))"
definition up_dnode :: "nat \<Rightarrow> (pptr_dnode \<Rightarrow> pptr_dnode) \<Rightarrow> unit M" where
  "up_dnode a f = thenM (touch a) (bindM (rd_dnode a) (\<lambda>d. poke a (PDnode (f d))))"

text \<open>The fields of the two versions of a slot.\<close>

definition current_link :: "nat \<Rightarrow> (plink \<Rightarrow> plink) \<Rightarrow> pptr_inode \<Rightarrow> pptr_inode" where
  "current_link i f n = n\<lparr>pin_current := (pin_current n)[i := f (pin_current n ! i)]\<rparr>"
definition snapshot_link :: "nat \<Rightarrow> (plink \<Rightarrow> plink) \<Rightarrow> pptr_inode \<Rightarrow> pptr_inode" where
  "snapshot_link i f n = n\<lparr>pin_snapshot := (pin_snapshot n)[i := f (pin_snapshot n ! i)]\<rparr>"

section \<open>Building the list\<close>










section \<open>Checkpoint and restore\<close>

text \<open>The loop over the chain of inodes; the body is done before the link of the inode is read.\<close>

partial_function (option) inode_loop :: "(nat \<Rightarrow> unit M) \<Rightarrow> nat \<Rightarrow> world \<Rightarrow> (unit \<times> world) res option" where
  "inode_loop body inode w =
     (if inode = 0 then Some (Inr ((), w))
      else case bindM (body inode) (\<lambda>_. rd_inode inode) w of
        Inl e \<Rightarrow> Some (Inl e)
      | Inr (n, w) \<Rightarrow> inode_loop body (l_maddr (pin_next n)) w)"

definition cpoint_slot :: "nat \<Rightarrow> nat \<Rightarrow> unit M" where
  "cpoint_slot inode i =
     bindM (rd_inode inode) (\<lambda>n. bindM (cellM (pin_current n) i) (\<lambda>c. bindM (cellM (pin_snapshot n) i) (\<lambda>s.
     if l_maddr c = 0 then retM ()
     else thenM (if l_maddr s \<noteq> 0 \<and> l_maddr s \<noteq> l_maddr c then freepage (l_maddr s) else retM ())
       (thenM (up_inode inode (\<lambda>n. snapshot_link i (\<lambda>l. l\<lparr>l_laddr := l_laddr (pin_current n ! i)\<rparr>) n))
       (up_inode inode (\<lambda>n. snapshot_link i (\<lambda>l. l\<lparr>l_maddr := l_maddr (pin_current n ! i)\<rparr>) n))))))"

definition pptr_cpoint :: "pptr_head \<Rightarrow> unit M" where
  "pptr_cpoint head =
     loopM (inode_loop (\<lambda>inode. eachM (cpoint_slot inode) [0..<PPTR_INODE_ENTRIES]) (l_maddr (ph_first head)))"

text \<open>The loop that maps the chain; the last inode is its result.\<close>

partial_function (option) map_chain :: "nat \<Rightarrow> world \<Rightarrow> (nat \<times> world) res option" where
  "map_chain inode w =
     (case rd_inode inode w of
        Inl e \<Rightarrow> Some (Inl e)
      | Inr (n, w) \<Rightarrow>
          if l_laddr (pin_next n) = 0 then Some (Inr (inode, w))
          else case bindM (mappage (l_laddr (pin_next n))) (\<lambda>next_inode.
                 thenM (up_inode inode (\<lambda>n. n\<lparr>pin_next := (pin_next n)\<lparr>l_maddr := next_inode\<rparr>\<rparr>)) (retM next_inode)) w of
              Inl e \<Rightarrow> Some (Inl e)
            | Inr (next_inode, w) \<Rightarrow> map_chain next_inode w)"

definition map_slot :: "cpoint_type \<Rightarrow> nat \<Rightarrow> nat \<Rightarrow> unit M" where
  "map_slot type inode i =
     bindM (rd_inode inode) (\<lambda>n. bindM (cellM (pin_current n) i) (\<lambda>c. bindM (cellM (pin_snapshot n) i) (\<lambda>s.
     thenM (if l_laddr c \<noteq> 0
            then bindM (mappage (l_laddr c)) (\<lambda>a.
                 thenM (up_inode inode (current_link i (\<lambda>l. l\<lparr>l_maddr := a\<rparr>)))
                 (up_inode inode (\<lambda>n. snapshot_link i (\<lambda>l. l\<lparr>l_maddr := l_maddr (pin_current n ! i)\<rparr>) n)))
            else retM ())
     (if type = CPOINT_INCOMPLETE \<and> l_laddr s \<noteq> 0
      then bindM (mappage (l_laddr s)) (\<lambda>b. up_inode inode (snapshot_link i (\<lambda>l. l\<lparr>l_maddr := b\<rparr>)))
      else retM ()))))"

definition pptr_map :: "pptr_head \<Rightarrow> cpoint_type \<Rightarrow> pptr_head M" where
  "pptr_map head type =
     bindM (mappage (l_laddr (ph_first head))) (\<lambda>inode.
     bindM (\<lambda>w. case map_chain inode w of Some r \<Rightarrow> r | None \<Rightarrow> Inl Diverges) (\<lambda>last_inode.
     let head = head\<lparr>ph_first := (ph_first head)\<lparr>l_maddr := inode\<rparr>, ph_last := last_inode\<rparr> in
     thenM (loopM (inode_loop (\<lambda>inode. eachM (map_slot type inode) [0..<PPTR_INODE_ENTRIES]) inode))
     (thenM (ifM (type = CPOINT_INCOMPLETE) (pptr_cpoint head))
     (retM head))))"
section \<open>Rules for the nodes\<close>

fun as_inode :: "page \<Rightarrow> pptr_inode option" where
  "as_inode (PInode d) = Some d" | "as_inode PZero = Some zero_inode" | "as_inode _ = None"
fun as_dnode :: "page \<Rightarrow> pptr_dnode option" where
  "as_dnode (PDnode d) = Some d" | "as_dnode PZero = Some zero_dnode" | "as_dnode _ = None"

lemma rd_node_at:
  assumes "memz z U c pr k r w" "a \<in> U"
  shows "as_inode (c a) = Some n \<Longrightarrow> rd_inode a w = Inr (n, w)" "as_dnode (c a) = Some d \<Longrightarrow> rd_dnode a w = Inr (d, w)"
proof -
  have "page_base a \<in> U" using mem_page(1) [OF assms] assms(2) by simp
  then have "page_of a w = Inr (c a, w)" using page_of_ok [OF assms(1)] mem_page(1) [OF assms] by simp
  then show "as_inode (c a) = Some n \<Longrightarrow> rd_inode a w = Inr (n, w)" "as_dnode (c a) = Some d \<Longrightarrow> rd_dnode a w = Inr (d, w)"
    by (cases "c a"; simp add: rd_inode_def rd_dnode_def bindM_step)+
qed

lemma up_node_at:
  assumes m: "memz z U c pr k r w" and a: "a \<in> U" "writable (pr a)"
  shows "as_inode (c a) = Some n \<Longrightarrow> \<exists>w'. up_inode a f w = Inr ((), w') \<and> memz z U (c(a := PInode (f n))) pr k r w'"
    "as_dnode (c a) = Some d \<Longrightarrow> \<exists>w'. up_dnode a g w = Inr ((), w') \<and> memz z U (c(a := PDnode (g d))) pr k r w'"
proof -
  show "\<exists>w'. up_inode a f w = Inr ((), w') \<and> memz z U (c(a := PInode (f n))) pr k r w'" if "as_inode (c a) = Some n"
  proof -
    have "rd_inode a w = Inr (n, w)" if "memz z U c pr k r w" for w by (rule rd_node_at(1) [OF that a(1) \<open>as_inode (c a) = Some n\<close>])
    from ends_unit [OF total_store [of touch a U pr z c k r rd_inode n PInode f, OF stores_touch a this] m] show ?thesis unfolding up_inode_def .
  qed
  show "\<exists>w'. up_dnode a g w = Inr ((), w') \<and> memz z U (c(a := PDnode (g d))) pr k r w'" if "as_dnode (c a) = Some d"
  proof -
    have "rd_dnode a w = Inr (d, w)" if "memz z U c pr k r w" for w by (rule rd_node_at(2) [OF that a(1) \<open>as_dnode (c a) = Some d\<close>])
    from ends_unit [OF total_store [of touch a U pr z c k r rd_dnode d PDnode g, OF stores_touch a this] m] show ?thesis unfolding up_dnode_def .
  qed
qed

section \<open>The two versions of an inode\<close>

text \<open>The pointers of a page, and of the pages that a list of links leads to.\<close>

definition pointers_in :: "page \<Rightarrow> pptr list" where
  "pointers_in p = (case as_dnode p of Some d \<Rightarrow> take (pdn_index d) (pdn_entries d) | None \<Rightarrow> [])"

definition pointers :: "(nat \<Rightarrow> page) \<Rightarrow> plink list \<Rightarrow> pptr list" where
  "pointers c ls = concat (map (\<lambda>l. if l_maddr l = 0 then [] else pointers_in (c (l_maddr l))) ls)"


lemma pointers_cong:
  "(\<And>l. l \<in> set ls \<Longrightarrow> l_maddr l \<noteq> 0 \<Longrightarrow> c' (l_maddr l) = c (l_maddr l)) \<Longrightarrow> pointers c' ls = pointers c ls"
  unfolding pointers_def by (rule arg_cong [of _ _ concat], rule map_cong) auto

lemma pointers_same_maddr:
  assumes "map l_maddr ls = map l_maddr ls'"
  shows "pointers c ls = pointers c ls'"
proof -
  have "pointers c xs = concat (map (\<lambda>a. if a = 0 then [] else pointers_in (c a)) (map l_maddr xs))" for xs
    by (simp add: pointers_def comp_def)
  from this [of ls] this [of ls'] show ?thesis by (simp only: assms)
qed


definition slot_ok :: "nat set \<Rightarrow> (nat \<Rightarrow> page) \<Rightarrow> (nat \<Rightarrow> nat) \<Rightarrow> nat \<Rightarrow> plink \<Rightarrow> plink \<Rightarrow> bool" where
  "slot_ok U c pr a cl sl \<longleftrightarrow>
     (l_maddr cl \<noteq> 0 \<longrightarrow> l_maddr cl \<in> U - {a} \<and> writable (pr (l_maddr cl)) \<and>
        (\<exists>d. as_dnode (c (l_maddr cl)) = Some d \<and> length (pdn_entries d) = PPTR_DNODE_ENTRIES \<and> pdn_index d \<le> PPTR_DNODE_ENTRIES)) \<and>
     (l_maddr sl \<noteq> 0 \<longrightarrow> l_maddr sl \<in> U - {a}) \<and> (l_maddr sl = 0 \<longrightarrow> l_laddr sl = 0) \<and> (l_maddr cl = 0 \<longrightarrow> l_maddr sl = 0)"

definition full_slot :: "(nat \<Rightarrow> page) \<Rightarrow> plink \<Rightarrow> bool" where
  "full_slot c l \<longleftrightarrow> l_maddr l \<noteq> 0 \<and> (\<exists>d. as_dnode (c (l_maddr l)) = Some d \<and> PPTR_DNODE_IS_FULL d)"

text \<open>
  An inode in order: the slots before the current one have full nodes, those behind it are empty,
  and no current node is a node of another slot.
\<close>

definition pptr_list :: "nat set \<Rightarrow> (nat \<Rightarrow> page) \<Rightarrow> (nat \<Rightarrow> nat) \<Rightarrow> nat \<Rightarrow> pptr_inode \<Rightarrow> bool" where
  "pptr_list U c pr a n \<longleftrightarrow>
     a \<in> U \<and> writable (pr a) \<and> c a = PInode n \<and> pin_current_idx n < PPTR_INODE_ENTRIES \<and>
     length (pin_current n) = PPTR_INODE_ENTRIES \<and> length (pin_snapshot n) = PPTR_INODE_ENTRIES \<and>
     (\<forall>j<PPTR_INODE_ENTRIES. slot_ok U c pr a (pin_current n ! j) (pin_snapshot n ! j)) \<and>
     (\<forall>j<pin_current_idx n. full_slot c (pin_current n ! j)) \<and>
     (\<forall>j<PPTR_INODE_ENTRIES. pin_current_idx n < j \<longrightarrow> l_maddr (pin_current n ! j) = 0) \<and>
     (\<forall>i<PPTR_INODE_ENTRIES. \<forall>j<PPTR_INODE_ENTRIES. i \<noteq> j \<longrightarrow> l_maddr (pin_current n ! i) \<noteq> 0 \<longrightarrow>
        l_maddr (pin_current n ! i) \<noteq> l_maddr (pin_current n ! j) \<and> l_maddr (pin_current n ! i) \<noteq> l_maddr (pin_snapshot n ! j)) \<and>
     (\<forall>i<PPTR_INODE_ENTRIES. \<forall>j<PPTR_INODE_ENTRIES. i \<noteq> j \<longrightarrow> l_maddr (pin_snapshot n ! i) \<noteq> 0 \<longrightarrow>
        l_maddr (pin_snapshot n ! i) \<noteq> l_maddr (pin_snapshot n ! j))"

lemma pptr_listD:
  assumes "pptr_list U c pr a n"
  shows "a \<in> U" "writable (pr a)" "as_inode (c a) = Some n" "pin_current_idx n < PPTR_INODE_ENTRIES"
    "length (pin_current n) = PPTR_INODE_ENTRIES" "length (pin_snapshot n) = PPTR_INODE_ENTRIES"
    "j < PPTR_INODE_ENTRIES \<Longrightarrow> slot_ok U c pr a (pin_current n ! j) (pin_snapshot n ! j)"
    "j < pin_current_idx n \<Longrightarrow> full_slot c (pin_current n ! j)"
    "j < PPTR_INODE_ENTRIES \<Longrightarrow> pin_current_idx n < j \<Longrightarrow> l_maddr (pin_current n ! j) = 0"
    "i < PPTR_INODE_ENTRIES \<Longrightarrow> j < PPTR_INODE_ENTRIES \<Longrightarrow> i \<noteq> j \<Longrightarrow> l_maddr (pin_current n ! i) \<noteq> 0 \<Longrightarrow>
       l_maddr (pin_current n ! i) \<noteq> l_maddr (pin_current n ! j) \<and> l_maddr (pin_current n ! i) \<noteq> l_maddr (pin_snapshot n ! j)"
    "i < PPTR_INODE_ENTRIES \<Longrightarrow> j < PPTR_INODE_ENTRIES \<Longrightarrow> i \<noteq> j \<Longrightarrow> l_maddr (pin_snapshot n ! i) \<noteq> 0 \<Longrightarrow>
       l_maddr (pin_snapshot n ! i) \<noteq> l_maddr (pin_snapshot n ! j)"
  using assms by (auto simp: pptr_list_def)

lemma pptr_links:
  assumes "pptr_list U c pr a n" "j < PPTR_INODE_ENTRIES"
  shows "l_maddr (pin_current n ! j) \<noteq> 0 \<Longrightarrow> l_maddr (pin_current n ! j) \<in> U - {a}"
    "l_maddr (pin_snapshot n ! j) \<noteq> 0 \<Longrightarrow> l_maddr (pin_snapshot n ! j) \<in> U - {a}"
  using pptr_listD(7) [OF assms] by (auto simp: slot_ok_def)

lemma pointers_frame:
  assumes "\<And>j. j < length ls \<Longrightarrow> l_maddr (ls ! j) \<noteq> 0 \<Longrightarrow> l_maddr (ls ! j) \<in> S" "\<And>x. x \<in> S \<Longrightarrow> c' x = c x"
  shows "pointers c' ls = pointers c ls" "pointers c' (take i ls) = pointers c (take i ls)"
proof -
  have *: "c' (l_maddr l) = c (l_maddr l)" if "l \<in> set ls" "l_maddr l \<noteq> 0" for l
    using that assms by (auto simp: in_set_conv_nth)
  then show "pointers c' ls = pointers c ls" by (rule pointers_cong)
  show "pointers c' (take i ls) = pointers c (take i ls)" by (rule pointers_cong) (use * in_set_takeD in fast)
qed





text \<open>The pointers of the current version, and of the committed one.\<close>

definition current_pointers :: "(nat \<Rightarrow> page) \<Rightarrow> pptr_inode \<Rightarrow> pptr list" where
  "current_pointers c n = pointers c (pin_current n)"
definition committed_pointers :: "(nat \<Rightarrow> page) \<Rightarrow> pptr_inode \<Rightarrow> pptr list" where
  "committed_pointers c n = pointers c (pin_snapshot n)"



section \<open>Append\<close>








section \<open>Checkpoint\<close>

text \<open>The snapshot version when the slots before \<^verbatim>\<open>t\<close> are committed, and the pages given back by then.\<close>

definition committed_to :: "nat \<Rightarrow> pptr_inode \<Rightarrow> pptr_inode" where
  "committed_to t n = n\<lparr>pin_snapshot := map (\<lambda>j. if j < t \<and> l_maddr (pin_current n ! j) \<noteq> 0 then pin_current n ! j
     else pin_snapshot n ! j) [0..<PPTR_INODE_ENTRIES]\<rparr>"

definition replaced :: "pptr_inode \<Rightarrow> nat \<Rightarrow> bool" where
  "replaced n j \<longleftrightarrow> l_maddr (pin_current n ! j) \<noteq> 0 \<and> l_maddr (pin_snapshot n ! j) \<noteq> 0 \<and>
     l_maddr (pin_snapshot n ! j) \<noteq> l_maddr (pin_current n ! j)"

definition freed_to :: "nat \<Rightarrow> pptr_inode \<Rightarrow> nat set" where
  "freed_to t n = {l_maddr (pin_snapshot n ! j) | j. j < t \<and> replaced n j}"

lemma cpoint_slot_run:
  assumes m: "mem U c pr k r w" and a: "a \<in> U" "writable (pr a)" "c a = PInode n"
    and l: "i < length (pin_current n)" "length (pin_snapshot n) = length (pin_current n)"
    and s: "replaced n i \<Longrightarrow> l_maddr (pin_snapshot n ! i) \<in> U - {a}"
  shows "\<exists>w' k'. cpoint_slot a i w = Inr ((), w') \<and>
    mem (if replaced n i then U - {l_maddr (pin_snapshot n ! i)} else U)
      (c(a := PInode (if l_maddr (pin_current n ! i) = 0 then n else n\<lparr>pin_snapshot := (pin_snapshot n)[i := pin_current n ! i]\<rparr>))) pr k' r w'"
proof -
  let ?c = "pin_current n ! i" and ?s = "pin_snapshot n ! i"
  let ?V = "if replaced n i then U - {l_maddr ?s} else U"
  have ia: "as_inode (c a) = Some n" using a(3) by simp
  have rd: "rd_inode a w = Inr (n, w)" by (rule rd_node_at(1) [OF m a(1) ia])
  have cells: "cellM (pin_current n) i = retM ?c" "cellM (pin_snapshot n) i = retM ?s" using l by (simp_all add: cellM_def)
  show ?thesis
  proof (cases "l_maddr ?c = 0")
    case True
    moreover have "c(a := PInode n) = c" using a(3) by auto
    ultimately show ?thesis using m rd by (auto simp: cpoint_slot_def bindM_step cells retM_def replaced_def)
  next
    case False
    have "\<exists>w1 k1. (if l_maddr ?s \<noteq> 0 \<and> l_maddr ?s \<noteq> l_maddr ?c then freepage (l_maddr ?s) else retM ()) w = Inr ((), w1) \<and> mem ?V c pr k1 r w1"
    proof (cases "replaced n i")
      case True
      then have "l_maddr ?s \<in> U" using s by auto
      from ends_unit [OF total_freepage [OF this] m] show ?thesis using True by (auto simp: replaced_def)
    next
      case nr: False
      then show ?thesis using m False by (auto simp: replaced_def retM_def)
    qed
    then obtain w1 k1 where w1: "(if l_maddr ?s \<noteq> 0 \<and> l_maddr ?s \<noteq> l_maddr ?c then freepage (l_maddr ?s) else retM ()) w = Inr ((), w1)"
      and m1: "mem ?V c pr k1 r w1" by blast
    have aV: "a \<in> ?V" using s a(1) by auto
    let ?n1 = "snapshot_link i (\<lambda>l'. l'\<lparr>l_laddr := l_laddr ?c\<rparr>) n"
    obtain w2 where w2: "up_inode a (\<lambda>n. snapshot_link i (\<lambda>l. l\<lparr>l_laddr := l_laddr (pin_current n ! i)\<rparr>) n) w1 = Inr ((), w2)"
      "mem ?V (c(a := PInode ?n1)) pr k1 r w2" using up_node_at(1) [OF m1 aV a(2) ia] by blast
    have n1: "as_inode ((c(a := PInode ?n1)) a) = Some ?n1" "pin_current ?n1 = pin_current n" by (simp_all add: snapshot_link_def)
    let ?n2 = "snapshot_link i (\<lambda>l'. l'\<lparr>l_maddr := l_maddr ?c\<rparr>) ?n1"
    obtain w3 where w3: "up_inode a (\<lambda>n. snapshot_link i (\<lambda>l. l\<lparr>l_maddr := l_maddr (pin_current n ! i)\<rparr>) n) w2 = Inr ((), w3)"
      "mem ?V (c(a := PInode ?n1, a := PInode ?n2)) pr k1 r w3"
      using up_node_at(1) [OF w2(2) aV a(2) n1(1), of "\<lambda>n. snapshot_link i (\<lambda>l. l\<lparr>l_maddr := l_maddr (pin_current n ! i)\<rparr>) n"] unfolding n1(2) by blast
    have new: "x\<lparr>l_laddr := l_laddr ?c, l_maddr := l_maddr ?c\<rparr> = ?c" for x :: plink by (cases x; cases "?c") simp
    have "?n2 = n\<lparr>pin_snapshot := (pin_snapshot n)[i := ?c]\<rparr>" using l by (simp add: snapshot_link_def new)
    then have "c(a := PInode ?n1, a := PInode ?n2) = c(a := PInode (if l_maddr ?c = 0 then n else n\<lparr>pin_snapshot := (pin_snapshot n)[i := ?c]\<rparr>))"
      using False by simp
    moreover have "cpoint_slot a i w = Inr ((), w3)"
      using rd w1 w2(1) w3(1) False by (simp add: cpoint_slot_def bindM_step cells thenM_step)
    ultimately show ?thesis using w3(2) by metis
  qed
qed

lemma freed_to_Suc: "freed_to (Suc t) n = freed_to t n \<union> (if replaced n t then {l_maddr (pin_snapshot n ! t)} else {})"
  by (auto simp: freed_to_def less_Suc_eq)

lemma committed_to_nth:
  assumes "length (pin_current n) = PPTR_INODE_ENTRIES" "length (pin_snapshot n) = PPTR_INODE_ENTRIES"
  shows "committed_to 0 n = n" "pin_current (committed_to t n) = pin_current n" "length (pin_snapshot (committed_to t n)) = PPTR_INODE_ENTRIES"
    "j < PPTR_INODE_ENTRIES \<Longrightarrow> pin_snapshot (committed_to t n) ! j =
       (if j < t \<and> l_maddr (pin_current n ! j) \<noteq> 0 then pin_current n ! j else pin_snapshot n ! j)"
    "t < PPTR_INODE_ENTRIES \<Longrightarrow> committed_to (Suc t) n = (if l_maddr (pin_current n ! t) = 0 then committed_to t n
       else (committed_to t n)\<lparr>pin_snapshot := (pin_snapshot (committed_to t n))[t := pin_current n ! t]\<rparr>)"
proof -
  have "map (\<lambda>j. pin_snapshot n ! j) [0..<PPTR_INODE_ENTRIES] = pin_snapshot n" using assms(2) map_nth [of "pin_snapshot n"] by simp
  then show "committed_to 0 n = n" by (simp add: committed_to_def)
  show "pin_current (committed_to t n) = pin_current n" "length (pin_snapshot (committed_to t n)) = PPTR_INODE_ENTRIES"
    by (simp_all add: committed_to_def)
  show "j < PPTR_INODE_ENTRIES \<Longrightarrow> pin_snapshot (committed_to t n) ! j =
       (if j < t \<and> l_maddr (pin_current n ! j) \<noteq> 0 then pin_current n ! j else pin_snapshot n ! j)" by (simp add: committed_to_def)
  show "committed_to (Suc t) n = (if l_maddr (pin_current n ! t) = 0 then committed_to t n
       else (committed_to t n)\<lparr>pin_snapshot := (pin_snapshot (committed_to t n))[t := pin_current n ! t]\<rparr>)" if "t < PPTR_INODE_ENTRIES"
    using that by (auto simp: committed_to_def less_Suc_eq nth_list_update intro!: nth_equalityI arg_cong [of _ _ "\<lambda>x. n\<lparr>pin_snapshot := x\<rparr>"])
qed

lemma cpoint_slots:
  assumes m: "mem U c pr k r w" and p: "pptr_list U c pr a n"
  shows "\<exists>w' k'. eachM (cpoint_slot a) [0..<PPTR_INODE_ENTRIES] w = Inr ((), w') \<and>
    mem (U - freed_to PPTR_INODE_ENTRIES n) (c(a := PInode (committed_to PPTR_INODE_ENTRIES n))) pr k' r w'"
proof -
  note E = pptr_listD [OF p] and U = pptr_links [OF p] and C = committed_to_nth [OF pptr_listD(5,6) [OF p]]
  let ?I = "\<lambda>t w. \<exists>k'. mem (U - freed_to t n) (c(a := PInode (committed_to t n))) pr k' r w"
  have "ends (?I t) (cpoint_slot a ([0..<PPTR_INODE_ENTRIES] ! t)) (\<lambda>_. ?I (Suc t))" if t: "t < length [0..<PPTR_INODE_ENTRIES]" for t
    unfolding ends_def
  proof (intro allI impI)
    fix w
    assume "?I t w"
    then obtain k' where m: "mem (U - freed_to t n) (c(a := PInode (committed_to t n))) pr k' r w" by blast
    have t': "t < PPTR_INODE_ENTRIES" using t by simp
    have "l_maddr (pin_snapshot n ! j) \<noteq> a" if "j < t" "replaced n j" for j
      using U(2) [of j] that t' by (auto simp: replaced_def)
    then have a: "a \<in> U - freed_to t n" using E(1) by (auto simp: freed_to_def)
    have rep: "replaced (committed_to t n) t = replaced n t" "pin_snapshot (committed_to t n) ! t = pin_snapshot n ! t"
      using C(2) C(4) [OF t'] by (simp_all add: replaced_def)
    have s: "l_maddr (pin_snapshot (committed_to t n) ! t) \<in> U - freed_to t n - {a}" if "replaced (committed_to t n) t"
    proof -
      have "l_maddr (pin_snapshot n ! t) \<noteq> 0" using that rep by (simp add: replaced_def)
      then have "l_maddr (pin_snapshot n ! t) \<in> U - {a}" "l_maddr (pin_snapshot n ! t) \<notin> freed_to t n"
        using U(2) [OF t'] E(11) [OF t'] t' by (auto simp: freed_to_def)
      then show ?thesis using rep(2) by simp
    qed
    have l: "t < length (pin_current (committed_to t n))" "length (pin_snapshot (committed_to t n)) = length (pin_current (committed_to t n))"
      using t' C(2,3) E(5) by simp_all
    have U': "(if replaced n t then U - freed_to t n - {l_maddr (pin_snapshot (committed_to t n) ! t)} else U - freed_to t n) =
      U - freed_to (Suc t) n" unfolding rep(2) by (auto simp: freed_to_Suc)
    from cpoint_slot_run [OF m a E(2) _ l s]
    show "\<exists>x w'. cpoint_slot a ([0..<PPTR_INODE_ENTRIES] ! t) w = Inr (x, w') \<and> ?I (Suc t) w'"
      using t' by (auto simp: rep U' C(2) C(5) [OF t'])
  qed
  from total_each [of "[0..<PPTR_INODE_ENTRIES]" ?I "cpoint_slot a", OF this]
  have "ends (?I 0) (eachM (cpoint_slot a) [0..<PPTR_INODE_ENTRIES]) (\<lambda>_. ?I PPTR_INODE_ENTRIES)" by simp
  moreover have "c(a := PInode (committed_to 0 n)) = c" "freed_to 0 n = {}" using p C(1) by (auto simp: pptr_list_def freed_to_def)
  then have "?I 0 w" using m by auto
  ultimately show ?thesis by (auto dest: ends_unit)
qed

lemma committed_to_list:
  assumes p: "pptr_list U c pr a n"
  defines "n' \<equiv> committed_to PPTR_INODE_ENTRIES n" and "V \<equiv> U - freed_to PPTR_INODE_ENTRIES n"
  shows "pptr_list V (c(a := PInode n')) pr a n'" "map l_maddr (pin_snapshot n') = map l_maddr (pin_current n)"
    "current_pointers (c(a := PInode n')) n' = current_pointers c n" "committed_pointers (c(a := PInode n')) n' = current_pointers c n"
proof -
  note E = pptr_listD [OF p] and U = pptr_links [OF p] and C = committed_to_nth(2-4) [OF pptr_listD(5,6) [OF p], where t = PPTR_INODE_ENTRIES, folded n'_def]
  let ?c = "c(a := PInode n')"
  have sn: "pin_snapshot n' ! j = (if l_maddr (pin_current n ! j) \<noteq> 0 then pin_current n ! j else pin_snapshot n ! j)"
    if "j < PPTR_INODE_ENTRIES" for j using C(3) [OF that] that by simp
  have z: "l_maddr (pin_snapshot n ! j) = 0" if "j < PPTR_INODE_ENTRIES" "l_maddr (pin_current n ! j) = 0" for j
    using E(7) [OF that(1)] that(2) by (simp add: slot_ok_def)
  then have eq: "l_maddr (pin_snapshot n' ! j) = l_maddr (pin_current n ! j)" if "j < PPTR_INODE_ENTRIES" for j
    using sn [OF that] that by auto
  show maddrs: "map l_maddr (pin_snapshot n') = map l_maddr (pin_current n)"
    by (rule nth_equalityI) (use C(2) E(5) eq in simp_all)
  have keep: "l_maddr (pin_current n ! j) \<in> V - {a}" if j: "j < PPTR_INODE_ENTRIES" "l_maddr (pin_current n ! j) \<noteq> 0" for j
  proof -
    have "l_maddr (pin_current n ! j) \<noteq> l_maddr (pin_snapshot n ! i)" if "i < PPTR_INODE_ENTRIES" "replaced n i" for i
      using E(10) [OF j(1) that(1)] that(2) j(2) by (cases "i = j") (auto simp: replaced_def)
    then show ?thesis using U(1) [OF j] by (auto simp: V_def freed_to_def)
  qed
  have "l_maddr (pin_snapshot n ! j) \<noteq> a" if "j < PPTR_INODE_ENTRIES" "replaced n j" for j
    using U(2) [OF that(1)] that(2) by (auto simp: replaced_def)
  then have a: "a \<in> V" using E(1) by (auto simp: V_def freed_to_def)
  have slots: "slot_ok V ?c pr a (pin_current n ! j) (pin_snapshot n' ! j)" if "j < PPTR_INODE_ENTRIES" for j
    using E(7) [OF that] keep [OF that] sn [OF that] z [OF that] by (cases "l_maddr (pin_current n ! j) = 0") (auto simp: slot_ok_def)
  have full: "full_slot ?c (pin_current n ! j)" if "j < pin_current_idx n" for j
    using E(8) [OF that] keep [of j] that E(4) by (auto simp: full_slot_def)
  have idx: "pin_current_idx n' = pin_current_idx n" by (simp add: n'_def committed_to_def)
  show list: "pptr_list V ?c pr a n'"
    unfolding pptr_list_def C(1) idx
    using E(2,4,5,9,10) C(2) a slots full eq by auto
  have same: "?c x = c x" if "x \<in> V - {a}" for x using that by auto
  show cur: "current_pointers ?c n' = current_pointers c n"
    unfolding current_pointers_def C(1) by (rule pointers_frame(1) [where S = "V - {a}", OF _ same]) (use keep E(5) in auto)
  show "committed_pointers ?c n' = current_pointers c n"
    using pointers_same_maddr [OF maddrs, of ?c] cur unfolding committed_pointers_def current_pointers_def C(1) by (rule trans)
qed

lemma one_inode_loop:
  assumes "body a w = Inr ((), w1)" "rd_inode a w1 = Inr (n, w1)" "l_maddr (pin_next n) = 0" "a \<noteq> 0"
  shows "loopM (inode_loop body a) w = Inr ((), w1)"
proof -
  have "inode_loop body 0 w1 = Some (Inr ((), w1))" by (subst inode_loop.simps) simp
  moreover have "inode_loop body a w = inode_loop body (l_maddr (pin_next n)) w1"
    using assms(1,2,4) by (subst inode_loop.simps) (simp add: bindM_step)
  ultimately show ?thesis using assms(3) by (simp add: loopM_def)
qed

lemma pptr_cpoint_commits:
  assumes "mem U c pr k r w" "pptr_list U c pr a n" "l_maddr (pin_next n) = 0" "l_maddr (ph_first head) = a"
  shows "\<exists>w' U' c' k' n'. pptr_cpoint head w = Inr ((), w') \<and> mem U' c' pr k' r w' \<and> pptr_list U' c' pr a n' \<and>
    committed_pointers c' n' = current_pointers c n \<and> current_pointers c' n' = current_pointers c n \<and>
    map l_maddr (pin_snapshot n') = map l_maddr (pin_current n')"
proof -
  let ?n = "committed_to PPTR_INODE_ENTRIES n"
  from cpoint_slots [OF assms(1,2)] obtain w' k' where
    w': "eachM (cpoint_slot a) [0..<PPTR_INODE_ENTRIES] w = Inr ((), w')"
      "mem (U - freed_to PPTR_INODE_ENTRIES n) (c(a := PInode ?n)) pr k' r w'" by blast
  note l = committed_to_list [OF assms(2)]
  have "rd_inode a w' = Inr (?n, w')" by (rule rd_node_at(1) [OF w'(2) pptr_listD(1,3) [OF l(1)]])
  moreover have "0 < a" using mem_page(2) [OF assms(1) pptr_listD(1) [OF assms(2)]] .
  ultimately have "pptr_cpoint head w = Inr ((), w')"
    unfolding pptr_cpoint_def assms(4)
    using one_inode_loop [of "\<lambda>a. eachM (cpoint_slot a) [0..<PPTR_INODE_ENTRIES]", OF w'(1)] by (simp add: committed_to_def assms(3))
  moreover have "pin_current ?n = pin_current n" by (simp add: committed_to_def)
  ultimately show ?thesis using w'(2) l
    by - (rule exI [of _ w'], rule exI [of _ "U - freed_to PPTR_INODE_ENTRIES n"], rule exI [of _ "c(a := PInode ?n)"], rule exI [of _ k'],
      rule exI [of _ ?n], simp del: fun_upd_apply)
qed

section \<open>Restore\<close>

lemma up_inode_pa:
  assumes m: "memz z U c pr k r w" and a: "a \<in> U" "writable (pr a)" "as_inode (c a) = Some n"
  shows "\<exists>w'. up_inode a f w = Inr ((), w') \<and> memz z U (c(a := PInode (f n))) pr k r w' \<and> w_pa w' = w_pa w"
proof -
  note b = mem_page(1) [OF m a(1)]
  have "touch a w = Inr ((), w)" by (rule stores_ok [of touch, OF stores_touch m]) (use a b in simp_all)
  moreover have "poke a (PInode (f n)) w = Inr ((), put a (PInode (f n)) w) \<and> memz z U (c(page_base a := PInode (f n))) pr k r (put a (PInode (f n)) w)"
    by (rule poke_ok [OF m]) (use a(1) b in simp)
  ultimately show ?thesis
    using rd_node_at(1) [OF m a(1,3)] b by (auto simp: up_inode_def thenM_step bindM_step put_def)
qed

text \<open>The slots before \<^verbatim>\<open>t\<close> have been mapped: the snapshot has the address of the current page.\<close>

definition mapped_to :: "nat \<Rightarrow> pptr_inode \<Rightarrow> pptr_inode" where
  "mapped_to t n = n\<lparr>pin_snapshot := map (\<lambda>j. if j < t \<and> l_laddr (pin_current n ! j) \<noteq> 0
     then (pin_snapshot n ! j)\<lparr>l_maddr := l_maddr (pin_current n ! j)\<rparr> else pin_snapshot n ! j) [0..<PPTR_INODE_ENTRIES]\<rparr>"

lemma mapped_to_nth:
  assumes "length (pin_current n) = PPTR_INODE_ENTRIES" "length (pin_snapshot n) = PPTR_INODE_ENTRIES"
  shows "mapped_to 0 n = n" "pin_current (mapped_to t n) = pin_current n" "length (pin_snapshot (mapped_to t n)) = PPTR_INODE_ENTRIES"
    "t < PPTR_INODE_ENTRIES \<Longrightarrow> pin_snapshot (mapped_to t n) ! t = pin_snapshot n ! t"
    "t < PPTR_INODE_ENTRIES \<Longrightarrow> mapped_to (Suc t) n = (if l_laddr (pin_current n ! t) = 0 then mapped_to t n
       else snapshot_link t (\<lambda>l. l\<lparr>l_maddr := l_maddr (pin_current n ! t)\<rparr>) (mapped_to t n))"
proof -
  have "map (\<lambda>j. pin_snapshot n ! j) [0..<PPTR_INODE_ENTRIES] = pin_snapshot n" using assms(2) map_nth [of "pin_snapshot n"] by simp
  then show "mapped_to 0 n = n" by (simp add: mapped_to_def)
  show "pin_current (mapped_to t n) = pin_current n" "length (pin_snapshot (mapped_to t n)) = PPTR_INODE_ENTRIES"
    by (simp_all add: mapped_to_def)
  show "t < PPTR_INODE_ENTRIES \<Longrightarrow> pin_snapshot (mapped_to t n) ! t = pin_snapshot n ! t" by (simp add: mapped_to_def)
  show "mapped_to (Suc t) n = (if l_laddr (pin_current n ! t) = 0 then mapped_to t n
       else snapshot_link t (\<lambda>l. l\<lparr>l_maddr := l_maddr (pin_current n ! t)\<rparr>) (mapped_to t n))" if "t < PPTR_INODE_ENTRIES"
    using that by (auto simp: mapped_to_def snapshot_link_def less_Suc_eq nth_list_update intro!: nth_equalityI arg_cong [of _ _ "\<lambda>x. n\<lparr>pin_snapshot := x\<rparr>"])
qed

lemma map_slot_run:
  assumes m: "mem U c pr k r w" and a: "a \<in> U" "writable (pr a)" "c a = PInode n"
    and l: "i < length (pin_current n)" "length (pin_snapshot n) = length (pin_current n)"
    and M: "l_laddr (pin_current n ! i) \<noteq> 0 \<Longrightarrow> page_allocator_mappage (w_pa w) (l_laddr (pin_current n ! i)) = l_maddr (pin_current n ! i)"
  shows "\<exists>w'. map_slot CPOINT_COMPLETE a i w = Inr ((), w') \<and> w_pa w' = w_pa w \<and>
    mem U (c(a := PInode (if l_laddr (pin_current n ! i) = 0 then n else snapshot_link i (\<lambda>l. l\<lparr>l_maddr := l_maddr (pin_current n ! i)\<rparr>) n))) pr k r w'"
proof -
  let ?c = "pin_current n ! i"
  have ia: "as_inode (c a) = Some n" using a(3) by simp
  have rd: "rd_inode a w = Inr (n, w)" by (rule rd_node_at(1) [OF m a(1) ia])
  have cells: "cellM (pin_current n) i = retM ?c" "cellM (pin_snapshot n) i = retM (pin_snapshot n ! i)" using l by (simp_all add: cellM_def)
  show ?thesis
  proof (cases "l_laddr ?c = 0")
    case True
    moreover have "c(a := PInode n) = c" using a(3) by auto
    ultimately show ?thesis using m rd by (simp add: map_slot_def bindM_step cells retM_def)
  next
    case False
    note M' = M [OF False]
    have n: "current_link i (\<lambda>l. l\<lparr>l_maddr := l_maddr ?c\<rparr>) n = n" by (simp add: current_link_def)
    obtain w1 where w1: "up_inode a (current_link i (\<lambda>l. l\<lparr>l_maddr := l_maddr ?c\<rparr>)) w = Inr ((), w1)" "mem U (c(a := PInode n)) pr k r w1" "w_pa w1 = w_pa w"
      using up_inode_pa [OF m a(1,2) ia, of "current_link i (\<lambda>l. l\<lparr>l_maddr := l_maddr ?c\<rparr>)"] unfolding n by blast
    have i1: "as_inode ((c(a := PInode n)) a) = Some n" by simp
    obtain w2 where w2: "up_inode a (\<lambda>n. snapshot_link i (\<lambda>l. l\<lparr>l_maddr := l_maddr (pin_current n ! i)\<rparr>) n) w1 = Inr ((), w2)"
      "mem U (c(a := PInode n, a := PInode (snapshot_link i (\<lambda>l. l\<lparr>l_maddr := l_maddr ?c\<rparr>) n))) pr k r w2" "w_pa w2 = w_pa w"
      using up_inode_pa [OF w1(2) a(1,2) i1, of "\<lambda>n. snapshot_link i (\<lambda>l. l\<lparr>l_maddr := l_maddr (pin_current n ! i)\<rparr>) n"] unfolding w1(3) by blast
    have mp: "mappage (l_laddr ?c) w = Inr (l_maddr ?c, w)" using M' by (simp add: mappage_def getM_def)
    have "map_slot CPOINT_COMPLETE a i w = Inr ((), w2)"
      using rd mp w1(1) w2(1) False by (simp add: map_slot_def bindM_step cells thenM_step retM_def)
    then show ?thesis using w2(2,3) False by simp
  qed
qed

lemma map_slots:
  assumes m: "mem U c pr k r w" and p: "pptr_list U c pr a n"
    and M: "\<And>j. j < PPTR_INODE_ENTRIES \<Longrightarrow> l_laddr (pin_current n ! j) \<noteq> 0 \<Longrightarrow>
      page_allocator_mappage (w_pa w) (l_laddr (pin_current n ! j)) = l_maddr (pin_current n ! j)"
  shows "\<exists>w'. eachM (map_slot CPOINT_COMPLETE a) [0..<PPTR_INODE_ENTRIES] w = Inr ((), w') \<and>
    mem U (c(a := PInode (mapped_to PPTR_INODE_ENTRIES n))) pr k r w'"
proof -
  note E = pptr_listD [OF p] and C = mapped_to_nth [OF pptr_listD(5,6) [OF p]]
  let ?I = "\<lambda>t v. mem U (c(a := PInode (mapped_to t n))) pr k r v \<and> w_pa v = w_pa w"
  have "ends (?I t) (map_slot CPOINT_COMPLETE a ([0..<PPTR_INODE_ENTRIES] ! t)) (\<lambda>_. ?I (Suc t))" if t: "t < length [0..<PPTR_INODE_ENTRIES]" for t
    unfolding ends_def
  proof (intro allI impI)
    fix v
    assume I: "?I t v"
    have t': "t < PPTR_INODE_ENTRIES" using t by simp
    have l: "t < length (pin_current (mapped_to t n))" "length (pin_snapshot (mapped_to t n)) = length (pin_current (mapped_to t n))"
      using t' C(2,3) E(5) by simp_all
    have M': "l_laddr (pin_current (mapped_to t n) ! t) \<noteq> 0 \<Longrightarrow>
        page_allocator_mappage (w_pa v) (l_laddr (pin_current (mapped_to t n) ! t)) = l_maddr (pin_current (mapped_to t n) ! t)"
      using M [OF t'] I by (simp add: C(2))
    from map_slot_run [OF conjunct1 [OF I] E(1,2) _ l M']
    show "\<exists>x w'. map_slot CPOINT_COMPLETE a ([0..<PPTR_INODE_ENTRIES] ! t) v = Inr (x, w') \<and> ?I (Suc t) w'"
      using t' I by (auto simp: C(2) C(5) [OF t'])
  qed
  from total_each [of "[0..<PPTR_INODE_ENTRIES]" ?I "map_slot CPOINT_COMPLETE a", OF this]
  have "ends (?I 0) (eachM (map_slot CPOINT_COMPLETE a) [0..<PPTR_INODE_ENTRIES]) (\<lambda>_. ?I PPTR_INODE_ENTRIES)" by simp
  moreover have "c(a := PInode (mapped_to 0 n)) = c" using p C(1) by (auto simp: pptr_list_def)
  then have "?I 0 w" using m by auto
  ultimately show ?thesis by (auto dest: ends_unit)
qed

text \<open>
  C18: Pointers of an unfinished transaction survive a restore.  After a complete checkpoint and
  further appends, the restore of a list with one inode, whose pages are mapped where they were, takes
  the current data nodes for both versions: what it has as committed then is the current list, with the
  pointers appended since the checkpoint, and the page numbers of the snapshots are still the old ones.
\<close>

theorem restore_keeps_uncommitted_pointers:
  assumes "mem U c pr k r w" "pptr_list U c pr a n" "l_laddr (pin_next n) = 0" "l_maddr (pin_next n) = 0"
    and "page_allocator_mappage (w_pa w) (l_laddr (ph_first head)) = a"
    and "\<And>j. j < PPTR_INODE_ENTRIES \<Longrightarrow> l_laddr (pin_current n ! j) = 0 \<longleftrightarrow> l_maddr (pin_current n ! j) = 0"
    and "\<And>j. j < PPTR_INODE_ENTRIES \<Longrightarrow> l_laddr (pin_current n ! j) \<noteq> 0 \<Longrightarrow>
      page_allocator_mappage (w_pa w) (l_laddr (pin_current n ! j)) = l_maddr (pin_current n ! j)"
  shows "\<exists>w' c' n'. pptr_map head CPOINT_COMPLETE w = Inr (head\<lparr>ph_first := (ph_first head)\<lparr>l_maddr := a\<rparr>, ph_last := a\<rparr>, w') \<and>
    mem U c' pr k r w' \<and> c' a = PInode n' \<and> committed_pointers c' n' = current_pointers c n \<and>
    current_pointers c' n' = current_pointers c n \<and> map l_laddr (pin_snapshot n') = map l_laddr (pin_snapshot n)"
proof -
  note p = assms(2) and E = pptr_listD [OF assms(2)] and U = pptr_links [OF assms(2)]
  let ?n = "mapped_to PPTR_INODE_ENTRIES n" let ?c = "c(a := PInode ?n)"
  obtain w' where w': "eachM (map_slot CPOINT_COMPLETE a) [0..<PPTR_INODE_ENTRIES] w = Inr ((), w')" "mem U ?c pr k r w'"
    using map_slots [OF assms(1,2,7)] by blast
  have rd: "rd_inode a w = Inr (n, w)" by (rule rd_node_at(1) [OF assms(1) E(1,3)])
  then have chain: "map_chain a w = Some (Inr (a, w))" by (subst map_chain.simps) (simp add: assms(3))
  have "0 < a" using mem_page(2) [OF assms(1) E(1)] .
  moreover have "rd_inode a w' = Inr (?n, w')" by (rule rd_node_at(1) [OF w'(2) E(1)]) simp
  ultimately have loop: "loopM (inode_loop (\<lambda>inode. eachM (map_slot CPOINT_COMPLETE inode) [0..<PPTR_INODE_ENTRIES]) a) w = Inr ((), w')"
    using one_inode_loop [of "\<lambda>a. eachM (map_slot CPOINT_COMPLETE a) [0..<PPTR_INODE_ENTRIES]", OF w'(1)] by (simp add: mapped_to_def assms(4))
  have mp: "mappage (l_laddr (ph_first head)) w = Inr (a, w)" using assms(5) by (simp add: mappage_def getM_def)
  have run: "pptr_map head CPOINT_COMPLETE w = Inr (head\<lparr>ph_first := (ph_first head)\<lparr>l_maddr := a\<rparr>, ph_last := a\<rparr>, w')"
    unfolding pptr_map_def bindM_step [of "mappage _", OF mp]
    using chain loop by (simp add: bindM_def thenM_def ifM_def retM_def Let_def)
  have maddrs: "map l_maddr (pin_snapshot ?n) = map l_maddr (pin_current n)"
  proof (rule nth_equalityI)
    fix j assume "j < length (map l_maddr (pin_snapshot ?n))"
    then have j: "j < PPTR_INODE_ENTRIES" by (simp add: mapped_to_def)
    have "l_maddr (pin_current n ! j) = 0 \<Longrightarrow> l_maddr (pin_snapshot n ! j) = 0" using E(7) [OF j] by (simp add: slot_ok_def)
    then show "map l_maddr (pin_snapshot ?n) ! j = map l_maddr (pin_current n) ! j"
      using assms(6) [OF j] j E(5) by (simp add: mapped_to_def)
  qed (simp add: mapped_to_def E(5))
  have laddrs: "map l_laddr (pin_snapshot ?n) = map l_laddr (pin_snapshot n)"
    by (rule nth_equalityI) (simp_all add: mapped_to_def E(6))
  have same: "?c x = c x" if "x \<in> U - {a}" for x using that by auto
  have cn: "pin_current ?n = pin_current n" by (simp add: mapped_to_def)
  have cur: "current_pointers ?c ?n = current_pointers c n"
    unfolding current_pointers_def cn by (rule pointers_frame(1) [where S = "U - {a}", OF _ same]) (use U(1) E(5) in auto)
  have com: "committed_pointers ?c ?n = current_pointers c n"
    using pointers_same_maddr [OF maddrs, of ?c] cur unfolding committed_pointers_def current_pointers_def cn by (rule trans)
  show ?thesis
    by (rule exI [of _ w'], rule exI [of _ ?c], rule exI [of _ ?n]) (use run w'(2) cur com laddrs in \<open>simp del: fun_upd_apply add: fun_upd_same\<close>)
qed

section \<open>Examples\<close>





text \<open>An inode with one data node, that has two pointers and whose committed version has one.\<close>

definition listed_inode :: pptr_inode where
  "listed_inode = zero_inode\<lparr>pin_current := (pin_current zero_inode)[0 := demo_link 2], pin_snapshot := (pin_snapshot zero_inode)[0 := demo_link 4]\<rparr>"

definition listed_contents :: "nat \<Rightarrow> page" where
  "listed_contents = (\<lambda>_. PZero)(1 := PInode listed_inode, 2 := PDnode (zero_dnode\<lparr>pdn_index := 2\<rparr>), 4 := PDnode (zero_dnode\<lparr>pdn_index := 1\<rparr>))"

definition listed_world :: world where "listed_world = demo_world\<lparr>w_os := demo_os\<lparr>os_pages := listed_contents\<rparr>\<rparr>"
definition listed_c :: "nat \<Rightarrow> page" where "listed_c a = the (page_at (w_os listed_world) a)"

lemma listed_mem: "mem demo_used listed_c demo_pr (Suc 0) (rest listed_world) listed_world"
  unfolding listed_c_def [abs_def] by (rule shown_mem) (simp_all add: listed_world_def demo_world_def)

lemma listed_at: "i < 8 \<Longrightarrow> listed_c (demo_page i) = listed_contents i"
  unfolding listed_c_def by (rule shown_at) (simp_all add: listed_world_def)

lemma listed_links:
  "j < PPTR_INODE_ENTRIES \<Longrightarrow> pin_current listed_inode ! j = (if j = 0 then demo_link 2 else zero_link)"
  "j < PPTR_INODE_ENTRIES \<Longrightarrow> pin_snapshot listed_inode ! j = (if j = 0 then demo_link 4 else zero_link)"
  "pin_next listed_inode = zero_link"
  by (auto simp: listed_inode_def zero_inode_def)

lemma listed_list: "pptr_list demo_used listed_c demo_pr (demo_page 1) listed_inode"
proof -
  have l: "length (pin_current listed_inode) = PPTR_INODE_ENTRIES" "length (pin_snapshot listed_inode) = PPTR_INODE_ENTRIES"
    "pin_current_idx listed_inode = 0" "0 < PPTR_INODE_ENTRIES" "2 \<le> PPTR_DNODE_ENTRIES"
    by (simp_all add: listed_inode_def zero_inode_def PPTR_INODE_ENTRIES_def PPTR_DNODE_ENTRIES_def PPTR_SIZE_def PAGE_SIZE_def)
  have c: "listed_c (demo_page 1) = PInode listed_inode" "listed_c (demo_page 2) = PDnode (zero_dnode\<lparr>pdn_index := 2\<rparr>)"
    by (simp_all add: listed_at listed_contents_def)
  have w: "writable (demo_pr (demo_page 1))" "writable (demo_pr (demo_page 2))"
    unfolding demo_views(2) by (simp_all add: writable_def PA_PROT_WRITE_def)
  have link: "l_maddr (demo_link i) = demo_page i" "l_maddr zero_link = 0" "l_laddr zero_link = 0" "demo_page i \<noteq> 0" for i
    by (simp_all add: demo_link_def zero_link_def demo_page_def)
  show ?thesis
    unfolding pptr_list_def using l c w
    by (auto simp: listed_links slot_ok_def link zero_dnode_def)
qed

lemma listed_pointers:
  "current_pointers listed_c listed_inode = [zero_pptr, zero_pptr]" "committed_pointers listed_c listed_inode = [zero_pptr]"
proof -
  have N: "PPTR_INODE_ENTRIES = Suc 126" "PPTR_DNODE_ENTRIES = 255"
    by (simp_all add: PPTR_INODE_ENTRIES_def PPTR_DNODE_ENTRIES_def PPTR_SIZE_def PAGE_SIZE_def)
  have l: "pin_current listed_inode = demo_link 2 # replicate 126 zero_link" "pin_snapshot listed_inode = demo_link 4 # replicate 126 zero_link"
    by (simp_all only: listed_inode_def zero_inode_def N replicate_Suc list_update_code pptr_inode.simps)
  have "pointers c (x # replicate m zero_link) = (if l_maddr x = 0 then [] else pointers_in (c (l_maddr x)))" for c x m
    by (simp add: pointers_def zero_link_def)
  moreover have "take 1 (replicate 255 y) = [y]" "take 2 (replicate 255 y) = [y, y]" for y :: pptr
    by (simp_all add: take_replicate numeral_2_eq_2)
  moreover have nz: "demo_page i \<noteq> 0" for i by (simp add: demo_page_def)
  ultimately show "current_pointers listed_c listed_inode = [zero_pptr, zero_pptr]" "committed_pointers listed_c listed_inode = [zero_pptr]"
    using nz by (simp_all add: current_pointers_def committed_pointers_def l demo_link_def listed_at listed_contents_def pointers_in_def zero_dnode_def N(2))
qed

theorem restore_keeps_uncommitted_pointers_witness:
  "committed_pointers listed_c listed_inode = [zero_pptr] \<and>
   (\<exists>head w' c' n'. pptr_map \<lparr>ph_first = \<lparr>l_maddr = 0, l_laddr = 4096\<rparr>, ph_last = 0\<rparr> CPOINT_COMPLETE listed_world = Inr (head, w') \<and>
      c' (demo_page 1) = PInode n' \<and> committed_pointers c' n' = [zero_pptr, zero_pptr])"
proof -
  let ?h = "\<lparr>ph_first = \<lparr>l_maddr = 0, l_laddr = 4096\<rparr>, ph_last = 0\<rparr>"
  have M: "page_allocator_mappage (w_pa listed_world) (i * 4096) = demo_page i" for i
    by (simp add: page_allocator_mappage_def listed_world_def demo_world_def fixed_mapper_getaddress_def demo_mapper_def demo_page_def)
  have first: "page_allocator_mappage (w_pa listed_world) (l_laddr (ph_first ?h)) = demo_page 1" using M [of 1] by simp
  have next0: "l_laddr (pin_next listed_inode) = 0" "l_maddr (pin_next listed_inode) = 0" by (simp_all add: listed_links zero_link_def)
  have z: "l_laddr (pin_current listed_inode ! j) = 0 \<longleftrightarrow> l_maddr (pin_current listed_inode ! j) = 0"
    and m: "l_laddr (pin_current listed_inode ! j) \<noteq> 0 \<Longrightarrow>
      page_allocator_mappage (w_pa listed_world) (l_laddr (pin_current listed_inode ! j)) = l_maddr (pin_current listed_inode ! j)"
    if "j < PPTR_INODE_ENTRIES" for j
    using M [of 2] that by (auto simp: listed_links demo_link_def zero_link_def demo_page_def)
  from restore_keeps_uncommitted_pointers [OF listed_mem listed_list next0 first z m]
  show ?thesis unfolding listed_pointers by blast
qed

end
