(* ===== verification/Debug.thy ===== *)
theory Debug
  imports Fixptr
begin

text \<open>
  The debug output of \<^verbatim>\<open>src/src/debug.c\<close> and of the end of \<^verbatim>\<open>src/src/fixptr.c\<close>.  A function that prints is
  an operation whose result is the text; \<^verbatim>\<open>pp\<close> is the text of an address, which the conversion \<^verbatim>\<open>%p\<close>
  leaves to the implementation.  The lemmas show that printing does not change the process, what the
  counts in the output are, and that the print of the directory shows the current outer nodes twice.
\<close>

section \<open>Texts\<close>

text \<open>The conversion \<^verbatim>\<open>%*s\<close> of the empty string: spaces.\<close>

definition pad :: "nat \<Rightarrow> string" where "pad level = replicate level CHR '' ''"

fun gatherM :: "('a \<Rightarrow> string M) \<Rightarrow> 'a list \<Rightarrow> string M" where
  "gatherM f [] = retM []"
| "gatherM f (x # xs) = bindM (f x) (\<lambda>s. bindM (gatherM f xs) (\<lambda>t. retM (s @ t)))"

section \<open>The indexes\<close>

definition container_sd :: "nat M" where
  "container_sd = bindM the_container (\<lambda>c. bindM (rd_cont c) (\<lambda>k. retM (l_maddr (c_current_slab k))))"

definition print_splay_tree :: "(nat \<Rightarrow> string) \<Rightarrow> string M" where
  "print_splay_tree pp =
     bindM container_sd (\<lambda>sd. bindM (rd_dir sd) (\<lambda>d. \<lambda>w.
     case RB_FOREACH (\<lambda>se r. bindR r (\<lambda>(s, w). bindM (rd_se se) (\<lambda>e.
            retM (s @ ''tree's slab_entrys [maddr: '' @ pp (d_maddr (se_cur e)) @ '']'' @ newline)) w))
          (sd_maddr_root d) (Inr ([], w)) of
       None \<Rightarrow> Inl Diverges | Some r \<Rightarrow> r))"

definition entry_line :: "(nat \<Rightarrow> string) \<Rightarrow> nat \<Rightarrow> string M" where
  "entry_line pp se =
     bindM (rd_se se) (\<lambda>e. retM (if SLAB_ENTRY_IS_INIT e
       then ''all slab_entrys [maddr: '' @ pp (d_maddr (se_cur e)) @ '']'' @ newline else []))"

definition slab_entry_print :: "(nat \<Rightarrow> string) \<Rightarrow> string M" where
  "slab_entry_print pp =
     bindM container_sd (\<lambda>sd. bindM (rd_dir sd) (\<lambda>d.
     gatherM (\<lambda>i. bindM (cellM (sd_current d) i) (\<lambda>so. bindM (rd_outer (l_maddr so)) (\<lambda>o'.
     gatherM (\<lambda>j. bindM (cellM (node_current o') j) (\<lambda>si. bindM (rd_inner (l_maddr si)) (\<lambda>n.
     gatherM (\<lambda>k. bindM (cellM (node_current n) k) (\<lambda>sb.
     gatherM (\<lambda>l. entry_line pp (se_addr (l_maddr sb) l)) [0..<SLAB_BUCKET_ENTRIES]))
     [0..<node_index n]))) [0..<node_index o']))) [0..<sd_index d]))"

section \<open>The structures\<close>

definition slab_ptr_pprint :: "nat \<Rightarrow> nat \<Rightarrow> nat \<Rightarrow> string M" where
  "slab_ptr_pprint sp sp_idx level =
     gatherM (\<lambda>i. bindM (rd_ptrs sp) (\<lambda>ps. bindM (cellM ps i) (\<lambda>p.
       retM (pad (level + 2) @ ''sp [ploc_offset: '' @ decimal (unat (ploc_offset p)) @ '', pval_seid: '' @
         decimal (unat (pval_seid p)) @ '', pval_offset: '' @ decimal (unat (pval_offset p)) @ '']'' @ newline))))
     [0..<sp_idx]"

definition bitmap_set_count :: "bitstr \<Rightarrow> nat \<Rightarrow> nat" where
  "bitmap_set_count bm n = fold (\<lambda>i count. count + (if bit_test bm i \<noteq> 0 then 1 else 0)) [0..<n] 0"

definition SLAB_ENTRY_SBITMAP :: "slab_entry \<Rightarrow> bitstr M" where
  "SLAB_ENTRY_SBITMAP e =
     (if se_size e \<ge> SLAB_LARGE_ALLOC then retM (\<lambda>i. if i = 0 then d_bitmap (se_snap e) else 0)
      else rd_data (d_maddr (se_snap e)))"

definition data_line :: "(nat \<Rightarrow> string) \<Rightarrow> string \<Rightarrow> nat \<Rightarrow> slab_data \<Rightarrow> bitstr \<Rightarrow> nat \<Rightarrow> string" where
  "data_line pp label level d bm cap =
     pad (level + 2) @ label @ '' [maddr: '' @ pp (d_maddr d) @ '', laddr: '' @ decimal (d_laddr d) @ '' bm: '' @
     decimal (bitmap_set_count bm cap) @ '' ('' @ decimal cap @ '')]'' @ newline"

definition ptr_line :: "(nat \<Rightarrow> string) \<Rightarrow> string \<Rightarrow> nat \<Rightarrow> slab_pref \<Rightarrow> string M" where
  "ptr_line pp label level p =
     bindM (slab_ptr_pprint (p_maddr p) (unat (p_idx p)) (level + 2)) (\<lambda>t.
     retM (pad (level + 2) @ label @ '' [idx: '' @ decimal (unat (p_idx p)) @ '', maddr: '' @ pp (p_maddr p) @ '', laddr: '' @
       decimal (p_laddr p) @ '']'' @ newline @ t))"

definition slab_entry_pprint :: "(nat \<Rightarrow> string) \<Rightarrow> nat \<Rightarrow> nat \<Rightarrow> string M" where
  "slab_entry_pprint pp se level =
     bindM (rd_se se) (\<lambda>e.
     bindM (liftM (SLAB_ENTRY_CAPACITY e)) (\<lambda>cap.
     bindM (SLAB_ENTRY_CBITMAP e) (\<lambda>cb.
     bindM (SLAB_ENTRY_SBITMAP e) (\<lambda>sb.
     bindM (ptr_line pp ''ptr_c'' level (ptr_cur e)) (\<lambda>c.
     bindM (ptr_line pp ''ptr_s'' level (ptr_snap e)) (\<lambda>s.
     retM (pad level @ ''se ('' @ pp se @ '') [id: '' @ decimal (se_id e) @ '', size: '' @ decimal (se_size e) @ '']'' @ newline @
       data_line pp ''data_c'' level (se_cur e) cb cap @ data_line pp ''data_s'' level (se_snap e) sb cap @ c @ s)))))))"

definition slab_bucket_pprint :: "(nat \<Rightarrow> string) \<Rightarrow> nat \<Rightarrow> nat \<Rightarrow> string M" where
  "slab_bucket_pprint pp sb level =
     bindM (rd_bucket sb) (\<lambda>b.
     bindM (gatherM (\<lambda>i. bindM (cellM (sb_entries b) i) (\<lambda>e.
         if se_size e \<noteq> 0 then slab_entry_pprint pp (se_addr sb i) (level + 2) else retM []))
       [0..<SLAB_BUCKET_ENTRIES]) (\<lambda>t.
     retM (pad level @ ''sb ('' @ pp sb @ '') [id: '' @ decimal (sb_id b) @ '', capacity: '' @ decimal SLAB_BUCKET_ENTRIES @ '']'' @ newline @ t)))"

text \<open>The two versions of the child of a node: the snapshot is printed when it is another page.\<close>

definition both_versions :: "(nat \<Rightarrow> string M) \<Rightarrow> plink list \<Rightarrow> plink list \<Rightarrow> nat \<Rightarrow> string M" where
  "both_versions pprint current snapshot i =
     bindM (cellM current i) (\<lambda>c. bindM (cellM snapshot i) (\<lambda>s.
     bindM (pprint (l_maddr c)) (\<lambda>t.
     if l_maddr c \<noteq> l_maddr s then bindM (pprint (l_maddr s)) (\<lambda>u. retM (t @ u)) else retM t)))"

definition slab_inner_pprint :: "(nat \<Rightarrow> string) \<Rightarrow> nat \<Rightarrow> nat \<Rightarrow> string M" where
  "slab_inner_pprint pp si level =
     bindM (rd_inner si) (\<lambda>n.
     bindM (gatherM (both_versions (\<lambda>sb. slab_bucket_pprint pp sb (level + 2)) (node_current n) (node_snapshot n)) [0..<node_index n]) (\<lambda>t.
     retM (pad level @ ''si ('' @ pp si @ '') [index: '' @ decimal (node_index n) @ '', capacity: '' @ decimal SLAB_INNER_ENTRIES @ '']'' @ newline @ t)))"

definition slab_outer_pprint :: "(nat \<Rightarrow> string) \<Rightarrow> nat \<Rightarrow> nat \<Rightarrow> string M" where
  "slab_outer_pprint pp so level =
     bindM (rd_outer so) (\<lambda>n.
     bindM (gatherM (both_versions (\<lambda>si. slab_inner_pprint pp si (level + 2)) (node_current n) (node_snapshot n)) [0..<node_index n]) (\<lambda>t.
     retM (pad level @ ''so ('' @ pp so @ '') [index: '' @ decimal (node_index n) @ '', capacity: '' @ decimal SLAB_OUTER_ENTRIES @ '']'' @ newline @ t)))"

text \<open>The directory: where the versions of an outer node differ, the current one is printed again.\<close>

definition dir_child :: "(nat \<Rightarrow> string M) \<Rightarrow> slab_dir \<Rightarrow> nat \<Rightarrow> string M" where
  "dir_child pprint d i =
     bindM (cellM (sd_current d) i) (\<lambda>c. bindM (cellM (sd_snapshot d) i) (\<lambda>s.
     bindM (pprint (l_maddr c)) (\<lambda>t.
     if l_maddr c \<noteq> l_maddr s then bindM (pprint (l_maddr c)) (\<lambda>u. retM (t @ u)) else retM t)))"

definition slab_dir_pprint :: "(nat \<Rightarrow> string) \<Rightarrow> nat \<Rightarrow> nat \<Rightarrow> string M" where
  "slab_dir_pprint pp sd level =
     bindM (rd_dir sd) (\<lambda>d.
     bindM (gatherM (dir_child (\<lambda>so. slab_outer_pprint pp so (level + 2)) d) [0..<sd_index d]) (\<lambda>t.
     retM (pad level @ ''sd ('' @ pp sd @ '') [index: '' @ decimal (sd_index d) @ '']'' @ newline @ t)))"

definition container_pprint :: "(nat \<Rightarrow> string) \<Rightarrow> string M" where
  "container_pprint pp =
     bindM the_container (\<lambda>c. bindM (rd_cont c) (\<lambda>k.
     bindM (slab_dir_pprint pp (l_maddr (c_current_slab k)) 2) (\<lambda>t.
     bindM (if l_maddr (c_current_slab k) \<noteq> l_maddr (c_snapshot_slab k)
            then slab_dir_pprint pp (l_maddr (c_snapshot_slab k)) 2 else retM []) (\<lambda>u.
     retM (''cont ('' @ pp c @ '') [id: '' @ decimal (c_id k) @ '']'' @ newline @ t @ u)))))"

section \<open>The list of pointers\<close>

definition pptr_dnode_print :: "(nat \<Rightarrow> string) \<Rightarrow> nat \<Rightarrow> nat \<Rightarrow> nat \<Rightarrow> string \<Rightarrow> string M" where
  "pptr_dnode_print pp dnode laddr level label =
     bindM (rd_dnode dnode) (\<lambda>d.
     bindM (gatherM (\<lambda>i. bindM (cellM (pdn_entries d) i) (\<lambda>p.
         retM (if pp_loc_offset p \<noteq> 0
           then pad (level + 2) @ ''pptr [ loc_offset: '' @ decimal (unat (pp_loc_offset p)) @ '', loc_seid: '' @ decimal (unat (pp_loc_seid p)) @
             '', val_offset: '' @ decimal (unat (pp_val_offset p)) @ '', val_seid: '' @ decimal (unat (pp_val_seid p)) @ '' ] '' @ newline
           else [])))
       [0..<PPTR_DNODE_ENTRIES]) (\<lambda>t.
     retM (pad level @ label @ ''_dnode (maddr: '' @ pp dnode @ '', laddr: '' @ decimal laddr @ '') [index: '' @ decimal (pdn_index d) @ '']'' @ newline @ t)))"

definition pptr_inode_print :: "(nat \<Rightarrow> string) \<Rightarrow> nat \<Rightarrow> nat \<Rightarrow> nat \<Rightarrow> string M" where
  "pptr_inode_print pp inode laddr level =
     bindM (rd_inode inode) (\<lambda>n.
     bindM (gatherM (\<lambda>i. bindM (cellM (pin_current n) i) (\<lambda>c. bindM (cellM (pin_snapshot n) i) (\<lambda>s.
         bindM (if l_maddr c \<noteq> 0 then pptr_dnode_print pp (l_maddr c) (l_laddr c) (level + 2) ''current'' else retM []) (\<lambda>t.
         bindM (if l_maddr s \<noteq> 0 then pptr_dnode_print pp (l_maddr s) (l_laddr s) (level + 2) ''snapshot'' else retM []) (\<lambda>u.
         retM (t @ u))))))
       [0..<PPTR_INODE_ENTRIES]) (\<lambda>t.
     retM (pad level @ ''inode (maddr: '' @ pp inode @ '', laddr: '' @ decimal laddr @ '') [index: '' @ decimal (pin_current_idx n) @ '']'' @ newline @ t)))"

partial_function (option) inodes_print :: "(nat \<Rightarrow> string) \<Rightarrow> nat \<Rightarrow> nat \<Rightarrow> string \<Rightarrow> world \<Rightarrow> (string \<times> world) res option" where
  "inodes_print pp inode laddr s w =
     (if inode = 0 then Some (Inr (s, w))
      else case bindM (pptr_inode_print pp inode laddr 2) (\<lambda>t. bindM (rd_inode inode) (\<lambda>n. retM (t, n))) w of
        Inl e \<Rightarrow> Some (Inl e)
      | Inr ((t, n), w) \<Rightarrow> inodes_print pp (l_maddr (pin_next n)) (l_laddr (pin_next n)) (s @ t) w)"

text \<open>The address of the head is \<^verbatim>\<open>h\<close>.\<close>

definition pptr_print :: "(nat \<Rightarrow> string) \<Rightarrow> nat \<Rightarrow> pptr_head \<Rightarrow> string M" where
  "pptr_print pp h head w =
     (case inodes_print pp (l_maddr (ph_first head)) (l_laddr (ph_first head))
        (''head ('' @ pp h @ '') [first.maddr: '' @ pp (l_maddr (ph_first head)) @ '', first.laddr: '' @ decimal (l_laddr (ph_first head)) @
         '', last.maddr: '' @ pp (ph_last head) @ '']'' @ newline) w of
       None \<Rightarrow> Inl Diverges | Some r \<Rightarrow> r)"

section \<open>Printing does not change the process\<close>

definition prints :: "'a M \<Rightarrow> bool" where
  "prints m \<longleftrightarrow> (\<forall>w x w'. m w = Inr (x, w') \<longrightarrow> w' = w)"

named_theorems printing

lemma prints_basic [printing]:
  "prints (retM x)" "prints (errM e)" "prints (getM f)" "prints (liftM r)" "prints (page_of a)" "prints bad_page" "prints (cellM xs i)"
  by (auto simp: prints_def retM_def errM_def getM_def liftM_def bindR_Inr_iff page_of_def bad_page_def cellM_def split: option.splits if_splits)

lemma prints_bind [printing]: "prints m \<Longrightarrow> (\<And>x. prints (f x)) \<Longrightarrow> prints (bindM m f)"
  unfolding prints_def bindM_Inr by blast

lemma prints_if [printing]: "prints m \<Longrightarrow> prints n \<Longrightarrow> prints (if b then m else n)"
  by simp

lemma prints_gather [printing]: "(\<And>x. prints (f x)) \<Longrightarrow> prints (gatherM f xs)"
  by (induction xs) (simp_all add: printing)

lemma prints_page [printing]:
  "prints (rd_dir a)" "prints (rd_outer a)" "prints (rd_inner a)" "prints (rd_bucket a)" "prints (rd_ptrs a)" "prints (rd_cont a)"
  "prints (rd_data a)" "prints (rd_inode a)" "prints (rd_dnode a)"
  unfolding rd_dir_def rd_outer_def rd_inner_def rd_bucket_def rd_ptrs_def rd_cont_def rd_data_def rd_inode_def rd_dnode_def
  by (intro printing; simp add: printing split: page.split)+

lemma prints_entry [printing]: "prints (rd_se a)" "prints the_container" "prints (SLAB_ENTRY_CBITMAP e)" "prints (SLAB_ENTRY_SBITMAP e)"
  unfolding rd_se_def the_container_def SLAB_ENTRY_CBITMAP_def SLAB_ENTRY_SBITMAP_def by (intro printing)+

lemma container_pprint_prints: "prints (container_pprint pp)"
  unfolding container_pprint_def slab_dir_pprint_def dir_child_def slab_outer_pprint_def slab_inner_pprint_def both_versions_def
    slab_bucket_pprint_def slab_entry_pprint_def ptr_line_def slab_ptr_pprint_def
  by (intro printing)

lemma slab_entry_print_prints: "prints (slab_entry_print pp)"
  unfolding slab_entry_print_def entry_line_def container_sd_def by (intro printing)

lemma print_splay_tree_prints: "prints (print_splay_tree pp)"
proof -
  let ?f = "\<lambda>se r. bindR r (\<lambda>(s, w). bindM (rd_se se) (\<lambda>e.
    retM (s @ ''tree's slab_entrys [maddr: '' @ pp (d_maddr (se_cur e)) @ '']'' @ newline)) w)"
  have "fold ?f xs r = Inr (s, w') \<Longrightarrow> \<exists>t. r = Inr (t, w')" for xs r s w'
    using prints_entry(1) by (induction xs arbitrary: r) (fastforce simp: bindR_Inr_iff bindM_Inr retM_def prints_def)+
  then have "prints (\<lambda>w. case RB_FOREACH ?f root (Inr ([], w)) of None \<Rightarrow> Inl Diverges | Some r \<Rightarrow> r)" for root
    by (fastforce simp: prints_def RB_FOREACH_ok)
  then show ?thesis unfolding print_splay_tree_def container_sd_def by (intro printing)
qed

section \<open>What is printed\<close>

lemma bitmap_set_count: "bitmap_set_count bm n = card {i. i < n \<and> bit_test bm i \<noteq> 0}"
proof (induction n)
  case (Suc n)
  have "{i. i < Suc n \<and> bit_test bm i \<noteq> 0} = {i. i < n \<and> bit_test bm i \<noteq> 0} \<union> (if bit_test bm n \<noteq> 0 then {n} else {})"
    by (auto simp: less_Suc_eq)
  then show ?case using Suc by (auto simp: bitmap_set_count_def card_insert_if)
qed (simp add: bitmap_set_count_def)

text \<open>The text of the snapshot of an outer node is not in the output of the directory.\<close>

lemma dir_child_twice:
  assumes "i < length (sd_current d)" "i < length (sd_snapshot d)" "l_maddr (sd_current d ! i) \<noteq> l_maddr (sd_snapshot d ! i)"
    and "pprint (l_maddr (sd_current d ! i)) w = Inr (t, w)"
  shows "dir_child pprint d i w = Inr (t @ t, w)"
  using assms by (simp add: dir_child_def cellM_def bindM_step retM_def)

lemma both_versions_text:
  assumes "i < length cs" "i < length ss" "l_maddr (cs ! i) \<noteq> l_maddr (ss ! i)"
    and "pprint (l_maddr (cs ! i)) w = Inr (t, w)" "pprint (l_maddr (ss ! i)) w = Inr (u, w)"
  shows "both_versions pprint cs ss i w = Inr (t @ u, w)"
  using assms by (simp add: both_versions_def cellM_def bindM_step retM_def)

end
