(* ===== verification/Out.thy ===== *)
theory Out
  imports Stats
begin

text \<open>
  The log of \<^verbatim>\<open>src/src/out.c\<close> and \<^verbatim>\<open>src/src/out.h\<close>, which \<^verbatim>\<open>OUT_ENABLE\<close> of \<^verbatim>\<open>settings.h\<close> turns on.  The
  state is the one of the file's static variables, with the lines written so far.  The arguments of
  a format are the texts of their conversions.  The lemmas follow the position \<^verbatim>\<open>cc\<close> in the line
  buffer and show when a line fits.
\<close>

datatype stream = Stdout | Stderr | LogFile string

text \<open>A line goes to a stream, or to a function that \<^verbatim>\<open>out_set_print_func\<close> has been given.\<close>

datatype sink = ToStream stream | ToFunc nat

record out_state =
  once :: bool
  Log_prefix :: string
  Log_level :: int
  Out_fp :: "stream option"
  Print :: "nat option"
  Vsnprintf :: "nat option"
  written :: "(sink \<times> string) list"

definition OUT_STATE :: out_state where
  "OUT_STATE = \<lparr>once = False, Log_prefix = ''(null)'', Log_level = 0, Out_fp = None, Print = None, Vsnprintf = None, written = []\<rparr>"

text \<open>
  What the process gives: the two environment variables (the level as its numeric value), the
  process id, the target of \<^verbatim>\<open>/proc/pid/exe\<close>, the files that can be opened, the text of the current
  \<^verbatim>\<open>errno\<close>, the functions given to \<^verbatim>\<open>out_set_vsnprintf_func\<close>, and what the stack holds where the
  line buffer is.
\<close>

record log_env =
  log_level_var :: "int option"
  log_file_var :: "string option"
  getpid :: nat
  exe_link :: "string option"
  can_open :: "string \<Rightarrow> bool"
  strerror :: string
  user_vsnprintf :: "nat \<Rightarrow> string \<Rightarrow> string list \<Rightarrow> string"
  stack :: "nat \<Rightarrow> char"

definition NUL :: char where "NUL = char_of (0::nat)"
definition MAXPRINT :: nat where "MAXPRINT = 8192"
definition PATH_MAX :: nat where "PATH_MAX = 4096"

section \<open>Formats\<close>

definition show_int :: "int \<Rightarrow> string" where
  "show_int i = (if i < 0 then ''-'' @ decimal (nat (- i)) else decimal (nat i))"

text \<open>The conversions of one letter; a missing argument is undefined and prints nothing here.\<close>

fun expand :: "string \<Rightarrow> string list \<Rightarrow> string" where
  "expand [] args = []"
| "expand [c] args = [c]"
| "expand (c # d # cs) args =
     (if c = CHR ''%'' then if d = CHR ''%'' then d # expand cs args
        else case args of [] \<Rightarrow> expand cs [] | a # as \<Rightarrow> a @ expand cs as
      else c # expand (d # cs) args)"

definition render :: "log_env \<Rightarrow> out_state \<Rightarrow> string \<Rightarrow> string list \<Rightarrow> string" where
  "render env st fmt args = (case Vsnprintf st of None \<Rightarrow> expand fmt args | Some k \<Rightarrow> user_vsnprintf env k fmt args)"

text \<open>
  The store of \<^verbatim>\<open>snprintf(&buf[cc], MAXPRINT - cc, ...)\<close>: the difference of two ints becomes a
  \<^verbatim>\<open>size_t\<close>; at most that many characters are written, the last one a null character.
\<close>

definition out_snprintf :: "nat \<Rightarrow> string \<Rightarrow> (nat \<Rightarrow> char) \<Rightarrow> (nat \<Rightarrow> char) res" where
  "out_snprintf cc txt buf =
     (let size = (word_of_int (int MAXPRINT - int cc) :: u64);
          n = (if size = 0 then 0 else Suc (min (length txt) (unat size - 1)))
      in if n \<noteq> 0 \<and> MAXPRINT < cc + n then Inl (Undefined ''write outside the line buffer'')
         else Inr (\<lambda>i. if cc \<le> i \<and> i < cc + n then if i - cc < n - 1 then txt ! (i - cc) else NUL else buf i))"

definition cstring :: "(nat \<Rightarrow> char) \<Rightarrow> string" where
  "cstring buf = takeWhile (\<lambda>c. c \<noteq> NUL) (map buf [0..<MAXPRINT])"

section \<open>Output\<close>

definition out_print_func :: "string \<Rightarrow> out_state \<Rightarrow> out_state res" where
  "out_print_func s st =
     (case Out_fp st of None \<Rightarrow> Inl (Segv 0) | Some f \<Rightarrow> Inr (st\<lparr>written := written st @ [(ToStream f, s)]\<rparr>))"

definition print_line :: "string \<Rightarrow> out_state \<Rightarrow> out_state res" where
  "print_line s st =
     (case Print st of None \<Rightarrow> out_print_func s st | Some k \<Rightarrow> Inr (st\<lparr>written := written st @ [(ToFunc k, s)]\<rparr>))"

definition line_prefix :: "log_env \<Rightarrow> out_state \<Rightarrow> (string \<times> int \<times> string) option \<Rightarrow> int \<Rightarrow> string" where
  "line_prefix env st file level =
     (case file of None \<Rightarrow> []
      | Some (f, line, func) \<Rightarrow>
          render env st ''<%s>: <%d> [%s:%d %s] '' [Log_prefix st, show_int level, f, show_int line, func])"

text \<open>The message of a format, and the text of the error that a leading exclamation mark asks for.\<close>

definition line_message :: "log_env \<Rightarrow> out_state \<Rightarrow> string option \<Rightarrow> string list \<Rightarrow> string" where
  "line_message env st fmt args =
     (case fmt of None \<Rightarrow> [] | Some f \<Rightarrow> render env st (if f \<noteq> [] \<and> hd f = CHR ''!'' then tl f else f) args)"

definition line_tail :: "log_env \<Rightarrow> out_state \<Rightarrow> string option \<Rightarrow> string \<Rightarrow> string" where
  "line_tail env st fmt suffix =
     (case fmt of
        Some (CHR ''!'' # f) \<Rightarrow> render env st ''%s%s%s'' ['': '', strerror env, suffix]
      | _ \<Rightarrow> render env st ''%s%s%s'' ['''', '''', suffix])"

definition out_common ::
  "log_env \<Rightarrow> (string \<times> int \<times> string) option \<Rightarrow> int \<Rightarrow> string \<Rightarrow> string option \<Rightarrow> string list \<Rightarrow> out_state \<Rightarrow> out_state res" where
  "out_common env file level suffix fmt args st =
     (let buf = stack env; pre = line_prefix env st file level; msg = line_message env st fmt args in
      bindR (if file = None then Inr buf else out_snprintf 0 pre buf) (\<lambda>buf.
      bindR (if fmt = None then Inr buf else out_snprintf (length pre) msg buf) (\<lambda>buf.
      bindR (out_snprintf (length pre + length msg) (line_tail env st fmt suffix) buf) (\<lambda>buf.
      print_line (cstring buf) st))))"

definition out :: "log_env \<Rightarrow> string \<Rightarrow> string list \<Rightarrow> out_state \<Rightarrow> out_state res" where
  "out env fmt args st = out_common env None 0 newline (Some fmt) args st"

definition out_nonl :: "log_env \<Rightarrow> int \<Rightarrow> string \<Rightarrow> string list \<Rightarrow> out_state \<Rightarrow> out_state res" where
  "out_nonl env level fmt args st =
     (if Log_level st < level then Inr st else out_common env None level '''' (Some fmt) args st)"

definition out_log ::
  "log_env \<Rightarrow> string \<Rightarrow> int \<Rightarrow> string \<Rightarrow> int \<Rightarrow> string option \<Rightarrow> string list \<Rightarrow> out_state \<Rightarrow> out_state res" where
  "out_log env file line func level fmt args st =
     (if Log_level st < level then Inr st else out_common env (Some (file, line, func)) level newline fmt args st)"

text \<open>The process exits after the line.\<close>

definition out_fatal :: "log_env \<Rightarrow> string \<Rightarrow> int \<Rightarrow> string \<Rightarrow> string \<Rightarrow> string list \<Rightarrow> out_state \<Rightarrow> out_state res" where
  "out_fatal env file line func fmt args st =
     bindR (out_common env (Some (file, line, func)) 1 newline (Some fmt) args st) (\<lambda>_. Inl (Handle_error ''exit''))"

section \<open>Initialisation\<close>

definition getexecname :: "log_env \<Rightarrow> string res" where
  "getexecname env =
     (case exe_link env of None \<Rightarrow> Inr ''unknown''
      | Some l \<Rightarrow> if length l < PATH_MAX then Inr l else Inl (Undefined ''write outside namepath''))"

definition log_file_name :: "log_env \<Rightarrow> string \<Rightarrow> string" where
  "log_file_name env f = (if f \<noteq> [] \<and> last f = CHR ''-'' then f @ decimal (getpid env) else f)"

definition open_log :: "log_env \<Rightarrow> string \<Rightarrow> out_state \<Rightarrow> out_state res" where
  "open_log env prefix st =
     (case log_file_var env of None \<Rightarrow> Inr st
      | Some f \<Rightarrow> let name = log_file_name env f in
          if can_open env name then Inr (st\<lparr>Out_fp := Some (LogFile name)\<rparr>)
          else Inl (Handle_error (''Error ('' @ prefix @ '')'')))"

definition out_init :: "log_env \<Rightarrow> string \<Rightarrow> int \<Rightarrow> int \<Rightarrow> out_state \<Rightarrow> out_state res" where
  "out_init env prefix major minor st =
     (if once st then Inr st
      else bindR (open_log env prefix (st\<lparr>once := True, Log_prefix := prefix,
             written := written st @ [(ToStream Stdout, ''[PMLib] WARNING: Logging is enabled!'' @ newline)],
             Log_level := (case log_level_var env of None \<Rightarrow> Log_level st | Some v \<Rightarrow> max v 0)\<rparr>)) (\<lambda>st.
           let st = (if Out_fp st = None then st\<lparr>Out_fp := Some Stderr\<rparr> else st) in
           bindR (getexecname env) (\<lambda>exe.
           bindR (out_log env ''out.c'' 138 ''out_init'' 1 (Some ''pid %d: program: %s'') [decimal (getpid env), exe] st) (\<lambda>st.
           bindR (out_log env ''out.c'' 139 ''out_init'' 1 (Some ''%s version %d.%d'') [prefix, show_int major, show_int minor] st) (\<lambda>st.
           out_log env ''out.c'' 140 ''out_init'' 1 (Some ''src version %s'') [''SRCVERSION:''] st)))))"

definition out_fini :: "out_state \<Rightarrow> out_state" where
  "out_fini st = (case Out_fp st of Some (LogFile f) \<Rightarrow> st\<lparr>Out_fp := Some Stderr\<rparr> | _ \<Rightarrow> st)"

text \<open>The address of the function is printed; \<^verbatim>\<open>p\<close> is its text.\<close>

definition out_set_print_func :: "log_env \<Rightarrow> nat option \<Rightarrow> string \<Rightarrow> out_state \<Rightarrow> out_state res" where
  "out_set_print_func env f p st =
     bindR (out_log env ''out.c'' 184 ''out_set_print_func'' 3 (Some ''print %p'') [p] st) (\<lambda>st. Inr (st\<lparr>Print := f\<rparr>))"

definition out_set_vsnprintf_func :: "log_env \<Rightarrow> nat option \<Rightarrow> string \<Rightarrow> out_state \<Rightarrow> out_state res" where
  "out_set_vsnprintf_func env f p st =
     bindR (out_log env ''out.c'' 196 ''out_set_vsnprintf_func'' 3 (Some ''vsnprintf %p'') [p] st) (\<lambda>st. Inr (st\<lparr>Vsnprintf := f\<rparr>))"

section \<open>The line buffer\<close>

text \<open>The buffer holds the text \<^verbatim>\<open>s\<close>, cut off after its last place but one.\<close>

definition holds_text :: "(nat \<Rightarrow> char) \<Rightarrow> string \<Rightarrow> bool" where
  "holds_text buf s \<longleftrightarrow>
     (\<forall>i<min (length s) (MAXPRINT - 1). buf i = s ! i) \<and> buf (min (length s) (MAXPRINT - 1)) = NUL"

lemma cstring_text:
  assumes "holds_text buf s" "NUL \<notin> set s"
  shows "cstring buf = take (MAXPRINT - 1) s"
proof -
  let ?n = "min (length s) (MAXPRINT - 1)"
  have n: "?n < MAXPRINT" by (simp add: MAXPRINT_def)
  have "map buf [0..<MAXPRINT] = map buf [0..<?n] @ NUL # map buf [Suc ?n..<MAXPRINT]"
  proof -
    have "[0..<MAXPRINT] = [0..<?n] @ ?n # [Suc ?n..<MAXPRINT]"
      using upt_add_eq_append [of 0 ?n "MAXPRINT - ?n"] upt_conv_Cons [OF n] n by simp
    then show ?thesis using assms(1) by (simp add: holds_text_def)
  qed
  moreover have "map buf [0..<?n] = take (MAXPRINT - 1) s"
    using assms(1) by (intro nth_equalityI) (auto simp: holds_text_def)
  moreover have "takeWhile (\<lambda>c. c \<noteq> NUL) (take (MAXPRINT - 1) s @ NUL # xs) = take (MAXPRINT - 1) s" for xs
    using assms(2) by (subst takeWhile_append2) (auto dest: in_set_takeD)
  ultimately show ?thesis by (simp add: cstring_def)
qed

text \<open>Appending at the end of a text that fits; the first text may start in any buffer.\<close>

lemma snprintf_append:
  assumes "s = [] \<or> holds_text buf s" "length s \<le> MAXPRINT"
  shows "\<exists>buf'. out_snprintf (length s) t buf = Inr buf' \<and> holds_text buf' (s @ t)"
proof (cases "length s = MAXPRINT")
  case True
  then have "s \<noteq> []" by (auto simp: MAXPRINT_def)
  then have "holds_text buf (s @ t)" using assms(1) True by (auto simp: holds_text_def nth_append)
  moreover have "out_snprintf (length s) t buf = Inr buf" using True by (auto simp: out_snprintf_def Let_def fun_eq_iff)
  ultimately show ?thesis by blast
next
  case False
  then have l: "length s < MAXPRINT" using assms(2) by simp
  have size: "unat (word_of_int (int MAXPRINT - int (length s)) :: u64) = MAXPRINT - length s"
  proof -
    have "int MAXPRINT - int (length s) = int (MAXPRINT - length s)" using of_nat_diff [of "length s" MAXPRINT] l by linarith
    then have "(word_of_int (int MAXPRINT - int (length s)) :: u64) = word_of_nat (MAXPRINT - length s)"
      by (simp only: of_int_of_nat_eq)
    moreover have "MAXPRINT - length s < 2 ^ 64" by (simp add: MAXPRINT_def)
    ultimately show ?thesis by (simp only: unsigned_of_nat) (simp add: take_bit_nat_eq_self)
  qed
  let ?n = "Suc (min (length t) (MAXPRINT - length s - 1))"
  have nz: "(word_of_int (int MAXPRINT - int (length s)) :: u64) \<noteq> 0" using size l by (metis unat_0 zero_less_diff less_irrefl)
  have fit: "length s + ?n \<le> MAXPRINT" using l by simp
  let ?b = "\<lambda>i. if length s \<le> i \<and> i < length s + ?n then if i - length s < ?n - 1 then t ! (i - length s) else NUL else buf i"
  have "out_snprintf (length s) t buf = Inr ?b" 
    unfolding out_snprintf_def Let_def size if_not_P [OF nz] using fit by simp
  moreover have "holds_text ?b (s @ t)"
    using assms(1) l by (auto simp: holds_text_def nth_append min_def)
  ultimately show ?thesis by blast
qed

text \<open>Behind the end of the buffer every store is one outside it.\<close>

lemma snprintf_outside:
  assumes "MAXPRINT < cc" "cc < 2 ^ 31"
  shows "out_snprintf cc t buf = Inl (Undefined ''write outside the line buffer'')"
proof -
  have "(word_of_int (int MAXPRINT - int cc) :: u64) \<noteq> 0"
  proof
    assume "(word_of_int (int MAXPRINT - int cc) :: u64) = 0"
    then have "unat (word_of_nat MAXPRINT :: u64) = unat (word_of_nat cc :: u64)" by simp
    then show False using assms by (simp add: unsigned_of_nat take_bit_nat_eq_self MAXPRINT_def)
  qed
  then show ?thesis using assms(1) by (simp add: out_snprintf_def Let_def)
qed

section \<open>Properties\<close>

lemma snprintf_first: "\<exists>buf'. out_snprintf 0 t buf = Inr buf' \<and> holds_text buf' t"
  using snprintf_append [of "[]" buf t] by simp

text \<open>
  C40: A line of the log.  When the prefix and the message together have at most \<^verbatim>\<open>MAXPRINT\<close> characters,
  the line that is printed is the prefix, the message and the tail, cut off at \<^verbatim>\<open>MAXPRINT - 1\<close>
  characters, whatever the buffer held before.  When they have more, the code writes outside the line buffer: the
  position is advanced by the length the text would have had, and the size left is negative.
\<close>

theorem log_line_fits:
  assumes "pre = line_prefix env st file level" "msg = line_message env st fmt args" "rest = line_tail env st fmt suffix"
    and "NUL \<notin> set (pre @ msg @ rest)" "length pre + length msg < 2 ^ 31"
  shows "out_common env file level suffix fmt args st =
    (if length pre + length msg \<le> MAXPRINT then print_line (take (MAXPRINT - 1) (pre @ msg @ rest)) st
     else Inl (Undefined ''write outside the line buffer''))"
proof -
  obtain b1 where b1: "(if file = None then Inr (stack env) else out_snprintf 0 pre (stack env)) = Inr b1"
    "pre = [] \<or> holds_text b1 pre"
    using snprintf_first [of pre "stack env"] assms(1) by (cases "file = None") (auto simp: line_prefix_def)
  have run: "out_common env file level suffix fmt args st =
      bindR (if fmt = None then Inr b1 else out_snprintf (length pre) msg b1) (\<lambda>buf.
      bindR (out_snprintf (length pre + length msg) rest buf) (\<lambda>buf. print_line (cstring buf) st))"
    unfolding out_common_def Let_def assms(1-3) [symmetric] b1(1) by (simp add: bindR_def)
  show ?thesis
  proof (cases "length pre \<le> MAXPRINT")
    case True
    obtain b2 where b2: "(if fmt = None then Inr b1 else out_snprintf (length pre) msg b1) = Inr b2"
      "pre @ msg = [] \<or> holds_text b2 (pre @ msg)"
      using snprintf_append [OF b1(2) True, of msg] b1(2) assms(2) by (cases "fmt = None") (auto simp: line_message_def)
    show ?thesis
    proof (cases "length pre + length msg \<le> MAXPRINT")
      case True
      obtain b3 where "out_snprintf (length (pre @ msg)) rest b2 = Inr b3" "holds_text b3 ((pre @ msg) @ rest)"
        using snprintf_append [OF b2(2), of rest] True by auto
      then show ?thesis using run b2(1) True cstring_text [of b3 "(pre @ msg) @ rest"] assms(4) by (simp add: bindR_def)
    next
      case False
      then show ?thesis using run b2(1) snprintf_outside [of "length pre + length msg" rest b2] assms(5) by (simp add: bindR_def)
    qed
  next
    case False
    then have "out_snprintf (length pre) msg b1 = Inl (Undefined ''write outside the line buffer'')"
      "out_snprintf (length pre + length msg) rest b1 = Inl (Undefined ''write outside the line buffer'')"
      using snprintf_outside assms(5) by simp_all
    then show ?thesis using run False by (cases "fmt = None") (simp_all add: bindR_def)
  qed
qed

definition demo_log :: log_env where
  "demo_log = \<lparr>log_level_var = Some 3, log_file_var = Some ''/tmp/pm.'', getpid = 42, exe_link = None, can_open = (\<lambda>_. True),
     strerror = '''', user_vsnprintf = (\<lambda>_ f _. f), stack = (\<lambda>_. NUL)\<rparr>"

theorem log_line_fits_witness:
  "out demo_log ''faults: %d'' [''7''] (OUT_STATE\<lparr>Out_fp := Some Stderr\<rparr>) =
     Inr (OUT_STATE\<lparr>Out_fp := Some Stderr, written := [(ToStream Stderr, ''faults: 7'' @ newline)]\<rparr>) \<and>
   out demo_log ''%s'' [replicate 9000 (CHR ''x'')] OUT_STATE = Inl (Undefined ''write outside the line buffer'')"
proof -
  let ?st = "OUT_STATE\<lparr>Out_fp := Some Stderr\<rparr>"
  have n: "newline = [CHR 0x0A]" "NUL = CHR 0x00" by (simp_all add: newline_def NUL_def char_of_def bit_iff_odd)
  have p: "line_prefix demo_log st None 0 = []" for st by (simp add: line_prefix_def)
  have m: "line_message demo_log ?st (Some ''faults: %d'') [''7''] = ''faults: 7''"
    "line_message demo_log OUT_STATE (Some ''%s'') [replicate 9000 (CHR ''x'')] = replicate 9000 (CHR ''x'')"
    by (simp_all add: line_message_def render_def OUT_STATE_def)
  have t: "line_tail demo_log ?st (Some ''faults: %d'') newline = newline" "line_tail demo_log OUT_STATE (Some ''%s'') newline = newline"
    by (simp_all add: line_tail_def render_def OUT_STATE_def)
  have "out_common demo_log None 0 newline (Some ''faults: %d'') [''7''] ?st = print_line (take (MAXPRINT - 1) (''faults: 7'' @ newline)) ?st"
    using log_line_fits [OF refl refl refl, of demo_log ?st None 0 "Some ''faults: %d''" "[''7'']" newline, unfolded p m t]
    by (simp add: n MAXPRINT_def)
  moreover have "out_common demo_log None 0 newline (Some ''%s'') [replicate 9000 (CHR ''x'')] OUT_STATE =
      Inl (Undefined ''write outside the line buffer'')"
    using log_line_fits [OF refl refl refl, of demo_log OUT_STATE None 0 "Some ''%s''" "[replicate 9000 (CHR ''x'')]" newline, unfolded p m t]
    by (simp add: n MAXPRINT_def)
  ultimately show ?thesis by (simp add: out_def print_line_def out_print_func_def OUT_STATE_def MAXPRINT_def n)
qed

end
