(* ===== verification/Sfhandler.thy ===== *)
theory Sfhandler
  imports Container Out
begin

text \<open>
  The start of the library: \<^verbatim>\<open>register_sigsegv_handler\<close> of \<^verbatim>\<open>src/src/sfhandler.c\<close> and the constructor
  \<^verbatim>\<open>init\<close> of \<^verbatim>\<open>src/src/cont.c\<close> that calls it.  The dispositions of the signals are a function; the
  lemmas show that the registration succeeds, that the store of the memory model is the store of a
  process with this handler, and that the handler runs with its own signal blocked.
\<close>

unbundle bit_operations_syntax

section \<open>Signals\<close>

definition SIGSEGV :: nat where "SIGSEGV = 11"
definition SIGKILL :: nat where "SIGKILL = 9"
definition SIGSTOP :: nat where "SIGSTOP = 19"
definition SA_SIGINFO :: u32 where "SA_SIGINFO = 0x4"
definition SA_NODEFER :: u32 where "SA_NODEFER = 0x40000000"

text \<open>A handler is named by its function; \<^verbatim>\<open>Other_handler\<close> is a function of the application.\<close>

datatype handler = SIG_DFL | SIG_IGN | Memory_update | Other_handler nat

record sigaction =
  sa_sigaction :: handler
  sa_flags :: u32
  sa_mask :: "nat set"

text \<open>The system call fails for a number that is no signal and for the two that cannot be caught.\<close>

definition sys_sigaction :: "nat \<Rightarrow> sigaction \<Rightarrow> (nat \<Rightarrow> sigaction) \<Rightarrow> (nat \<Rightarrow> sigaction) option" where
  "sys_sigaction sig sa d = (if sig = 0 \<or> 64 < sig \<or> sig = SIGKILL \<or> sig = SIGSTOP then None else Some (d(sig := sa)))"

text \<open>The signals that are blocked while the handler of a signal runs, beside those blocked already.\<close>

definition blocked_in_handler :: "nat \<Rightarrow> sigaction \<Rightarrow> nat set" where
  "blocked_in_handler sig sa = (if sa_flags sa AND SA_NODEFER = 0 then insert sig (sa_mask sa) else sa_mask sa)"

definition memory_update_action :: sigaction where
  "memory_update_action = \<lparr>sa_sigaction = Memory_update, sa_flags = SA_SIGINFO, sa_mask = {}\<rparr>"

definition register_sigsegv_handler :: "(nat \<Rightarrow> sigaction) \<Rightarrow> (int \<times> (nat \<Rightarrow> sigaction)) res" where
  "register_sigsegv_handler d =
     (case sys_sigaction SIGSEGV memory_update_action d of
        None \<Rightarrow> Inl (Handle_error ''failed to register handle_memory_update'')
      | Some d \<Rightarrow> Inr (0, d))"

section \<open>The constructor of the library\<close>

record process =
  p_world :: world
  p_signals :: "nat \<Rightarrow> sigaction"
  p_log :: out_state

definition PMLIB_LOG_PREFIX :: string where "PMLIB_LOG_PREFIX = ''[PMLIB]''"
definition PMLIB_MAJOR_VERSION :: int where "PMLIB_MAJOR_VERSION = 0"
definition PMLIB_MINOR_VERSION :: int where "PMLIB_MINOR_VERSION = 1"

definition closure_message :: "log_env \<Rightarrow> env \<Rightarrow> out_state \<Rightarrow> out_state res" where
  "closure_message le e st =
     (case PMLIB_CLOSURE e of
        Some val \<Rightarrow> if val = 0 then out_log le ''cont.c'' 66 ''init'' 3 (Some ''Container closure has been disabled'') [] st else Inr st
      | None \<Rightarrow> out_log le ''cont.c'' 70 ''init'' 3 (Some ''Container closure is enabled'') [] st)"

definition init_process :: "log_env \<Rightarrow> env \<Rightarrow> process \<Rightarrow> process res" where
  "init_process le e p =
     bindR (out_init le PMLIB_LOG_PREFIX PMLIB_MAJOR_VERSION PMLIB_MINOR_VERSION (p_log p)) (\<lambda>st.
     bindR (out_log le ''cont.c'' 57 ''init'' 3 None [] st) (\<lambda>st.
     bindR (register_sigsegv_handler (p_signals p)) (\<lambda>(_, d).
     bindR (closure_message le e st) (\<lambda>st.
     Inr (p\<lparr>p_world := library_init e (p_world p), p_signals := d, p_log := st\<rparr>)))))"

text \<open>The restore of a container registers the handler again.\<close>

definition restore_process :: "env \<Rightarrow> process \<Rightarrow> (nat \<times> process) res" where
  "restore_process e p =
     bindR (container_restore e (p_world p)) (\<lambda>(cont, w).
     bindR (register_sigsegv_handler (p_signals p)) (\<lambda>(_, d). Inr (cont, p\<lparr>p_world := w, p_signals := d\<rparr>)))"

section \<open>Stores under a disposition\<close>

text \<open>
  What a store does in a process with given dispositions: the fault is delivered, and the store is
  tried again when the handler returns.  Nothing is known of the handlers of the application.
\<close>

definition deliver_segv :: "(nat \<Rightarrow> sigaction) \<Rightarrow> nat \<Rightarrow> unit M" where
  "deliver_segv d a =
     (case sa_sigaction (d SIGSEGV) of
        Memory_update \<Rightarrow> handle_memory_update a
      | SIG_DFL \<Rightarrow> errM (Segv a)
      | SIG_IGN \<Rightarrow> errM (Segv a)
      | Other_handler k \<Rightarrow> errM (Undefined ''handler of the application''))"

definition store_under :: "(nat \<Rightarrow> sigaction) \<Rightarrow> nat \<Rightarrow> unit M" where
  "store_under d a w =
     (case raw_touch a w of
        Inr r \<Rightarrow> Inr r
      | Inl _ \<Rightarrow> bindR (deliver_segv d a w) (\<lambda>(_, w1).
          case raw_touch a w1 of Inr r \<Rightarrow> Inr r | Inl _ \<Rightarrow> Inl Diverges))"

lemma registration_succeeds:
  "register_sigsegv_handler d = Inr (0, d(SIGSEGV := memory_update_action))"
  by (simp add: register_sigsegv_handler_def sys_sigaction_def SIGSEGV_def SIGKILL_def SIGSTOP_def)

lemma registered_store: "sa_sigaction (d SIGSEGV) = Memory_update \<Longrightarrow> store_under d a = touch a"
  by (rule ext) (simp add: store_under_def touch_def deliver_segv_def split: sum.split)

lemma unregistered_store:
  assumes "sa_sigaction (d SIGSEGV) = SIG_DFL" "raw_touch a w = Inl f"
  shows "store_under d a w = Inl (Segv a)"
  using assms by (simp add: store_under_def deliver_segv_def errM_def)

text \<open>A fault inside the handler is blocked, so it ends the process: the stores there are \<^verbatim>\<open>raw_touch\<close>.\<close>

lemma handler_not_reentrant: "SIGSEGV \<in> blocked_in_handler SIGSEGV memory_update_action"
  by (simp add: blocked_in_handler_def memory_update_action_def SA_SIGINFO_def SA_NODEFER_def)

lemma init_registers:
  assumes "init_process le e p = Inr p'"
  shows "store_under (p_signals p') = touch" "p_world p' = library_init e (p_world p)"
proof -
  have "p_signals p' = (p_signals p)(SIGSEGV := memory_update_action)" and w: "p_world p' = library_init e (p_world p)"
    using assms by (auto simp: init_process_def registration_succeeds bindR_Inr_iff)
  then show "store_under (p_signals p') = touch"
    using registered_store [of "p_signals p'"] by (auto simp: memory_update_action_def)
  show "p_world p' = library_init e (p_world p)" by (rule w)
qed

lemma restore_registers:
  assumes "restore_process e p = Inr (ct, p')"
  shows "store_under (p_signals p') = touch" "container_restore e (p_world p) = Inr (ct, p_world p')"
proof -
  have "p_signals p' = (p_signals p)(SIGSEGV := memory_update_action)" and w: "container_restore e (p_world p) = Inr (ct, p_world p')"
    using assms by (auto simp: restore_process_def registration_succeeds bindR_Inr_iff)
  then show "store_under (p_signals p') = touch"
    using registered_store [of "p_signals p'"] by (auto simp: memory_update_action_def)
  show "container_restore e (p_world p) = Inr (ct, p_world p')" by (rule w)
qed

end
