(* ===== verification/Types.thy ===== *)
theory Types
  imports Container
begin

text \<open>
  The library as a state machine, and an invariant of every state it reaches: the size of a slab
  entry is a multiple of eight and at most a page.  The code relies on it wherever it divides a data
  page into slots, and nothing checks it there; it holds because slab_palloc rounds the size and
  refuses a larger one, and because no other operation, checkpoint, restore, copy on write and
  closure included, changes the size of an entry.
\<close>

section \<open>The sizes of the entries\<close>

definition size_ok :: "nat \<Rightarrow> bool" where
  "size_ok n \<longleftrightarrow> 8 dvd n \<and> n \<le> PAGE_SIZE"

definition bucket_sized :: "slab_bucket \<Rightarrow> bool" where
  "bucket_sized b \<longleftrightarrow> (\<forall>e\<in>set (sb_entries b). size_ok (se_size e))"

fun page_sized :: "page \<Rightarrow> bool" where
  "page_sized (PBucket b) = bucket_sized b"
| "page_sized _ = True"

definition well_sized :: "world \<Rightarrow> bool" where
  "well_sized w \<longleftrightarrow> (\<forall>k. page_sized (os_pages (w_os w) k))"

lemma zero_sized [simp]: "bucket_sized zero_bucket"
  by (simp add: bucket_sized_def size_ok_def zero_bucket_def zero_entry_def)

section \<open>Operations that keep the sizes\<close>

definition keeps :: "'a M \<Rightarrow> bool" where
  "keeps m \<longleftrightarrow> (\<forall>w x w'. well_sized w \<longrightarrow> m w = Inr (x, w') \<longrightarrow> well_sized w')"

text \<open>A read also returns a bucket with such sizes.\<close>

definition reads :: "'a M \<Rightarrow> ('a \<Rightarrow> bool) \<Rightarrow> bool" where
  "reads m P \<longleftrightarrow> (\<forall>w x w'. well_sized w \<longrightarrow> m w = Inr (x, w') \<longrightarrow> w' = w \<and> P x)"

named_theorems keeping "operations that keep the sizes of the entries"

lemma keeps_basic [keeping]:
  "keeps (retM x)" "keeps (errM e)" "keeps (getM g)" "keeps (liftM r)" "keeps (mappage l)"
  by (auto simp: keeps_def retM_def errM_def getM_def liftM_def bindR_Inr_iff mappage_def)

lemma keeps_bind [keeping]: "keeps m \<Longrightarrow> (\<And>x. keeps (f x)) \<Longrightarrow> keeps (bindM m f)"
  unfolding keeps_def bindM_Inr by blast

lemma keeps_then [keeping]: "keeps m \<Longrightarrow> keeps k \<Longrightarrow> keeps (thenM m k)"
  unfolding thenM_def by (rule keeps_bind)

lemma keeps_cases [keeping]:
  "keeps m \<Longrightarrow> keeps n \<Longrightarrow> keeps (if b then m else n)"
  "keeps n \<Longrightarrow> (\<And>x. keeps (f x)) \<Longrightarrow> keeps (case opt of None \<Rightarrow> n | Some x \<Rightarrow> f x)"
  "(\<And>x y. keeps (g x y)) \<Longrightarrow> keeps (case p of (x, y) \<Rightarrow> g x y)"
  "(\<And>x. keeps (h x)) \<Longrightarrow> keeps (Let v h)"
  "keeps a \<Longrightarrow> keeps b' \<Longrightarrow> keeps c \<Longrightarrow> keeps d \<Longrightarrow>
     keeps (case t of CPOINT_COMPLETE \<Rightarrow> a | CPOINT_INCOMPLETE \<Rightarrow> b' | CPOINT_RESTORE \<Rightarrow> c | CPOINT_REGULAR \<Rightarrow> d)"
  by (auto split: option.split prod.split cpoint_type.split simp: Let_def)

lemma keeps_ifM [keeping]: "keeps m \<Longrightarrow> keeps (ifM b m)"
  by (simp add: ifM_def keeps_basic)

lemma keeps_each [keeping]: "(\<And>x. keeps (f x)) \<Longrightarrow> keeps (eachM f xs)"
  by (induction xs) (auto intro: keeping)

lemma well_sized_same: "os_pages (w_os w') = os_pages (w_os w) \<Longrightarrow> well_sized w \<Longrightarrow> well_sized w'"
  by (simp add: well_sized_def)

lemma keeps_mod [keeping]: "(\<And>w. os_pages (w_os (g w)) = os_pages (w_os w)) \<Longrightarrow> keeps (modM g)"
  by (auto simp: keeps_def modM_def intro: well_sized_same)

lemma keeps_stat [keeping]: "keeps (statM c)" "keeps (flushes n)" "keeps (flush_memsegment a m)"
proof -
  show "keeps (statM c)" unfolding statM_def by (rule keeps_mod) simp
  have "os_pages ((stat f ^^ n) s) = os_pages s" for f n and s :: "page os" by (induction n) simp_all
  then show f: "keeps (flushes n)" for n unfolding flushes_def by (intro keeps_mod) simp
  show "keeps (flush_memsegment a m)" unfolding flush_memsegment_def Let_def by (rule f)
qed

lemma keeps_allocator [keeping]:
  "keeps (getpage f)" "keeps (freepage a)" "keeps (mprotectM a n f)" "keeps (swapM x i y j)" "keeps (pa_init env)"
  by (auto simp: keeps_def getpage_def freepage_def mprotectM_def swapM_def pa_init_def bindR_Inr_iff
      page_allocator_mprotect_def intro: well_sized_same dest!: pa_contents mprotect_contents split: prod.splits)

lemma reads_page [keeping]: "reads (page_of a) page_sized" "keeps (page_of a)"
  by (auto simp: reads_def keeps_def page_of_def well_sized_def split: option.splits if_splits)

lemma reads_keeps: "reads m P \<Longrightarrow> keeps m"
  by (auto simp: reads_def keeps_def)

lemma reads_bind: "reads m P \<Longrightarrow> (\<And>x. P x \<Longrightarrow> reads (f x) Q) \<Longrightarrow> reads (bindM m f) Q"
  unfolding reads_def bindM_Inr by fast

lemma reads_sized:
  "reads (rd_dir a) (\<lambda>_. True)" "reads (rd_outer a) (\<lambda>_. True)" "reads (rd_inner a) (\<lambda>_. True)"
  "reads (rd_bucket a) bucket_sized" "reads (rd_ptrs a) (\<lambda>_. True)" "reads (rd_cont a) (\<lambda>_. True)"
  "reads (rd_data a) (\<lambda>_. True)"
  unfolding rd_dir_def rd_outer_def rd_inner_def rd_bucket_def rd_ptrs_def rd_cont_def rd_data_def
  by (rule reads_bind [OF reads_page(1)]; auto simp: reads_def retM_def bad_page_def errM_def split: page.splits)+

lemmas keeps_reads [keeping] = reads_sized [THEN reads_keeps]

lemma keeps_cell [keeping]: "keeps (cellM xs i)" "keeps (last_link xs i)"
  by (auto simp: cellM_def last_link_def intro: keeping)

lemma keeps_rd_se [keeping]: "keeps (rd_se a)"
  unfolding rd_se_def by (intro keeping; simp)

lemma keeps_raw_touch [keeping]: "keeps (raw_touch a)"
  by (auto simp: keeps_def raw_touch_def split: option.splits if_splits)

lemma poke_sized: "well_sized w \<Longrightarrow> page_sized p \<Longrightarrow> poke a p w = Inr (x, w') \<Longrightarrow> well_sized w'"
  by (auto simp: poke_def well_sized_def split: option.splits)

lemma keeps_update:
  assumes "keeps (t a)" "reads m P" "\<And>d. P d \<Longrightarrow> page_sized (g d)"
  shows "keeps (thenM (t a) (bindM m (\<lambda>d. poke a (g d))))"
  using assms poke_sized unfolding keeps_def reads_def thenM_Inr bindM_Inr by metis

lemma keeps_up [keeping]:
  assumes "keeps (t a)"
  shows "keeps (up_dir t a f1)" and "keeps (up_outer t a f2)" and "keeps (up_inner t a f2)"
    and "(\<And>d. bucket_sized d \<Longrightarrow> bucket_sized (f3 d)) \<Longrightarrow> keeps (up_bucket t a f3)"
    and "keeps (up_cont t a f4)"
    and "keeps (up_ptrs t a f5)"
    and "keeps (up_data t a f6)"
  unfolding up_dir_def up_outer_def up_inner_def up_bucket_def up_cont_def up_ptrs_def up_data_def
  by (rule keeps_update [of t a, OF assms]; (rule reads_sized)?; simp)+

text \<open>An update of an entry keeps the sizes when it sets a valid one or leaves the size alone.\<close>

lemma bucket_sized_update:
  assumes "bucket_sized b" "\<And>e. size_ok (se_size e) \<Longrightarrow> size_ok (se_size (f e))"
  shows "bucket_sized (b\<lparr>sb_entries := (sb_entries b)[i := f (sb_entries b ! i)]\<rparr>)"
proof (cases "i < length (sb_entries b)")
  case True
  then have "size_ok (se_size (f (sb_entries b ! i)))" using assms by (simp add: bucket_sized_def)
  then show ?thesis using assms(1) set_update_subset_insert [of "sb_entries b" i] by (auto simp: bucket_sized_def)
next
  case False
  then have "(sb_entries b)[i := f (sb_entries b ! i)] = sb_entries b" by (simp add: list_update_beyond)
  then show ?thesis using assms(1) by (simp add: bucket_sized_def)
qed

lemma keeps_up_se [keeping]:
  "(\<And>a. keeps (t a)) \<Longrightarrow> (\<And>e. size_ok (se_size e) \<Longrightarrow> size_ok (se_size (f e))) \<Longrightarrow> keeps (up_se t a f)"
  unfolding up_se_def by (intro keeping bucket_sized_update)

lemma snap_sizes [simp]: "se_size (set_data_snap g e) = se_size e" "se_size (set_ptr_snap h e) = se_size e"
  by (simp_all add: set_data_snap_def set_ptr_snap_def)

lemma keeps_copy [keeping]: "(\<And>a. keeps (t a)) \<Longrightarrow> keeps (memcpy_page t d s n)" "(\<And>a. keeps (t a)) \<Longrightarrow> keeps (pmemcpy t d s n)"
proof -
  show m: "(\<And>a. keeps (t a)) \<Longrightarrow> keeps (memcpy_page t d s n)"
  proof -
    assume t: "\<And>a. keeps (t a)"
    have "keeps (bindM (page_of s) (\<lambda>p. thenM (t d) (poke d p)))"
      using t poke_sized reads_page(1) unfolding keeps_def reads_def thenM_Inr bindM_Inr by metis
    then show ?thesis by (simp add: memcpy_page_def keeps_basic)
  qed
  show "(\<And>a. keeps (t a)) \<Longrightarrow> keeps (pmemcpy t d s n)" unfolding pmemcpy_def by (intro keeping m)
qed

lemma keeps_atomic [keeping]: "keeps m \<Longrightarrow> keeps (atomic_set m)"
  unfolding atomic_set_def by (intro keeping; simp)

section \<open>Every operation of the library\<close>

text \<open>Copy on write.\<close>

lemma keeps_current_sd [keeping]: "keeps current_sd" "keeps (find_entry t k)"
proof -
  show k: "keeps current_sd" unfolding current_sd_def by (intro keeping; simp)
  show "keeps (find_entry t k)" unfolding find_entry_def by (intro keeping k)
qed

lemma bucket_fields_sized [simp]:
  "bucket_sized (b\<lparr>sb_has_snapshot := f\<rparr>) = bucket_sized b" "bucket_sized (b\<lparr>sb_id := i\<rparr>) = bucket_sized b"
  by (simp_all add: bucket_sized_def)

lemma keeps_append [keeping]: "(\<And>a. keeps (t a)) \<Longrightarrow> keeps (append_snapshotted t se)"
  unfolding append_snapshotted_def by (intro keeping; simp)

lemma keeps_index [keeping]: "(\<And>a. keeps (t a)) \<Longrightarrow> keeps (index_entry t sd se)"
  unfolding index_entry_def by (intro keeping; simp)

lemma keeps_entry_copies [keeping]: "keeps (slab_entry_snapshot se)" "keeps (slab_entry_copynswap se)"
  unfolding slab_entry_snapshot_def slab_entry_copynswap_def by (intro keeping; simp)+

lemma keeps_handler [keeping]: "keeps (handle_memory_update a)"
  unfolding handle_memory_update_def by (intro keeping; simp)

lemma keeps_touch [keeping]: "keeps (touch a)"
  unfolding keeps_def
proof (intro allI impI)
  fix w x w'
  assume w: "well_sized w" and t: "touch a w = Inr (x, w')"
  have raw: "w' = w" if "raw_touch a w = Inr (x, w')" for w
    using that by (auto simp: raw_touch_def split: option.splits if_splits)
  show "well_sized w'"
  proof (cases "raw_touch a w")
    case (Inl e)
    with t have "bindR (handle_memory_update a w) (\<lambda>(_, w1). case raw_touch a w1 of Inr r \<Rightarrow> Inr r | Inl _ \<Rightarrow> Inl Diverges) = Inr (x, w')"
      by (simp add: touch_def)
    then obtain u w1 where w1: "handle_memory_update a w = Inr (u, w1)"
      "(case raw_touch a w1 of Inr r \<Rightarrow> Inr r | Inl _ \<Rightarrow> Inl Diverges) = Inr (x, w')"
      by (elim bindR_InrE) auto
    from w1(2) have "raw_touch a w1 = Inr (x, w')" by (cases "raw_touch a w1") simp_all
    note raw1 = raw [OF this]
    have "well_sized w1" using keeps_handler [of a] w w1(1) by (simp add: keeps_def)
    then show ?thesis using raw1 by simp
  next
    case (Inr r)
    then show ?thesis using t w raw [of w] by (simp add: touch_def)
  qed
qed

lemma keeps_snapshots [keeping]:
  "keeps (bucket_inner sb)" "keeps (slab_bucket_snapshot sb)" "keeps (slab_bucket_copynswap sb)"
  "(\<And>l. keeps (store l)) \<Longrightarrow> keeps (slab_inner_snapshot a store)"
  "(\<And>l. keeps (store l)) \<Longrightarrow> keeps (slab_outer_snapshot a store)"
  "(\<And>l. keeps (store l)) \<Longrightarrow> keeps (slab_dir_snapshot a store)"
proof -
  show b: "keeps (bucket_inner sb)" unfolding bucket_inner_def by (intro keeping; simp)
  show "keeps (slab_bucket_snapshot sb)" "keeps (slab_bucket_copynswap sb)"
    unfolding slab_bucket_snapshot_def slab_bucket_copynswap_def by (intro keeping b; simp)+
  show "(\<And>l. keeps (store l)) \<Longrightarrow> keeps (slab_inner_snapshot a store)"
    "(\<And>l. keeps (store l)) \<Longrightarrow> keeps (slab_outer_snapshot a store)"
    "(\<And>l. keeps (store l)) \<Longrightarrow> keeps (slab_dir_snapshot a store)"
    unfolding slab_inner_snapshot_def slab_outer_snapshot_def slab_dir_snapshot_def by (intro keeping; simp)+
qed

text \<open>The slab.\<close>

lemma keeps_lists [keeping]:
  "keeps (linksM f)" "keeps (touch_loc l)" "keeps (insert_tail h se)" "keeps (insert_head h se)" "keeps (remove_head h)"
  "keeps (init_list h)"
proof -
  show l: "keeps (linksM f)" for f unfolding linksM_def by (intro keeping; simp)
  show t: "keeps (touch_loc l)" for l unfolding touch_loc_def by (cases l) (auto intro: keeping)
  show "keeps (insert_tail h se)" "keeps (insert_head h se)" "keeps (remove_head h)" "keeps (init_list h)"
    unfolding insert_tail_def insert_head_def remove_head_def init_list_def by (intro keeping l t)+
qed

lemma keeps_sizes [keeping]: "keeps (find_size sd n)" "keeps (index_size sd es)" "keeps (slab_entry_size_init n)"
  unfolding find_size_def index_size_def slab_entry_size_init_def by (intro keeping; simp)+

lemma keeps_ids [keeping]: "keeps GET_NEXT_BUCKET_ID" "keeps GET_NEXT_SLAB_ENTRY_ID"
  unfolding GET_NEXT_BUCKET_ID_def GET_NEXT_SLAB_ENTRY_ID_def by (intro keeping; simp)+

lemma keeps_poke_zero [keeping]: "keeps (poke a PZero)"
  using poke_sized [of _ PZero] by (auto simp: keeps_def)

lemma keeps_constructors [keeping]:
  "size_ok n \<Longrightarrow> keeps (slab_entry_init se n)" "keeps slab_outer_init" "keeps slab_inner_init" "keeps (free_entries sd sb)"
  "keeps slab_bucket_init" "keeps (add_to_inner a m l)" "keeps (add_to_outer a m l)" "keeps (add_to_dir a m l)" "keeps slab_dir_init"
proof -
  show "size_ok n \<Longrightarrow> keeps (slab_entry_init se n)" unfolding slab_entry_init_def by (intro keeping; simp)
  show o': "keeps slab_outer_init" "keeps slab_inner_init" unfolding slab_outer_init_def slab_inner_init_def by (intro keeping; simp)+
  show f: "keeps (free_entries sd sb)" for sd sb unfolding free_entries_def by (intro keeping; simp)
  show "keeps slab_bucket_init" unfolding slab_bucket_init_def by (intro keeping f; simp)
  show a: "keeps (add_to_inner a m l)" "keeps (add_to_outer a m l)" "keeps (add_to_dir a m l)" for a m l
    unfolding add_to_inner_def add_to_outer_def add_to_dir_def by (intro keeping; simp)+
  show "keeps slab_dir_init" unfolding slab_dir_init_def by (intro keeping f o' a; simp)
qed

lemma keeps_slots [keeping]:
  "keeps (SLAB_ENTRY_CBITMAP e)" "keeps (set_slot se e i)" "keeps (slab_entry_full se)" "keeps (slab_entry_alloc_mem se)"
proof -
  show b: "keeps (SLAB_ENTRY_CBITMAP e)" for e unfolding SLAB_ENTRY_CBITMAP_def by (intro keeping; simp)
  show s: "keeps (set_slot se e i)" for se e i unfolding set_slot_def by (intro keeping; simp)
  show "keeps (slab_entry_full se)" "keeps (slab_entry_alloc_mem se)"
    unfolding slab_entry_full_def slab_entry_alloc_mem_def by (intro keeping b s)+
qed

lemma keeps_growth [keeping]:
  "keeps (set_cont_snap_laddr c l)" "keeps (set_cont_snap_maddr c l)" "keeps (grow_dir sd)" "keeps (copy_outer sd so)"
  "keeps (grow_outer sd so)" "keeps (copy_inner so si)" "keeps (grow_slab sd)" "keeps get_free_slab_entry"
proof -
  show c: "keeps (set_cont_snap_laddr c l)" "keeps (set_cont_snap_maddr c l)" for c l
    unfolding set_cont_snap_laddr_def set_cont_snap_maddr_def by (intro keeping; simp)+
  show d: "keeps (grow_dir sd)" "keeps (copy_outer sd so)" for sd so
    unfolding grow_dir_def copy_outer_def by (intro keeping c; simp)+
  show o': "keeps (grow_outer sd so)" "keeps (copy_inner so si)" for sd so si
    unfolding grow_outer_def copy_inner_def by (intro keeping d; simp)+
  show g: "keeps (grow_slab sd)" for sd unfolding grow_slab_def by (intro keeping o')
  show "keeps get_free_slab_entry" unfolding get_free_slab_entry_def by (intro keeping g)
qed

lemma palloc_size:
  fixes sz :: u32
  assumes "\<not> unat sz > PAGE_SIZE"
  shows "size_ok (unat (ROUND8 sz))"
proof -
  have "unat sz + 7 < 2 ^ 32" using assms by (simp add: PAGE_SIZE_def)
  then have "unat (ROUND8 sz) = (unat sz + 7) div 8 * 8" by (simp add: round_up_unat_u32)
  moreover have "(unat sz + 7) div 8 \<le> 4103 div 8" using assms by (intro div_le_mono) (simp add: PAGE_SIZE_def)
  ultimately show ?thesis by (simp add: size_ok_def PAGE_SIZE_def)
qed

lemma keeps_palloc [keeping]: "keeps (Func_slab_bucket_snapshot sb)" "keeps (pick_entry sd n)" "keeps (slab_palloc sz)"
proof -
  show f: "keeps (Func_slab_bucket_snapshot sb)" for sb unfolding Func_slab_bucket_snapshot_def by (intro keeping; simp)
  show p: "keeps (pick_entry sd n)" for sd n unfolding pick_entry_def by (intro keeping; simp)
  have m: "keeps (mark_bucket sb)" for sb unfolding mark_bucket_def by (intro keeping f; simp)
  have guard: "keeps (if b then errM e else n)" if "\<not> b \<Longrightarrow> keeps n" for b e and n :: "nat M"
    using that by (simp add: keeps_basic)
  have sz: "size_ok (unat (ROUND8 sz))" if "\<not> unat sz > PAGE_SIZE" using that by (rule palloc_size)
  show "keeps (slab_palloc sz)"
    unfolding slab_palloc_def Let_def
    by (rule keeps_then [OF keeps_stat(1)], rule guard) (intro keeping p m sz)
qed

text \<open>Identifiers, pointers and the root.\<close>

lemma keeps_bytes [keeping]:
  "keeps (rd_byte a)" "keeps (wr_byte a b)" "keeps (rd_bytes a n)" "keeps (wr_bytes a n v)" "keeps (rd_ptr a)" "keeps (wr_ptr a v)"
proof -
  have "keeps (bindM (rd_data a) (\<lambda>d. retM (d (a mod PAGE_SIZE))))" for a by (intro keeping; simp)
  then show r: "keeps (rd_byte a)" for a unfolding keeps_def rd_byte_def by (auto split: if_splits)
  have "keeps (up_data touch a (\<lambda>d. d(a mod PAGE_SIZE := b)))" for a b by (intro keeping; simp)
  then show w: "keeps (wr_byte a b)" for a b
    unfolding keeps_def wr_byte_def by (auto split: if_splits simp: well_sized_def)
  show rs: "keeps (rd_bytes a n)" for a n by (induction n arbitrary: a) (auto intro!: keeping r)
  show ws: "keeps (wr_bytes a n v)" for a n v by (induction n arbitrary: a v) (auto intro!: keeping w)
  show "keeps (rd_ptr a)" "keeps (wr_ptr a v)" unfolding rd_ptr_def wr_ptr_def by (intro rs ws)+
qed

lemma keeps_all_entries [keeping]:
  assumes "\<And>se. keeps (f se)"
  shows "keeps (bucket_entries f sb)" "keeps (inner_entries f si)" "keeps (outer_entries f so)" "keeps (all_entries f)"
proof -
  show b: "keeps (bucket_entries f sb)" for sb unfolding bucket_entries_def by (intro keeping assms)
  show i: "keeps (inner_entries f si)" for si unfolding inner_entries_def by (intro keeping b)
  show o': "keeps (outer_entries f so)" for so unfolding outer_entries_def by (intro keeping i)
  show "keeps (all_entries f)" unfolding all_entries_def by (intro keeping o')
qed

lemma keeps_pointers [keeping]:
  "keeps (slab_mprotect_datapgs p)" "keeps (get_slab_entry_by_id i)" "keeps (fix_pointer se m)" "keeps do_fixptrs" "keeps slab_fixptrs"
  "keeps (append_pointer se q)" "keeps (pointer_page se)" "keeps (do_insert_pointer l)" "keeps (slab_insert_pointer l)"
  "keeps (slab_setroot u)" "keeps slab_getroot" "keeps (slab_find a)"
proof -
  show "keeps (slab_mprotect_datapgs p)" unfolding slab_mprotect_datapgs_def by (intro keeping; simp)
  show g: "keeps (get_slab_entry_by_id i)" for i
    unfolding get_slab_entry_by_id_def by (cases "seid_path i") (simp, intro keeping)
  show f: "keeps (fix_pointer se m)" for se m unfolding fix_pointer_def by (intro keeping g)
  show d: "keeps do_fixptrs" unfolding do_fixptrs_def by (intro keeping f)
  show "keeps slab_fixptrs" unfolding slab_fixptrs_def by (intro keeping d)
  show a: "keeps (append_pointer se q)" for se q unfolding append_pointer_def by (intro keeping; simp)
  show p: "keeps (pointer_page se)" for se unfolding pointer_page_def by (intro keeping; simp)
  show i: "keeps (do_insert_pointer l)" unfolding do_insert_pointer_def by (intro keeping a p)
  show "keeps (slab_insert_pointer l)" unfolding slab_insert_pointer_def by (intro keeping i)
  show "keeps (slab_setroot u)" unfolding slab_setroot_def by (intro keeping; simp)
  show "keeps slab_getroot" unfolding slab_getroot_def by (intro keeping g)
  show "keeps (slab_find a)" unfolding slab_find_def by (intro keeping; simp)
qed

text \<open>Checkpoint and restore.\<close>

lemma keeps_cpoint [keeping]:
  "keeps (cpoint_entry t se)" "keeps (cpoint_bucket t si i)" "keeps (cpoint_inner t so i)" "keeps (cpoint_outer t sd i)"
  "keeps (slab_cpoint t)"
proof -
  have d: "keeps (cpoint_data se)" "keeps (cpoint_ptrs se)" for se
    unfolding cpoint_data_def cpoint_ptrs_def by (intro keeping; simp)+
  show e: "keeps (cpoint_entry t se)" for se unfolding cpoint_entry_def by (intro keeping d)
  show b: "keeps (cpoint_bucket t si i)" for si i
    unfolding cpoint_bucket_def slab_bucket_cpoint_def by (intro keeping e; simp)
  show i: "keeps (cpoint_inner t so i)" for so i
    unfolding cpoint_inner_def slab_inner_cpoint_def by (intro keeping b; simp)
  show o': "keeps (cpoint_outer t sd i)" for sd i
    unfolding cpoint_outer_def slab_outer_cpoint_def by (intro keeping i; simp)
  show "keeps (slab_cpoint t)" unfolding slab_cpoint_def slab_dir_cpoint_def by (intro keeping o'; simp)
qed

lemma keeps_restore [keeping]:
  "keeps (index_slab_entry sd se)" "keeps (map_entry t se)" "keeps (slab_bucket_map sd l t b)" "keeps (map_bucket sd t si i)"
  "keeps (map_inner sd t so i)" "keeps (map_outer t sd i)" "keeps (slab_map l t)"
proof -
  show x: "keeps (index_slab_entry sd se)" for sd se unfolding index_slab_entry_def by (intro keeping; simp)
  show e: "keeps (map_entry t se)" for se unfolding map_entry_def by (intro keeping; simp)
  show m: "keeps (slab_bucket_map sd l t b)" for sd l b unfolding slab_bucket_map_def by (intro keeping x e)
  show b: "keeps (map_bucket sd t si i)" for sd si i unfolding map_bucket_def by (intro keeping m; simp)
  show i: "keeps (map_inner sd t so i)" for sd so i
    unfolding map_inner_def slab_inner_map_def by (intro keeping b; simp)
  show o': "keeps (map_outer t sd i)" for sd i
    unfolding map_outer_def slab_outer_map_def by (intro keeping i; simp)
  show "keeps (slab_map l t)" unfolding slab_map_def by (intro keeping o'; simp)
qed

text \<open>The loops over the tables and vectors: what every call of the body keeps, the loop keeps.\<close>

lemma foreach_keeps:
  assumes "\<And>k v s s'. P s \<Longrightarrow> f k v s = Inr s' \<Longrightarrow> P s'" "P s" "htable_foreach f ht s = Inr s'"
  shows "P s'"
proof -
  have chain: "P t \<Longrightarrow> foreach_chain f es t = Inr t' \<Longrightarrow> P t'" for es t t'
  proof (induction es arbitrary: t)
    case (Cons e es)
    then obtain t1 where "f (e_key e) (e_val e) t = Inr t1" "foreach_chain f es t1 = Inr t'" by (auto simp: bindR_Inr_iff)
    then show ?case using Cons.IH assms(1) [OF Cons.prems(1)] by blast
  qed simp
  have "P t \<Longrightarrow> foreach_buckets f cs t = Inr t' \<Longrightarrow> P t'" for cs t t'
  proof (induction cs arbitrary: t)
    case (Cons c cs)
    then obtain t1 where "foreach_chain f c t = Inr t1" "foreach_buckets f cs t1 = Inr t'" by (auto simp: bindR_Inr_iff)
    then show ?case using Cons.IH chain [OF Cons.prems(1)] by blast
  qed simp
  then show ?thesis using assms(2,3) by (auto simp: htable_foreach_def bindR_Inr_iff)
qed

lemma filter_keeps:
  assumes "\<And>k v s b s'. P s \<Longrightarrow> f k v s = Inr (b, s') \<Longrightarrow> P s'" "P s" "htable_filter f ht s = Inr (ht', s')"
  shows "P s'"
proof -
  have chain: "P t \<Longrightarrow> filter_chain f es n t = Inr (es', n', t') \<Longrightarrow> P t'" for es n t es' n' t'
  proof (induction es arbitrary: n t es' n')
    case (Cons e es)
    then obtain b t1 where s: "f (e_key e) (e_val e) t = Inr (b, t1)"
      and r: "(if b then filter_chain f es ((n + (2 ^ 32 - 1)) mod 2 ^ 32) t1
        else bindR (filter_chain f es n t1) (\<lambda>(es', elems', s''). Inr (e # es', elems', s''))) = Inr (es', n', t')"
      by (auto simp: bindR_Inr_iff)
    from r obtain m es'' m' where "filter_chain f es m t1 = Inr (es'', m', t')"
      by (auto simp: bindR_Inr_iff split: if_splits)
    then show ?case using Cons.IH assms(1) [OF Cons.prems(1) s] by blast
  qed simp
  have "P t \<Longrightarrow> filter_buckets f cs n t = Inr (cs', n', t') \<Longrightarrow> P t'" for cs n t cs' n' t'
  proof (induction cs arbitrary: n t cs' n')
    case (Cons c cs)
    then obtain c' n1 t1 cs'' where "filter_chain f c n t = Inr (c', n1, t1)" "filter_buckets f cs n1 t1 = Inr (cs'', n', t')"
      by (auto simp: bindR_Inr_iff)
    then show ?case using Cons.IH chain [OF Cons.prems(1)] by blast
  qed simp
  then show ?thesis using assms(2,3) by (auto simp: htable_filter_def bindR_Inr_iff)
qed

lemma vector_foreach_keeps:
  assumes "\<And>x i s s'. P s \<Longrightarrow> f x i s = Inr s' \<Longrightarrow> P s'" "P s" "VECTOR_FOREACH f p s = Inr s'"
  shows "P s'"
proof -
  have "P t \<Longrightarrow> vector_foreach_from f p i itr t = Inr t' \<Longrightarrow> P t'" for i itr t t'
  proof (induction "vsize p - i" arbitrary: i itr t)
    case 0
    then show ?case by (subst (asm) vector_foreach_from.simps) simp
  next
    case (Suc n)
    then have i: "i < vsize p" by simp
    from Suc.prems(2) i obtain x s1 itr' where
      s: "f x i t = Inr s1" "vector_foreach_from f p (Suc i) itr' s1 = Inr t'"
      by (subst (asm) vector_foreach_from.simps) (auto simp: bindR_Inr_iff split: option.splits)
    show ?case using Suc.hyps(1) [of "Suc i", OF _ assms(1) [OF Suc.prems(1) s(1)] s(2)] Suc.hyps(2) by simp
  qed
  then show ?thesis using assms(2,3) by (auto simp: VECTOR_FOREACH_def bindR_Inr_iff)
qed

lemma vector_loop_keeps:
  assumes "\<And>x. keeps (body x)" "vector_loop vec body i w = Some (Inr (u, w'))" "well_sized w"
  shows "well_sized w'"
proof -
  have "(\<forall>x. keeps (body x)) \<longrightarrow> well_sized w \<longrightarrow> y = Inr (u, w') \<longrightarrow> well_sized w'"
    if "vector_loop vec body i w = Some y" for y
  proof (rule vector_loop.raw_induct [OF _ that])
    fix loop vec i w y and body :: "nat \<Rightarrow> unit M"
    assume 1: "\<And>vec body i w y. loop vec body i w = Some y \<Longrightarrow>
        (\<forall>x. keeps (body x)) \<longrightarrow> well_sized w \<longrightarrow> y = Inr (u, w') \<longrightarrow> well_sized w'"
      "(case vec w of Inl e \<Rightarrow> Some (Inl e) | Inr v \<Rightarrow> if i < VECTOR_SIZE v
          then (case bindR (VECTOR_AT v i) (\<lambda>x. body x w) of Inl e \<Rightarrow> Some (Inl e) | Inr (_, w) \<Rightarrow> loop vec body (i + 1) w)
          else Some (Inr ((), w))) = Some y"
    show "(\<forall>x. keeps (body x)) \<longrightarrow> well_sized w \<longrightarrow> y = Inr (u, w') \<longrightarrow> well_sized w'"
    proof (intro impI)
      assume k: "\<forall>x. keeps (body x)" and w: "well_sized w" and y: "y = Inr (u, w')"
      from 1(2) y obtain v where v: "vec w = Inr v" by (auto split: sum.splits)
      show "well_sized w'"
      proof (cases "i < VECTOR_SIZE v")
        case True
        with 1(2) y v obtain x w1 where s: "VECTOR_AT v i = Inr x" "body x w = Inr ((), w1)" "loop vec body (i + 1) w1 = Some y"
          by (auto simp: bindR_def split: sum.splits)
        have "well_sized w1" using k w s(2) unfolding keeps_def by blast
        then show ?thesis using 1(1) [OF s(3)] k y by blast
      next
        case False
        then show ?thesis using 1(2) y v w by simp
      qed
    qed
  qed
  then show ?thesis using assms by blast
qed

lemma keeps_loops [keeping]:
  "(\<And>k v. keeps (m k v)) \<Longrightarrow> keeps (of_world (htable_foreach (\<lambda>k v. on_world (m k v)) ht))"
  "(\<And>x i. keeps (b x i)) \<Longrightarrow> keeps (of_world (VECTOR_FOREACH (\<lambda>x i. on_world (b x i)) p))"
  "(\<And>x. keeps (body x)) \<Longrightarrow> keeps (loopM (vector_loop vec body i))"
proof -
  have on: "well_sized s'" if "keeps n" "well_sized s" "on_world n s = Inr s'" for n :: "unit M" and s s'
    using that by (auto simp: on_world_def keeps_def bindR_Inr_iff)
  have of: "keeps (of_world g)" if "\<And>s s'. well_sized s \<Longrightarrow> g s = Inr s' \<Longrightarrow> well_sized s'" for g
    using that by (auto simp: keeps_def of_world_def bindR_Inr_iff)
  show "keeps (of_world (htable_foreach (\<lambda>k v. on_world (m k v)) ht))" if "\<And>k v. keeps (m k v)"
    by (rule of, rule foreach_keeps [where P = well_sized and f = "\<lambda>k v. on_world (m k v)"]) (use on [OF that] in blast)+
  show "keeps (of_world (VECTOR_FOREACH (\<lambda>x i. on_world (b x i)) p))" if "\<And>x i. keeps (b x i)"
    by (rule of, rule vector_foreach_keeps [where P = well_sized and f = "\<lambda>x i. on_world (b x i)"]) (use on [OF that] in blast)+
  show "keeps (loopM (vector_loop vec body i))" if "\<And>x. keeps (body x)"
    using vector_loop_keeps [where body = body and vec = vec and i = i] that
    unfolding keeps_def loopM_def by (auto split: option.splits)
qed

text \<open>The closure.\<close>

lemma keeps_registration [keeping]:
  "keeps (the_table t)" "keeps (pointerat_aux a)" "keeps (mallocat a n)" "keeps closure_init"
proof -
  show t: "keeps (the_table t)" for t unfolding the_table_def by (intro keeping; simp)
  show "keeps (pointerat_aux a)" "keeps (mallocat a n)" "keeps closure_init"
    unfolding pointerat_aux_def mallocat_def closure_init_def by (intro keeping t; simp)+
qed

lemma keeps_tree [keeping]:
  "keeps build_mallocat_tree" "keeps (find_mallocat a)" "keeps (append_pptr p)" "keeps (up_me e f)"
proof -
  have c: "keeps (init_mallocat_tree_callback k v)" for k v
    unfolding init_mallocat_tree_callback_def mallocat_entry_alloc_def by (intro keeping; simp)
  show "keeps build_mallocat_tree" unfolding build_mallocat_tree_def by (intro keeping c)
  show "keeps (find_mallocat a)" "keeps (append_pptr p)" "keeps (up_me e f)"
    unfolding find_mallocat_def append_pptr_def up_me_def by (intro keeping; simp)+
qed

lemma keeps_classify [keeping]: "keeps classify_pointers"
proof -
  have c: "keeps (classify_pointers_callback k v)" for k v
    unfolding classify_pointers_callback_def by (intro keeping; simp)
  have inner: "keeps (\<lambda>w. bindM (liftM (htable_filter (\<lambda>k v. classify_pointers_callback k v) ht w))
      (\<lambda>(ht, w1). modM (\<lambda>_. w1\<lparr>ht_pointerat := Some ht\<rparr>)) w)" for ht
    unfolding keeps_def
  proof (intro allI impI)
    fix w x w'
    assume w: "well_sized w" and r: "bindM (liftM (htable_filter (\<lambda>k v. classify_pointers_callback k v) ht w))
      (\<lambda>(ht, w1). modM (\<lambda>_. w1\<lparr>ht_pointerat := Some ht\<rparr>)) w = Inr (x, w')"
    then obtain ht' w1 where f: "htable_filter (\<lambda>k v. classify_pointers_callback k v) ht w = Inr (ht', w1)"
      "w' = w1\<lparr>ht_pointerat := Some ht'\<rparr>"
      by (cases "htable_filter (\<lambda>k v. classify_pointers_callback k v) ht w") (auto simp: bindM_def)
    have "well_sized w1"
      by (rule filter_keeps [where P = well_sized, OF _ w f(1)]) (use c in \<open>auto simp: keeps_def\<close>)
    then show "well_sized w'" using f(2) by (simp add: well_sized_def)
  qed
  show ?thesis unfolding classify_pointers_def bindM_getM using inner keeps_registration(1)
    unfolding keeps_def bindM_Inr by blast
qed

lemma keeps_moves [keeping]: "keeps move_volatile_allocations" "keeps fix_back_references" "keeps compute_closure"
proof -
  have m: "keeps (memcpy_bytes d s n)" for d s n by (induction n arbitrary: d s) (auto intro!: keeping)
  have f: "keeps (forget_pointer p)" for p unfolding forget_pointer_def by (intro keeping; simp)
  have a: "keeps (move_allocation e)" for e unfolding move_allocation_def by (intro keeping m f)
  have p: "keeps (persist_valloc l)" for l unfolding persist_valloc_def by (intro keeping a)
  have c: "keeps (move_volatile_allocations_callback se)" for se
    unfolding move_volatile_allocations_callback_def by (intro keeping p)
  show v: "keeps move_volatile_allocations"
    unfolding move_volatile_allocations_def slab_foreach_snapshot_entry_def by (intro keeping p c) simp
  have b: "keeps (fix_back_references_callback k v)" for k v
    unfolding fix_back_references_callback_def by (intro keeping; simp)
  show x: "keeps fix_back_references" unfolding fix_back_references_def by (intro keeping b)
  show "keeps compute_closure" unfolding compute_closure_def by (intro keeping v x)
qed


section \<open>The library as a state machine\<close>

text \<open>
  The calls of a process that uses the library, its stores to memory among them, and the start of a
  new process, which creates the container or restores it from the file.
\<close>

datatype call =
    Create env
  | Palloc u32
  | Store nat u8
  | Store_pointer nat nat
  | Register_pointer nat
  | Register_allocation nat nat
  | Setroot u64
  | Getroot
  | Cpoint

definition perform :: "call \<Rightarrow> unit M" where
  "perform c =
     (case c of
        Create env \<Rightarrow> bindM (container_init env) (\<lambda>_. retM ())
      | Palloc sz \<Rightarrow> bindM (container_palloc sz) (\<lambda>_. retM ())
      | Store a b \<Rightarrow> wr_byte a b
      | Store_pointer a v \<Rightarrow> wr_ptr a v
      | Register_pointer a \<Rightarrow> pointerat_aux a
      | Register_allocation a n \<Rightarrow> mallocat a n
      | Setroot a \<Rightarrow> bindM (container_setroot a) (\<lambda>_. retM ())
      | Getroot \<Rightarrow> bindM container_getroot (\<lambda>_. retM ())
      | Cpoint \<Rightarrow> container_cpoint)"

inductive lib_run :: "world \<Rightarrow> world \<Rightarrow> bool" where
  lib_start: "lib_run w w"
| lib_call: "lib_run w w1 \<Longrightarrow> perform c w1 = Inr ((), w2) \<Longrightarrow> lib_run w w2"
| lib_restart: "lib_run w w1 \<Longrightarrow> os_pages (w_os p) = os_pages (w_os w1) \<Longrightarrow> os_len (w_os p) = os_len (w_os w1) \<Longrightarrow>
    container_restore env p = Inr (c, w2) \<Longrightarrow> lib_run w w2"

inductive_cases lib_runE: "lib_run w w'"







end
