(* ===== verification/Reopen.thy ===== *)
theory Reopen
  imports Container
begin

text \<open>
  Opening a container that exists, with the fixed mapper.  The file is mapped read-only and the
  mapper has no index of its pages; so the first store of \<^verbatim>\<open>container_restore\<close>, to the page of the
  container, faults, and the signal handler finds no entry for it or no page to copy it to.
\<close>

section \<open>Operations that only read\<close>

definition pure :: "'a M \<Rightarrow> bool" where
  "pure m \<longleftrightarrow> (\<forall>w x w'. m w = Inr (x, w') \<longrightarrow> w' = w)"

lemma pure_basic: "pure (retM x)" "pure (errM e)" "pure (getM g)" "pure (page_of a)" "pure bad_page"
  by (auto simp: pure_def page_of_def bad_page_def split: option.splits if_splits)

lemma pure_bind: "pure m \<Longrightarrow> (\<And>x. pure (f x)) \<Longrightarrow> pure (bindM m f)"
  unfolding pure_def bindM_Inr by blast

lemma pure_index: "pure current_sd" "pure (find_entry t k)"
proof -
  have c: "pure (rd_cont a)" for a
    unfolding rd_cont_def by (intro pure_bind pure_basic) (auto intro: pure_basic split: page.split)
  have d: "pure (rd_dir a)" for a
    unfolding rd_dir_def by (intro pure_bind pure_basic) (auto intro: pure_basic split: page.split)
  show p: "pure current_sd"
    unfolding current_sd_def by (intro pure_bind pure_basic) (auto intro: pure_bind pure_basic c)
  show "pure (find_entry t k)" unfolding find_entry_def by (intro pure_bind pure_basic p d)
qed

section \<open>Faults without a free page\<close>

definition no_pages :: "world \<Rightarrow> bool" where
  "no_pages w \<longleftrightarrow> (\<forall>flags s. \<exists>e. page_allocator_getpage (w_pa w) flags (s :: page os) = Inl e)"

lemma getpage_fails: "no_pages w \<Longrightarrow> \<exists>e. getpage flags w = Inl e"
proof -
  assume "no_pages w"
  then obtain e where "page_allocator_getpage (w_pa w) flags (w_os w) = Inl e" unfolding no_pages_def by blast
  then show ?thesis by (simp add: getpage_def)
qed

lemma copies_fail:
  assumes "no_pages w"
  shows "\<exists>e. slab_entry_snapshot se w = Inl e" "\<exists>e. slab_entry_copynswap se w = Inl e"
  using getpage_fails [OF assms, of PA_PROT_WRITE]
  by (auto simp: slab_entry_snapshot_def slab_entry_copynswap_def bindM_def)

lemma handler_fails:
  assumes "no_pages w"
  shows "\<exists>e. handle_memory_update a w = Inl e"
proof (cases "handle_memory_update a w")
  case (Inr r)
  let ?w = "w\<lparr>w_os := stat STATS_INC_FAULTS (w_os w)\<rparr>"
  from Inr obtain x w1 where c: "current_sd w = Inr (x, w1)"
    and r: "bindM (find_entry SE_SEARCH_NORMAL (page_base a)) (\<lambda>found. case found of
       Some se \<Rightarrow>
         bindM (getM w_copynswap) (\<lambda>swap.
         thenM (if swap then slab_entry_copynswap se else slab_entry_snapshot se)
         (bindM (rd_se se) (\<lambda>e. mprotectM (d_maddr (se_cur e)) PAGE_SIZE PA_PROT_RNW)))
     | None \<Rightarrow> errM (Handle_error ''Got SIGSEGV'')) (w1\<lparr>w_os := stat STATS_INC_FAULTS (w_os w1)\<rparr>) = Inr r"
    by (auto simp only: handle_memory_update_def bindM_Inr thenM_modM)
  have "w1 = w" using pure_index(1) c unfolding pure_def by blast
  with r obtain found w2 where f: "find_entry SE_SEARCH_NORMAL (page_base a) ?w = Inr (found, w2)"
    and r2: "(case found of Some se \<Rightarrow>
         bindM (getM w_copynswap) (\<lambda>swap.
         thenM (if swap then slab_entry_copynswap se else slab_entry_snapshot se)
         (bindM (rd_se se) (\<lambda>e. mprotectM (d_maddr (se_cur e)) PAGE_SIZE PA_PROT_RNW)))
     | None \<Rightarrow> errM (Handle_error ''Got SIGSEGV'')) w2 = Inr r"
    by (auto simp only: bindM_Inr)
  have w2: "w2 = ?w" using pure_index(2) f unfolding pure_def by blast
  have "no_pages ?w" using assms by (simp add: no_pages_def)
  then have fail: "\<exists>e. (if w_copynswap ?w then slab_entry_copynswap se else slab_entry_snapshot se) ?w = Inl e" for se
    using copies_fail [of ?w se] by simp
  obtain se where "found = Some se" using r2 by (cases found) simp_all
  then show ?thesis using r2 fail [of se] unfolding w2 by (auto simp: thenM_def bindM_def)
qed blast

lemma touch_fails:
  assumes "no_pages w" "\<not> writable (os_prot (w_os w) (vpn a))"
  shows "\<exists>e. touch a w = Inl e"
proof -
  have "raw_touch a w = Inl (Segv a)" using assms(2) by (simp add: raw_touch_def split: option.splits)
  moreover obtain f where "handle_memory_update a w = Inl f" using handler_fails [OF assms(1)] by blast
  ultimately show ?thesis by (simp add: touch_def)
qed

section \<open>Opening the file\<close>

text \<open>The fixed mapper after opening a file that has pages.\<close>

lemma fixed_reopened:
  assumes "PAGE_SIZE \<le> os_len s" "fixed_mapper_init env s = Inr (h, s')"
  shows "fl_size h = 0" "index h = []" "PAGE_SIZE \<le> file_size h" "os_prot s' (vpn (start_addr h)) = PA_PROT_READ"
proof -
  have z: "os_len s \<noteq> 0" using assms(1) by (auto simp: PAGE_SIZE_def)
  let ?fm = "\<lparr>file_size = os_len s, start_addr = 0, fl_size = 0, fl_last = 0, links = LIST_INIT empty_links FREE_HEAD, index = []\<rparr>"
  have m: "map_file ?fm False s = Inr (h, s')" using assms(2) z by (simp add: fixed_mapper_init_def)
  then obtain a s2 where mm: "sys_mmap a (os_len s) DEFAULT_MAPPING_PROT 0 s = (a, s2)" "h = ?fm\<lparr>start_addr := a\<rparr>" "s' = s2"
    by (auto simp: map_file_def Let_def bindR_Inr_iff split: prod.splits)
  show "fl_size h = 0" "index h = []" "PAGE_SIZE \<le> file_size h" using mm(2) assms(1) by simp_all
  have "in_range a (os_len s) (vpn a)"
    using assms(1) by (simp add: in_range_def vpn_def vpn_end_def PAGE_SIZE_def)
  then show "os_prot s' (vpn (start_addr h)) = PA_PROT_READ"
    using mm by (auto simp: sys_mmap_def Let_def DEFAULT_MAPPING_PROT_def)
qed

lemma pa_reopened:
  assumes "\<not> set_page_allocator_ops env" "PAGE_SIZE \<le> os_len (w_os w)" "pa_init env w = Inr (u, w')"
  shows "no_pages w'" "os_prot (w_os w') (vpn (page_allocator_mappage (w_pa w') 0)) = PA_PROT_READ"
proof -
  obtain h s' where h: "fixed_mapper_init env (w_os w) = Inr (h, s')" "w' = w\<lparr>w_pa := Fixed h, w_os := s'\<rparr>"
    using assms(1,3) by (auto simp: pa_init_def page_allocator_init_def bindR_Inr_iff)
  note r = fixed_reopened [OF assms(2) h(1)]
  have "\<exists>e. page_allocator_getpage (Fixed h) flags s = Inl e" for flags and s :: "page os"
    using alloc_without_index [OF r(1-3), of flags "stat (INC_BOTH Alloc_cont_pg) s"]
    by (auto simp: page_allocator_getpage_def)
  then show "no_pages w'" using h(2) by (simp add: no_pages_def)
  show "os_prot (w_os w') (vpn (page_allocator_mappage (w_pa w') 0)) = PA_PROT_READ"
    using h(2) r(4) by (simp add: page_allocator_mappage_def fixed_mapper_getaddress_def)
qed

section \<open>Properties\<close>

text \<open>
  C13: An existing container cannot be opened again with the fixed mapper.  Whatever the file holds, and
  whatever the process, neither \<^verbatim>\<open>container_restore\<close> nor \<^verbatim>\<open>container_init\<close> returns: each ends in an
  error.
\<close>

theorem reopening_fails:
  assumes "\<not> set_page_allocator_ops env" "PAGE_SIZE \<le> os_len (w_os w)"
  shows "(\<exists>e. container_restore env w = Inl e) \<and> (\<exists>e. container_init env w = Inl e)"
proof (cases "pa_init env w")
  case (Inl e)
  then show ?thesis by (simp add: container_restore_def container_init_def thenM_def bindM_def)
next
  case (Inr r)
  then obtain u w1 where p: "pa_init env w = Inr (u, w1)" by (cases r) auto
  note re = pa_reopened [OF assms p]
  let ?c = "page_allocator_mappage (w_pa w1) CONTAINER_LIMA_ADDRESS"
  let ?w = "w1\<lparr>w_cont := ?c\<rparr>"
  have "no_pages ?w" "\<not> writable (os_prot (w_os ?w) (vpn ?c))"
    using re by (simp_all add: no_pages_def CONTAINER_LIMA_ADDRESS_def)
  from touch_fails [OF this] obtain e where "touch ?c ?w = Inl e" by blast
  then have "container_restore env w = Inl e"
    using p by (simp add: container_restore_def thenM_def bindM_def mappage_def up_cont_def)
  moreover obtain f where "getpage PA_PROT_WRITE w1 = Inl f" using getpage_fails [OF re(1)] by blast
  then have "container_init env w = Inl f"
    using p by (simp add: container_init_def thenM_def bindM_def)
  ultimately show ?thesis by blast
qed

theorem reopening_fails_witness:
  "\<exists>e. container_restore default_env demo_world = Inl e"
proof -
  have "\<not> set_page_allocator_ops default_env" "PAGE_SIZE \<le> os_len (w_os demo_world)"
    by (simp_all add: set_page_allocator_ops_def default_env_def demo_world_def demo_os_def PAGE_SIZE_def)
  from reopening_fails [OF this] show ?thesis by blast
qed

end
