(* ===== verification/Recycle.thy ===== *)
theory Recycle
  imports Slabptr
begin

text \<open>
  Pages that are used again.  The page allocators hand out a page with the contents it had when it
  was given back, and neither \<^verbatim>\<open>slab_entry_init\<close> nor the constructors of the nodes clear it.  The bitmap
  of small objects is in the data page, so an entry that has just been initialised has the bitmap
  of whatever its page held before.
\<close>

section \<open>A page with its old contents\<close>

lemma getpage_some:
  assumes m: "mem U c pr (Suc k) r w"
  shows "\<exists>a l w' x p. getpage flags w = Inr ((a, l), w') \<and> a \<notin> U \<and> page_at (w_os w') a = Some x \<and>
    mem (insert a U) (c(a := x)) (pr(a := p)) k r w'"
proof -
  let ?m = "(w_pa w, w_os w)"
  have inv: "pa_inv ?m" "0 < pa_spare ?m" "pa_in_use ?m = U" using m by (auto simp: mem_def)
  from pas.alloc_spare [OF inv(1,2), of flags] obtain a l m' where
    al: "pa_alloc ?m flags = Inr ((a, l), m')" "pa_spare m' = pa_spare ?m - 1"
      "\<forall>b\<in>U. pa_frame m' b = pa_frame ?m b \<and> pa_prot m' b = pa_prot ?m b" using inv(3) by blast
  from pa.alloc [OF inv(1) al(1)] have i: "pa_inv m'" "a \<notin> U" "pa_in_use m' = insert a U" using inv(3) by auto
  obtain p' s' where m': "m' = (p', s')" by force
  let ?w = "w\<lparr>w_pa := p', w_os := s'\<rparr>"
  have g: "getpage flags w = Inr ((a, l), ?w)" using al(1) m' by (simp add: getpage_def pa_alloc_def)
  obtain x where x: "page_at s' a = Some x" using pa.alloc_mapped [OF inv(1) al(1)] m' by auto
  have "page_at s' b = Some (c b) \<and> os_prot s' (vpn b) = pr b" if "b \<in> U" for b
    using pa.alloc_view [OF inv(1) al(1), of b] al(3) that m m' inv(3) by (auto simp: mem_def pa_prot_def)
  then have "mem (insert a U) (c(a := x)) (pr(a := pa_prot m' a)) k r ?w"
    using m i al(2) x m' by (auto simp: mem_def rest_def pa_prot_def)
  then show ?thesis using g i(2) x m' by (intro exI conjI) simp_all
qed

text \<open>The next page that is handed out holds the data \<^verbatim>\<open>x\<close>.\<close>

definition hands_out :: "nat \<Rightarrow> (nat \<Rightarrow> u8) \<Rightarrow> world \<Rightarrow> bool" where
  "hands_out flags x w \<longleftrightarrow>
     (\<forall>a l w'. getpage flags w = Inr ((a, l), w') \<longrightarrow> page_at (w_os w') a = Some (PData x))"

definition init_entry :: "nat \<Rightarrow> nat \<Rightarrow> nat \<Rightarrow> nat \<Rightarrow> slab_entry \<Rightarrow> slab_entry" where
  "init_entry a l sz i e =
     e\<lparr>se_cur := (se_cur e)\<lparr>d_maddr := a, d_laddr := l\<rparr>, se_snap := (se_snap e)\<lparr>d_maddr := a, d_laddr := l\<rparr>,
       ptr_cur := zero_pref, ptr_snap := zero_pref, se_size := sz, se_id := i\<rparr>"

lemma entry_init_ok:
  assumes m: "mem U c pr (Suc k) r w" and se: "page_base se \<in> U" "writable (pr (page_base se))" "entry_at c se = Some e"
    and x: "hands_out PA_PROT_READ x (w\<lparr>w_os := stat (INC_BOTH Se_init) (w_os w)\<rparr>)"
  shows "\<exists>a l c' p r' w'. slab_entry_init se sz w = Inr ((), w') \<and> a \<notin> U \<and> mem (insert a U) c' (pr(a := p)) k r' w' \<and>
    entry_at c' se = Some (init_entry a l sz (w_next_se r) e) \<and> c' a = PData x"
proof -
  let ?w = "w\<lparr>w_os := stat (INC_BOTH Se_init) (w_os w)\<rparr>" and ?i = "w_next_se r"
  have st: "statM Se_init w = Inr ((), ?w)" by (simp add: statM_def)
  have "mem U c pr (Suc k) r ?w" by (rule mem_stat [OF m])
  from getpage_some [OF this, of PA_PROT_READ] obtain a l w1 y p where
    g: "getpage PA_PROT_READ ?w = Inr ((a, l), w1)" "a \<notin> U" "page_at (w_os w1) a = Some y"
      "mem (insert a U) (c(a := y)) (pr(a := p)) k r w1" by blast
  have y: "y = PData x" using x g(1,3) by (auto simp: hands_out_def)
  have ne: "page_base se \<noteq> a" using se(1) g(2) by auto
  let ?c1 = "c(a := PData x)" and ?pr = "pr(a := p)"
  let ?f = "\<lambda>e. e\<lparr>se_cur := (se_cur e)\<lparr>d_maddr := a, d_laddr := l\<rparr>, se_snap := (se_snap e)\<lparr>d_maddr := a, d_laddr := l\<rparr>,
         ptr_cur := \<lparr>p_idx = 0, p_maddr = 0, p_laddr = 0\<rparr>, ptr_snap := \<lparr>p_idx = 0, p_maddr = 0, p_laddr = 0\<rparr>, se_size := sz\<rparr>"
  have e1: "entry_at ?c1 se = Some e" using se(3) ne by simp
  have b: "page_base se \<in> insert a U" "writable (?pr (page_base se))" using se(1,2) ne by auto
  obtain w2 where w2: "up_se touch se ?f w1 = Inr ((), w2)" "mem (insert a U) (with_entry ?c1 se ?f) ?pr k r w2"
    using endsD [OF total_up_se [of touch se "insert a U" ?pr ?c1 e k r ?f, OF _ b e1] g(4) [unfolded y]] by auto
  note e2 = entry_with_entry(1) [OF e1, of ?f]
  have nxt: "w_next_se w2 = ?i" using w2(2) by (auto simp: mem_def rest_def)
  let ?w3 = "w2\<lparr>w_next_se := (?i + 1) mod 2 ^ 32\<rparr>" and ?r = "r\<lparr>w_next_se := (?i + 1) mod 2 ^ 32\<rparr>"
  have m3: "mem (insert a U) (with_entry ?c1 se ?f) ?pr k ?r ?w3" using w2(2) by (auto simp: mem_def rest_def)
  let ?g = "\<lambda>e. e\<lparr>se_id := ?i\<rparr>"
  obtain w4 where w4: "up_se touch se ?g ?w3 = Inr ((), w4)"
    "mem (insert a U) (with_entry (with_entry ?c1 se ?f) se ?g) ?pr k ?r w4"
    using endsD [OF total_up_se [of touch se "insert a U" ?pr "with_entry ?c1 se ?f" _ k ?r ?g, OF _ b e2] m3] by auto
  have "se \<noteq> 0" using se(3) by (cases "se = 0") (auto simp: entry_at_def)
  then have "slab_entry_init se sz w = Inr ((), w4)"
    using st g(1) w2(1) w4(1) nxt
    by (simp add: slab_entry_init_def thenM_step bindM_step GET_NEXT_SLAB_ENTRY_ID_def)
  moreover have "entry_at (with_entry (with_entry ?c1 se ?f) se ?g) se = Some (init_entry a l sz ?i e)"
    using entry_with_entry(1) [OF e2, of ?g] by (simp add: init_entry_def zero_pref_def)
  moreover have "with_entry (with_entry ?c1 se ?f) se ?g a = PData x"
    using entry_with_entry(3) [OF e1] entry_with_entry(3) [OF e2] ne by simp
  ultimately show ?thesis using w4(2) g(2) by blast
qed

text \<open>
  C10: A new entry may be full.  When the page allocator hands out a page that was in use before, and
  its first bytes have the bits of all the slots set, the entry of small objects that is initialised
  with it counts as full at once, and the allocation from it returns NULL.
\<close>

theorem new_entry_may_be_full:
  assumes "mem U c pr (Suc k) r w" "page_base se \<in> U" "writable (pr (page_base se))" "entry_at c se = Some e"
    and "hands_out PA_PROT_READ x (w\<lparr>w_os := stat (INC_BOTH Se_init) (w_os w)\<rparr>)"
    and "sz = 8 * n" "0 < n" "n < 64" "\<forall>i<PAGE_SIZE div sz. bit_test x i \<noteq> 0"
  shows "\<exists>w'. slab_entry_init se sz w = Inr ((), w') \<and> slab_entry_full se w' = Inr (True, w') \<and>
    slab_entry_alloc_mem se w' = Inr (0, w')"
proof -
  obtain a l c' p r' w' where w': "slab_entry_init se sz w = Inr ((), w')" "a \<notin> U" "mem (insert a U) c' (pr(a := p)) k r' w'"
    and e': "entry_at c' se = Some (init_entry a l sz (w_next_se r) e)" "c' a = PData x"
    using entry_init_ok [OF assms(1-5), of sz] by blast
  let ?e = "init_entry a l sz (w_next_se r) e"
  have sz: "se_size ?e = 8 * n" "d_maddr (se_cur ?e) = a" "8 * n < SLAB_LARGE_ALLOC" "0 < 8 * n"
    using assms(6-8) by (simp_all add: init_entry_def SLAB_LARGE_ALLOC_def)
  have "SLAB_ENTRY_CAPACITY ?e = Inr ((PAGE_SIZE - bitstr_size (8 * n)) div (8 * n))"
    "SLAB_ENTRY_DATAOFFSET ?e = Inr (bitstr_size (PAGE_SIZE div (8 * n)))"
    using sz by (simp_all add: SLAB_ENTRY_CAPACITY_def SLAB_ENTRY_DATAOFFSET_def)
  moreover have ok: "entry_ok (insert a U) c' se ?e"
    using assms(2) e' sz by (simp add: entry_ok_def)
  moreover have "slot_used c' ?e i" if "i < (PAGE_SIZE - bitstr_size (8 * n)) div (8 * n)" for i
  proof -
    have "i < PAGE_SIZE div sz" using that assms(6) div_le_mono [of "PAGE_SIZE - bitstr_size (8 * n)" PAGE_SIZE "8 * n"] by simp
    then show ?thesis using assms(9) sz e'(2) by (simp add: slot_used_def bitmap_at_def)
  qed
  ultimately have "slab_entry_full se w' = Inr (True, w')" "slab_entry_alloc_mem se w' = Inr (0, w')"
    using slab_entry_full_ok [OF w'(3) ok] alloc_mem_full [OF w'(3) ok] by simp_all
  then show ?thesis using w'(1) by blast
qed

text \<open>The example container, with bytes in its free page that are all ones.\<close>

definition used_world :: world where
  "used_world = demo_world\<lparr>w_os := demo_os\<lparr>os_pages := demo_contents(7 := PData (\<lambda>_. - 1))\<rparr>\<rparr>"

definition used_c :: "nat \<Rightarrow> page" where "used_c a = the (page_at (w_os used_world) a)"

lemma used_mem: "mem demo_used used_c demo_pr (Suc 0) (rest used_world) used_world"
  unfolding used_c_def [abs_def] by (rule shown_mem) (simp_all add: used_world_def demo_world_def)

lemma used_hands_out: "hands_out PA_PROT_READ (\<lambda>_. - 1) (used_world\<lparr>w_os := stat f (w_os used_world)\<rparr>)"
proof -
  let ?w = "used_world\<lparr>w_os := stat f (w_os used_world)\<rparr>"
  let ?s = "stat (INC_BOTH Alloc_cont_pg) (w_os ?w)"
  have mp: "fm_mapped demo_mapper ?s" using demo_rep(3) by (simp add: fm_mapped_def used_world_def stat_def)
  have room: "fm_room demo_mapper ?s" by (simp add: fm_room_def demo_mapper_def)
  have "\<not> writable PA_PROT_READ" by (simp add: writable_def PA_PROT_READ_def)
  then obtain h' where h': "fixed_mapper_alloc_page demo_mapper PA_PROT_READ ?s = Inr ((page_addr demo_mapper 7, 7 * PAGE_SIZE), h', ?s)"
    using alloc_page_ok [OF demo_rep(2) mp _ room, of PA_PROT_READ] demo_rep(1) by auto
  have pa: "w_pa ?w = Fixed demo_mapper" by (simp add: used_world_def demo_world_def)
  have g: "getpage PA_PROT_READ ?w = Inr ((page_addr demo_mapper 7, 7 * PAGE_SIZE), ?w\<lparr>w_pa := Fixed h', w_os := ?s\<rparr>)"
    using h' pa by (simp add: getpage_def page_allocator_getpage_def Let_def)
  have "page_at ?s (page_addr demo_mapper 7) = Some (PData (\<lambda>_. - 1))"
    by (simp add: page_at_def used_world_def stat_def demo_os_def page_addr_def demo_mapper_def vpn_def PAGE_SIZE_def)
  then show ?thesis unfolding hands_out_def g by simp
qed

theorem new_entry_may_be_full_witness:
  "\<exists>w'. slab_entry_init (se_addr (demo_page 2) 1) 64 used_world = Inr ((), w') \<and>
     slab_entry_alloc_mem (se_addr (demo_page 2) 1) w' = Inr (0, w')"
proof -
  let ?se = "se_addr (demo_page 2) 1"
  have pg: "page_base ?se = demo_page 2" "se_index ?se = 1"
    using se_addr_page [of "demo_page 2" 1] mem_page(3) [OF demo_mem, of "demo_page 2"] by (simp_all add: entries_numbers)
  have "used_c (demo_page 2) = PBucket demo_bucket"
    unfolding used_c_def page_at_def demo_at(2) by (simp add: used_world_def demo_os_def demo_contents_def)
  then have e: "entry_at used_c ?se = Some zero_entry"
    unfolding entry_at_def pg by (simp add: demo_bucket_def entries_numbers se_addr_def)
  have wr: "page_base ?se \<in> demo_used" "writable (demo_pr (page_base ?se))"
    unfolding pg demo_views(2) by (simp_all add: writable_def PA_PROT_WRITE_def)
  have ones: "\<forall>i<PAGE_SIZE div 64. bit_test (\<lambda>_. - 1 :: u8) i \<noteq> 0"
    by (simp add: bits_def)
  show ?thesis
    using new_entry_may_be_full [OF used_mem wr e used_hands_out, of 64 8] ones by auto
qed

end
