(* ===== verification/Spec2Isabelle.thy ===== *)
theory Spec2Isabelle
  imports Debug Sfhandler Types Reopen Recycle Queue Hash
begin

text \<open>
  LibPM keeps C data structures in a persistent container: a file that is mapped into the process,
  whose pages the library hands out, allocates objects from, checkpoints and restores.  This
  development models the library under \<^verbatim>\<open>src/src\<close> and proves what its parts do, down to the words
  and the links of the lists, and what they do together in a transaction.

  \<^bold>\<open>The program and the theories.\<close>  Each theory models the files named with it; functions and macros
  keep their names.

  \<^item> \<^verbatim>\<open>Prelude\<close>: word types, failures (\<^verbatim>\<open>fail\<close>: \<^verbatim>\<open>handle_error\<close>, assertions, SIGSEGV, undefined
    accesses, loops that never end), the sequencing \<^verbatim>\<open>bindR\<close> of fallible calls, shared lemmas.
  \<^item> \<^verbatim>\<open>Macros\<close> (\<^verbatim>\<open>settings.h\<close>, \<^verbatim>\<open>utils/macros.h\<close>), \<^verbatim>\<open>Bitstring\<close> (\<^verbatim>\<open>utils/bitstring.h\<close>), \<^verbatim>\<open>Vector\<close>
    (\<^verbatim>\<open>utils/vector.h\<close>), \<^verbatim>\<open>Hash\<close> (\<^verbatim>\<open>hash.c\<close>), \<^verbatim>\<open>Htable\<close> (\<^verbatim>\<open>htable.c\<close>), \<^verbatim>\<open>Queue\<close> (\<^verbatim>\<open>utils/queue.h\<close>),
    \<^verbatim>\<open>Keyorder\<close>, \<^verbatim>\<open>Rbtree\<close> and \<^verbatim>\<open>Splay\<close> (\<^verbatim>\<open>utils/tree.h\<close>), \<^verbatim>\<open>Stats\<close> (\<^verbatim>\<open>stats.c\<close>): the data structures.
    The list macros are pointer programs over a store of links with explicit aliasing; a red-black
    tree is its tree of nodes with a path to the node in focus, so that the rotations of the C code
    are local steps.
  \<^item> \<^verbatim>\<open>Os\<close>: the container file and its mapping (\<^verbatim>\<open>os\<close>: length, contents, address to file page,
    protection), with the system calls the mappers make, and the interfaces of a page allocator,
    the locales \<^verbatim>\<open>page_source\<close>, \<^verbatim>\<open>page_memory\<close> and \<^verbatim>\<open>page_store\<close>.  What the kernel decides (the place
    of a mapping, the space of the file system, \<^verbatim>\<open>/proc/self/maps\<close>) is a field of the state.
  \<^item> \<^verbatim>\<open>Fixmapper\<close> (\<^verbatim>\<open>fixmapper.c\<close>), \<^verbatim>\<open>Nlmapper\<close> (\<^verbatim>\<open>nlmapper.c\<close>), \<^verbatim>\<open>PageAlloc\<close> (\<^verbatim>\<open>page_alloc.c\<close>): the two
    page allocators and the table that chooses one; each theory interprets the locales on its
    operations.
  \<^item> \<^verbatim>\<open>Slabmem\<close> (\<^verbatim>\<open>slabInt.h\<close>, \<^verbatim>\<open>cont.h\<close>, \<^verbatim>\<open>atomics.c\<close>): the structures in the pages (\<^verbatim>\<open>page\<close>), the state
    of the process (\<^verbatim>\<open>world\<close>), operations as functions \<^verbatim>\<open>world \<Rightarrow> ('a \<times> world) res\<close>, loads and stores
    with page protection, flushes.
  \<^item> \<^verbatim>\<open>Memlogic\<close>: total correctness of these operations: \<^verbatim>\<open>ends P m Q\<close>, the assertion \<^verbatim>\<open>mem\<close> on the
    pages in use, and a rule for every primitive, from the laws of \<^verbatim>\<open>page_store\<close>; with \<^verbatim>\<open>memz True\<close>
    the free pages are those of a new file, zero and read-only.
  \<^item> \<^verbatim>\<open>Snapshot\<close> (\<^verbatim>\<open>snapshot.c\<close>): index, SIGSEGV handler, snapshots; a store (\<^verbatim>\<open>touch\<close>) to a protected
    page runs the handler and is retried.  \<^verbatim>\<open>Cow\<close>: its correctness.
  \<^item> \<^verbatim>\<open>Slab\<close> (\<^verbatim>\<open>slab.c\<close>, \<^verbatim>\<open>alloc.c\<close>): constructors, free list, growth of the directory, slots,
    \<^verbatim>\<open>slab_palloc\<close>.  \<^verbatim>\<open>Slabptr\<close> (\<^verbatim>\<open>slab.c\<close>): identifiers, persistent pointers, root object.
  \<^item> \<^verbatim>\<open>Checkpoint\<close> (\<^verbatim>\<open>checkpoint.c\<close>), \<^verbatim>\<open>Restore\<close> (\<^verbatim>\<open>restore.c\<close>), \<^verbatim>\<open>Closure\<close> (\<^verbatim>\<open>closure.c\<close>), \<^verbatim>\<open>Container\<close>
    (\<^verbatim>\<open>cont.c\<close>): the rest of the library up to its interface.
  \<^item> \<^verbatim>\<open>Commit\<close>: transactions, the composition of handler, allocator, checkpoint and restore.
    \<^verbatim>\<open>Bucket\<close>: the checkpoint of one bucket, with any mixture of entries.  \<^verbatim>\<open>Transact\<close>: transactions
    through the interface, allocation, stores and checkpoint, in a directory with one bucket.
    \<^verbatim>\<open>Types\<close>: the library as a state machine and the sizes of the entries in every state it reaches.  \<^verbatim>\<open>Reopen\<close>: opening a file
    that exists.  \<^verbatim>\<open>Recycle\<close>: a new entry in a page that was used before.  \<^verbatim>\<open>Fresh\<close>: from an empty file
    through \<^verbatim>\<open>container_init\<close> and the first allocation to committed objects.
  \<^item> \<^verbatim>\<open>Sfhandler\<close> (\<^verbatim>\<open>sfhandler.c\<close>, the constructor of \<^verbatim>\<open>cont.c\<close>): the registration of the handler and the
    start of the library with its log; the store of the memory model is the store of this process.
  \<^item> \<^verbatim>\<open>Fixptr\<close> (\<^verbatim>\<open>fixptr.c\<close>): the earlier list of pointers, with the current and the committed version
    of an inode as two sequences.  \<^verbatim>\<open>Debug\<close> (\<^verbatim>\<open>debug.c\<close>, the prints of \<^verbatim>\<open>fixptr.c\<close>): the texts of the
    debug output.
  \<^item> \<^verbatim>\<open>Out\<close> (\<^verbatim>\<open>out.c\<close>): levels, prefix and text of the log lines, the error strings and the buffers
    of the two formatting functions.

  \<^bold>\<open>What the lemmas show.\<close>  Data structures: the list, tree, table, vector and bitmap operations
  refine operations on lists, ordered lists and finite maps, keep their invariants (search order,
  red-black balance, chains in their buckets) and return.  Page allocators: both refine a queue of
  free pages; pages in use are apart and keep their contents and protection when others are
  allocated.  Slab: the index finds the entry of an address; a store to a protected page leaves a
  copy behind and nothing else changes; the slots of an entry are handed out in order; identifiers,
  pointers and the root are resolved.  Transactions, each an allocation, a store and a checkpoint,
  succeed and commit the object within these limits: the closure is off (\<^verbatim>\<open>PMLIB_CLOSURE=0\<close>; it is on
  without the variable), objects of one size below 512 and not 8, 16, 24 or 56, in one data page of
  which a slot stays free, without a page of pointers, in a bucket whose index in its inner node is
  the number of the node, with two free pages; a process with the fixed mapper that starts with an
  empty file of eight pages or more reaches such a state with its first transaction.  The list of pointers refines a sequence with a committed
  version.  Where the
  code does not do what it means to, the theorem states what it does: transactions that only store
  are not committed, an entry in a recycled page may be full from the start, the root of an object
  inside a page is lost, existing files are not reopened correctly, some slots lie outside their page,
  a vector loop reads behind its buffer, pointers of an unfinished transaction survive the restore of
  their list.  Types: in every reachable state the size of each slab entry is a multiple of eight and
  at most a page, so that its data page is divided into slots.

  \<^bold>\<open>Bounds and fuel.\<close>  The word operations of the macros, hashes and the root are on words of their
  width; sizes, addresses and counters of pages are natural numbers, with the wrap-around written out
  where it can be reached (numbers of buckets and entries, element counts of the tables, the index of
  the pointers as a 16-bit word).  Loops are structural recursion or have a measure; searches in
  bit strings, traversals of linked lists and trees, loops over vectors that their body extends and
  loops over chains of inodes are partial functions whose value \<^verbatim>\<open>None\<close> is a loop that does not end.
  The loops of the checkpoint and the restore over the children of a node read their bound once, where
  the code reads it in every round; their bodies do not change it.  The loop that closes the tree of the non-linear mapper has as
  fuel the number of its elements, and the shutdown is shown to succeed with it.

  \<^bold>\<open>Conventions of the memory model.\<close>  A page holds bytes or one structure; a page of zeroes can be
  read as any of them.  The links of the volatile lists and trees, which the C code keeps in the
  entries, are in a link store of the process and in tree values of the directory; the code builds
  them again before it follows the links of a copied page.  A fault inside the handler ends the
  process.  Flushes count in the statistics and have no other effect: the model has no caches, so
  nothing is said about the order in which stores reach the medium.

  \<^bold>\<open>Not modelled.\<close>  Benchmarks and tests, which only call the library, and the vendored SQLite and
  tpl.  A crash between two stores of one call is not a state of the model: restarts happen
  between calls.  The handlers an application may install itself are not followed.  The
  expansion of log formats knows conversions of one letter only.

  \<^bold>\<open>Further work.\<close>  The transactions of a directory with several buckets; the restore in
  a process with another start address; the swap of pages in the handler; lists of pointers with
  several inodes, whose operations are modelled and whose lemmas are about the last one.
\<close>

end
